(* ===== verification/K_Prelude.thy ===== *)
theory K_Prelude
  imports Main "HOL-Library.Word" "HOL-Library.Monad_Syntax"
begin

unbundle bit_operations_syntax

text \<open>
  Shared vocabulary of the development: the kernel's error numbers, C integers, failed
  assertions, the outcomes of \<^verbatim>\<open>kmalloc\<close>, and the generic lemmas the component theories use.

  Conventions used by every component.
  \<^item> A kernel routine is a function that returns an \<open>option\<close>. \<open>None\<close> means that the kernel does
    not continue: \<^verbatim>\<open>panic\<close> was called, an \<^verbatim>\<open>assert\<close> failed, or the C standard gives the code no
    meaning (signed overflow, a read of uninitialised or freed memory).
  \<^item> Inside it, an error number returned to the caller is \<open>Inl e\<close>, and success is \<open>Inr x\<close>, where
    \<open>x\<close> collects what the C code hands back through its out-parameters.
  \<^item> Whether the successive calls of \<^verbatim>\<open>kmalloc\<close> succeed is read from a list of booleans that is
    part of the state, so a theorem over every such list covers every pattern of failures.
\<close>

section \<open>Error numbers\<close>

datatype errno =
    EINVAL | EFAULT | ENAMETOOLONG | ENOMEM | EIO | ENOENT | ENOTDIR | EISDIR | EEXIST
  | EXDEV | EAGAIN | ESPIPE | EUNIMP | ENXIO | ENODEV | EBUSY | EIOCTL | ENOTEMPTY
  | ERANGE | ENOSPC | EMFILE | ENFILE | ENOSYS | ENOEXEC | E2BIG | EBADF | ESRCH

type_synonym 'a res = "errno + 'a"

section \<open>Assertions\<close>

definition kassert :: "bool \<Rightarrow> unit option" where
  "kassert b = (if b then Some () else None)"

lemma kassert_simps [simp]:
  "kassert True = Some ()" "kassert False = None"
  by (simp_all add: kassert_def)

lemma kassert_eq_Some [simp]: "kassert b = Some u \<longleftrightarrow> b"
  by (simp add: kassert_def)

lemma kassert_bind_Some [simp]:
  "Option.bind (kassert b) f = Some x \<longleftrightarrow> b \<and> f () = Some x"
  by (simp add: kassert_def)

lemma kassert_bind_None:
  "Option.bind (kassert b) f = None \<longleftrightarrow> (b \<longrightarrow> f () = None)"
  by (simp add: kassert_def)

lemma kassert_bind_True: "b \<Longrightarrow> Option.bind (kassert b) f = f ()"
  by simp

section \<open>C integers\<close>

abbreviation (input) INT_MAX :: int where "INT_MAX \<equiv> 2147483647"
abbreviation (input) INT_MIN :: int where "INT_MIN \<equiv> - 2147483648"

text \<open>The result of a computation on \<^verbatim>\<open>int\<close>: signed overflow is undefined.\<close>

definition cint :: "int \<Rightarrow> int option" where
  "cint x = (if INT_MIN \<le> x \<and> x \<le> INT_MAX then Some x else None)"

lemma cint_Some [simp]: "cint x = Some y \<longleftrightarrow> y = x \<and> INT_MIN \<le> x \<and> x \<le> INT_MAX"
  by (auto simp: cint_def)

lemma cint_in_range: "INT_MIN \<le> x \<Longrightarrow> x \<le> INT_MAX \<Longrightarrow> cint x = Some x"
  by simp

lemma cint_bind [simp]:
  "INT_MIN \<le> x \<Longrightarrow> x \<le> INT_MAX \<Longrightarrow> Option.bind (cint x) f = f x"
  by (simp add: cint_def)

section \<open>Memory\<close>

text \<open>
  \<open>kmem\<close>: the outcomes of the next calls of \<^verbatim>\<open>kmalloc\<close>, \<open>True\<close> for success. A list that has run
  out stands for calls that succeed.
\<close>

type_synonym kmem = "bool list"

fun kmalloc :: "kmem \<Rightarrow> bool \<times> kmem" where
  "kmalloc [] = (True, [])"
| "kmalloc (b # m) = (b, m)"

text \<open>
  An array of \<open>n\<close> pointers: the byte count \<^verbatim>\<open>n * sizeof(void *)\<close> has to fit in a \<^verbatim>\<open>size_t\<close>,
  otherwise the block is shorter than the code believes. Fresh cells are uninitialised.
\<close>

definition kmalloc_ptrs :: "int \<Rightarrow> kmem \<Rightarrow> ('a option list option \<times> kmem) option" where
  "kmalloc_ptrs n m =
     (if 0 \<le> n \<and> n * 4 < 2 ^ 32
      then (case kmalloc m of (ok, m') \<Rightarrow>
              Some (if ok then Some (replicate (nat n) None) else None, m'))
      else None)"

lemma kmalloc_ptrs_Some:
  "kmalloc_ptrs n m = Some (r, m') \<longleftrightarrow>
     0 \<le> n \<and> n * 4 < 2 ^ 32 \<and> m' = snd (kmalloc m) \<and>
     r = (if fst (kmalloc m) then Some (replicate (nat n) None) else None)"
  by (auto simp: kmalloc_ptrs_def split: prod.splits)

section \<open>Lists, options, words\<close>

lemma bind_SomeE:
  assumes "Option.bind m f = Some y"
  obtains x where "m = Some x" and "f x = Some y"
  using assms by (auto simp: Option.bind_eq_Some_conv)

lemma take_list_update_Suc: "i < length xs \<Longrightarrow> take (Suc i) (xs[i := x]) = take i xs @ [x]"
  by (simp add: take_Suc_conv_app_nth)

lemma map_the_Some: "(\<forall>x \<in> set xs. x \<noteq> None) \<Longrightarrow> map Some (map the xs) = xs"
  by (induction xs) auto

lemma nth_not_None:
  assumes "\<forall>x \<in> set xs. x \<noteq> None" and "i < length xs"
  shows "xs ! i = Some (map the xs ! i)"
  using assms by (metis nth_map nth_mem option.collapse)

lemma split_index: "off < k \<Longrightarrow> i = ix * k + off \<longleftrightarrow> i div k = ix \<and> i mod k = off" for k :: nat
  by auto

lemma le_div_mod:
  fixes k :: nat
  shows "n \<le> i \<longleftrightarrow> n div k < i div k \<or> (n div k = i div k \<and> n mod k \<le> i mod k)"
proof -
  have "n div k < i div k \<Longrightarrow> n \<le> i"
    by (metis div_le_mono linorder_not_le nat_less_le)
  moreover have "n div k = i div k \<Longrightarrow> n mod k \<le> i mod k \<longleftrightarrow> n \<le> i"
    by (metis add_le_cancel_left div_mult_mod_eq)
  ultimately show ?thesis using div_le_mono [of n i k] by (metis le_neq_implies_less)
qed

lemma round_up_div:
  "0 < k \<Longrightarrow> (n + k - 1) div k = (if n mod k = 0 then n div k else Suc (n div k))" for k :: nat
proof -
  assume k: "0 < k"
  have n: "n + k - 1 = n div k * k + (n mod k + k - 1)"
    using k by (metis Nat.add_diff_assoc add.assoc div_mult_mod_eq less_eq_Suc_le trans_le_add2 One_nat_def)
  have "(n mod k + k - 1) div k = (if n mod k = 0 then 0 else 1)"
  proof (cases "n mod k = 0")
    case False
    then have "n mod k + k - 1 = k + (n mod k - 1)" "n mod k - 1 < k"
      using k by (auto intro: less_imp_diff_less)
    moreover have "(k + (n mod k - 1)) div k = 1"
      using k \<open>n mod k - 1 < k\<close> by (subst div_add_self1) auto
    ultimately show ?thesis using False by simp
  qed (use k in simp)
  moreover have "(n + k - 1) div k = n div k + (n mod k + k - 1) div k"
    unfolding n using k by (simp only: div_mult_self3 neq0_conv)
  ultimately show ?thesis by simp
qed

end
