(* ===== verification/K_Array.thy ===== *)
theory K_Array
  imports K_Prelude
begin

text \<open>
  The kernel's resizable pointer array, \<^verbatim>\<open>kern/lib/array.c\<close>. The record mirrors
  \<^verbatim>\<open>struct array\<close>: \<open>a_v\<close> is \<open>None\<close> for a NULL vector, and a cell of the vector is \<open>None\<close> while
  it is uninitialised. \<open>array_list\<close> is the sequence the array stands for, and the locale
  \<open>dyn_array\<close> is the contract its clients (the thread system, SFS) rely on.
\<close>

section \<open>The code\<close>

record 'a karray =
  a_num :: int
  a_max :: int
  a_v :: "'a option list option"

definition array_create :: "kmem \<Rightarrow> 'a karray option \<times> kmem" where
  "array_create m = (case kmalloc m of (ok, m') \<Rightarrow>
     (if ok then Some \<lparr>a_num = 0, a_max = 0, a_v = None\<rparr> else None, m'))"

definition array_getnum :: "'a karray \<Rightarrow> int" where
  "array_getnum a = a_num a"

text \<open>Reading cell \<open>i\<close> of a vector; a NULL vector, a cell out of range or an uninitialised
  cell has no value.\<close>

definition cell_get :: "'a option list option \<Rightarrow> nat \<Rightarrow> 'a option" where
  "cell_get v i = (case v of None \<Rightarrow> None | Some xs \<Rightarrow> if i < length xs then xs ! i else None)"

definition cell_set :: "'a option list option \<Rightarrow> nat \<Rightarrow> 'a \<Rightarrow> 'a option list option option" where
  "cell_set v i x =
     (case v of None \<Rightarrow> None
      | Some xs \<Rightarrow> if i < length xs then Some (Some (xs[i := Some x])) else None)"

definition array_getguy :: "'a karray \<Rightarrow> int \<Rightarrow> 'a option" where
  "array_getguy a index = do {
     kassert (a_num a \<le> a_max a);
     kassert (0 \<le> index \<and> index < a_num a);
     cell_get (a_v a) (nat index)
   }"

text \<open>The loop \<^verbatim>\<open>while (nguys > newmax) newmax = (newmax+1)*2\<close>. The assertion before it gives
  \<open>0 \<le> newmax\<close>; the overflow of the doubling is undefined.\<close>

function array_newmax :: "int \<Rightarrow> int \<Rightarrow> int option" where
  "array_newmax nguys newmax =
     (if nguys > newmax
      then if 0 \<le> newmax \<and> (newmax + 1) * 2 \<le> INT_MAX
           then array_newmax nguys ((newmax + 1) * 2) else None
      else Some newmax)"
  by pat_completeness auto
termination
  by (relation "measure (\<lambda>(nguys, newmax). nat (nguys - newmax))") auto

declare array_newmax.simps [simp del]

definition array_preallocate :: "'a karray \<Rightarrow> int \<Rightarrow> kmem \<Rightarrow> (unit res \<times> 'a karray \<times> kmem) option" where
  "array_preallocate a nguys m = do {
     kassert (a_num a \<ge> 0 \<and> a_num a \<le> a_max a);
     newmax \<leftarrow> array_newmax nguys (a_max a);
     (newv, m) \<leftarrow> kmalloc_ptrs newmax m;
     case newv of
       None \<Rightarrow> Some (Inl ENOMEM, a, m)
     | Some cells \<Rightarrow> do {
         old \<leftarrow> (case a_v a of None \<Rightarrow> if a_num a = 0 then Some [] else None | Some xs \<Rightarrow> Some xs);
         Some (Inr (), a\<lparr>a_max := newmax,
                         a_v := Some (take (nat (a_num a)) old @ drop (nat (a_num a)) cells)\<rparr>, m)
       }
   }"

definition array_setsize :: "'a karray \<Rightarrow> int \<Rightarrow> kmem \<Rightarrow> (unit res \<times> 'a karray \<times> kmem) option" where
  "array_setsize a nguys m = do {
     kassert (a_num a \<ge> 0 \<and> a_num a \<le> a_max a);
     if nguys > a_max a then do {
       (r, a, m) \<leftarrow> array_preallocate a nguys m;
       case r of
         Inl e \<Rightarrow> Some (Inl e, a, m)
       | Inr _ \<Rightarrow> Some (Inr (), a\<lparr>a_num := nguys\<rparr>, m)
     }
     else if nguys = 0 \<and> a_max a > 16 then do {
       kassert (a_v a \<noteq> None);
       Some (Inr (), a\<lparr>a_v := None, a_max := 0, a_num := nguys\<rparr>, m)
     }
     else Some (Inr (), a\<lparr>a_num := nguys\<rparr>, m)
   }"

definition array_setguy :: "'a karray \<Rightarrow> int \<Rightarrow> 'a \<Rightarrow> 'a karray option" where
  "array_setguy a index ptr = do {
     kassert (a_num a \<le> a_max a);
     kassert (0 \<le> index \<and> index < a_num a);
     v \<leftarrow> cell_set (a_v a) (nat index) ptr;
     Some (a\<lparr>a_v := v\<rparr>)
   }"

definition array_add :: "'a karray \<Rightarrow> 'a \<Rightarrow> kmem \<Rightarrow> (unit res \<times> 'a karray \<times> kmem) option" where
  "array_add a guy m = do {
     let ix = a_num a;
     n \<leftarrow> cint (ix + 1);
     (r, a, m) \<leftarrow> array_setsize a n m;
     case r of
       Inl e \<Rightarrow> Some (Inl e, a, m)
     | Inr _ \<Rightarrow> do {
         v \<leftarrow> cell_set (a_v a) (nat ix) guy;
         Some (Inr (), a\<lparr>a_v := v\<rparr>, m)
       }
   }"

text \<open>\<^verbatim>\<open>memmove(v+index, v+index+1, nmove*sizeof(void *))\<close> moves \<open>nmove\<close> cells down by one and
  leaves the cells after them as they are.\<close>

definition memmove_down :: "'a list \<Rightarrow> nat \<Rightarrow> nat \<Rightarrow> 'a list" where
  "memmove_down xs i n = take i xs @ take n (drop (Suc i) xs) @ drop (i + n) xs"

definition array_remove :: "'a karray \<Rightarrow> int \<Rightarrow> 'a karray option" where
  "array_remove a index = do {
     kassert (a_num a \<le> a_max a);
     kassert (0 \<le> index \<and> index < a_num a);
     let nmove = a_num a - (index + 1);
     xs \<leftarrow> a_v a;
     Some (a\<lparr>a_v := Some (memmove_down xs (nat index) (nat nmove)), a_num := a_num a - 1\<rparr>)
   }"

section \<open>Invariant and abstraction\<close>

text \<open>The vector has \<open>a_max\<close> cells, and the first \<open>a_num\<close> of them are initialised.\<close>

definition array_inv :: "'a karray \<Rightarrow> bool" where
  "array_inv a \<longleftrightarrow> 0 \<le> a_num a \<and> a_num a \<le> a_max a \<and> a_max a < 2 ^ 30 \<and>
     (case a_v a of
        None \<Rightarrow> a_max a = 0
      | Some xs \<Rightarrow> int (length xs) = a_max a \<and> (\<forall>c \<in> set (take (nat (a_num a)) xs). c \<noteq> None))"

definition array_list :: "'a karray \<Rightarrow> 'a list" where
  "array_list a = (case a_v a of None \<Rightarrow> [] | Some xs \<Rightarrow> map the (take (nat (a_num a)) xs))"


lemma array_newmax_bounds:
  "0 \<le> newmax \<Longrightarrow> nguys < 2 ^ 29 \<Longrightarrow>
     \<exists>n. array_newmax nguys newmax = Some n \<and> nguys \<le> n \<and> newmax \<le> n \<and> n \<le> max newmax (2 * nguys)"
proof (induction nguys newmax rule: array_newmax.induct)
  case (1 nguys newmax)
  show ?case
  proof (cases "nguys > newmax")
    case True
    with 1 have "(newmax + 1) * 2 \<le> INT_MAX" by simp
    with True "1.prems" "1.IH" obtain n where
      "array_newmax nguys ((newmax + 1) * 2) = Some n" "nguys \<le> n" "(newmax + 1) * 2 \<le> n"
      "n \<le> max ((newmax + 1) * 2) (2 * nguys)"
      by auto
    with True "1.prems" \<open>(newmax + 1) * 2 \<le> INT_MAX\<close> show ?thesis
      by (subst array_newmax.simps) auto
  next
    case False
    then show ?thesis by (subst array_newmax.simps) auto
  qed
qed

lemma array_newmax_Some:
  "array_newmax nguys newmax = Some n \<Longrightarrow> nguys \<le> n \<and> newmax \<le> n"
proof (induction nguys newmax rule: array_newmax.induct)
  case (1 nguys newmax)
  show ?case
  proof (cases "nguys > newmax")
    case True
    with "1.prems" have ok: "0 \<le> newmax \<and> (newmax + 1) * 2 \<le> INT_MAX"
      and "array_newmax nguys ((newmax + 1) * 2) = Some n"
      by (auto simp: array_newmax.simps [of nguys newmax] split: if_splits)
    with "1.IH" True show ?thesis by simp
  next
    case False
    with "1.prems" show ?thesis by (auto simp: array_newmax.simps [of nguys newmax])
  qed
qed

lemma length_array_list: "array_inv a \<Longrightarrow> int (length (array_list a)) = a_num a"
  by (auto simp: array_inv_def array_list_def split: option.splits)

lemma array_getnum_list: "array_inv a \<Longrightarrow> array_getnum a = int (length (array_list a))"
  by (simp add: array_getnum_def length_array_list)

lemma array_inv_bounds: "array_inv a \<Longrightarrow> 0 \<le> a_num a \<and> a_num a \<le> a_max a \<and> a_max a < 2 ^ 30"
  by (simp add: array_inv_def)

lemma array_inv_cells:
  assumes "array_inv a" and "0 < a_max a"
  obtains xs where "a_v a = Some xs" and "int (length xs) = a_max a"
    and "\<forall>c \<in> set (take (nat (a_num a)) xs). c \<noteq> None"
  using assms by (auto simp: array_inv_def split: option.splits)

lemma array_inv_SomeI:
  "0 \<le> n \<Longrightarrow> n \<le> mx \<Longrightarrow> mx < 2 ^ 30 \<Longrightarrow> int (length xs) = mx \<Longrightarrow>
   \<forall>c \<in> set (take (nat n) xs). c \<noteq> None \<Longrightarrow> array_inv \<lparr>a_num = n, a_max = mx, a_v = Some xs\<rparr>"
  by (simp add: array_inv_def)

lemma array_create_spec:
  "array_create m = (Some a, m') \<Longrightarrow> array_inv a \<and> array_list a = []"
  by (auto simp: array_create_def array_inv_def array_list_def split: prod.splits if_splits)

lemma array_getguy_nth:
  assumes inv: "array_inv a" and i: "0 \<le> i" "i < int (length (array_list a))"
  shows "array_getguy a i = Some (array_list a ! nat i)"
proof -
  from inv i have n: "i < a_num a" by (simp add: length_array_list)
  from inv i n have "0 < a_max a" by (simp add: array_inv_def)
  with inv obtain xs where xs: "a_v a = Some xs" "int (length xs) = a_max a"
    and init: "\<forall>c \<in> set (take (nat (a_num a)) xs). c \<noteq> None"
    by (rule array_inv_cells)
  have len: "nat i < length (take (nat (a_num a)) xs)"
    using inv i n xs(2) by (auto simp: array_inv_def)
  from nth_not_None [OF init len] have "xs ! nat i = Some (map the (take (nat (a_num a)) xs) ! nat i)"
    using len by simp
  with inv i n xs len show ?thesis
    by (simp add: array_getguy_def cell_get_def array_list_def array_inv_def)
qed

lemma array_getguy_bad:
  "array_inv a \<Longrightarrow> \<not> (0 \<le> i \<and> i < int (length (array_list a))) \<Longrightarrow> array_getguy a i = None"
  by (auto simp: array_getguy_def length_array_list kassert_def)

text \<open>Preallocation keeps the contents and only ever raises the capacity.\<close>

lemma array_preallocate_ok:
  assumes inv: "array_inv a" and pre: "array_preallocate a n m = Some (Inr u, a', m')"
  shows "array_inv a'" and "array_list a' = array_list a" and "a_num a' = a_num a"
    and "n \<le> a_max a'" and "a_max a \<le> a_max a'"
proof -
  from pre obtain newmax old where nm: "array_newmax n (a_max a) = Some newmax"
    and mx: "0 \<le> newmax" "newmax * 4 < 2 ^ 32"
    and old: "(case a_v a of None \<Rightarrow> if a_num a = 0 then Some [] else None | Some xs \<Rightarrow> Some xs) = Some old"
    and a': "a' = a\<lparr>a_max := newmax, a_v := Some (take (nat (a_num a)) old @
               drop (nat (a_num a)) (replicate (nat newmax) None))\<rparr>"
    by (auto simp: array_preallocate_def kmalloc_ptrs_Some Option.bind_eq_Some_conv
             split: option.splits if_splits prod.splits)
  from array_newmax_Some [OF nm] inv mx have le: "n \<le> newmax" "a_max a \<le> newmax" "a_num a \<le> newmax"
    by (auto simp: array_inv_def)
  have old_cells: "length (take (nat (a_num a)) old) = nat (a_num a)"
      "\<forall>c \<in> set (take (nat (a_num a)) old). c \<noteq> None"
      "map the (take (nat (a_num a)) old) = array_list a"
    using inv old by (auto simp: array_inv_def array_list_def split: option.splits if_splits)
  then show "array_inv a'" "array_list a' = array_list a"
    using inv le mx a' by (auto simp: array_inv_def array_list_def)
  show "a_num a' = a_num a" "n \<le> a_max a'" "a_max a \<le> a_max a'"
    using le a' by simp_all
qed

lemma array_preallocate_err:
  "array_preallocate a n m = Some (Inl e, a', m') \<Longrightarrow> e = ENOMEM \<and> a' = a"
  by (auto simp: array_preallocate_def kmalloc_ptrs_Some Option.bind_eq_Some_conv
           split: option.splits if_splits prod.splits)

lemma array_preallocate_total:
  assumes "array_inv a" and "n < 2 ^ 29"
  shows "\<exists>r a' m'. array_preallocate a n m = Some (r, a', m')"
proof -
  from assms array_newmax_bounds [of "a_max a" n] obtain newmax where
    nm: "array_newmax n (a_max a) = Some newmax" "a_max a \<le> newmax" "newmax \<le> max (a_max a) (2 * n)"
    by (auto simp: array_inv_def)
  with assms have "0 \<le> newmax" "newmax * 4 < 2 ^ 32" by (auto simp: array_inv_def)
  with nm assms show ?thesis
    by (auto simp: array_preallocate_def kmalloc_ptrs_def kassert_def array_inv_def
             split: option.splits prod.splits)
qed

lemma a_num_update_same: "a_num a = n \<Longrightarrow> a\<lparr>a_num := n\<rparr> = a"
  by (cases a) simp

lemma array_setsize_grow:
  assumes inv: "array_inv a" and n: "a_num a \<le> n"
    and call: "array_setsize a n m = Some (Inr u, a', m')"
  shows "a_num a' = n" and "n \<le> a_max a'" and "array_inv (a'\<lparr>a_num := a_num a\<rparr>)"
    and "array_list (a'\<lparr>a_num := a_num a\<rparr>) = array_list a"
proof -
  have "a_num a' = n \<and> n \<le> a_max a' \<and> array_inv (a'\<lparr>a_num := a_num a\<rparr>) \<and>
      array_list (a'\<lparr>a_num := a_num a\<rparr>) = array_list a"
  proof (cases "n > a_max a")
    case True
    with call obtain a1 where pre: "array_preallocate a n m = Some (Inr (), a1, m')"
      and a': "a' = a1\<lparr>a_num := n\<rparr>"
      by (auto simp: array_setsize_def elim!: bind_SomeE split: sum.split_asm prod.split_asm)
    with array_preallocate_ok [OF inv pre] show ?thesis by (simp add: a_num_update_same)
  next
    case False
    with call inv n show ?thesis
      by (cases a) (auto simp: array_setsize_def array_inv_def array_list_def split: if_splits option.splits)
  qed
  then show "a_num a' = n" "n \<le> a_max a'" "array_inv (a'\<lparr>a_num := a_num a\<rparr>)"
    "array_list (a'\<lparr>a_num := a_num a\<rparr>) = array_list a" by simp_all
qed

lemma array_setsize_err:
  assumes "array_setsize a n m = Some (Inl e, a', m')"
  shows "e = ENOMEM \<and> a' = a"
  using assms array_preallocate_err [of a n m e]
  by (auto simp: array_setsize_def elim!: bind_SomeE split: sum.split_asm prod.split_asm if_split_asm)

lemma array_setsize_shrink:
  fixes a :: "'a karray"
  assumes inv: "array_inv a" and n: "0 \<le> n" "n \<le> a_num a"
  shows "\<exists>a'. array_setsize a n m = Some (Inr (), a', m) \<and> array_inv a' \<and>
           array_list a' = take (nat n) (array_list a)"
proof -
  from inv n have "\<not> n > a_max a" by (simp add: array_inv_def)
  moreover have "map the (take (nat n) xs) = take (nat n) (map the (take (nat (a_num a)) xs))" for xs
    using n by (simp add: take_map min_def)
  moreover have "c \<in> set (take (nat n) xs) \<Longrightarrow> c \<in> set (take (nat (a_num a)) xs)"
    for c and xs :: "'a option list"
    using set_take_subset_set_take [OF nat_mono [OF n(2)], of xs] by auto
  ultimately show ?thesis using inv n
    by (auto simp: array_setsize_def kassert_def array_inv_def array_list_def
             split: option.splits)
qed

lemma array_setguy_list:
  assumes inv: "array_inv a" and i: "0 \<le> i" "i < int (length (array_list a))"
  shows "\<exists>a'. array_setguy a i x = Some a' \<and> array_inv a' \<and>
           array_list a' = (array_list a)[nat i := x]"
proof -
  from inv i have n: "i < a_num a" by (simp add: length_array_list)
  from inv i n have "0 < a_max a" by (simp add: array_inv_def)
  with inv obtain xs where xs: "a_v a = Some xs" "int (length xs) = a_max a"
    and init: "\<forall>c \<in> set (take (nat (a_num a)) xs). c \<noteq> None"
    by (rule array_inv_cells)
  have set: "set (take (nat (a_num a)) (xs[nat i := Some x])) \<subseteq>
      insert (Some x) (set (take (nat (a_num a)) xs))"
    by (simp add: take_update_swap set_update_subset_insert)
  from inv i n xs init set show ?thesis
    by (auto simp: array_setguy_def cell_set_def kassert_def array_inv_def array_list_def
        take_update_swap map_update)
qed

text \<open>\<^verbatim>\<open>array_add\<close>: the new element goes to the end, and a failure changes nothing.\<close>

lemma array_add_ok:
  assumes inv: "array_inv a" and call: "array_add a x m = Some (Inr u, a', m')"
  shows "array_inv a' \<and> array_list a' = array_list a @ [x]"
proof -
  from call obtain a1 v where set: "array_setsize a (a_num a + 1) m = Some (Inr (), a1, m')"
    and v: "cell_set (a_v a1) (nat (a_num a)) x = Some v" and a': "a' = a1\<lparr>a_v := v\<rparr>"
    by (auto simp: array_add_def Let_def elim!: bind_SomeE split: sum.split_asm prod.split_asm)
  note s = array_setsize_grow [OF inv _ set]
  from v obtain xs where xs: "a_v a1 = Some xs" "nat (a_num a) < length xs"
    "v = Some (xs[nat (a_num a) := Some x])"
    by (auto simp: cell_set_def split: option.splits if_splits)
  have n: "nat (a_num a + 1) = Suc (nat (a_num a))"
    using array_inv_bounds [OF inv] by arith
  from s(3) xs have inv1: "int (length xs) = a_max a1" "a_max a1 < 2 ^ 30"
      "\<forall>c \<in> set (take (nat (a_num a)) xs). c \<noteq> None"
    by (simp_all add: array_inv_def)
  from s(4) xs have "array_list a = map the (take (nat (a_num a)) xs)" by (simp add: array_list_def)
  moreover have "take (Suc (nat (a_num a))) (xs[nat (a_num a) := Some x]) =
      take (nat (a_num a)) xs @ [Some x]"
    using xs(2) by (rule take_list_update_Suc)
  ultimately show ?thesis using inv s(1,2) inv1 xs n a'
    by (auto simp: array_inv_def array_list_def)
qed

lemma array_add_err:
  "array_add a x m = Some (Inl e, a', m') \<Longrightarrow> e = ENOMEM \<and> a' = a"
  by (auto simp: array_add_def Let_def elim!: bind_SomeE split: sum.split_asm prod.split_asm
      dest: array_setsize_err)

lemma array_add_total:
  assumes inv: "array_inv a" and n: "a_num a < 2 ^ 29 - 1"
  shows "\<exists>r a' m'. array_add a x m = Some (r, a', m')"
proof -
  from inv n have range: "INT_MIN \<le> a_num a + 1" "a_num a + 1 \<le> INT_MAX" by (auto simp: array_inv_def)
  have "\<exists>r a1 m1. array_setsize a (a_num a + 1) m = Some (r, a1, m1)"
    using array_preallocate_total [OF inv, of "a_num a + 1" m] inv n
    by (auto simp: array_setsize_def kassert_def array_inv_def split: sum.splits)
  then obtain r a1 m1 where set: "array_setsize a (a_num a + 1) m = Some (r, a1, m1)" by blast
  show ?thesis
  proof (cases r)
    case (Inl e)
    with set range show ?thesis by (simp add: array_add_def Let_def)
  next
    case (Inr u)
    with set have s: "array_setsize a (a_num a + 1) m = Some (Inr u, a1, m1)" by simp
    from array_setsize_grow [OF inv _ s] have "0 < a_max a1" "a_num a < a_max a1"
      "array_inv (a1\<lparr>a_num := a_num a\<rparr>)"
      using inv by (auto simp: array_inv_def)
    then obtain xs where "a_v a1 = Some xs" "nat (a_num a) < length xs"
      by (auto simp: array_inv_def split: option.splits)
    with s range Inr show ?thesis by (simp add: array_add_def cell_set_def Let_def)
  qed
qed

text \<open>Within the preallocated capacity, adding cannot fail and does not call \<^verbatim>\<open>kmalloc\<close>.\<close>

lemma array_add_prealloc:
  assumes inv: "array_inv a" and room: "a_num a < a_max a"
  shows "\<exists>a'. array_add a x m = Some (Inr (), a', m) \<and> a_max a' = a_max a"
proof -
  from inv room obtain xs where "a_v a = Some xs" "int (length xs) = a_max a"
    by (auto simp: array_inv_def split: option.splits)
  with inv room show ?thesis
    by (auto simp: Let_def array_add_def array_setsize_def kassert_def cell_set_def array_inv_def)
qed

lemma memmove_down_take:
  "i < n \<Longrightarrow> n \<le> length xs \<Longrightarrow>
     take (n - 1) (memmove_down xs i (n - Suc i)) = take i (take n xs) @ drop (Suc i) (take n xs)"
  by (cases n) (auto simp: memmove_down_def drop_take)

lemma length_memmove_down: "i + n < length xs \<Longrightarrow> length (memmove_down xs i n) = length xs"
  by (simp add: memmove_down_def)

lemma array_remove_list:
  assumes inv: "array_inv a" and i: "0 \<le> i" "i < int (length (array_list a))"
  shows "\<exists>a'. array_remove a i = Some a' \<and> array_inv a' \<and> a_max a' = a_max a \<and>
           array_list a' = take (nat i) (array_list a) @ drop (Suc (nat i)) (array_list a)"
proof -
  from inv i have n: "i < a_num a" by (simp add: length_array_list)
  from inv i n have "0 < a_max a" by (simp add: array_inv_def)
  with inv obtain xs where xs: "a_v a = Some xs" "int (length xs) = a_max a"
    and init: "\<forall>c \<in> set (take (nat (a_num a)) xs). c \<noteq> None"
    by (rule array_inv_cells)
  let ?N = "nat (a_num a)" and ?i = "nat i"
  from inv i n xs have le: "?i < ?N" "?N \<le> length xs" by (auto simp: array_inv_def)
  from i n have eqs: "nat (a_num a - (i + 1)) = ?N - Suc ?i" "nat (a_num a - 1) = ?N - 1" by auto
  note mv = memmove_down_take [OF le]
  have len: "length (memmove_down xs ?i (?N - Suc ?i)) = length xs"
    using le by (intro length_memmove_down) auto
  have "\<forall>c \<in> set (take (?N - 1) (memmove_down xs ?i (?N - Suc ?i))). c \<noteq> None"
    using init unfolding mv by (auto simp del: take_take dest: in_set_takeD in_set_dropD)
  moreover have "map the (take (?N - 1) (memmove_down xs ?i (?N - Suc ?i))) =
      take ?i (array_list a) @ drop (Suc ?i) (array_list a)"
    unfolding mv using xs by (simp add: array_list_def take_map drop_map)
  ultimately show ?thesis using inv i n xs len eqs
    by (auto simp: array_remove_def kassert_def array_inv_def array_list_def Let_def)
qed

section \<open>The interface the clients use\<close>

text \<open>
  \<open>dyn_array\<close> is what \<^verbatim>\<open>array.h\<close> promises: a sequence that grows at its end, loses one element
  at any index, and is left alone when growing fails. The lemmas in it are the ones the clients
  need for their scans over the array.
\<close>

locale dyn_array =
  fixes inv :: "'arr \<Rightarrow> bool"
    and lst :: "'arr \<Rightarrow> 'a list"
    and getnum :: "'arr \<Rightarrow> int"
    and getguy :: "'arr \<Rightarrow> int \<Rightarrow> 'a option"
    and add :: "'arr \<Rightarrow> 'a \<Rightarrow> kmem \<Rightarrow> (unit res \<times> 'arr \<times> kmem) option"
    and remove :: "'arr \<Rightarrow> int \<Rightarrow> 'arr option"
  assumes getnum_law: "inv a \<Longrightarrow> getnum a = int (length (lst a))"
    and getguy_law: "inv a \<Longrightarrow> 0 \<le> i \<Longrightarrow> i < int (length (lst a)) \<Longrightarrow> getguy a i = Some (lst a ! nat i)"
    and add_ok_law: "inv a \<Longrightarrow> add a x m = Some (Inr u, a', m') \<Longrightarrow> inv a' \<and> lst a' = lst a @ [x]"
    and add_err_law: "inv a \<Longrightarrow> add a x m = Some (Inl e, a', m') \<Longrightarrow> e = ENOMEM \<and> a' = a"
    and remove_law: "inv a \<Longrightarrow> 0 \<le> i \<Longrightarrow> i < int (length (lst a)) \<Longrightarrow>
      \<exists>a'. remove a i = Some a' \<and> inv a' \<and> lst a' = take (nat i) (lst a) @ drop (Suc (nat i)) (lst a)"
begin

lemma getguy_Suc_index:
  assumes "inv a" and "i < length (lst a)"
  shows "getguy a (int i) = Some (lst a ! i)"
  using getguy_law [of a "int i"] assms by simp

lemma add_then_last:
  assumes "inv a" and "add a x m = Some (Inr u, a', m')"
  shows "getguy a' (getnum a' - 1) = Some x"
  using add_ok_law [OF assms] assms(1) by (simp add: getnum_law getguy_law)

lemma add_keeps_others:
  assumes "inv a" and "add a x m = Some (Inr u, a', m')" and "0 \<le> i" and "i < getnum a"
  shows "getguy a' i = getguy a i"
  using add_ok_law [OF assms(1,2)] assms(1,3,4)
  by (simp add: getnum_law getguy_law nth_append nat_less_iff)

lemma remove_at:
  assumes "inv a" and "lst a = xs @ x # ys"
  shows "\<exists>a'. remove a (int (length xs)) = Some a' \<and> inv a' \<and> lst a' = xs @ ys"
  using remove_law [OF assms(1), of "int (length xs)"] assms(2) by simp

lemma add_then_remove_last:
  assumes "inv a" and "add a x m = Some (Inr u, a', m')"
  shows "\<exists>a''. remove a' (getnum a' - 1) = Some a'' \<and> inv a'' \<and> lst a'' = lst a"
  using remove_at [of a' "lst a" x "[]"] add_ok_law [OF assms] by (simp add: getnum_law)

end

interpretation karr: dyn_array array_inv array_list array_getnum array_getguy array_add array_remove
proof unfold_locales
  show "array_inv a \<Longrightarrow> array_getnum a = int (length (array_list a))" for a :: "'a karray"
    by (rule array_getnum_list)
  show "array_inv a \<Longrightarrow> 0 \<le> i \<Longrightarrow> i < int (length (array_list a)) \<Longrightarrow>
      array_getguy a i = Some (array_list a ! nat i)" for a :: "'a karray" and i
    by (rule array_getguy_nth)
  show "array_inv a \<Longrightarrow> array_add a x m = Some (Inr u, a', m') \<Longrightarrow>
      array_inv a' \<and> array_list a' = array_list a @ [x]" for a a' :: "'a karray" and x m u m'
    by (rule array_add_ok)
  show "array_inv a \<Longrightarrow> array_add a x m = Some (Inl e, a', m') \<Longrightarrow> e = ENOMEM \<and> a' = a"
    for a a' :: "'a karray" and x m e m'
    by (rule array_add_err)
  show "array_inv a \<Longrightarrow> 0 \<le> i \<Longrightarrow> i < int (length (array_list a)) \<Longrightarrow>
      \<exists>a'. array_remove a i = Some a' \<and> array_inv a' \<and>
        array_list a' = take (nat i) (array_list a) @ drop (Suc (nat i)) (array_list a)"
    for a :: "'a karray" and i
    using array_remove_list by blast
qed

section \<open>Properties\<close>

text \<open>\<^verbatim>\<open>array_add\<close> always returns for an array of fewer than \<open>2 ^ 29 - 1\<close> elements, whatever
  \<^verbatim>\<open>kmalloc\<close> does. When it succeeds it appends the pointer to the array's contents and keeps the
  array well formed; otherwise it returns \<^verbatim>\<open>ENOMEM\<close> and has not changed the array.\<close>

theorem array_add_correct:
  assumes "array_inv a" and "a_num a < 2 ^ 29 - 1"
  shows "\<exists>r a' m'. array_add a x m = Some (r, a', m') \<and>
    (case r of Inr _ \<Rightarrow> array_inv a' \<and> array_list a' = array_list a @ [x]
             | Inl e \<Rightarrow> e = ENOMEM \<and> a' = a)"
proof -
  from array_add_total [OF assms] obtain r a' m' where call: "array_add a x m = Some (r, a', m')" by blast
  with array_add_ok [OF assms(1)] array_add_err [of a x m] show ?thesis
    by (intro exI [of _ r] exI [of _ a'] exI [of _ m']) (auto split: sum.split)
qed

theorem array_add_correct_witness:
  "\<exists>r a' m'. array_add \<lparr>a_num = 1, a_max = 1, a_v = Some [Some (5::nat)]\<rparr> 6 [True] = Some (r, a', m') \<and>
    (case r of Inr _ \<Rightarrow> array_inv a' \<and> array_list a' = [5, 6]
             | Inl e \<Rightarrow> e = ENOMEM \<and> a' = \<lparr>a_num = 1, a_max = 1, a_v = Some [Some 5]\<rparr>)"
proof -
  let ?a = "\<lparr>a_num = 1, a_max = 1, a_v = Some [Some (5::nat)]\<rparr>"
  have "array_list ?a = [5]" by (simp add: array_list_def)
  moreover have "array_inv ?a" by (simp add: array_inv_def)
  ultimately show ?thesis using array_add_correct [of ?a 6 "[True]"] by (simp cong: sum.case_cong)
qed

text \<open>\<^verbatim>\<open>array_remove\<close> deletes exactly the element at its index and shifts the later ones down,
  keeping their order and the allocated size; an index outside the array fails the assertion.\<close>

theorem array_remove_correct:
  assumes "array_inv a"
  shows "if 0 \<le> i \<and> i < array_getnum a
    then \<exists>a'. array_remove a i = Some a' \<and> array_inv a' \<and> a_max a' = a_max a \<and>
      array_list a' = take (nat i) (array_list a) @ drop (Suc (nat i)) (array_list a)
    else array_remove a i = None"
  using array_remove_list [OF assms, of i] karr.getnum_law [OF assms]
  by (auto simp: array_getnum_def array_remove_def kassert_def)

theorem array_remove_correct_witness:
  "\<exists>a'. array_remove \<lparr>a_num = 3, a_max = 4, a_v = Some [Some (5::nat), Some 6, Some 7, None]\<rparr> 1 = Some a' \<and>
     array_list a' = [5, 7]"
  using array_remove_correct [of "\<lparr>a_num = 3, a_max = 4, a_v = Some [Some (5::nat), Some 6, Some 7, None]\<rparr>" 1]
  by (auto simp: array_inv_def array_list_def array_getnum_def numeral_eq_Suc)

end
