(* ===== verification/K_Bitmap.thy ===== *)
theory K_Bitmap
  imports K_Prelude
begin

text \<open>
  Arrays of bits, \<^verbatim>\<open>kern/lib/bitmap.c\<close>. The words are bytes (\<^verbatim>\<open>WORD_TYPE\<close> is
  \<^verbatim>\<open>unsigned char\<close>), so a bitmap written to disk does not depend on the byte order.
  Bit numbers and sizes are \<^verbatim>\<open>u_int32_t\<close>; they are natural numbers here, with the one
  operation that can wrap around (rounding up in \<open>DIVROUNDUP\<close>) written out modulo \<open>2 ^ 32\<close>.
  \<open>bitmap_set\<close> is the set of marked bits; the locale \<open>bit_allocator\<close> is the contract that the
  block allocator of SFS and the swap allocator rely on.
\<close>

section \<open>The code\<close>

abbreviation (input) BITS_PER_WORD :: nat where "BITS_PER_WORD \<equiv> 8"

definition DIVROUNDUP :: "nat \<Rightarrow> nat \<Rightarrow> nat" where
  "DIVROUNDUP a b = ((a + b - 1) mod 2 ^ 32) div b"

record bitmap =
  nbits :: nat
  bm_v :: "8 word list"

definition bm_mask :: "nat \<Rightarrow> 8 word" where
  "bm_mask offset = push_bit offset 1"

text \<open>The loop that marks the bits past the end, \<^verbatim>\<open>v[ix] |= ((WORD_TYPE)1 << j)\<close>.\<close>

function bm_mark_over :: "8 word \<Rightarrow> nat \<Rightarrow> 8 word" where
  "bm_mark_over w j = (if j < BITS_PER_WORD then bm_mark_over (w OR bm_mask j) (Suc j) else w)"
  by pat_completeness auto
termination
  by (relation "measure (\<lambda>(w, j). BITS_PER_WORD - j)") auto

declare bm_mark_over.simps [simp del]

definition bitmap_create :: "nat \<Rightarrow> kmem \<Rightarrow> (bitmap option \<times> kmem) option" where
  "bitmap_create n m =
     (let words = DIVROUNDUP n BITS_PER_WORD; (ok1, m) = kmalloc m in
      if \<not> ok1 then Some (None, m)
      else let (ok2, m) = kmalloc m in
        if \<not> ok2 then Some (None, m)
        else let v = replicate words 0 in
          if n div BITS_PER_WORD < words then do {
            let ix = words - 1;
            let overbits = n - ix * BITS_PER_WORD;
            kassert (n div BITS_PER_WORD = words - 1);
            kassert (overbits > 0 \<and> overbits < BITS_PER_WORD);
            Some (Some \<lparr>nbits = n, bm_v = v[ix := bm_mark_over (v ! ix) overbits]\<rparr>, m)
          }
          else Some (Some \<lparr>nbits = n, bm_v = v\<rparr>, m))"

text \<open>The inner loop of \<^verbatim>\<open>bitmap_alloc\<close>: the first clear bit of one word. Falling out of it
  reaches \<^verbatim>\<open>assert(0)\<close>.\<close>

function bm_clear_bit :: "8 word \<Rightarrow> nat \<Rightarrow> nat option" where
  "bm_clear_bit w offset =
     (if offset < BITS_PER_WORD
      then if w AND bm_mask offset = 0 then Some offset else bm_clear_bit w (Suc offset)
      else None)"
  by pat_completeness auto
termination
  by (relation "measure (\<lambda>(w, j). BITS_PER_WORD - j)") auto

declare bm_clear_bit.simps [simp del]

function bitmap_alloc_from :: "bitmap \<Rightarrow> nat \<Rightarrow> nat \<Rightarrow> (nat res \<times> bitmap) option" where
  "bitmap_alloc_from b ix maxix =
     (if ix < maxix
      then if ix < length (bm_v b)
           then if bm_v b ! ix \<noteq> 0xff
                then do {
                  offset \<leftarrow> bm_clear_bit (bm_v b ! ix) 0;
                  let index = ix * BITS_PER_WORD + offset;
                  kassert (index < nbits b);
                  Some (Inr index, b\<lparr>bm_v := (bm_v b)[ix := bm_v b ! ix OR bm_mask offset]\<rparr>)
                }
                else bitmap_alloc_from b (Suc ix) maxix
           else None
      else Some (Inl ENOSPC, b))"
  by pat_completeness auto
termination
  by (relation "measure (\<lambda>(b, ix, maxix). maxix - ix)") auto

declare bitmap_alloc_from.simps [simp del]

definition bitmap_alloc :: "bitmap \<Rightarrow> (nat res \<times> bitmap) option" where
  "bitmap_alloc b = bitmap_alloc_from b 0 (DIVROUNDUP (nbits b) BITS_PER_WORD)"

definition bitmap_translate :: "nat \<Rightarrow> nat \<times> 8 word" where
  "bitmap_translate bitno = (bitno div BITS_PER_WORD, bm_mask (bitno mod BITS_PER_WORD))"

definition bitmap_mark :: "bitmap \<Rightarrow> nat \<Rightarrow> bitmap option" where
  "bitmap_mark b index = do {
     kassert (index < nbits b);
     let (ix, mask) = bitmap_translate index;
     kassert (ix < length (bm_v b));
     kassert (bm_v b ! ix AND mask = 0);
     Some (b\<lparr>bm_v := (bm_v b)[ix := bm_v b ! ix OR mask]\<rparr>)
   }"

definition bitmap_unmark :: "bitmap \<Rightarrow> nat \<Rightarrow> bitmap option" where
  "bitmap_unmark b index = do {
     kassert (index < nbits b);
     let (ix, mask) = bitmap_translate index;
     kassert (ix < length (bm_v b));
     kassert (bm_v b ! ix AND mask \<noteq> 0);
     Some (b\<lparr>bm_v := (bm_v b)[ix := bm_v b ! ix AND NOT mask]\<rparr>)
   }"

text \<open>\<^verbatim>\<open>bitmap_isset\<close> does not check its index against \<^verbatim>\<open>nbits\<close>; past the last word it reads
  outside the block.\<close>

definition bitmap_isset :: "bitmap \<Rightarrow> nat \<Rightarrow> bool option" where
  "bitmap_isset b index = do {
     let (ix, mask) = bitmap_translate index;
     kassert (ix < length (bm_v b));
     Some (bm_v b ! ix AND mask \<noteq> 0)
   }"

section \<open>Invariant and abstraction\<close>

definition bm_bit :: "bitmap \<Rightarrow> nat \<Rightarrow> bool" where
  "bm_bit b i \<longleftrightarrow> bit (bm_v b ! (i div BITS_PER_WORD)) (i mod BITS_PER_WORD)"

definition bitmap_set :: "bitmap \<Rightarrow> nat set" where
  "bitmap_set b = {i. i < nbits b \<and> bm_bit b i}"

text \<open>The words cover the bits and no more, and the bits past the end are marked.\<close>

definition bitmap_inv :: "bitmap \<Rightarrow> bool" where
  "bitmap_inv b \<longleftrightarrow> nbits b + 7 < 2 ^ 32 \<and> length (bm_v b) = DIVROUNDUP (nbits b) BITS_PER_WORD \<and>
     (\<forall>i < length (bm_v b) * BITS_PER_WORD. nbits b \<le> i \<longrightarrow> bm_bit b i)"

lemma DIVROUNDUP_8: "n + 7 < 2 ^ 32 \<Longrightarrow> DIVROUNDUP n 8 = (n + 7) div 8"
  by (simp add: DIVROUNDUP_def)

lemma bm_mask_bit: "bit (bm_mask j) k \<longleftrightarrow> k = j \<and> j < 8"
  by (auto simp: bm_mask_def bit_simps)

lemma and_mask_0: "j < 8 \<Longrightarrow> (w AND bm_mask j = 0) \<longleftrightarrow> \<not> bit w j" for w :: "8 word"
  by (auto simp: bit_eq_iff [of "w AND bm_mask j"] bit_simps bm_mask_bit)

lemma bit_or_mask: "bit (w OR bm_mask j) k \<longleftrightarrow> bit w k \<or> (k = j \<and> j < 8)" for w :: "8 word"
  by (simp add: bit_simps bm_mask_bit)

lemma bit_and_not_mask: "bit (w AND NOT (bm_mask j)) k \<longleftrightarrow> bit w k \<and> k \<noteq> j" for w :: "8 word"
  by (auto simp: bit_simps bm_mask_bit dest: bit_imp_le_length)

lemma allbits_iff: "w = 0xff \<longleftrightarrow> (\<forall>j < 8. bit w j)" for w :: "8 word"
proof -
  have "w = 0xff \<longleftrightarrow> w = mask 8" by (simp add: mask_numeral)
  then show ?thesis by (auto simp: bit_eq_iff bit_simps)
qed

lemma bm_mark_over_bit: "bit (bm_mark_over w j) k \<longleftrightarrow> bit w k \<or> (j \<le> k \<and> k < 8)"
proof (induction w j rule: bm_mark_over.induct)
  case (1 w j)
  then show ?case by (subst bm_mark_over.simps) (auto simp: bit_or_mask)
qed

lemma bm_clear_bit_Some:
  "bm_clear_bit w j = Some k \<Longrightarrow> j \<le> k \<and> k < 8 \<and> \<not> bit w k \<and> (\<forall>i. j \<le> i \<longrightarrow> i < k \<longrightarrow> bit w i)"
proof (induction w j rule: bm_clear_bit.induct)
  case (1 w j)
  show ?case
  proof (cases "j < 8 \<and> bit w j")
    case True
    with "1.prems" have "bm_clear_bit w (Suc j) = Some k"
      by (simp add: bm_clear_bit.simps [of w j] and_mask_0)
    with "1.IH" True have "Suc j \<le> k \<and> k < 8 \<and> \<not> bit w k \<and> (\<forall>i. Suc j \<le> i \<longrightarrow> i < k \<longrightarrow> bit w i)"
      by (simp add: and_mask_0)
    then have hit: "Suc j \<le> k" "k < 8" "\<not> bit w k"
      and below: "\<And>i. Suc j \<le> i \<Longrightarrow> i < k \<Longrightarrow> bit w i" by auto
    have "bit w i" if "j \<le> i" "i < k" for i
      using that True below [of i] by (cases "i = j") auto
    with hit show ?thesis by auto
  next
    case False
    with "1.prems" show ?thesis
      by (auto simp: bm_clear_bit.simps [of w j] and_mask_0 split: if_splits)
  qed
qed

lemma bm_clear_bit_total:
  "\<exists>k. j \<le> k \<and> k < 8 \<and> \<not> bit w k \<Longrightarrow> \<exists>k. bm_clear_bit w j = Some k"
proof (induction w j rule: bm_clear_bit.induct)
  case (1 w j)
  from "1.prems" obtain k where k: "j \<le> k" "k < 8" "\<not> bit w k" by blast
  show ?case
  proof (cases "bit w j")
    case True
    with k have "Suc j \<le> k" by (cases "k = j") auto
    with k True "1.IH" show ?thesis
      by (auto simp: bm_clear_bit.simps [of w j] and_mask_0)
  next
    case False
    with k show ?thesis by (simp add: bm_clear_bit.simps [of w j] and_mask_0)
  qed
qed

text \<open>How one changed word changes the set of marked bits.\<close>

lemma bm_bit_update_or:
  assumes "ix < length (bm_v b)" and "off < 8"
  shows "bm_bit (b\<lparr>bm_v := (bm_v b)[ix := bm_v b ! ix OR bm_mask off]\<rparr>) i \<longleftrightarrow>
    bm_bit b i \<or> i = ix * 8 + off"
  using assms by (simp add: bm_bit_def nth_list_update bit_or_mask split_index)

lemma bm_bit_update_and_not:
  assumes "ix < length (bm_v b)" and "off < 8"
  shows "bm_bit (b\<lparr>bm_v := (bm_v b)[ix := bm_v b ! ix AND NOT (bm_mask off)]\<rparr>) i \<longleftrightarrow>
    bm_bit b i \<and> i \<noteq> ix * 8 + off"
  using assms by (simp add: bm_bit_def nth_list_update bit_and_not_mask split_index)

lemma bitmap_inv_length: "bitmap_inv b \<Longrightarrow> length (bm_v b) = (nbits b + 7) div 8"
  by (simp add: bitmap_inv_def DIVROUNDUP_8)

lemma bitmap_inv_index: "bitmap_inv b \<Longrightarrow> i < nbits b \<Longrightarrow> i div 8 < length (bm_v b)"
  by (simp add: bitmap_inv_length)

lemma words8: "(n + 7) div 8 = (if n mod 8 = 0 then n div 8 else Suc (n div 8))" for n :: nat
  using round_up_div [of 8 n] by simp

text \<open>The rounding in \<^verbatim>\<open>bitmap_create\<close> when the last word is not full.\<close>

lemma partial_last_word:
  assumes "n div 8 < (n + 7) div (8::nat)"
  shows "(n + 7) div 8 - 1 = n div 8" and "n - ((n + 7) div 8 - 1) * 8 = n mod 8" and "0 < n mod 8"
  using assms by (auto simp: words8 minus_div_mult_eq_mod split: if_splits)

lemma bitmap_create_eq:
  assumes "bitmap_create n m = Some (Some b, m')" and "n + 7 < 2 ^ 32" and "w = (n + 7) div 8"
  shows "nbits b = n" and "bm_v b = (if n div 8 < w
    then (replicate w 0)[n div 8 := bm_mark_over 0 (n mod 8)] else replicate w 0)"
  using assms partial_last_word [of n]
  by (auto simp: bitmap_create_def Let_def DIVROUNDUP_8 kassert_def split: prod.splits if_splits)

lemma bitmap_create_spec:
  assumes call: "bitmap_create n m = Some (Some b, m')" and n: "n + 7 < 2 ^ 32"
  shows "bitmap_inv b \<and> nbits b = n \<and> bitmap_set b = {}"
proof -
  obtain w where w: "w = (n + 7) div 8" by simp
  note b = bitmap_create_eq [OF call n w]
  have bits: "bm_bit b i \<longleftrightarrow> n \<le> i" if i: "i < w * 8" for i
  proof -
    from i have iw: "i div 8 < w" by (simp add: less_mult_imp_div_less)
    show ?thesis
    proof (cases "n div 8 < w")
      case True
      with w have "w = Suc (n div 8)" by (simp add: words8 split: if_splits)
      with b(2) True iw have "bm_bit b i \<longleftrightarrow> i div 8 = n div 8 \<and> n mod 8 \<le> i mod 8"
        by (auto simp: bm_bit_def nth_list_update bm_mark_over_bit simp del: replicate_Suc)
      with iw \<open>w = Suc (n div 8)\<close> show ?thesis by (auto simp: le_div_mod [of n i 8])
    next
      case False
      with w have "n mod 8 = 0" "w = n div 8" by (auto simp: words8 split: if_splits)
      with b(2) False i show ?thesis by (simp add: bm_bit_def less_mult_imp_div_less)
    qed
  qed
  have len: "length (bm_v b) = w" using b by simp
  with bits b n w have "bitmap_inv b" by (simp add: bitmap_inv_def DIVROUNDUP_8)
  moreover have "\<not> bm_bit b i" if "i < n" for i
    using that bits [of i] w by simp
  with b have "bitmap_set b = {}" by (auto simp: bitmap_set_def)
  ultimately show ?thesis using b by simp
qed

lemma bitmap_create_total:
  assumes "n + 7 < 2 ^ 32"
  shows "\<exists>b m'. bitmap_create n m = Some (b, m')"
  using assms partial_last_word [of n]
  by (auto simp: bitmap_create_def Let_def DIVROUNDUP_8 kassert_def split: prod.splits)

lemma bitmap_mark_spec:
  assumes inv: "bitmap_inv b" and i: "i < nbits b"
  shows "bitmap_mark b i = (if i \<in> bitmap_set b then None
    else Some (b\<lparr>bm_v := (bm_v b)[i div 8 := bm_v b ! (i div 8) OR bm_mask (i mod 8)]\<rparr>))"
  using i bitmap_inv_index [OF inv i]
  by (auto simp: bitmap_mark_def bitmap_translate_def kassert_def bitmap_set_def bm_bit_def and_mask_0)

lemma bitmap_unmark_spec:
  assumes inv: "bitmap_inv b" and i: "i < nbits b"
  shows "bitmap_unmark b i = (if i \<in> bitmap_set b
    then Some (b\<lparr>bm_v := (bm_v b)[i div 8 := bm_v b ! (i div 8) AND NOT (bm_mask (i mod 8))]\<rparr>)
    else None)"
  using i bitmap_inv_index [OF inv i]
  by (auto simp: bitmap_unmark_def bitmap_translate_def kassert_def bitmap_set_def bm_bit_def and_mask_0)

lemma bitmap_isset_spec:
  assumes inv: "bitmap_inv b" and i: "i < nbits b"
  shows "bitmap_isset b i = Some (i \<in> bitmap_set b)"
  using i bitmap_inv_index [OF inv i]
  by (auto simp: bitmap_isset_def bitmap_translate_def kassert_def bitmap_set_def bm_bit_def and_mask_0)

lemma bitmap_or_inv:
  assumes inv: "bitmap_inv b" and ix: "ix < length (bm_v b)" "off < 8" "ix * 8 + off < nbits b"
  defines "b' \<equiv> b\<lparr>bm_v := (bm_v b)[ix := bm_v b ! ix OR bm_mask off]\<rparr>"
  shows "bitmap_inv b' \<and> nbits b' = nbits b \<and> bitmap_set b' = insert (ix * 8 + off) (bitmap_set b)"
  using assms by (auto simp: bitmap_inv_def bitmap_set_def bm_bit_update_or)

lemma bitmap_mark_ok:
  assumes inv: "bitmap_inv b" and call: "bitmap_mark b i = Some b'"
  shows "bitmap_inv b' \<and> nbits b' = nbits b \<and> i \<notin> bitmap_set b \<and> i < nbits b \<and>
    bitmap_set b' = insert i (bitmap_set b)"
proof -
  from call have i: "i < nbits b" by (auto simp: bitmap_mark_def kassert_def split: if_splits)
  from call bitmap_mark_spec [OF inv i] have "i \<notin> bitmap_set b"
    and b': "b' = b\<lparr>bm_v := (bm_v b)[i div 8 := bm_v b ! (i div 8) OR bm_mask (i mod 8)]\<rparr>"
    by (auto split: if_splits)
  moreover have "i div 8 * 8 + i mod 8 = i" by simp
  ultimately show ?thesis
    using bitmap_or_inv [OF inv bitmap_inv_index [OF inv i], of "i mod 8"] i by simp
qed

lemma bitmap_unmark_ok:
  assumes inv: "bitmap_inv b" and call: "bitmap_unmark b i = Some b'"
  shows "bitmap_inv b' \<and> nbits b' = nbits b \<and> i \<in> bitmap_set b \<and>
    bitmap_set b' = bitmap_set b - {i}"
proof -
  from call have i: "i < nbits b" by (auto simp: bitmap_unmark_def kassert_def split: if_splits)
  from call bitmap_unmark_spec [OF inv i] have "i \<in> bitmap_set b"
    and b': "b' = b\<lparr>bm_v := (bm_v b)[i div 8 := bm_v b ! (i div 8) AND NOT (bm_mask (i mod 8))]\<rparr>"
    by (auto split: if_splits)
  moreover have "i div 8 * 8 + i mod 8 = i" by simp
  ultimately show ?thesis
    using inv i bm_bit_update_and_not [OF bitmap_inv_index [OF inv i], of "i mod 8"]
    by (auto simp: bitmap_inv_def bitmap_set_def)
qed

section \<open>Allocation\<close>

text \<open>The scan: every word before the one it stops at is full, so the bit found is the least
  clear one; it never falls out of the inner loop and never hands out a bit past the end.\<close>

lemma bm_full_word:
  assumes "\<forall>i < ix * 8. bm_bit b i" and "bm_v b ! ix = 0xff"
  shows "\<forall>i < Suc ix * 8. bm_bit b i"
proof (intro allI impI)
  fix i assume "i < Suc ix * 8"
  show "bm_bit b i"
  proof (cases "i < ix * 8")
    case False
    with \<open>i < Suc ix * 8\<close> have "i div 8 = ix" by auto
    with assms(2) show ?thesis by (simp add: bm_bit_def allbits_iff)
  qed (use assms in simp)
qed

lemma bitmap_all_marked:
  assumes "bitmap_inv b" and "\<forall>i < length (bm_v b) * 8. bm_bit b i"
  shows "bitmap_set b = {..<nbits b}"
proof -
  have "i < nbits b \<Longrightarrow> i < length (bm_v b) * 8" for i
    using bitmap_inv_index [OF assms(1), of i] by (simp add: div_less_iff_less_mult)
  with assms(2) show ?thesis by (auto simp: bitmap_set_def)
qed

lemma bitmap_alloc_from_spec:
  assumes inv: "bitmap_inv b" and mx: "mx = length (bm_v b)" and full: "\<forall>i < ix * 8. bm_bit b i"
    and ix: "ix \<le> mx"
  shows "(bitmap_set b = {..<nbits b} \<and> bitmap_alloc_from b ix mx = Some (Inl ENOSPC, b)) \<or>
         (\<exists>k b'. bitmap_alloc_from b ix mx = Some (Inr k, b') \<and>
           k < nbits b \<and> k \<notin> bitmap_set b \<and> {..<k} \<subseteq> bitmap_set b \<and>
           bitmap_inv b' \<and> nbits b' = nbits b \<and> bitmap_set b' = insert k (bitmap_set b))"
  using full ix inv mx
proof (induction b ix mx rule: bitmap_alloc_from.induct)
  case (1 b ix mx)
  show ?case
  proof (cases "ix < mx")
    case False
    with 1 have "bitmap_set b = {..<nbits b}" by (intro bitmap_all_marked) auto
    with False show ?thesis by (simp add: bitmap_alloc_from.simps [of b ix mx])
  next
    case True
    show ?thesis
    proof (cases "bm_v b ! ix = 0xff")
      case full_word: True
      have "bitmap_alloc_from b ix mx = bitmap_alloc_from b (Suc ix) mx"
        using True full_word "1.prems"(4) by (subst bitmap_alloc_from.simps) simp
      with "1.IH" True full_word "1.prems" bm_full_word [of ix b] show ?thesis by simp
    next
      case False
      then obtain j where "j < 8" "\<not> bit (bm_v b ! ix) j" by (auto simp: allbits_iff)
      then obtain off where off: "bm_clear_bit (bm_v b ! ix) 0 = Some off"
        using bm_clear_bit_total [of 0 "bm_v b ! ix"] by auto
      from bm_clear_bit_Some [OF this] have o: "off < 8" "\<not> bit (bm_v b ! ix) off"
        and below: "\<And>i. i < off \<Longrightarrow> bit (bm_v b ! ix) i" by auto
      let ?k = "ix * 8 + off"
      have clear: "\<not> bm_bit b ?k" using o by (simp add: bm_bit_def)
      moreover have "?k < length (bm_v b) * 8" using True "1.prems"(4) o by simp
      ultimately have k: "?k < nbits b" using "1.prems"(3) by (auto simp: bitmap_inv_def)
      have lower: "bm_bit b i" if "i < ?k" for i
      proof (cases "i < ix * 8")
        case False
        with that o obtain r where r: "i = ix * 8 + r" "r < off"
          by (metis less_add_eq_less le_Suc_ex add.commute nat_add_left_cancel_less not_less)
        with o have "i div 8 = ix" "i mod 8 < off" by auto
        with below show ?thesis by (simp add: bm_bit_def)
      qed (use "1.prems" in simp)
      let ?b = "b\<lparr>bm_v := (bm_v b)[ix := bm_v b ! ix OR bm_mask off]\<rparr>"
      have "bitmap_alloc_from b ix mx = Some (Inr ?k, ?b)"
        using True False "1.prems"(4) off k
        by (subst bitmap_alloc_from.simps) (simp add: Let_def)
      moreover have "bitmap_inv ?b \<and> nbits ?b = nbits b \<and> bitmap_set ?b = insert ?k (bitmap_set b)"
        using bitmap_or_inv [OF "1.prems"(3), of ix off] True "1.prems"(4) o k by simp
      moreover have "?k \<notin> bitmap_set b" "{..<?k} \<subseteq> bitmap_set b"
        using clear lower k by (auto simp: bitmap_set_def)
      ultimately show ?thesis using k by blast
    qed
  qed
qed

lemma bitmap_alloc_cases:
  assumes "bitmap_inv b"
  shows "(bitmap_set b = {..<nbits b} \<and> bitmap_alloc b = Some (Inl ENOSPC, b)) \<or>
         (\<exists>k b'. bitmap_alloc b = Some (Inr k, b') \<and>
           k < nbits b \<and> k \<notin> bitmap_set b \<and> {..<k} \<subseteq> bitmap_set b \<and>
           bitmap_inv b' \<and> nbits b' = nbits b \<and> bitmap_set b' = insert k (bitmap_set b))"
proof -
  from assms have "DIVROUNDUP (nbits b) 8 = length (bm_v b)" by (simp add: bitmap_inv_def)
  with bitmap_alloc_from_spec [OF assms, of "length (bm_v b)" 0] show ?thesis
    by (simp add: bitmap_alloc_def)
qed

section \<open>The interface the allocators use\<close>

text \<open>
  \<open>bit_allocator\<close>: a pool of \<open>size\<close> numbers of which some are taken. Allocation hands out a free
  number or reports that there is none; freeing takes back a number that is taken.
\<close>

locale bit_allocator =
  fixes inv :: "'b \<Rightarrow> bool"
    and size :: "'b \<Rightarrow> nat"
    and taken :: "'b \<Rightarrow> nat set"
    and alloc :: "'b \<Rightarrow> (nat res \<times> 'b) option"
    and free :: "'b \<Rightarrow> nat \<Rightarrow> 'b option"
    and isset :: "'b \<Rightarrow> nat \<Rightarrow> bool option"
  assumes taken_law: "inv b \<Longrightarrow> taken b \<subseteq> {..<size b}"
    and alloc_law: "inv b \<Longrightarrow>
      (taken b = {..<size b} \<and> alloc b = Some (Inl ENOSPC, b)) \<or>
      (\<exists>k b'. alloc b = Some (Inr k, b') \<and> k < size b \<and> k \<notin> taken b \<and>
         inv b' \<and> size b' = size b \<and> taken b' = insert k (taken b))"
    and free_law: "inv b \<Longrightarrow> k \<in> taken b \<Longrightarrow>
      \<exists>b'. free b k = Some b' \<and> inv b' \<and> size b' = size b \<and> taken b' = taken b - {k}"
    and isset_law: "inv b \<Longrightarrow> k < size b \<Longrightarrow> isset b k = Some (k \<in> taken b)"
begin

lemma alloc_Inr:
  assumes "inv b" and "alloc b = Some (Inr k, b')"
  shows "k < size b \<and> k \<notin> taken b \<and> inv b' \<and> size b' = size b \<and> taken b' = insert k (taken b)"
  using alloc_law [OF assms(1)] assms(2) by auto

lemma alloc_Inl:
  assumes "inv b" and "alloc b = Some (Inl e, b')"
  shows "e = ENOSPC \<and> b' = b \<and> taken b = {..<size b}"
  using alloc_law [OF assms(1)] assms(2) by auto

lemma alloc_total: "inv b \<Longrightarrow> \<exists>r b'. alloc b = Some (r, b')"
  using alloc_law by blast

lemma alloc_isset:
  assumes "inv b" and "alloc b = Some (Inr k, b')"
  shows "isset b k = Some False \<and> isset b' k = Some True"
  using alloc_Inr [OF assms] assms(1) by (simp add: isset_law)

lemma alloc_then_free:
  assumes "inv b" and "alloc b = Some (Inr k, b')"
  shows "\<exists>b''. free b' k = Some b'' \<and> inv b'' \<and> size b'' = size b \<and> taken b'' = taken b"
  using alloc_Inr [OF assms] free_law [of b' k] by auto

text \<open>A freed number makes the next allocation succeed.\<close>

lemma free_then_alloc:
  assumes "inv b" and "k \<in> taken b"
  shows "\<exists>b' k' b''. free b k = Some b' \<and> alloc b' = Some (Inr k', b'')"
proof -
  from free_law [OF assms] obtain b' where b': "free b k = Some b'" "inv b'" "size b' = size b"
    "taken b' = taken b - {k}" by blast
  from assms taken_law have "k < size b" by blast
  with b' have "taken b' \<noteq> {..<size b'}" by auto
  with alloc_law [OF b'(2)] b'(1) show ?thesis by blast
qed

end

interpretation kbm: bit_allocator bitmap_inv nbits bitmap_set bitmap_alloc bitmap_unmark bitmap_isset
proof unfold_locales
  show "bitmap_set b \<subseteq> {..<nbits b}" for b by (auto simp: bitmap_set_def)
  show "bitmap_inv b \<Longrightarrow>
      (bitmap_set b = {..<nbits b} \<and> bitmap_alloc b = Some (Inl ENOSPC, b)) \<or>
      (\<exists>k b'. bitmap_alloc b = Some (Inr k, b') \<and> k < nbits b \<and> k \<notin> bitmap_set b \<and>
         bitmap_inv b' \<and> nbits b' = nbits b \<and> bitmap_set b' = insert k (bitmap_set b))" for b
    using bitmap_alloc_cases by blast
  show "bitmap_inv b \<Longrightarrow> k \<in> bitmap_set b \<Longrightarrow>
      \<exists>b'. bitmap_unmark b k = Some b' \<and> bitmap_inv b' \<and> nbits b' = nbits b \<and>
        bitmap_set b' = bitmap_set b - {k}" for b k
    using bitmap_unmark_spec [of b k] bitmap_unmark_ok [of b k] by (auto simp: bitmap_set_def)
  show "bitmap_inv b \<Longrightarrow> k < nbits b \<Longrightarrow> bitmap_isset b k = Some (k \<in> bitmap_set b)" for b k
    by (rule bitmap_isset_spec)
qed

section \<open>Properties\<close>

text \<open>C40: \<^verbatim>\<open>bitmap_alloc\<close> never fails its assertion. It returns \<^verbatim>\<open>ENOSPC\<close> exactly when every bit is
  marked; otherwise it returns the lowest bit that was clear, below \<^verbatim>\<open>nbits\<close>, and marks it and no
  other.\<close>

theorem bitmap_alloc_correct:
  assumes "bitmap_inv b"
  shows "if bitmap_set b = {..<nbits b} then bitmap_alloc b = Some (Inl ENOSPC, b)
    else \<exists>k b'. bitmap_alloc b = Some (Inr k, b') \<and> k = (LEAST i. i \<notin> bitmap_set b) \<and> k < nbits b \<and>
      bitmap_inv b' \<and> nbits b' = nbits b \<and> bitmap_set b' = insert k (bitmap_set b)"
proof -
  have least: "k = (LEAST i. i \<notin> bitmap_set b)" if "k \<notin> bitmap_set b" "{..<k} \<subseteq> bitmap_set b" for k
    using that by (intro Least_equality [symmetric]) (auto simp: subset_iff not_less [symmetric])
  from bitmap_alloc_cases [OF assms] least show ?thesis by auto
qed

theorem bitmap_alloc_correct_witness:
  "\<exists>k b'. bitmap_alloc \<lparr>nbits = 8, bm_v = [1]\<rparr> = Some (Inr k, b') \<and> k < 8 \<and> bitmap_inv b'"
proof -
  have "bitmap_inv \<lparr>nbits = 8, bm_v = [1]\<rparr>" by (simp add: bitmap_inv_def DIVROUNDUP_def)
  moreover have "1 \<notin> bitmap_set \<lparr>nbits = 8, bm_v = [1]\<rparr>" by (simp add: bitmap_set_def bm_bit_def)
  ultimately show ?thesis using bitmap_alloc_correct [of "\<lparr>nbits = 8, bm_v = [1]\<rparr>"] by (auto split: if_splits)
qed

text \<open>A bit map made by \<^verbatim>\<open>bitmap_create\<close> has every bit clear, and the bits of its last word that
  lie past \<^verbatim>\<open>nbits\<close> are marked, so that \<^verbatim>\<open>bitmap_alloc\<close> cannot hand them out; the call returns for
  every size that does not overflow the rounding.\<close>

theorem bitmap_create_correct:
  assumes "n + 7 < 2 ^ 32"
  shows "\<exists>r m'. bitmap_create n m = Some (r, m') \<and>
    (case r of None \<Rightarrow> True | Some b \<Rightarrow> bitmap_inv b \<and> nbits b = n \<and> bitmap_set b = {})"
proof -
  from bitmap_create_total [OF assms] obtain r m' where "bitmap_create n m = Some (r, m')" by blast
  with bitmap_create_spec [OF _ assms, of m _ m'] show ?thesis
    by (intro exI [of _ r] exI [of _ m']) (auto split: option.split)
qed

theorem bitmap_create_correct_witness:
  "\<exists>r m'. bitmap_create 11 [] = Some (r, m') \<and>
    (case r of None \<Rightarrow> True | Some b \<Rightarrow> bitmap_inv b \<and> nbits b = 11 \<and> bitmap_set b = {})"
  using bitmap_create_correct [of 11 "[]"] by simp

end
