(* ===== verification/K_Queue.thy ===== *)
theory K_Queue
  imports K_Prelude
begin

text \<open>
  The ring buffer of \<^verbatim>\<open>kern/lib/queue.c\<close>, the run queue of the scheduler. One slot is always
  unused, so a ring of \<open>size\<close> slots holds at most \<open>size - 1\<close> elements. \<^verbatim>\<open>q_addtail\<close> and
  \<^verbatim>\<open>q_grow\<close> call each other; the model gives both a fuel argument and \<open>q_addtail\<close> supplies more
  than the number of slots, which \<open>q_addtail_full\<close> below shows to be enough: growing never
  grows again. \<open>q_list\<close> is the sequence the ring stands for.
\<close>

section \<open>The code\<close>

record 'a queue =
  q_size :: int
  nextwrite :: int
  nextread :: int
  q_data :: "'a option list"

definition slot_get :: "'a option list \<Rightarrow> int \<Rightarrow> 'a option" where
  "slot_get d i = (if 0 \<le> i \<and> nat i < length d then d ! nat i else None)"

definition slot_set :: "'a option list \<Rightarrow> int \<Rightarrow> 'a \<Rightarrow> 'a option list option" where
  "slot_set d i x = (if 0 \<le> i \<and> nat i < length d then Some (d[nat i := Some x]) else None)"

definition q_create :: "int \<Rightarrow> kmem \<Rightarrow> ('a queue option \<times> kmem) option" where
  "q_create sz m =
     (case kmalloc m of (ok, m) \<Rightarrow>
        if \<not> ok then Some (None, m)
        else do {
          (d, m) \<leftarrow> kmalloc_ptrs sz m;
          case d of
            None \<Rightarrow> Some (None, m)
          | Some cells \<Rightarrow> Some (Some \<lparr>q_size = sz, nextwrite = 0, nextread = 0, q_data = cells\<rparr>, m)
        })"

definition q_empty :: "'a queue \<Rightarrow> bool" where
  "q_empty q \<longleftrightarrow> nextwrite q = nextread q"

text \<open>\<^verbatim>\<open>while (nsize < targetsize) { nsize *= 2; assert(nsize > 0); }\<close>; the doubling either
  overflows, which is undefined, or makes progress.\<close>

function q_newsize :: "int \<Rightarrow> int \<Rightarrow> int option" where
  "q_newsize nsize target =
     (if nsize < target
      then if 0 < nsize \<and> nsize * 2 \<le> INT_MAX then q_newsize (nsize * 2) target else None
      else Some nsize)"
  by pat_completeness auto
termination
  by (relation "measure (\<lambda>(nsize, target). nat (target - nsize))") auto

declare q_newsize.simps [simp del]

function (sequential) q_addtail_f :: "nat \<Rightarrow> 'a queue \<Rightarrow> 'a \<Rightarrow> kmem \<Rightarrow> (unit res \<times> 'a queue \<times> kmem) option"
  and q_grow_f :: "nat \<Rightarrow> 'a queue \<Rightarrow> int \<Rightarrow> kmem \<Rightarrow> (unit res \<times> 'a queue \<times> kmem) option"
  and q_copy_f :: "nat \<Rightarrow> 'a option list \<Rightarrow> int \<Rightarrow> int \<Rightarrow> int \<Rightarrow> 'a queue \<Rightarrow> kmem \<Rightarrow>
      ('a queue \<times> kmem) option" where
  "q_addtail_f 0 q ptr m = None"
| "q_addtail_f (Suc f) q ptr m = do {
     kassert (q_size q > 0);
     let nextnext = (nextwrite q + 1) mod q_size q;
     if nextnext = nextread q then do {
       n \<leftarrow> cint (q_size q + 1);
       (r, q, m) \<leftarrow> q_grow_f f q n m;
       case r of
         Inl e \<Rightarrow> Some (Inl e, q, m)
       | Inr _ \<Rightarrow> do {
           let nextnext = (nextwrite q + 1) mod q_size q;
           d \<leftarrow> slot_set (q_data q) (nextwrite q) ptr;
           Some (Inr (), q\<lparr>q_data := d, nextwrite := nextnext\<rparr>, m)
         }
     }
     else do {
       d \<leftarrow> slot_set (q_data q) (nextwrite q) ptr;
       Some (Inr (), q\<lparr>q_data := d, nextwrite := nextnext\<rparr>, m)
     }
   }"
| "q_grow_f 0 q target m = None"
| "q_grow_f (Suc f) q target m = do {
     nsize \<leftarrow> q_newsize (q_size q) target;
     (ndata, m) \<leftarrow> kmalloc_ptrs nsize m;
     case ndata of
       None \<Rightarrow> Some (Inl ENOMEM, q, m)
     | Some cells \<Rightarrow> do {
         (q, m) \<leftarrow> q_copy_f f (q_data q) (q_size q) (nextread q) (nextwrite q)
                    \<lparr>q_size = nsize, nextwrite = 0, nextread = 0, q_data = cells\<rparr> m;
         Some (Inr (), q, m)
       }
   }"
| "q_copy_f 0 olddata osize i onw q m = None"
| "q_copy_f (Suc f) olddata osize i onw q m =
     (if i \<noteq> onw then do {
        x \<leftarrow> slot_get olddata i;
        (r, q, m) \<leftarrow> q_addtail_f f q x m;
        kassert (r = Inr ());
        q_copy_f f olddata osize ((i + 1) mod osize) onw q m
      }
      else Some (q, m))"
  by pat_completeness auto
termination
  by (relation "measure (\<lambda>x. case x of Inl (f, _) \<Rightarrow> f | Inr (Inl (f, _)) \<Rightarrow> f | Inr (Inr (f, _)) \<Rightarrow> f)")
    auto

definition q_addtail :: "'a queue \<Rightarrow> 'a \<Rightarrow> kmem \<Rightarrow> (unit res \<times> 'a queue \<times> kmem) option" where
  "q_addtail q ptr m = q_addtail_f (nat (q_size q) + 3) q ptr m"

definition q_grow :: "'a queue \<Rightarrow> int \<Rightarrow> kmem \<Rightarrow> (unit res \<times> 'a queue \<times> kmem) option" where
  "q_grow q target m = q_grow_f (nat (q_size q) + 2) q target m"

definition q_preallocate :: "'a queue \<Rightarrow> int \<Rightarrow> kmem \<Rightarrow> (unit res \<times> 'a queue \<times> kmem) option" where
  "q_preallocate q sz m = do {
     kassert (q_size q > 0);
     if sz > q_size q then q_grow q sz m else Some (Inr (), q, m)
   }"

definition q_remhead :: "'a queue \<Rightarrow> ('a \<times> 'a queue) option" where
  "q_remhead q = do {
     kassert (q_size q > 0);
     kassert (\<not> q_empty q);
     ret \<leftarrow> slot_get (q_data q) (nextread q);
     Some (ret, q\<lparr>nextread := (nextread q + 1) mod q_size q\<rparr>)
   }"

definition q_destroy :: "'a queue \<Rightarrow> unit option" where
  "q_destroy q = kassert (q_empty q)"

definition q_getguy :: "'a queue \<Rightarrow> int \<Rightarrow> 'a option" where
  "q_getguy q index = do {
     kassert (0 \<le> index \<and> index < q_size q);
     slot_get (q_data q) index
   }"

section \<open>Invariant and abstraction\<close>

definition q_len :: "'a queue \<Rightarrow> nat" where
  "q_len q = nat ((nextwrite q - nextread q) mod q_size q)"

definition q_slot :: "'a queue \<Rightarrow> nat \<Rightarrow> nat" where
  "q_slot q k = nat ((nextread q + int k) mod q_size q)"

definition q_inv :: "'a queue \<Rightarrow> bool" where
  "q_inv q \<longleftrightarrow> 0 < q_size q \<and> q_size q < 2 ^ 30 \<and> int (length (q_data q)) = q_size q \<and>
     0 \<le> nextread q \<and> nextread q < q_size q \<and> 0 \<le> nextwrite q \<and> nextwrite q < q_size q \<and>
     (\<forall>k < q_len q. q_data q ! q_slot q k \<noteq> None)"

definition q_list :: "'a queue \<Rightarrow> 'a list" where
  "q_list q = map (\<lambda>k. the (q_data q ! q_slot q k)) [0..<q_len q]"

lemma length_q_list [simp]: "length (q_list q) = q_len q"
  by (simp add: q_list_def)

lemma q_len_bound: "0 < q_size q \<Longrightarrow> int (q_len q) < q_size q"
  by (simp add: q_len_def)

text \<open>The slots of the elements are the ones from \<open>nextread\<close> on, \<open>nextwrite\<close> is the one after
  the last of them, and different elements have different slots.\<close>

lemma q_slot_len: "q_inv q \<Longrightarrow> int (q_slot q (q_len q)) = nextwrite q"
  by (simp add: q_slot_def q_len_def q_inv_def mod_add_right_eq)

lemma q_slot_bound: "0 < q_size q \<Longrightarrow> int (q_slot q k) < q_size q"
  by (simp add: q_slot_def)

lemma mod_shift_inj:
  assumes "(r + int j) mod n = (r + int k) mod n" and "int j < n" and "int k < n"
  shows "j = k"
proof -
  from assms(1) have "(int j - int k) mod n = 0"
    by (metis add_diff_cancel_left mod_eq_0_iff_dvd mod_eq_dvd_iff)
  then have "n dvd int j - int k" by auto
  moreover have "\<bar>int j - int k\<bar> < n" using assms(2,3) by linarith
  ultimately show ?thesis using dvd_imp_le_int [of "int j - int k" n] by auto
qed

lemma q_slot_inj:
  "0 < q_size q \<Longrightarrow> q_slot q j = q_slot q k \<Longrightarrow> int j < q_size q \<Longrightarrow> int k < q_size q \<Longrightarrow> j = k"
  by (rule mod_shift_inj [where r = "nextread q" and n = "q_size q"])
    (auto simp: q_slot_def nat_eq_iff)

section \<open>Adding and removing without growing\<close>

text \<open>\<open>q_put\<close>: the part of \<^verbatim>\<open>q_addtail\<close> after the check for room.\<close>

definition q_put :: "'a queue \<Rightarrow> 'a \<Rightarrow> 'a queue" where
  "q_put q x = q\<lparr>q_data := (q_data q)[nat (nextwrite q) := Some x],
                 nextwrite := (nextwrite q + 1) mod q_size q\<rparr>"

definition q_full :: "'a queue \<Rightarrow> bool" where
  "q_full q \<longleftrightarrow> (nextwrite q + 1) mod q_size q = nextread q"

lemma q_full_len:
  assumes "q_inv q"
  shows "q_full q \<longleftrightarrow> int (q_len q) = q_size q - 1"
proof -
  let ?n = "q_size q" and ?d = "nextwrite q - nextread q"
  have n: "0 < ?n" and r: "0 \<le> nextread q" "nextread q < ?n" using assms by (auto simp: q_inv_def)
  have "q_full q \<longleftrightarrow> (nextwrite q + 1) mod ?n = nextread q mod ?n"
    using r by (simp add: q_full_def)
  also have "\<dots> \<longleftrightarrow> (?d + 1) mod ?n = 0"
    by (simp add: mod_eq_dvd_iff dvd_eq_mod_eq_0 algebra_simps)
  also have "(?d + 1) mod ?n = (?d mod ?n + 1) mod ?n" by (simp add: mod_add_left_eq)
  also have "\<dots> = 0 \<longleftrightarrow> ?d mod ?n = ?n - 1"
  proof -
    have d: "0 \<le> ?d mod ?n" "?d mod ?n < ?n" using n by simp_all
    show ?thesis
    proof (cases "?d mod ?n = ?n - 1")
      case False
      with d have "?d mod ?n + 1 < ?n" by linarith
      with d have "(?d mod ?n + 1) mod ?n = ?d mod ?n + 1" by (intro mod_pos_pos_trivial) auto
      with d False show ?thesis by simp
    qed simp
  qed
  finally show ?thesis using n by (simp add: q_len_def)
qed

lemma q_len_put:
  assumes inv: "q_inv q" and room: "\<not> q_full q"
  shows "q_len (q_put q x) = Suc (q_len q)"
proof -
  let ?n = "q_size q" and ?d = "nextwrite q - nextread q"
  have n: "0 < ?n" using inv by (simp add: q_inv_def)
  have "int (q_len q) < ?n - 1"
    using q_full_len [OF inv] room q_len_bound [OF n] by auto
  then have d: "?d mod ?n + 1 < ?n" using n by (simp add: q_len_def)
  have "((nextwrite q + 1) mod ?n - nextread q) mod ?n = (?d + 1) mod ?n"
    by (simp add: mod_diff_left_eq algebra_simps)
  also have "\<dots> = (?d mod ?n + 1) mod ?n" by (simp add: mod_add_left_eq)
  also have "\<dots> = ?d mod ?n + 1" using d n by (simp add: mod_pos_pos_trivial)
  finally show ?thesis using n by (simp add: q_len_def q_put_def nat_add_distrib)
qed

lemma q_put_spec:
  assumes inv: "q_inv q" and room: "\<not> q_full q"
  shows "q_inv (q_put q x)" and "q_list (q_put q x) = q_list q @ [x]"
    and "q_size (q_put q x) = q_size q"
proof -
  let ?q = "q_put q x"
  have n: "0 < q_size q" using inv by (simp add: q_inv_def)
  have w: "nat (nextwrite q) = q_slot q (q_len q)" using q_slot_len [OF inv] by simp
  have wl: "nat (nextwrite q) < length (q_data q)" using inv by (auto simp: q_inv_def)
  have slots: "q_slot ?q k = q_slot q k" for k by (simp add: q_slot_def q_put_def)
  have old: "q_data ?q ! q_slot q k = q_data q ! q_slot q k" if "k < q_len q" for k
  proof -
    have "q_slot q k \<noteq> nat (nextwrite q)"
      using q_slot_inj [OF n, of k "q_len q"] that q_len_bound [OF n] w by auto
    then show ?thesis by (simp add: q_put_def)
  qed
  have new: "q_data ?q ! q_slot q (q_len q) = Some x"
    using w wl by (simp add: q_put_def)
  show "q_list ?q = q_list q @ [x]"
    using old new by (simp add: q_list_def q_len_put [OF inv room] slots)
  have "q_data ?q ! q_slot ?q k \<noteq> None" if "k < q_len ?q" for k
    using that old new inv by (cases "k = q_len q") (auto simp: q_len_put [OF inv room] slots q_inv_def)
  with inv n show "q_inv ?q" by (simp add: q_inv_def q_put_def)
  show "q_size ?q = q_size q" by (simp add: q_put_def)
qed

lemma q_addtail_f_room:
  assumes "q_inv q" and "\<not> q_full q"
  shows "q_addtail_f (Suc f) q x m = Some (Inr (), q_put q x, m)"
  using assms by (auto simp: q_full_def slot_set_def q_put_def Let_def q_inv_def kassert_def)

lemma q_empty_iff:
  assumes inv: "q_inv q"
  shows "q_empty q \<longleftrightarrow> q_list q = []"
proof -
  let ?n = "q_size q" and ?d = "nextwrite q - nextread q"
  have n: "0 < ?n" and r: "0 \<le> nextread q" "nextread q < ?n" "0 \<le> nextwrite q" "nextwrite q < ?n"
    using inv by (auto simp: q_inv_def)
  have "nextwrite q = nextread q \<longleftrightarrow> nextwrite q mod ?n = nextread q mod ?n" using r by simp
  also have "\<dots> \<longleftrightarrow> ?d mod ?n = 0" by (simp add: mod_eq_dvd_iff dvd_eq_mod_eq_0)
  finally show ?thesis using pos_mod_sign [OF n, of ?d]
    by (auto simp: q_len_def q_empty_def q_list_def)
qed

lemma q_remhead_spec:
  assumes inv: "q_inv q"
  shows "q_list q = [] \<Longrightarrow> q_remhead q = None"
    and "q_list q = x # xs \<Longrightarrow> \<exists>q'. q_remhead q = Some (x, q') \<and> q_inv q' \<and> q_list q' = xs \<and>
      q_size q' = q_size q"
proof -
  let ?n = "q_size q" and ?d = "nextwrite q - nextread q"
  have n: "0 < ?n" and r: "0 \<le> nextread q" "nextread q < ?n" "0 \<le> nextwrite q" "nextwrite q < ?n"
    using inv by (auto simp: q_inv_def)
  show "q_list q = [] \<Longrightarrow> q_remhead q = None"
    by (simp add: q_remhead_def q_empty_iff [OF inv] n)
  assume list: "q_list q = x # xs"
  let ?q = "q\<lparr>nextread := (nextread q + 1) mod ?n\<rparr>"
  from list have len: "q_len q = Suc (length xs)" by (metis length_Cons length_q_list)
  have "?d mod ?n = 1 + int (length xs)" using len by (simp add: q_len_def)
  moreover have "(nextwrite q - (nextread q + 1) mod ?n) mod ?n = (?d mod ?n - 1) mod ?n"
    by (simp add: mod_diff_right_eq mod_diff_left_eq diff_diff_eq)
  moreover have "int (length xs) < ?n" using q_len_bound [OF n] len by simp
  ultimately have "(nextwrite q - (nextread q + 1) mod ?n) mod ?n = int (length xs)"
    by (simp add: mod_pos_pos_trivial)
  then have len': "q_len ?q = length xs" by (simp add: q_len_def)
  have slots: "q_slot ?q k = q_slot q (Suc k)" for k
    by (simp add: q_slot_def mod_simps algebra_simps)
  have "q_slot q 0 = nat (nextread q)" using r by (simp add: q_slot_def)
  moreover have "q_data q ! q_slot q 0 = Some x"
  proof -
    have "q_list q ! 0 = the (q_data q ! q_slot q 0)" using len by (simp add: q_list_def del: upt_Suc)
    with list inv len show ?thesis by (auto simp: q_inv_def)
  qed
  ultimately have "slot_get (q_data q) (nextread q) = Some x"
    using r inv by (auto simp: slot_get_def q_inv_def)
  moreover have "q_inv ?q" using inv n len' len by (auto simp: q_inv_def slots)
  moreover have "q_list ?q = xs"
    using list len' len by (auto simp: q_list_def slots upt_conv_Cons map_Suc_upt [symmetric] comp_def simp del: upt_Suc)
  ultimately show "\<exists>q'. q_remhead q = Some (x, q') \<and> q_inv q' \<and> q_list q' = xs \<and> q_size q' = q_size q"
    using n list by (simp add: q_remhead_def q_empty_iff [OF inv])
qed

section \<open>Growing\<close>

lemma q_newsize_Some: "q_newsize n t = Some k \<Longrightarrow> n \<le> k \<and> t \<le> k"
proof (induction n t rule: q_newsize.induct)
  case (1 n t)
  show ?case
  proof (cases "n < t")
    case True
    with "1.prems" have "0 < n \<and> n * 2 \<le> INT_MAX" "q_newsize (n * 2) t = Some k"
      by (auto simp: q_newsize.simps [of n t] split: if_splits)
    with "1.IH" True show ?thesis by simp
  next
    case False
    with "1.prems" show ?thesis by (auto simp: q_newsize.simps [of n t])
  qed
qed

lemma q_newsize_total:
  "0 < n \<Longrightarrow> t < 2 ^ 29 \<Longrightarrow> \<exists>k. q_newsize n t = Some k \<and> k \<le> max n (2 * t)"
proof (induction n t rule: q_newsize.induct)
  case (1 n t)
  show ?case
  proof (cases "n < t")
    case True
    with "1.prems" have "n * 2 \<le> INT_MAX" by simp
    with True "1.prems" "1.IH" obtain k where "q_newsize (n * 2) t = Some k" "k \<le> max (n * 2) (2 * t)"
      by auto
    with True "1.prems" \<open>n * 2 \<le> INT_MAX\<close> show ?thesis by (auto simp: q_newsize.simps [of n t])
  next
    case False
    then show ?thesis by (simp add: q_newsize.simps [of n t])
  qed
qed

text \<open>The copy loop visits the old elements from index \<open>j\<close> on and appends them; with enough free
  slots in the new ring no step of it grows the ring.\<close>

lemma q_copy_f_spec:
  assumes "q_inv old" and "q_inv q" and "j \<le> q_len old" and "q_len old - j < f"
    and "int (q_len q + (q_len old - j)) < q_size q"
  shows "\<exists>q'. q_copy_f f (q_data old) (q_size old) (int (q_slot old j)) (nextwrite old) q m = Some (q', m) \<and>
    q_inv q' \<and> q_list q' = q_list q @ drop j (q_list old) \<and> q_size q' = q_size q"
  using assms
proof (induction f arbitrary: j q)
  case 0
  then show ?case by simp
next
  case (Suc f)
  note inv = Suc.prems(1,2) and j = Suc.prems(3)
  have n: "0 < q_size old" using inv by (simp add: q_inv_def)
  show ?case
  proof (cases "j = q_len old")
    case True
    with inv q_slot_len [OF inv(1)] show ?thesis by (simp del: q_copy_f.simps(1))
  next
    case False
    with j have lt: "j < q_len old" by simp
    have slot: "q_slot old j < length (q_data old)"
      using inv(1) q_slot_bound [OF n, of j] by (simp add: q_inv_def)
    have "int (q_slot old j) \<noteq> nextwrite old"
      using q_slot_inj [OF n, of j "q_len old"] q_slot_len [OF inv(1)] lt q_len_bound [OF n] by auto
    moreover have "slot_get (q_data old) (int (q_slot old j)) = Some (q_list old ! j)"
      using slot lt inv(1) by (auto simp: slot_get_def q_list_def q_inv_def)
    moreover have nxt: "(int (q_slot old j) + 1) mod q_size old = int (q_slot old (Suc j))"
      using n by (simp add: q_slot_def mod_simps algebra_simps)
    moreover have room: "\<not> q_full q"
      using q_full_len [OF inv(2)] Suc.prems(5) lt by auto
    moreover obtain f' where f': "f = Suc f'" using Suc.prems(4) lt by (cases f) auto
    moreover note put = q_put_spec [OF inv(2) room, of "q_list old ! j"] q_len_put [OF inv(2) room]
    moreover have "\<exists>q'. q_copy_f f (q_data old) (q_size old) (int (q_slot old (Suc j))) (nextwrite old)
          (q_put q (q_list old ! j)) m = Some (q', m) \<and> q_inv q' \<and>
        q_list q' = q_list (q_put q (q_list old ! j)) @ drop (Suc j) (q_list old) \<and>
        q_size q' = q_size (q_put q (q_list old ! j))"
      using Suc.prems(4,5) lt put inv by (intro Suc.IH) auto
    ultimately show ?thesis
      using lt q_addtail_f_room [OF inv(2) room, of f' "q_list old ! j" m]
      by (auto simp: Cons_nth_drop_Suc simp del: q_addtail_f.simps)
  qed
qed

lemma q_inv_fresh:
  "0 < n \<Longrightarrow> n < 2 ^ 30 \<Longrightarrow>
     q_inv \<lparr>q_size = n, nextwrite = 0, nextread = 0, q_data = replicate (nat n) None\<rparr> \<and>
     q_list \<lparr>q_size = n, nextwrite = 0, nextread = 0, q_data = replicate (nat n) None\<rparr> = []"
  by (simp add: q_inv_def q_list_def q_len_def)

lemma q_grow_f_spec:
  assumes inv: "q_inv q" and t: "t < 2 ^ 29" and f: "nat (q_size q) < f"
  shows "\<exists>r q' m'. q_grow_f (Suc f) q t m = Some (r, q', m') \<and> m' = snd (kmalloc m) \<and>
    (if fst (kmalloc m) then r = Inr () \<and> q_inv q' \<and> q_list q' = q_list q \<and> t \<le> q_size q' \<and>
       q_size q \<le> q_size q'
     else r = Inl ENOMEM \<and> q' = q)"
proof -
  have n: "0 < q_size q" and n2: "q_size q < 2 ^ 30" using inv by (auto simp: q_inv_def)
  from q_newsize_total [OF n t] obtain k where k: "q_newsize (q_size q) t = Some k"
    and kb: "k \<le> max (q_size q) (2 * t)" by auto
  from q_newsize_Some [OF k] have ge: "q_size q \<le> k" "t \<le> k" by auto
  from kb n2 t have k30: "k < 2 ^ 30" by auto
  let ?q = "\<lparr>q_size = k, nextwrite = 0, nextread = 0, q_data = replicate (nat k) None\<rparr> :: 'a queue"
  have fresh: "q_inv ?q" "q_list ?q = []" "q_len ?q = 0"
    using q_inv_fresh [of k] n ge k30 by (auto simp: q_len_def)
  have "q_slot q 0 = nat (nextread q)" using inv by (simp add: q_slot_def q_inv_def)
  moreover have "q_len q < f" using q_len_bound [OF n] f by linarith
  ultimately obtain q' where
    "q_copy_f f (q_data q) (q_size q) (nextread q) (nextwrite q) ?q (snd (kmalloc m)) =
       Some (q', snd (kmalloc m))"
    "q_inv q'" "q_list q' = q_list q" "q_size q' = k"
    using q_copy_f_spec [OF inv fresh(1), of 0 f "snd (kmalloc m)"] fresh q_len_bound [OF n] ge inv
    by (auto simp: q_inv_def)
  with k k30 n ge show ?thesis
    by (cases "kmalloc m") (simp add: kmalloc_ptrs_def)
qed

text \<open>
  \<^verbatim>\<open>q_addtail\<close> in full: with room it appends and cannot fail; when the ring is full it grows, and
  then either appends or reports \<open>ENOMEM\<close> with the ring unchanged. The fuel suffices.
\<close>

lemma q_addtail_full:
  assumes inv: "q_inv q" and s: "q_size q < 2 ^ 29 - 1"
  shows "if q_full q \<and> \<not> fst (kmalloc m) then q_addtail q x m = Some (Inl ENOMEM, q, snd (kmalloc m))
    else \<exists>q' m'. q_addtail q x m = Some (Inr (), q', m') \<and> q_inv q' \<and> q_list q' = q_list q @ [x] \<and>
      q_size q \<le> q_size q'"
proof (cases "q_full q")
  case False
  have "q_addtail q x m = Some (Inr (), q_put q x, m)"
    using q_addtail_f_room [OF inv False, of "nat (q_size q) + 2" x m]
    by (simp add: q_addtail_def numeral_3_eq_3 del: q_addtail_f.simps)
  with q_put_spec [OF inv False, of x] False show ?thesis by simp
next
  case True
  have n: "0 < q_size q" using inv by (simp add: q_inv_def)
  from inv s have range: "INT_MIN \<le> q_size q + 1" "q_size q + 1 \<le> INT_MAX" by (auto simp: q_inv_def)
  have "q_size q + 1 < 2 ^ 29" using s by simp
  moreover obtain F where F: "Suc (nat (q_size q) + 1) = F" by simp
  moreover have "nat (q_size q) < nat (q_size q) + 1" by simp
  ultimately obtain r q' m' where
    g: "q_grow_f F q (q_size q + 1) m = Some (r, q', m')" "m' = snd (kmalloc m)"
    and gs: "if fst (kmalloc m) then r = Inr () \<and> q_inv q' \<and> q_list q' = q_list q \<and>
        q_size q + 1 \<le> q_size q' \<and> q_size q \<le> q_size q' else r = Inl ENOMEM \<and> q' = q"
    using q_grow_f_spec [OF inv, of "q_size q + 1" "nat (q_size q) + 1" m] by metis
  have fuel: "nat (q_size q) + 3 = Suc F" using F by simp
  show ?thesis
  proof (cases "fst (kmalloc m)")
    case False
    with g gs range n True show ?thesis unfolding q_addtail_def fuel
      by (simp add: q_full_def Let_def kassert_def)
  next
    case grown: True
    with gs have gs': "r = Inr ()" "q_inv q'" "q_list q' = q_list q" "q_size q + 1 \<le> q_size q'" by auto
    have "q_len q' = q_len q" using gs'(3) by (metis length_q_list)
    then have room: "\<not> q_full q'"
      using q_full_len [OF gs'(2)] q_len_bound [OF n] gs'(4) by auto
    have "slot_set (q_data q') (nextwrite q') x = Some ((q_data q')[nat (nextwrite q') := Some x])"
      using gs'(2) by (auto simp: slot_set_def q_inv_def)
    with g gs' range n True grown have "q_addtail q x m = Some (Inr (), q_put q' x, m')"
      unfolding q_addtail_def fuel
      by (simp add: q_full_def Let_def kassert_def q_put_def)
    with q_put_spec [OF gs'(2) room, of x] gs' grown show ?thesis by simp
  qed
qed

lemma q_addtail_Inr:
  assumes "q_inv q" and "q_size q < 2 ^ 29 - 1" and "q_addtail q x m = Some (Inr u, q', m')"
  shows "q_inv q' \<and> q_list q' = q_list q @ [x]"
  using q_addtail_full [OF assms(1,2), of m x] assms(3) by (auto split: if_splits)

lemma q_addtail_Inl:
  assumes "q_inv q" and "q_size q < 2 ^ 29 - 1" and "q_addtail q x m = Some (Inl e, q', m')"
  shows "e = ENOMEM \<and> q' = q"
  using q_addtail_full [OF assms(1,2), of m x] assms(3) by (auto split: if_splits)

lemma q_addtail_room:
  assumes inv: "q_inv q" and room: "int (length (q_list q)) + 1 < q_size q"
  shows "\<exists>q'. q_addtail q x m = Some (Inr (), q', m) \<and> q_inv q' \<and> q_list q' = q_list q @ [x] \<and>
    q_size q' = q_size q"
proof -
  have full: "\<not> q_full q" using q_full_len [OF inv] room by simp
  have "q_addtail q x m = Some (Inr (), q_put q x, m)"
    using q_addtail_f_room [OF inv full, of "nat (q_size q) + 2" x m]
    by (simp add: q_addtail_def numeral_3_eq_3 del: q_addtail_f.simps)
  with q_put_spec [OF inv full, of x] show ?thesis by simp
qed

lemma q_preallocate_spec:
  assumes inv: "q_inv q" and n: "n < 2 ^ 29"
  shows "\<exists>r q' m'. q_preallocate q n m = Some (r, q', m') \<and>
    (case r of Inr _ \<Rightarrow> q_inv q' \<and> q_list q' = q_list q \<and> n \<le> q_size q' \<and> q_size q \<le> q_size q'
     | Inl e \<Rightarrow> e = ENOMEM \<and> q' = q)"
proof (cases "n > q_size q")
  case True
  have "nat (q_size q) + 2 = Suc (nat (q_size q) + 1)" by simp
  with q_grow_f_spec [OF inv n, of "nat (q_size q) + 1" m] obtain r q' m' where
    "q_grow q n m = Some (r, q', m')" "if fst (kmalloc m) then r = Inr () \<and> q_inv q' \<and>
       q_list q' = q_list q \<and> n \<le> q_size q' \<and> q_size q \<le> q_size q' else r = Inl ENOMEM \<and> q' = q"
    unfolding q_grow_def by (metis less_add_one)
  with True inv show ?thesis
    by (auto simp: q_preallocate_def kassert_def q_inv_def split: if_splits)
next
  case False
  with inv show ?thesis by (auto simp: q_preallocate_def kassert_def q_inv_def)
qed

lemma q_create_spec:
  assumes "q_create n m = Some (Some q, m')" and "0 < n"
  shows "q_inv q \<and> q_list q = [] \<and> q_size q = n"
  using assms q_inv_fresh [of n]
  by (auto simp: q_create_def kmalloc_ptrs_Some split: prod.splits if_splits option.splits elim!: bind_SomeE)

section \<open>The interface the scheduler uses\<close>

text \<open>
  \<open>fifo_queue\<close>: elements leave in the order they came. \<open>small\<close> bounds the capacity so that the
  size computations stay inside \<^verbatim>\<open>int\<close>.
\<close>

locale fifo_queue =
  fixes inv :: "'q \<Rightarrow> bool"
    and lst :: "'q \<Rightarrow> 'a list"
    and small :: "'q \<Rightarrow> bool"
    and empty :: "'q \<Rightarrow> bool"
    and addtail :: "'q \<Rightarrow> 'a \<Rightarrow> kmem \<Rightarrow> (unit res \<times> 'q \<times> kmem) option"
    and remhead :: "'q \<Rightarrow> ('a \<times> 'q) option"
  assumes empty_law: "inv q \<Longrightarrow> empty q \<longleftrightarrow> lst q = []"
    and addtail_ok_law: "inv q \<Longrightarrow> small q \<Longrightarrow> addtail q x m = Some (Inr u, q', m') \<Longrightarrow>
      inv q' \<and> lst q' = lst q @ [x]"
    and addtail_err_law: "inv q \<Longrightarrow> small q \<Longrightarrow> addtail q x m = Some (Inl e, q', m') \<Longrightarrow>
      e = ENOMEM \<and> q' = q"
    and addtail_total_law: "inv q \<Longrightarrow> small q \<Longrightarrow> \<exists>r q' m'. addtail q x m = Some (r, q', m')"
    and remhead_law: "inv q \<Longrightarrow> lst q = x # xs \<Longrightarrow>
      \<exists>q'. remhead q = Some (x, q') \<and> inv q' \<and> lst q' = xs"
    and remhead_empty_law: "inv q \<Longrightarrow> lst q = [] \<Longrightarrow> remhead q = None"
begin

lemma remhead_Some:
  assumes "inv q" and "remhead q = Some (x, q')"
  shows "inv q' \<and> lst q = x # lst q'"
proof (cases "lst q")
  case Nil
  with assms show ?thesis by (simp add: remhead_empty_law)
next
  case (Cons y ys)
  with remhead_law [OF assms(1) Cons] assms(2) show ?thesis by auto
qed

lemma remhead_total: "inv q \<Longrightarrow> \<not> empty q \<Longrightarrow> \<exists>x q'. remhead q = Some (x, q')"
  by (metis empty_law list.exhaust remhead_law)

text \<open>First in, first out: what is added to an empty queue comes out next, and what is added to
  another queue does not change what comes out next.\<close>

lemma add_to_empty:
  assumes "inv q" and "small q" and "empty q" and "addtail q x m = Some (Inr u, q1, m')"
  shows "\<exists>q2. remhead q1 = Some (x, q2) \<and> inv q2 \<and> empty q2"
proof -
  have "inv q1" "lst q1 = [x]"
    using addtail_ok_law [OF assms(1,2,4)] assms(1,3) by (auto simp: empty_law)
  with remhead_law [of q1 x "[]"] show ?thesis by (auto simp: empty_law)
qed

lemma add_keeps_head:
  assumes "inv q" and "small q" and "remhead q = Some (y, q0)" and "addtail q x m = Some (Inr u, q1, m')"
  shows "\<exists>q2. remhead q1 = Some (y, q2) \<and> inv q2 \<and> lst q2 = lst q0 @ [x]"
proof -
  have "lst q = y # lst q0" using remhead_Some [OF assms(1,3)] by simp
  then have "inv q1" "lst q1 = y # (lst q0 @ [x])"
    using addtail_ok_law [OF assms(1,2,4)] by auto
  then show ?thesis using remhead_law by blast
qed

end

definition q_small :: "'a queue \<Rightarrow> bool" where
  "q_small q \<longleftrightarrow> q_size q < 2 ^ 29 - 1"

interpretation kq: fifo_queue q_inv q_list q_small q_empty q_addtail q_remhead
proof unfold_locales
  fix q q' :: "'a queue" and x xs m m' u e
  assume inv: "q_inv q"
  show "q_empty q \<longleftrightarrow> q_list q = []"
    using inv by (rule q_empty_iff)
  show "q_small q \<Longrightarrow> q_addtail q x m = Some (Inr u, q', m') \<Longrightarrow> q_inv q' \<and> q_list q' = q_list q @ [x]"
    using q_addtail_Inr [OF inv] by (simp add: q_small_def)
  show "q_small q \<Longrightarrow> q_addtail q x m = Some (Inl e, q', m') \<Longrightarrow> e = ENOMEM \<and> q' = q"
    using q_addtail_Inl [OF inv] by (simp add: q_small_def)
  show "q_small q \<Longrightarrow> \<exists>r q' m'. q_addtail q x m = Some (r, q', m')"
    using q_addtail_full [OF inv, of m x] by (auto simp: q_small_def split: if_splits)
  show "q_list q = x # xs \<Longrightarrow> \<exists>q'. q_remhead q = Some (x, q') \<and> q_inv q' \<and> q_list q' = xs"
    using q_remhead_spec(2) [OF inv] by blast
  show "q_list q = [] \<Longrightarrow> q_remhead q = None"
    by (rule q_remhead_spec(1) [OF inv])
qed

section \<open>Properties\<close>

text \<open>\<^verbatim>\<open>q_addtail\<close> fails only when the ring is full and \<^verbatim>\<open>kmalloc\<close> fails, then with \<^verbatim>\<open>ENOMEM\<close>
  and the queue unchanged. Otherwise it appends the element, also when it has to grow the ring and
  copy it element by element through recursive calls of itself.\<close>

theorem q_addtail_correct:
  assumes "q_inv q" and "q_small q"
  shows "if q_full q \<and> \<not> fst (kmalloc m) then q_addtail q x m = Some (Inl ENOMEM, q, snd (kmalloc m))
    else \<exists>q' m'. q_addtail q x m = Some (Inr (), q', m') \<and> q_inv q' \<and> q_list q' = q_list q @ [x]"
  using q_addtail_full [OF assms(1), of m x] assms(2) by (auto simp: q_small_def split: if_splits)

theorem q_addtail_correct_witness:
  "\<exists>q' m'. q_addtail \<lparr>q_size = 2, nextwrite = 0, nextread = 1, q_data = [None, Some (4::nat)]\<rparr> 9 [True] =
     Some (Inr (), q', m') \<and> q_inv q' \<and> q_list q' = [4, 9]"
proof -
  let ?q = "\<lparr>q_size = 2, nextwrite = 0, nextread = 1, q_data = [None, Some (4::nat)]\<rparr>"
  have "q_list ?q = [4]" by (simp add: q_list_def q_len_def q_slot_def)
  moreover have "q_inv ?q" by (simp add: q_inv_def q_len_def q_slot_def)
  ultimately show ?thesis using q_addtail_correct [of ?q "[True]" 9] by (simp add: q_small_def)
qed

end
