(* ===== verification/K_Pid.thy ===== *)
theory K_Pid
  imports K_Prelude
begin

text \<open>
  Process identifiers, \<^verbatim>\<open>kern/thread/pid.c\<close>: the process table (a hash table with one process
  per slot), allocation, exit, detach and join.

  The state is the file's global variables. \<open>pi_held\<close> says whether the running thread holds
  \<^verbatim>\<open>pi_lock\<close>; acquiring it twice or releasing it without holding it is an assertion failure in
  \<^verbatim>\<open>synch.c\<close>. \<^verbatim>\<open>pid_join\<close> may sleep on the child's condition variable, so it is modelled as the
  part up to the sleep (\<open>pid_join_start\<close>) and the part after the wakeup (\<open>pid_join_finish\<close>), and
  the relation \<open>pid_step\<close> interleaves the operations of all threads around it.
\<close>

section \<open>The code\<close>

abbreviation (input) PROCS_MAX :: int where "PROCS_MAX \<equiv> 128"
abbreviation (input) PID_MIN :: int where "PID_MIN \<equiv> 2"
abbreviation (input) PID_MAX :: int where "PID_MAX \<equiv> 32767"
abbreviation (input) INVALID_PID :: int where "INVALID_PID \<equiv> 0"
abbreviation (input) BOOTUP_PID :: int where "BOOTUP_PID \<equiv> 1"

record pidinfo =
  pi_pid :: int
  pi_ppid :: int
  pi_exited :: bool
  pi_exitstatus :: int
  pi_joinable :: bool

record pidsys =
  pidtab :: "pidinfo option list"
  nextpid :: int
  nprocs :: int
  pi_held :: bool
  pid_mem :: kmem

text \<open>\<^verbatim>\<open>lock_acquire(pi_lock)\<close> and \<^verbatim>\<open>lock_release(pi_lock)\<close>.\<close>

definition pi_acquire :: "pidsys \<Rightarrow> pidsys option" where
  "pi_acquire s = do { kassert (\<not> pi_held s); Some (s\<lparr>pi_held := True\<rparr>) }"

definition pi_release :: "pidsys \<Rightarrow> pidsys option" where
  "pi_release s = do { kassert (pi_held s); Some (s\<lparr>pi_held := False\<rparr>) }"

text \<open>\<^verbatim>\<open>pidinfo_create\<close>: one \<^verbatim>\<open>kmalloc\<close> for the structure and two in \<^verbatim>\<open>cv_create\<close> (the condition
  variable and the copy of its name).\<close>

definition cv_create :: "kmem \<Rightarrow> bool \<times> kmem" where
  "cv_create m = (case kmalloc m of (ok, m) \<Rightarrow> if ok then kmalloc m else (False, m))"

definition pidinfo_create :: "int \<Rightarrow> int \<Rightarrow> kmem \<Rightarrow> (pidinfo option \<times> kmem) option" where
  "pidinfo_create pid ppid m = do {
     kassert (pid \<noteq> INVALID_PID);
     case kmalloc m of (ok, m) \<Rightarrow>
       if \<not> ok then Some (None, m)
       else case cv_create m of (ok, m) \<Rightarrow>
         if \<not> ok then Some (None, m)
         else Some (Some \<lparr>pi_pid = pid, pi_ppid = ppid, pi_exited = False,
                          pi_exitstatus = 0xbeef, pi_joinable = True\<rparr>, m)
   }"

definition pidinfo_destroy :: "pidinfo \<Rightarrow> unit option" where
  "pidinfo_destroy pi = do {
     kassert (pi_exited pi);
     kassert (pi_ppid pi = INVALID_PID)
   }"

definition pid_bootstrap :: "kmem \<Rightarrow> pidsys option" where
  "pid_bootstrap m = (case kmalloc m of (ok1, m) \<Rightarrow> case (if ok1 then kmalloc m else (False, m)) of
     (ok, m) \<Rightarrow> do {
       kassert ok;
       (pi, m) \<leftarrow> pidinfo_create BOOTUP_PID INVALID_PID m;
       kassert (pi \<noteq> None);
       Some \<lparr>pidtab = (replicate (nat PROCS_MAX) None)[nat BOOTUP_PID := pi],
             nextpid = PID_MIN, nprocs = 1, pi_held = False, pid_mem = m\<rparr>
     })"

definition pid_slot :: "int \<Rightarrow> nat" where
  "pid_slot pid = nat (pid mod PROCS_MAX)"

definition pi_get :: "pidsys \<Rightarrow> int \<Rightarrow> pidinfo option option" where
  "pi_get s pid = do {
     kassert (pid \<ge> 0);
     kassert (pid \<noteq> INVALID_PID);
     case pidtab s ! pid_slot pid of
       None \<Rightarrow> Some None
     | Some pi \<Rightarrow> if pi_pid pi \<noteq> pid then Some None else Some (Some pi)
   }"

definition pi_put :: "pidsys \<Rightarrow> int \<Rightarrow> pidinfo \<Rightarrow> pidsys option" where
  "pi_put s pid pi = do {
     kassert (pid \<noteq> INVALID_PID);
     kassert (pidtab s ! pid_slot pid = None);
     Some (s\<lparr>pidtab := (pidtab s)[pid_slot pid := Some pi], nprocs := nprocs s + 1\<rparr>)
   }"

definition pi_drop :: "pidsys \<Rightarrow> int \<Rightarrow> pidsys option" where
  "pi_drop s pid = do {
     pi \<leftarrow> pidtab s ! pid_slot pid;
     kassert (pi_pid pi = pid);
     pidinfo_destroy pi;
     Some (s\<lparr>pidtab := (pidtab s)[pid_slot pid := None], nprocs := nprocs s - 1\<rparr>)
   }"

text \<open>An assignment through the pointer that \<^verbatim>\<open>pi_get\<close> returned.\<close>

definition pi_store :: "pidsys \<Rightarrow> pidinfo \<Rightarrow> pidsys" where
  "pi_store s pi = s\<lparr>pidtab := (pidtab s)[pid_slot (pi_pid pi) := Some pi]\<rparr>"

definition inc_nextpid :: "int \<Rightarrow> int" where
  "inc_nextpid np = (if np + 1 > PID_MAX then PID_MIN else np + 1)"

text \<open>The search loop of \<^verbatim>\<open>pid_alloc\<close>, with its assertion that it does not run for ever.\<close>

function pid_search :: "pidinfo option list \<Rightarrow> int \<Rightarrow> int \<Rightarrow> int option" where
  "pid_search tab np count =
     (if tab ! pid_slot np \<noteq> None
      then if count < PROCS_MAX * 2 + 5 then pid_search tab (inc_nextpid np) (count + 1) else None
      else Some np)"
  by pat_completeness auto
termination
  by (relation "measure (\<lambda>(tab, np, count). nat (PROCS_MAX * 2 + 5 - count))") auto

declare pid_search.simps [simp del]

definition pid_alloc :: "int \<Rightarrow> pidsys \<Rightarrow> (int res \<times> pidsys) option" where
  "pid_alloc me s = do {
     kassert (me \<noteq> INVALID_PID);
     s \<leftarrow> pi_acquire s;
     if nprocs s = PROCS_MAX then do {
       s \<leftarrow> pi_release s;
       Some (Inl EAGAIN, s)
     }
     else do {
       np \<leftarrow> pid_search (pidtab s) (nextpid s) 0;
       let s = s\<lparr>nextpid := np\<rparr>;
       let pid = nextpid s;
       (pi, m) \<leftarrow> pidinfo_create pid me (pid_mem s);
       let s = s\<lparr>pid_mem := m\<rparr>;
       case pi of
         None \<Rightarrow> do {
           s \<leftarrow> pi_release s;
           Some (Inl ENOMEM, s)
         }
       | Some pi \<Rightarrow> do {
           s \<leftarrow> pi_put s pid pi;
           let s = s\<lparr>nextpid := inc_nextpid (nextpid s)\<rparr>;
           s \<leftarrow> pi_release s;
           Some (Inr pid, s)
         }
     }
   }"

definition pid_unalloc :: "int \<Rightarrow> int \<Rightarrow> pidsys \<Rightarrow> pidsys option" where
  "pid_unalloc me theirpid s = do {
     kassert (theirpid \<ge> PID_MIN \<and> theirpid \<le> PID_MAX);
     s \<leftarrow> pi_acquire s;
     g \<leftarrow> pi_get s theirpid;
     them \<leftarrow> g;
     kassert (\<not> pi_exited them);
     kassert (pi_ppid them = me);
     let s = pi_store s (them\<lparr>pi_exitstatus := 0xdead, pi_exited := True, pi_ppid := INVALID_PID\<rparr>);
     s \<leftarrow> pi_drop s theirpid;
     pi_release s
   }"

text \<open>The loop of \<^verbatim>\<open>pid_setexited\<close> that detaches the children of the exiting process.\<close>

fun detach_children :: "int \<Rightarrow> nat list \<Rightarrow> pidsys \<Rightarrow> pidsys option" where
  "detach_children donepid [] s = Some s"
| "detach_children donepid (i # is) s =
     (case pidtab s ! i of
        None \<Rightarrow> detach_children donepid is s
      | Some pi \<Rightarrow>
          if pi_ppid pi = donepid then do {
            let pi = pi\<lparr>pi_ppid := INVALID_PID, pi_joinable := False\<rparr>;
            let s = s\<lparr>pidtab := (pidtab s)[i := Some pi]\<rparr>;
            s \<leftarrow> (if pi_exited pi then pi_drop s (pi_pid pi) else Some s);
            detach_children donepid is s
          }
          else detach_children donepid is s)"

text \<open>The result says whether the parent's condition variable was signalled.\<close>

definition pid_setexited :: "int \<Rightarrow> int \<Rightarrow> pidsys \<Rightarrow> (bool \<times> pidsys) option" where
  "pid_setexited donepid exitcode s = do {
     kassert (donepid \<ge> PID_MIN \<and> donepid \<le> PID_MAX);
     s \<leftarrow> pi_acquire s;
     s \<leftarrow> detach_children donepid [0..<nat PROCS_MAX] s;
     g \<leftarrow> pi_get s donepid;
     pi_done \<leftarrow> g;
     kassert (\<not> pi_exited pi_done);
     let pi_done = pi_done\<lparr>pi_exitstatus := exitcode, pi_exited := True\<rparr>;
     let s = pi_store s pi_done;
     s' \<leftarrow> (if pi_joinable pi_done then Some s else pi_drop s donepid);
     s' \<leftarrow> pi_release s';
     Some (pi_joinable pi_done, s')
   }"

definition pid_detach :: "int \<Rightarrow> int \<Rightarrow> pidsys \<Rightarrow> (unit res \<times> pidsys) option" where
  "pid_detach me who s =
     (if who < PID_MIN \<or> who > PID_MAX then Some (Inl EINVAL, s)
      else do {
        s \<leftarrow> pi_acquire s;
        g \<leftarrow> pi_get s who;
        case g of
          None \<Rightarrow> do { s \<leftarrow> pi_release s; Some (Inl ESRCH, s) }
        | Some pi_who \<Rightarrow>
            if pi_ppid pi_who \<noteq> me then do { s \<leftarrow> pi_release s; Some (Inl EINVAL, s) }
            else if \<not> pi_joinable pi_who then do { s \<leftarrow> pi_release s; Some (Inl EINVAL, s) }
            else do {
              let pi_who = pi_who\<lparr>pi_joinable := False, pi_ppid := INVALID_PID\<rparr>;
              let s = pi_store s pi_who;
              s \<leftarrow> (if pi_exited pi_who then pi_drop s who else Some s);
              s \<leftarrow> pi_release s;
              Some (Inr (), s)
            }
      })"

text \<open>\<^verbatim>\<open>pid_join\<close> up to the point where it returns, sleeps, or can collect the status at once.\<close>

datatype join_outcome = Join_Error errno | Join_Sleep | Join_Status int

definition pid_join_finish :: "int \<Rightarrow> pidsys \<Rightarrow> (int \<times> pidsys) option" where
  "pid_join_finish who s = do {
     pi_who \<leftarrow> pidtab s ! pid_slot who;
     kassert (pi_pid pi_who = who);
     kassert (pi_exited pi_who);
     let s = pi_store s (pi_who\<lparr>pi_ppid := INVALID_PID\<rparr>);
     s \<leftarrow> pi_drop s who;
     s \<leftarrow> pi_release s;
     Some (pi_exitstatus pi_who, s)
   }"

definition pid_join_start :: "int \<Rightarrow> int \<Rightarrow> pidsys \<Rightarrow> (join_outcome \<times> pidsys) option" where
  "pid_join_start me who s =
     (if who < PID_MIN \<or> who > PID_MAX then Some (Join_Error EINVAL, s)
      else do {
        s \<leftarrow> pi_acquire s;
        g \<leftarrow> pi_get s who;
        case g of
          None \<Rightarrow> do { s \<leftarrow> pi_release s; Some (Join_Error ESRCH, s) }
        | Some pi_who \<Rightarrow>
            if pi_ppid pi_who \<noteq> me then do { s \<leftarrow> pi_release s; Some (Join_Error EINVAL, s) }
            else if \<not> pi_joinable pi_who then do { s \<leftarrow> pi_release s; Some (Join_Error EINVAL, s) }
            else if \<not> pi_exited pi_who then do { s \<leftarrow> pi_release s; Some (Join_Sleep, s) }
            else do { (st, s) \<leftarrow> pid_join_finish who s; Some (Join_Status st, s) }
      })"

text \<open>After the wakeup, \<^verbatim>\<open>cv_wait\<close> takes the lock again before it returns.\<close>

definition pid_join_wakeup :: "int \<Rightarrow> pidsys \<Rightarrow> (int \<times> pidsys) option" where
  "pid_join_wakeup who s = do { s \<leftarrow> pi_acquire s; pid_join_finish who s }"

section \<open>Well-formed tables and the map they stand for\<close>

definition used_slots :: "pidinfo option list \<Rightarrow> nat" where
  "used_slots tab = length (filter (\<lambda>x. x \<noteq> None) tab)"

text \<open>An entry sits in the slot of its pid; a process that has exited is still there only because
  its parent may join it.\<close>

definition pi_wf :: "nat \<Rightarrow> pidinfo \<Rightarrow> bool" where
  "pi_wf i pi \<longleftrightarrow> 1 \<le> pi_pid pi \<and> pi_pid pi \<le> PID_MAX \<and> pid_slot (pi_pid pi) = i \<and>
     pi_ppid pi \<noteq> pi_pid pi \<and> (pi_pid pi = BOOTUP_PID \<longrightarrow> pi_ppid pi = INVALID_PID) \<and>
     (pi_joinable pi \<longleftrightarrow> pi_ppid pi \<noteq> INVALID_PID \<or> pi_pid pi = BOOTUP_PID) \<and>
     (pi_exited pi \<longrightarrow> pi_joinable pi)"

definition tab_wf :: "pidinfo option list \<Rightarrow> bool" where
  "tab_wf tab \<longleftrightarrow> length tab = nat PROCS_MAX \<and>
     (\<forall>i < length tab. case tab ! i of None \<Rightarrow> True | Some pi \<Rightarrow> pi_wf i pi)"

definition pid_wf :: "pidsys \<Rightarrow> bool" where
  "pid_wf s \<longleftrightarrow> tab_wf (pidtab s) \<and> nprocs s = int (used_slots (pidtab s)) \<and>
     PID_MIN \<le> nextpid s \<and> nextpid s \<le> PID_MAX \<and> \<not> pi_held s"

definition tabmap :: "pidinfo option list \<Rightarrow> int \<Rightarrow> pidinfo option" where
  "tabmap tab p = (case tab ! pid_slot p of
     None \<Rightarrow> None | Some pi \<Rightarrow> if pi_pid pi = p then Some pi else None)"

abbreviation pidmap :: "pidsys \<Rightarrow> int \<Rightarrow> pidinfo option" where
  "pidmap s \<equiv> tabmap (pidtab s)"

lemma pid_slot_bound [simp]: "pid_slot p < 128"
  by (simp add: pid_slot_def nat_less_iff)

lemma tab_wf_length: "tab_wf tab \<Longrightarrow> length tab = 128"
  by (simp add: tab_wf_def)

lemma tab_wf_nth: "tab_wf tab \<Longrightarrow> i < 128 \<Longrightarrow> tab ! i = Some pi \<Longrightarrow> pi_wf i pi"
  by (auto simp: tab_wf_def split: option.splits)

lemma tab_wf_update: "tab_wf tab \<Longrightarrow> i < 128 \<Longrightarrow> (\<And>pi. x = Some pi \<Longrightarrow> pi_wf i pi) \<Longrightarrow> tab_wf (tab[i := x])"
  by (auto simp: tab_wf_def nth_list_update split: option.splits)

lemma used_slots_update:
  "i < length tab \<Longrightarrow> used_slots (tab[i := x]) + (if tab ! i = None then 0 else 1) =
     used_slots tab + (if x = None then 0 else 1)"
proof (induction tab arbitrary: i)
  case (Cons a tab)
  show ?case
  proof (cases i)
    case (Suc j)
    with Cons.prems Cons.IH [of j] show ?thesis
      by (cases "a = None") (simp_all add: used_slots_def del: not_None_eq)
  qed (use Cons.prems in \<open>simp add: used_slots_def\<close>)
qed simp

lemma used_slots_bound: "used_slots tab \<le> length tab"
  by (simp add: used_slots_def)

lemma used_slots_less: "used_slots tab < length tab \<Longrightarrow> \<exists>i < length tab. tab ! i = None"
  by (induction tab) (auto simp: used_slots_def nth_Cons split: if_splits nat.splits)

lemma tabmap_Some: "tabmap tab p = Some pi \<Longrightarrow> tab ! pid_slot p = Some pi \<and> pi_pid pi = p"
  by (auto simp: tabmap_def split: option.splits if_splits)

lemma tabmap_wf:
  assumes "tab_wf tab" and "tabmap tab p = Some pi"
  shows "pi_wf (pid_slot p) pi" and "pi_pid pi = p" and "1 \<le> p" and "p \<le> PID_MAX"
  using tab_wf_nth [OF assms(1) pid_slot_bound] tabmap_Some [OF assms(2)] by (auto simp: pi_wf_def)

text \<open>Storing an entry in a slot that is free or its own changes the map at that pid only.\<close>

lemma tabmap_store:
  assumes "length tab = 128" and "pi_pid pi = p"
    and "tab ! pid_slot p = None \<or> (\<exists>old. tab ! pid_slot p = Some old \<and> pi_pid old = p)"
  shows "tabmap (tab[pid_slot p := Some pi]) = (tabmap tab)(p \<mapsto> pi)"
proof
  fix q
  show "tabmap (tab[pid_slot p := Some pi]) q = ((tabmap tab)(p \<mapsto> pi)) q"
    using assms by (cases "pid_slot q = pid_slot p") (auto simp: tabmap_def nth_list_update)
qed

lemma tabmap_clear:
  assumes "length tab = 128" and "tabmap tab p = Some pi"
  shows "tabmap (tab[pid_slot p := None]) = (tabmap tab)(p := None)"
proof
  fix q
  show "tabmap (tab[pid_slot p := None]) q = ((tabmap tab)(p := None)) q"
    using assms tabmap_Some [OF assms(2)]
    by (cases "pid_slot q = pid_slot p") (auto simp: tabmap_def nth_list_update)
qed

lemma pi_get_map: "1 \<le> pid \<Longrightarrow> pi_get s pid = Some (pidmap s pid)"
  by (auto simp: pi_get_def tabmap_def kassert_def split: option.splits)

text \<open>\<open>pi_drop\<close> removes an entry that has exited and has no parent.\<close>

lemma pi_drop_map:
  assumes "pidmap s p = Some pi" and "pi_exited pi" and "pi_ppid pi = INVALID_PID"
  shows "pi_drop s p = Some (s\<lparr>pidtab := (pidtab s)[pid_slot p := None], nprocs := nprocs s - 1\<rparr>)"
  using tabmap_Some [OF assms(1)] assms(2,3) by (simp add: pi_drop_def pidinfo_destroy_def)

section \<open>Allocation\<close>

lemma pid_search_hit:
  assumes "\<And>j. j < k \<Longrightarrow> tab ! pid_slot (np + int j) \<noteq> None" and "tab ! pid_slot (np + int k) = None"
    and "np + int k \<le> PID_MAX" and "count + int k \<le> PROCS_MAX * 2 + 5"
  shows "pid_search tab np count = Some (np + int k)"
  using assms
proof (induction k arbitrary: np count)
  case 0
  then show ?case by (simp add: pid_search.simps [of tab np count])
next
  case (Suc k)
  have "tab ! pid_slot np \<noteq> None" using Suc.prems(1) [of 0] by simp
  moreover have "inc_nextpid np = np + 1" using Suc.prems(3) by (simp add: inc_nextpid_def)
  moreover have "pid_search tab (np + 1) (count + 1) = Some (np + 1 + int k)"
  proof (rule Suc.IH)
    show "tab ! pid_slot (np + 1 + int j) \<noteq> None" if "j < k" for j
      using Suc.prems(1) [of "Suc j"] that by (simp add: add.assoc)
  qed (use Suc.prems in \<open>simp_all add: add.assoc\<close>)
  ultimately show ?case
    using Suc.prems(4) by (simp add: pid_search.simps [of tab np count])
qed

lemma pid_search_wrap:
  assumes "\<And>j. j \<le> k \<Longrightarrow> tab ! pid_slot (np + int j) \<noteq> None"
    and "np + int k = PID_MAX" and "count + int k < PROCS_MAX * 2 + 5"
  shows "pid_search tab np count = pid_search tab PID_MIN (count + int k + 1)"
  using assms
proof (induction k arbitrary: np count)
  case 0
  then show ?case
    using "0.prems"(1) [of 0] by (subst pid_search.simps) (simp add: inc_nextpid_def)
next
  case (Suc k)
  have "tab ! pid_slot np \<noteq> None" using Suc.prems(1) [of 0] by simp
  moreover have "inc_nextpid np = np + 1" using Suc.prems(2) by (simp add: inc_nextpid_def)
  moreover have "pid_search tab (np + 1) (count + 1) = pid_search tab PID_MIN (count + 1 + int k + 1)"
  proof (rule Suc.IH)
    show "tab ! pid_slot (np + 1 + int j) \<noteq> None" if "j \<le> k" for j
      using Suc.prems(1) [of "Suc j"] that by (simp add: add.assoc)
  qed (use Suc.prems in \<open>simp_all add: add.assoc\<close>)
  ultimately show ?case
    using Suc.prems(3) by (subst pid_search.simps) (simp add: add.assoc)
qed

text \<open>Any 128 consecutive pids visit every slot.\<close>

lemma slot_reached:
  assumes "i < 128"
  shows "\<exists>j < 128. pid_slot (np + int j) = i"
proof -
  let ?j = "nat ((int i - np) mod 128)"
  have "(np + int ?j) mod 128 = int i" using assms by (simp add: mod_simps)
  then show ?thesis by (intro exI [of _ ?j]) (simp add: pid_slot_def nat_less_iff)
qed

lemma pid_search_within:
  assumes "i < 128" and "tab ! i = None" and "np + 127 \<le> PID_MAX" and "count + 127 \<le> PROCS_MAX * 2 + 5"
  shows "\<exists>p. pid_search tab np count = Some p \<and> np \<le> p \<and> p \<le> PID_MAX \<and> tab ! pid_slot p = None"
proof -
  let ?P = "\<lambda>j. tab ! pid_slot (np + int j) = None"
  obtain j where j: "j < 128" "?P j" using slot_reached [OF assms(1), of np] assms(2) by auto
  let ?k = "LEAST j. ?P j"
  have k: "?P ?k" "?k \<le> j" using j(2) by (auto intro: LeastI Least_le)
  have "pid_search tab np count = Some (np + int ?k)"
    using k j(1) assms(3,4) not_less_Least [of _ ?P] by (intro pid_search_hit) auto
  with k j(1) assms(3) show ?thesis by auto
qed

lemma pid_search_total:
  assumes tab: "length tab = 128" "used_slots tab < 128" and np: "PID_MIN \<le> np" "np \<le> PID_MAX"
  shows "\<exists>p. pid_search tab np 0 = Some p \<and> PID_MIN \<le> p \<and> p \<le> PID_MAX \<and> tab ! pid_slot p = None"
proof -
  obtain i where i: "i < 128" "tab ! i = None" using used_slots_less tab by metis
  show ?thesis
  proof (cases "np + 127 \<le> PID_MAX")
    case True
    with pid_search_within [OF i True, of 0] np show ?thesis by auto
  next
    case False
    let ?P = "\<lambda>j. tab ! pid_slot (np + int j) = None" and ?K = "nat (PID_MAX - np)"
    show ?thesis
    proof (cases "\<exists>j \<le> ?K. ?P j")
      case True
      then obtain j where j: "j \<le> ?K" "?P j" by blast
      let ?k = "LEAST j. ?P j"
      have k: "?P ?k" "?k \<le> j" using j(2) by (auto intro: LeastI Least_le)
      have "pid_search tab np 0 = Some (np + int ?k)"
        using k j(1) np False not_less_Least [of _ ?P] by (intro pid_search_hit) auto
      with k j(1) np show ?thesis by auto
    next
      case none: False
      have "pid_search tab np 0 = pid_search tab PID_MIN (0 + int ?K + 1)"
        using none np False by (intro pid_search_wrap) auto
      with pid_search_within [OF i, of PID_MIN "int ?K + 1"] np False show ?thesis by auto
    qed
  qed
qed

text \<open>What the operations share: the lock is free between them.\<close>

lemma pi_acquire_free [simp]: "\<not> pi_held s \<Longrightarrow> pi_acquire s = Some (s\<lparr>pi_held := True\<rparr>)"
  by (simp add: pi_acquire_def)

lemma pi_release_held [simp]: "pi_held s \<Longrightarrow> pi_release s = Some (s\<lparr>pi_held := False\<rparr>)"
  by (simp add: pi_release_def)

lemma pidinfo_create_cases:
  assumes "pid \<noteq> INVALID_PID"
  shows "\<exists>m'. pidinfo_create pid ppid m = Some (None, m') \<or>
    pidinfo_create pid ppid m = Some (Some \<lparr>pi_pid = pid, pi_ppid = ppid, pi_exited = False,
      pi_exitstatus = 0xbeef, pi_joinable = True\<rparr>, m')"
  using assms by (auto simp: pidinfo_create_def kassert_def split: prod.splits)

lemma pid_wf_full: "pid_wf s \<Longrightarrow> nprocs s \<noteq> PROCS_MAX \<Longrightarrow> used_slots (pidtab s) < 128"
  using used_slots_bound [of "pidtab s"] by (auto simp: pid_wf_def dest: tab_wf_length)

lemma inc_nextpid_range: "PID_MIN \<le> np \<Longrightarrow> np \<le> PID_MAX \<Longrightarrow> PID_MIN \<le> inc_nextpid np \<and> inc_nextpid np \<le> PID_MAX"
  by (simp add: inc_nextpid_def)

lemma pid_alloc_cases:
  assumes wf: "pid_wf s" and cur: "pidmap s me \<noteq> None"
  shows "\<exists>r s'. pid_alloc me s = Some (r, s') \<and> pid_wf s' \<and>
    (case r of
       Inl e \<Rightarrow> e = EAGAIN \<and> nprocs s = PROCS_MAX \<and> s' = s \<or> e = ENOMEM \<and> pidtab s' = pidtab s
     | Inr pid \<Rightarrow> PID_MIN \<le> pid \<and> pid \<le> PID_MAX \<and> pidmap s pid = None \<and>
         pidmap s' = (pidmap s)(pid \<mapsto> \<lparr>pi_pid = pid, pi_ppid = me, pi_exited = False,
           pi_exitstatus = 0xbeef, pi_joinable = True\<rparr>))"
proof (cases "nprocs s = PROCS_MAX")
  case True
  from wf cur have "me \<noteq> INVALID_PID" by (auto simp: pid_wf_def dest: tabmap_wf(3))
  with True wf show ?thesis
    by (intro exI [of _ "Inl EAGAIN"] exI [of _ s]) (simp add: pid_alloc_def pid_wf_def kassert_def)
next
  case False
  from wf cur have me: "me \<noteq> INVALID_PID" by (auto simp: pid_wf_def dest: tabmap_wf(3))
  let ?tab = "pidtab s"
  have tab: "length ?tab = 128" "tab_wf ?tab" using wf by (simp_all add: pid_wf_def tab_wf_length)
  from pid_search_total [OF tab(1) pid_wf_full [OF wf False], of "nextpid s"] wf obtain p where
    p: "pid_search ?tab (nextpid s) 0 = Some p" "PID_MIN \<le> p" "p \<le> PID_MAX" "?tab ! pid_slot p = None"
    by (auto simp: pid_wf_def)
  let ?pi = "\<lparr>pi_pid = p, pi_ppid = me, pi_exited = False, pi_exitstatus = 0xbeef, pi_joinable = True\<rparr>"
  obtain m' where "pidinfo_create p me (pid_mem s) = Some (None, m') \<or>
      pidinfo_create p me (pid_mem s) = Some (Some ?pi, m')"
    using pidinfo_create_cases [of p me "pid_mem s"] p(2) by auto
  then show ?thesis
  proof
    assume "pidinfo_create p me (pid_mem s) = Some (None, m')"
    with wf me False p show ?thesis
      by (intro exI [of _ "Inl ENOMEM"] exI [of _ "s\<lparr>nextpid := p, pid_mem := m'\<rparr>"])
        (simp add: pid_alloc_def pid_wf_def kassert_def)
  next
    assume c: "pidinfo_create p me (pid_mem s) = Some (Some ?pi, m')"
    let ?s = "s\<lparr>pidtab := ?tab[pid_slot p := Some ?pi], nprocs := nprocs s + 1,
                nextpid := inc_nextpid p, pid_mem := m'\<rparr>"
    have call: "pid_alloc me s = Some (Inr p, ?s)"
      using wf me False p c by (simp add: pid_alloc_def pid_wf_def kassert_def pi_put_def)
    have "me \<noteq> p" using cur p(4) by (auto simp: tabmap_def)
    then have "pid_wf ?s"
      using wf me p inc_nextpid_range [OF p(2,3)] used_slots_update [of "pid_slot p" ?tab "Some ?pi"] tab
      by (auto simp: pid_wf_def pi_wf_def intro!: tab_wf_update)
    moreover have "pidmap s p = None" using p(4) by (simp add: tabmap_def)
    moreover have "pidmap ?s = (pidmap s)(p \<mapsto> ?pi)"
      using tabmap_store [OF tab(1), of ?pi p] p(4) by simp
    ultimately show ?thesis using call p(2,3) by auto
  qed
qed

section \<open>Exit\<close>

text \<open>The table is consistent, whether or not the lock is held.\<close>

definition pid_ok :: "pidsys \<Rightarrow> bool" where
  "pid_ok s \<longleftrightarrow> tab_wf (pidtab s) \<and> nprocs s = int (used_slots (pidtab s)) \<and>
     PID_MIN \<le> nextpid s \<and> nextpid s \<le> PID_MAX"

lemma pid_wf_ok: "pid_wf s \<longleftrightarrow> pid_ok s \<and> \<not> pi_held s"
  by (auto simp: pid_wf_def pid_ok_def)

lemma pid_ok_update:
  assumes "pid_ok s" and "i < 128" and "\<And>pi. x = Some pi \<Longrightarrow> pi_wf i pi"
  shows "pid_ok (s\<lparr>pidtab := (pidtab s)[i := x],
    nprocs := nprocs s + (if x = None then 0 else 1) - (if pidtab s ! i = None then 0 else 1)\<rparr>)"
  using assms used_slots_update [of i "pidtab s" x] tab_wf_length [of "pidtab s"]
  by (auto simp: pid_ok_def tab_wf_update split: if_splits)

lemma pid_wf_unheld: "pid_wf (s\<lparr>pi_held := False\<rparr>) = pid_ok s"
  by (simp add: pid_wf_def pid_ok_def)

lemma pid_ok_held [simp]: "pid_ok (s\<lparr>pi_held := b\<rparr>) = pid_ok s"
  by (simp add: pid_ok_def)

text \<open>What the exit of \<open>donepid\<close> does to one entry: a child that has exited goes, another child
  loses its parent and can no longer be joined.\<close>

definition orphan :: "int \<Rightarrow> pidinfo \<Rightarrow> pidinfo option" where
  "orphan donepid pi =
     (if pi_ppid pi = donepid
      then if pi_exited pi then None else Some (pi\<lparr>pi_ppid := INVALID_PID, pi_joinable := False\<rparr>)
      else Some pi)"

lemma pidinfo_update_swap:
  "pi\<lparr>pi_joinable := b, pi_ppid := x\<rparr> = pi\<lparr>pi_ppid := x, pi_joinable := b\<rparr>"
  by (cases pi) simp

lemma orphan_wf:
  "pi_wf i pi \<Longrightarrow> d \<noteq> INVALID_PID \<Longrightarrow> orphan d pi = Some pi' \<Longrightarrow> pi_wf i pi' \<and> pi_pid pi' = pi_pid pi"
  by (auto simp: orphan_def pi_wf_def split: if_splits)

lemma pidsys_no_change: "x = pidtab s ! i \<Longrightarrow> s\<lparr>pidtab := (pidtab s)[i := x], nprocs := nprocs s\<rparr> = s"
  by (cases s) simp

lemma detach_step:
  assumes ok: "pid_ok s" and d: "d \<noteq> INVALID_PID" and i: "i < 128" and x_def: "x = Option.bind (pidtab s ! i) (orphan d)"
  shows "\<exists>n. detach_children d (i # is) s = detach_children d is (s\<lparr>pidtab := (pidtab s)[i := x], nprocs := n\<rparr>) \<and>
    pid_ok (s\<lparr>pidtab := (pidtab s)[i := x], nprocs := n\<rparr>)"
proof (cases "pidtab s ! i")
  case None
  then have "s\<lparr>pidtab := (pidtab s)[i := x], nprocs := nprocs s\<rparr> = s"
    by (intro pidsys_no_change) (simp add: x_def)
  with ok None show ?thesis by (intro exI [of _ "nprocs s"]) simp
next
  case (Some pi)
  have wf: "pi_wf i pi" using tab_wf_nth [of "pidtab s" i pi] ok i Some by (simp add: pid_ok_def)
  let ?n = "nprocs s + (if x = None then 0 else 1) - 1"
  have "pid_ok (s\<lparr>pidtab := (pidtab s)[i := x], nprocs := ?n\<rparr>)"
    using pid_ok_update [OF ok i, of x] orphan_wf [OF wf d] Some by (auto simp: x_def)
  moreover have "detach_children d (i # is) s =
      detach_children d is (s\<lparr>pidtab := (pidtab s)[i := x], nprocs := ?n\<rparr>)"
  proof (cases "pi_ppid pi = d")
    case False
    then have "s\<lparr>pidtab := (pidtab s)[i := x], nprocs := ?n\<rparr> = s"
      using Some pidsys_no_change [of x s i] by (simp add: x_def orphan_def)
    with Some False show ?thesis by simp
  next
    case True
    have "pid_slot (pi_pid pi) = i" "length (pidtab s) = 128"
      using wf ok by (auto simp: pi_wf_def pid_ok_def tab_wf_length)
    with Some True i show ?thesis
      by (simp add: x_def orphan_def pi_drop_def pidinfo_destroy_def Let_def)
  qed
  ultimately show ?thesis by blast
qed

lemma detach_children_spec:
  assumes "pid_ok s" and "d \<noteq> INVALID_PID" and "distinct is" and "set is \<subseteq> {..<128}"
  shows "\<exists>s'. detach_children d is s = Some s' \<and> pid_ok s' \<and> pi_held s' = pi_held s \<and>
    pid_mem s' = pid_mem s \<and> nextpid s' = nextpid s \<and>
    (\<forall>i < 128. pidtab s' ! i = (if i \<in> set is then Option.bind (pidtab s ! i) (orphan d) else pidtab s ! i))"
  using assms
proof (induction "is" arbitrary: s)
  case Nil
  then show ?case by simp
next
  case (Cons i "is")
  let ?x = "Option.bind (pidtab s ! i) (orphan d)"
  have i: "i < 128" using Cons.prems by simp
  obtain n where n: "detach_children d (i # is) s =
      detach_children d is (s\<lparr>pidtab := (pidtab s)[i := ?x], nprocs := n\<rparr>)"
    "pid_ok (s\<lparr>pidtab := (pidtab s)[i := ?x], nprocs := n\<rparr>)"
    using detach_step [OF Cons.prems(1,2) i refl, of "is"] by blast
  have len: "length (pidtab s) = 128" using Cons.prems(1) by (simp add: pid_ok_def tab_wf_length)
  obtain s' where s': "detach_children d is (s\<lparr>pidtab := (pidtab s)[i := ?x], nprocs := n\<rparr>) = Some s'"
    "pid_ok s'" "pi_held s' = pi_held s" "pid_mem s' = pid_mem s" "nextpid s' = nextpid s"
    "\<forall>j < 128. pidtab s' ! j = (if j \<in> set is then Option.bind ((pidtab s)[i := ?x] ! j) (orphan d)
       else (pidtab s)[i := ?x] ! j)"
    using Cons.IH [OF n(2)] Cons.prems(2-4) by auto
  have "\<forall>j < 128. pidtab s' ! j =
      (if j \<in> set (i # is) then Option.bind (pidtab s ! j) (orphan d) else pidtab s ! j)"
    using s'(6) Cons.prems(3) len i by (auto simp: nth_list_update)
  with n(1) s' show ?case by (metis (no_types))
qed

lemma tabmap_orphan:
  assumes "tab_wf tab" and "d \<noteq> INVALID_PID" and "\<forall>i < 128. tab' ! i = Option.bind (tab ! i) (orphan d)"
  shows "tabmap tab' p = Option.bind (tabmap tab p) (orphan d)"
proof (cases "tab ! pid_slot p")
  case None
  with assms(3) show ?thesis by (simp add: tabmap_def)
next
  case (Some pi)
  have wf: "pi_wf (pid_slot p) pi" using tab_wf_nth [OF assms(1) pid_slot_bound Some] .
  with assms(3) Some orphan_wf [OF wf assms(2)] show ?thesis
    by (cases "orphan d pi") (auto simp: tabmap_def)
qed

lemma detach_all:
  assumes "pid_ok s" and "d \<noteq> INVALID_PID"
  shows "\<exists>s'. detach_children d [0..<nat PROCS_MAX] s = Some s' \<and> pid_ok s' \<and> pi_held s' = pi_held s \<and>
    (\<forall>p. pidmap s' p = Option.bind (pidmap s p) (orphan d))"
proof -
  have "set [0..<nat PROCS_MAX] \<subseteq> {..<128}" by auto
  from detach_children_spec [OF assms distinct_upt this] obtain s' where
    s': "detach_children d [0..<nat PROCS_MAX] s = Some s'" "pid_ok s'" "pi_held s' = pi_held s"
    and tab: "\<forall>i < 128. pidtab s' ! i = Option.bind (pidtab s ! i) (orphan d)"
    by auto
  from tabmap_orphan [OF _ assms(2) tab] assms have "\<forall>p. pidmap s' p = Option.bind (pidmap s p) (orphan d)"
    by (simp add: pid_ok_def)
  with s' show ?thesis by blast
qed

text \<open>Storing through a pointer into the table, and dropping the entry.\<close>

lemma pi_store_ok:
  assumes ok: "pid_ok s" and old: "pidmap s p = Some pi" and new: "pi_pid pi' = p" "pi_wf (pid_slot p) pi'"
  shows "pid_ok (pi_store s pi')" and "pidmap (pi_store s pi') = (pidmap s)(p \<mapsto> pi')"
proof -
  from tabmap_Some [OF old] have slot: "pidtab s ! pid_slot p = Some pi" "pi_pid pi = p" by auto
  with new pid_ok_update [OF ok pid_slot_bound, of "Some pi'" p] show "pid_ok (pi_store s pi')"
    by (simp add: pi_store_def)
  show "pidmap (pi_store s pi') = (pidmap s)(p \<mapsto> pi')"
    using tabmap_store [of "pidtab s" pi' p] new slot ok
    by (simp add: pi_store_def pid_ok_def tab_wf_length)
qed

text \<open>Marking an entry dead and parentless through its pointer and dropping it removes its pid.\<close>

lemma store_and_drop:
  assumes ok: "pid_ok s" and old: "pidmap s p = Some pi"
    and dead: "pi_pid pi' = p" "pi_exited pi'" "pi_ppid pi' = INVALID_PID"
  shows "\<exists>s'. pi_drop (pi_store s pi') p = Some s' \<and> pid_ok s' \<and> pi_held s' = pi_held s \<and>
    pidmap s' = (pidmap s)(p := None)"
proof -
  let ?s' = "s\<lparr>pidtab := (pidtab s)[pid_slot p := None], nprocs := nprocs s - 1\<rparr>"
  have len: "length (pidtab s) = 128" using ok by (simp add: pid_ok_def tab_wf_length)
  from tabmap_Some [OF old] have slot: "pidtab s ! pid_slot p = Some pi" by simp
  have "pi_drop (pi_store s pi') p = Some ?s'"
    using dead len by (simp add: pi_drop_def pi_store_def pidinfo_destroy_def)
  moreover have "pid_ok ?s'"
    using pid_ok_update [OF ok pid_slot_bound, of None p] slot by simp
  moreover have "pidmap ?s' = (pidmap s)(p := None)"
    using tabmap_clear [OF len old] by simp
  ultimately show ?thesis by simp
qed

lemma pid_setexited_spec:
  assumes wf: "pid_wf s" and d: "PID_MIN \<le> d" "d \<le> PID_MAX"
    and me: "pidmap s d = Some pi" "\<not> pi_exited pi"
  shows "\<exists>s'. pid_setexited d code s = Some (pi_joinable pi, s') \<and> pid_wf s' \<and>
    pidmap s' = (\<lambda>p. Option.bind (pidmap s p) (orphan d))(d :=
      if pi_joinable pi then Some (pi\<lparr>pi_exitstatus := code, pi_exited := True\<rparr>) else None)"
proof -
  from wf have ok: "pid_ok (s\<lparr>pi_held := True\<rparr>)" and free: "\<not> pi_held s" by (auto simp: pid_wf_ok)
  obtain s1 where s1: "detach_children d [0..<nat PROCS_MAX] (s\<lparr>pi_held := True\<rparr>) = Some s1" "pid_ok s1"
    "pi_held s1" and map1: "\<And>p. pidmap s1 p = Option.bind (pidmap s p) (orphan d)"
    using detach_all [OF ok, of d] d by auto
  have pwf: "pi_wf (pid_slot d) pi" "pi_pid pi = d"
    using tabmap_wf [OF _ me(1)] wf by (auto simp: pid_wf_def)
  then have self: "pidmap s1 d = Some pi"
    using map1 [of d] me(1) by (simp add: orphan_def pi_wf_def)
  let ?pi = "pi\<lparr>pi_exitstatus := code, pi_exited := True\<rparr>"
  show ?thesis
  proof (cases "pi_joinable pi")
    case True
    with pwf have "pi_wf (pid_slot d) ?pi" by (simp add: pi_wf_def)
    with pi_store_ok [OF s1(2) self, of ?pi] pwf have
      st: "pid_ok (pi_store s1 ?pi)" "pidmap (pi_store s1 ?pi) = (pidmap s1)(d \<mapsto> ?pi)" by auto
    have "pid_setexited d code s = Some (True, (pi_store s1 ?pi)\<lparr>pi_held := False\<rparr>)"
      using d free s1 self True me(2) pi_get_map [of d s1]
      by (simp add: pid_setexited_def pi_store_def Let_def)
    with st True map1 show ?thesis
      by (intro exI [of _ "(pi_store s1 ?pi)\<lparr>pi_held := False\<rparr>"]) (auto simp: pid_wf_ok fun_eq_iff)
  next
    case False
    with pwf d have "pi_pid ?pi = d" "pi_exited ?pi" "pi_ppid ?pi = INVALID_PID"
      by (auto simp: pi_wf_def)
    with store_and_drop [OF s1(2) self, of ?pi] obtain s2 where
      s2: "pi_drop (pi_store s1 ?pi) d = Some s2" "pid_ok s2" "pi_held s2"
      "pidmap s2 = (pidmap s1)(d := None)" using s1(3) by auto
    have "pid_setexited d code s = Some (False, s2\<lparr>pi_held := False\<rparr>)"
      using d free s1 self False me(2) pi_get_map [of d s1] s2
      by (simp add: pid_setexited_def Let_def)
    with s2 False map1 show ?thesis
      by (intro exI [of _ "s2\<lparr>pi_held := False\<rparr>"]) (auto simp: pid_wf_ok fun_eq_iff)
  qed
qed

section \<open>Detach, join, and undoing an allocation\<close>

lemma pid_unalloc_spec:
  assumes wf: "pid_wf s" and p: "PID_MIN \<le> p" "p \<le> PID_MAX"
    and child: "pidmap s p = Some pi" "\<not> pi_exited pi" "pi_ppid pi = me"
  shows "\<exists>s'. pid_unalloc me p s = Some s' \<and> pid_wf s' \<and> pidmap s' = (pidmap s)(p := None)"
proof -
  from wf have ok: "pid_ok (s\<lparr>pi_held := True\<rparr>)" and free: "\<not> pi_held s" by (auto simp: pid_wf_ok)
  let ?pi = "pi\<lparr>pi_exitstatus := 0xdead, pi_exited := True, pi_ppid := INVALID_PID\<rparr>"
  have "pi_pid ?pi = p" using tabmap_Some [OF child(1)] by simp
  with store_and_drop [OF ok, of p pi ?pi] child obtain s2 where
    "pi_drop (pi_store (s\<lparr>pi_held := True\<rparr>) ?pi) p = Some s2" "pid_ok s2" "pi_held s2"
    "pidmap s2 = (pidmap s)(p := None)" by auto
  with free p child pi_get_map [of p "s\<lparr>pi_held := True\<rparr>"] show ?thesis
    by (intro exI [of _ "s2\<lparr>pi_held := False\<rparr>"]) (simp add: pid_unalloc_def pid_wf_ok Let_def)
qed

lemma pid_detach_spec:
  assumes wf: "pid_wf s" and p: "PID_MIN \<le> p" "p \<le> PID_MAX" and me: "me \<noteq> INVALID_PID"
  shows "\<exists>r s'. pid_detach me p s = Some (r, s') \<and> pid_wf s' \<and>
    (case pidmap s p of
       None \<Rightarrow> r = Inl ESRCH \<and> s' = s
     | Some pi \<Rightarrow> if pi_ppid pi \<noteq> me then r = Inl EINVAL \<and> s' = s
                  else r = Inr () \<and> pidmap s' = (pidmap s)(p := orphan me pi))"
proof -
  from wf have ok: "pid_ok (s\<lparr>pi_held := True\<rparr>)" and free: "\<not> pi_held s" by (auto simp: pid_wf_ok)
  have unchanged: "s\<lparr>pi_held := False\<rparr> = s" using free by (cases s) simp
  have get: "pi_get (s\<lparr>pi_held := True\<rparr>) p = Some (pidmap s p)" using p pi_get_map [of p] by simp
  show ?thesis
  proof (cases "pidmap s p")
    case None
    with free p get wf unchanged show ?thesis by (simp add: pid_detach_def pid_wf_unheld pid_wf_ok)
  next
    case (Some pi)
    have pwf: "pi_wf (pid_slot p) pi" "pi_pid pi = p"
      using tabmap_wf [OF _ Some] wf by (auto simp: pid_wf_def)
    let ?pi = "pi\<lparr>pi_joinable := False, pi_ppid := INVALID_PID\<rparr>"
    show ?thesis
    proof (cases "pi_ppid pi = me")
      case False
      with free p get wf unchanged Some show ?thesis
        by (simp add: pid_detach_def pid_wf_unheld pid_wf_ok)
    next
      case True
      with pwf me have join: "pi_joinable pi" by (auto simp: pi_wf_def)
      show ?thesis
      proof (cases "pi_exited pi")
        case exited: True
        with store_and_drop [OF ok, of p pi ?pi] Some pwf obtain s2 where
          "pi_drop (pi_store (s\<lparr>pi_held := True\<rparr>) ?pi) p = Some s2" "pid_ok s2" "pi_held s2"
          "pidmap s2 = (pidmap s)(p := None)" by auto
        with free p get Some True join exited show ?thesis
          by (intro exI [of _ "Inr ()"] exI [of _ "s2\<lparr>pi_held := False\<rparr>"])
            (simp add: pid_detach_def pid_wf_ok orphan_def)
      next
        case alive: False
        have "pi_wf (pid_slot p) ?pi" using pwf alive p by (auto simp: pi_wf_def)
        with pi_store_ok [OF ok, of p pi ?pi] Some pwf have
          "pid_ok (pi_store (s\<lparr>pi_held := True\<rparr>) ?pi)"
          "pidmap (pi_store (s\<lparr>pi_held := True\<rparr>) ?pi) = (pidmap s)(p \<mapsto> ?pi)" by auto
        with free p get Some True join alive show ?thesis
          by (intro exI [of _ "Inr ()"] exI [of _ "(pi_store (s\<lparr>pi_held := True\<rparr>) ?pi)\<lparr>pi_held := False\<rparr>"])
            (simp add: pid_detach_def pid_wf_ok pid_ok_def orphan_def pi_store_def pidinfo_update_swap)
      qed
    qed
  qed
qed

lemma pid_join_finish_spec:
  assumes ok: "pid_ok s" and held: "pi_held s" and child: "pidmap s p = Some pi" "pi_exited pi"
  shows "\<exists>s'. pid_join_finish p s = Some (pi_exitstatus pi, s') \<and> pid_wf s' \<and>
    pidmap s' = (pidmap s)(p := None)"
proof -
  let ?pi = "pi\<lparr>pi_ppid := INVALID_PID\<rparr>"
  from tabmap_Some [OF child(1)] have slot: "pidtab s ! pid_slot p = Some pi" "pi_pid pi = p" by auto
  with store_and_drop [OF ok child(1), of ?pi] child obtain s2 where
    "pi_drop (pi_store s ?pi) p = Some s2" "pid_ok s2" "pi_held s2"
    "pidmap s2 = (pidmap s)(p := None)" using held by auto
  with slot child show ?thesis
    by (intro exI [of _ "s2\<lparr>pi_held := False\<rparr>"]) (simp add: pid_join_finish_def pid_wf_ok Let_def)
qed

lemma pid_join_start_spec:
  assumes wf: "pid_wf s" and p: "PID_MIN \<le> p" "p \<le> PID_MAX" and me: "me \<noteq> INVALID_PID"
  shows "\<exists>r s'. pid_join_start me p s = Some (r, s') \<and> pid_wf s' \<and>
    (case pidmap s p of
       None \<Rightarrow> r = Join_Error ESRCH \<and> s' = s
     | Some pi \<Rightarrow>
         if pi_ppid pi \<noteq> me then r = Join_Error EINVAL \<and> s' = s
         else if pi_exited pi then r = Join_Status (pi_exitstatus pi) \<and> pidmap s' = (pidmap s)(p := None)
         else r = Join_Sleep \<and> s' = s)"
proof -
  from wf have ok: "pid_ok (s\<lparr>pi_held := True\<rparr>)" and free: "\<not> pi_held s" by (auto simp: pid_wf_ok)
  have unchanged: "s\<lparr>pi_held := False\<rparr> = s" using free by (cases s) simp
  have get: "pi_get (s\<lparr>pi_held := True\<rparr>) p = Some (pidmap s p)" using p pi_get_map [of p] by simp
  show ?thesis
  proof (cases "pidmap s p")
    case None
    with free p get wf unchanged show ?thesis
      by (simp add: pid_join_start_def pid_wf_unheld pid_wf_ok)
  next
    case (Some pi)
    have pwf: "pi_wf (pid_slot p) pi" using tabmap_wf [OF _ Some] wf by (auto simp: pid_wf_def)
    show ?thesis
    proof (cases "pi_ppid pi = me \<and> pi_exited pi")
      case True
      then have "pi_joinable pi" using pwf by (auto simp: pi_wf_def)
      moreover obtain s' where "pid_join_finish p (s\<lparr>pi_held := True\<rparr>) = Some (pi_exitstatus pi, s')"
        "pid_wf s'" "pidmap s' = (pidmap s)(p := None)"
        using pid_join_finish_spec [OF ok, of p pi] Some True by auto
      ultimately show ?thesis using free p get Some True by (simp add: pid_join_start_def)
    next
      case False
      moreover have "pi_ppid pi = me \<Longrightarrow> pi_joinable pi" using pwf me by (auto simp: pi_wf_def)
      ultimately show ?thesis using free p get wf unchanged Some
        by (auto simp: pid_join_start_def pid_wf_unheld pid_wf_ok)
    qed
  qed
qed

section \<open>Interleavings\<close>

text \<open>
  \<open>w_wait who = Some (parent, woken)\<close>: \<open>parent\<close> sleeps in \<^verbatim>\<open>cv_wait(pi_who->pi_cv, pi_lock)\<close> for
  \<open>who\<close>, and \<open>woken\<close> says whether \<^verbatim>\<open>cv_signal\<close> has been called since. A thread runs an operation
  only while its process is alive and it does not sleep; since every operation runs under
  \<^verbatim>\<open>pi_lock\<close>, one operation is one step.
\<close>

record pidworld =
  w_sys :: pidsys
  w_wait :: "int \<Rightarrow> (int \<times> bool) option"

definition runnable :: "pidworld \<Rightarrow> int \<Rightarrow> bool" where
  "runnable w me \<longleftrightarrow> (\<exists>pi. pidmap (w_sys w) me = Some pi \<and> \<not> pi_exited pi) \<and>
     (\<forall>who b. w_wait w who \<noteq> Some (me, b))"

definition wake :: "int \<Rightarrow> bool \<Rightarrow> (int \<Rightarrow> (int \<times> bool) option) \<Rightarrow> int \<Rightarrow> (int \<times> bool) option" where
  "wake d signalled wt = (if signalled then wt(d := map_option (\<lambda>(p, _). (p, True)) (wt d)) else wt)"

inductive pid_step :: "pidworld \<Rightarrow> pidworld \<Rightarrow> bool" where
  step_alloc: "runnable w me \<Longrightarrow> pid_alloc me (w_sys w) = Some (r, s) \<Longrightarrow> pid_step w (w\<lparr>w_sys := s\<rparr>)"
| step_unalloc: "runnable w me \<Longrightarrow> PID_MIN \<le> p \<Longrightarrow> p \<le> PID_MAX \<Longrightarrow> runnable w p \<Longrightarrow>
    pidmap (w_sys w) p = Some pi \<Longrightarrow> pi_ppid pi = me \<Longrightarrow>
    pid_unalloc me p (w_sys w) = Some s \<Longrightarrow> pid_step w (w\<lparr>w_sys := s\<rparr>)"
| step_exit: "runnable w me \<Longrightarrow> PID_MIN \<le> me \<Longrightarrow> pid_setexited me code (w_sys w) = Some (sig, s) \<Longrightarrow>
    pid_step w (w\<lparr>w_sys := s, w_wait := wake me sig (w_wait w)\<rparr>)"
| step_detach: "runnable w me \<Longrightarrow> pid_detach me p (w_sys w) = Some (r, s) \<Longrightarrow> pid_step w (w\<lparr>w_sys := s\<rparr>)"
| step_join: "runnable w me \<Longrightarrow> pid_join_start me p (w_sys w) = Some (r, s) \<Longrightarrow> r \<noteq> Join_Sleep \<Longrightarrow>
    pid_step w (w\<lparr>w_sys := s\<rparr>)"
| step_sleep: "runnable w me \<Longrightarrow> pid_join_start me p (w_sys w) = Some (Join_Sleep, s) \<Longrightarrow>
    pid_step w (w\<lparr>w_sys := s, w_wait := (w_wait w)(p \<mapsto> (me, False))\<rparr>)"
| step_wakeup: "w_wait w p = Some (me, True) \<Longrightarrow> pid_join_wakeup p (w_sys w) = Some (st, s) \<Longrightarrow>
    pid_step w (w\<lparr>w_sys := s, w_wait := (w_wait w)(p := None)\<rparr>)"

inductive_cases pid_stepE: "pid_step w w'"

inductive pid_reachable :: "pidworld \<Rightarrow> bool" where
  boot: "pid_bootstrap m = Some s \<Longrightarrow> pid_reachable \<lparr>w_sys = s, w_wait = Map.empty\<rparr>"
| step: "pid_reachable w \<Longrightarrow> pid_step w w' \<Longrightarrow> pid_reachable w'"

text \<open>A sleeping parent is alive, its child is in the table as its joinable child, and the parent
  has been woken exactly when the child has exited.\<close>

definition wait_ok :: "pidworld \<Rightarrow> int \<Rightarrow> int \<Rightarrow> bool \<Rightarrow> bool" where
  "wait_ok w p me b \<longleftrightarrow>
     (\<exists>pi. pidmap (w_sys w) p = Some pi \<and> pi_ppid pi = me \<and> pi_exited pi = b) \<and>
     (\<exists>pi. pidmap (w_sys w) me = Some pi \<and> \<not> pi_exited pi) \<and> me \<noteq> INVALID_PID"

definition world_inv :: "pidworld \<Rightarrow> bool" where
  "world_inv w \<longleftrightarrow> pid_wf (w_sys w) \<and> (\<forall>p me b. w_wait w p = Some (me, b) \<longrightarrow> wait_ok w p me b)"

lemma runnable_pid: "pid_wf (w_sys w) \<Longrightarrow> runnable w me \<Longrightarrow> 1 \<le> me \<and> me \<le> PID_MAX"
  by (auto simp: runnable_def pid_wf_def dest: tabmap_wf(3,4))

lemma used_slots_replicate [simp]: "used_slots (replicate n None) = 0"
  by (simp add: used_slots_def)

lemma world_inv_boot: "pid_bootstrap m = Some s \<Longrightarrow> world_inv \<lparr>w_sys = s, w_wait = Map.empty\<rparr>"
proof -
  assume boot: "pid_bootstrap m = Some s"
  let ?pi = "\<lparr>pi_pid = 1, pi_ppid = 0, pi_exited = False, pi_exitstatus = 0xbeef, pi_joinable = True\<rparr>"
  from boot have s: "pidtab s = (replicate 128 None)[1 := Some ?pi]" "nprocs s = 1" "nextpid s = 2" "\<not> pi_held s"
    by (auto simp: pid_bootstrap_def pidinfo_create_def split: prod.splits if_splits elim!: bind_SomeE)
  have "tab_wf (replicate 128 None)" by (simp add: tab_wf_def)
  then have "tab_wf (pidtab s)"
    unfolding s by (rule tab_wf_update) (auto simp: pi_wf_def pid_slot_def)
  moreover have "used_slots (pidtab s) = 1"
    unfolding s using used_slots_update [of 1 "replicate 128 None" "Some ?pi"] by simp
  ultimately show ?thesis using s by (simp add: world_inv_def pid_wf_def)
qed

text \<open>What a step must keep: the children that are waited for, and the parents that wait.\<close>

lemma world_invI:
  assumes "pid_wf s" and "\<And>p me b. wt p = Some (me, b) \<Longrightarrow> wait_ok \<lparr>w_sys = s, w_wait = wt\<rparr> p me b"
  shows "world_inv (w\<lparr>w_sys := s, w_wait := wt\<rparr>)" and "wt = w_wait w \<Longrightarrow> world_inv (w\<lparr>w_sys := s\<rparr>)"
  using assms by (auto simp: world_inv_def wait_ok_def)

lemma wait_okD:
  assumes "world_inv w" and "w_wait w p = Some (me, b)"
  obtains pi pme where "pidmap (w_sys w) p = Some pi" "pi_ppid pi = me" "pi_exited pi = b"
    "pidmap (w_sys w) me = Some pme" "\<not> pi_exited pme" "me \<noteq> INVALID_PID"
proof -
  from assms have "wait_ok w p me b" by (simp add: world_inv_def)
  with that show thesis by (auto simp: wait_ok_def)
qed

lemma runnable_not_waiting: "runnable w me \<Longrightarrow> w_wait w p \<noteq> Some (me, b)"
  by (simp add: runnable_def)

lemma runnableE:
  assumes "world_inv w" and "runnable w me"
  obtains pi where "pidmap (w_sys w) me = Some pi" "\<not> pi_exited pi" "1 \<le> me" "me \<le> PID_MAX" "pid_wf (w_sys w)"
  using assms runnable_pid [of w me] by (auto simp: runnable_def world_inv_def)

lemma runnable_facts:
  assumes "world_inv w" and "runnable w me"
  shows "pid_wf (w_sys w)" and "me \<noteq> INVALID_PID" and "\<exists>pi. pidmap (w_sys w) me = Some pi \<and> \<not> pi_exited pi"
  using assms runnable_pid [of w me] by (auto simp: runnable_def world_inv_def)

lemma waiting: "world_inv w \<Longrightarrow> w_wait w p = Some (me, b) \<Longrightarrow> wait_ok w p me b"
  by (simp add: world_inv_def)

lemma inv_alloc:
  assumes inv: "world_inv w" and run: "runnable w me" and call: "pid_alloc me (w_sys w) = Some (r, s)"
  shows "world_inv (w\<lparr>w_sys := s\<rparr>)"
proof -
  from runnableE [OF inv run] obtain pi where "pidmap (w_sys w) me \<noteq> None" "pid_wf (w_sys w)" by blast
  with pid_alloc_cases [of "w_sys w" me] call have wf: "pid_wf s" and
    m: "pidmap s = pidmap (w_sys w) \<or> (\<exists>p pi. pidmap (w_sys w) p = None \<and> pidmap s = (pidmap (w_sys w))(p \<mapsto> pi))"
    by (auto split: sum.split_asm)
  show ?thesis
    by (rule world_invI(2) [OF wf _ refl]) (use m waiting [OF inv] in \<open>fastforce simp: wait_ok_def\<close>)
qed

lemma inv_unalloc:
  assumes inv: "world_inv w" and run: "runnable w me" "runnable w p" and p: "PID_MIN \<le> p" "p \<le> PID_MAX"
    and child: "pidmap (w_sys w) p = Some pi" "pi_ppid pi = me" and call: "pid_unalloc me p (w_sys w) = Some s"
  shows "world_inv (w\<lparr>w_sys := s\<rparr>)"
proof -
  have "\<not> pi_exited pi" using run(2) child(1) by (auto simp: runnable_def)
  with pid_unalloc_spec [of "w_sys w" p pi me] p child call inv have wf: "pid_wf s"
    and m: "pidmap s = (pidmap (w_sys w))(p := None)" by (auto simp: world_inv_def)
  show ?thesis
  proof (rule world_invI(2) [OF wf _ refl])
    fix q pa b assume wt: "w_wait w q = Some (pa, b)"
    with runnable_not_waiting run have "pa \<noteq> me" "pa \<noteq> p" by blast+
    with m child waiting [OF inv wt] show "wait_ok \<lparr>w_sys = s, w_wait = w_wait w\<rparr> q pa b"
      by (auto simp: wait_ok_def)
  qed
qed

lemma orphan_other: "pi_ppid pi \<noteq> d \<Longrightarrow> orphan d pi = Some pi"
  by (simp add: orphan_def)

lemma orphan_alive: "\<not> pi_exited pi \<Longrightarrow> \<exists>pi'. orphan d pi = Some pi' \<and> \<not> pi_exited pi'"
  by (simp add: orphan_def)

lemma inv_exit:
  assumes inv: "world_inv w" and run: "runnable w d" and d: "PID_MIN \<le> d"
    and call: "pid_setexited d code (w_sys w) = Some (sig, s)"
  shows "world_inv (w\<lparr>w_sys := s, w_wait := wake d sig (w_wait w)\<rparr>)"
proof -
  from runnableE [OF inv run] obtain pi where pi: "pidmap (w_sys w) d = Some pi" "\<not> pi_exited pi"
    and le: "d \<le> PID_MAX" and wfw: "pid_wf (w_sys w)" by blast
  from pid_setexited_spec [OF wfw d le pi, of code] call have wf: "pid_wf s" and sig: "sig = pi_joinable pi"
    and m: "pidmap s = (\<lambda>p. Option.bind (pidmap (w_sys w) p) (orphan d))(d :=
      if sig then Some (pi\<lparr>pi_exitstatus := code, pi_exited := True\<rparr>) else None)" by auto
  have join: "pi_ppid pi \<noteq> INVALID_PID \<Longrightarrow> sig"
    using sig tabmap_wf(1) [OF _ pi(1)] wfw by (auto simp: pi_wf_def pid_wf_def)
  show ?thesis
  proof (rule world_invI(1) [OF wf])
    fix p me b assume wt: "wake d sig (w_wait w) p = Some (me, b)"
    then obtain b' where b': "w_wait w p = Some (me, b')" "b = (if p = d \<and> sig then True else b')"
      by (auto simp: wake_def split: if_splits)
    then have "me \<noteq> d" using runnable_not_waiting [OF run] by blast
    with wait_okD [OF inv b'(1)] obtain pi' pme where *: "pidmap (w_sys w) p = Some pi'" "pi_ppid pi' = me"
      "pi_exited pi' = b'" "pidmap (w_sys w) me = Some pme" "\<not> pi_exited pme" "me \<noteq> INVALID_PID" by blast
    moreover have "\<exists>pm. pidmap s me = Some pm \<and> \<not> pi_exited pm"
      using m * \<open>me \<noteq> d\<close> orphan_alive [of pme d] by simp
    moreover have "\<exists>pi''. pidmap s p = Some pi'' \<and> pi_ppid pi'' = me \<and> pi_exited pi'' = b"
      using m * b' pi join \<open>me \<noteq> d\<close> by (cases "p = d") (simp_all add: orphan_other)
    ultimately show "wait_ok \<lparr>w_sys = s, w_wait = wake d sig (w_wait w)\<rparr> p me b"
      by (auto simp: wait_ok_def)
  qed
qed

lemma inv_detach:
  assumes inv: "world_inv w" and run: "runnable w me" and call: "pid_detach me p (w_sys w) = Some (r, s)"
  shows "world_inv (w\<lparr>w_sys := s\<rparr>)"
proof (cases "PID_MIN \<le> p \<and> p \<le> PID_MAX")
  case False
  with call have "s = w_sys w" by (auto simp: pid_detach_def)
  with inv show ?thesis by simp
next
  case True
  note wfw = runnable_facts(1) [OF inv run] and me = runnable_facts(2) [OF inv run]
  with pid_detach_spec [OF wfw, of p me] True call have wf: "pid_wf s" and m: "s = w_sys w \<or>
      (\<exists>pi. pidmap (w_sys w) p = Some pi \<and> pi_ppid pi = me \<and> pidmap s = (pidmap (w_sys w))(p := orphan me pi))"
    by (auto split: option.split_asm if_splits)
  show ?thesis
  proof (rule world_invI(2) [OF wf _ refl])
    fix q pa b assume wt: "w_wait w q = Some (pa, b)"
    with runnable_not_waiting [OF run] have "pa \<noteq> me" by blast
    with m waiting [OF inv wt] orphan_alive show "wait_ok \<lparr>w_sys = s, w_wait = w_wait w\<rparr> q pa b"
      by (fastforce simp: wait_ok_def)
  qed
qed

lemma pid_join_start_cases:
  assumes inv: "world_inv w" and run: "runnable w me" and call: "pid_join_start me p (w_sys w) = Some (r, s)"
  shows "pid_wf s"
    and "s = w_sys w \<or> (\<exists>pi. pidmap (w_sys w) p = Some pi \<and> pi_ppid pi = me \<and> pi_exited pi \<and>
           pidmap s = (pidmap (w_sys w))(p := None))"
    and "r = Join_Sleep \<Longrightarrow> s = w_sys w \<and> (\<exists>pi. pidmap (w_sys w) p = Some pi \<and> pi_ppid pi = me \<and> \<not> pi_exited pi)"
proof -
  note wfw = runnable_facts(1) [OF inv run] and me = runnable_facts(2) [OF inv run]
  have *: "pid_wf s \<and> (s = w_sys w \<or> (\<exists>pi. pidmap (w_sys w) p = Some pi \<and> pi_ppid pi = me \<and> pi_exited pi \<and>
           pidmap s = (pidmap (w_sys w))(p := None))) \<and>
      (r = Join_Sleep \<longrightarrow> s = w_sys w \<and> (\<exists>pi. pidmap (w_sys w) p = Some pi \<and> pi_ppid pi = me \<and> \<not> pi_exited pi))"
  proof (cases "PID_MIN \<le> p \<and> p \<le> PID_MAX")
    case False
    with call wfw show ?thesis by (auto simp: pid_join_start_def)
  next
    case True
    with pid_join_start_spec [OF wfw, of p me] me call show ?thesis
      by (auto split: option.split_asm if_splits)
  qed
  show "pid_wf s" using * by blast
  show "s = w_sys w \<or> (\<exists>pi. pidmap (w_sys w) p = Some pi \<and> pi_ppid pi = me \<and> pi_exited pi \<and>
           pidmap s = (pidmap (w_sys w))(p := None))" using * by blast
  show "r = Join_Sleep \<Longrightarrow> s = w_sys w \<and> (\<exists>pi. pidmap (w_sys w) p = Some pi \<and> pi_ppid pi = me \<and> \<not> pi_exited pi)"
    using * by blast
qed

lemma inv_join:
  assumes inv: "world_inv w" and run: "runnable w me" and call: "pid_join_start me p (w_sys w) = Some (r, s)"
  shows "world_inv (w\<lparr>w_sys := s\<rparr>)"
proof (rule world_invI(2) [OF pid_join_start_cases(1) [OF assms] _ refl])
  fix q pa b assume wt: "w_wait w q = Some (pa, b)"
  with runnable_not_waiting [OF run] have "pa \<noteq> me" by blast
  with pid_join_start_cases(2) [OF assms] waiting [OF inv wt]
  show "wait_ok \<lparr>w_sys = s, w_wait = w_wait w\<rparr> q pa b" by (auto simp: wait_ok_def)
qed

lemma inv_sleep:
  assumes inv: "world_inv w" and run: "runnable w me"
    and call: "pid_join_start me p (w_sys w) = Some (Join_Sleep, s)"
  shows "world_inv (w\<lparr>w_sys := s, w_wait := (w_wait w)(p \<mapsto> (me, False))\<rparr>)"
proof (rule world_invI(1) [OF pid_join_start_cases(1) [OF assms]])
  fix q pa b assume wt: "((w_wait w)(p \<mapsto> (me, False))) q = Some (pa, b)"
  show "wait_ok \<lparr>w_sys = s, w_wait = (w_wait w)(p \<mapsto> (me, False))\<rparr> q pa b"
    using wt waiting [OF inv, of q pa b] pid_join_start_cases(3) [OF assms refl] runnable_facts [OF inv run]
    by (auto simp: wait_ok_def split: if_splits)
qed

lemma pid_join_wakeup_inv:
  assumes inv: "world_inv w" and wt: "w_wait w p = Some (me, True)"
  obtains pi s where "pidmap (w_sys w) p = Some pi" "pi_ppid pi = me" "pi_exited pi"
    "pid_join_wakeup p (w_sys w) = Some (pi_exitstatus pi, s)" "pid_wf s"
    "pidmap s = (pidmap (w_sys w))(p := None)"
proof -
  from waiting [OF inv wt] obtain pi where pi: "pidmap (w_sys w) p = Some pi" "pi_ppid pi = me" "pi_exited pi"
    by (auto simp: wait_ok_def)
  have free: "\<not> pi_held (w_sys w)" and ok: "pid_ok ((w_sys w)\<lparr>pi_held := True\<rparr>)"
    using inv by (auto simp: world_inv_def pid_wf_ok)
  from pid_join_finish_spec [OF ok, of p pi] pi free obtain s where
    "pid_join_wakeup p (w_sys w) = Some (pi_exitstatus pi, s)" "pid_wf s"
    "pidmap s = (pidmap (w_sys w))(p := None)" by (auto simp: pid_join_wakeup_def)
  with that pi show thesis by blast
qed

lemma inv_wakeup:
  assumes inv: "world_inv w" and wt: "w_wait w p = Some (me, True)"
    and call: "pid_join_wakeup p (w_sys w) = Some (st, s)"
  shows "world_inv (w\<lparr>w_sys := s, w_wait := (w_wait w)(p := None)\<rparr>)"
proof -
  from pid_join_wakeup_inv [OF inv wt] call obtain pi where pi: "pidmap (w_sys w) p = Some pi" "pi_exited pi"
    and wf: "pid_wf s" and m: "pidmap s = (pidmap (w_sys w))(p := None)" by auto
  show ?thesis
  proof (rule world_invI(1) [OF wf])
    fix q pa b assume "((w_wait w)(p := None)) q = Some (pa, b)"
    then show "wait_ok \<lparr>w_sys = s, w_wait = (w_wait w)(p := None)\<rparr> q pa b"
      using waiting [OF inv, of q pa b] pi m by (auto simp: wait_ok_def split: if_splits)
  qed
qed

lemma world_inv_step: "pid_step w w' \<Longrightarrow> world_inv w \<Longrightarrow> world_inv w'"
  by (induction rule: pid_step.induct)
    (auto intro: inv_alloc inv_unalloc inv_exit inv_detach inv_join inv_sleep inv_wakeup)

lemma world_inv_reachable: "pid_reachable w \<Longrightarrow> world_inv w"
  by (induction rule: pid_reachable.induct) (auto intro: world_inv_boot world_inv_step)

section \<open>Properties\<close>

text \<open>C37: \<^verbatim>\<open>pid_alloc\<close>, called by a process in the table, always returns: the assertion in its search
  loop cannot fail. It returns \<^verbatim>\<open>EAGAIN\<close> when 128 processes exist, \<^verbatim>\<open>ENOMEM\<close> when memory runs out,
  and otherwise a pid in range that no process has, entered in the table as a joinable child of the
  caller; no other entry changes.\<close>

theorem pid_alloc_correct:
  assumes "pid_wf s" and "pidmap s me \<noteq> None"
  shows "\<exists>r s'. pid_alloc me s = Some (r, s') \<and> pid_wf s' \<and>
    (case r of
       Inl e \<Rightarrow> e = EAGAIN \<and> nprocs s = PROCS_MAX \<and> s' = s \<or> e = ENOMEM \<and> pidtab s' = pidtab s
     | Inr pid \<Rightarrow> PID_MIN \<le> pid \<and> pid \<le> PID_MAX \<and> pidmap s pid = None \<and>
         pidmap s' = (pidmap s)(pid \<mapsto> \<lparr>pi_pid = pid, pi_ppid = me, pi_exited = False,
           pi_exitstatus = 0xbeef, pi_joinable = True\<rparr>))"
  using assms by (rule pid_alloc_cases)

lemma boot_alive: "pid_bootstrap m = Some s \<Longrightarrow> \<exists>pi. pidmap s 1 = Some pi \<and> \<not> pi_exited pi"
  by (auto simp: pid_bootstrap_def pidinfo_create_def tabmap_def pid_slot_def
      split: prod.splits if_splits elim!: bind_SomeE)

lemma boot_world: "\<exists>s. pid_bootstrap [] = Some s \<and> pid_wf s \<and> pidmap s 1 \<noteq> None"
proof -
  have "pid_bootstrap [] \<noteq> None" by code_simp
  then obtain s where s: "pid_bootstrap [] = Some s" by blast
  with s world_inv_boot [OF s] boot_alive [OF s] show ?thesis by (auto simp: world_inv_def)
qed

theorem pid_alloc_correct_witness:
  "\<exists>s r s'. pid_bootstrap [] = Some s \<and> pid_alloc 1 s = Some (r, s') \<and> pid_wf s' \<and>
    (r = Inl EAGAIN \<or> r = Inl ENOMEM \<or> (\<exists>pid. r = Inr pid \<and> pidmap s pid = None \<and> pidmap s' pid \<noteq> None))"
proof -
  obtain s where s: "pid_bootstrap [] = Some s" "pid_wf s" "pidmap s 1 \<noteq> None" using boot_world by blast
  with pid_alloc_correct [OF s(2,3)] show ?thesis by (fastforce split: sum.split_asm)
qed

text \<open>when process \<open>d\<close> exits, its children that have exited leave the table, its other children
  become detached, and its own entry records the exit code and stays for its parent, who is
  signalled, or goes if nobody can join it. The table stays consistent and the call returns.\<close>

theorem pid_setexited_correct:
  assumes "pid_wf s" and "PID_MIN \<le> d" and "d \<le> PID_MAX" and "pidmap s d = Some pi" and "\<not> pi_exited pi"
  shows "\<exists>s'. pid_setexited d code s = Some (pi_joinable pi, s') \<and> pid_wf s' \<and>
    pidmap s' d = (if pi_joinable pi then Some (pi\<lparr>pi_exitstatus := code, pi_exited := True\<rparr>) else None) \<and>
    (\<forall>p. p \<noteq> d \<longrightarrow> pidmap s' p =
       (case pidmap s p of None \<Rightarrow> None
        | Some c \<Rightarrow> if pi_ppid c \<noteq> d then Some c
                    else if pi_exited c then None
                    else Some (c\<lparr>pi_ppid := INVALID_PID, pi_joinable := False\<rparr>)))"
  using pid_setexited_spec [OF assms, of code] by (auto simp: orphan_def split: option.split)

lemma second_world: "\<exists>s. pid_wf s \<and> pidmap s 2 = Some \<lparr>pi_pid = 2, pi_ppid = 1, pi_exited = False,
    pi_exitstatus = 0xbeef, pi_joinable = True\<rparr>"
proof -
  obtain s where s: "pid_bootstrap [] = Some s" "pid_wf s" "pidmap s 1 \<noteq> None" using boot_world by blast
  have "map_option fst (Option.bind (pid_bootstrap []) (pid_alloc 1)) = Some (Inr 2)" by code_simp
  with s(1) obtain s' where "pid_alloc 1 s = Some (Inr 2, s')" by auto
  with pid_alloc_cases [OF s(2,3)] show ?thesis by auto
qed

theorem pid_setexited_correct_witness:
  "\<exists>s s'. pid_setexited 2 7 s = Some (True, s') \<and> pid_wf s' \<and> map_option pi_exitstatus (pidmap s' 2) = Some 7"
proof -
  obtain s where "pid_wf s" "pidmap s 2 = Some \<lparr>pi_pid = 2, pi_ppid = 1, pi_exited = False,
    pi_exitstatus = 0xbeef, pi_joinable = True\<rparr>" using second_world by blast
  with pid_setexited_correct [of s 2 _ 7] obtain s' where "pid_setexited 2 7 s = Some (True, s')" "pid_wf s'"
    "pidmap s' 2 = Some \<lparr>pi_pid = 2, pi_ppid = 1, pi_exited = True, pi_exitstatus = 7, pi_joinable = True\<rparr>"
    by auto
  then show ?thesis by (intro exI [of _ s] exI [of _ s']) simp
qed

text \<open>\<^verbatim>\<open>pid_join\<close> up to its possible sleep. A pid that is not in the table gives \<^verbatim>\<open>ESRCH\<close>, a process
  that is not the caller's child gives \<^verbatim>\<open>EINVAL\<close>, both leaving the table alone; a child that has
  exited is removed and its exit status returned; for a live child the caller sleeps.\<close>

theorem pid_join_correct:
  assumes "pid_wf s" and "PID_MIN \<le> p" and "p \<le> PID_MAX" and "me \<noteq> INVALID_PID"
  shows "\<exists>r s'. pid_join_start me p s = Some (r, s') \<and> pid_wf s' \<and>
    (case pidmap s p of
       None \<Rightarrow> r = Join_Error ESRCH \<and> s' = s
     | Some pi \<Rightarrow>
         if pi_ppid pi \<noteq> me then r = Join_Error EINVAL \<and> s' = s
         else if pi_exited pi then r = Join_Status (pi_exitstatus pi) \<and> pidmap s' = (pidmap s)(p := None)
         else r = Join_Sleep \<and> s' = s)"
  using assms by (rule pid_join_start_spec)

theorem pid_join_correct_witness:
  "\<exists>s s'. pid_join_start 1 2 s = Some (Join_Sleep, s') \<and> pid_wf s'"
proof -
  obtain s where "pid_wf s" "pidmap s 2 = Some \<lparr>pi_pid = 2, pi_ppid = 1, pi_exited = False,
    pi_exitstatus = 0xbeef, pi_joinable = True\<rparr>" using second_world by blast
  with pid_join_correct [of s 2 1] show ?thesis by fastforce
qed

text \<open>C38: in every interleaving of allocations, exits, detaches and joins, a parent that has been woken
  in \<^verbatim>\<open>pid_join\<close> finds its child's entry still in the table and exited, collects the status the child
  left and frees the pid: \<^verbatim>\<open>assert(pi_who->pi_exited == TRUE)\<close> cannot fail, although the wait is not
  in a loop.\<close>

theorem pid_join_wakeup_safe:
  assumes "pid_reachable w" and "w_wait w p = Some (me, True)"
  shows "\<exists>pi s. pidmap (w_sys w) p = Some pi \<and> pi_ppid pi = me \<and> pi_exited pi \<and>
    pid_join_wakeup p (w_sys w) = Some (pi_exitstatus pi, s) \<and> pid_wf s \<and>
    pidmap s = (pidmap (w_sys w))(p := None)"
  using pid_join_wakeup_inv [OF world_inv_reachable [OF assms(1)] assms(2)] by metis

text \<open>C39: no wakeup is lost: in every reachable state, a parent sleeping in \<^verbatim>\<open>pid_join\<close> is alive, its
  child is still in the table as its child, and the parent has been signalled if and only if the
  child has exited.\<close>

theorem pid_join_no_lost_wakeup:
  assumes "pid_reachable w" and "w_wait w p = Some (me, woken)"
  shows "\<exists>pi pme. pidmap (w_sys w) p = Some pi \<and> pi_ppid pi = me \<and> (woken \<longleftrightarrow> pi_exited pi) \<and>
    pidmap (w_sys w) me = Some pme \<and> \<not> pi_exited pme"
  using waiting [OF world_inv_reachable [OF assms(1)] assms(2)] by (auto simp: wait_ok_def)

text \<open>A run that reaches such a state: the first process makes a child, waits for it, and the child
  exits with status 7.\<close>

lemma waiting_world:
  "\<exists>w. pid_reachable w \<and> w_wait w 2 = Some (1, True)"
proof -
  let ?run1 = "do { s \<leftarrow> pid_bootstrap []; (r, s1) \<leftarrow> pid_alloc 1 s; (j, s2) \<leftarrow> pid_join_start 1 2 s1;
      (sig, s3) \<leftarrow> pid_setexited 2 7 s2; Some (r, j, sig) }"
  have run: "?run1 = Some (Inr 2, Join_Sleep, True)" by code_simp
  obtain s where s: "pid_bootstrap [] = Some s" "pid_wf s" "pidmap s 1 \<noteq> None" using boot_world by blast
  with run obtain s1 s2 s3 where s1: "pid_alloc 1 s = Some (Inr 2, s1)"
    and s2: "pid_join_start 1 2 s1 = Some (Join_Sleep, s2)" and s3: "pid_setexited 2 7 s2 = Some (True, s3)"
    by (auto elim!: bind_SomeE split: prod.split_asm)
  let ?w0 = "\<lparr>w_sys = s, w_wait = Map.empty\<rparr>" and ?w1 = "\<lparr>w_sys = s1, w_wait = Map.empty\<rparr>"
    and ?w2 = "\<lparr>w_sys = s2, w_wait = [2 \<mapsto> (1, False)]\<rparr>"
  have w0: "pid_reachable ?w0" using s(1) by (rule pid_reachable.boot)
  have r0: "runnable ?w0 1" using boot_alive [OF s(1)] by (auto simp: runnable_def)
  have w1: "pid_reachable ?w1" using pid_reachable.step [OF w0 step_alloc [OF r0]] s1 by simp
  have m1: "pidmap s1 = (pidmap s)(2 \<mapsto> \<lparr>pi_pid = 2, pi_ppid = 1, pi_exited = False,
    pi_exitstatus = 0xbeef, pi_joinable = True\<rparr>)" using pid_alloc_cases [OF s(2,3)] s1 by auto
  have r1: "runnable ?w1 1" using r0 m1 by (auto simp: runnable_def)
  have w2: "pid_reachable ?w2" using pid_reachable.step [OF w1 step_sleep [OF r1]] s2 by simp
  have "s2 = s1" using pid_join_start_cases(3) [OF world_inv_reachable [OF w1] r1] s2 by auto
  with m1 have r2: "runnable ?w2 2" by (auto simp: runnable_def)
  have "pid_reachable \<lparr>w_sys = s3, w_wait = wake 2 True [2 \<mapsto> (1, False)]\<rparr>"
    using pid_reachable.step [OF w2 step_exit [OF r2]] s3 by simp
  then show ?thesis by (intro exI conjI, assumption) (simp add: wake_def)
qed

theorem pid_join_wakeup_safe_witness:
  "\<exists>(w :: pidworld) st s. w_wait w 2 = Some (1, True) \<and> pid_join_wakeup 2 (w_sys w) = Some (st, s) \<and> pidmap s 2 = None"
proof -
  obtain w where "pid_reachable w" "w_wait w 2 = Some (1, True)" using waiting_world by blast
  moreover from pid_join_wakeup_safe [OF this] obtain pi :: pidinfo and s :: pidsys where
    "pid_join_wakeup 2 (w_sys w) = Some (pi_exitstatus pi, s)" "pidmap s = (pidmap (w_sys w))(2 := None)" by blast
  ultimately show ?thesis by (intro exI [of _ w] exI [of _ "pi_exitstatus pi"] exI [of _ s]) simp
qed

theorem pid_join_no_lost_wakeup_witness:
  "\<exists>(w :: pidworld) pi. w_wait w 2 = Some (1, True) \<and> pidmap (w_sys w) 2 = Some pi \<and> pi_exited pi"
proof -
  obtain w where "pid_reachable w" "w_wait w 2 = Some (1, True)" using waiting_world by blast
  with pid_join_no_lost_wakeup [OF this] show ?thesis by blast
qed

end
