(* ===== verification/K_Bytes.thy ===== *)
theory K_Bytes
  imports K_Prelude
begin

text \<open>
  Bytes in memory: the big-endian integers of the on-disk structures, C strings, copying into the
  middle of a buffer, and the \<^verbatim>\<open>off_t\<close> arithmetic (32 bits, signed).
\<close>

type_synonym byte = "8 word"

section \<open>Copying into a buffer\<close>

text \<open>\<open>blit dst i src\<close>: \<^verbatim>\<open>memcpy(dst + i, src, n)\<close> for a source of \<open>n\<close> bytes.\<close>

definition blit :: "'a list \<Rightarrow> nat \<Rightarrow> 'a list \<Rightarrow> 'a list" where
  "blit dst i src = take i dst @ src @ drop (i + length src) dst"

lemma length_blit [simp]: "i + length src \<le> length dst \<Longrightarrow> length (blit dst i src) = length dst"
  by (simp add: blit_def)

lemma nth_blit:
  assumes "i + length src \<le> length dst" and "j < length dst"
  shows "blit dst i src ! j = (if i \<le> j \<and> j < i + length src then src ! (j - i) else dst ! j)"
  using assms by (auto simp: blit_def nth_append min_def not_less)

lemma blit_Nil [simp]: "blit dst i [] = dst"
  by (simp add: blit_def)

lemma blit_all: "length src = length dst \<Longrightarrow> blit dst 0 src = src"
  by (simp add: blit_def)

lemma blit_append:
  assumes "i + length xs + length ys \<le> length dst"
  shows "blit (blit dst i xs) (i + length xs) ys = blit dst i (xs @ ys)"
  using assms by (intro nth_equalityI) (auto simp: nth_blit nth_append)

text \<open>The \<open>n\<close> bytes at position \<open>i\<close>.\<close>

definition slice :: "'a list \<Rightarrow> nat \<Rightarrow> nat \<Rightarrow> 'a list" where
  "slice xs i n = take n (drop i xs)"

lemma length_slice [simp]: "i + n \<le> length xs \<Longrightarrow> length (slice xs i n) = n"
  by (simp add: slice_def)

lemma nth_slice: "i + n \<le> length xs \<Longrightarrow> j < n \<Longrightarrow> slice xs i n ! j = xs ! (i + j)"
  by (simp add: slice_def)

lemma slice_all [simp]: "slice xs 0 (length xs) = xs"
  by (simp add: slice_def)

lemma slice_blit: "i + length src \<le> length dst \<Longrightarrow> slice (blit dst i src) i (length src) = src"
  by (simp add: slice_def blit_def)

section \<open>Big-endian integers\<close>

definition put16 :: "nat \<Rightarrow> byte list" where
  "put16 n = [of_nat (n div 256), of_nat n]"

definition put32 :: "nat \<Rightarrow> byte list" where
  "put32 n = [of_nat (n div 16777216), of_nat (n div 65536), of_nat (n div 256), of_nat n]"

fun be :: "byte list \<Rightarrow> nat" where
  "be [] = 0"
| "be (b # bs) = unat b * 256 ^ length bs + be bs"

lemma length_put [simp]: "length (put16 n) = 2" "length (put32 n) = 4"
  by (simp_all add: put16_def put32_def)

lemma unat_byte: "unat (of_nat n :: byte) = n mod 256"
  by (simp add: unat_of_nat)

lemma be_put16 [simp]: "n < 2 ^ 16 \<Longrightarrow> be (put16 n) = n"
  by (simp add: put16_def unat_byte)

lemma be_put32 [simp]: "n < 2 ^ 32 \<Longrightarrow> be (put32 n) = n"
proof -
  assume n: "n < 2 ^ 32"
  have 1: "n = n div 256 * 256 + n mod 256"
    and 2: "n div 256 = n div 65536 * 256 + n div 256 mod 256"
    and 3: "n div 65536 = n div 16777216 * 256 + n div 65536 mod 256"
    using div_mult_mod_eq [of "n div 256" 256] div_mult_mod_eq [of "n div 65536" 256]
    by (simp_all add: div_mult2_eq [symmetric])
  have 4: "n div 16777216 mod 256 = n div 16777216" using n by simp
  have "be (put32 n) = n div 16777216 mod 256 * 16777216 + n div 65536 mod 256 * 65536 +
      n div 256 mod 256 * 256 + n mod 256" by (simp add: put32_def unat_byte)
  also have "\<dots> = n" using 1 2 3 4 by linarith
  finally show ?thesis .
qed

lemma be_bound: "be bs < 256 ^ length bs"
proof (induction bs)
  case (Cons b bs)
  have "unat b < 256" using unsigned_less [of b] by simp
  then have "unat b * 256 ^ length bs + 256 ^ length bs \<le> 256 * 256 ^ length bs"
    by (metis add.commute less_eq_Suc_le mult_Suc mult_le_mono1)
  moreover have "unat b * 256 ^ length bs + be bs < unat b * 256 ^ length bs + 256 ^ length bs"
    using Cons by simp
  ultimately show ?case by (simp only: be.simps length_Cons power_Suc)
qed simp

lemma of_nat_byteI: "n mod 256 = unat b \<Longrightarrow> of_nat n = (b :: byte)"
  by (simp add: word_unat_eq_iff unat_byte)

text \<open>Four bytes are the encoding of the number they stand for.\<close>

lemma put32_be:
  assumes "length bs = 4"
  shows "put32 (be bs) = bs"
proof -
  obtain a b c d where bs: "bs = [a, b, c, d]"
    using assms by (auto simp: numeral_eq_Suc length_Suc_conv)
  have a: "unat a < 256" and b: "unat b < 256" and c: "unat c < 256" and d: "unat d < 256"
    using unsigned_less [of a] unsigned_less [of b] unsigned_less [of c] unsigned_less [of d] by simp_all
  let ?n = "((unat a * 256 + unat b) * 256 + unat c) * 256 + unat d"
  have n: "be bs = ?n" by (simp add: bs)
  have step: "(x * 256 + y) div 256 = x" "(x * 256 + y) mod 256 = y" if "y < 256" for x y :: nat
    using that by simp_all
  have 1: "?n div 256 = (unat a * 256 + unat b) * 256 + unat c" by (rule step(1) [OF d])
  then have 2: "?n div 65536 = unat a * 256 + unat b"
    using step(1) [OF c, of "unat a * 256 + unat b"] by (simp add: div_mult2_eq [of _ 256 256, simplified])
  then have 3: "?n div 16777216 = unat a"
    using step(1) [OF b, of "unat a"] by (simp add: div_mult2_eq [of _ 65536 256, simplified])
  have "?n div 16777216 = unat a" "?n div 65536 mod 256 = unat b" "?n div 256 mod 256 = unat c" "?n mod 256 = unat d"
    unfolding 1 2 3 by (rule refl step(2) b c d)+
  then have "(of_nat (?n div 16777216) :: byte) = a" "(of_nat (?n div 65536) :: byte) = b"
    "(of_nat (?n div 256) :: byte) = c" "(of_nat ?n :: byte) = d"
    using a by (auto intro: of_nat_byteI simp del: of_nat_add of_nat_mult)
  then show ?thesis unfolding n by (simp only: put32_def bs)
qed

section \<open>An array of 32-bit integers\<close>

definition put32s :: "nat list \<Rightarrow> byte list" where
  "put32s ns = concat (map put32 ns)"

definition get32 :: "byte list \<Rightarrow> nat \<Rightarrow> nat" where
  "get32 bs i = be (slice bs (4 * i) 4)"

lemma length_put32s [simp]: "length (put32s ns) = 4 * length ns"
  by (induction ns) (simp_all add: put32s_def)

lemma get32_bound: "get32 bs i < 2 ^ 32"
proof -
  have "length (slice bs (4 * i) 4) \<le> 4" by (simp add: slice_def)
  then have "(256::nat) ^ length (slice bs (4 * i) 4) \<le> 256 ^ 4" by (intro power_increasing) simp_all
  with be_bound [of "slice bs (4 * i) 4"] show ?thesis by (simp add: get32_def)
qed

lemma slice_put32s: "i < length ns \<Longrightarrow> slice (put32s ns @ r) (4 * i) 4 = put32 (ns ! i)"
proof (induction ns arbitrary: i)
  case (Cons n ns)
  then show ?case
    by (cases i) (auto simp: put32s_def slice_def)
qed simp

lemma get32_put32s: "i < length ns \<Longrightarrow> ns ! i < 2 ^ 32 \<Longrightarrow> get32 (put32s ns @ r) i = ns ! i"
  by (simp add: get32_def slice_put32s)

lemma get32_blit:
  assumes "4 * i + 4 \<le> length bs" and "4 * j + 4 \<le> length bs" and "n < 2 ^ 32"
  shows "get32 (blit bs (4 * i) (put32 n)) j = (if j = i then n else get32 bs j)"
proof (cases "j = i")
  case True
  with assms show ?thesis by (simp add: get32_def slice_blit [of "4 * i" "put32 n", simplified])
next
  case False
  have "slice (blit bs (4 * i) (put32 n)) (4 * j) 4 = slice bs (4 * j) 4"
  proof (rule nth_equalityI)
    fix k assume "k < length (slice (blit bs (4 * i) (put32 n)) (4 * j) 4)"
    with assms have k: "k < 4" by simp
    have "4 * j + k < 4 * i \<or> 4 * i + 4 \<le> 4 * j + k" using k False by arith
    with assms k show "slice (blit bs (4 * i) (put32 n)) (4 * j) 4 ! k = slice bs (4 * j) 4 ! k"
      by (auto simp: nth_slice nth_blit)
  qed (use assms in simp)
  with False show ?thesis by (simp add: get32_def)
qed

section \<open>C strings\<close>

text \<open>The string in a \<^verbatim>\<open>char\<close> array: the bytes before the first zero byte. Names that the code passes
  around are lists of nonzero bytes.\<close>

definition cstr :: "byte list \<Rightarrow> byte list" where
  "cstr bs = takeWhile (\<lambda>b. b \<noteq> 0) bs"

definition is_cstr :: "byte list \<Rightarrow> bool" where
  "is_cstr bs \<longleftrightarrow> 0 \<notin> set bs"

lemma cstr_append: "is_cstr s \<Longrightarrow> cstr (s @ 0 # r) = s"
  by (auto simp: cstr_def is_cstr_def takeWhile_append)

lemma cstr_is_cstr [simp]: "is_cstr (cstr bs)"
  by (auto simp: cstr_def is_cstr_def dest: set_takeWhileD)

section \<open>Offsets\<close>

text \<open>The value that an \<^verbatim>\<open>off_t\<close> takes when a wider or unsigned value is assigned to it.\<close>

definition off32 :: "int \<Rightarrow> int" where
  "off32 x = (x + 2 ^ 31) mod 2 ^ 32 - 2 ^ 31"

text \<open>The value that a \<^verbatim>\<open>u_int32_t\<close> takes.\<close>

definition u32 :: "int \<Rightarrow> nat" where
  "u32 x = nat (x mod 2 ^ 32)"

text \<open>C division rounds towards zero.\<close>

definition cdiv :: "int \<Rightarrow> int \<Rightarrow> int" where
  "cdiv a b = (if 0 \<le> a then a div b else - ((- a) div b))"

definition cmod :: "int \<Rightarrow> int \<Rightarrow> int" where
  "cmod a b = a - cdiv a b * b"

lemma off32_id [simp]: "- (2 ^ 31) \<le> x \<Longrightarrow> x < 2 ^ 31 \<Longrightarrow> off32 x = x"
  by (simp add: off32_def)

lemma u32_of_nat [simp]: "n < 2 ^ 32 \<Longrightarrow> u32 (int n) = n"
  by (simp add: u32_def)

lemma u32_add [simp]: "m + n < 2 ^ 32 \<Longrightarrow> u32 (int m + int n) = m + n"
  using u32_of_nat [of "m + n"] by simp

lemma u32_0 [simp]: "u32 0 = 0"
  by (simp add: u32_def)

lemma u32_bound: "u32 x < 2 ^ 32"
  by (simp add: u32_def nat_less_iff)

lemma cdiv_nonneg [simp]: "0 \<le> a \<Longrightarrow> cdiv a b = a div b"
  by (simp add: cdiv_def)

lemma cmod_nonneg [simp]: "0 \<le> a \<Longrightarrow> cmod a b = a mod b"
  by (simp add: cmod_def minus_div_mult_eq_mod)

lemma u32_nonneg: "0 \<le> x \<Longrightarrow> x < 2 ^ 32 \<Longrightarrow> u32 x = nat x"
  by (simp add: u32_def)

end
