(* ===== verification/K_Uio.thy ===== *)
theory K_Uio
  imports K_Bytes
begin

text \<open>
  Moving data between kernel buffers and the region a \<^verbatim>\<open>struct uio\<close> describes,
  \<^verbatim>\<open>kern/userprog/uio.c\<close>.

  The memory region is \<open>uio_data\<close>, and \<open>uio_pos\<close> says how far the base pointer of the iovec has
  moved into it. For a user region \<^verbatim>\<open>copyin\<close> and \<^verbatim>\<open>copyout\<close> may fault: \<open>uio_faults\<close> gives the
  outcomes of the next calls, \<open>None\<close> for a copy that succeeds and \<open>Some k\<close> for one that faults after
  \<open>k\<close> bytes. \<open>uio_space_ok\<close> is the test that \<^verbatim>\<open>uiomove\<close> makes on \<^verbatim>\<open>uio_space\<close>.
\<close>

section \<open>The code\<close>

datatype uio_rw = UIO_READ | UIO_WRITE

datatype uio_seg = UIO_USERSPACE | UIO_SYSSPACE | UIO_USERISPACE

record uio =
  uio_data :: "byte list"
  uio_pos :: nat
  iov_len :: nat
  uio_offset :: int
  uio_resid :: nat
  uio_segflg :: uio_seg
  uio_dir :: uio_rw
  uio_space_ok :: bool
  uio_faults :: "nat option list"

text \<open>How many bytes of a copy of \<open>n\<close> are moved, and whether it faults.\<close>

fun copy_outcome :: "uio_seg \<Rightarrow> nat \<Rightarrow> nat option list \<Rightarrow> nat \<times> bool \<times> nat option list" where
  "copy_outcome UIO_SYSSPACE n fs = (n, False, fs)"
| "copy_outcome seg n [] = (n, False, [])"
| "copy_outcome seg n (None # fs) = (n, False, fs)"
| "copy_outcome seg n (Some k # fs) = (min k n, True, fs)"

text \<open>The \<^verbatim>\<open>switch\<close> in the loop of \<^verbatim>\<open>uiomove\<close>: \<open>n\<close> bytes between \<open>buf + p\<close> and the region.\<close>

definition uio_copy :: "byte list \<Rightarrow> nat \<Rightarrow> nat \<Rightarrow> uio \<Rightarrow> (unit res \<times> byte list \<times> uio) option" where
  "uio_copy buf p n u = do {
     kassert (p + n \<le> length buf);
     kassert (uio_pos u + n \<le> length (uio_data u));
     let (k, fault, fs) = copy_outcome (uio_segflg u) n (uio_faults u);
     let (buf, u) = (case uio_dir u of
        UIO_READ \<Rightarrow> (buf, u\<lparr>uio_data := blit (uio_data u) (uio_pos u) (slice buf p k), uio_faults := fs\<rparr>)
      | UIO_WRITE \<Rightarrow> (blit buf p (slice (uio_data u) (uio_pos u) k), u\<lparr>uio_faults := fs\<rparr>));
     if fault then Some (Inl EFAULT, buf, u)
     else Some (Inr (), buf, u\<lparr>uio_pos := uio_pos u + n\<rparr>)
   }"

definition uio_account :: "nat \<Rightarrow> uio \<Rightarrow> uio" where
  "uio_account n u = u\<lparr>iov_len := u32 (int (iov_len u) - int n),
     uio_resid := u32 (int (uio_resid u) - int n), uio_offset := off32 (uio_offset u + int n)\<rparr>"

function uiomove_loop :: "byte list \<Rightarrow> nat \<Rightarrow> nat \<Rightarrow> uio \<Rightarrow> (unit res \<times> byte list \<times> uio) option" where
  "uiomove_loop buf p n u =
     (if 0 < n \<and> 0 < uio_resid u
      then let sz = (if iov_len u > n then n else iov_len u) in
        if sz = 0 then None
        else do {
          (r, buf, u) \<leftarrow> uio_copy buf p sz u;
          case r of
            Inl e \<Rightarrow> Some (Inl e, buf, u)
          | Inr _ \<Rightarrow> uiomove_loop buf (p + sz) (n - sz) (uio_account sz u)
        }
      else Some (Inr (), buf, u))"
  by pat_completeness auto
termination
  by (relation "measure (\<lambda>(buf, p, n, u). n)") (auto split: if_splits)

declare uiomove_loop.simps [simp del]

definition uiomove :: "byte list \<Rightarrow> nat \<Rightarrow> nat \<Rightarrow> uio \<Rightarrow> (unit res \<times> byte list \<times> uio) option" where
  "uiomove buf p n u = do {
     kassert (uio_space_ok u);
     uiomove_loop buf p n u
   }"

function zeros_loop :: "nat \<Rightarrow> uio \<Rightarrow> (unit res \<times> uio) option" where
  "zeros_loop n u =
     (if n > 0
      then let amt = (if 16 > n then n else 16) in do {
        (r, zeros, u) \<leftarrow> uiomove (replicate 16 0) 0 amt u;
        case r of
          Inl e \<Rightarrow> Some (Inl e, u)
        | Inr _ \<Rightarrow> zeros_loop (n - amt) u
      }
      else Some (Inr (), u))"
  by pat_completeness auto
termination
  by (relation "measure (\<lambda>(n, u). n)") (auto split: if_splits)

declare zeros_loop.simps [simp del]

definition uiomovezeros :: "nat \<Rightarrow> uio \<Rightarrow> (unit res \<times> uio) option" where
  "uiomovezeros n u = do {
     kassert (uio_dir u = UIO_READ);
     zeros_loop n u
   }"

definition mk_kuio :: "byte list \<Rightarrow> nat \<Rightarrow> int \<Rightarrow> uio_rw \<Rightarrow> uio" where
  "mk_kuio kbuf len pos rw = \<lparr>uio_data = kbuf, uio_pos = 0, iov_len = len, uio_offset = pos,
     uio_resid = len, uio_segflg = UIO_SYSSPACE, uio_dir = rw, uio_space_ok = True, uio_faults = []\<rparr>"

section \<open>Transfers that fit\<close>

text \<open>A region that does not fault and is long enough, at an offset that does not overflow.\<close>

definition uio_quiet :: "uio \<Rightarrow> bool" where
  "uio_quiet u \<longleftrightarrow> uio_space_ok u \<and> (uio_segflg u = UIO_SYSSPACE \<or> uio_faults u = [])"

definition uio_wf :: "uio \<Rightarrow> bool" where
  "uio_wf u \<longleftrightarrow> uio_space_ok u \<and> uio_resid u \<le> iov_len u \<and> iov_len u < 2 ^ 32 \<and>
     uio_pos u + iov_len u \<le> length (uio_data u) \<and>
     0 \<le> uio_offset u \<and> uio_offset u + int (uio_resid u) < 2 ^ 31"

definition uio_advance :: "nat \<Rightarrow> uio \<Rightarrow> uio" where
  "uio_advance n u = u\<lparr>uio_pos := uio_pos u + n, iov_len := iov_len u - n,
     uio_resid := uio_resid u - n, uio_offset := uio_offset u + int n\<rparr>"

lemma uio_advance_simps [simp]:
  "uio_pos (uio_advance n u) = uio_pos u + n" "iov_len (uio_advance n u) = iov_len u - n"
  "uio_resid (uio_advance n u) = uio_resid u - n" "uio_offset (uio_advance n u) = uio_offset u + int n"
  "uio_data (uio_advance n u) = uio_data u" "uio_segflg (uio_advance n u) = uio_segflg u"
  "uio_dir (uio_advance n u) = uio_dir u" "uio_space_ok (uio_advance n u) = uio_space_ok u"
  "uio_faults (uio_advance n u) = uio_faults u"
  by (simp_all add: uio_advance_def)

lemma uio_advance_0 [simp]: "uio_advance 0 u = u"
  by (simp add: uio_advance_def)

lemma uio_advance_add: "uio_advance m (uio_advance n u) = uio_advance (n + m) u"
  by (simp add: uio_advance_def add.assoc)

text \<open>What a transfer of \<open>bs\<close> into the region leaves.\<close>

definition uio_receive :: "byte list \<Rightarrow> uio \<Rightarrow> uio" where
  "uio_receive bs u = uio_advance (length bs) (u\<lparr>uio_data := blit (uio_data u) (uio_pos u) bs\<rparr>)"

lemma uio_receive_simps [simp]:
  "uio_pos (uio_receive bs u) = uio_pos u + length bs" "iov_len (uio_receive bs u) = iov_len u - length bs"
  "uio_resid (uio_receive bs u) = uio_resid u - length bs"
  "uio_offset (uio_receive bs u) = uio_offset u + int (length bs)"
  "uio_segflg (uio_receive bs u) = uio_segflg u" "uio_dir (uio_receive bs u) = uio_dir u"
  "uio_space_ok (uio_receive bs u) = uio_space_ok u" "uio_faults (uio_receive bs u) = uio_faults u"
  "uio_data (uio_receive bs u) = blit (uio_data u) (uio_pos u) bs"
  by (simp_all add: uio_receive_def)

lemma uio_receive_Nil [simp]: "uio_receive [] u = u"
  by (simp add: uio_receive_def)

lemma uio_receive_append:
  assumes "uio_pos u + length xs + length ys \<le> length (uio_data u)"
  shows "uio_receive ys (uio_receive xs u) = uio_receive (xs @ ys) u"
  using assms by (simp add: uio_receive_def uio_advance_def blit_append add.assoc)

lemma uio_quiet_simps [simp]:
  "uio_quiet (uio_advance n u) = uio_quiet u" "uio_quiet (uio_receive bs u) = uio_quiet u"
  by (simp_all add: uio_quiet_def)

lemma uio_wf_advance: "uio_wf u \<Longrightarrow> n \<le> uio_resid u \<Longrightarrow> uio_wf (uio_advance n u)"
  by (auto simp: uio_wf_def)

lemma uio_wf_receive:
  "uio_wf u \<Longrightarrow> length bs \<le> uio_resid u \<Longrightarrow> uio_wf (uio_receive bs u)"
  by (auto simp: uio_wf_def)

lemma copy_outcome_quiet:
  "uio_quiet u \<Longrightarrow> copy_outcome (uio_segflg u) n (uio_faults u) = (n, False, uio_faults u)"
  by (cases "uio_segflg u") (auto simp: uio_quiet_def)

lemma uio_account_advance:
  assumes "n \<le> uio_resid u" "uio_resid u \<le> iov_len u" "iov_len u < 2 ^ 32"
    "0 \<le> uio_offset u" "uio_offset u + int n < 2 ^ 31"
  shows "uio_account n (u\<lparr>uio_pos := uio_pos u + n\<rparr>) = uio_advance n u"
  using assms by (simp add: uio_account_def uio_advance_def u32_nonneg)

lemma uiomove_done: "uiomove_loop buf p 0 u = Some (Inr (), buf, u)"
  by (simp add: uiomove_loop.simps)

lemma uiomove_read:
  assumes wf: "uio_wf u" and q: "uio_quiet u" and dir: "uio_dir u = UIO_READ"
    and n: "n \<le> uio_resid u" "p + n \<le> length buf"
  shows "uiomove buf p n u = Some (Inr (), buf, uio_receive (slice buf p n) u)"
proof (cases "n = 0")
  case True
  with wf show ?thesis by (simp add: uiomove_def uiomove_done uio_wf_def slice_def)
next
  case False
  let ?u = "u\<lparr>uio_data := blit (uio_data u) (uio_pos u) (slice buf p n)\<rparr>"
  have sz: "(if iov_len u > n then n else iov_len u) = n" using wf n by (auto simp: uio_wf_def)
  have copy: "uio_copy buf p n u = Some (Inr (), buf, ?u\<lparr>uio_pos := uio_pos u + n\<rparr>)"
    using wf n dir q by (simp add: uio_copy_def copy_outcome_quiet uio_wf_def)
  have acc: "uio_account n (?u\<lparr>uio_pos := uio_pos u + n\<rparr>) = uio_receive (slice buf p n) u"
    using uio_account_advance [of n ?u] wf n by (simp add: uio_wf_def uio_receive_def)
  show ?thesis
    using False wf n copy sz acc
    by (simp add: uiomove_def uio_wf_def uiomove_loop.simps [of buf p n u] uiomove_done del: fun_upd_apply)
qed

lemma uiomove_write:
  assumes wf: "uio_wf u" and q: "uio_quiet u" and dir: "uio_dir u = UIO_WRITE"
    and n: "n \<le> uio_resid u" "p + n \<le> length buf"
  shows "uiomove buf p n u =
    Some (Inr (), blit buf p (slice (uio_data u) (uio_pos u) n), uio_advance n u)"
proof (cases "n = 0")
  case True
  with wf show ?thesis by (simp add: uiomove_def uiomove_done uio_wf_def slice_def)
next
  case False
  have sz: "(if iov_len u > n then n else iov_len u) = n" using wf n by (auto simp: uio_wf_def)
  have copy: "uio_copy buf p n u = Some (Inr (), blit buf p (slice (uio_data u) (uio_pos u) n),
      u\<lparr>uio_pos := uio_pos u + n\<rparr>)"
    using wf n dir q by (simp add: uio_copy_def copy_outcome_quiet uio_wf_def)
  have acc: "uio_account n (u\<lparr>uio_pos := uio_pos u + n\<rparr>) = uio_advance n u"
    using uio_account_advance [of n u] wf n by (simp add: uio_wf_def)
  show ?thesis
    using False wf n copy sz acc
    by (simp add: uiomove_def uio_wf_def uiomove_loop.simps [of buf p n u] uiomove_done)
qed

lemma zeros_loop_ok:
  assumes "uio_wf u" and "uio_quiet u" and "uio_dir u = UIO_READ" and "n \<le> uio_resid u"
  shows "zeros_loop n u = Some (Inr (), uio_receive (replicate n 0) u)"
  using assms
proof (induction n arbitrary: u rule: less_induct)
  case (less n)
  show ?case
  proof (cases "n = 0")
    case True
    then show ?thesis by (simp add: zeros_loop.simps)
  next
    case False
    let ?amt = "if 16 > n then n else 16"
    let ?u = "uio_receive (replicate ?amt 0) u"
    have amt: "0 < ?amt" "?amt \<le> n" "?amt \<le> 16" using False by auto
    have "slice (replicate 16 0) 0 ?amt = replicate ?amt (0::byte)" by (simp add: slice_def)
    with uiomove_read [OF less.prems(1-3), of ?amt 0 "replicate 16 0"] less.prems(4) amt
    have move: "uiomove (replicate 16 0) 0 ?amt u = Some (Inr (), replicate 16 0, ?u)" by simp
    have "uio_wf ?u" using uio_wf_receive [OF less.prems(1), of "replicate ?amt 0"] less.prems(4) amt by simp
    moreover have "n - ?amt \<le> uio_resid ?u" using less.prems(4) by simp
    ultimately have rest: "zeros_loop (n - ?amt) ?u = Some (Inr (), uio_receive (replicate (n - ?amt) 0) ?u)"
      using less.IH [of "n - ?amt" ?u] less.prems(2,3) amt by simp
    have "uio_receive (replicate (n - ?amt) 0) ?u = uio_receive (replicate n 0) u"
      using amt less.prems by (subst uio_receive_append) (auto simp: uio_wf_def replicate_add [symmetric])
    with move rest False show ?thesis
      by (simp add: zeros_loop.simps [of n u] Let_def split del: if_split)
  qed
qed

lemma uiomovezeros_ok:
  assumes "uio_wf u" and "uio_quiet u" and "uio_dir u = UIO_READ" and "n \<le> uio_resid u"
  shows "uiomovezeros n u = Some (Inr (), uio_receive (replicate n 0) u)"
  using assms zeros_loop_ok by (simp add: uiomovezeros_def)

end
