(* ===== verification/K_Disk.thy ===== *)
theory K_Disk
  imports K_Uio
begin

text \<open>
  The hard disk driver, \<^verbatim>\<open>kern/dev/lamebus/lhd.c\<close>, and the block I/O routines of SFS on top of it,
  \<^verbatim>\<open>kern/fs/sfs/sfs_io.c\<close>.

  The device is its sectors, their number, and the status codes that the hardware will report for
  the next operations (a list that has run out stands for operations that succeed). A sector that
  does not exist is reported as invalid. A failed write leaves the sector as it was. The semaphores
  \<^verbatim>\<open>lh_clear\<close> and \<^verbatim>\<open>lh_done\<close> serialise the requests of different threads, so a request here is
  one step; the interrupt handler's part is the translation of the status code.
\<close>

section \<open>The driver\<close>

abbreviation (input) SECTSIZE :: nat where "SECTSIZE \<equiv> 512"

datatype lhd_status = LHD_OK | LHD_INVSECT | LHD_MEDIA

record lhd =
  d_blocks :: nat
  sectors :: "nat \<Rightarrow> byte list"
  lh_status :: "lhd_status list"

fun lhd_code_to_errno :: "lhd_status \<Rightarrow> unit res" where
  "lhd_code_to_errno LHD_OK = Inr ()"
| "lhd_code_to_errno LHD_INVSECT = Inl EINVAL"
| "lhd_code_to_errno LHD_MEDIA = Inl EIO"

text \<open>One operation of the hardware on the on-card buffer \<open>buf\<close>.\<close>

definition lhd_operate :: "uio_rw \<Rightarrow> nat \<Rightarrow> byte list \<Rightarrow> lhd \<Rightarrow> lhd_status \<times> byte list \<times> lhd" where
  "lhd_operate rw sector buf d =
     (let (st, sts) = (case lh_status d of [] \<Rightarrow> (LHD_OK, []) | c # cs \<Rightarrow> (c, cs));
          st = (if sector < d_blocks d then st else LHD_INVSECT);
          d = d\<lparr>lh_status := sts\<rparr>
      in if st = LHD_OK
         then (case rw of UIO_READ \<Rightarrow> (st, sectors d sector, d)
                        | UIO_WRITE \<Rightarrow> (st, buf, d\<lparr>sectors := (sectors d)(sector := buf)\<rparr>))
         else (st, buf, d))"

text \<open>The loop of \<^verbatim>\<open>lhd_io\<close> over the sectors.\<close>

fun lhd_sectors :: "nat \<Rightarrow> nat \<Rightarrow> byte list \<Rightarrow> uio \<Rightarrow> lhd \<Rightarrow> (unit res \<times> uio \<times> lhd) option" where
  "lhd_sectors 0 sector buf u d = Some (Inr (), u, d)"
| "lhd_sectors (Suc n) sector buf u d = do {
     (r, buf, u) \<leftarrow> (if uio_dir u = UIO_WRITE then uiomove buf 0 SECTSIZE u else Some (Inr (), buf, u));
     case r of
       Inl e \<Rightarrow> Some (Inl e, u, d)
     | Inr _ \<Rightarrow> (case lhd_operate (uio_dir u) sector buf d of (st, buf, d) \<Rightarrow> do {
         (r, buf, u) \<leftarrow> (if lhd_code_to_errno st = Inr () \<and> uio_dir u = UIO_READ
                         then uiomove buf 0 SECTSIZE u else Some (lhd_code_to_errno st, buf, u));
         case r of
           Inl e \<Rightarrow> Some (Inl e, u, d)
         | Inr _ \<Rightarrow> lhd_sectors n (u32 (int sector + 1)) buf u d
       })
   }"

definition lhd_io :: "uio \<Rightarrow> lhd \<Rightarrow> (unit res \<times> uio \<times> lhd) option" where
  "lhd_io u d =
     (let sector = u32 (cdiv (uio_offset u) (int SECTSIZE));
          sectoff = u32 (cmod (uio_offset u) (int SECTSIZE));
          len = uio_resid u div SECTSIZE;
          lenoff = uio_resid u mod SECTSIZE
      in if sectoff \<noteq> 0 \<or> lenoff \<noteq> 0 then Some (Inl EINVAL, u, d)
         else if u32 (int sector + int len) > d_blocks d then Some (Inl EINVAL, u, d)
         else lhd_sectors len sector (replicate SECTSIZE 0) u d)"

section \<open>Block I/O of SFS\<close>

abbreviation (input) SFS_BLOCKSIZE :: nat where "SFS_BLOCKSIZE \<equiv> 512"

text \<open>The retry loop: \<open>tries\<close> counts up to 10.\<close>

function rwblock_retry :: "nat \<Rightarrow> uio \<Rightarrow> lhd \<Rightarrow> (unit res \<times> uio \<times> lhd) option" where
  "rwblock_retry tries u d = do {
     (r, u, d) \<leftarrow> lhd_io u d;
     if r = Inl EINVAL then None
     else if r = Inl EIO then if tries < 10 then rwblock_retry (tries + 1) u d else Some (r, u, d)
     else Some (r, u, d)
   }"
  by pat_completeness auto
termination
  by (relation "measure (\<lambda>(tries, u, d). 10 - tries)") auto

declare rwblock_retry.simps [simp del]

definition sfs_rwblock :: "uio \<Rightarrow> lhd \<Rightarrow> (unit res \<times> uio \<times> lhd) option" where
  "sfs_rwblock u d = rwblock_retry 0 u d"

text \<open>\<^verbatim>\<open>SFSUIO\<close>: the offset \<^verbatim>\<open>((off_t)(block))*SFS_BLOCKSIZE\<close> must not overflow.\<close>

definition SFSUIO :: "byte list \<Rightarrow> nat \<Rightarrow> uio_rw \<Rightarrow> uio option" where
  "SFSUIO buf block rw = do {
     pos \<leftarrow> cint (off32 (int block) * int SFS_BLOCKSIZE);
     Some (mk_kuio buf SFS_BLOCKSIZE pos rw)
   }"

text \<open>\<open>sfs_rblock\<close> hands back the buffer.\<close>

definition sfs_rblock :: "nat \<Rightarrow> lhd \<Rightarrow> (byte list res \<times> lhd) option" where
  "sfs_rblock block d = do {
     u \<leftarrow> SFSUIO (replicate SFS_BLOCKSIZE 0) block UIO_READ;
     (r, u, d) \<leftarrow> sfs_rwblock u d;
     case r of
       Inl e \<Rightarrow> Some (Inl e, d)
     | Inr _ \<Rightarrow> Some (Inr (uio_data u), d)
   }"

definition sfs_wblock :: "byte list \<Rightarrow> nat \<Rightarrow> lhd \<Rightarrow> (unit res \<times> lhd) option" where
  "sfs_wblock data block d = do {
     u \<leftarrow> SFSUIO data block UIO_WRITE;
     (r, u, d) \<leftarrow> sfs_rwblock u d;
     Some (r, d)
   }"

section \<open>Behaviour on a disk without errors\<close>

definition disk_wf :: "lhd \<Rightarrow> bool" where
  "disk_wf d \<longleftrightarrow> d_blocks d < 2 ^ 22 \<and> (\<forall>b. length (sectors d b) = SECTSIZE)"

definition disk_quiet :: "lhd \<Rightarrow> bool" where
  "disk_quiet d \<longleftrightarrow> disk_wf d \<and> lh_status d = []"

lemma disk_quiet_write [simp]:
  "disk_quiet d \<Longrightarrow> length buf = SECTSIZE \<Longrightarrow> disk_quiet (d\<lparr>sectors := (sectors d)(b := buf)\<rparr>)"
  by (simp add: disk_quiet_def disk_wf_def)

lemma block_bound: "disk_wf d \<Longrightarrow> b < d_blocks d \<Longrightarrow> Suc b < 2 ^ 22"
  by (simp add: disk_wf_def)

text \<open>One sector at a time: the request that SFS makes.\<close>

lemma lhd_io_sector:
  assumes d: "disk_wf d" and b: "b < d_blocks d"
    and u: "uio_offset u = int b * 512" "uio_resid u = 512"
  shows "lhd_io u d = lhd_sectors 1 b (replicate 512 0) u d"
proof -
  have "u32 (int b) = b" "u32 (int b + 1) = Suc b" using block_bound [OF d b] by (auto simp: u32_def nat_add_distrib)
  with u b show ?thesis by (simp add: lhd_io_def del: lhd_sectors.simps)
qed

lemma lhd_io_read:
  assumes d: "disk_quiet d" and b: "b < d_blocks d"
    and u: "uio_wf u" "uio_quiet u" "uio_offset u = int b * 512" "uio_resid u = 512" "uio_dir u = UIO_READ"
  shows "lhd_io u d = Some (Inr (), uio_receive (sectors d b) u, d)"
proof -
  have wf: "disk_wf d" and st: "lh_status d = []" and len: "length (sectors d b) = 512"
    using d by (auto simp: disk_quiet_def disk_wf_def)
  have "uiomove (sectors d b) 0 512 u = Some (Inr (), sectors d b, uio_receive (sectors d b) u)"
    using uiomove_read [OF u(1,2,5), of 512 0 "sectors d b"] u(4) len slice_all [of "sectors d b"] by simp
  moreover have "d\<lparr>lh_status := []\<rparr> = d" using st by (cases d) simp
  ultimately show ?thesis using lhd_io_sector [OF wf b u(3,4)] u(5) st b by (simp add: lhd_operate_def)
qed

lemma lhd_io_write:
  assumes d: "disk_quiet d" and b: "b < d_blocks d"
    and u: "uio_wf u" "uio_quiet u" "uio_offset u = int b * 512" "uio_resid u = 512" "uio_dir u = UIO_WRITE"
  shows "lhd_io u d = Some (Inr (), uio_advance 512 u,
    d\<lparr>sectors := (sectors d)(b := slice (uio_data u) (uio_pos u) 512)\<rparr>)"
proof -
  have wf: "disk_wf d" and st: "lh_status d = []" using d by (auto simp: disk_quiet_def)
  have "length (slice (uio_data u) (uio_pos u) 512) = 512"
    using u(1,4) by (auto simp: uio_wf_def)
  then have "blit (replicate 512 0) 0 (slice (uio_data u) (uio_pos u) 512) = slice (uio_data u) (uio_pos u) 512"
    by (simp add: blit_all)
  with uiomove_write [OF u(1,2,5), of 512 0 "replicate 512 0"] u(4)
  have "uiomove (replicate 512 0) 0 512 u =
      Some (Inr (), slice (uio_data u) (uio_pos u) 512, uio_advance 512 u)" by simp
  moreover have "d\<lparr>lh_status := []\<rparr> = d" using st by (cases d) simp
  ultimately show ?thesis using lhd_io_sector [OF wf b u(3,4)] u(5) st b by (simp add: lhd_operate_def)
qed

lemma rwblock_ok:
  "lhd_io u d = Some (Inr (), u', d') \<Longrightarrow> sfs_rwblock u d = Some (Inr (), u', d')"
  by (simp add: sfs_rwblock_def rwblock_retry.simps [of 0 u d])

lemma SFSUIO_ok: "b < 2 ^ 22 \<Longrightarrow> SFSUIO buf b rw = Some (mk_kuio buf 512 (int b * 512) rw)"
  by (simp add: SFSUIO_def off32_def)

lemma mk_kuio_wf:
  "length buf = 512 \<Longrightarrow> Suc b < 2 ^ 22 \<Longrightarrow> uio_wf (mk_kuio buf 512 (int b * 512) rw)"
  by (simp add: uio_wf_def mk_kuio_def)

lemma mk_kuio_quiet [simp]: "uio_quiet (mk_kuio buf n pos rw)"
  by (simp add: uio_quiet_def mk_kuio_def)

lemma mk_kuio_simps [simp]:
  "uio_data (mk_kuio buf n pos rw) = buf" "uio_pos (mk_kuio buf n pos rw) = 0"
  "uio_offset (mk_kuio buf n pos rw) = pos" "uio_resid (mk_kuio buf n pos rw) = n"
  "uio_dir (mk_kuio buf n pos rw) = rw" "iov_len (mk_kuio buf n pos rw) = n"
  by (simp_all add: mk_kuio_def)

lemma sfs_rblock_ok:
  assumes d: "disk_quiet d" and b: "b < d_blocks d"
  shows "sfs_rblock b d = Some (Inr (sectors d b), d)"
proof -
  have b22: "Suc b < 2 ^ 22" and len: "length (sectors d b) = 512"
    using d b by (auto simp: disk_quiet_def disk_wf_def)
  let ?u = "mk_kuio (replicate 512 0) 512 (int b * 512) UIO_READ"
  have "lhd_io ?u d = Some (Inr (), uio_receive (sectors d b) ?u, d)"
    using mk_kuio_wf [of "replicate 512 0" b UIO_READ] b22 by (intro lhd_io_read [OF d b]) simp_all
  then show ?thesis
    using b22 len by (simp add: sfs_rblock_def SFSUIO_ok rwblock_ok blit_all)
qed

lemma sfs_wblock_ok:
  assumes d: "disk_quiet d" and b: "b < d_blocks d" and buf: "length buf = 512"
  shows "sfs_wblock buf b d = Some (Inr (), d\<lparr>sectors := (sectors d)(b := buf)\<rparr>)"
proof -
  have b22: "Suc b < 2 ^ 22" using d b by (auto simp: disk_quiet_def disk_wf_def)
  let ?u = "mk_kuio buf 512 (int b * 512) UIO_WRITE"
  have "lhd_io ?u d = Some (Inr (), uio_advance 512 ?u,
      d\<lparr>sectors := (sectors d)(b := slice (uio_data ?u) (uio_pos ?u) 512)\<rparr>)"
    using mk_kuio_wf [OF buf b22] by (intro lhd_io_write [OF d b]) simp_all
  moreover have "slice buf 0 512 = buf" using slice_all [of buf] buf by simp
  ultimately show ?thesis
    using b22 by (simp add: sfs_wblock_def SFSUIO_ok rwblock_ok)
qed

section \<open>Media errors\<close>

lemma lhd_io_read_media:
  assumes d: "disk_wf d" and b: "b < d_blocks d" and st: "lh_status d = LHD_MEDIA # sts"
    and u: "uio_offset u = int b * 512" "uio_resid u = 512" "uio_dir u = UIO_READ"
  shows "lhd_io u d = Some (Inl EIO, u, d\<lparr>lh_status := sts\<rparr>)"
  using lhd_io_sector [OF d b u(1,2)] u(3) st b by (simp add: lhd_operate_def)

lemma rwblock_read_retries:
  assumes "disk_wf d" and "b < d_blocks d" and "lh_status d = replicate k LHD_MEDIA" and "tries \<le> 10"
    and "uio_wf u" "uio_quiet u" "uio_offset u = int b * 512" "uio_resid u = 512" "uio_dir u = UIO_READ"
  shows "rwblock_retry tries u d =
    (if k + tries \<le> 10 then Some (Inr (), uio_receive (sectors d b) u, d\<lparr>lh_status := []\<rparr>)
     else Some (Inl EIO, u, d\<lparr>lh_status := replicate (k + tries - 11) LHD_MEDIA\<rparr>))"
  using assms
proof (induction k arbitrary: d tries)
  case 0
  then have "lhd_io u d = Some (Inr (), uio_receive (sectors d b) u, d)"
    by (intro lhd_io_read) (auto simp: disk_quiet_def)
  moreover have "d\<lparr>lh_status := []\<rparr> = d" using "0.prems"(3) by (cases d) simp
  ultimately show ?case using "0.prems"(4) by (simp add: rwblock_retry.simps [of tries u d])
next
  case (Suc k)
  let ?d = "d\<lparr>lh_status := replicate k LHD_MEDIA\<rparr>"
  have io: "lhd_io u d = Some (Inl EIO, u, ?d)"
    using Suc.prems by (intro lhd_io_read_media) simp_all
  show ?case
  proof (cases "tries = 10")
    case True
    with io show ?thesis by (simp add: rwblock_retry.simps [of 10 u d])
  next
    case False
    have "rwblock_retry (tries + 1) u ?d =
        (if k + (tries + 1) \<le> 10 then Some (Inr (), uio_receive (sectors ?d b) u, ?d\<lparr>lh_status := []\<rparr>)
         else Some (Inl EIO, u, ?d\<lparr>lh_status := replicate (k + (tries + 1) - 11) LHD_MEDIA\<rparr>))"
      using Suc.prems False by (intro Suc.IH) (simp_all add: disk_wf_def)
    with io False Suc.prems(4) show ?thesis by (simp add: rwblock_retry.simps [of tries u d])
  qed
qed

lemma lhd_io_write_media:
  assumes d: "disk_wf d" and b: "b < d_blocks d" and st: "lh_status d = LHD_MEDIA # sts"
    and u: "uio_wf u" "uio_quiet u" "uio_offset u = int b * 512" "uio_resid u = 512" "uio_dir u = UIO_WRITE"
  shows "lhd_io u d = Some (Inl EIO, uio_advance 512 u, d\<lparr>lh_status := sts\<rparr>)"
  using lhd_io_sector [OF d b u(3,4)] uiomove_write [OF u(1,2,5), of 512 0 "replicate 512 0"] u(4,5) st b
  by (simp add: lhd_operate_def)

section \<open>Properties\<close>

text \<open>C6: a block read survives up to ten media errors in a row: \<^verbatim>\<open>sfs_rblock\<close> then returns the contents
  of the sector. After the eleventh it gives up with \<^verbatim>\<open>EIO\<close>. The sectors do not change.\<close>

theorem sfs_rblock_retries:
  assumes "disk_wf d" and "b < d_blocks d" and "lh_status d = replicate k LHD_MEDIA"
  shows "sfs_rblock b d =
    (if k \<le> 10 then Some (Inr (sectors d b), d\<lparr>lh_status := []\<rparr>)
     else Some (Inl EIO, d\<lparr>lh_status := replicate (k - 11) LHD_MEDIA\<rparr>))"
proof -
  have b22: "Suc b < 2 ^ 22" and len: "length (sectors d b) = 512"
    using assms by (auto simp: disk_wf_def)
  let ?u = "mk_kuio (replicate 512 0) 512 (int b * 512) UIO_READ"
  have "uio_wf ?u" using b22 by (intro mk_kuio_wf) simp_all
  then have "rwblock_retry 0 ?u d =
      (if k + 0 \<le> 10 then Some (Inr (), uio_receive (sectors d b) ?u, d\<lparr>lh_status := []\<rparr>)
       else Some (Inl EIO, ?u, d\<lparr>lh_status := replicate (k + 0 - 11) LHD_MEDIA\<rparr>))"
    by (intro rwblock_read_retries [OF assms]) simp_all
  with b22 len show ?thesis
    by (simp add: sfs_rblock_def SFSUIO_ok sfs_rwblock_def blit_all)
qed

theorem sfs_rblock_retries_witness:
  "sfs_rblock 3 \<lparr>d_blocks = 8, sectors = (\<lambda>_. replicate 512 7), lh_status = [LHD_MEDIA, LHD_MEDIA]\<rparr> =
     Some (Inr (replicate 512 7), \<lparr>d_blocks = 8, sectors = (\<lambda>_. replicate 512 7), lh_status = []\<rparr>)"
  using sfs_rblock_retries [of "\<lparr>d_blocks = 8, sectors = (\<lambda>_. replicate 512 7), lh_status = [LHD_MEDIA, LHD_MEDIA]\<rparr>" 3 "Suc (Suc 0)"]
  by (simp add: disk_wf_def)

text \<open>C5: the retry after a failed write writes nothing. The driver takes the data out of the \<^verbatim>\<open>uio\<close>
  before it starts the operation, so when the hardware reports a media error on a write, the second
  attempt finds no bytes left, and \<^verbatim>\<open>sfs_wblock\<close> reports success although the sector has not been
  written.\<close>

theorem sfs_wblock_lost_write:
  assumes "disk_wf d" and "b < d_blocks d" and "length buf = SFS_BLOCKSIZE" and "lh_status d = LHD_MEDIA # sts"
  shows "sfs_wblock buf b d = Some (Inr (), d\<lparr>lh_status := sts\<rparr>)"
proof -
  have b22: "Suc b < 2 ^ 22" using assms(1,2) by (auto simp: disk_wf_def)
  let ?u = "mk_kuio buf 512 (int b * 512) UIO_WRITE" and ?d = "d\<lparr>lh_status := sts\<rparr>"
  have first: "lhd_io ?u d = Some (Inl EIO, uio_advance 512 ?u, ?d)"
    using mk_kuio_wf [OF assms(3) b22] by (intro lhd_io_write_media [OF assms(1,2,4)]) simp_all
  have "(int b * 512 + 512) div 512 = int b + 1" by simp
  then have "lhd_io (uio_advance 512 ?u) ?d = Some (Inr (), uio_advance 512 ?u, ?d)"
    using b22 assms(2) by (simp add: lhd_io_def u32_def nat_add_distrib)
  with first b22 show ?thesis
    by (simp add: sfs_wblock_def SFSUIO_ok sfs_rwblock_def rwblock_retry.simps [of 0 ?u d]
        rwblock_retry.simps [of "Suc 0" "uio_advance 512 ?u" ?d])
qed

theorem sfs_wblock_lost_write_witness:
  "sfs_wblock (replicate 512 1) 3 \<lparr>d_blocks = 8, sectors = (\<lambda>_. replicate 512 7), lh_status = [LHD_MEDIA]\<rparr> =
     Some (Inr (), \<lparr>d_blocks = 8, sectors = (\<lambda>_. replicate 512 7), lh_status = []\<rparr>)"
  using sfs_wblock_lost_write [of "\<lparr>d_blocks = 8, sectors = (\<lambda>_. replicate 512 7), lh_status = [LHD_MEDIA]\<rparr>"
    3 "replicate 512 1" "[]"]
  by (simp add: disk_wf_def)

end
