(* ===== verification/K_Sfs.thy ===== *)
theory K_Sfs
  imports K_Disk K_Bitmap K_Array
begin

text \<open>
  SFS: the on-disk structures (\<^verbatim>\<open>kern/include/kern/sfs.h\<close>) with their encoding, the in-memory state
  (\<^verbatim>\<open>kern/include/sfs.h\<close>), and the space allocation and block mapping of \<^verbatim>\<open>kern/fs/sfs/sfs_vnode.c\<close>.

  The state \<open>sfs_fs\<close> is the mounted file system as one thread sees it: the superblock, the free
  map, the vnode table (an array of addresses), the vnodes themselves in a heap \<open>sfs_heap\<close> from
  addresses to structures (an address that is not mapped is freed memory, and using it is
  undefined), the disk, the locks the running thread holds, and the outcomes of \<^verbatim>\<open>kmalloc\<close>.
  Acquiring a lock that one holds already, releasing one that one does not hold, and the
  \<^verbatim>\<open>lock_do_i_hold\<close> assertions fail as they do in \<^verbatim>\<open>kern/thread/synch.c\<close>. One call runs without
  interference: that is what the vnode lock, the table lock and the bitmap lock are for.
\<close>

section \<open>On-disk structures\<close>

abbreviation (input) SFS_MAGIC :: nat where "SFS_MAGIC \<equiv> 0xabadf001"
abbreviation (input) SFS_NDIRECT :: nat where "SFS_NDIRECT \<equiv> 15"
abbreviation (input) SFS_DBPERIDB :: nat where "SFS_DBPERIDB \<equiv> 128"
abbreviation (input) SFS_NAMELEN :: nat where "SFS_NAMELEN \<equiv> 60"
abbreviation (input) SFS_ROOT_LOCATION :: nat where "SFS_ROOT_LOCATION \<equiv> 1"
abbreviation (input) SFS_NOINO :: nat where "SFS_NOINO \<equiv> 0"
abbreviation (input) SFS_TYPE_INVAL :: nat where "SFS_TYPE_INVAL \<equiv> 0"
abbreviation (input) SFS_TYPE_FILE :: nat where "SFS_TYPE_FILE \<equiv> 1"
abbreviation (input) SFS_TYPE_DIR :: nat where "SFS_TYPE_DIR \<equiv> 2"

record sfs_super =
  sp_magic :: nat
  sp_nblocks :: nat
  sp_volname :: "byte list"
  sp_reserved :: "byte list"

record sfs_inode =
  sfi_size :: nat
  sfi_type :: nat
  sfi_linkcount :: nat
  sfi_direct :: "nat list"
  sfi_indirect :: nat
  sfi_waste :: "byte list"

record sfs_dir =
  sfd_ino :: nat
  sfd_name :: "byte list"

definition encode_super :: "sfs_super \<Rightarrow> byte list" where
  "encode_super sp = put32 (sp_magic sp) @ put32 (sp_nblocks sp) @ sp_volname sp @ sp_reserved sp"

definition decode_super :: "byte list \<Rightarrow> sfs_super" where
  "decode_super bs = \<lparr>sp_magic = be (slice bs 0 4), sp_nblocks = be (slice bs 4 4),
     sp_volname = slice bs 8 32, sp_reserved = drop 40 bs\<rparr>"

definition encode_inode :: "sfs_inode \<Rightarrow> byte list" where
  "encode_inode i = put32 (sfi_size i) @ put16 (sfi_type i) @ put16 (sfi_linkcount i) @
     put32s (sfi_direct i) @ put32 (sfi_indirect i) @ sfi_waste i"

definition decode_inode :: "byte list \<Rightarrow> sfs_inode" where
  "decode_inode bs = \<lparr>sfi_size = be (slice bs 0 4), sfi_type = be (slice bs 4 2),
     sfi_linkcount = be (slice bs 6 2), sfi_direct = map (get32 (drop 8 bs)) [0..<SFS_NDIRECT],
     sfi_indirect = be (slice bs 68 4), sfi_waste = drop 72 bs\<rparr>"

definition encode_dir :: "sfs_dir \<Rightarrow> byte list" where
  "encode_dir sd = put32 (sfd_ino sd) @ sfd_name sd"

definition decode_dir :: "byte list \<Rightarrow> sfs_dir" where
  "decode_dir bs = \<lparr>sfd_ino = be (slice bs 0 4), sfd_name = drop 4 bs\<rparr>"

section \<open>In-memory state\<close>

text \<open>Which of the two function tables a vnode uses.\<close>

datatype vnode_ops = sfs_fileops | sfs_dirops

record sfs_vnode =
  sv_i :: sfs_inode
  sv_ino :: nat
  sv_dirty :: bool
  vn_refcount :: int
  vn_opencount :: int
  vn_ops :: vnode_ops

datatype sfs_lock = SvLock nat | CountLock nat | VnLock | BitLock

record sfs_fs =
  super :: sfs_super
  sfs_superdirty :: bool
  sfs_device :: lhd
  sfs_vnodes :: "nat karray"
  sfs_freemap :: bitmap
  sfs_freemapdirty :: bool
  sfs_heap :: "nat \<Rightarrow> sfs_vnode option"
  sfs_fresh :: nat
  sfs_held :: "sfs_lock set"
  sfs_mem :: kmem

abbreviation nblocks :: "sfs_fs \<Rightarrow> nat" where
  "nblocks s \<equiv> sp_nblocks (super s)"

definition lock_acquire :: "sfs_lock \<Rightarrow> sfs_fs \<Rightarrow> sfs_fs option" where
  "lock_acquire l s = do {
     kassert (l \<notin> sfs_held s);
     Some (s\<lparr>sfs_held := insert l (sfs_held s)\<rparr>)
   }"

definition lock_release :: "sfs_lock \<Rightarrow> sfs_fs \<Rightarrow> sfs_fs option" where
  "lock_release l s = do {
     kassert (l \<in> sfs_held s);
     Some (s\<lparr>sfs_held := sfs_held s - {l}\<rparr>)
   }"

text \<open>Reading and writing through a vnode pointer.\<close>

definition sv_get :: "nat \<Rightarrow> sfs_fs \<Rightarrow> sfs_vnode option" where
  "sv_get v s = sfs_heap s v"

definition sv_put :: "nat \<Rightarrow> sfs_vnode \<Rightarrow> sfs_fs \<Rightarrow> sfs_fs" where
  "sv_put v sv s = s\<lparr>sfs_heap := (sfs_heap s)(v \<mapsto> sv)\<rparr>"

text \<open>Block reads and writes of the mounted device.\<close>

definition rblock :: "nat \<Rightarrow> sfs_fs \<Rightarrow> (byte list res \<times> sfs_fs) option" where
  "rblock b s = do {
     (r, d) \<leftarrow> sfs_rblock b (sfs_device s);
     Some (r, s\<lparr>sfs_device := d\<rparr>)
   }"

definition wblock :: "byte list \<Rightarrow> nat \<Rightarrow> sfs_fs \<Rightarrow> (unit res \<times> sfs_fs) option" where
  "wblock bs b s = do {
     (r, d) \<leftarrow> sfs_wblock bs b (sfs_device s);
     Some (r, s\<lparr>sfs_device := d\<rparr>)
   }"

definition sfs_kmalloc :: "sfs_fs \<Rightarrow> bool \<times> sfs_fs" where
  "sfs_kmalloc s = (case kmalloc (sfs_mem s) of (ok, m) \<Rightarrow> (ok, s\<lparr>sfs_mem := m\<rparr>))"

section \<open>Simple operations and space allocation\<close>

definition sfs_clearblock :: "nat \<Rightarrow> sfs_fs \<Rightarrow> (unit res \<times> sfs_fs) option" where
  "sfs_clearblock block s = wblock (replicate SFS_BLOCKSIZE 0) block s"

definition sfs_sync_inode :: "nat \<Rightarrow> sfs_fs \<Rightarrow> (unit res \<times> sfs_fs) option" where
  "sfs_sync_inode v s = do {
     sv \<leftarrow> sv_get v s;
     kassert (SvLock v \<in> sfs_held s);
     if sv_dirty sv then do {
       (r, s) \<leftarrow> wblock (encode_inode (sv_i sv)) (sv_ino sv) s;
       case r of
         Inl e \<Rightarrow> Some (Inl e, s)
       | Inr _ \<Rightarrow> Some (Inr (), sv_put v (sv\<lparr>sv_dirty := False\<rparr>) s)
     }
     else Some (Inr (), s)
   }"

definition sfs_balloc :: "sfs_fs \<Rightarrow> (nat res \<times> sfs_fs) option" where
  "sfs_balloc s = do {
     s \<leftarrow> lock_acquire BitLock s;
     (r, bm) \<leftarrow> bitmap_alloc (sfs_freemap s);
     case r of
       Inl e \<Rightarrow> do { s \<leftarrow> lock_release BitLock s; Some (Inl e, s) }
     | Inr diskblock \<Rightarrow> do {
         let s = s\<lparr>sfs_freemap := bm, sfs_freemapdirty := True\<rparr>;
         s \<leftarrow> lock_release BitLock s;
         kassert (diskblock < nblocks s);
         (r, s) \<leftarrow> sfs_clearblock diskblock s;
         case r of
           Inl e \<Rightarrow> Some (Inl e, s)
         | Inr _ \<Rightarrow> Some (Inr diskblock, s)
       }
   }"

definition sfs_bfree :: "nat \<Rightarrow> sfs_fs \<Rightarrow> sfs_fs option" where
  "sfs_bfree diskblock s = do {
     s \<leftarrow> lock_acquire BitLock s;
     bm \<leftarrow> bitmap_unmark (sfs_freemap s) diskblock;
     let s = s\<lparr>sfs_freemap := bm, sfs_freemapdirty := True\<rparr>;
     lock_release BitLock s
   }"

definition sfs_bused :: "nat \<Rightarrow> sfs_fs \<Rightarrow> (bool \<times> sfs_fs) option" where
  "sfs_bused diskblock s = do {
     kassert (diskblock < nblocks s);
     s \<leftarrow> lock_acquire BitLock s;
     ret \<leftarrow> bitmap_isset (sfs_freemap s) diskblock;
     s \<leftarrow> lock_release BitLock s;
     Some (ret, s)
   }"

text \<open>\<^verbatim>\<open>if (block != 0 && !sfs_bused(sfs, block)) panic(...)\<close>\<close>

definition check_used :: "nat \<Rightarrow> sfs_fs \<Rightarrow> sfs_fs option" where
  "check_used block s =
     (if block \<noteq> 0 then do {
        (used, s) \<leftarrow> sfs_bused block s;
        kassert used;
        Some s
      }
      else Some s)"

section \<open>Block mapping\<close>

text \<open>The first half of \<^verbatim>\<open>sfs_bmap\<close>: a block that the inode lists itself.\<close>

definition sfs_bmap_direct :: "nat \<Rightarrow> nat \<Rightarrow> bool \<Rightarrow> sfs_fs \<Rightarrow> (nat res \<times> sfs_fs) option" where
  "sfs_bmap_direct v fileblock doalloc s = do {
     sv \<leftarrow> sv_get v s;
     let block = sfi_direct (sv_i sv) ! fileblock;
     (r, s) \<leftarrow> (if block = 0 \<and> doalloc then do {
         (r, s) \<leftarrow> sfs_balloc s;
         case r of
           Inl e \<Rightarrow> Some (Inl e, s)
         | Inr block \<Rightarrow> do {
             sv \<leftarrow> sv_get v s;
             let i = sv_i sv;
             Some (Inr block, sv_put v (sv\<lparr>sv_i := i\<lparr>sfi_direct := (sfi_direct i)[fileblock := block]\<rparr>,
                                           sv_dirty := True\<rparr>) s)
           }
       } else Some (Inr block, s));
     case r of
       Inl e \<Rightarrow> Some (Inl e, s)
     | Inr block \<Rightarrow> do {
         s \<leftarrow> check_used block s;
         Some (Inr block, s)
       }
   }"

text \<open>The second half: the block is listed in the indirect block. \<open>idbuf\<close> is the buffer.\<close>

definition sfs_bmap_idblock :: "nat \<Rightarrow> nat \<Rightarrow> sfs_fs \<Rightarrow> ((nat \<times> byte list) res \<times> sfs_fs) option" where
  "sfs_bmap_idblock v idblock s =
     (if idblock = 0 then do {
        (r, s) \<leftarrow> sfs_balloc s;
        case r of
          Inl e \<Rightarrow> Some (Inl e, s)
        | Inr idblock \<Rightarrow> do {
            sv \<leftarrow> sv_get v s;
            let s = sv_put v (sv\<lparr>sv_i := (sv_i sv)\<lparr>sfi_indirect := idblock\<rparr>, sv_dirty := True\<rparr>) s;
            Some (Inr (idblock, replicate SFS_BLOCKSIZE 0), s)
          }
      }
      else do {
        (r, s) \<leftarrow> rblock idblock s;
        case r of
          Inl e \<Rightarrow> Some (Inl e, s)
        | Inr idbuf \<Rightarrow> Some (Inr (idblock, idbuf), s)
      })"

definition sfs_bmap_indirect :: "nat \<Rightarrow> nat \<Rightarrow> bool \<Rightarrow> sfs_fs \<Rightarrow> (nat res \<times> sfs_fs) option" where
  "sfs_bmap_indirect v fileblock doalloc s =
     (let idnum = fileblock div SFS_DBPERIDB; idoff = fileblock mod SFS_DBPERIDB in
      if idnum > 0 then Some (Inl EINVAL, s)
      else do {
        sv \<leftarrow> sv_get v s;
        let idblock = sfi_indirect (sv_i sv);
        case sfs_kmalloc s of (ok, s) \<Rightarrow>
          if \<not> ok then Some (Inl ENOMEM, s)
          else if idblock = 0 \<and> \<not> doalloc then Some (Inr 0, s)
          else do {
            (r, s) \<leftarrow> sfs_bmap_idblock v idblock s;
            case r of
              Inl e \<Rightarrow> Some (Inl e, s)
            | Inr (idblock, idbuf) \<Rightarrow> do {
                let block = get32 idbuf idoff;
                (r, s) \<leftarrow> (if block = 0 \<and> doalloc then do {
                    (r, s) \<leftarrow> sfs_balloc s;
                    case r of
                      Inl e \<Rightarrow> Some (Inl e, s)
                    | Inr block \<Rightarrow> do {
                        let idbuf = blit idbuf (4 * idoff) (put32 block);
                        (r, s) \<leftarrow> wblock idbuf idblock s;
                        case r of
                          Inl e \<Rightarrow> Some (Inl e, s)
                        | Inr _ \<Rightarrow> Some (Inr block, s)
                      }
                  } else Some (Inr block, s));
                case r of
                  Inl e \<Rightarrow> Some (Inl e, s)
                | Inr block \<Rightarrow> do {
                    s \<leftarrow> check_used block s;
                    Some (Inr block, s)
                  }
              }
          }
      })"

definition sfs_bmap :: "nat \<Rightarrow> nat \<Rightarrow> bool \<Rightarrow> sfs_fs \<Rightarrow> (nat res \<times> sfs_fs) option" where
  "sfs_bmap v fileblock doalloc s = do {
     kassert (SvLock v \<in> sfs_held s);
     if fileblock < SFS_NDIRECT then sfs_bmap_direct v fileblock doalloc s
     else sfs_bmap_indirect v (fileblock - SFS_NDIRECT) doalloc s
   }"

section \<open>The encodings\<close>

definition inode_wf :: "sfs_inode \<Rightarrow> bool" where
  "inode_wf i \<longleftrightarrow> sfi_size i < 2 ^ 32 \<and> sfi_type i < 2 ^ 16 \<and> sfi_linkcount i < 2 ^ 16 \<and>
     length (sfi_direct i) = SFS_NDIRECT \<and> (\<forall>b \<in> set (sfi_direct i). b < 2 ^ 32) \<and>
     sfi_indirect i < 2 ^ 32 \<and> length (sfi_waste i) = 440"

definition dir_wf :: "sfs_dir \<Rightarrow> bool" where
  "dir_wf sd \<longleftrightarrow> sfd_ino sd < 2 ^ 32 \<and> length (sfd_name sd) = SFS_NAMELEN"

lemma slice_append_left: "i + n \<le> length xs \<Longrightarrow> slice (xs @ ys) i n = slice xs i n"
  by (simp add: slice_def)

lemma slice_append_right: "length xs \<le> i \<Longrightarrow> slice (xs @ ys) i n = slice ys (i - length xs) n"
  by (simp add: slice_def)

lemma slice_put [simp]: "slice (put32 n) 0 4 = put32 n" "slice (put16 n) 0 2 = put16 n"
  by (simp_all add: slice_def)

lemmas slice_append_simps = slice_append_left slice_append_right

lemma length_encode [simp]:
  "inode_wf i \<Longrightarrow> length (encode_inode i) = 512" "dir_wf sd \<Longrightarrow> length (encode_dir sd) = 64"
  by (simp_all add: encode_inode_def encode_dir_def inode_wf_def dir_wf_def)

lemma get32_direct: "inode_wf i \<Longrightarrow> map (get32 (put32s (sfi_direct i) @ r)) [0..<15] = sfi_direct i"
  by (rule nth_equalityI) (auto simp: inode_wf_def get32_put32s)

lemma decode_dir_encode: "dir_wf sd \<Longrightarrow> decode_dir (encode_dir sd) = sd"
  by (simp add: decode_dir_def encode_dir_def dir_wf_def slice_append_simps)

lemma decode_inode_encode:
  assumes "inode_wf i"
  shows "decode_inode (encode_inode i) = i"
proof -
  let ?r = "put32 (sfi_indirect i) @ sfi_waste i"
  have "drop 8 (encode_inode i) = put32s (sfi_direct i) @ ?r" by (simp add: encode_inode_def)
  then have "map (get32 (drop 8 (encode_inode i))) [0..<15] = sfi_direct i" using get32_direct [OF assms] by simp
  moreover have "slice (encode_inode i) 0 4 = put32 (sfi_size i)" "slice (encode_inode i) 4 2 = put16 (sfi_type i)"
    "slice (encode_inode i) 6 2 = put16 (sfi_linkcount i)" "slice (encode_inode i) 68 4 = put32 (sfi_indirect i)"
    "drop 72 (encode_inode i) = sfi_waste i"
    using assms by (simp_all add: encode_inode_def slice_append_simps inode_wf_def)
  ultimately show ?thesis using assms by (simp add: decode_inode_def inode_wf_def)
qed

end
