(* ===== verification/K_Sfs_Map.thy ===== *)
theory K_Sfs_Map
  imports K_Sfs
begin

text \<open>
  The block map of a file as a function, and what \<^verbatim>\<open>sfs_balloc\<close>, \<^verbatim>\<open>sfs_bfree\<close>, \<^verbatim>\<open>sfs_bused\<close> and
  \<^verbatim>\<open>sfs_bmap\<close> do to it: \<open>fblock\<close> gives the disk block of each block of a file, \<open>inode_ok\<close> says that
  the blocks of a file are allocated and pairwise different, and \<open>io_frame\<close> is the relation
  between the states before and after I/O on one vnode.
\<close>

section \<open>Well-formed file systems\<close>

abbreviation used :: "sfs_fs \<Rightarrow> nat set" where
  "used s \<equiv> bitmap_set (sfs_freemap s)"

abbreviation sector :: "sfs_fs \<Rightarrow> nat \<Rightarrow> byte list" where
  "sector s \<equiv> sectors (sfs_device s)"

text \<open>The superblock and the bits past the end of the volume are marked; the volume fits on the disk.\<close>

definition fs_wf :: "sfs_fs \<Rightarrow> bool" where
  "fs_wf s \<longleftrightarrow> disk_wf (sfs_device s) \<and> nblocks s \<le> d_blocks (sfs_device s) \<and>
     bitmap_inv (sfs_freemap s) \<and> nblocks s \<le> nbits (sfs_freemap s) \<and>
     {nblocks s..<nbits (sfs_freemap s)} \<subseteq> used s \<and> 0 \<in> used s"

text \<open>No pending disk errors, no memory shortage, and the bitmap lock is free.\<close>

definition fs_quiet :: "sfs_fs \<Rightarrow> bool" where
  "fs_quiet s \<longleftrightarrow> fs_wf s \<and> lh_status (sfs_device s) = [] \<and> sfs_mem s = [] \<and> BitLock \<notin> sfs_held s"

lemma fs_quiet_disk: "fs_quiet s \<Longrightarrow> disk_quiet (sfs_device s)"
  by (simp add: fs_quiet_def fs_wf_def disk_quiet_def)

lemma lock_acquire_free [simp]:
  "l \<notin> sfs_held s \<Longrightarrow> lock_acquire l s = Some (s\<lparr>sfs_held := insert l (sfs_held s)\<rparr>)"
  by (simp add: lock_acquire_def)

lemma lock_release_held [simp]:
  "l \<in> sfs_held s \<Longrightarrow> lock_release l s = Some (s\<lparr>sfs_held := sfs_held s - {l}\<rparr>)"
  by (simp add: lock_release_def)

lemma sfs_held_restore: "l \<notin> sfs_held s \<Longrightarrow> s\<lparr>sfs_held := insert l (sfs_held s) - {l}\<rparr> = s"
  by (cases s) simp

lemma sfs_held_same: "s\<lparr>sfs_held := sfs_held s\<rparr> = s"
  by (cases s) simp

lemma sector_length: "fs_quiet s \<Longrightarrow> length (sector s b) = 512"
  by (simp add: fs_quiet_def fs_wf_def disk_wf_def)

lemma rblock_ok:
  assumes "fs_quiet s" and "b < nblocks s"
  shows "rblock b s = Some (Inr (sector s b), s)"
proof -
  have "b < d_blocks (sfs_device s)" using assms by (simp add: fs_quiet_def fs_wf_def)
  from sfs_rblock_ok [OF fs_quiet_disk [OF assms(1)] this] show ?thesis by (simp add: rblock_def)
qed

text \<open>A successful block write.\<close>

definition set_sector :: "nat \<Rightarrow> byte list \<Rightarrow> sfs_fs \<Rightarrow> sfs_fs" where
  "set_sector b bs s =
     s\<lparr>sfs_device := (sfs_device s)\<lparr>sectors := (sector s)(b := bs)\<rparr>\<rparr>"

lemma set_sector_simps [simp]:
  "super (set_sector b bs s) = super s" "sfs_vnodes (set_sector b bs s) = sfs_vnodes s"
  "sfs_freemap (set_sector b bs s) = sfs_freemap s" "sfs_heap (set_sector b bs s) = sfs_heap s"
  "sfs_fresh (set_sector b bs s) = sfs_fresh s" "sfs_held (set_sector b bs s) = sfs_held s"
  "sfs_mem (set_sector b bs s) = sfs_mem s" "sector (set_sector b bs s) = (sector s)(b := bs)"
  by (simp_all add: set_sector_def)

lemma fs_quiet_set_sector [simp]:
  "length bs = 512 \<Longrightarrow> fs_quiet s \<Longrightarrow> fs_quiet (set_sector b bs s)"
  by (simp add: fs_quiet_def fs_wf_def disk_wf_def set_sector_def)

lemma wblock_ok:
  assumes "fs_quiet s" and "b < nblocks s" and "length bs = 512"
  shows "wblock bs b s = Some (Inr (), set_sector b bs s)"
proof -
  have "b < d_blocks (sfs_device s)" using assms by (simp add: fs_quiet_def fs_wf_def)
  from sfs_wblock_ok [OF fs_quiet_disk [OF assms(1)] this assms(3)] show ?thesis
    by (simp add: wblock_def set_sector_def)
qed

lemma sv_put_simps [simp]:
  "super (sv_put v sv s) = super s" "sfs_vnodes (sv_put v sv s) = sfs_vnodes s"
  "sfs_freemap (sv_put v sv s) = sfs_freemap s" "sfs_heap (sv_put v sv s) = (sfs_heap s)(v \<mapsto> sv)"
  "sfs_fresh (sv_put v sv s) = sfs_fresh s" "sfs_held (sv_put v sv s) = sfs_held s"
  "sfs_mem (sv_put v sv s) = sfs_mem s" "sfs_device (sv_put v sv s) = sfs_device s"
  by (simp_all add: sv_put_def)

lemma fs_quiet_sv_put [simp]: "fs_quiet (sv_put v sv s) = fs_quiet s"
  by (simp add: fs_quiet_def fs_wf_def)

section \<open>Allocation\<close>

lemma used_bound: "fs_quiet s \<Longrightarrow> used s \<subseteq> {..<nbits (sfs_freemap s)}"
  by (rule kbm.taken_law) (simp add: fs_quiet_def fs_wf_def)

text \<open>The state after a successful allocation of block \<open>b\<close>.\<close>

definition allocated :: "nat \<Rightarrow> bitmap \<Rightarrow> sfs_fs \<Rightarrow> sfs_fs" where
  "allocated b bm s =
     set_sector b (replicate SFS_BLOCKSIZE 0) (s\<lparr>sfs_freemap := bm, sfs_freemapdirty := True\<rparr>)"

lemma allocated_simps [simp]:
  "super (allocated b bm s) = super s" "sfs_vnodes (allocated b bm s) = sfs_vnodes s"
  "sfs_freemap (allocated b bm s) = bm" "sfs_heap (allocated b bm s) = sfs_heap s"
  "sfs_fresh (allocated b bm s) = sfs_fresh s" "sfs_held (allocated b bm s) = sfs_held s"
  "sfs_mem (allocated b bm s) = sfs_mem s"
  "sector (allocated b bm s) = (sector s)(b := replicate SFS_BLOCKSIZE 0)"
  by (simp_all add: allocated_def set_sector_def)

lemma sfs_balloc_spec:
  assumes q: "fs_quiet s"
  shows "(used s = {..<nbits (sfs_freemap s)} \<and> sfs_balloc s = Some (Inl ENOSPC, s)) \<or>
    (\<exists>b bm. sfs_balloc s = Some (Inr b, allocated b bm s) \<and> fs_quiet (allocated b bm s) \<and>
       b < nblocks s \<and> b \<notin> used s \<and> 0 < b \<and> bitmap_set bm = insert b (used s))"
proof -
  let ?s = "s\<lparr>sfs_held := insert BitLock (sfs_held s)\<rparr>"
  have free: "BitLock \<notin> sfs_held s" and wf: "fs_wf s" using q by (auto simp: fs_quiet_def)
  have inv: "bitmap_inv (sfs_freemap s)" using wf by (simp add: fs_wf_def)
  from bitmap_alloc_cases [OF inv] show ?thesis
  proof (elim disjE exE conjE)
    assume "used s = {..<nbits (sfs_freemap s)}" "bitmap_alloc (sfs_freemap s) = Some (Inl ENOSPC, sfs_freemap s)"
    with free show ?thesis by (simp add: sfs_balloc_def sfs_held_same)
  next
    fix k bm assume bm: "bitmap_alloc (sfs_freemap s) = Some (Inr k, bm)" "k < nbits (sfs_freemap s)"
      "k \<notin> used s" "bitmap_inv bm" "nbits bm = nbits (sfs_freemap s)" "bitmap_set bm = insert k (used s)"
    have k: "k < nblocks s" "0 < k"
    proof -
      have "k \<notin> {nblocks s..<nbits (sfs_freemap s)}" using wf bm(3) unfolding fs_wf_def by blast
      with bm(2) show "k < nblocks s" by simp
      have "0 \<in> used s" using wf by (simp add: fs_wf_def)
      with bm(3) show "0 < k" by (cases "k = 0") simp_all
    qed
    let ?s2 = "s\<lparr>sfs_freemap := bm, sfs_freemapdirty := True\<rparr>"
    have q2: "fs_quiet ?s2" using q bm by (auto simp: fs_quiet_def fs_wf_def)
    have "?s\<lparr>sfs_freemap := bm, sfs_freemapdirty := True, sfs_held := sfs_held ?s - {BitLock}\<rparr> = ?s2"
      using free by (cases s) simp
    then have "sfs_balloc s = Some (Inr k, allocated k bm s)"
      using free bm(1) k wblock_ok [OF q2, of k "replicate 512 0"]
      by (simp add: sfs_balloc_def sfs_clearblock_def allocated_def)
    moreover have "fs_quiet (allocated k bm s)" using q2 by (simp add: allocated_def)
    ultimately show ?thesis using k bm by blast
  qed
qed

lemma sfs_bused_ok:
  assumes "fs_quiet s" and "b < nblocks s"
  shows "sfs_bused b s = Some (b \<in> used s, s)"
proof -
  have "bitmap_inv (sfs_freemap s)" "b < nbits (sfs_freemap s)" "BitLock \<notin> sfs_held s"
    using assms by (auto simp: fs_quiet_def fs_wf_def)
  with bitmap_isset_spec assms(2) show ?thesis by (simp add: sfs_bused_def sfs_held_same)
qed

lemma check_used_ok:
  "fs_quiet s \<Longrightarrow> b = 0 \<or> b < nblocks s \<and> b \<in> used s \<Longrightarrow> check_used b s = Some s"
  by (auto simp: check_used_def sfs_bused_ok)

lemma sfs_bfree_ok:
  assumes q: "fs_quiet s" and b: "b \<in> used s" "b < nblocks s" "b \<noteq> 0"
  shows "\<exists>bm. sfs_bfree b s = Some (s\<lparr>sfs_freemap := bm, sfs_freemapdirty := True\<rparr>) \<and>
    bitmap_set bm = used s - {b} \<and> fs_quiet (s\<lparr>sfs_freemap := bm, sfs_freemapdirty := True\<rparr>)"
proof -
  have inv: "bitmap_inv (sfs_freemap s)" and free: "BitLock \<notin> sfs_held s"
    using q by (auto simp: fs_quiet_def fs_wf_def)
  obtain bm where bm: "bitmap_unmark (sfs_freemap s) b = Some bm" "bitmap_inv bm"
    "nbits bm = nbits (sfs_freemap s)" "bitmap_set bm = used s - {b}"
    using kbm.free_law [OF inv b(1)] by blast
  have "s\<lparr>sfs_held := sfs_held s, sfs_freemap := bm, sfs_freemapdirty := True\<rparr> =
      s\<lparr>sfs_freemap := bm, sfs_freemapdirty := True\<rparr>" by (cases s) simp
  then have "sfs_bfree b s = Some (s\<lparr>sfs_freemap := bm, sfs_freemapdirty := True\<rparr>)"
    using free bm(1) by (simp add: sfs_bfree_def)
  moreover have "fs_quiet (s\<lparr>sfs_freemap := bm, sfs_freemapdirty := True\<rparr>)"
    using q bm b by (auto simp: fs_quiet_def fs_wf_def subset_iff)
  ultimately show ?thesis using bm(4) by blast
qed

section \<open>The blocks and the bytes of a file\<close>

abbreviation (input) SFS_MAXBLOCKS :: nat where "SFS_MAXBLOCKS \<equiv> 143"

definition fblock :: "sfs_fs \<Rightarrow> sfs_inode \<Rightarrow> nat \<Rightarrow> nat" where
  "fblock s i n =
     (if n < SFS_NDIRECT then sfi_direct i ! n
      else if n < SFS_MAXBLOCKS \<and> sfi_indirect i \<noteq> 0 then get32 (sector s (sfi_indirect i)) (n - SFS_NDIRECT)
      else 0)"

definition inode_ok :: "sfs_fs \<Rightarrow> sfs_inode \<Rightarrow> bool" where
  "inode_ok s i \<longleftrightarrow> length (sfi_direct i) = SFS_NDIRECT \<and>
     (sfi_indirect i \<noteq> 0 \<longrightarrow> sfi_indirect i < nblocks s \<and> sfi_indirect i \<in> used s) \<and>
     (\<forall>n. fblock s i n \<noteq> 0 \<longrightarrow>
        fblock s i n < nblocks s \<and> fblock s i n \<in> used s \<and> fblock s i n \<noteq> sfi_indirect i) \<and>
     (\<forall>m n. fblock s i m = fblock s i n \<longrightarrow> fblock s i n \<noteq> 0 \<longrightarrow> m = n)"

definition blocks_of :: "sfs_fs \<Rightarrow> sfs_inode \<Rightarrow> nat set" where
  "blocks_of s i = {b. b \<noteq> 0 \<and> (b = sfi_indirect i \<or> (\<exists>n. b = fblock s i n))}"

text \<open>Byte \<open>p\<close> of a file: a hole reads as zero.\<close>

definition fbyte :: "sfs_fs \<Rightarrow> sfs_inode \<Rightarrow> nat \<Rightarrow> byte" where
  "fbyte s i p = (let b = fblock s i (p div SFS_BLOCKSIZE) in
     if b = 0 then 0 else sector s b ! (p mod SFS_BLOCKSIZE))"

lemma inode_okD:
  assumes "inode_ok s i"
  shows "length (sfi_direct i) = 15"
    and "sfi_indirect i \<noteq> 0 \<Longrightarrow> sfi_indirect i < nblocks s \<and> sfi_indirect i \<in> used s"
    and "fblock s i n \<noteq> 0 \<Longrightarrow> fblock s i n < nblocks s \<and> fblock s i n \<in> used s \<and> fblock s i n \<noteq> sfi_indirect i"
    and "fblock s i m = fblock s i n \<Longrightarrow> fblock s i n \<noteq> 0 \<Longrightarrow> m = n"
  using assms unfolding inode_ok_def by blast+

lemma fblock_blocks_of: "fblock s i n \<noteq> 0 \<Longrightarrow> fblock s i n \<in> blocks_of s i"
  by (auto simp: blocks_of_def)

lemma blocks_of_used: "inode_ok s i \<Longrightarrow> blocks_of s i \<subseteq> used s"
  by (auto simp: blocks_of_def dest: inode_okD(2,3))

text \<open>The block map depends on the sector of the indirect block only.\<close>

lemma fblock_cong:
  "sfi_direct i' = sfi_direct i \<Longrightarrow> sfi_indirect i' = sfi_indirect i \<Longrightarrow>
   (sfi_indirect i \<noteq> 0 \<Longrightarrow> sector s' (sfi_indirect i) = sector s (sfi_indirect i)) \<Longrightarrow>
   fblock s' i' n = fblock s i n"
  by (simp add: fblock_def)

lemma inode_ok_mono:
  assumes ok: "inode_ok s i" and map: "fblock s' i = fblock s i"
    and s': "nblocks s' = nblocks s" "used s \<subseteq> used s'"
  shows "inode_ok s' i"
  unfolding inode_ok_def map s'(1) using inode_okD [OF ok] s'(2) by blast

text \<open>A fresh, cleared block that becomes block \<open>n\<close> of the file.\<close>

lemma inode_add_block:
  assumes ok: "inode_ok s i" and n: "fblock s i n = 0"
    and b: "b \<noteq> 0" "b < nblocks s" "b \<notin> used s"
    and s': "nblocks s' = nblocks s" "used s' = insert b (used s)" "sector s' b = replicate SFS_BLOCKSIZE 0"
      "\<And>c. c \<noteq> b \<Longrightarrow> c \<noteq> sfi_indirect i \<Longrightarrow> sector s' c = sector s c"
    and i': "length (sfi_direct i') = SFS_NDIRECT" "sfi_indirect i' = sfi_indirect i"
    and map: "\<And>m. fblock s' i' m = (if m = n then b else fblock s i m)"
  shows "inode_ok s' i'" and "fbyte s' i' = fbyte s i" and "blocks_of s' i' \<subseteq> insert b (blocks_of s i)"
proof -
  note D = inode_okD [OF ok]
  have nb: "fblock s i m \<noteq> b" if "fblock s i m \<noteq> 0" for m using D(3) [OF that] b(3) by auto
  have "sfi_indirect i \<noteq> b" using D(2) b by auto
  show "inode_ok s' i'"
    unfolding inode_ok_def
  proof (intro conjI allI impI)
    show "length (sfi_direct i') = 15" by (rule i'(1))
    assume "sfi_indirect i' \<noteq> 0"
    then show "sfi_indirect i' < nblocks s'" "sfi_indirect i' \<in> used s'" using D(2) i'(2) s'(1,2) by auto
  next
    fix m assume "fblock s' i' m \<noteq> 0"
    then show "fblock s' i' m < nblocks s'" "fblock s' i' m \<in> used s'" "fblock s' i' m \<noteq> sfi_indirect i'"
      using D(3) [of m] b \<open>sfi_indirect i \<noteq> b\<close> i'(2) s'(1,2) by (auto simp: map split: if_splits)
  next
    fix m k assume "fblock s' i' m = fblock s' i' k" "fblock s' i' k \<noteq> 0"
    then show "m = k" using D(4) [of m k] nb [of m] nb [of k] b(1) by (auto simp: map split: if_splits)
  qed
  show "fbyte s' i' = fbyte s i"
  proof
    fix p
    show "fbyte s' i' p = fbyte s i p"
      using s'(3,4) n nb [of "p div 512"] D(3) [of "p div 512"] by (auto simp: fbyte_def Let_def map)
  qed
  show "blocks_of s' i' \<subseteq> insert b (blocks_of s i)"
    by (auto simp: blocks_of_def map i'(2) split: if_splits)
qed

text \<open>A fresh, cleared block that becomes the indirect block.\<close>

lemma get32_zeros: "get32 (replicate n 0) i = 0"
proof -
  have "be (replicate m 0) = 0" for m by (induction m) simp_all
  moreover have "slice (replicate n (0::byte)) (4 * i) 4 = replicate (min 4 (n - 4 * i)) 0"
    by (simp add: slice_def min_def)
  ultimately show ?thesis by (simp add: get32_def)
qed

lemma inode_add_indirect:
  assumes ok: "inode_ok s i" and none: "sfi_indirect i = 0"
    and b: "b \<noteq> 0" "b < nblocks s" "b \<notin> used s"
    and s': "nblocks s' = nblocks s" "used s' = insert b (used s)" "sector s' b = replicate SFS_BLOCKSIZE 0"
      "\<And>c. c \<noteq> b \<Longrightarrow> sector s' c = sector s c"
    and i': "sfi_direct i' = sfi_direct i" "sfi_indirect i' = b"
  shows "inode_ok s' i'" and "fblock s' i' = fblock s i" and "fbyte s' i' = fbyte s i"
    and "blocks_of s' i' \<subseteq> insert b (blocks_of s i)"
proof -
  note D = inode_okD [OF ok]
  show map: "fblock s' i' = fblock s i"
    using i' none s'(3) by (auto simp: fblock_def get32_zeros)
  have nb: "fblock s i m \<noteq> b" if "fblock s i m \<noteq> 0" for m using D(3) [OF that] b(3) by auto
  show "inode_ok s' i'"
    unfolding inode_ok_def map i' s'(1,2) using b D nb by auto
  show "fbyte s' i' = fbyte s i"
  proof
    fix p
    show "fbyte s' i' p = fbyte s i p"
      using s'(4) nb [of "p div 512"] by (auto simp: fbyte_def Let_def map)
  qed
  show "blocks_of s' i' \<subseteq> insert b (blocks_of s i)"
    by (auto simp: blocks_of_def map i')
qed

text \<open>Overwriting block \<open>n\<close> of a file.\<close>

lemma inode_write_block:
  assumes ok: "inode_ok s i" and b: "fblock s i n = b" "b \<noteq> 0" and bs: "length bs = SFS_BLOCKSIZE"
  shows "inode_ok (set_sector b bs s) i" and "fblock (set_sector b bs s) i = fblock s i"
    and "fbyte (set_sector b bs s) i p =
      (if p div SFS_BLOCKSIZE = n then bs ! (p mod SFS_BLOCKSIZE) else fbyte s i p)"
proof -
  note D = inode_okD [OF ok]
  have "b \<noteq> sfi_indirect i" using D(3) [of n] b by auto
  then show map: "fblock (set_sector b bs s) i = fblock s i"
    by (intro ext fblock_cong) auto
  show "inode_ok (set_sector b bs s) i" using ok by (simp add: inode_ok_def map)
  show "fbyte (set_sector b bs s) i p =
      (if p div SFS_BLOCKSIZE = n then bs ! (p mod SFS_BLOCKSIZE) else fbyte s i p)"
  proof (cases "p div 512 = n")
    case False
    then have "fblock s i (p div 512) \<noteq> b" using b D(4) by blast
    with False show ?thesis by (simp add: fbyte_def Let_def map)
  qed (use b in \<open>simp add: fbyte_def Let_def map\<close>)
qed

section \<open>The frame of I/O on one vnode\<close>

text \<open>The fields of a vnode that I/O does not change.\<close>

definition sv_erase :: "sfs_vnode \<Rightarrow> sfs_vnode" where
  "sv_erase sv = sv\<lparr>sv_dirty := False,
     sv_i := (sv_i sv)\<lparr>sfi_size := 0, sfi_direct := [], sfi_indirect := 0\<rparr>\<rparr>"

definition vinode :: "sfs_fs \<Rightarrow> nat \<Rightarrow> sfs_inode" where
  "vinode s v = sv_i (the (sfs_heap s v))"

definition io_frame :: "nat \<Rightarrow> sfs_fs \<Rightarrow> sfs_fs \<Rightarrow> bool" where
  "io_frame v s s' \<longleftrightarrow> fs_quiet s' \<and> super s' = super s \<and> sfs_held s' = sfs_held s \<and>
     sfs_vnodes s' = sfs_vnodes s \<and> sfs_fresh s' = sfs_fresh s \<and> used s \<subseteq> used s' \<and>
     (\<forall>w. w \<noteq> v \<longrightarrow> sfs_heap s' w = sfs_heap s w) \<and> sfs_heap s v \<noteq> None \<and>
     map_option sv_erase (sfs_heap s' v) = map_option sv_erase (sfs_heap s v) \<and>
     inode_ok s' (vinode s' v) \<and>
     blocks_of s' (vinode s' v) \<subseteq> blocks_of s (vinode s v) \<union> (used s' - used s) \<and>
     (\<forall>c \<in> used s. c \<notin> blocks_of s (vinode s v) \<longrightarrow> sector s' c = sector s c)"

lemma io_frame_refl:
  "fs_quiet s \<Longrightarrow> sfs_heap s v = Some sv \<Longrightarrow> inode_ok s (sv_i sv) \<Longrightarrow> io_frame v s s"
  by (auto simp: io_frame_def vinode_def)

lemma io_frame_trans:
  assumes 1: "io_frame v s1 s2" and 2: "io_frame v s2 s3"
  shows "io_frame v s1 s3"
proof -
  have sub: "used s1 \<subseteq> used s2" "used s2 \<subseteq> used s3"
    and bl: "blocks_of s2 (vinode s2 v) \<subseteq> blocks_of s1 (vinode s1 v) \<union> (used s2 - used s1)"
      "blocks_of s3 (vinode s3 v) \<subseteq> blocks_of s2 (vinode s2 v) \<union> (used s3 - used s2)"
    and sec: "\<And>c. c \<in> used s1 \<Longrightarrow> c \<notin> blocks_of s1 (vinode s1 v) \<Longrightarrow> sector s2 c = sector s1 c"
      "\<And>c. c \<in> used s2 \<Longrightarrow> c \<notin> blocks_of s2 (vinode s2 v) \<Longrightarrow> sector s3 c = sector s2 c"
    using 1 2 unfolding io_frame_def by blast+
  have "blocks_of s3 (vinode s3 v) \<subseteq> blocks_of s1 (vinode s1 v) \<union> (used s3 - used s1)"
    using sub bl by blast
  moreover have "sector s3 c = sector s1 c" if c: "c \<in> used s1" "c \<notin> blocks_of s1 (vinode s1 v)" for c
  proof -
    have "c \<in> used s2" "c \<notin> blocks_of s2 (vinode s2 v)" using c sub bl by blast+
    with sec c show ?thesis by simp
  qed
  moreover have "used s1 \<subseteq> used s3" using sub by blast
  ultimately show ?thesis using 1 2 unfolding io_frame_def by simp
qed

lemma io_frame_vnode:
  assumes "io_frame v s s'"
  obtains sv' where "sfs_heap s' v = Some sv'" "inode_ok s' (sv_i sv')" "vinode s' v = sv_i sv'"
proof -
  from assms have "sfs_heap s' v \<noteq> None" "inode_ok s' (vinode s' v)" unfolding io_frame_def by auto
  then obtain sv' where "sfs_heap s' v = Some sv'" by blast
  with that \<open>inode_ok s' (vinode s' v)\<close> show thesis by (simp add: vinode_def)
qed

lemma io_frame_quiet: "io_frame v s s' \<Longrightarrow> fs_quiet s'"
  by (simp add: io_frame_def)

lemma io_frame_held: "io_frame v s s' \<Longrightarrow> sfs_held s' = sfs_held s"
  by (simp add: io_frame_def)

text \<open>The bytes of another file, whose blocks are allocated and disjoint, do not change.\<close>

lemma io_frame_other:
  assumes fr: "io_frame v s s'" and ok: "inode_ok s i" and disj: "blocks_of s i \<inter> blocks_of s (vinode s v) = {}"
  shows "fbyte s' i = fbyte s i" and "inode_ok s' i" and "blocks_of s' i = blocks_of s i"
proof -
  note D = inode_okD [OF ok]
  have sec: "sector s' c = sector s c" if "c \<in> blocks_of s i" for c
  proof -
    have "c \<in> used s" using blocks_of_used [OF ok] that by blast
    moreover have "c \<notin> blocks_of s (vinode s v)" using disj that by blast
    ultimately show ?thesis using fr unfolding io_frame_def by blast
  qed
  have map: "fblock s' i = fblock s i"
  proof
    fix n show "fblock s' i n = fblock s i n"
      by (rule fblock_cong) (auto simp: blocks_of_def intro: sec)
  qed
  show "fbyte s' i = fbyte s i"
  proof
    fix p
    show "fbyte s' i p = fbyte s i p"
      using sec [OF fblock_blocks_of, of "p div 512"] by (simp add: fbyte_def Let_def map)
  qed
  from fr have "nblocks s' = nblocks s" "used s \<subseteq> used s'" by (simp_all add: io_frame_def)
  then show "inode_ok s' i" by (rule inode_ok_mono [OF ok map])
  show "blocks_of s' i = blocks_of s i" by (simp add: blocks_of_def map)
qed

section \<open>Looking up and allocating blocks of a file\<close>

lemma sfs_kmalloc_quiet: "fs_quiet s \<Longrightarrow> sfs_kmalloc s = (True, s)"
  by (cases s) (simp add: sfs_kmalloc_def fs_quiet_def)

lemma check_block:
  assumes "fs_quiet s" and "inode_ok s i"
  shows "check_used (fblock s i n) s = Some s"
  using assms inode_okD(3) [OF assms(2), of n] by (auto intro!: check_used_ok)

lemma sfs_bmap_lookup:
  assumes q: "fs_quiet s" and sv: "sfs_heap s v = Some sv" and ok: "inode_ok s (sv_i sv)"
    and held: "SvLock v \<in> sfs_held s"
  shows "sfs_bmap v n False s =
    (if n < SFS_MAXBLOCKS then Some (Inr (fblock s (sv_i sv) n), s) else Some (Inl EINVAL, s))"
proof (cases "n < 15")
  case True
  with check_block [OF q ok, of n] sv held show ?thesis
    by (simp add: sfs_bmap_def sfs_bmap_direct_def sv_get_def fblock_def)
next
  case False
  then have div: "(n - 15) div 128 > 0 \<longleftrightarrow> \<not> n < 143" by auto
  show ?thesis
  proof (cases "n < 143")
    case True
    show ?thesis
    proof (cases "sfi_indirect (sv_i sv) = 0")
      case True
      with False \<open>n < 143\<close> held sv q div show ?thesis
        by (simp add: sfs_bmap_def sfs_bmap_indirect_def sv_get_def sfs_kmalloc_quiet fblock_def)
    next
      case ind: False
      then have rb: "rblock (sfi_indirect (sv_i sv)) s = Some (Inr (sector s (sfi_indirect (sv_i sv))), s)"
        using rblock_ok [OF q] inode_okD(2) [OF ok] by simp
      have mod: "(n - 15) mod 128 = n - 15" using \<open>n < 143\<close> False by simp
      have f: "get32 (sector s (sfi_indirect (sv_i sv))) (n - 15) = fblock s (sv_i sv) n"
        using False \<open>n < 143\<close> ind by (simp add: fblock_def)
      from False \<open>n < 143\<close> held sv q div ind rb check_block [OF q ok, of n] show ?thesis
        by (simp add: sfs_bmap_def sfs_bmap_indirect_def sfs_bmap_idblock_def sv_get_def
            sfs_kmalloc_quiet Let_def mod f)
    qed
  next
    case False
    with \<open>\<not> n < 15\<close> held div show ?thesis by (simp add: sfs_bmap_def sfs_bmap_indirect_def)
  qed
qed

text \<open>What an allocating lookup guarantees.\<close>

definition bmap_post :: "nat \<Rightarrow> nat \<Rightarrow> sfs_fs \<Rightarrow> nat res \<Rightarrow> sfs_fs \<Rightarrow> bool" where
  "bmap_post v n s r s' \<longleftrightarrow> io_frame v s s' \<and> sfi_size (vinode s' v) = sfi_size (vinode s v) \<and>
     fbyte s' (vinode s' v) = fbyte s (vinode s v) \<and>
     (case r of Inl e \<Rightarrow> e = ENOSPC | Inr b \<Rightarrow> b \<noteq> 0 \<and> fblock s' (vinode s' v) n = b)"

lemma bmap_post_same:
  assumes "fs_quiet s" "sfs_heap s v = Some sv" "inode_ok s (sv_i sv)"
    and "case r of Inl e \<Rightarrow> e = ENOSPC | Inr b \<Rightarrow> b \<noteq> 0 \<and> fblock s (sv_i sv) n = b"
  shows "bmap_post v n s r s"
  using io_frame_refl [OF assms(1-3)] assms(2,4) by (cases r) (simp_all add: bmap_post_def vinode_def)

lemma bmap_post_trans:
  assumes 1: "bmap_post v m s1 r1 s2" and 2: "bmap_post v n s2 r s3"
  shows "bmap_post v n s1 r s3"
  using assms io_frame_trans unfolding bmap_post_def by metis

text \<open>A fresh block entered in the inode or in the indirect block gives the guarantee.\<close>

lemma bmap_post_new:
  assumes q: "fs_quiet s'" and sv: "sfs_heap s v = Some sv" "sfs_heap s' = (sfs_heap s)(v \<mapsto> sv')"
    and same: "sv_erase sv' = sv_erase sv" "sfi_size (sv_i sv') = sfi_size (sv_i sv)"
    and s': "super s' = super s" "sfs_held s' = sfs_held s" "sfs_vnodes s' = sfs_vnodes s" "sfs_fresh s' = sfs_fresh s"
      "used s' = insert b (used s)" "\<And>c. c \<in> used s \<Longrightarrow> c \<notin> blocks_of s (sv_i sv) \<Longrightarrow> sector s' c = sector s c"
    and b: "b \<notin> used s"
    and ok: "inode_ok s' (sv_i sv')" "fbyte s' (sv_i sv') = fbyte s (sv_i sv)"
      "blocks_of s' (sv_i sv') \<subseteq> insert b (blocks_of s (sv_i sv))"
    and r: "case r of Inl e \<Rightarrow> e = ENOSPC | Inr k \<Rightarrow> k \<noteq> 0 \<and> fblock s' (sv_i sv') n = k"
  shows "bmap_post v n s r s'"
proof -
  have "vinode s v = sv_i sv" "vinode s' v = sv_i sv'" using sv by (simp_all add: vinode_def)
  moreover have "io_frame v s s'"
    unfolding io_frame_def using q sv same s' b ok calculation by auto
  ultimately show ?thesis using same ok(2) r by (cases r) (simp_all add: bmap_post_def)
qed

lemma fblock_update_direct:
  "n < 15 \<Longrightarrow> length (sfi_direct i) = 15 \<Longrightarrow> (sfi_indirect i \<noteq> 0 \<Longrightarrow> sector s' (sfi_indirect i) = sector s (sfi_indirect i)) \<Longrightarrow>
   fblock s' (i\<lparr>sfi_direct := (sfi_direct i)[n := b]\<rparr>) m = (if m = n then b else fblock s i m)"
  by (auto simp: fblock_def nth_list_update)

lemma sfs_bmap_direct_alloc:
  assumes q: "fs_quiet s" and sv: "sfs_heap s v = Some sv" and ok: "inode_ok s (sv_i sv)" and n: "n < 15"
  shows "\<exists>r s'. sfs_bmap_direct v n True s = Some (r, s') \<and> bmap_post v n s r s'"
proof (cases "sfi_direct (sv_i sv) ! n = 0")
  case False
  have f: "fblock s (sv_i sv) n = sfi_direct (sv_i sv) ! n" using n by (simp add: fblock_def)
  with False sv check_block [OF q ok, of n] bmap_post_same [OF q sv ok, of n "Inr (sfi_direct (sv_i sv) ! n)"]
  show ?thesis by (simp add: sfs_bmap_direct_def sv_get_def)
next
  case zero: True
  let ?i = "sv_i sv"
  from sfs_balloc_spec [OF q] show ?thesis
  proof (elim disjE exE conjE)
    assume "sfs_balloc s = Some (Inl ENOSPC, s)"
    with zero sv bmap_post_same [OF q sv ok, of n "Inl ENOSPC"] show ?thesis
      by (simp add: sfs_bmap_direct_def sv_get_def)
  next
    fix b bm
    assume al: "sfs_balloc s = Some (Inr b, allocated b bm s)" "fs_quiet (allocated b bm s)"
      and b: "b < nblocks s" "b \<notin> used s" "0 < b" "bitmap_set bm = insert b (used s)"
    let ?sv = "sv\<lparr>sv_i := ?i\<lparr>sfi_direct := (sfi_direct ?i)[n := b]\<rparr>, sv_dirty := True\<rparr>"
    let ?s = "sv_put v ?sv (allocated b bm s)"
    have ind: "sfi_indirect ?i \<noteq> 0 \<Longrightarrow> sfi_indirect ?i \<noteq> b" using inode_okD(2) [OF ok] b(2) by auto
    have map: "fblock ?s (sv_i ?sv) m = (if m = n then b else fblock s ?i m)" for m
      using fblock_update_direct [OF n inode_okD(1) [OF ok], of ?s s b m] ind by simp
    have zero': "fblock s ?i n = 0" using zero n by (simp add: fblock_def)
    note add = inode_add_block [OF ok zero' _ b(1,2), of ?s "sv_i ?sv"]
    have added: "inode_ok ?s (sv_i ?sv)" "fbyte ?s (sv_i ?sv) = fbyte s ?i"
      "blocks_of ?s (sv_i ?sv) \<subseteq> insert b (blocks_of s ?i)"
      using inode_okD(1) [OF ok] b map by (intro add; simp)+
    have chk: "check_used b ?s = Some ?s" using al(2) b by (intro check_used_ok) simp_all
    have "bmap_post v n s (Inr b) ?s"
    proof (rule bmap_post_new [OF _ sv, of ?s ?sv b])
      show "sector ?s c = sector s c" if "c \<in> used s" for c using that b(2) by auto
    qed (use al(2) b added map in \<open>simp_all add: sv_erase_def\<close>)
    moreover have "sfs_bmap_direct v n True s = Some (Inr b, ?s)"
      using zero sv al(1) chk by (simp add: sfs_bmap_direct_def sv_get_def Let_def)
    ultimately show ?thesis by blast
  qed
qed

text \<open>The indirect block, allocated when there is none yet.\<close>

lemma sfs_bmap_idblock_ok:
  assumes q: "fs_quiet s" and sv: "sfs_heap s v = Some sv" and ok: "inode_ok s (sv_i sv)"
  shows "\<exists>r s'. sfs_bmap_idblock v (sfi_indirect (sv_i sv)) s = Some (r, s') \<and>
    (case r of Inl e \<Rightarrow> e = ENOSPC \<and> s' = s
     | Inr (ib, buf) \<Rightarrow> ib \<noteq> 0 \<and> ib = sfi_indirect (vinode s' v) \<and> buf = sector s' ib \<and>
         fblock s' (vinode s' v) = fblock s (sv_i sv) \<and>
         (\<forall>n. bmap_post v n s (Inl ENOSPC) s'))"
proof (cases "sfi_indirect (sv_i sv) = 0")
  case False
  then have "rblock (sfi_indirect (sv_i sv)) s = Some (Inr (sector s (sfi_indirect (sv_i sv))), s)"
    using rblock_ok [OF q] inode_okD(2) [OF ok] by simp
  with False sv bmap_post_same [OF q sv ok] show ?thesis
    by (simp add: sfs_bmap_idblock_def vinode_def)
next
  case zero: True
  let ?i = "sv_i sv"
  from sfs_balloc_spec [OF q] show ?thesis
  proof (elim disjE exE conjE)
    assume "sfs_balloc s = Some (Inl ENOSPC, s)"
    with zero show ?thesis by (simp add: sfs_bmap_idblock_def)
  next
    fix b bm
    assume al: "sfs_balloc s = Some (Inr b, allocated b bm s)" "fs_quiet (allocated b bm s)"
      and b: "b < nblocks s" "b \<notin> used s" "0 < b" "bitmap_set bm = insert b (used s)"
    let ?sv = "sv\<lparr>sv_i := ?i\<lparr>sfi_indirect := b\<rparr>, sv_dirty := True\<rparr>"
    let ?s = "sv_put v ?sv (allocated b bm s)"
    note add = inode_add_indirect [OF ok zero _ b(1,2), of ?s "sv_i ?sv"]
    have added: "inode_ok ?s (sv_i ?sv)" "fblock ?s (sv_i ?sv) = fblock s ?i" "fbyte ?s (sv_i ?sv) = fbyte s ?i"
      "blocks_of ?s (sv_i ?sv) \<subseteq> insert b (blocks_of s ?i)"
      using b by (intro add; simp)+
    have "bmap_post v n s (Inl ENOSPC) ?s" for n
    proof (rule bmap_post_new [OF _ sv, of ?s ?sv b])
      show "sector ?s c = sector s c" if "c \<in> used s" for c using that b(2) by auto
    qed (use al(2) b added in \<open>simp_all add: sv_erase_def\<close>)
    moreover have "vinode ?s v = sv_i ?sv" by (simp add: vinode_def)
    moreover have "sfs_bmap_idblock v (sfi_indirect ?i) s = Some (Inr (b, replicate 512 0), ?s)"
      using zero sv al(1) by (simp add: sfs_bmap_idblock_def sv_get_def)
    ultimately show ?thesis using b(3) added(2) by simp
  qed
qed

text \<open>A fresh block entered in the indirect block.\<close>

lemma fblock_update_indirect:
  assumes "15 \<le> n" "n < 143" "sfi_indirect i \<noteq> 0" "sector s' (sfi_indirect i) =
      blit (sector s (sfi_indirect i)) (4 * (n - 15)) (put32 b)"
    "length (sector s (sfi_indirect i)) = 512" "b < 2 ^ 32"
  shows "fblock s' i m = (if m = n then b else fblock s i m)"
proof (cases "15 \<le> m \<and> m < 143")
  case True
  with assms get32_blit [of "n - 15" "sector s (sfi_indirect i)" "m - 15" b] show ?thesis
    by (auto simp: fblock_def)
next
  case False
  with assms show ?thesis by (auto simp: fblock_def)
qed

lemma bmap_enter_indirect:
  assumes q: "fs_quiet (allocated b bm s)" and sv: "sfs_heap s v = Some sv" and ok: "inode_ok s (sv_i sv)"
    and n: "15 \<le> n" "n < 143" and zero: "fblock s (sv_i sv) n = 0" and ind: "sfi_indirect (sv_i sv) \<noteq> 0"
    and b: "b < nblocks s" "b \<notin> used s" "0 < b" "bitmap_set bm = insert b (used s)"
    and b32: "b < 2 ^ 32" and len: "length (sector s (sfi_indirect (sv_i sv))) = 512"
  defines "ib \<equiv> sfi_indirect (sv_i sv)"
  defines "s' \<equiv> set_sector ib (blit (sector s ib) (4 * (n - 15)) (put32 b)) (allocated b bm s)"
  shows "bmap_post v n s (Inr b) s'" and "check_used b s' = Some s'"
proof -
  let ?i = "sv_i sv"
  have idb: "ib \<noteq> b" using inode_okD(2) [OF ok ind] b(2) by (auto simp: ib_def)
  have len': "length (blit (sector s ib) (4 * (n - 15)) (put32 b)) = 512"
    using len n by (simp add: ib_def)
  have map: "fblock s' ?i m = (if m = n then b else fblock s ?i m)" for m
    using n ind len b32 by (intro fblock_update_indirect) (simp_all add: s'_def ib_def)
  have q': "fs_quiet s'" using q len' by (simp add: s'_def)
  have sec: "sector s' c = sector s c" if "c \<noteq> b" "c \<noteq> ib" for c using that by (simp add: s'_def)
  have "sector s' b = replicate 512 0" using idb by (simp add: s'_def)
  note add = inode_add_block [OF ok zero _ b(1,2), of s' ?i]
  have added: "inode_ok s' ?i" "fbyte s' ?i = fbyte s ?i" "blocks_of s' ?i \<subseteq> insert b (blocks_of s ?i)"
    using inode_okD(1) [OF ok] b map sec \<open>sector s' b = replicate 512 0\<close>
    by (intro add; simp add: s'_def ib_def [symmetric])+
  show "bmap_post v n s (Inr b) s'"
  proof (rule bmap_post_new [OF q' sv, of sv b])
    show "sector s' c = sector s c" if "c \<in> used s" "c \<notin> blocks_of s ?i" for c
    proof (rule sec)
      show "c \<noteq> b" using that b(2) by auto
      show "c \<noteq> ib" using that(2) ind by (auto simp: blocks_of_def ib_def)
    qed
    show "sfs_heap s' = (sfs_heap s)(v \<mapsto> sv)" using sv by (auto simp: s'_def)
  qed (use b added map in \<open>simp_all add: s'_def\<close>)
  show "check_used b s' = Some s'" using q' b by (intro check_used_ok) (simp_all add: s'_def)
qed

lemma block_32: "fs_quiet s \<Longrightarrow> b < nblocks s \<Longrightarrow> b < 2 ^ 32"
  by (auto simp: fs_quiet_def fs_wf_def disk_wf_def)

lemma sfs_bmap_indirect_alloc:
  assumes q: "fs_quiet s" and sv: "sfs_heap s v = Some sv" and ok: "inode_ok s (sv_i sv)"
    and n: "15 \<le> n" "n < 143"
  shows "\<exists>r s'. sfs_bmap_indirect v (n - 15) True s = Some (r, s') \<and> bmap_post v n s r s'"
proof -
  have div: "(n - 15) div 128 = 0" and mod: "(n - 15) mod 128 = n - 15" using n by auto
  note unf = sfs_bmap_indirect_def Let_def sv_get_def sfs_kmalloc_quiet [OF q] div mod
  from sfs_bmap_idblock_ok [OF q sv ok] obtain r1 s1 where
    call: "sfs_bmap_idblock v (sfi_indirect (sv_i sv)) s = Some (r1, s1)" and
    r1: "case r1 of Inl e \<Rightarrow> e = ENOSPC \<and> s1 = s
     | Inr (ib, buf) \<Rightarrow> ib \<noteq> 0 \<and> ib = sfi_indirect (vinode s1 v) \<and> buf = sector s1 ib \<and>
         fblock s1 (vinode s1 v) = fblock s (sv_i sv) \<and> (\<forall>n. bmap_post v n s (Inl ENOSPC) s1)" by blast
  show ?thesis
  proof (cases r1)
    case (Inl e)
    with call r1 sv bmap_post_same [OF q sv ok, of n "Inl ENOSPC"] show ?thesis by (simp add: unf)
  next
    case (Inr p)
    then obtain ib buf where p: "r1 = Inr (ib, buf)" by (cases p) simp
    with r1 have ib: "ib \<noteq> 0" "ib = sfi_indirect (vinode s1 v)" "buf = sector s1 ib"
      and post1: "\<And>n. bmap_post v n s (Inl ENOSPC) s1" by auto
    have fr1: "io_frame v s s1" using post1 by (simp add: bmap_post_def)
    obtain sv1 where sv1: "sfs_heap s1 v = Some sv1" "inode_ok s1 (sv_i sv1)" "vinode s1 v = sv_i sv1"
      by (rule io_frame_vnode [OF fr1])
    have q1: "fs_quiet s1" using fr1 by (rule io_frame_quiet)
    have f: "get32 buf (n - 15) = fblock s1 (sv_i sv1) n" using ib n sv1(3) by (simp add: fblock_def)
    show ?thesis
    proof (cases "fblock s1 (sv_i sv1) n = 0")
      case False
      have "bmap_post v n s1 (Inr (fblock s1 (sv_i sv1) n)) s1"
        using False by (intro bmap_post_same [OF q1 sv1(1,2)]) simp
      from bmap_post_trans [OF post1 this]
      have "bmap_post v n s (Inr (fblock s1 (sv_i sv1) n)) s1" .
      with call p False f sv check_block [OF q1 sv1(2), of n] show ?thesis by (simp add: unf)
    next
      case True
      from sfs_balloc_spec [OF q1] show ?thesis
      proof (elim disjE exE conjE)
        assume "sfs_balloc s1 = Some (Inl ENOSPC, s1)"
        with call p True f sv post1 show ?thesis by (simp add: unf)
      next
        fix b bm
        assume al: "sfs_balloc s1 = Some (Inr b, allocated b bm s1)" "fs_quiet (allocated b bm s1)"
          and b: "b < nblocks s1" "b \<notin> used s1" "0 < b" "bitmap_set bm = insert b (used s1)"
        have ib1: "sfi_indirect (sv_i sv1) \<noteq> 0" "ib = sfi_indirect (sv_i sv1)" using ib sv1(3) by auto
        have ibn: "ib < nblocks s1" "ib \<noteq> b" using inode_okD(2) [OF sv1(2) ib1(1)] ib1(2) b(2) by auto
        let ?s = "set_sector ib (blit buf (4 * (n - 15)) (put32 b)) (allocated b bm s1)"
        note enter = bmap_enter_indirect [OF al(2) sv1(1,2) n True ib1(1) b block_32 [OF q1 b(1)] sector_length [OF q1]]
        have post: "bmap_post v n s1 (Inr b) ?s" and chk: "check_used b ?s = Some ?s"
          using enter ib(3) by (simp_all add: ib1(2))
        have "length (blit buf (4 * (n - 15)) (put32 b)) = 512"
          using n sector_length [OF q1, of ib] by (simp add: ib(3))
        with wblock_ok [OF al(2), of ib] ibn have
          "wblock (blit buf (4 * (n - 15)) (put32 b)) ib (allocated b bm s1) = Some (Inr (), ?s)" by simp
        with call p True f sv al(1) chk bmap_post_trans [OF post1 post] show ?thesis by (simp add: unf)
      qed
    qed
  qed
qed

lemma sfs_bmap_alloc:
  assumes q: "fs_quiet s" and sv: "sfs_heap s v = Some sv" and ok: "inode_ok s (sv_i sv)"
    and held: "SvLock v \<in> sfs_held s"
  shows "\<exists>r s'. sfs_bmap v n True s = Some (r, s') \<and>
    (if n < SFS_MAXBLOCKS then bmap_post v n s r s' else r = Inl EINVAL \<and> s' = s)"
proof (cases "n < 15")
  case True
  with sfs_bmap_direct_alloc [OF q sv ok True] held show ?thesis by (simp add: sfs_bmap_def)
next
  case False
  show ?thesis
  proof (cases "n < 143")
    case True
    with False held sfs_bmap_indirect_alloc [OF q sv ok, of n] show ?thesis by (simp add: sfs_bmap_def)
  next
    case big: False
    then have "(n - 15) div 128 > 0" by auto
    with False big held show ?thesis by (simp add: sfs_bmap_def sfs_bmap_indirect_def)
  qed
qed

end
