(* ===== verification/K_Sfs_Io.thy ===== *)
theory K_Sfs_Io
  imports K_Sfs_Map
begin

text \<open>
  File-level I/O of \<^verbatim>\<open>kern/fs/sfs/sfs_vnode.c\<close>: \<^verbatim>\<open>sfs_partialio\<close>, \<^verbatim>\<open>sfs_blockio\<close>, \<^verbatim>\<open>sfs_io\<close>,
  \<^verbatim>\<open>sfs_read\<close> and \<^verbatim>\<open>sfs_write\<close>, and their meaning on the bytes of the file: a read hands back the
  bytes of the file up to its end, a write replaces exactly the bytes it transfers.
\<close>

section \<open>The code\<close>

text \<open>\<open>ok\<close>: whether \<^verbatim>\<open>kmalloc\<close> returned a buffer. The code does not test it; using the null pointer
  as a buffer is undefined.\<close>

definition sfs_partialio :: "nat \<Rightarrow> uio \<Rightarrow> nat \<Rightarrow> nat \<Rightarrow> sfs_fs \<Rightarrow> (unit res \<times> uio \<times> sfs_fs) option" where
  "sfs_partialio v u skipstart len s =
     (case sfs_kmalloc s of (ok, s) \<Rightarrow> do {
        kassert (SvLock v \<in> sfs_held s);
        let doalloc = (uio_dir u = UIO_WRITE);
        kassert (u32 (int skipstart + int len) \<le> SFS_BLOCKSIZE);
        let fileblock = u32 (cdiv (uio_offset u) (int SFS_BLOCKSIZE));
        (r, s) \<leftarrow> sfs_bmap v fileblock doalloc s;
        case r of
          Inl e \<Rightarrow> Some (Inl e, u, s)
        | Inr diskblock \<Rightarrow> do {
            (r, s) \<leftarrow> (if diskblock = 0 then do {
                          kassert (uio_dir u = UIO_READ);
                          Some (Inr (replicate SFS_BLOCKSIZE 0), s)
                        }
                        else rblock diskblock s);
            case r of
              Inl e \<Rightarrow> Some (Inl e, u, s)
            | Inr iobuf \<Rightarrow> do {
                kassert ok;
                (r, iobuf, u) \<leftarrow> uiomove iobuf skipstart len u;
                case r of
                  Inl e \<Rightarrow> Some (Inl e, u, s)
                | Inr _ \<Rightarrow>
                    if uio_dir u = UIO_WRITE then do {
                      (r, s) \<leftarrow> wblock iobuf diskblock s;
                      Some (r, u, s)
                    }
                    else Some (Inr (), u, s)
              }
          }
      })"

definition sfs_blockio :: "nat \<Rightarrow> uio \<Rightarrow> sfs_fs \<Rightarrow> (unit res \<times> uio \<times> sfs_fs) option" where
  "sfs_blockio v u s = do {
     let doalloc = (uio_dir u = UIO_WRITE);
     let fileblock = u32 (cdiv (uio_offset u) (int SFS_BLOCKSIZE));
     (r, s) \<leftarrow> sfs_bmap v fileblock doalloc s;
     case r of
       Inl e \<Rightarrow> Some (Inl e, u, s)
     | Inr diskblock \<Rightarrow>
         if diskblock = 0 then do {
           kassert (uio_dir u = UIO_READ);
           (r, u) \<leftarrow> uiomovezeros SFS_BLOCKSIZE u;
           Some (r, u, s)
         }
         else do {
           let saveoff = uio_offset u;
           let diskoff = off32 (int diskblock * int SFS_BLOCKSIZE);
           kassert (uio_resid u \<ge> SFS_BLOCKSIZE);
           let saveres = off32 (int (uio_resid u));
           let diskres = int SFS_BLOCKSIZE;
           (r, u, d) \<leftarrow> sfs_rwblock (u\<lparr>uio_offset := diskoff, uio_resid := SFS_BLOCKSIZE\<rparr>) (sfs_device s);
           newoff \<leftarrow> cint (uio_offset u - diskoff + saveoff);
           let u = u\<lparr>uio_offset := newoff, uio_resid := u32 (int (uio_resid u) - diskres + saveres)\<rparr>;
           Some (r, u, s\<lparr>sfs_device := d\<rparr>)
         }
   }"

text \<open>The loop of \<^verbatim>\<open>sfs_io\<close> over the whole blocks.\<close>

fun sfs_io_blocks :: "nat \<Rightarrow> nat \<Rightarrow> uio \<Rightarrow> sfs_fs \<Rightarrow> (unit res \<times> uio \<times> sfs_fs) option" where
  "sfs_io_blocks v 0 u s = Some (Inr (), u, s)"
| "sfs_io_blocks v (Suc n) u s = do {
     (r, u, s) \<leftarrow> sfs_blockio v u s;
     case r of
       Inl e \<Rightarrow> Some (Inl e, u, s)
     | Inr _ \<Rightarrow> sfs_io_blocks v n u s
   }"

text \<open>The leading partial block.\<close>

definition sfs_io_lead :: "nat \<Rightarrow> uio \<Rightarrow> sfs_fs \<Rightarrow> (unit res \<times> uio \<times> sfs_fs) option" where
  "sfs_io_lead v u s =
     (let blkoff = u32 (cmod (uio_offset u) (int SFS_BLOCKSIZE)) in
      if blkoff \<noteq> 0
      then let len = u32 (int SFS_BLOCKSIZE - int blkoff);
               len = (if len > uio_resid u then uio_resid u else len)
           in sfs_partialio v u blkoff len s
      else Some (Inr (), u, s))"

text \<open>\<^verbatim>\<open>sfs_io\<close> from the leading partial block to the label \<^verbatim>\<open>out\<close>.\<close>

definition sfs_io_body :: "nat \<Rightarrow> uio \<Rightarrow> sfs_fs \<Rightarrow> (unit res \<times> uio \<times> sfs_fs) option" where
  "sfs_io_body v u s = do {
     (r, u, s) \<leftarrow> sfs_io_lead v u s;
     case r of
       Inl e \<Rightarrow> Some (Inl e, u, s)
     | Inr _ \<Rightarrow>
         if uio_resid u = 0 then Some (Inr (), u, s)
         else do {
           kassert (cmod (uio_offset u) (int SFS_BLOCKSIZE) = 0);
           (r, u, s) \<leftarrow> sfs_io_blocks v (uio_resid u div SFS_BLOCKSIZE) u s;
           case r of
             Inl e \<Rightarrow> Some (Inl e, u, s)
           | Inr _ \<Rightarrow> do {
               kassert (uio_resid u < SFS_BLOCKSIZE);
               if uio_resid u > 0 then sfs_partialio v u 0 (uio_resid u) s
               else Some (Inr (), u, s)
             }
         }
   }"

text \<open>The part after \<^verbatim>\<open>out\<close>.\<close>

definition sfs_io_out :: "nat \<Rightarrow> nat \<Rightarrow> unit res \<Rightarrow> uio \<Rightarrow> sfs_fs \<Rightarrow> (unit res \<times> uio \<times> sfs_fs) option" where
  "sfs_io_out v extraresid r u s = do {
     sv \<leftarrow> sv_get v s;
     let s = (if uio_dir u = UIO_WRITE \<and> uio_offset u > off32 (int (sfi_size (sv_i sv)))
              then sv_put v (sv\<lparr>sv_i := (sv_i sv)\<lparr>sfi_size := u32 (uio_offset u)\<rparr>, sv_dirty := True\<rparr>) s
              else s);
     let u = u\<lparr>uio_resid := u32 (int (uio_resid u) + int extraresid)\<rparr>;
     Some (r, u, s)
   }"

definition sfs_io :: "nat \<Rightarrow> uio \<Rightarrow> sfs_fs \<Rightarrow> (unit res \<times> uio \<times> sfs_fs) option" where
  "sfs_io v u s = do {
     sv \<leftarrow> sv_get v s;
     kassert (SvLock v \<in> sfs_held s);
     let size = off32 (int (sfi_size (sv_i sv)));
     if uio_dir u = UIO_READ then
       if uio_offset u \<ge> size then Some (Inr (), u, s)
       else do {
         let endpos = off32 (uio_offset u + int (uio_resid u));
         let extraresid = (if endpos > size then u32 (endpos - size) else 0);
         kassert (extraresid > 0 \<longrightarrow> uio_resid u > extraresid);
         (r, u, s) \<leftarrow> sfs_io_body v (u\<lparr>uio_resid := uio_resid u - extraresid\<rparr>) s;
         sfs_io_out v extraresid r u s
       }
     else do {
       (r, u, s) \<leftarrow> sfs_io_body v u s;
       sfs_io_out v 0 r u s
     }
   }"

definition sfs_read :: "nat \<Rightarrow> uio \<Rightarrow> sfs_fs \<Rightarrow> (unit res \<times> uio \<times> sfs_fs) option" where
  "sfs_read v u s = do {
     sv \<leftarrow> sv_get v s;
     kassert (uio_dir u = UIO_READ);
     s \<leftarrow> lock_acquire (SvLock v) s;
     (r, u, s) \<leftarrow> sfs_io v u s;
     s \<leftarrow> lock_release (SvLock v) s;
     Some (r, u, s)
   }"

definition sfs_write :: "nat \<Rightarrow> uio \<Rightarrow> sfs_fs \<Rightarrow> (unit res \<times> uio \<times> sfs_fs) option" where
  "sfs_write v u s = do {
     sv \<leftarrow> sv_get v s;
     kassert (uio_dir u = UIO_WRITE);
     s \<leftarrow> lock_acquire (SvLock v) s;
     (r, u, s) \<leftarrow> sfs_io v u s;
     s \<leftarrow> lock_release (SvLock v) s;
     Some (r, u, s)
   }"

section \<open>Reading\<close>

definition fbytes :: "sfs_fs \<Rightarrow> sfs_inode \<Rightarrow> nat \<Rightarrow> nat \<Rightarrow> byte list" where
  "fbytes s i o' n = map (fbyte s i) [o'..<o' + n]"

lemma length_fbytes [simp]: "length (fbytes s i p n) = n"
  by (simp add: fbytes_def)

lemma fbytes_append: "fbytes s i p m @ fbytes s i (p + m) n = fbytes s i p (m + n)"
  by (simp add: fbytes_def upt_add_eq_append [of p "p + m" n] add.assoc [symmetric])

lemma same_block: "p mod 512 + n \<le> 512 \<Longrightarrow> j < n \<Longrightarrow>
    (p + j) div 512 = p div (512::nat) \<and> (p + j) mod 512 = p mod 512 + j"
proof -
  assume a: "p mod 512 + n \<le> 512" "j < n"
  have step: "(q * 512 + x) div 512 = q \<and> (q * 512 + x) mod 512 = x" if "x < 512" for q x :: nat
    using that by simp
  have "p div 512 * 512 + (p mod 512 + j) = p + j" by simp
  with step [of "p mod 512 + j" "p div 512"] a show ?thesis by simp
qed

text \<open>The bytes within one block.\<close>

lemma fbytes_block:
  assumes len: "length (sector s (fblock s i (p div 512))) = 512" and n: "p mod 512 + n \<le> 512"
  shows "fbytes s i p n = (if fblock s i (p div 512) = 0 then replicate n 0
    else slice (sector s (fblock s i (p div 512))) (p mod 512) n)"
proof (rule nth_equalityI)
  fix j assume "j < length (fbytes s i p n)"
  then have j: "j < n" by simp
  with same_block [OF n j] len n show "fbytes s i p n ! j = (if fblock s i (p div 512) = 0 then replicate n 0
    else slice (sector s (fblock s i (p div 512))) (p mod 512) n) ! j"
    by (simp add: fbytes_def fbyte_def Let_def nth_slice)
qed (use len n in simp)

lemma off_block:
  assumes "uio_wf u" and "uio_offset u = int p"
  shows "u32 (int p div 512) = p div 512" and "u32 (int p mod 512) = p mod 512"
    and "int p mod 512 = int (p mod 512)"
proof -
  have p: "p < 2 ^ 31" using assms by (auto simp: uio_wf_def)
  then have "p div 512 < 2 ^ 32" using div_le_dividend [of p 512] by simp
  then show "u32 (int p div 512) = p div 512" by (simp add: u32_def nat_div_distrib)
  show "u32 (int p mod 512) = p mod 512" by (simp add: u32_def nat_mod_distrib)
  show "int p mod 512 = int (p mod 512)" by (simp add: zmod_int)
qed

lemma sfs_partialio_read:
  assumes q: "fs_quiet s" and sv: "sfs_heap s v = Some sv" and ok: "inode_ok s (sv_i sv)"
    and held: "SvLock v \<in> sfs_held s"
    and u: "uio_wf u" "uio_quiet u" "uio_dir u = UIO_READ" "uio_offset u = int p"
    and n: "n \<le> uio_resid u" "p mod 512 + n \<le> 512" "p div 512 < 143"
  shows "sfs_partialio v u (p mod 512) n s = Some (Inr (), uio_receive (fbytes s (sv_i sv) p n) u, s)"
proof -
  let ?b = "fblock s (sv_i sv) (p div 512)"
  note len = sector_length [OF q]
  have bmap: "sfs_bmap v (p div 512) False s = Some (Inr ?b, s)"
    using sfs_bmap_lookup [OF q sv ok held, of "p div 512"] n(3) by simp
  note unf = sfs_partialio_def sfs_kmalloc_quiet [OF q] off_block(1,2) [OF u(1,4)] u(4) Let_def
  show ?thesis
  proof (cases "?b = 0")
    case True
    have "uiomove (replicate 512 0) (p mod 512) n u =
        Some (Inr (), replicate 512 0, uio_receive (slice (replicate 512 0) (p mod 512) n) u)"
      using n by (intro uiomove_read [OF u(1-3)]) simp_all
    moreover have "slice (replicate 512 0) (p mod 512) n = fbytes s (sv_i sv) p n"
      using fbytes_block [OF len n(2), of "sv_i sv"] True n(2) by (auto simp: slice_def min_def)
    ultimately show ?thesis using True bmap held u(3) n(2) by (simp add: unf)
  next
    case False
    then have rb: "rblock ?b s = Some (Inr (sector s ?b), s)"
      using rblock_ok [OF q] inode_okD(3) [OF ok] by simp
    have "uiomove (sector s ?b) (p mod 512) n u =
        Some (Inr (), sector s ?b, uio_receive (slice (sector s ?b) (p mod 512) n) u)"
      using n len by (intro uiomove_read [OF u(1-3)]) simp_all
    moreover have "slice (sector s ?b) (p mod 512) n = fbytes s (sv_i sv) p n"
      using fbytes_block [OF len n(2)] False by simp
    ultimately show ?thesis using False bmap held u(3) n(2) rb by (simp add: unf)
  qed
qed

text \<open>The request that \<^verbatim>\<open>sfs_blockio\<close> makes of the device.\<close>

lemma blockio_request:
  assumes q: "fs_quiet s" and b: "b < nblocks s" and u: "uio_wf u" "uio_quiet u" "512 \<le> uio_resid u"
  defines "u1 \<equiv> u\<lparr>uio_offset := int b * 512, uio_resid := 512\<rparr>"
  shows "uio_wf u1" "uio_quiet u1" "b < d_blocks (sfs_device s)" "off32 (int b * 512) = int b * 512"
proof -
  have "Suc b < 2 ^ 22" and d: "b < d_blocks (sfs_device s)"
    using q b block_bound [of "sfs_device s" b] by (auto simp: fs_quiet_def fs_wf_def)
  then show "uio_wf u1" "uio_quiet u1" "b < d_blocks (sfs_device s)" "off32 (int b * 512) = int b * 512"
    using u by (auto simp: u1_def uio_wf_def uio_quiet_def off32_def)
qed

lemma sfs_blockio_read:
  assumes q: "fs_quiet s" and sv: "sfs_heap s v = Some sv" and ok: "inode_ok s (sv_i sv)"
    and held: "SvLock v \<in> sfs_held s"
    and u: "uio_wf u" "uio_quiet u" "uio_dir u = UIO_READ" "uio_offset u = int p"
    and n: "512 \<le> uio_resid u" "p mod 512 = 0" "p div 512 < 143"
  shows "sfs_blockio v u s = Some (Inr (), uio_receive (fbytes s (sv_i sv) p 512) u, s)"
proof -
  let ?b = "fblock s (sv_i sv) (p div 512)"
  note len = sector_length [OF q]
  have bmap: "sfs_bmap v (p div 512) False s = Some (Inr ?b, s)"
    using sfs_bmap_lookup [OF q sv ok held, of "p div 512"] n(3) by simp
  have bytes: "fbytes s (sv_i sv) p 512 = (if ?b = 0 then replicate 512 0 else sector s ?b)"
    using fbytes_block [OF len, of p 512 "sv_i sv"] n(2) len slice_all [of "sector s ?b"] by simp
  note unf = sfs_blockio_def off_block(1,2) [OF u(1,4)] u(4) Let_def
  show ?thesis
  proof (cases "?b = 0")
    case True
    with bytes bmap u(3) uiomovezeros_ok [OF u(1-3) n(1)] show ?thesis by (simp add: unf)
  next
    case False
    then have b: "?b < nblocks s" using inode_okD(3) [OF ok] by simp
    note req = blockio_request [OF q b u(1,2) n(1)]
    let ?u = "u\<lparr>uio_offset := int ?b * 512, uio_resid := 512\<rparr>"
    have io: "sfs_rwblock ?u (sfs_device s) = Some (Inr (), uio_receive (sector s ?b) ?u, sfs_device s)"
      using req(1,2) u(3) by (intro rwblock_ok lhd_io_read [OF fs_quiet_disk [OF q] req(3)]) simp_all
    have off: "0 \<le> uio_offset u" "uio_offset u + int (uio_resid u) < 2 ^ 31" using u(1) by (auto simp: uio_wf_def)
    then have "(uio_receive (sector s ?b) ?u)\<lparr>uio_offset := 512 + uio_offset u,
        uio_resid := u32 (int (uio_resid u) - 512)\<rparr> = uio_receive (sector s ?b) u"
      using n(1) len by (simp add: uio_receive_def uio_advance_def u32_nonneg nat_diff_distrib)
    with io req(4) False bmap u(3) n(1) off len bytes show ?thesis
      by (simp add: unf)
  qed
qed

lemma sfs_io_blocks_read:
  assumes q: "fs_quiet s" and sv: "sfs_heap s v = Some sv" and ok: "inode_ok s (sv_i sv)"
    and held: "SvLock v \<in> sfs_held s"
    and u: "uio_wf u" "uio_quiet u" "uio_dir u = UIO_READ" "uio_offset u = int p"
    and n: "k * 512 \<le> uio_resid u" "p mod 512 = 0" "p div 512 + k \<le> 143"
  shows "sfs_io_blocks v k u s = Some (Inr (), uio_receive (fbytes s (sv_i sv) p (k * 512)) u, s)"
  using u n
proof (induction k arbitrary: u p)
  case 0
  then show ?case by (simp add: fbytes_def)
next
  case (Suc k)
  let ?u = "uio_receive (fbytes s (sv_i sv) p 512) u"
  have one: "sfs_blockio v u s = Some (Inr (), ?u, s)"
    using Suc.prems by (intro sfs_blockio_read [OF q sv ok held]) simp_all
  have "sfs_io_blocks v k ?u s = Some (Inr (), uio_receive (fbytes s (sv_i sv) (p + 512) (k * 512)) ?u, s)"
    using Suc.prems uio_wf_receive [OF Suc.prems(1), of "fbytes s (sv_i sv) p 512"]
    by (intro Suc.IH) (simp_all add: div_add1_eq)
  moreover have "uio_receive (fbytes s (sv_i sv) (p + 512) (k * 512)) ?u =
      uio_receive (fbytes s (sv_i sv) p (Suc k * 512)) u"
    using Suc.prems(1,5) by (subst uio_receive_append) (auto simp: uio_wf_def fbytes_append)
  ultimately show ?case using one by simp
qed

text \<open>The whole transfer, within the blocks a file can have.\<close>

lemma div_of_bound: "n \<le> (k::nat) * 512 \<Longrightarrow> p < n \<Longrightarrow> p div 512 < k"
  by (simp add: less_mult_imp_div_less)

text \<open>The number of bytes in the leading partial block.\<close>

definition lead_len :: "nat \<Rightarrow> nat \<Rightarrow> nat" where
  "lead_len p r = (if p mod 512 = 0 then 0 else if 512 - p mod 512 > r then r else 512 - p mod 512)"

lemma lead_len_bounds: "lead_len p r \<le> r" "p mod 512 + lead_len p r \<le> 512"
  by (auto simp: lead_len_def less_imp_le)

lemma lead_len_aligned:
  assumes "lead_len p r \<noteq> r"
  shows "(p + lead_len p r) mod 512 = 0"
proof (cases "p mod 512 = 0")
  case True
  then show ?thesis by (simp add: lead_len_def)
next
  case False
  then have "lead_len p r = 512 - p mod 512" using assms by (auto simp: lead_len_def split: if_splits)
  then have "p mod 512 + lead_len p r = 512" by (simp add: less_imp_le)
  then have "p + lead_len p r = p div 512 * 512 + 512" using div_mult_mod_eq [of p 512] by linarith
  then show ?thesis by simp
qed

lemma sfs_io_lead_eq:
  assumes "uio_wf u" and "uio_offset u = int p"
  shows "sfs_io_lead v u s = (if p mod 512 = 0 then Some (Inr (), u, s)
    else sfs_partialio v u (p mod 512) (lead_len p (uio_resid u)) s)"
proof -
  have "u32 (512 - int (p mod 512)) = 512 - p mod 512" by (simp add: u32_def nat_diff_distrib)
  then show ?thesis by (simp add: sfs_io_lead_def off_block(1,2) [OF assms] assms(2) lead_len_def Let_def)
qed

lemma sfs_io_body_read:
  assumes q: "fs_quiet s" and sv: "sfs_heap s v = Some sv" and ok: "inode_ok s (sv_i sv)"
    and held: "SvLock v \<in> sfs_held s"
    and u: "uio_wf u" "uio_quiet u" "uio_dir u = UIO_READ" "uio_offset u = int p"
    and n: "0 < uio_resid u" "p + uio_resid u \<le> 143 * 512"
  shows "sfs_io_body v u s = Some (Inr (), uio_receive (fbytes s (sv_i sv) p (uio_resid u)) u, s)"
proof -
  define m where "m = lead_len p (uio_resid u)"
  define u1 where "u1 = uio_receive (fbytes s (sv_i sv) p m) u"
  have m: "m \<le> uio_resid u" "p mod 512 + m \<le> 512" unfolding m_def by (rule lead_len_bounds)+
  have first: "sfs_io_lead v u s = Some (Inr (), u1, s)"
  proof (cases "p mod 512 = 0")
    case True
    then show ?thesis using sfs_io_lead_eq [OF u(1,4)] by (simp add: u1_def m_def lead_len_def fbytes_def)
  next
    case False
    with sfs_io_lead_eq [OF u(1,4)] sfs_partialio_read [OF q sv ok held u m] div_of_bound [OF n(2), of p] n(1)
    show ?thesis by (simp add: u1_def m_def [symmetric])
  qed
  have u1: "uio_wf u1" "uio_quiet u1" "uio_dir u1 = UIO_READ" "uio_offset u1 = int (p + m)"
    "uio_resid u1 = uio_resid u - m"
    using u uio_wf_receive [OF u(1), of "fbytes s (sv_i sv) p m"] m by (simp_all add: u1_def)
  note unf = sfs_io_body_def u(4) Let_def
  show ?thesis
  proof (cases "m = uio_resid u")
    case True
    with first u1(5) u1_def show ?thesis by (simp add: unf split del: if_split)
  next
    case False
    have al: "(p + m) mod 512 = 0" using lead_len_aligned False by (simp add: m_def)
    let ?r = "uio_resid u - m" and ?k = "(uio_resid u - m) div 512"
    have le: "p + m + ?r \<le> 143 * 512" using n(2) m(1) by simp
    have pk: "(p + m) div 512 + ?k \<le> 143"
    proof -
      have "(p + m) div 512 * 512 = p + m" using al by (simp add: minus_mod_eq_div_mult [symmetric])
      moreover have "?k * 512 \<le> ?r" by simp
      ultimately show ?thesis using le by linarith
    qed
    define u2 where "u2 = uio_receive (fbytes s (sv_i sv) (p + m) (?k * 512)) u1"
    have blocks: "sfs_io_blocks v ?k u1 s = Some (Inr (), u2, s)"
      unfolding u2_def using pk al u1 by (intro sfs_io_blocks_read [OF q sv ok held]) simp_all
    have u2: "uio_wf u2" "uio_quiet u2" "uio_dir u2 = UIO_READ" "uio_offset u2 = int (p + m + ?k * 512)"
      "uio_resid u2 = ?r mod 512"
      using u1 uio_wf_receive [OF u1(1), of "fbytes s (sv_i sv) (p + m) (?k * 512)"]
      by (simp_all add: u2_def minus_div_mult_eq_mod)
    have al2: "(p + m + ?k * 512) mod 512 = 0" using al by simp
    have last: "(if uio_resid u2 > 0 then sfs_partialio v u2 0 (uio_resid u2) s else Some (Inr (), u2, s)) =
        Some (Inr (), uio_receive (fbytes s (sv_i sv) (p + m + ?k * 512) (?r mod 512)) u2, s)"
    proof (cases "?r mod 512 = 0")
      case True
      then show ?thesis using u2(5) by (simp add: fbytes_def)
    next
      case False
      have "(p + m + ?k * 512) div 512 < 143"
      proof (rule div_of_bound [OF le])
        show "p + m + ?k * 512 < p + m + ?r"
          using False div_mult_mod_eq [of ?r 512] by linarith
      qed
      with sfs_partialio_read [OF q sv ok held u2(1-4), of "?r mod 512"] u2(5) al2 False
      show ?thesis by simp
    qed
    have all: "uio_receive (fbytes s (sv_i sv) (p + m + ?k * 512) (?r mod 512)) u2 =
        uio_receive (fbytes s (sv_i sv) p (uio_resid u)) u"
    proof -
      have sum: "m + ?k * 512 + ?r mod 512 = uio_resid u" using m(1) div_mult_mod_eq [of ?r 512] by linarith
      have room: "uio_pos u + uio_resid u \<le> length (uio_data u)" using u(1) by (auto simp: uio_wf_def)
      have "u2 = uio_receive (fbytes s (sv_i sv) p (m + ?k * 512)) u"
        unfolding u2_def u1_def using room sum by (subst uio_receive_append) (auto simp: fbytes_append)
      moreover have "uio_receive (fbytes s (sv_i sv) (p + (m + ?k * 512)) (?r mod 512))
          (uio_receive (fbytes s (sv_i sv) p (m + ?k * 512)) u) =
          uio_receive (fbytes s (sv_i sv) p (m + ?k * 512 + ?r mod 512)) u"
        using room sum by (subst uio_receive_append) (auto simp: fbytes_append)
      ultimately show ?thesis using sum by (simp add: add.assoc)
    qed
    have "cmod (uio_offset u1) 512 = 0" using off_block(3) [OF u1(1,4)] u1(4) al by simp
    with first blocks last all False m(1) u1(5) u2(5) show ?thesis
      by (simp add: unf split del: if_split)
  qed
qed

text \<open>A read stops at the end of the file.\<close>

lemma sfs_io_read:
  assumes q: "fs_quiet s" and sv: "sfs_heap s v = Some sv" and ok: "inode_ok s (sv_i sv)"
    and held: "SvLock v \<in> sfs_held s" and sz: "sfi_size (sv_i sv) \<le> SFS_MAXBLOCKS * SFS_BLOCKSIZE"
    and u: "uio_wf u" "uio_quiet u" "uio_dir u = UIO_READ" "uio_offset u = int p" "0 < uio_resid u"
    and n: "n = min (uio_resid u) (sfi_size (sv_i sv) - p)"
  shows "sfs_io v u s = Some (Inr (), uio_receive (fbytes s (sv_i sv) p n) u, s)"
proof (cases "p < sfi_size (sv_i sv)")
  case False
  have "off32 (int (sfi_size (sv_i sv))) = int (sfi_size (sv_i sv))" using sz by simp
  with False n sv held u(3,4) show ?thesis by (simp add: sfs_io_def sv_get_def Let_def fbytes_def)
next
  case True
  let ?size = "sfi_size (sv_i sv)" and ?r = "uio_resid u"
  define x where "x = ?r - n"
  have size: "off32 (int ?size) = int ?size" using sz by simp
  have r: "p + ?r < 2 ^ 31" using u(1,4) by (auto simp: uio_wf_def)
  then have endpos: "off32 (int p + int ?r) = int (p + ?r)" by simp
  have x: "(if int (p + ?r) > int ?size then u32 (int (p + ?r) - int ?size) else 0) = x"
  proof (cases "p + ?r > ?size")
    case big: True
    then have "int (p + ?r) - int ?size = int (p + ?r - ?size)" by simp
    moreover have "p + ?r - ?size = x" using n big True by (simp add: x_def)
    ultimately show ?thesis using big r by simp
  qed (use n True x_def in simp)
  let ?u = "u\<lparr>uio_resid := ?r - x\<rparr>"
  have rx: "?r - x = n" "n \<le> ?r" "0 < n" "x < ?r" using n u(5) True by (auto simp: x_def)
  have wf: "uio_wf ?u" "uio_quiet ?u" using u(1,2) rx by (auto simp: uio_wf_def uio_quiet_def)
  have body: "sfs_io_body v ?u s = Some (Inr (), uio_receive (fbytes s (sv_i sv) p n) ?u, s)"
    using sfs_io_body_read [OF q sv ok held wf, of p] u(3,4) rx n sz True by simp
  have "(uio_receive (fbytes s (sv_i sv) p n) ?u)\<lparr>uio_resid := x\<rparr> = uio_receive (fbytes s (sv_i sv) p n) u"
    using rx by (simp add: uio_receive_def uio_advance_def x_def)
  moreover have "u32 (int x) = x" using rx(4) r by (intro u32_of_nat) simp
  ultimately have out: "sfs_io_out v x (Inr ()) (uio_receive (fbytes s (sv_i sv) p n) ?u) s =
      Some (Inr (), uio_receive (fbytes s (sv_i sv) p n) u, s)"
    using sv u(3) rx by (simp add: sfs_io_out_def sv_get_def)
  show ?thesis
    using True sv held u(3,4) size endpos x body out rx(4)
    by (simp add: sfs_io_def sv_get_def Let_def cong: if_cong split del: if_split)
qed

section \<open>Writing\<close>

text \<open>\<open>write_post v bs p s s'\<close>: from \<open>s\<close> to \<open>s'\<close> the bytes of the file at \<open>p\<close> have become \<open>bs\<close>, and
  nothing else of the file and nothing of any other file has changed.\<close>

definition write_post :: "nat \<Rightarrow> byte list \<Rightarrow> nat \<Rightarrow> sfs_fs \<Rightarrow> sfs_fs \<Rightarrow> bool" where
  "write_post v bs p s s' \<longleftrightarrow> io_frame v s s' \<and> sfi_size (vinode s' v) = sfi_size (vinode s v) \<and>
     (\<forall>q. fbyte s' (vinode s' v) q =
        (if p \<le> q \<and> q < p + length bs then bs ! (q - p) else fbyte s (vinode s v) q))"

lemma write_post_bmap: "bmap_post v n s r s' \<Longrightarrow> write_post v [] p s s'"
  by (auto simp: write_post_def bmap_post_def)

lemma write_post_refl:
  "fs_quiet s \<Longrightarrow> sfs_heap s v = Some sv \<Longrightarrow> inode_ok s (sv_i sv) \<Longrightarrow> write_post v [] p s s"
  by (auto simp: write_post_def io_frame_refl)

lemma write_post_trans:
  assumes 1: "write_post v bs p s1 s2" and 2: "write_post v cs (p + length bs) s2 s3"
  shows "write_post v (bs @ cs) p s1 s3"
proof -
  have "fbyte s3 (vinode s3 v) q = (if p \<le> q \<and> q < p + length (bs @ cs) then (bs @ cs) ! (q - p)
      else fbyte s1 (vinode s1 v) q)" for q
    using 1 2 by (auto simp: write_post_def nth_append)
  then show ?thesis using 1 2 io_frame_trans unfolding write_post_def by metis
qed

lemma write_post_trans_Nil: "write_post v [] p s1 s2 \<Longrightarrow> write_post v cs p s2 s3 \<Longrightarrow> write_post v cs p s1 s3"
  using write_post_trans [of v "[]" p s1 s2 cs s3] by simp

lemma write_postD:
  assumes "write_post v bs p s s'"
  obtains sv' where "sfs_heap s' v = Some sv'" "inode_ok s' (sv_i sv')" "vinode s' v = sv_i sv'"
    "fs_quiet s'" "sfs_held s' = sfs_held s"
proof -
  have fr: "io_frame v s s'" using assms by (simp add: write_post_def)
  then obtain sv' where "sfs_heap s' v = Some sv'" "inode_ok s' (sv_i sv')" "vinode s' v = sv_i sv'"
    by (rule io_frame_vnode)
  with that io_frame_quiet [OF fr] io_frame_held [OF fr] show thesis by blast
qed

lemma io_frame_set_sector:
  assumes q: "fs_quiet s" and sv: "sfs_heap s v = Some sv" and ok: "inode_ok s (sv_i sv)"
    and b: "fblock s (sv_i sv) n = b" "b \<noteq> 0" and bs: "length bs = 512"
  shows "io_frame v s (set_sector b bs s)"
proof -
  note w = inode_write_block [OF ok b bs]
  have vi: "vinode (set_sector b bs s) v = sv_i sv" "vinode s v = sv_i sv" using sv by (simp_all add: vinode_def)
  have "b \<in> blocks_of s (sv_i sv)" using b by (auto simp: blocks_of_def)
  moreover have "blocks_of (set_sector b bs s) (sv_i sv) = blocks_of s (sv_i sv)"
    by (simp add: blocks_of_def w(2))
  ultimately show ?thesis unfolding io_frame_def vi using q sv bs w(1) by auto
qed

text \<open>Writing \<open>bs\<close> at offset \<open>p\<close> within one block.\<close>

lemma same_block_conv:
  assumes "p mod 512 + n \<le> (512::nat)"
  shows "p \<le> q \<and> q < p + n \<longleftrightarrow> q div 512 = p div 512 \<and> p mod 512 \<le> q mod 512 \<and> q mod 512 < p mod 512 + n"
proof
  assume "p \<le> q \<and> q < p + n"
  then show "q div 512 = p div 512 \<and> p mod 512 \<le> q mod 512 \<and> q mod 512 < p mod 512 + n"
    using same_block [OF assms, of "q - p"] by auto
next
  assume *: "q div 512 = p div 512 \<and> p mod 512 \<le> q mod 512 \<and> q mod 512 < p mod 512 + n"
  have "q = p div 512 * 512 + q mod 512" using * div_mult_mod_eq [of q 512] by simp
  moreover have "p = p div 512 * 512 + p mod 512" by simp
  ultimately show "p \<le> q \<and> q < p + n" using * by linarith
qed

lemma write_block_post:
  assumes q: "fs_quiet s" and sv: "sfs_heap s v = Some sv" and ok: "inode_ok s (sv_i sv)"
    and b: "fblock s (sv_i sv) (p div 512) = b" "b \<noteq> 0" and bs: "p mod 512 + length bs \<le> 512"
  shows "write_post v bs p s (set_sector b (blit (sector s b) (p mod 512) bs) s)"
proof -
  let ?new = "blit (sector s b) (p mod 512) bs"
  let ?s = "set_sector b ?new s"
  note len = sector_length [OF q, of b]
  have new: "length ?new = 512" using len bs by simp
  have vi: "vinode ?s v = sv_i sv" "vinode s v = sv_i sv" using sv by (simp_all add: vinode_def)
  have "fbyte ?s (sv_i sv) r = (if p \<le> r \<and> r < p + length bs then bs ! (r - p) else fbyte s (sv_i sv) r)" for r
  proof (cases "r div 512 = p div 512")
    case False
    then show ?thesis using inode_write_block(3) [OF ok b new, of r] same_block_conv [OF bs, of r] by auto
  next
    case True
    have r: "fbyte ?s (sv_i sv) r = ?new ! (r mod 512)" using inode_write_block(3) [OF ok b new, of r] True by simp
    have old: "fbyte s (sv_i sv) r = sector s b ! (r mod 512)" using b True by (simp add: fbyte_def)
    have "r - p = r mod 512 - p mod 512" if "p \<le> r"
      using True that div_mult_mod_eq [of r 512] div_mult_mod_eq [of p 512] by linarith
    with r old True nth_blit [of "p mod 512" bs "sector s b" "r mod 512"] len bs same_block_conv [OF bs, of r]
    show ?thesis by auto
  qed
  with io_frame_set_sector [OF q sv ok b new] vi show ?thesis by (simp add: write_post_def)
qed

text \<open>The outcome of a write of at most \<open>n\<close> bytes: \<open>k\<close> of them are transferred, all on success.\<close>

definition write_result :: "nat \<Rightarrow> uio \<Rightarrow> nat \<Rightarrow> nat \<Rightarrow> sfs_fs \<Rightarrow> (unit res \<times> uio \<times> sfs_fs) option \<Rightarrow> bool" where
  "write_result v u p n s res \<longleftrightarrow> (\<exists>r k s'. res = Some (r, uio_advance k u, s') \<and> k \<le> n \<and>
     write_post v (slice (uio_data u) (uio_pos u) k) p s s' \<and>
     (case r of Inr _ \<Rightarrow> k = n | Inl e \<Rightarrow> e = ENOSPC \<or> e = EINVAL))"

lemma write_result_error:
  "write_post v [] p s s' \<Longrightarrow> e = ENOSPC \<or> e = EINVAL \<Longrightarrow> write_result v u p n s (Some (Inl e, u, s'))"
  unfolding write_result_def by (intro exI [of _ "Inl e"] exI [of _ 0] exI [of _ s']) (simp add: slice_def)

lemma write_result_ok:
  "write_post v (slice (uio_data u) (uio_pos u) n) p s s' \<Longrightarrow>
   write_result v u p n s (Some (Inr (), uio_advance n u, s'))"
  unfolding write_result_def by (intro exI [of _ "Inr ()"] exI [of _ n] exI [of _ s']) simp

text \<open>What both block-level routines do first.\<close>

lemma bmap_write_cases:
  assumes q: "fs_quiet s" and sv: "sfs_heap s v = Some sv" and ok: "inode_ok s (sv_i sv)"
    and held: "SvLock v \<in> sfs_held s"
  obtains (error) e s1 where "sfs_bmap v n True s = Some (Inl e, s1)" "e = ENOSPC \<or> e = EINVAL"
      "write_post v [] p s s1"
    | (block) b s1 sv1 where "sfs_bmap v n True s = Some (Inr b, s1)" "write_post v [] p s s1" "b \<noteq> 0"
      "sfs_heap s1 v = Some sv1" "inode_ok s1 (sv_i sv1)" "fblock s1 (sv_i sv1) n = b" "fs_quiet s1"
      "b < nblocks s1" "sfs_held s1 = sfs_held s"
proof -
  from sfs_bmap_alloc [OF q sv ok held, of n] obtain r s1 where call: "sfs_bmap v n True s = Some (r, s1)"
    and post: "if n < 143 then bmap_post v n s r s1 else r = Inl EINVAL \<and> s1 = s" by blast
  show thesis
  proof (cases "n < 143")
    case False
    with post call error [of EINVAL s] write_post_refl [OF q sv ok] show thesis by simp
  next
    case True
    with post have bp: "bmap_post v n s r s1" by simp
    note wp = write_post_bmap [OF bp, of p]
    show thesis
    proof (cases r)
      case (Inl e)
      with bp call wp error show thesis by (auto simp: bmap_post_def)
    next
      case (Inr b)
      obtain sv1 where sv1: "sfs_heap s1 v = Some sv1" "inode_ok s1 (sv_i sv1)" "vinode s1 v = sv_i sv1"
        "fs_quiet s1" "sfs_held s1 = sfs_held s" by (rule write_postD [OF wp])
      have "b \<noteq> 0" "fblock s1 (sv_i sv1) n = b" using bp Inr sv1(3) by (auto simp: bmap_post_def)
      with inode_okD(3) [OF sv1(2), of n] sv1 call Inr wp block show thesis by auto
    qed
  qed
qed

lemma sfs_partialio_write:
  assumes q: "fs_quiet s" and sv: "sfs_heap s v = Some sv" and ok: "inode_ok s (sv_i sv)"
    and held: "SvLock v \<in> sfs_held s"
    and u: "uio_wf u" "uio_quiet u" "uio_dir u = UIO_WRITE" "uio_offset u = int p"
    and n: "n \<le> uio_resid u" "p mod 512 + n \<le> 512"
  shows "write_result v u p n s (sfs_partialio v u (p mod 512) n s)"
proof -
  note unf = sfs_partialio_def sfs_kmalloc_quiet [OF q] off_block(1,2) [OF u(1,4)] u(3,4) Let_def
  from q sv ok held show ?thesis
  proof (cases rule: bmap_write_cases [where n = "p div 512" and p = p])
    case (error e s1)
    with held n write_result_error [OF error(3,2)] show ?thesis by (simp add: unf)
  next
    case (block b s1 sv1)
    let ?bs = "slice (uio_data u) (uio_pos u) n"
    let ?new = "blit (sector s1 b) (p mod 512) ?bs"
    have bs: "length ?bs = n" using u(1) n(1) by (auto simp: uio_wf_def)
    have len: "length (sector s1 b) = 512" "length ?new = 512"
      using sector_length [OF block(7), of b] bs n(2) by simp_all
    have mv: "uiomove (sector s1 b) (p mod 512) n u = Some (Inr (), ?new, uio_advance n u)"
      using n len by (intro uiomove_write [OF u(1-3)]) simp_all
    have "write_post v ?bs p s1 (set_sector b ?new s1)"
      using block(4-7,3) n(2) bs by (intro write_block_post) simp_all
    from write_result_ok [OF write_post_trans_Nil [OF block(2) this]]
    show ?thesis using block(1,3) held n mv rblock_ok [OF block(7,8)] wblock_ok [OF block(7,8) len(2)] u(3)
      by (simp add: unf)
  qed
qed

lemma sfs_blockio_write:
  assumes q: "fs_quiet s" and sv: "sfs_heap s v = Some sv" and ok: "inode_ok s (sv_i sv)"
    and held: "SvLock v \<in> sfs_held s"
    and u: "uio_wf u" "uio_quiet u" "uio_dir u = UIO_WRITE" "uio_offset u = int p"
    and n: "512 \<le> uio_resid u" "p mod 512 = 0"
  shows "write_result v u p 512 s (sfs_blockio v u s)"
proof -
  note unf = sfs_blockio_def off_block(1,2) [OF u(1,4)] u(3,4) Let_def
  from q sv ok held show ?thesis
  proof (cases rule: bmap_write_cases [where n = "p div 512" and p = p])
    case (error e s1)
    with write_result_error [OF error(3,2)] show ?thesis by (simp add: unf)
  next
    case (block b s1 sv1)
    let ?bs = "slice (uio_data u) (uio_pos u) 512"
    have bs: "length ?bs = 512" using u(1) n(1) by (auto simp: uio_wf_def)
    note req = blockio_request [OF block(7,8) u(1,2) n(1)]
    let ?u = "u\<lparr>uio_offset := int b * 512, uio_resid := 512\<rparr>"
    have io: "sfs_rwblock ?u (sfs_device s1) = Some (Inr (), uio_advance 512 ?u,
        (sfs_device s1)\<lparr>sectors := (sector s1)(b := ?bs)\<rparr>)"
      using lhd_io_write [OF fs_quiet_disk [OF block(7)] req(3,1,2)] u(3) by (intro rwblock_ok) simp
    have dev: "s1\<lparr>sfs_device := (sfs_device s1)\<lparr>sectors := (sector s1)(b := ?bs)\<rparr>\<rparr> = set_sector b ?bs s1"
      by (simp add: set_sector_def)
    have off: "0 \<le> uio_offset u" "uio_offset u + int (uio_resid u) < 2 ^ 31" using u(1) by (auto simp: uio_wf_def)
    then have adv: "(uio_advance 512 ?u)\<lparr>uio_offset := 512 + int p,
        uio_resid := u32 (int (uio_resid u) - 512)\<rparr> = uio_advance 512 u"
      using n(1) u(4) by (simp add: uio_advance_def u32_nonneg nat_diff_distrib)
    have "blit (sector s1 b) (p mod 512) ?bs = ?bs"
      using n(2) bs sector_length [OF block(7), of b] by (simp add: blit_all)
    with write_block_post [OF block(7,4,5,6,3), of ?bs] n(2) bs
    have "write_post v ?bs p s1 (set_sector b ?bs s1)" by simp
    from write_result_ok [OF write_post_trans_Nil [OF block(2) this]]
    show ?thesis using block(1,3) n(1) io req(4) off adv u(4) dev by (simp add: unf)
  qed
qed

text \<open>Two transfers in a row.\<close>

lemma slice_append: "slice xs i m @ slice xs (i + m) n = slice xs i (m + n)"
  by (simp add: slice_def take_add add.commute)

lemma write_result_seq:
  assumes 1: "write_result v u p m s res1"
    and 2: "\<And>s1. res1 = Some (Inr (), uio_advance m u, s1) \<Longrightarrow>
      write_post v (slice (uio_data u) (uio_pos u) m) p s s1 \<Longrightarrow>
      write_result v (uio_advance m u) (p + m) n s1 (f (uio_advance m u) s1)"
    and m: "uio_pos u + m \<le> length (uio_data u)"
  shows "write_result v u p (m + n) s
    (Option.bind res1 (\<lambda>(r, u, s). case r of Inl e \<Rightarrow> Some (Inl e, u, s) | Inr _ \<Rightarrow> f u s))"
proof -
  from 1 obtain r k s1 where r: "res1 = Some (r, uio_advance k u, s1)" "k \<le> m"
    "write_post v (slice (uio_data u) (uio_pos u) k) p s s1"
    "case r of Inr _ \<Rightarrow> k = m | Inl e \<Rightarrow> e = ENOSPC \<or> e = EINVAL" unfolding write_result_def by blast
  show ?thesis
  proof (cases r)
    case (Inl e)
    with r show ?thesis unfolding write_result_def
      by (intro exI [of _ "Inl e"] exI [of _ k] exI [of _ s1]) simp
  next
    case (Inr x)
    with r have k: "k = m" "res1 = Some (Inr (), uio_advance m u, s1)" by auto
    from 2 [OF k(2)] r(3) k(1) obtain r2 j s2 where r2: "f (uio_advance m u) s1 = Some (r2, uio_advance j (uio_advance m u), s2)"
      "j \<le> n" "write_post v (slice (uio_data u) (uio_pos u + m) j) (p + m) s1 s2"
      "case r2 of Inr _ \<Rightarrow> j = n | Inl e \<Rightarrow> e = ENOSPC \<or> e = EINVAL" unfolding write_result_def by auto
    have "write_post v (slice (uio_data u) (uio_pos u) (m + j)) p s s2"
      using write_post_trans [of v "slice (uio_data u) (uio_pos u) m" p s s1 "slice (uio_data u) (uio_pos u + m) j" s2]
        r(3) r2(3) k(1) m by (simp add: slice_append)
    with k(2) r2 show ?thesis unfolding write_result_def
      by (intro exI [of _ r2] exI [of _ "m + j"] exI [of _ s2])
        (auto simp: uio_advance_add split: sum.splits)
  qed
qed

lemma sfs_io_blocks_write:
  assumes "fs_quiet s" and "sfs_heap s v = Some sv" and "inode_ok s (sv_i sv)" and "SvLock v \<in> sfs_held s"
    and "uio_wf u" "uio_quiet u" "uio_dir u = UIO_WRITE" "uio_offset u = int p"
    and "k * 512 \<le> uio_resid u" "p mod 512 = 0"
  shows "write_result v u p (k * 512) s (sfs_io_blocks v k u s)"
  using assms
proof (induction k arbitrary: u p s sv)
  case 0
  then show ?case using write_result_ok [of v u 0 p s s] write_post_refl [OF 0(1-3), of p] by (simp add: slice_def)
next
  case (Suc k)
  have "write_result v u p (512 + k * 512) s
      (Option.bind (sfs_blockio v u s) (\<lambda>(r, u, s). case r of Inl e \<Rightarrow> Some (Inl e, u, s) | Inr _ \<Rightarrow> sfs_io_blocks v k u s))"
  proof (rule write_result_seq)
    show "write_result v u p 512 s (sfs_blockio v u s)"
      using Suc.prems by (intro sfs_blockio_write) simp_all
    fix s1 assume "write_post v (slice (uio_data u) (uio_pos u) 512) p s s1"
    then obtain sv1 where sv1: "sfs_heap s1 v = Some sv1" "inode_ok s1 (sv_i sv1)" "fs_quiet s1" "sfs_held s1 = sfs_held s"
      by (rule write_postD)
    show "write_result v (uio_advance 512 u) (p + 512) (k * 512) s1 (sfs_io_blocks v k (uio_advance 512 u) s1)"
      using sv1 Suc.prems by (intro Suc.IH [of s1 sv1]) (simp_all add: uio_wf_advance)
  next
    show "uio_pos u + 512 \<le> length (uio_data u)" using Suc.prems(5,9) by (auto simp: uio_wf_def)
  qed
  then show ?case by simp
qed

lemma sfs_io_lead_write:
  assumes q: "fs_quiet s" and sv: "sfs_heap s v = Some sv" and ok: "inode_ok s (sv_i sv)"
    and held: "SvLock v \<in> sfs_held s"
    and u: "uio_wf u" "uio_quiet u" "uio_dir u = UIO_WRITE" "uio_offset u = int p"
  shows "write_result v u p (lead_len p (uio_resid u)) s (sfs_io_lead v u s)"
proof (cases "p mod 512 = 0")
  case True
  then show ?thesis
    using sfs_io_lead_eq [OF u(1,4)] write_result_ok [of v u 0 p s s] write_post_refl [OF q sv ok, of p]
    by (simp add: lead_len_def slice_def)
next
  case False
  with sfs_io_lead_eq [OF u(1,4)] sfs_partialio_write [OF q sv ok held u lead_len_bounds]
  show ?thesis by simp
qed

lemma sfs_io_tail_write:
  assumes q: "fs_quiet s" and sv: "sfs_heap s v = Some sv" and ok: "inode_ok s (sv_i sv)"
    and held: "SvLock v \<in> sfs_held s"
    and u: "uio_wf u" "uio_quiet u" "uio_dir u = UIO_WRITE" "uio_offset u = int p"
    and n: "n = uio_resid u" "n < 512" "p mod 512 = 0"
  shows "write_result v u p n s (do {
     kassert (uio_resid u < SFS_BLOCKSIZE);
     if uio_resid u > 0 then sfs_partialio v u 0 (uio_resid u) s else Some (Inr (), u, s) })"
proof (cases "n = 0")
  case True
  then show ?thesis
    using n write_result_ok [of v u 0 p s s] write_post_refl [OF q sv ok, of p] by (simp add: slice_def)
next
  case False
  with sfs_partialio_write [OF q sv ok held u, of n] n show ?thesis by simp
qed

lemma sfs_io_rest_write:
  assumes q: "fs_quiet s" and sv: "sfs_heap s v = Some sv" and ok: "inode_ok s (sv_i sv)"
    and held: "SvLock v \<in> sfs_held s"
    and u: "uio_wf u" "uio_quiet u" "uio_dir u = UIO_WRITE" "uio_offset u = int p" and al: "p mod 512 = 0"
  shows "write_result v u p (uio_resid u) s (do {
     (r, u, s) \<leftarrow> sfs_io_blocks v (uio_resid u div SFS_BLOCKSIZE) u s;
     case r of
       Inl e \<Rightarrow> Some (Inl e, u, s)
     | Inr _ \<Rightarrow> do {
         kassert (uio_resid u < SFS_BLOCKSIZE);
         if uio_resid u > 0 then sfs_partialio v u 0 (uio_resid u) s else Some (Inr (), u, s)
       } })"
proof -
  let ?k = "uio_resid u div 512"
  have k: "?k * 512 \<le> uio_resid u" "?k * 512 + uio_resid u mod 512 = uio_resid u" by simp_all
  have "write_result v u p (?k * 512 + uio_resid u mod 512) s (do {
     (r, u, s) \<leftarrow> sfs_io_blocks v (uio_resid u div SFS_BLOCKSIZE) u s;
     case r of
       Inl e \<Rightarrow> Some (Inl e, u, s)
     | Inr _ \<Rightarrow> do {
         kassert (uio_resid u < SFS_BLOCKSIZE);
         if uio_resid u > 0 then sfs_partialio v u 0 (uio_resid u) s else Some (Inr (), u, s)
       } })"
  proof (rule write_result_seq)
    show "write_result v u p (?k * 512) s (sfs_io_blocks v ?k u s)"
      by (rule sfs_io_blocks_write [OF q sv ok held u k(1) al])
    fix s1 assume "write_post v (slice (uio_data u) (uio_pos u) (?k * 512)) p s s1"
    then obtain sv1 where sv1: "sfs_heap s1 v = Some sv1" "inode_ok s1 (sv_i sv1)" "fs_quiet s1" "sfs_held s1 = sfs_held s"
      by (rule write_postD)
    have "SvLock v \<in> sfs_held s1" "uio_wf (uio_advance (?k * 512) u)"
      using sv1(4) held uio_wf_advance [OF u(1) k(1)] by simp_all
    then show "write_result v (uio_advance (?k * 512) u) (p + ?k * 512) (uio_resid u mod 512) s1 (do {
         kassert (uio_resid (uio_advance (?k * 512) u) < SFS_BLOCKSIZE);
         if uio_resid (uio_advance (?k * 512) u) > 0
         then sfs_partialio v (uio_advance (?k * 512) u) 0 (uio_resid (uio_advance (?k * 512) u)) s1
         else Some (Inr (), uio_advance (?k * 512) u, s1) })"
      using u al k(2) by (intro sfs_io_tail_write [OF sv1(3,1,2)]) (simp_all add: minus_div_mult_eq_mod)
  next
    show "uio_pos u + ?k * 512 \<le> length (uio_data u)" using u(1) k(1) unfolding uio_wf_def by linarith
  qed
  then show ?thesis using k(2) by simp
qed

lemma sfs_io_body_write:
  assumes q: "fs_quiet s" and sv: "sfs_heap s v = Some sv" and ok: "inode_ok s (sv_i sv)"
    and held: "SvLock v \<in> sfs_held s"
    and u: "uio_wf u" "uio_quiet u" "uio_dir u = UIO_WRITE" "uio_offset u = int p"
  shows "write_result v u p (uio_resid u) s (sfs_io_body v u s)"
proof -
  define m where "m = lead_len p (uio_resid u)"
  have m: "m \<le> uio_resid u" unfolding m_def by (rule lead_len_bounds)
  have "write_result v u p (m + (uio_resid u - m)) s (sfs_io_body v u s)"
    unfolding sfs_io_body_def
  proof (rule write_result_seq)
    show "write_result v u p m s (sfs_io_lead v u s)"
      unfolding m_def by (rule sfs_io_lead_write [OF q sv ok held u])
    show "uio_pos u + m \<le> length (uio_data u)" using u(1) m unfolding uio_wf_def by linarith
    fix s1 assume "write_post v (slice (uio_data u) (uio_pos u) m) p s s1"
    then obtain sv1 where sv1: "sfs_heap s1 v = Some sv1" "inode_ok s1 (sv_i sv1)" "fs_quiet s1" "sfs_held s1 = sfs_held s"
      by (rule write_postD)
    have h1: "SvLock v \<in> sfs_held s1" and u1: "uio_wf (uio_advance m u)"
      using sv1(4) held uio_wf_advance [OF u(1) m] by simp_all
    show "write_result v (uio_advance m u) (p + m) (uio_resid u - m) s1
      (if uio_resid (uio_advance m u) = 0 then Some (Inr (), uio_advance m u, s1)
       else do {
         kassert (cmod (uio_offset (uio_advance m u)) (int SFS_BLOCKSIZE) = 0);
         (r, u, s) \<leftarrow> sfs_io_blocks v (uio_resid (uio_advance m u) div SFS_BLOCKSIZE) (uio_advance m u) s1;
         case r of
           Inl e \<Rightarrow> Some (Inl e, u, s)
         | Inr _ \<Rightarrow> do {
             kassert (uio_resid u < SFS_BLOCKSIZE);
             if uio_resid u > 0 then sfs_partialio v u 0 (uio_resid u) s else Some (Inr (), u, s)
           }
       })"
    proof (cases "m = uio_resid u")
      case True
      then show ?thesis
        using write_result_ok [of v "uio_advance m u" 0 "p + m" s1 s1] write_post_refl [OF sv1(3,1,2), of "p + m"]
        by (simp add: slice_def)
    next
      case False
      have al: "(p + m) mod 512 = 0" using lead_len_aligned False by (simp add: m_def)
      have off: "uio_offset (uio_advance m u) = int (p + m)" using u(4) by simp
      have "cmod (uio_offset (uio_advance m u)) 512 = 0" using off_block(3) [OF u1 off] al off by simp
      moreover have "uio_resid (uio_advance m u) \<noteq> 0" using False m by simp
      ultimately show ?thesis
        using sfs_io_rest_write [OF sv1(3,1,2) h1 u1 _ _ off al] u(2,3) by (simp del: uio_advance_simps(4))
    qed
  qed
  with m show ?thesis by simp
qed

text \<open>The new size, and the whole of a write.\<close>

lemma sfs_io_write:
  assumes q: "fs_quiet s" and sv: "sfs_heap s v = Some sv" and ok: "inode_ok s (sv_i sv)"
    and held: "SvLock v \<in> sfs_held s" and sz: "sfi_size (sv_i sv) < 2 ^ 31"
    and u: "uio_wf u" "uio_quiet u" "uio_dir u = UIO_WRITE" "uio_offset u = int p"
  shows "\<exists>r k s'. sfs_io v u s = Some (r, uio_advance k u, s') \<and> k \<le> uio_resid u \<and> io_frame v s s' \<and>
    sfi_size (vinode s' v) = max (sfi_size (sv_i sv)) (p + k) \<and>
    (\<forall>x. fbyte s' (vinode s' v) x =
       (if p \<le> x \<and> x < p + k then uio_data u ! (uio_pos u + (x - p)) else fbyte s (sv_i sv) x)) \<and>
    (case r of Inr _ \<Rightarrow> k = uio_resid u | Inl e \<Rightarrow> e = ENOSPC \<or> e = EINVAL)"
proof -
  from sfs_io_body_write [OF q sv ok held u] obtain r k s1 where
    body: "sfs_io_body v u s = Some (r, uio_advance k u, s1)" and k: "k \<le> uio_resid u" and
    wp: "write_post v (slice (uio_data u) (uio_pos u) k) p s s1" and
    r: "case r of Inr _ \<Rightarrow> k = uio_resid u | Inl e \<Rightarrow> e = ENOSPC \<or> e = EINVAL"
    unfolding write_result_def by blast
  obtain sv1 where sv1: "sfs_heap s1 v = Some sv1" "inode_ok s1 (sv_i sv1)" "vinode s1 v = sv_i sv1"
    "fs_quiet s1" "sfs_held s1 = sfs_held s" by (rule write_postD [OF wp])
  have room: "uio_pos u + k \<le> length (uio_data u)" "p + k < 2 ^ 31"
    using u(1,4) k by (auto simp: uio_wf_def)
  have vi: "vinode s v = sv_i sv" using sv by (simp add: vinode_def)
  have size1: "sfi_size (sv_i sv1) = sfi_size (sv_i sv)" and fr: "io_frame v s s1"
    and bytes: "fbyte s1 (sv_i sv1) x = (if p \<le> x \<and> x < p + k then uio_data u ! (uio_pos u + (x - p))
      else fbyte s (sv_i sv) x)" for x
    using wp room(1) sv1(3) vi by (auto simp: write_post_def nth_slice)
  let ?sv = "sv1\<lparr>sv_i := (sv_i sv1)\<lparr>sfi_size := p + k\<rparr>, sv_dirty := True\<rparr>"
  define s2 where "s2 = (if p + k > sfi_size (sv_i sv) then sv_put v ?sv s1 else s1)"
  have fb: "fblock s2 (vinode s2 v) = fblock s1 (sv_i sv1)" "sfi_indirect (vinode s2 v) = sfi_indirect (sv_i sv1)"
    using sv1(3) by (auto simp: s2_def vinode_def fblock_def)
  have "io_frame v s1 s2"
    using sv1 io_frame_refl [OF sv1(4,1,2)] fb
    by (auto simp: io_frame_def s2_def vinode_def sv_erase_def inode_ok_def blocks_of_def)
  then have frame: "io_frame v s s2" by (rule io_frame_trans [OF fr])
  have b2: "fbyte s2 (vinode s2 v) = fbyte s1 (sv_i sv1)"
    using fb(1) by (auto simp: fbyte_def s2_def fun_eq_iff Let_def)
  have size2: "sfi_size (vinode s2 v) = max (sfi_size (sv_i sv)) (p + k)"
    using size1 sv1(3) by (auto simp: s2_def vinode_def)
  have n32: "u32 (int p + int k) = p + k" "off32 (int (sfi_size (sv_i sv))) = int (sfi_size (sv_i sv))"
    "u32 (int (uio_resid u - k)) = uio_resid u - k"
    using room(2) sz u(1,4) k by (auto simp: u32_def uio_wf_def nat_add_distrib)
  have "sfs_io_out v 0 r (uio_advance k u) s1 = Some (r, uio_advance k u, s2)"
    using sv1(1) u(3,4) n32 size1 k by (auto simp: sfs_io_out_def sv_get_def s2_def Let_def uio_advance_def)
  with body sv held u(3) have "sfs_io v u s = Some (r, uio_advance k u, s2)"
    by (simp add: sfs_io_def sv_get_def)
  with k r frame size2 bytes b2 show ?thesis by (metis (no_types, lifting))
qed

section \<open>Properties\<close>

text \<open>The vnode lock is taken and given back.\<close>

definition sv_locked :: "nat \<Rightarrow> sfs_fs \<Rightarrow> sfs_fs" where
  "sv_locked v s = s\<lparr>sfs_held := insert (SvLock v) (sfs_held s)\<rparr>"

lemma sv_locked_simps [simp]:
  "super (sv_locked v s) = super s" "sfs_vnodes (sv_locked v s) = sfs_vnodes s"
  "sfs_freemap (sv_locked v s) = sfs_freemap s" "sfs_heap (sv_locked v s) = sfs_heap s"
  "sfs_fresh (sv_locked v s) = sfs_fresh s" "sfs_held (sv_locked v s) = insert (SvLock v) (sfs_held s)"
  "sfs_mem (sv_locked v s) = sfs_mem s" "sfs_device (sv_locked v s) = sfs_device s"
  by (simp_all add: sv_locked_def)

lemma sv_locked_facts [simp]:
  "fs_quiet (sv_locked v s) = fs_quiet s" "fblock (sv_locked v s) = fblock s"
  "inode_ok (sv_locked v s) = inode_ok s" "fbyte (sv_locked v s) = fbyte s" "fbytes (sv_locked v s) = fbytes s"
  "blocks_of (sv_locked v s) = blocks_of s" "vinode (sv_locked v s) = vinode s"
  by (auto simp: fs_quiet_def fs_wf_def fun_eq_iff fblock_def inode_ok_def fbyte_def fbytes_def blocks_of_def
      vinode_def Let_def)

lemma held_update_facts [simp]:
  "fblock (s\<lparr>sfs_held := h\<rparr>) = fblock s" "inode_ok (s\<lparr>sfs_held := h\<rparr>) = inode_ok s"
  "fbyte (s\<lparr>sfs_held := h\<rparr>) = fbyte s" "blocks_of (s\<lparr>sfs_held := h\<rparr>) = blocks_of s"
  "vinode (s\<lparr>sfs_held := h\<rparr>) = vinode s"
  by (auto simp: fun_eq_iff fblock_def inode_ok_def fbyte_def blocks_of_def vinode_def Let_def)

lemma io_frame_unlock:
  assumes fr: "io_frame v (sv_locked v s) s'" and free: "SvLock v \<notin> sfs_held s"
  shows "io_frame v s (s'\<lparr>sfs_held := sfs_held s' - {SvLock v}\<rparr>)"
proof -
  have "sfs_held s' - {SvLock v} = sfs_held s" using fr free by (simp add: io_frame_def)
  moreover have "fs_quiet (s'\<lparr>sfs_held := sfs_held s\<rparr>)"
    using fr by (auto simp: io_frame_def fs_quiet_def fs_wf_def)
  ultimately show ?thesis using fr by (simp add: io_frame_def)
qed

lemma sfs_read_spec:
  assumes "fs_quiet s" and "sfs_heap s v = Some sv" and "inode_ok s (sv_i sv)"
    and "sfi_size (sv_i sv) \<le> SFS_MAXBLOCKS * SFS_BLOCKSIZE" and "SvLock v \<notin> sfs_held s"
    and "uio_wf u" and "uio_quiet u" and "uio_dir u = UIO_READ" and "uio_offset u = int p" and "0 < uio_resid u"
  shows "sfs_read v u s =
    Some (Inr (), uio_receive (fbytes s (sv_i sv) p (min (uio_resid u) (sfi_size (sv_i sv) - p))) u, s)"
proof -
  have "sfs_io v u (sv_locked v s) =
      Some (Inr (), uio_receive (fbytes s (sv_i sv) p (min (uio_resid u) (sfi_size (sv_i sv) - p))) u, sv_locked v s)"
    using sfs_io_read [of "sv_locked v s" v sv u p] assms by simp
  moreover have "(sv_locked v s)\<lparr>sfs_held := sfs_held s\<rparr> = s" by (simp add: sv_locked_def)
  ultimately show ?thesis using assms(2,5,8)
    by (simp add: sfs_read_def sv_get_def sv_locked_def)
qed

text \<open>C2: \<^verbatim>\<open>sfs_read\<close> on a healthy disk returns exactly the bytes of the file from the offset up to the
  smaller of the request and the end of the file, holes reading as zeros. The \<^verbatim>\<open>uio\<close> advances by the
  number of bytes read and keeps the rest as its residue, and the file system, its locks included,
  is as it was.\<close>

theorem sfs_read_correct:
  assumes "fs_quiet s" and "sfs_heap s v = Some sv" and "inode_ok s (sv_i sv)"
    and "sfi_size (sv_i sv) \<le> SFS_MAXBLOCKS * SFS_BLOCKSIZE" and "SvLock v \<notin> sfs_held s"
    and "uio_wf u" and "uio_quiet u" and "uio_dir u = UIO_READ" and "uio_offset u = int p" and "0 < uio_resid u"
  shows "sfs_read v u s =
    Some (Inr (), uio_receive (fbytes s (sv_i sv) p (min (uio_resid u) (sfi_size (sv_i sv) - p))) u, s)"
  by (rule sfs_read_spec [OF assms])

lemma sfs_write_spec:
  assumes "fs_quiet s" and "sfs_heap s v = Some sv" and "inode_ok s (sv_i sv)"
    and "sfi_size (sv_i sv) < 2 ^ 31" and "SvLock v \<notin> sfs_held s"
    and "uio_wf u" and "uio_quiet u" and "uio_dir u = UIO_WRITE" and "uio_offset u = int p"
  shows "\<exists>r k s'. sfs_write v u s = Some (r, uio_advance k u, s') \<and> k \<le> uio_resid u \<and>
    (case r of Inr _ \<Rightarrow> k = uio_resid u | Inl e \<Rightarrow> e = ENOSPC \<or> e = EINVAL) \<and>
    sfi_size (vinode s' v) = max (sfi_size (sv_i sv)) (p + k) \<and>
    (\<forall>x. fbyte s' (vinode s' v) x =
       (if p \<le> x \<and> x < p + k then uio_data u ! (uio_pos u + (x - p)) else fbyte s (sv_i sv) x)) \<and>
    io_frame v s s'"
proof -
  obtain r k s1 where io: "sfs_io v u (sv_locked v s) = Some (r, uio_advance k u, s1)" "k \<le> uio_resid u"
    "io_frame v (sv_locked v s) s1" "sfi_size (vinode s1 v) = max (sfi_size (sv_i sv)) (p + k)"
    "\<forall>x. fbyte s1 (vinode s1 v) x =
       (if p \<le> x \<and> x < p + k then uio_data u ! (uio_pos u + (x - p)) else fbyte s (sv_i sv) x)"
    "case r of Inr _ \<Rightarrow> k = uio_resid u | Inl e \<Rightarrow> e = ENOSPC \<or> e = EINVAL"
    using sfs_io_write [of "sv_locked v s" v sv u p] assms by auto
  have "SvLock v \<in> sfs_held s1" using io(3) by (simp add: io_frame_def)
  then have "sfs_write v u s = Some (r, uio_advance k u, s1\<lparr>sfs_held := sfs_held s1 - {SvLock v}\<rparr>)"
    using io(1) assms(2,5,8) by (simp add: sfs_write_def sv_get_def sv_locked_def)
  with io(2,4-6) io_frame_unlock [OF io(3) assms(5)] show ?thesis
    by (intro exI [of _ r] exI [of _ k] exI [of _ "s1\<lparr>sfs_held := sfs_held s1 - {SvLock v}\<rparr>"]) simp
qed

text \<open>C1: \<^verbatim>\<open>sfs_write\<close> on a healthy disk always returns, and transfers some number \<open>k\<close> of bytes: all of
  them when it succeeds, fewer only with \<^verbatim>\<open>ENOSPC\<close> or \<^verbatim>\<open>EINVAL\<close> (past the largest file). The file then
  has the \<open>k\<close> bytes at the offset and is unchanged elsewhere, its size is the larger of the old size
  and the end of the write, and the frame condition holds: no other vnode, no allocated block outside
  the file and no lock has changed, and the file's blocks are still pairwise different and allocated.\<close>

theorem sfs_write_correct:
  assumes "fs_quiet s" and "sfs_heap s v = Some sv" and "inode_ok s (sv_i sv)"
    and "sfi_size (sv_i sv) < 2 ^ 31" and "SvLock v \<notin> sfs_held s"
    and "uio_wf u" and "uio_quiet u" and "uio_dir u = UIO_WRITE" and "uio_offset u = int p"
  shows "\<exists>r k s'. sfs_write v u s = Some (r, uio_advance k u, s') \<and> k \<le> uio_resid u \<and>
    (case r of Inr _ \<Rightarrow> k = uio_resid u | Inl e \<Rightarrow> e = ENOSPC \<or> e = EINVAL) \<and>
    sfi_size (vinode s' v) = max (sfi_size (sv_i sv)) (p + k) \<and>
    (\<forall>x. fbyte s' (vinode s' v) x =
       (if p \<le> x \<and> x < p + k then uio_data u ! (uio_pos u + (x - p)) else fbyte s (sv_i sv) x)) \<and>
    io_frame v s s'"
  by (rule sfs_write_spec [OF assms])

text \<open>C3: a write to one file does not change the bytes of another file whose blocks are disjoint from
  it, whatever the outcome of the write.\<close>

theorem sfs_write_isolation:
  assumes "fs_quiet s" and "sfs_heap s v = Some sv" and "inode_ok s (sv_i sv)"
    and "sfi_size (sv_i sv) < 2 ^ 31" and "SvLock v \<notin> sfs_held s"
    and "uio_wf u" and "uio_quiet u" and "uio_dir u = UIO_WRITE" and "uio_offset u = int p"
    and "inode_ok s i" and "blocks_of s i \<inter> blocks_of s (sv_i sv) = {}"
  shows "\<exists>r u' s'. sfs_write v u s = Some (r, u', s') \<and> fbyte s' i = fbyte s i \<and> inode_ok s' i \<and>
    blocks_of s' i \<inter> blocks_of s' (vinode s' v) = {}"
proof -
  obtain r k s1 where io: "sfs_io v u (sv_locked v s) = Some (r, uio_advance k u, s1)"
    "io_frame v (sv_locked v s) s1"
    using sfs_io_write [of "sv_locked v s" v sv u p] assms by auto
  let ?s = "s1\<lparr>sfs_held := sfs_held s1 - {SvLock v}\<rparr>"
  have fr: "io_frame v s ?s" by (rule io_frame_unlock [OF io(2) assms(5)])
  have "SvLock v \<in> sfs_held s1" using io(2) by (simp add: io_frame_def)
  then have call: "sfs_write v u s = Some (r, uio_advance k u, ?s)"
    using io(1) assms(2,5,8) by (simp add: sfs_write_def sv_get_def sv_locked_def)
  have vi: "vinode s v = sv_i sv" using assms(2) by (simp add: vinode_def)
  note other = io_frame_other [OF fr assms(10), unfolded vi, OF assms(11)]
  have "blocks_of ?s (vinode ?s v) \<subseteq> blocks_of s (sv_i sv) \<union> (used ?s - used s)"
    using fr vi unfolding io_frame_def by simp
  then have "blocks_of ?s i \<inter> blocks_of ?s (vinode ?s v) = {}"
    using other(3) assms(11) blocks_of_used [OF assms(10)] by blast
  with call other show ?thesis by blast
qed

text \<open>A small volume: eight blocks, a file of five bytes in block 2 and another one in block 3.\<close>

definition demo_inode :: "nat \<Rightarrow> sfs_inode" where
  "demo_inode b = \<lparr>sfi_size = 5, sfi_type = SFS_TYPE_FILE, sfi_linkcount = 1, sfi_direct = b # replicate 14 0,
     sfi_indirect = 0, sfi_waste = replicate 440 0\<rparr>"

definition demo_vnode :: sfs_vnode where
  "demo_vnode = \<lparr>sv_i = demo_inode 2, sv_ino = 1, sv_dirty = False, vn_refcount = 1, vn_opencount = 0,
     vn_ops = sfs_fileops\<rparr>"

definition demo_fs :: sfs_fs where
  "demo_fs = \<lparr>super = \<lparr>sp_magic = SFS_MAGIC, sp_nblocks = 8, sp_volname = replicate 32 0, sp_reserved = replicate 472 0\<rparr>,
     sfs_superdirty = False,
     sfs_device = \<lparr>d_blocks = 8, sectors = (\<lambda>b. replicate 512 (of_nat b)), lh_status = []\<rparr>,
     sfs_vnodes = \<lparr>a_num = 1, a_max = 1, a_v = Some [Some 0]\<rparr>,
     sfs_freemap = \<lparr>nbits = 8, bm_v = [0x0F]\<rparr>, sfs_freemapdirty = False,
     sfs_heap = [0 \<mapsto> demo_vnode], sfs_fresh = 1, sfs_held = {}, sfs_mem = []\<rparr>"

lemma demo_fs_simps [simp]:
  "sfs_heap demo_fs 0 = Some demo_vnode" "sfs_held demo_fs = {}" "sv_i demo_vnode = demo_inode 2"
  "sp_nblocks (super demo_fs) = 8" "sfi_size (demo_inode b) = 5" "sfi_indirect (demo_inode b) = 0"
  "sfi_direct (demo_inode b) = b # replicate 14 0"
  by (simp_all add: demo_fs_def demo_vnode_def demo_inode_def)

lemma demo_used: "b < 4 \<Longrightarrow> b \<in> used demo_fs"
proof -
  assume "b < 4"
  then have "b = 0 \<or> b = 1 \<or> b = 2 \<or> b = 3" by arith
  then show ?thesis by (elim disjE) (simp_all add: demo_fs_def bitmap_set_def bm_bit_def)
qed

lemma demo_quiet: "fs_quiet demo_fs"
  using demo_used [of 0]
  by (auto simp: fs_quiet_def fs_wf_def disk_wf_def demo_fs_def bitmap_inv_def DIVROUNDUP_def)

lemma demo_fblock: "fblock s (demo_inode b) n = (if n = 0 then b else 0)"
  by (auto simp: fblock_def nth_Cons split: nat.split)

lemma demo_inode_ok: "0 < b \<Longrightarrow> b < 4 \<Longrightarrow> inode_ok demo_fs (demo_inode b)"
  using demo_used by (auto simp: inode_ok_def demo_fblock)

definition demo_uio :: "uio_rw \<Rightarrow> uio" where
  "demo_uio rw = mk_kuio [1, 2, 3, 4] 4 3 rw"

lemma demo_uio_ok:
  "uio_wf (demo_uio rw)" "uio_quiet (demo_uio rw)" "uio_dir (demo_uio rw) = rw"
  "uio_offset (demo_uio rw) = int 3" "uio_resid (demo_uio rw) = 4"
  by (simp_all add: demo_uio_def uio_wf_def) (simp add: mk_kuio_def)

theorem sfs_read_correct_witness:
  "\<exists>u. sfs_read 0 (demo_uio UIO_READ) demo_fs = Some (Inr (), u, demo_fs) \<and> uio_data u = [2, 2, 3, 4] \<and> uio_resid u = 2"
proof -
  have "fbytes demo_fs (demo_inode 2) 3 2 = [2, 2]"
    by (simp add: fbytes_def fbyte_def demo_fblock demo_fs_def upt_rec)
  then show ?thesis
    using sfs_read_correct [OF demo_quiet demo_fs_simps(1), of "demo_uio UIO_READ" 3] demo_inode_ok [of 2] demo_uio_ok
    by (simp add: demo_uio_def blit_def)
qed

theorem sfs_write_correct_witness:
  "\<exists>r k s'. sfs_write 0 (demo_uio UIO_WRITE) demo_fs = Some (r, uio_advance k (demo_uio UIO_WRITE), s') \<and> k \<le> 4 \<and>
     sfi_size (vinode s' 0) = max 5 (3 + k)"
proof -
  from sfs_write_correct [OF demo_quiet demo_fs_simps(1), of "demo_uio UIO_WRITE" 3] demo_inode_ok [of 2] demo_uio_ok
  obtain r k s' where "sfs_write 0 (demo_uio UIO_WRITE) demo_fs = Some (r, uio_advance k (demo_uio UIO_WRITE), s')"
    "k \<le> 4" "sfi_size (vinode s' 0) = max 5 (3 + k)" by auto
  then show ?thesis by blast
qed

theorem sfs_write_isolation_witness:
  "\<exists>r u' s'. sfs_write 0 (demo_uio UIO_WRITE) demo_fs = Some (r, u', s') \<and>
     fbyte s' (demo_inode 3) = fbyte demo_fs (demo_inode 3)"
proof -
  have "blocks_of demo_fs (demo_inode 3) \<inter> blocks_of demo_fs (demo_inode 2) = {}"
    by (auto simp: blocks_of_def demo_fblock)
  with sfs_write_isolation [OF demo_quiet demo_fs_simps(1), of "demo_uio UIO_WRITE" 3 "demo_inode 3"]
    demo_inode_ok [of 2] demo_inode_ok [of 3] demo_uio_ok
  obtain r u' s' where "sfs_write 0 (demo_uio UIO_WRITE) demo_fs = Some (r, u', s')"
    "fbyte s' (demo_inode 3) = fbyte demo_fs (demo_inode 3)" by auto
  then show ?thesis by blast
qed

text \<open>\<^verbatim>\<open>sfs_balloc\<close> on a healthy disk either finds every block in use and returns \<^verbatim>\<open>ENOSPC\<close> without
  changing anything, or returns a block of the volume that was free and is not the superblock; that
  block is then marked and cleared on the disk, and no other block or mark has changed. Its panic on
  a block past the end of the volume cannot happen.\<close>

theorem sfs_balloc_correct:
  assumes "fs_quiet s"
  shows "(used s = {..<nbits (sfs_freemap s)} \<and> sfs_balloc s = Some (Inl ENOSPC, s)) \<or>
    (\<exists>b s'. sfs_balloc s = Some (Inr b, s') \<and> b < nblocks s \<and> b \<notin> used s \<and> 0 < b \<and>
       used s' = insert b (used s) \<and> sector s' = (sector s)(b := replicate SFS_BLOCKSIZE 0) \<and>
       sfs_heap s' = sfs_heap s \<and> sfs_held s' = sfs_held s \<and> fs_quiet s')"
  using sfs_balloc_spec [OF assms] by fastforce

theorem sfs_balloc_correct_witness:
  "(used demo_fs = {..<8} \<and> sfs_balloc demo_fs = Some (Inl ENOSPC, demo_fs)) \<or>
   (\<exists>b s'. sfs_balloc demo_fs = Some (Inr b, s') \<and> b < 8 \<and> b \<notin> used demo_fs \<and> used s' = insert b (used demo_fs))"
proof -
  have "nbits (sfs_freemap demo_fs) = 8" by (simp add: demo_fs_def)
  with sfs_balloc_correct [OF demo_quiet] show ?thesis by auto
qed

text \<open>C4: \<^verbatim>\<open>sfs_bmap\<close> without allocation looks up the block map of the file and changes nothing, and
  with allocation, for any of the 143 blocks a file can have, it returns the number of a nonzero
  block that the file's map then has at that place, leaving every byte of the file as it was (a hole
  becomes a block of zeros), or \<^verbatim>\<open>ENOSPC\<close>. Past block 142 it returns \<^verbatim>\<open>EINVAL\<close> and changes nothing.\<close>

theorem sfs_bmap_correct:
  assumes "fs_quiet s" and "sfs_heap s v = Some sv" and "inode_ok s (sv_i sv)" and "SvLock v \<in> sfs_held s"
  shows "if n < SFS_MAXBLOCKS
    then sfs_bmap v n False s = Some (Inr (fblock s (sv_i sv) n), s) \<and>
      (\<exists>r s'. sfs_bmap v n True s = Some (r, s') \<and> io_frame v s s' \<and>
         fbyte s' (vinode s' v) = fbyte s (sv_i sv) \<and> sfi_size (vinode s' v) = sfi_size (sv_i sv) \<and>
         (case r of Inl e \<Rightarrow> e = ENOSPC | Inr b \<Rightarrow> b \<noteq> 0 \<and> fblock s' (vinode s' v) n = b))
    else sfs_bmap v n al s = Some (Inl EINVAL, s)"
proof -
  have vi: "vinode s v = sv_i sv" using assms(2) by (simp add: vinode_def)
  from sfs_bmap_alloc [OF assms, of n] obtain r s' where call: "sfs_bmap v n True s = Some (r, s')"
    and post: "if n < 143 then bmap_post v n s r s' else r = Inl EINVAL \<and> s' = s" by blast
  show ?thesis
  proof (cases "n < 143")
    case True
    with call post sfs_bmap_lookup [OF assms, of n] vi show ?thesis
      by (auto simp: bmap_post_def)
  next
    case False
    with call post sfs_bmap_lookup [OF assms, of n] show ?thesis by (cases al) auto
  qed
qed

theorem sfs_bmap_correct_witness:
  "sfs_bmap 0 0 False (sv_locked 0 demo_fs) = Some (Inr 2, sv_locked 0 demo_fs)"
proof -
  have "fs_quiet (sv_locked 0 demo_fs)" "inode_ok (sv_locked 0 demo_fs) (demo_inode 2)"
    using demo_quiet demo_inode_ok [of 2] by simp_all
  with sfs_bmap_correct [of "sv_locked 0 demo_fs" 0 demo_vnode 0] show ?thesis by (simp add: demo_fblock)
qed

end
