(* ===== verification/K_Sfs_Dir.thy ===== *)
theory K_Sfs_Dir
  imports K_Sfs_Io
begin

text \<open>
  Directory I/O of \<^verbatim>\<open>kern/fs/sfs/sfs_vnode.c\<close>: \<^verbatim>\<open>sfs_readdir\<close>, \<^verbatim>\<open>sfs_writedir\<close>,
  \<^verbatim>\<open>sfs_dir_nentries\<close>, \<^verbatim>\<open>sfs_dir_findname\<close>, \<^verbatim>\<open>sfs_dir_link\<close> and \<^verbatim>\<open>sfs_dir_unlink\<close>. A directory is
  a file of 64-byte entries; \<open>entries\<close> is the list of them and \<open>dirmap\<close> the finite map from names to
  inode numbers that they stand for.
\<close>

section \<open>The code\<close>

abbreviation (input) DIRSIZE :: nat where "DIRSIZE \<equiv> 64"

definition sfs_readdir :: "nat \<Rightarrow> int \<Rightarrow> sfs_fs \<Rightarrow> (sfs_dir res \<times> sfs_fs) option" where
  "sfs_readdir v slot s = do {
     kassert (SvLock v \<in> sfs_held s);
     let actualpos = off32 (slot * int DIRSIZE);
     (r, u, s) \<leftarrow> sfs_io v (mk_kuio (replicate DIRSIZE 0) DIRSIZE actualpos UIO_READ) s;
     case r of
       Inl e \<Rightarrow> Some (Inl e, s)
     | Inr _ \<Rightarrow> do {
         kassert (uio_resid u = 0);
         Some (Inr (decode_dir (uio_data u)), s)
       }
   }"

definition sfs_writedir :: "nat \<Rightarrow> sfs_dir \<Rightarrow> int \<Rightarrow> sfs_fs \<Rightarrow> (unit res \<times> sfs_fs) option" where
  "sfs_writedir v sd slot s = do {
     kassert (SvLock v \<in> sfs_held s);
     kassert (slot \<ge> 0);
     let actualpos = off32 (slot * int DIRSIZE);
     (r, u, s) \<leftarrow> sfs_io v (mk_kuio (encode_dir sd) DIRSIZE actualpos UIO_WRITE) s;
     case r of
       Inl e \<Rightarrow> Some (Inl e, s)
     | Inr _ \<Rightarrow> do {
         kassert (uio_resid u = 0);
         Some (Inr (), s)
       }
   }"

definition sfs_dir_nentries :: "nat \<Rightarrow> sfs_fs \<Rightarrow> int option" where
  "sfs_dir_nentries v s = do {
     sv \<leftarrow> sv_get v s;
     kassert (SvLock v \<in> sfs_held s);
     kassert (sfi_type (sv_i sv) = SFS_TYPE_DIR);
     let size = u32 (off32 (int (sfi_size (sv_i sv))));
     kassert (size mod DIRSIZE = 0);
     Some (int (size div DIRSIZE))
   }"

text \<open>The name in an entry, with the terminating zero that \<^verbatim>\<open>sfs_dir_findname\<close> puts in.\<close>

definition sd_name :: "sfs_dir \<Rightarrow> byte list" where
  "sd_name sd = cstr ((sfd_name sd)[SFS_NAMELEN - 1 := 0])"

text \<open>The loop over the slots: \<open>k\<close> slots are left, beginning with \<open>i\<close>; \<open>found\<close> is the entry found so
  far and \<open>emp\<close> the value in \<^verbatim>\<open>*emptyslot\<close>.\<close>

fun findname_loop :: "nat \<Rightarrow> byte list \<Rightarrow> int \<Rightarrow> nat \<Rightarrow> (nat \<times> int) option \<Rightarrow> int \<Rightarrow> sfs_fs \<Rightarrow>
    ((nat \<times> int) res \<times> int \<times> sfs_fs) option" where
  "findname_loop v name i 0 found emp s =
     Some (case found of Some p \<Rightarrow> Inr p | None \<Rightarrow> Inl ENOENT, emp, s)"
| "findname_loop v name i (Suc k) found emp s = do {
     (r, s) \<leftarrow> sfs_readdir v i s;
     case r of
       Inl e \<Rightarrow> Some (Inl e, emp, s)
     | Inr tsd \<Rightarrow>
         if sfd_ino tsd = SFS_NOINO then findname_loop v name (i + 1) k found i s
         else if sd_name tsd = name then do {
           kassert (found = None);
           findname_loop v name (i + 1) k (Some (sfd_ino tsd, i)) emp s
         }
         else findname_loop v name (i + 1) k found emp s
   }"

text \<open>The result is the inode number and the slot of the name; \<open>emp\<close> is the initial value of
  \<^verbatim>\<open>*emptyslot\<close>, and its final value is the second component.\<close>

definition sfs_dir_findname :: "nat \<Rightarrow> byte list \<Rightarrow> int \<Rightarrow> sfs_fs \<Rightarrow> ((nat \<times> int) res \<times> int \<times> sfs_fs) option" where
  "sfs_dir_findname v name emp s = do {
     nentries \<leftarrow> sfs_dir_nentries v s;
     kassert (SvLock v \<in> sfs_held s);
     findname_loop v name 0 (nat nentries) None emp s
   }"

definition sfs_dir_link :: "nat \<Rightarrow> byte list \<Rightarrow> nat \<Rightarrow> sfs_fs \<Rightarrow> (int res \<times> sfs_fs) option" where
  "sfs_dir_link v name ino s = do {
     kassert (SvLock v \<in> sfs_held s);
     (r, emptyslot, s) \<leftarrow> sfs_dir_findname v name (- 1) s;
     case r of
       Inr _ \<Rightarrow> Some (Inl EEXIST, s)
     | Inl e \<Rightarrow>
         if e \<noteq> ENOENT then Some (Inl e, s)
         else if length name + 1 > SFS_NAMELEN then Some (Inl ENAMETOOLONG, s)
         else do {
           slot \<leftarrow> (if emptyslot < 0 then sfs_dir_nentries v s else Some emptyslot);
           let sd = \<lparr>sfd_ino = ino, sfd_name = name @ replicate (SFS_NAMELEN - length name) 0\<rparr>;
           (r, s) \<leftarrow> sfs_writedir v sd slot s;
           case r of
             Inl e \<Rightarrow> Some (Inl e, s)
           | Inr _ \<Rightarrow> Some (Inr slot, s)
         }
   }"

definition free_dir :: sfs_dir where
  "free_dir = \<lparr>sfd_ino = SFS_NOINO, sfd_name = replicate SFS_NAMELEN 0\<rparr>"

definition sfs_dir_unlink :: "nat \<Rightarrow> int \<Rightarrow> sfs_fs \<Rightarrow> (unit res \<times> sfs_fs) option" where
  "sfs_dir_unlink v slot s = do {
     kassert (SvLock v \<in> sfs_held s);
     sfs_writedir v free_dir slot s
   }"

section \<open>The entries of a directory\<close>

definition dir_entry :: "sfs_fs \<Rightarrow> sfs_inode \<Rightarrow> nat \<Rightarrow> sfs_dir" where
  "dir_entry s i n = decode_dir (fbytes s i (n * DIRSIZE) DIRSIZE)"

definition entries :: "sfs_fs \<Rightarrow> sfs_inode \<Rightarrow> sfs_dir list" where
  "entries s i = map (dir_entry s i) [0..<sfi_size i div DIRSIZE]"

definition dir_ok :: "sfs_fs \<Rightarrow> sfs_inode \<Rightarrow> bool" where
  "dir_ok s i \<longleftrightarrow> inode_ok s i \<and> sfi_type i = SFS_TYPE_DIR \<and> sfi_size i mod DIRSIZE = 0 \<and>
     sfi_size i \<le> SFS_MAXBLOCKS * SFS_BLOCKSIZE"

text \<open>Whether an entry is in use under a name.\<close>

definition names :: "byte list \<Rightarrow> sfs_dir \<Rightarrow> bool" where
  "names name e \<longleftrightarrow> sfd_ino e \<noteq> SFS_NOINO \<and> sd_name e = name"

definition unique_names :: "sfs_dir list \<Rightarrow> bool" where
  "unique_names es \<longleftrightarrow> (\<forall>m < length es. \<forall>n < length es.
     sfd_ino (es ! m) \<noteq> 0 \<longrightarrow> sfd_ino (es ! n) \<noteq> 0 \<longrightarrow> sd_name (es ! m) = sd_name (es ! n) \<longrightarrow> m = n)"

definition dirmap :: "sfs_dir list \<Rightarrow> byte list \<Rightarrow> nat option" where
  "dirmap es name = map_option sfd_ino (find (names name) es)"

lemma length_entries [simp]: "length (entries s i) = sfi_size i div 64"
  by (simp add: entries_def)

lemma nth_entries: "n < sfi_size i div 64 \<Longrightarrow> entries s i ! n = dir_entry s i n"
  by (simp add: entries_def)

lemma dir_ok_nentries:
  assumes "sfs_heap s v = Some sv" and "dir_ok s (sv_i sv)" and "SvLock v \<in> sfs_held s"
  shows "sfs_dir_nentries v s = Some (int (sfi_size (sv_i sv) div 64))"
proof -
  have "sfi_size (sv_i sv) < 2 ^ 31" using assms(2) by (simp add: dir_ok_def)
  then show ?thesis using assms by (simp add: sfs_dir_nentries_def sv_get_def dir_ok_def)
qed

lemma sfs_readdir_ok:
  assumes q: "fs_quiet s" and sv: "sfs_heap s v = Some sv" and ok: "dir_ok s (sv_i sv)"
    and held: "SvLock v \<in> sfs_held s" and n: "n < sfi_size (sv_i sv) div 64"
  shows "sfs_readdir v (int n) s = Some (Inr (dir_entry s (sv_i sv) n), s)"
proof -
  let ?size = "sfi_size (sv_i sv)" and ?u = "mk_kuio (replicate 64 0) 64 (int (n * 64)) UIO_READ"
  have size: "?size \<le> 73216" "?size mod 64 = 0" and iok: "inode_ok s (sv_i sv)" using ok by (auto simp: dir_ok_def)
  have n64: "n * 64 + 64 \<le> ?size"
  proof -
    have "(n + 1) * 64 \<le> ?size div 64 * 64" using n by (intro mult_le_mono1) simp
    then show ?thesis using size(2) by (simp add: minus_mod_eq_div_mult [symmetric])
  qed
  have "uio_wf ?u" using n64 size(1) by (simp add: uio_wf_def) (simp add: mk_kuio_def)
  moreover have "64 = min (uio_resid ?u) (?size - n * 64)" using n64 by simp
  ultimately have "sfs_io v ?u s = Some (Inr (), uio_receive (fbytes s (sv_i sv) (n * 64) 64) ?u, s)"
    using size(1) by (intro sfs_io_read [OF q sv iok held]) simp_all
  moreover have "off32 (int n * 64) = int (n * 64)" using n64 size(1) by simp
  ultimately show ?thesis using held by (simp add: sfs_readdir_def dir_entry_def blit_all)
qed

section \<open>Finding a name\<close>

text \<open>The last free slot among the first \<open>n\<close>, if there is one.\<close>

fun last_free :: "sfs_dir list \<Rightarrow> nat \<Rightarrow> int \<Rightarrow> int" where
  "last_free es 0 d = d"
| "last_free es (Suc n) d = (if sfd_ino (es ! n) = 0 then int n else last_free es n d)"

text \<open>What the loop has found among the first \<open>i\<close> entries.\<close>

definition scanned :: "sfs_dir list \<Rightarrow> byte list \<Rightarrow> nat \<Rightarrow> (nat \<times> int) option \<Rightarrow> bool" where
  "scanned es name i found \<longleftrightarrow> (case found of
     None \<Rightarrow> \<forall>j < i. \<not> names name (es ! j)
   | Some p \<Rightarrow> \<exists>j < i. names name (es ! j) \<and> p = (sfd_ino (es ! j), int j))"

lemma scanned_skip: "scanned es name i found \<Longrightarrow> \<not> names name (es ! i) \<Longrightarrow> scanned es name (Suc i) found"
  by (auto simp: scanned_def less_Suc_eq split: option.splits)

lemma scanned_hit: "names name (es ! i) \<Longrightarrow> scanned es name (Suc i) (Some (sfd_ino (es ! i), int i))"
  by (auto simp: scanned_def)

lemma scanned_unique:
  assumes "scanned es name i found" and "names name (es ! i)" and "i < length es" and "unique_names es"
  shows "found = None"
proof (rule ccontr)
  assume "found \<noteq> None"
  with assms(1) obtain j where "j < i" "names name (es ! j)" by (auto simp: scanned_def)
  with assms(2-4) show False unfolding unique_names_def names_def by (metis less_irrefl less_trans)
qed

lemma findname_loop_spec:
  assumes q: "fs_quiet s" and sv: "sfs_heap s v = Some sv" and ok: "dir_ok s (sv_i sv)"
    and held: "SvLock v \<in> sfs_held s" and es: "es = entries s (sv_i sv)" and uniq: "unique_names es"
    and "i + k = length es" and "scanned es name i found" and "emp = last_free es i d"
  shows "\<exists>f. findname_loop v name (int i) k found emp s =
      Some (case f of Some p \<Rightarrow> Inr p | None \<Rightarrow> Inl ENOENT, last_free es (length es) d, s) \<and>
    scanned es name (length es) f"
  using assms(7-9)
proof (induction k arbitrary: i found emp)
  case 0
  then show ?case by (intro exI [of _ found]) simp
next
  case (Suc k)
  have i: "i < length es" using Suc.prems(1) by simp
  then have rd: "sfs_readdir v (int i) s = Some (Inr (es ! i), s)"
    using sfs_readdir_ok [OF q sv ok held, of i] by (simp add: es nth_entries)
  have step: "int i + 1 = int (Suc i)" by simp
  note IH = Suc.IH [of "Suc i", folded step] and unf = findname_loop.simps(2)
  show ?case
  proof (cases "names name (es ! i)")
    case hit: True
    have "found = None" using scanned_unique [OF Suc.prems(2) hit i uniq] .
    with IH [of "Some (sfd_ino (es ! i), int i)" emp] scanned_hit [OF hit] Suc.prems hit rd show ?thesis
      unfolding unf by (simp add: names_def)
  next
    case miss: False
    note sc = scanned_skip [OF Suc.prems(2) miss]
    show ?thesis
    proof (cases "sfd_ino (es ! i) = 0")
      case True
      with IH [of found "int i"] sc Suc.prems rd show ?thesis unfolding unf by simp
    next
      case False
      with IH [of found emp] sc Suc.prems miss rd show ?thesis unfolding unf by (simp add: names_def)
    qed
  qed
qed

lemma sfs_dir_findname_spec:
  assumes q: "fs_quiet s" and sv: "sfs_heap s v = Some sv" and ok: "dir_ok s (sv_i sv)"
    and held: "SvLock v \<in> sfs_held s" and es: "es = entries s (sv_i sv)" and uniq: "unique_names es"
  shows "\<exists>f. sfs_dir_findname v name d s =
      Some (case f of Some p \<Rightarrow> Inr p | None \<Rightarrow> Inl ENOENT, last_free es (length es) d, s) \<and>
    scanned es name (length es) f"
proof -
  have "scanned es name 0 None" by (simp add: scanned_def)
  from findname_loop_spec [OF q sv ok held es uniq _ this, of "length es" d d]
  obtain f where "findname_loop v name 0 (length es) None d s =
      Some (case f of Some p \<Rightarrow> Inr p | None \<Rightarrow> Inl ENOENT, last_free es (length es) d, s)"
    "scanned es name (length es) f" by auto
  with dir_ok_nentries [OF sv ok held] held show ?thesis
    by (intro exI [of _ f]) (simp add: sfs_dir_findname_def es)
qed

text \<open>In terms of the map.\<close>

lemma dirmap_None: "(\<forall>j < length es. \<not> names name (es ! j)) \<longleftrightarrow> dirmap es name = None"
  by (auto simp: dirmap_def find_None_iff in_set_conv_nth)

lemma dirmap_Some:
  assumes "unique_names es" and "j < length es" and "names name (es ! j)"
  shows "dirmap es name = Some (sfd_ino (es ! j))"
proof -
  obtain x where x: "find (names name) es = Some x" using assms(2,3) find_None_iff [of "names name" es] nth_mem by fastforce
  then obtain k where k: "k < length es" "names name (es ! k)" "x = es ! k" by (auto simp: find_Some_iff)
  then have "k = j" using assms unfolding unique_names_def names_def by metis
  with x k show ?thesis by (simp add: dirmap_def)
qed

lemma scanned_dirmap:
  "unique_names es \<Longrightarrow> scanned es name (length es) f \<Longrightarrow> map_option fst f = dirmap es name"
  by (auto simp: scanned_def dirmap_None dirmap_Some split: option.splits)

section \<open>Writing an entry\<close>

text \<open>A write that stays within one block is one call of \<^verbatim>\<open>sfs_partialio\<close>, which fails before it has
  transferred anything.\<close>

lemma sfs_partialio_write_cases:
  assumes q: "fs_quiet s" and sv: "sfs_heap s v = Some sv" and ok: "inode_ok s (sv_i sv)"
    and held: "SvLock v \<in> sfs_held s"
    and u: "uio_wf u" "uio_quiet u" "uio_dir u = UIO_WRITE" "uio_offset u = int p"
    and n: "n \<le> uio_resid u" "p mod 512 + n \<le> 512"
  shows "\<exists>r s'. sfs_partialio v u (p mod 512) n s =
    Some (r, case r of Inl _ \<Rightarrow> u | Inr _ \<Rightarrow> uio_advance n u, s') \<and> (r = Inr () \<longrightarrow> p div 512 < SFS_MAXBLOCKS)"
proof -
  note unf = sfs_partialio_def sfs_kmalloc_quiet [OF q] off_block(1,2) [OF u(1,4)] u(3,4) Let_def
  from q sv ok held show ?thesis
  proof (cases rule: bmap_write_cases [where n = "p div 512" and p = p])
    case (error e s1)
    with held n show ?thesis by (intro exI [of _ "Inl e"] exI [of _ s1]) (simp add: unf)
  next
    case (block b s1 sv1)
    have bound: "p div 512 < 143" using block(1) sfs_bmap_alloc [OF q sv ok held, of "p div 512"] by (auto split: if_splits)
    let ?new = "blit (sector s1 b) (p mod 512) (slice (uio_data u) (uio_pos u) n)"
    have "length (slice (uio_data u) (uio_pos u) n) = n" using u(1) n(1) by (auto simp: uio_wf_def)
    then have len: "length (sector s1 b) = 512" "length ?new = 512"
      using sector_length [OF block(7), of b] n(2) by simp_all
    have "uiomove (sector s1 b) (p mod 512) n u = Some (Inr (), ?new, uio_advance n u)"
      using n len by (intro uiomove_write [OF u(1-3)]) simp_all
    with block(1,3) held n rblock_ok [OF block(7,8)] wblock_ok [OF block(7,8) len(2)] u(3) bound show ?thesis
      by (intro exI [of _ "Inr ()"] exI [of _ "set_sector b ?new s1"]) (simp add: unf)
  qed
qed

lemma sfs_io_one_block:
  assumes q: "fs_quiet s" and sv: "sfs_heap s v = Some sv" and ok: "inode_ok s (sv_i sv)"
    and held: "SvLock v \<in> sfs_held s"
    and u: "uio_wf u" "uio_quiet u" "uio_dir u = UIO_WRITE" "uio_offset u = int p"
    and n: "0 < uio_resid u" "uio_resid u < 512" "p mod 512 + uio_resid u \<le> 512"
  shows "sfs_io v u s = do {
    (r, u, s) \<leftarrow> sfs_partialio v u (p mod 512) (uio_resid u) s;
    sfs_io_out v 0 r u s }"
proof -
  obtain r s1 where pio: "sfs_partialio v u (p mod 512) (uio_resid u) s =
      Some (r, case r of Inl _ \<Rightarrow> u | Inr _ \<Rightarrow> uio_advance (uio_resid u) u, s1)"
    using sfs_partialio_write_cases [OF q sv ok held u le_refl n(3)] by blast
  have lead: "lead_len p (uio_resid u) = uio_resid u" if "p mod 512 \<noteq> 0" using that n by (auto simp: lead_len_def)
  have "cmod (int p) 512 = 0" if "p mod 512 = 0" using off_block(3) [OF u(1,4)] that by simp
  with pio n u(4) have "sfs_io_body v u s =
      Some (r, case r of Inl _ \<Rightarrow> u | Inr _ \<Rightarrow> uio_advance (uio_resid u) u, s1)"
    by (cases r; cases "p mod 512 = 0") (simp_all add: sfs_io_body_def sfs_io_lead_eq [OF u(1,4)] lead)
  with pio sv held u(3) show ?thesis by (cases r) (simp_all add: sfs_io_def sv_get_def)
qed

text \<open>One entry: all of it is written or nothing.\<close>

lemma sfs_io_write_slot:
  assumes q: "fs_quiet s" and sv: "sfs_heap s v = Some sv" and ok: "inode_ok s (sv_i sv)"
    and held: "SvLock v \<in> sfs_held s" and sz: "sfi_size (sv_i sv) < 2 ^ 31"
    and u: "uio_wf u" "uio_quiet u" "uio_dir u = UIO_WRITE" "uio_offset u = int p"
    and n: "0 < uio_resid u" "uio_resid u < 512" "p mod 512 + uio_resid u \<le> 512"
  shows "\<exists>r k s'. sfs_io v u s = Some (r, uio_advance k u, s') \<and> io_frame v s s' \<and>
    sfi_size (vinode s' v) = max (sfi_size (sv_i sv)) (p + k) \<and>
    (\<forall>x. fbyte s' (vinode s' v) x =
       (if p \<le> x \<and> x < p + k then uio_data u ! (uio_pos u + (x - p)) else fbyte s (sv_i sv) x)) \<and>
    (case r of Inr _ \<Rightarrow> k = uio_resid u \<and> p div 512 < SFS_MAXBLOCKS | Inl e \<Rightarrow> k = 0 \<and> (e = ENOSPC \<or> e = EINVAL))"
proof -
  from sfs_io_write [OF q sv ok held sz u] obtain r k s' where
    io: "sfs_io v u s = Some (r, uio_advance k u, s')" and k: "k \<le> uio_resid u" and rest: "io_frame v s s'"
    "sfi_size (vinode s' v) = max (sfi_size (sv_i sv)) (p + k)"
    "\<forall>x. fbyte s' (vinode s' v) x =
       (if p \<le> x \<and> x < p + k then uio_data u ! (uio_pos u + (x - p)) else fbyte s (sv_i sv) x)"
    and r: "case r of Inr _ \<Rightarrow> k = uio_resid u | Inl e \<Rightarrow> e = ENOSPC \<or> e = EINVAL" by blast
  obtain r1 s1 where pio: "sfs_partialio v u (p mod 512) (uio_resid u) s =
      Some (r1, case r1 of Inl _ \<Rightarrow> u | Inr _ \<Rightarrow> uio_advance (uio_resid u) u, s1)" and
    bound: "r1 = Inr () \<longrightarrow> p div 512 < 143"
    using sfs_partialio_write_cases [OF q sv ok held u le_refl n(3)] by blast
  have "r1 = r" and res: "uio_resid (uio_advance k u) = u32 (int (uio_resid (case r1 of Inl _ \<Rightarrow> u | Inr _ \<Rightarrow> uio_advance (uio_resid u) u)))"
    using io sfs_io_one_block [OF q sv ok held u n] pio
    by (auto simp: sfs_io_out_def Let_def elim!: bind_SomeE dest: arg_cong [where f = uio_resid])
  have "k = 0" if "r = Inl e" for e
    using res that \<open>r1 = r\<close> k n(1,2) by (simp add: u32_def)
  with rest r io bound \<open>r1 = r\<close> show ?thesis
    by (intro exI [of _ r] exI [of _ k] exI [of _ s']) (auto split: sum.splits)
qed

lemma dir_entry_write:
  assumes bytes: "\<And>x. fbyte s' i' x =
      (if n * 64 \<le> x \<and> x < n * 64 + 64 then encode_dir sd ! (x - n * 64) else fbyte s i x)" and sd: "dir_wf sd"
  shows "dir_entry s' i' m = (if m = n then sd else dir_entry s i m)"
proof (cases "m = n")
  case True
  have "fbytes s' i' (n * 64) 64 = encode_dir sd"
    using sd by (intro nth_equalityI) (simp_all add: fbytes_def bytes)
  with True sd show ?thesis by (simp add: dir_entry_def decode_dir_encode)
next
  case False
  have "fbyte s' i' x = fbyte s i x" if "x \<in> set [m * 64..<m * 64 + 64]" for x
  proof -
    have "x div 64 = m" using that by auto
    then have "\<not> (n * 64 \<le> x \<and> x < n * 64 + 64)" using False by auto
    then show ?thesis unfolding bytes by (rule if_not_P)
  qed
  then have "fbytes s' i' (m * 64) 64 = fbytes s i (m * 64) 64" unfolding fbytes_def by (intro map_cong) simp_all
  with False show ?thesis by (simp add: dir_entry_def)
qed

definition put_entry :: "sfs_dir list \<Rightarrow> nat \<Rightarrow> sfs_dir \<Rightarrow> sfs_dir list" where
  "put_entry es n sd = (if n < length es then es[n := sd] else es @ [sd])"

lemma entries_write:
  assumes e: "\<And>m. dir_entry s' i' m = (if m = n then sd else dir_entry s i m)"
    and n: "n \<le> sfi_size i div 64" and size: "sfi_size i mod 64 = 0" "sfi_size i' = max (sfi_size i) (n * 64 + 64)"
  shows "entries s' i' = put_entry (entries s i) n sd" and "sfi_size i' mod 64 = 0"
proof -
  have sz: "sfi_size i = sfi_size i div 64 * 64" using size(1) by auto
  have size': "sfi_size i' = max (sfi_size i div 64) (n + 1) * 64" using size(2) sz by (auto simp: max_def)
  then show "sfi_size i' mod 64 = 0" by simp
  from size' have "sfi_size i' div 64 = max (sfi_size i div 64) (n + 1)" by simp
  then show "entries s' i' = put_entry (entries s i) n sd"
    using n by (intro nth_equalityI) (auto simp: put_entry_def entries_def e nth_append nth_list_update max_def split: if_splits)
qed

lemma io_frame_type:
  "io_frame v s s' \<Longrightarrow> sfs_heap s v = Some sv \<Longrightarrow> sfi_type (vinode s' v) = sfi_type (sv_i sv)"
proof -
  assume fr: "io_frame v s s'" and sv: "sfs_heap s v = Some sv"
  obtain sv' where sv': "sfs_heap s' v = Some sv'" "vinode s' v = sv_i sv'" by (rule io_frame_vnode [OF fr])
  with fr sv have "sv_erase sv' = sv_erase sv" by (simp add: io_frame_def)
  then have "sfi_type (sv_i (sv_erase sv')) = sfi_type (sv_i (sv_erase sv))" by simp
  with sv'(2) show ?thesis by (simp add: sv_erase_def)
qed

lemma sfs_writedir_spec:
  assumes q: "fs_quiet s" and sv: "sfs_heap s v = Some sv" and ok: "dir_ok s (sv_i sv)"
    and held: "SvLock v \<in> sfs_held s" and n: "n \<le> sfi_size (sv_i sv) div 64" and sd: "dir_wf sd"
  shows "\<exists>r s'. sfs_writedir v sd (int n) s = Some (r, s') \<and> io_frame v s s' \<and> dir_ok s' (vinode s' v) \<and>
    (case r of
       Inl e \<Rightarrow> (e = ENOSPC \<or> e = EINVAL) \<and> entries s' (vinode s' v) = entries s (sv_i sv)
     | Inr _ \<Rightarrow> entries s' (vinode s' v) = put_entry (entries s (sv_i sv)) n sd)"
proof -
  let ?i = "sv_i sv" and ?u = "mk_kuio (encode_dir sd) 64 (int (n * 64)) UIO_WRITE"
  have size: "sfi_size ?i \<le> 73216" "sfi_size ?i mod 64 = 0" and iok: "inode_ok s ?i"
    and ty: "sfi_type ?i = 2" using ok by (auto simp: dir_ok_def)
  have n64: "n * 64 \<le> sfi_size ?i" using n size(2) by auto
  have wf: "uio_wf ?u" using n64 size(1) sd by (simp add: uio_wf_def) (simp add: mk_kuio_def)
  have al: "n * 64 mod 512 + 64 \<le> (512::nat)"
  proof -
    have "n mod 8 * 64 = n * 64 mod 512" using mult_mod_left [of n 8 64] by simp
    moreover have "n mod 8 \<le> 7" using mod_less_divisor [of 8 n] by linarith
    ultimately show ?thesis by linarith
  qed
  have io: "\<exists>r k s'. sfs_io v ?u s = Some (r, uio_advance k ?u, s') \<and> io_frame v s s' \<and>
    sfi_size (vinode s' v) = max (sfi_size ?i) (n * 64 + k) \<and>
    (\<forall>x. fbyte s' (vinode s' v) x =
       (if n * 64 \<le> x \<and> x < n * 64 + k then uio_data ?u ! (uio_pos ?u + (x - n * 64)) else fbyte s ?i x)) \<and>
    (case r of Inr _ \<Rightarrow> k = uio_resid ?u \<and> n * 64 div 512 < 143 | Inl e \<Rightarrow> k = 0 \<and> (e = ENOSPC \<or> e = EINVAL))"
    using al size(1) wf by (intro sfs_io_write_slot [OF q sv iok held]) simp_all
  from io [unfolded mk_kuio_simps add_0] obtain r k s' where r: "sfs_io v ?u s = Some (r, uio_advance k ?u, s')" and fr: "io_frame v s s'"
    and sz: "sfi_size (vinode s' v) = max (sfi_size ?i) (n * 64 + k)"
    and bytes: "\<And>x. fbyte s' (vinode s' v) x =
       (if n * 64 \<le> x \<and> x < n * 64 + k then encode_dir sd ! (x - n * 64) else fbyte s ?i x)"
    and res: "case r of Inr _ \<Rightarrow> k = 64 \<and> n * 64 div 512 < 143 | Inl e \<Rightarrow> k = 0 \<and> (e = ENOSPC \<or> e = EINVAL)"
    by blast
  have ok': "inode_ok s' (vinode s' v)" "sfi_type (vinode s' v) = 2"
    using fr io_frame_type [OF fr sv] ty by (simp_all add: io_frame_def)
  have off: "off32 (int n * 64) = int (n * 64)" using n64 size(1) by simp
  show ?thesis
  proof (cases r)
    case (Inl e)
    with res have k: "k = 0" by simp
    have "fbyte s' (vinode s' v) = fbyte s ?i" by (rule ext) (unfold bytes k, auto)
    then have "entries s' (vinode s' v) = entries s ?i" "sfi_size (vinode s' v) = sfi_size ?i"
      using sz k n64 by (simp_all add: entries_def dir_entry_def fbytes_def)
    with Inl r fr ok' size res held off show ?thesis
      by (intro exI [of _ r] exI [of _ s']) (simp add: sfs_writedir_def dir_ok_def)
  next
    case (Inr x)
    with res have k: "k = 64" "n * 64 div 512 < 143" by simp_all
    have "n * 64 + 64 \<le> 73216" using k(2) al div_mult_mod_eq [of "n * 64" 512] by linarith
    moreover note dir_entry_write [OF bytes [unfolded k(1)] sd]
    note entries_write [OF this n size(2) sz [unfolded k(1)]]
    ultimately show ?thesis using Inr r fr ok' size held off k sz
      by (intro exI [of _ r] exI [of _ s']) (simp add: sfs_writedir_def dir_ok_def)
  qed
qed

section \<open>Names after a change\<close>

lemma last_free_cases:
  "last_free es n (- 1) = - 1 \<or> (\<exists>m < n. last_free es n (- 1) = int m \<and> sfd_ino (es ! m) = 0)"
  by (induction n) (auto simp: less_Suc_eq)

lemma length_put_entry: "length (put_entry es n sd) = (if n < length es then length es else Suc (length es))"
  by (simp add: put_entry_def)

lemma nth_put_entry: "n \<le> length es \<Longrightarrow> m < length (put_entry es n sd) \<Longrightarrow>
    put_entry es n sd ! m = (if m = n then sd else es ! m)"
  by (auto simp: put_entry_def nth_append nth_list_update split: if_splits)

lemma dirmap_put:
  assumes uniq: "unique_names es" and n: "n \<le> length es"
    and old: "n < length es \<Longrightarrow> sfd_ino (es ! n) = 0"
    and new: "sfd_ino sd = 0 \<or> dirmap es (sd_name sd) = None"
  shows "unique_names (put_entry es n sd)"
    and "dirmap (put_entry es n sd) =
      (if sfd_ino sd = 0 then dirmap es else (dirmap es)(sd_name sd \<mapsto> sfd_ino sd))"
proof -
  let ?es = "put_entry es n sd"
  have nth: "?es ! m = (if m = n then sd else es ! m)" if "m < length ?es" for m using nth_put_entry [OF n that] .
  have lt: "m < length es" if "m < length ?es" "m \<noteq> n" for m
    using that n by (auto simp: length_put_entry split: if_splits)
  have fresh: "\<not> names (sd_name sd) (es ! m)" if "sfd_ino sd \<noteq> 0" "m < length es" for m
    using new that dirmap_None by blast
  show u: "unique_names ?es" unfolding unique_names_def
  proof (intro allI impI)
    fix m k assume *: "m < length ?es" "k < length ?es" "sfd_ino (?es ! m) \<noteq> 0" "sfd_ino (?es ! k) \<noteq> 0"
      "sd_name (?es ! m) = sd_name (?es ! k)"
    show "m = k"
    proof (cases "m = n \<or> k = n")
      case False
      with * nth lt uniq show ?thesis unfolding unique_names_def by auto
    next
      case True
      with * nth [OF *(1)] nth [OF *(2)] fresh [OF _ lt [OF *(1)]] fresh [OF _ lt [OF *(2)]] show ?thesis
        by (auto simp: names_def split: if_splits)
    qed
  qed
  show "dirmap ?es = (if sfd_ino sd = 0 then dirmap es else (dirmap es)(sd_name sd \<mapsto> sfd_ino sd))"
  proof (rule ext)
    fix name
    have mem: "n < length ?es" "?es ! n = sd" using nth [of n] n by (auto simp: length_put_entry)
    show "dirmap ?es name = (if sfd_ino sd = 0 then dirmap es else (dirmap es)(sd_name sd \<mapsto> sfd_ino sd)) name"
    proof (cases "names name sd")
      case True
      with dirmap_Some [OF u mem(1), of name] mem(2) show ?thesis by (auto simp: names_def)
    next
      case no: False
      then have rhs: "(if sfd_ino sd = 0 then dirmap es else (dirmap es)(sd_name sd \<mapsto> sfd_ino sd)) name = dirmap es name"
        by (auto simp: names_def)
      show ?thesis
      proof (cases "\<exists>j < length es. names name (es ! j)")
        case True
        then obtain j where j: "j < length es" "names name (es ! j)" by blast
        then have jn: "j \<noteq> n" "j < length ?es" using old by (auto simp: names_def length_put_entry)
        with j nth [of j] dirmap_Some [OF u, of j name] dirmap_Some [OF uniq j] rhs show ?thesis by simp
      next
        case False
        then have "\<forall>j < length ?es. \<not> names name (?es ! j)" using nth lt no by auto
        with False rhs show ?thesis by (simp add: dirmap_None)
      qed
    qed
  qed
qed

text \<open>Erasing the entry in slot \<open>n\<close>.\<close>

lemma dirmap_erase:
  assumes uniq: "unique_names es" and n: "n < length es" and used: "sfd_ino (es ! n) \<noteq> 0" and sd: "sfd_ino sd = 0"
  shows "unique_names (put_entry es n sd)"
    and "dirmap (put_entry es n sd) = (dirmap es)(sd_name (es ! n) := None)"
proof -
  let ?es = "put_entry es n sd"
  have nth: "?es ! m = (if m = n then sd else es ! m)" "length ?es = length es" if "m < length es" for m
    using nth_put_entry [of n es m sd] n that by (auto simp: length_put_entry)
  show u: "unique_names ?es" using uniq nth sd n unfolding unique_names_def by auto
  show "dirmap ?es = (dirmap es)(sd_name (es ! n) := None)"
  proof (rule ext)
    fix name
    show "dirmap ?es name = ((dirmap es)(sd_name (es ! n) := None)) name"
    proof (cases "\<exists>j < length es. j \<noteq> n \<and> names name (es ! j)")
      case True
      then obtain j where j: "j < length es" "j \<noteq> n" "names name (es ! j)" by blast
      then have "sd_name (es ! n) \<noteq> name" using uniq n used unfolding unique_names_def names_def by metis
      with j nth [OF j(1)] dirmap_Some [OF u, of j name] dirmap_Some [OF uniq j(1,3)] show ?thesis by simp
    next
      case False
      then have none: "dirmap ?es name = None" using nth n sd by (auto simp: dirmap_None [symmetric] names_def)
      have "dirmap es name = None" if "sd_name (es ! n) \<noteq> name"
        unfolding dirmap_None [symmetric] using False that by (auto simp: names_def)
      with none show ?thesis by auto
    qed
  qed
qed

section \<open>Linking and unlinking\<close>

definition link_entry :: "byte list \<Rightarrow> nat \<Rightarrow> sfs_dir" where
  "link_entry name ino = \<lparr>sfd_ino = ino, sfd_name = name @ replicate (SFS_NAMELEN - length name) 0\<rparr>"

lemma link_entry_wf: "length name < 60 \<Longrightarrow> ino < 2 ^ 32 \<Longrightarrow> dir_wf (link_entry name ino)"
  by (simp add: dir_wf_def link_entry_def)

lemma sd_name_link_entry:
  assumes "is_cstr name" and "length name < 60"
  shows "sd_name (link_entry name ino) = name"
proof -
  have "(name @ replicate (60 - length name) 0)[59 := 0] = name @ replicate (60 - length name) 0"
    using assms(2) by (simp add: list_update_append nth_replicate list_update_same_conv)
  moreover have "replicate (60 - length name) 0 = 0 # replicate (59 - length name) (0::byte)"
    using assms(2) by (simp add: replicate_Suc [symmetric] Suc_diff_le del: replicate_Suc)
  ultimately show ?thesis using assms(1) by (simp add: sd_name_def link_entry_def cstr_append)
qed

text \<open>The state of a directory: quiet, locked, with distinct names.\<close>

definition dir_state :: "nat \<Rightarrow> sfs_fs \<Rightarrow> bool" where
  "dir_state v s \<longleftrightarrow> fs_quiet s \<and> sfs_heap s v \<noteq> None \<and> dir_ok s (vinode s v) \<and> SvLock v \<in> sfs_held s \<and>
     unique_names (entries s (vinode s v))"

lemma dir_stateE:
  assumes "dir_state v s"
  obtains sv where "fs_quiet s" "sfs_heap s v = Some sv" "dir_ok s (sv_i sv)" "SvLock v \<in> sfs_held s"
    "unique_names (entries s (sv_i sv))" "vinode s v = sv_i sv"
  using assms by (auto simp: dir_state_def vinode_def)

lemma dir_stateI:
  "io_frame v s s' \<Longrightarrow> dir_ok s' (vinode s' v) \<Longrightarrow> SvLock v \<in> sfs_held s \<Longrightarrow>
   unique_names (entries s' (vinode s' v)) \<Longrightarrow> dir_state v s'"
  by (auto simp: dir_state_def io_frame_def)

definition dir_names :: "nat \<Rightarrow> sfs_fs \<Rightarrow> byte list \<Rightarrow> nat option" where
  "dir_names v s = dirmap (entries s (vinode s v))"

lemma dir_findname:
  assumes "dir_state v s"
  shows "(dir_names v s name = None \<and> sfs_dir_findname v name d s =
      Some (Inl ENOENT, last_free (entries s (vinode s v)) (length (entries s (vinode s v))) d, s)) \<or>
    (\<exists>n < length (entries s (vinode s v)). names name (entries s (vinode s v) ! n) \<and>
       dir_names v s name = Some (sfd_ino (entries s (vinode s v) ! n)) \<and>
       sfs_dir_findname v name d s = Some (Inr (sfd_ino (entries s (vinode s v) ! n), int n),
         last_free (entries s (vinode s v)) (length (entries s (vinode s v))) d, s))"
proof -
  from assms obtain sv where sv: "fs_quiet s" "sfs_heap s v = Some sv" "dir_ok s (sv_i sv)" "SvLock v \<in> sfs_held s"
    "unique_names (entries s (sv_i sv))" "vinode s v = sv_i sv" by (rule dir_stateE)
  from sfs_dir_findname_spec [OF sv(1-4) refl sv(5), of name d] obtain f where
    f: "sfs_dir_findname v name d s = Some (case f of Some p \<Rightarrow> Inr p | None \<Rightarrow> Inl ENOENT,
      last_free (entries s (sv_i sv)) (length (entries s (sv_i sv))) d, s)"
    "scanned (entries s (sv_i sv)) name (length (entries s (sv_i sv))) f" by blast
  with scanned_dirmap [OF sv(5) f(2)] sv(6) show ?thesis
    by (cases f) (auto simp: dir_names_def scanned_def)
qed

text \<open>A directory does not lose slots, and the slot handed back is one of them.\<close>

definition slot_kept :: "nat \<Rightarrow> sfs_fs \<Rightarrow> sfs_fs \<Rightarrow> int res \<Rightarrow> bool" where
  "slot_kept v s s' r \<longleftrightarrow> length (entries s (vinode s v)) \<le> length (entries s' (vinode s' v)) \<and>
     (\<forall>k. r = Inr k \<longrightarrow> (\<exists>n < length (entries s' (vinode s' v)). k = int n))"

lemma dir_link:
  assumes st: "dir_state v s" and name: "is_cstr name" and ino: "0 < ino" "ino < 2 ^ 32"
  shows "\<exists>r s'. sfs_dir_link v name ino s = Some (r, s') \<and> io_frame v s s' \<and> dir_state v s' \<and>
    slot_kept v s s' r \<and>
    (case r of
       Inr _ \<Rightarrow> dir_names v s name = None \<and> length name < SFS_NAMELEN \<and>
         dir_names v s' = (dir_names v s)(name \<mapsto> ino)
     | Inl e \<Rightarrow> dir_names v s' = dir_names v s \<and>
         (e = EEXIST \<and> dir_names v s name \<noteq> None \<or>
          e = ENAMETOOLONG \<and> dir_names v s name = None \<and> SFS_NAMELEN \<le> length name \<or>
          dir_names v s name = None \<and> (e = ENOSPC \<or> e = EINVAL)))"
proof -
  from st obtain sv where sv: "fs_quiet s" "sfs_heap s v = Some sv" "dir_ok s (sv_i sv)" "SvLock v \<in> sfs_held s"
    "unique_names (entries s (sv_i sv))" "vinode s v = sv_i sv" by (rule dir_stateE)
  let ?es = "entries s (sv_i sv)"
  have refl: "io_frame v s s" using sv by (intro io_frame_refl) (auto simp: dir_ok_def)
  note find = dir_findname [OF st, of name "- 1", unfolded sv(6)]
  show ?thesis
  proof (cases "dir_names v s name = None")
    case False
    with find obtain p e where "sfs_dir_findname v name (- 1) s = Some (Inr p, e, s)" by auto
    with sv(4) refl st False show ?thesis
      by (intro exI [of _ "Inl EEXIST"] exI [of _ s]) (simp add: sfs_dir_link_def slot_kept_def)
  next
    case none: True
    with find have f: "sfs_dir_findname v name (- 1) s = Some (Inl ENOENT, last_free ?es (length ?es) (- 1), s)" by auto
    show ?thesis
    proof (cases "length name < 60")
      case False
      with sv(4) refl st none f show ?thesis
        by (intro exI [of _ "Inl ENAMETOOLONG"] exI [of _ s]) (simp add: sfs_dir_link_def slot_kept_def)
    next
      case short: True
      define lf where "lf = last_free ?es (length ?es) (- 1)"
      define n where "n = (if lf < 0 then length ?es else nat lf)"
      have n: "n \<le> length ?es" "n < length ?es \<Longrightarrow> sfd_ino (?es ! n) = 0"
        and slot: "(if lf < 0 then sfs_dir_nentries v s else Some lf) = Some (int n)"
        using last_free_cases [of ?es "length ?es"] dir_ok_nentries [OF sv(2,3,4)] by (auto simp: n_def lf_def)
      from n(1) have n': "n \<le> sfi_size (sv_i sv) div 64" by simp
      let ?sd = "link_entry name ino"
      from sfs_writedir_spec [OF sv(1-4) n' link_entry_wf [OF short ino(2)]] obtain r s' where
        w: "sfs_writedir v ?sd (int n) s = Some (r, s')" "io_frame v s s'" "dir_ok s' (vinode s' v)"
          "case r of Inl e \<Rightarrow> (e = ENOSPC \<or> e = EINVAL) \<and> entries s' (vinode s' v) = ?es
           | Inr _ \<Rightarrow> entries s' (vinode s' v) = put_entry ?es n ?sd" by blast
      have call: "sfs_dir_link v name ino s = Some (case r of Inl e \<Rightarrow> Inl e | Inr _ \<Rightarrow> Inr (int n), s')"
        using sv(4) f [folded lf_def] slot short w(1)
        by (cases r) (simp_all add: sfs_dir_link_def link_entry_def split del: if_split)
      have sd: "sd_name ?sd = name" "sfd_ino ?sd = ino" using sd_name_link_entry [OF name short] by (simp_all add: link_entry_def)
      have put: "unique_names (put_entry ?es n ?sd)" "dirmap (put_entry ?es n ?sd) = (dirmap ?es)(name \<mapsto> ino)"
        using dirmap_put [OF sv(5) n, of ?sd] none sv(6) sd ino(1) by (simp_all add: dir_names_def)
      have st': "dir_state v s'" using dir_stateI [OF w(2,3) sv(4)] w(4) put(1) sv(5) by (cases r) auto
      have "slot_kept v s s' (case r of Inl e \<Rightarrow> Inl e | Inr _ \<Rightarrow> Inr (int n))"
        using w(4) n(1) sv(6) by (cases r) (auto simp: slot_kept_def length_put_entry)
      with call w(2,4) st' none short put(2) sv(6) show ?thesis
        by (cases r) (auto simp: dir_names_def intro!: exI)
    qed
  qed
qed

lemma dir_unlink:
  assumes st: "dir_state v s" and n: "n < length (entries s (vinode s v))"
    and used: "names name (entries s (vinode s v) ! n)"
  shows "\<exists>r s'. sfs_dir_unlink v (int n) s = Some (r, s') \<and> io_frame v s s' \<and> dir_state v s' \<and>
    (case r of
       Inr _ \<Rightarrow> dir_names v s' = (dir_names v s)(name := None)
     | Inl e \<Rightarrow> dir_names v s' = dir_names v s \<and> (e = ENOSPC \<or> e = EINVAL))"
proof -
  from st obtain sv where sv: "fs_quiet s" "sfs_heap s v = Some sv" "dir_ok s (sv_i sv)" "SvLock v \<in> sfs_held s"
    "unique_names (entries s (sv_i sv))" "vinode s v = sv_i sv" by (rule dir_stateE)
  let ?es = "entries s (sv_i sv)"
  have n': "n < length ?es" "n \<le> sfi_size (sv_i sv) div 64" and nm: "sfd_ino (?es ! n) \<noteq> 0" "sd_name (?es ! n) = name"
    using n used sv(6) by (simp_all add: names_def)
  have free: "dir_wf free_dir" "sfd_ino free_dir = 0" by (simp_all add: dir_wf_def free_dir_def)
  from sfs_writedir_spec [OF sv(1-4) n'(2) free(1)] obtain r s' where
    w: "sfs_writedir v free_dir (int n) s = Some (r, s')" "io_frame v s s'" "dir_ok s' (vinode s' v)"
      "case r of Inl e \<Rightarrow> (e = ENOSPC \<or> e = EINVAL) \<and> entries s' (vinode s' v) = ?es
       | Inr _ \<Rightarrow> entries s' (vinode s' v) = put_entry ?es n free_dir" by blast
  note er = dirmap_erase [OF sv(5) n'(1) nm(1) free(2)]
  have st': "dir_state v s'" using dir_stateI [OF w(2,3) sv(4)] w(4) er(1) sv(5) by (cases r) auto
  show ?thesis using w(1,2,4) st' er(2) sv(4,6) nm(2)
    by (intro exI [of _ r] exI [of _ s']) (cases r; simp add: sfs_dir_unlink_def dir_names_def)
qed

section \<open>The interface\<close>

text \<open>
  What the vnode operations rely on: a directory is a finite map from names to inode numbers, and
  the three routines look up, extend and shrink it. \<open>legal\<close> says which names and numbers can be
  entered.
\<close>

locale name_directory =
  fixes inv :: "'s \<Rightarrow> bool"
    and nmap :: "'s \<Rightarrow> 'n \<Rightarrow> nat option"
    and legal :: "'n \<Rightarrow> nat \<Rightarrow> bool"
    and findname :: "'n \<Rightarrow> 's \<Rightarrow> ((nat \<times> int) res \<times> int \<times> 's) option"
    and link :: "'n \<Rightarrow> nat \<Rightarrow> 's \<Rightarrow> (int res \<times> 's) option"
    and unlink :: "int \<Rightarrow> 's \<Rightarrow> (unit res \<times> 's) option"
  assumes find_law: "inv s \<Longrightarrow> \<exists>r e. findname n s = Some (r, e, s) \<and>
      (case r of Inl err \<Rightarrow> err = ENOENT \<and> nmap s n = None | Inr (i, k) \<Rightarrow> nmap s n = Some i)"
    and link_law: "inv s \<Longrightarrow> legal n i \<Longrightarrow> \<exists>r s'. link n i s = Some (r, s') \<and> inv s' \<and>
      nmap s' = (case r of Inl _ \<Rightarrow> nmap s | Inr _ \<Rightarrow> (nmap s)(n \<mapsto> i)) \<and>
      (case r of Inl err \<Rightarrow> nmap s n \<noteq> None \<longrightarrow> err = EEXIST | Inr _ \<Rightarrow> nmap s n = None)"
    and unlink_law: "inv s \<Longrightarrow> findname n s = Some (Inr (i, k), e, s) \<Longrightarrow>
      \<exists>r s'. unlink k s = Some (r, s') \<and> inv s' \<and>
        nmap s' = (case r of Inl _ \<Rightarrow> nmap s | Inr _ \<Rightarrow> (nmap s)(n := None))"
begin

lemma find_cases:
  assumes "inv s"
  obtains (absent) e where "findname n s = Some (Inl ENOENT, e, s)" "nmap s n = None"
    | (found) i k e where "findname n s = Some (Inr (i, k), e, s)" "nmap s n = Some i"
proof -
  from find_law [OF assms, of n] obtain r e where "findname n s = Some (r, e, s)"
    "case r of Inl err \<Rightarrow> err = ENOENT \<and> nmap s n = None | Inr (i, k) \<Rightarrow> nmap s n = Some i" by blast
  then show thesis using absent found by (cases r) auto
qed

lemma find_iff: "inv s \<Longrightarrow> (\<exists>k e. findname n s = Some (Inr (i, k), e, s)) \<longleftrightarrow> nmap s n = Some i"
  by (rule find_cases [of s n]) auto

lemma link_find:
  assumes "inv s" and "legal n i" and "link n i s = Some (Inr k, s')"
  shows "\<exists>k e. findname n s' = Some (Inr (i, k), e, s')"
    and "m \<noteq> n \<Longrightarrow> nmap s' m = nmap s m"
  using link_law [OF assms(1,2)] assms(3) find_iff [of s' n i] by auto

lemma link_again:
  assumes "inv s" and "legal n i" and "legal n j" and "link n i s = Some (Inr k, s')"
  shows "\<exists>s''. link n j s' = Some (Inl EEXIST, s'') \<and> nmap s'' = nmap s'"
proof -
  from link_law [OF assms(1,2)] assms(4) have s': "inv s'" "nmap s' n = Some i" by auto
  from link_law [OF s'(1) assms(3)] obtain r s'' where r: "link n j s' = Some (r, s'')"
    "nmap s'' = (case r of Inl _ \<Rightarrow> nmap s' | Inr _ \<Rightarrow> (nmap s')(n \<mapsto> j))"
    "case r of Inl err \<Rightarrow> nmap s' n \<noteq> None \<longrightarrow> err = EEXIST | Inr _ \<Rightarrow> nmap s' n = None" by blast
  with s'(2) show ?thesis by (cases r) auto
qed

text \<open>Linking a name and taking it out again restores the map.\<close>

lemma link_unlink:
  assumes "inv s" and "legal n i" and "link n i s = Some (Inr k, s')"
  shows "\<exists>l e r s''. findname n s' = Some (Inr (i, l), e, s') \<and> unlink l s' = Some (r, s'') \<and> inv s'' \<and>
    (case r of Inl _ \<Rightarrow> nmap s'' = nmap s' | Inr _ \<Rightarrow> nmap s'' = nmap s)"
proof -
  from link_law [OF assms(1,2)] assms(3) have s': "inv s'" "nmap s' = (nmap s)(n \<mapsto> i)" "nmap s n = None" by auto
  from link_find(1) [OF assms] obtain l e where f: "findname n s' = Some (Inr (i, l), e, s')" by blast
  from unlink_law [OF s'(1) f] obtain r s'' where r: "unlink l s' = Some (r, s'')" "inv s''"
    "nmap s'' = (case r of Inl _ \<Rightarrow> nmap s' | Inr _ \<Rightarrow> (nmap s')(n := None))" by blast
  have "(nmap s)(n := None) = nmap s" using s'(3) by (simp add: fun_upd_idem)
  with r s'(2) f show ?thesis by (cases r) auto
qed

end

interpretation sdir: name_directory "dir_state v" "dir_names v" "\<lambda>n i. is_cstr n \<and> 0 < i \<and> i < 2 ^ 32"
  "\<lambda>n. sfs_dir_findname v n (- 1)" "sfs_dir_link v" "sfs_dir_unlink v" for v
proof
  fix s n assume "dir_state v s"
  then show "\<exists>r e. sfs_dir_findname v n (- 1) s = Some (r, e, s) \<and>
      (case r of Inl err \<Rightarrow> err = ENOENT \<and> dir_names v s n = None | Inr (i, k) \<Rightarrow> dir_names v s n = Some i)"
    using dir_findname [of v s n "- 1"] by auto
next
  fix s n and i :: nat assume "dir_state v s" and "is_cstr n \<and> 0 < i \<and> i < 2 ^ 32"
  then obtain r s' where "sfs_dir_link v n i s = Some (r, s')" "dir_state v s'"
    "case r of Inr _ \<Rightarrow> dir_names v s n = None \<and> length n < 60 \<and> dir_names v s' = (dir_names v s)(n \<mapsto> i)
     | Inl e \<Rightarrow> dir_names v s' = dir_names v s \<and>
         (e = EEXIST \<and> dir_names v s n \<noteq> None \<or> e = ENAMETOOLONG \<and> dir_names v s n = None \<and> 60 \<le> length n \<or>
          dir_names v s n = None \<and> (e = ENOSPC \<or> e = EINVAL))"
    using dir_link [of v s n i] by blast
  then show "\<exists>r s'. sfs_dir_link v n i s = Some (r, s') \<and> dir_state v s' \<and>
      dir_names v s' = (case r of Inl _ \<Rightarrow> dir_names v s | Inr _ \<Rightarrow> (dir_names v s)(n \<mapsto> i)) \<and>
      (case r of Inl err \<Rightarrow> dir_names v s n \<noteq> None \<longrightarrow> err = EEXIST | Inr _ \<Rightarrow> dir_names v s n = None)"
    by (intro exI [of _ r] exI [of _ s']) (cases r; auto)
next
  fix s n i k e assume st: "dir_state v s" and f: "sfs_dir_findname v n (- 1) s = Some (Inr (i, k), e, s)"
  then obtain m where "m < length (entries s (vinode s v))" "names n (entries s (vinode s v) ! m)" "k = int m"
    using dir_findname [OF st, of n "- 1"] by auto
  with dir_unlink [OF st] obtain r s' where "sfs_dir_unlink v k s = Some (r, s')" "dir_state v s'"
    "case r of Inr _ \<Rightarrow> dir_names v s' = (dir_names v s)(n := None)
     | Inl e \<Rightarrow> dir_names v s' = dir_names v s \<and> (e = ENOSPC \<or> e = EINVAL)" by blast
  then show "\<exists>r s'. sfs_dir_unlink v k s = Some (r, s') \<and> dir_state v s' \<and>
      dir_names v s' = (case r of Inl _ \<Rightarrow> dir_names v s | Inr _ \<Rightarrow> (dir_names v s)(n := None))"
    by (intro exI [of _ r] exI [of _ s']) (cases r; auto)
qed

section \<open>Properties\<close>

text \<open>\<^verbatim>\<open>sfs_dir_findname\<close> implements lookup in the finite map that the directory stands for: it hands
  back the inode number of the name and the slot it is in, or fails with \<^verbatim>\<open>ENOENT\<close> exactly when the
  name is not there. It changes nothing, and its scan never meets the assertion on duplicate names.\<close>

theorem sfs_dir_findname_correct:
  assumes "dir_state v s"
  shows "\<exists>r e. sfs_dir_findname v name emp s = Some (r, e, s) \<and>
    (case r of
       Inl err \<Rightarrow> err = ENOENT \<and> dir_names v s name = None
     | Inr (ino, slot) \<Rightarrow> dir_names v s name = Some ino \<and>
         (\<exists>n < length (entries s (vinode s v)). slot = int n \<and> names name (entries s (vinode s v) ! n)))"
  using dir_findname [OF assms, of name emp] by auto

text \<open>C7: \<^verbatim>\<open>sfs_dir_link\<close> returns on every directory, and extends the map by the new name exactly when it
  succeeds. A name that is in use gives \<^verbatim>\<open>EEXIST\<close>, a name of sixty or more bytes \<^verbatim>\<open>ENAMETOOLONG\<close>, a full
  volume \<^verbatim>\<open>ENOSPC\<close> and a full directory \<^verbatim>\<open>EINVAL\<close>; the map is then as before. The names stay distinct, no
  other vnode and no block of another file changes. After a success the name is found, a second
  link of it fails, and unlinking it gives the old map back.\<close>

theorem sfs_dir_link_correct:
  assumes "dir_state v s" and "is_cstr name" and "0 < ino" and "ino < 2 ^ 32"
  shows "\<exists>r s'. sfs_dir_link v name ino s = Some (r, s') \<and> io_frame v s s' \<and> dir_state v s' \<and>
    (case r of
       Inl e \<Rightarrow> dir_names v s' = dir_names v s \<and>
         (e = EEXIST \<and> dir_names v s name \<noteq> None \<or>
          e = ENAMETOOLONG \<and> dir_names v s name = None \<and> SFS_NAMELEN \<le> length name \<or>
          (e = ENOSPC \<or> e = EINVAL) \<and> dir_names v s name = None)
     | Inr _ \<Rightarrow> dir_names v s name = None \<and> dir_names v s' = (dir_names v s)(name \<mapsto> ino) \<and>
         (\<exists>s''. sfs_dir_link v name ino s' = Some (Inl EEXIST, s'') \<and> dir_names v s'' = dir_names v s') \<and>
         (\<exists>k e q s''. sfs_dir_findname v name (- 1) s' = Some (Inr (ino, k), e, s') \<and>
            sfs_dir_unlink v k s' = Some (q, s'') \<and> dir_state v s'' \<and>
            (case q of Inl _ \<Rightarrow> dir_names v s'' = dir_names v s' | Inr _ \<Rightarrow> dir_names v s'' = dir_names v s)))"
proof -
  have legal: "is_cstr name \<and> 0 < ino \<and> ino < 2 ^ 32" using assms by simp
  from dir_link [OF assms] obtain r s' where r: "sfs_dir_link v name ino s = Some (r, s')" "io_frame v s s'" "dir_state v s'"
    "case r of Inr _ \<Rightarrow> dir_names v s name = None \<and> length name < 60 \<and> dir_names v s' = (dir_names v s)(name \<mapsto> ino)
     | Inl e \<Rightarrow> dir_names v s' = dir_names v s \<and>
         (e = EEXIST \<and> dir_names v s name \<noteq> None \<or> e = ENAMETOOLONG \<and> dir_names v s name = None \<and> 60 \<le> length name \<or>
          dir_names v s name = None \<and> (e = ENOSPC \<or> e = EINVAL))" by blast
  show ?thesis
  proof (cases r)
    case (Inl e)
    with r show ?thesis by (intro exI [of _ r] exI [of _ s']) auto
  next
    case (Inr k)
    with r sdir.link_again [OF assms(1) legal legal] sdir.link_unlink [OF assms(1) legal]
    show ?thesis by (intro exI [of _ r] exI [of _ s']) auto
  qed
qed

text \<open>erasing the slot in which \<^verbatim>\<open>sfs_dir_findname\<close> found a name takes that name, and only that name,
  out of the directory; on an error the directory is as before.\<close>

theorem sfs_dir_unlink_correct:
  assumes "dir_state v s" and "sfs_dir_findname v name (- 1) s = Some (Inr (ino, slot), e, s)"
  shows "\<exists>r s'. sfs_dir_unlink v slot s = Some (r, s') \<and> dir_state v s' \<and>
    dir_names v s' = (case r of Inl _ \<Rightarrow> dir_names v s | Inr _ \<Rightarrow> (dir_names v s)(name := None))"
  by (rule sdir.unlink_law [OF assms])

text \<open>A directory with one entry, the name \<^verbatim>\<open>a\<close> for inode 3, in block 2.\<close>

definition demo_dir :: sfs_fs where
  "demo_dir = demo_fs\<lparr>
     sfs_device := \<lparr>d_blocks = 8, sectors = (\<lambda>b. if b = 2 then encode_dir (link_entry [97] 3) @ replicate 448 0
       else replicate 512 0), lh_status = []\<rparr>,
     sfs_heap := [0 \<mapsto> demo_vnode\<lparr>sv_i := (demo_inode 2)\<lparr>sfi_size := 64, sfi_type := SFS_TYPE_DIR\<rparr>\<rparr>],
     sfs_held := {SvLock 0}\<rparr>"

lemma demo_dir_simps:
  "vinode demo_dir 0 = (demo_inode 2)\<lparr>sfi_size := 64, sfi_type := SFS_TYPE_DIR\<rparr>" "used demo_dir = used demo_fs"
  "SvLock 0 \<in> sfs_held demo_dir" "sfs_heap demo_dir 0 \<noteq> None" "nblocks demo_dir = 8"
  by (simp_all add: demo_dir_def vinode_def demo_fs_def)

lemma demo_dir_fblock: "fblock demo_dir (vinode demo_dir 0) n = (if n = 0 then 2 else 0)"
  using demo_fblock [of demo_dir 2 n] by (simp add: demo_dir_simps fblock_def)

lemma length_demo_entry: "length (encode_dir (link_entry [97] 3)) = 64"
  by (intro length_encode) (simp add: dir_wf_def link_entry_def)

lemma demo_dir_sector: "length (sector demo_dir b) = 512"
  using length_demo_entry by (simp add: demo_dir_def)

lemma demo_dir_quiet: "fs_quiet demo_dir"
  using demo_quiet demo_dir_sector
  by (auto simp: fs_quiet_def fs_wf_def disk_wf_def demo_dir_def demo_fs_def)

lemma demo_dir_entries: "entries demo_dir (vinode demo_dir 0) = [link_entry [97] 3]"
proof -
  have "fbytes demo_dir (vinode demo_dir 0) 0 64 = encode_dir (link_entry [97] 3)"
    using fbytes_block [where s = demo_dir and i = "vinode demo_dir 0" and p = 0 and n = 64] demo_dir_sector length_demo_entry
    by (simp add: demo_dir_fblock) (simp add: demo_dir_def slice_def)
  then show ?thesis
    by (simp add: entries_def demo_dir_simps dir_entry_def decode_dir_encode dir_wf_def link_entry_def)
qed

lemma demo_dir_state: "dir_state 0 demo_dir"
proof -
  have "inode_ok demo_dir (vinode demo_dir 0)"
    using demo_used [of 2] demo_dir_fblock demo_dir_simps by (auto simp: inode_ok_def)
  then show ?thesis using demo_dir_quiet demo_dir_simps demo_dir_entries
    by (simp add: dir_state_def dir_ok_def unique_names_def)
qed

lemma demo_dir_names: "dir_names 0 demo_dir = [[97] \<mapsto> 3]"
proof -
  have "sd_name (link_entry [97] 3) = [97]" by (intro sd_name_link_entry) (simp_all add: is_cstr_def)
  then show ?thesis
    by (auto simp: dir_names_def demo_dir_entries dirmap_def names_def link_entry_def fun_eq_iff)
qed

theorem sfs_dir_findname_correct_witness:
  "\<exists>k e. sfs_dir_findname 0 [97] (- 1) demo_dir = Some (Inr (3, k), e, demo_dir)"
  using sfs_dir_findname_correct [OF demo_dir_state, of "[97]" "- 1"] by (auto simp: demo_dir_names split_sum_ex)

theorem sfs_dir_link_correct_witness:
  "\<exists>s'. sfs_dir_link 0 [97] 4 demo_dir = Some (Inl EEXIST, s') \<and> dir_names 0 s' = [[97] \<mapsto> 3]"
  using sfs_dir_link_correct [OF demo_dir_state, of "[97]" 4]
  by (auto simp: demo_dir_names is_cstr_def split_sum_ex)

theorem sfs_dir_unlink_correct_witness:
  "\<exists>k e r s'. sfs_dir_findname 0 [97] (- 1) demo_dir = Some (Inr (3, k), e, demo_dir) \<and>
     sfs_dir_unlink 0 k demo_dir = Some (r, s') \<and> (\<forall>x. r = Inr x \<longrightarrow> dir_names 0 s' [97] = None)"
proof -
  obtain k e where f: "sfs_dir_findname 0 [97] (- 1) demo_dir = Some (Inr (3, k), e, demo_dir)"
    using sdir.find_iff [OF demo_dir_state, of "[97]" 3] by (auto simp: demo_dir_names)
  with sfs_dir_unlink_correct [OF demo_dir_state f] show ?thesis by auto
qed

end
