(* ===== verification/K_Sfs_Vnode.thy ===== *)
theory K_Sfs_Vnode
  imports K_Sfs_Dir
begin

text \<open>
  The life of an SFS vnode: \<^verbatim>\<open>sfs_dotruncate\<close>, \<^verbatim>\<open>sfs_reclaim\<close> and \<^verbatim>\<open>sfs_loadvnode\<close> of
  \<^verbatim>\<open>kern/fs/sfs/sfs_vnode.c\<close>, and the reference counting of \<^verbatim>\<open>kern/fs/vfs/vnode.c\<close>.

  A vnode lives in the heap from \<^verbatim>\<open>sfs_loadvnode\<close>, which enters it in the vnode table with one
  reference, to the \<^verbatim>\<open>vnode_decref\<close> that drops the last reference, which writes the inode back, takes
  the vnode out of the table and frees it; a file without links loses its blocks and its inode then.
  Following a pointer to a freed vnode, to take its lock for instance, is undefined.
\<close>

section \<open>Locks of a vnode\<close>

definition sv_lock :: "nat \<Rightarrow> sfs_fs \<Rightarrow> sfs_fs option" where
  "sv_lock v s = do { sv \<leftarrow> sv_get v s; lock_acquire (SvLock v) s }"

definition sv_unlock :: "nat \<Rightarrow> sfs_fs \<Rightarrow> sfs_fs option" where
  "sv_unlock v s = do { sv \<leftarrow> sv_get v s; lock_release (SvLock v) s }"

text \<open>\<^verbatim>\<open>lock_create\<close> allocates the lock and a copy of its name.\<close>

definition lock_create :: "sfs_fs \<Rightarrow> bool \<times> sfs_fs" where
  "lock_create s =
     (case sfs_kmalloc s of (ok, s) \<Rightarrow> if \<not> ok then (False, s) else sfs_kmalloc s)"

section \<open>Reference counts\<close>

text \<open>\<open>reclaim\<close>: whether the operation about to be called is \<^verbatim>\<open>reclaim\<close>.\<close>

definition vnode_check :: "bool \<Rightarrow> nat \<Rightarrow> sfs_fs \<Rightarrow> sfs_fs option" where
  "vnode_check reclaim v s = do {
     vn \<leftarrow> sv_get v s;
     s \<leftarrow> lock_acquire (CountLock v) s;
     kassert (vn_refcount vn \<ge> 0);
     kassert (\<not> (vn_refcount vn = 0 \<and> \<not> reclaim));
     kassert (vn_opencount vn \<ge> 0);
     lock_release (CountLock v) s
   }"

definition vnode_incref :: "nat \<Rightarrow> sfs_fs \<Rightarrow> sfs_fs option" where
  "vnode_incref v s = do {
     vn \<leftarrow> sv_get v s;
     s \<leftarrow> lock_acquire (CountLock v) s;
     n \<leftarrow> cint (vn_refcount vn + 1);
     let s = sv_put v (vn\<lparr>vn_refcount := n\<rparr>) s;
     lock_release (CountLock v) s
   }"

definition vnode_incopen :: "nat \<Rightarrow> sfs_fs \<Rightarrow> sfs_fs option" where
  "vnode_incopen v s = do {
     vn \<leftarrow> sv_get v s;
     s \<leftarrow> lock_acquire (CountLock v) s;
     n \<leftarrow> cint (vn_opencount vn + 1);
     let s = sv_put v (vn\<lparr>vn_opencount := n\<rparr>) s;
     lock_release (CountLock v) s
   }"

section \<open>Truncation\<close>

text \<open>The loop over the direct blocks: \<open>k\<close> of them are left, beginning with block \<open>i\<close>.\<close>

fun truncate_direct :: "nat \<Rightarrow> nat \<Rightarrow> nat \<Rightarrow> nat \<Rightarrow> sfs_fs \<Rightarrow> sfs_fs option" where
  "truncate_direct v blocklen i 0 s = Some s"
| "truncate_direct v blocklen i (Suc k) s = do {
     sv \<leftarrow> sv_get v s;
     let block = sfi_direct (sv_i sv) ! i;
     s \<leftarrow> (if i \<ge> blocklen \<and> block \<noteq> 0 then do {
             s \<leftarrow> sfs_bfree block s;
             sv \<leftarrow> sv_get v s;
             Some (sv_put v (sv\<lparr>sv_i := (sv_i sv)\<lparr>sfi_direct := (sfi_direct (sv_i sv))[i := 0]\<rparr>,
                                sv_dirty := True\<rparr>) s)
           }
           else Some s);
     truncate_direct v blocklen (Suc i) k s
   }"

text \<open>The loop over the entries of the indirect block, with the flags \<^verbatim>\<open>hasnonzero\<close> and \<^verbatim>\<open>iddirty\<close>.\<close>

fun truncate_indirect :: "nat \<Rightarrow> nat \<Rightarrow> nat \<Rightarrow> byte list \<Rightarrow> bool \<Rightarrow> bool \<Rightarrow> sfs_fs \<Rightarrow>
    (byte list \<times> bool \<times> bool \<times> sfs_fs) option" where
  "truncate_indirect blocklen j 0 idbuf hasnonzero iddirty s = Some (idbuf, hasnonzero, iddirty, s)"
| "truncate_indirect blocklen j (Suc k) idbuf hasnonzero iddirty s = do {
     (idbuf, iddirty, s) \<leftarrow>
       (if blocklen < SFS_NDIRECT + j \<and> get32 idbuf j \<noteq> 0 then do {
          s \<leftarrow> sfs_bfree (get32 idbuf j) s;
          Some (blit idbuf (4 * j) (put32 0), True, s)
        }
        else Some (idbuf, iddirty, s));
     let hasnonzero = (hasnonzero \<or> get32 idbuf j \<noteq> 0);
     truncate_indirect blocklen (Suc j) k idbuf hasnonzero iddirty s
   }"

text \<open>The part of \<^verbatim>\<open>sfs_dotruncate\<close> that deals with the indirect block. \<open>ok\<close>: whether \<^verbatim>\<open>kmalloc\<close> gave a
  buffer, which the code does not test.\<close>

definition truncate_idblock :: "nat \<Rightarrow> nat \<Rightarrow> bool \<Rightarrow> sfs_fs \<Rightarrow> (unit res \<times> sfs_fs) option" where
  "truncate_idblock v blocklen ok s = do {
     sv \<leftarrow> sv_get v s;
     let idblock = sfi_indirect (sv_i sv);
     let highblock = SFS_NDIRECT + SFS_DBPERIDB - 1;
     if blocklen < highblock \<and> idblock \<noteq> 0 then do {
       kassert ok;
       (r, s) \<leftarrow> rblock idblock s;
       case r of
         Inl e \<Rightarrow> Some (Inl e, s)
       | Inr idbuf \<Rightarrow> do {
           (idbuf, hasnonzero, iddirty, s) \<leftarrow> truncate_indirect blocklen 0 SFS_DBPERIDB idbuf False False s;
           if \<not> hasnonzero then do {
             s \<leftarrow> sfs_bfree idblock s;
             sv \<leftarrow> sv_get v s;
             Some (Inr (), sv_put v (sv\<lparr>sv_i := (sv_i sv)\<lparr>sfi_indirect := 0\<rparr>, sv_dirty := True\<rparr>) s)
           }
           else if iddirty then wblock idbuf idblock s
           else Some (Inr (), s)
         }
     }
     else Some (Inr (), s)
   }"

definition sfs_dotruncate :: "nat \<Rightarrow> int \<Rightarrow> sfs_fs \<Rightarrow> (unit res \<times> sfs_fs) option" where
  "sfs_dotruncate v len s =
     (case sfs_kmalloc s of (ok, s) \<Rightarrow> do {
        num \<leftarrow> cint (len + int SFS_BLOCKSIZE - 1);
        let blocklen = u32 (cdiv num (int SFS_BLOCKSIZE));
        kassert (SvLock v \<in> sfs_held s);
        s \<leftarrow> truncate_direct v blocklen 0 SFS_NDIRECT s;
        (r, s) \<leftarrow> truncate_idblock v blocklen ok s;
        case r of
          Inl e \<Rightarrow> Some (Inl e, s)
        | Inr _ \<Rightarrow> do {
            sv \<leftarrow> sv_get v s;
            Some (Inr (), sv_put v (sv\<lparr>sv_i := (sv_i sv)\<lparr>sfi_size := u32 len\<rparr>, sv_dirty := True\<rparr>) s)
          }
      })"

definition sfs_truncate :: "nat \<Rightarrow> int \<Rightarrow> sfs_fs \<Rightarrow> (unit res \<times> sfs_fs) option" where
  "sfs_truncate v len s = do {
     s \<leftarrow> sv_lock v s;
     (r, s) \<leftarrow> sfs_dotruncate v len s;
     s \<leftarrow> sv_unlock v s;
     Some (r, s)
   }"

section \<open>Reclaiming a vnode\<close>

text \<open>The search for the vnode in the table: \<open>k\<close> places are left, beginning with \<open>i\<close>.\<close>

fun table_index :: "nat karray \<Rightarrow> nat \<Rightarrow> int \<Rightarrow> nat \<Rightarrow> int option" where
  "table_index a v i 0 = None"
| "table_index a v i (Suc k) = do {
     sv2 \<leftarrow> array_getguy a i;
     if sv2 = v then Some i else table_index a v (i + 1) k
   }"

text \<open>The locks that \<^verbatim>\<open>sfs_reclaim\<close> holds are given back in this order.\<close>

definition reclaim_unlock :: "nat \<Rightarrow> sfs_fs \<Rightarrow> sfs_fs option" where
  "reclaim_unlock v s = do { s \<leftarrow> lock_release VnLock s; sv_unlock v s }"

text \<open>\<^verbatim>\<open>VOP_KILL\<close> and \<^verbatim>\<open>kfree\<close>.\<close>

definition vnode_kill :: "nat \<Rightarrow> sfs_fs \<Rightarrow> sfs_fs option" where
  "vnode_kill v s = do {
     vn \<leftarrow> sv_get v s;
     kassert (vn_refcount vn = 1);
     kassert (vn_opencount vn = 0);
     Some (s\<lparr>sfs_heap := (sfs_heap s)(v := None)\<rparr>)
   }"

text \<open>The last part: the vnode leaves the table and memory.\<close>

definition reclaim_discard :: "nat \<Rightarrow> sfs_fs \<Rightarrow> (unit res \<times> sfs_fs) option" where
  "reclaim_discard v s = do {
     sv \<leftarrow> sv_get v s;
     s \<leftarrow> (if sfi_linkcount (sv_i sv) = 0 then sfs_bfree (sv_ino sv) s else Some s);
     ix \<leftarrow> table_index (sfs_vnodes s) v 0 (nat (array_getnum (sfs_vnodes s)));
     a \<leftarrow> array_remove (sfs_vnodes s) ix;
     s \<leftarrow> reclaim_unlock v (s\<lparr>sfs_vnodes := a\<rparr>);
     s \<leftarrow> vnode_kill v s;
     Some (Inr (), s)
   }"

definition sfs_reclaim :: "nat \<Rightarrow> sfs_fs \<Rightarrow> (unit res \<times> sfs_fs) option" where
  "sfs_reclaim v s = do {
     s \<leftarrow> sv_lock v s;
     s \<leftarrow> lock_acquire VnLock s;
     s \<leftarrow> lock_acquire (CountLock v) s;
     sv \<leftarrow> sv_get v s;
     if vn_refcount sv \<noteq> 1 then do {
       kassert (vn_refcount sv > 1);
       let s = sv_put v (sv\<lparr>vn_refcount := vn_refcount sv - 1\<rparr>) s;
       s \<leftarrow> lock_release (CountLock v) s;
       s \<leftarrow> reclaim_unlock v s;
       Some (Inl EBUSY, s)
     }
     else do {
       s \<leftarrow> lock_release (CountLock v) s;
       (r, s) \<leftarrow> (if sfi_linkcount (sv_i sv) = 0 then sfs_dotruncate v 0 s else Some (Inr (), s));
       case r of
         Inl e \<Rightarrow> do { s \<leftarrow> reclaim_unlock v s; Some (Inl e, s) }
       | Inr _ \<Rightarrow> do {
           (r, s) \<leftarrow> sfs_sync_inode v s;
           case r of
             Inl e \<Rightarrow> do { s \<leftarrow> reclaim_unlock v s; Some (Inl e, s) }
           | Inr _ \<Rightarrow> reclaim_discard v s
         }
     }
   }"

definition vnode_decref :: "nat \<Rightarrow> sfs_fs \<Rightarrow> sfs_fs option" where
  "vnode_decref v s = do {
     vn \<leftarrow> sv_get v s;
     s \<leftarrow> lock_acquire (CountLock v) s;
     kassert (vn_refcount vn > 0);
     if vn_refcount vn > 1
     then lock_release (CountLock v) (sv_put v (vn\<lparr>vn_refcount := vn_refcount vn - 1\<rparr>) s)
     else do {
       s \<leftarrow> lock_release (CountLock v) s;
       s \<leftarrow> vnode_check True v s;
       (r, s) \<leftarrow> sfs_reclaim v s;
       Some s
     }
   }"

section \<open>Loading a vnode\<close>

text \<open>The linear search for the inode number in the table of loaded vnodes.\<close>

fun loaded_search :: "nat \<Rightarrow> int \<Rightarrow> nat \<Rightarrow> sfs_fs \<Rightarrow> (nat option \<times> sfs_fs) option" where
  "loaded_search ino i 0 s = Some (None, s)"
| "loaded_search ino i (Suc k) s = do {
     v \<leftarrow> array_getguy (sfs_vnodes s) i;
     sv \<leftarrow> sv_get v s;
     (used, s) \<leftarrow> sfs_bused (sv_ino sv) s;
     kassert used;
     if sv_ino sv = ino then Some (Some v, s) else loaded_search ino (i + 1) k s
   }"

definition choose_ops :: "sfs_inode \<Rightarrow> vnode_ops option" where
  "choose_ops i =
     (if sfi_type i = SFS_TYPE_FILE then Some sfs_fileops
      else if sfi_type i = SFS_TYPE_DIR then Some sfs_dirops
      else None)"

text \<open>From the decision that the inode has to be loaded, with \<^verbatim>\<open>sfs_vnlock\<close> held, to the return. When
  the vnode lock cannot be created the code returns the value of \<^verbatim>\<open>result\<close>, which is 0, without having
  set \<^verbatim>\<open>*ret\<close>: this is the result \<open>Inr None\<close>.\<close>

definition load_new :: "nat \<Rightarrow> nat \<Rightarrow> sfs_fs \<Rightarrow> (nat option res \<times> sfs_fs) option" where
  "load_new ino forcetype s =
     (case sfs_kmalloc s of (ok, s) \<Rightarrow>
        if \<not> ok then Some (Inl ENOMEM, s)
        else do {
          (used, s) \<leftarrow> sfs_bused ino s;
          kassert used;
          (r, s) \<leftarrow> rblock ino s;
          case r of
            Inl e \<Rightarrow> Some (Inl e, s)
          | Inr bs \<Rightarrow> do {
              let i = decode_inode bs;
              kassert (forcetype \<noteq> SFS_TYPE_INVAL \<longrightarrow> sfi_type i = SFS_TYPE_INVAL);
              let i = (if forcetype \<noteq> SFS_TYPE_INVAL then i\<lparr>sfi_type := forcetype\<rparr> else i);
              ops \<leftarrow> choose_ops i;
              let sv = \<lparr>sv_i = i, sv_ino = ino, sv_dirty = (forcetype \<noteq> SFS_TYPE_INVAL), vn_refcount = 1,
                        vn_opencount = 0, vn_ops = ops\<rparr>;
              case lock_create s of (ok, s) \<Rightarrow>
                if \<not> ok then Some (Inl ENOMEM, s)
                else case lock_create s of (ok, s) \<Rightarrow>
                  if \<not> ok then Some (Inr None, s)
                  else do {
                    let v = sfs_fresh s;
                    (r, a, m) \<leftarrow> array_add (sfs_vnodes s) v (sfs_mem s);
                    let s = s\<lparr>sfs_vnodes := a, sfs_mem := m\<rparr>;
                    case r of
                      Inl e \<Rightarrow> Some (Inl e, s)
                    | Inr _ \<Rightarrow> Some (Inr (Some v), sv_put v sv (s\<lparr>sfs_fresh := v + 1\<rparr>))
                  }
            }
        })"

definition sfs_loadvnode :: "nat \<Rightarrow> nat \<Rightarrow> sfs_fs \<Rightarrow> (nat option res \<times> sfs_fs) option" where
  "sfs_loadvnode ino forcetype s = do {
     s \<leftarrow> lock_acquire VnLock s;
     (found, s) \<leftarrow> loaded_search ino 0 (nat (array_getnum (sfs_vnodes s))) s;
     (r, s) \<leftarrow> (case found of
        Some v \<Rightarrow> do {
          kassert (forcetype = SFS_TYPE_INVAL);
          s \<leftarrow> vnode_incref v s;
          Some (Inr (Some v), s)
        }
      | None \<Rightarrow> load_new ino forcetype s);
     s \<leftarrow> lock_release VnLock s;
     Some (r, s)
   }"

end
