(* ===== verification/K_Sfs_Trunc.thy ===== *)
theory K_Sfs_Trunc
  imports K_Sfs_Vnode
begin

text \<open>
  What \<^verbatim>\<open>sfs_dotruncate\<close> does to the block map, the free map and the bytes of a file. The direct loop
  drops the blocks from the new length on; the loop over the indirect block starts one block later
  (\<^verbatim>\<open>blocklen < baseblock+j\<close>), so the first block past the new end stays in the file when it is listed in the
  indirect block: \<open>dropped\<close> is "past the new end" with this exception.
\<close>

section \<open>The indirect block\<close>

definition with_map :: "bitmap \<Rightarrow> bool \<Rightarrow> sfs_fs \<Rightarrow> sfs_fs" where
  "with_map bm fd s = s\<lparr>sfs_freemap := bm, sfs_freemapdirty := fd\<rparr>"

lemma with_map_simps [simp]:
  "super (with_map bm fd s) = super s" "sfs_vnodes (with_map bm fd s) = sfs_vnodes s"
  "sfs_freemap (with_map bm fd s) = bm" "sfs_heap (with_map bm fd s) = sfs_heap s"
  "sfs_fresh (with_map bm fd s) = sfs_fresh s" "sfs_held (with_map bm fd s) = sfs_held s"
  "sfs_mem (with_map bm fd s) = sfs_mem s" "sfs_device (with_map bm fd s) = sfs_device s"
  "with_map bm fd (with_map bm' fd' s) = with_map bm fd s"
  by (simp_all add: with_map_def)

lemma with_map_same: "with_map (sfs_freemap s) (sfs_freemapdirty s) s = s"
  by (simp add: with_map_def)

lemma sfs_bfree_map:
  assumes "fs_quiet s" "b \<in> used s" "b < nblocks s" "b \<noteq> 0"
  obtains bm where "sfs_bfree b s = Some (with_map bm True s)" "bitmap_set bm = used s - {b}"
    "fs_quiet (with_map bm True s)"
  using sfs_bfree_ok [OF assms] by (auto simp: with_map_def)

text \<open>The entries of the indirect block that the loop frees from index \<open>j\<close> on.\<close>

definition id_dropped :: "nat \<Rightarrow> byte list \<Rightarrow> nat \<Rightarrow> nat set" where
  "id_dropped bl buf j = {b. b \<noteq> 0 \<and> (\<exists>m. j \<le> m \<and> m < 128 \<and> bl < 15 + m \<and> b = get32 buf m)}"

lemma id_dropped_step:
  assumes "j < 128" and "\<And>m. m \<noteq> j \<Longrightarrow> get32 buf' m = get32 buf m"
  shows "id_dropped bl buf j =
    (if bl < 15 + j \<and> get32 buf j \<noteq> 0 then insert (get32 buf j) (id_dropped bl buf' (Suc j)) else id_dropped bl buf' (Suc j))"
proof -
  have "j \<le> m \<longleftrightarrow> m = j \<or> Suc j \<le> m" for m by auto
  then show ?thesis using assms by (auto simp: id_dropped_def)
qed

definition id_distinct :: "nat \<Rightarrow> byte list \<Rightarrow> nat \<Rightarrow> bool" where
  "id_distinct bl buf j \<longleftrightarrow> (\<forall>m n. j \<le> m \<longrightarrow> m < n \<longrightarrow> n < 128 \<longrightarrow> bl < 15 + m \<longrightarrow> get32 buf m \<noteq> 0 \<longrightarrow>
     get32 buf m \<noteq> get32 buf n)"

lemma get32_clear:
  assumes "length buf = 512" and "j < 128"
  shows "get32 (blit buf (4 * j) (put32 0)) m = (if m = j then 0 else get32 buf m)"
proof (cases "m < 128")
  case True
  with assms get32_blit [of j buf m 0] show ?thesis by simp
next
  case False
  with assms show ?thesis by (simp add: get32_def slice_def)
qed

lemma truncate_indirect_spec:
  assumes "fs_quiet s" and "length buf = 512" and "j + k = 128"
    and "id_dropped bl buf j \<subseteq> used s \<inter> {..<nblocks s}" and "id_distinct bl buf j"
  shows "\<exists>bm fd buf'. truncate_indirect bl j k buf hn d s =
      Some (buf', hn \<or> (\<exists>m. j \<le> m \<and> m < 128 \<and> get32 buf' m \<noteq> 0), d \<or> id_dropped bl buf j \<noteq> {}, with_map bm fd s) \<and>
    length buf' = 512 \<and> (\<forall>m. get32 buf' m = (if j \<le> m \<and> m < 128 \<and> bl < 15 + m then 0 else get32 buf m)) \<and>
    bitmap_set bm = used s - id_dropped bl buf j \<and> fs_quiet (with_map bm fd s) \<and>
    (id_dropped bl buf j = {} \<longrightarrow> buf' = buf)"
  using assms
proof (induction k arbitrary: j buf hn d s)
  case 0
  then have "id_dropped bl buf j = {}" by (auto simp: id_dropped_def)
  with 0 show ?case
    by (intro exI [of _ "sfs_freemap s"] exI [of _ "sfs_freemapdirty s"] exI [of _ buf]) (auto simp: with_map_same)
next
  case (Suc k)
  have j: "j < 128" and jk: "Suc j + k = 128" using Suc.prems(3) by simp_all
  have range: "j \<le> m \<longleftrightarrow> m = j \<or> Suc j \<le> m" for m by auto
  show ?case
  proof (cases "bl < 15 + j \<and> get32 buf j \<noteq> 0")
    case True
    let ?b = "get32 buf j" and ?buf = "blit buf (4 * j) (put32 0)"
    have buf1: "get32 ?buf m = (if m = j then 0 else get32 buf m)" "length ?buf = 512" for m
      using get32_clear [OF Suc.prems(2) j] Suc.prems(2) j by simp_all
    have drop: "id_dropped bl buf j = insert ?b (id_dropped bl ?buf (Suc j))"
      using id_dropped_step [OF j, of ?buf buf bl] buf1(1) True by simp
    have fresh: "?b \<notin> id_dropped bl ?buf (Suc j)"
      using Suc.prems(5) True buf1(1) by (auto simp: id_dropped_def id_distinct_def)
    obtain bm where bm: "sfs_bfree ?b s = Some (with_map bm True s)" "bitmap_set bm = used s - {?b}"
      "fs_quiet (with_map bm True s)"
      using sfs_bfree_map [OF Suc.prems(1), of ?b] Suc.prems(4) drop True by auto
    have sub: "id_dropped bl ?buf (Suc j) \<subseteq> used (with_map bm True s) \<inter> {..<nblocks (with_map bm True s)}"
      using Suc.prems(4) drop fresh bm(2) by auto
    have dist: "id_distinct bl ?buf (Suc j)" using Suc.prems(5) buf1(1) by (auto simp: id_distinct_def)
    from Suc.IH [OF bm(3) buf1(2) jk sub dist, of "hn \<or> get32 ?buf j \<noteq> 0" True]
    obtain bm' fd buf' where IH: "truncate_indirect bl (Suc j) k ?buf (hn \<or> get32 ?buf j \<noteq> 0) True (with_map bm True s) =
        Some (buf', (hn \<or> get32 ?buf j \<noteq> 0) \<or> (\<exists>m. Suc j \<le> m \<and> m < 128 \<and> get32 buf' m \<noteq> 0),
          True \<or> id_dropped bl ?buf (Suc j) \<noteq> {}, with_map bm' fd (with_map bm True s))"
      "length buf' = 512" "\<And>m. get32 buf' m = (if Suc j \<le> m \<and> m < 128 \<and> bl < 15 + m then 0 else get32 ?buf m)"
      "bitmap_set bm' = used (with_map bm True s) - id_dropped bl ?buf (Suc j)" "fs_quiet (with_map bm' fd (with_map bm True s))"
      by blast
    have final: "get32 buf' m = (if j \<le> m \<and> m < 128 \<and> bl < 15 + m then 0 else get32 buf m)" for m
      using IH(3) [of m] buf1(1) [of m] True j by (auto simp: range)
    moreover have "(\<exists>m. Suc j \<le> m \<and> m < 128 \<and> get32 buf' m \<noteq> 0) \<longleftrightarrow> (\<exists>m. j \<le> m \<and> m < 128 \<and> get32 buf' m \<noteq> 0)"
      using final [of j] True j by (auto simp: range)
    moreover have "bitmap_set bm' = used s - id_dropped bl buf j" using IH(4) drop bm(2) by auto
    ultimately show ?thesis using True bm(1) IH(1,2,5) buf1(1) [of j] drop
      by (intro exI [of _ bm'] exI [of _ fd] exI [of _ buf']) simp
  next
    case False
    have drop: "id_dropped bl buf j = id_dropped bl buf (Suc j)"
      using id_dropped_step [OF j, of buf buf bl] False by auto
    have dist: "id_distinct bl buf (Suc j)" using Suc.prems(5) by (auto simp: id_distinct_def)
    from Suc.IH [OF Suc.prems(1,2) jk Suc.prems(4) [unfolded drop] dist, of "hn \<or> get32 buf j \<noteq> 0" d]
    obtain bm fd buf' where IH: "truncate_indirect bl (Suc j) k buf (hn \<or> get32 buf j \<noteq> 0) d s =
        Some (buf', (hn \<or> get32 buf j \<noteq> 0) \<or> (\<exists>m. Suc j \<le> m \<and> m < 128 \<and> get32 buf' m \<noteq> 0),
          d \<or> id_dropped bl buf (Suc j) \<noteq> {}, with_map bm fd s)"
      "length buf' = 512" "\<And>m. get32 buf' m = (if Suc j \<le> m \<and> m < 128 \<and> bl < 15 + m then 0 else get32 buf m)"
      "bitmap_set bm = used s - id_dropped bl buf (Suc j)" "fs_quiet (with_map bm fd s)"
      "id_dropped bl buf (Suc j) = {} \<longrightarrow> buf' = buf"
      by blast
    have final: "get32 buf' m = (if j \<le> m \<and> m < 128 \<and> bl < 15 + m then 0 else get32 buf m)" for m
      using IH(3) [of m] False by (auto simp: range)
    moreover have "(get32 buf j \<noteq> 0 \<or> (\<exists>m. Suc j \<le> m \<and> m < 128 \<and> get32 buf' m \<noteq> 0)) \<longleftrightarrow>
        (\<exists>m. j \<le> m \<and> m < 128 \<and> get32 buf' m \<noteq> 0)"
      using final [of j] IH(3) [of j] j by (auto simp: range)
    ultimately show ?thesis using False IH(1,2,4,5,6) drop
      by (intro exI [of _ bm] exI [of _ fd] exI [of _ buf']) auto
  qed
qed

section \<open>Dropping blocks of a file\<close>

text \<open>\<open>trunc_post P v s s'\<close>: from \<open>s\<close> to \<open>s'\<close> the blocks of the file with a number in \<open>P\<close> have been
  dropped and freed, and perhaps the indirect block; nothing else has changed.\<close>

definition trunc_post :: "(nat \<Rightarrow> bool) \<Rightarrow> nat \<Rightarrow> sfs_fs \<Rightarrow> sfs_fs \<Rightarrow> bool" where
  "trunc_post P v s s' \<longleftrightarrow> fs_quiet s' \<and> super s' = super s \<and> sfs_held s' = sfs_held s \<and>
     sfs_vnodes s' = sfs_vnodes s \<and> sfs_fresh s' = sfs_fresh s \<and>
     (\<forall>w. w \<noteq> v \<longrightarrow> sfs_heap s' w = sfs_heap s w) \<and> sfs_heap s v \<noteq> None \<and>
     map_option sv_erase (sfs_heap s' v) = map_option sv_erase (sfs_heap s v) \<and>
     inode_ok s' (vinode s' v) \<and>
     (\<forall>n. fblock s' (vinode s' v) n = (if P n then 0 else fblock s (vinode s v) n)) \<and>
     blocks_of s' (vinode s' v) \<subseteq> blocks_of s (vinode s v) \<and>
     used s' = used s - (blocks_of s (vinode s v) - blocks_of s' (vinode s' v)) \<and>
     sfi_indirect (vinode s' v) \<in> {0, sfi_indirect (vinode s v)} \<and>
     (\<forall>c. c \<noteq> 0 \<longrightarrow> c \<noteq> sfi_indirect (vinode s v) \<longrightarrow> sector s' c = sector s c)"

lemma trunc_post_vnode:
  assumes "trunc_post P v s s'"
  obtains sv' where "sfs_heap s' v = Some sv'" "inode_ok s' (sv_i sv')" "vinode s' v = sv_i sv'" "fs_quiet s'"
proof -
  from assms have "sfs_heap s' v \<noteq> None" "inode_ok s' (vinode s' v)" "fs_quiet s'" unfolding trunc_post_def by auto
  with that show thesis by (auto simp: vinode_def)
qed

lemma trunc_post_refl:
  "fs_quiet s \<Longrightarrow> sfs_heap s v = Some sv \<Longrightarrow> inode_ok s (sv_i sv) \<Longrightarrow> trunc_post (\<lambda>_. False) v s s"
  by (auto simp: trunc_post_def vinode_def)

lemma trunc_post_weaken:
  assumes "trunc_post P v s s'" and "\<And>n. P n \<noteq> Q n \<Longrightarrow> fblock s (vinode s v) n = 0"
  shows "trunc_post Q v s s'"
proof -
  have "fblock s' (vinode s' v) n = (if Q n then 0 else fblock s (vinode s v) n)" for n
    using assms(1) assms(2) [of n] unfolding trunc_post_def by metis
  with assms(1) show ?thesis by (simp add: trunc_post_def)
qed

lemma trunc_post_trans:
  assumes 1: "trunc_post P v s1 s2" and 2: "trunc_post Q v s2 s3"
  shows "trunc_post (\<lambda>n. P n \<or> Q n) v s1 s3"
proof -
  let ?B1 = "blocks_of s1 (vinode s1 v)" and ?B2 = "blocks_of s2 (vinode s2 v)" and ?B3 = "blocks_of s3 (vinode s3 v)"
  have B: "?B3 \<subseteq> ?B2" "?B2 \<subseteq> ?B1" "used s2 = used s1 - (?B1 - ?B2)" "used s3 = used s2 - (?B2 - ?B3)"
    using 1 2 unfolding trunc_post_def by blast+
  then have used: "used s3 = used s1 - (?B1 - ?B3)" and sub: "?B3 \<subseteq> ?B1" by blast+
  have "fblock s3 (vinode s3 v) n = (if P n \<or> Q n then 0 else fblock s1 (vinode s1 v) n)" for n
    using 1 2 unfolding trunc_post_def by metis
  moreover have "sector s3 c = sector s1 c" if "c \<noteq> 0" "c \<noteq> sfi_indirect (vinode s1 v)" for c
  proof -
    have "sector s2 c = sector s1 c" using 1 that unfolding trunc_post_def by blast
    moreover have "c \<noteq> sfi_indirect (vinode s2 v)" using 1 that unfolding trunc_post_def by auto
    ultimately show ?thesis using 2 that(1) unfolding trunc_post_def by auto
  qed
  moreover have "sfi_indirect (vinode s3 v) \<in> {0, sfi_indirect (vinode s1 v)}"
    using 1 2 unfolding trunc_post_def by auto
  moreover have "fs_quiet s3" "super s3 = super s1" "sfs_held s3 = sfs_held s1" "sfs_vnodes s3 = sfs_vnodes s1"
    "sfs_fresh s3 = sfs_fresh s1" "\<forall>w. w \<noteq> v \<longrightarrow> sfs_heap s3 w = sfs_heap s1 w" "sfs_heap s1 v \<noteq> None"
    "map_option sv_erase (sfs_heap s3 v) = map_option sv_erase (sfs_heap s1 v)" "inode_ok s3 (vinode s3 v)"
    using 1 2 unfolding trunc_post_def by simp_all
  ultimately show ?thesis unfolding trunc_post_def using used sub by blast
qed

text \<open>How the relation is established: the freed blocks are those the map has lost.\<close>

definition lost_blocks :: "(nat \<Rightarrow> bool) \<Rightarrow> sfs_fs \<Rightarrow> sfs_inode \<Rightarrow> nat set" where
  "lost_blocks P s i = {b. b \<noteq> 0 \<and> (\<exists>n. P n \<and> b = fblock s i n)}"

lemma indirect_not_lost:
  assumes "inode_ok s i"
  shows "sfi_indirect i \<notin> lost_blocks P s i"
proof
  assume "sfi_indirect i \<in> lost_blocks P s i"
  then obtain n where "sfi_indirect i = fblock s i n" "sfi_indirect i \<noteq> 0" by (auto simp: lost_blocks_def)
  with inode_okD(3) [OF assms, of n] show False by simp
qed

lemma trunc_postI:
  assumes sv: "sfs_heap s v = Some sv" "sfs_heap s' = (sfs_heap s)(v \<mapsto> sv')" "sv_erase sv' = sv_erase sv"
    and ok: "inode_ok s (sv_i sv)"
    and s': "fs_quiet s'" "super s' = super s" "sfs_held s' = sfs_held s" "sfs_vnodes s' = sfs_vnodes s" "sfs_fresh s' = sfs_fresh s"
    and len: "length (sfi_direct (sv_i sv')) = 15"
    and map: "\<And>n. fblock s' (sv_i sv') n = (if P n then 0 else fblock s (sv_i sv) n)"
    and ind: "sfi_indirect (sv_i sv') \<in> {0, sfi_indirect (sv_i sv)}"
    and used: "used s' = used s - (lost_blocks P s (sv_i sv) \<union>
      (if sfi_indirect (sv_i sv') = 0 then {sfi_indirect (sv_i sv)} - {0} else {}))"
    and sec: "\<And>c. c \<noteq> 0 \<Longrightarrow> c \<noteq> sfi_indirect (sv_i sv) \<Longrightarrow> sector s' c = sector s c"
  shows "trunc_post P v s s'"
proof -
  let ?i = "sv_i sv" and ?i' = "sv_i sv'"
  have vi: "vinode s v = ?i" "vinode s' v = ?i'" using sv by (simp_all add: vinode_def)
  note okD = inode_okD [OF ok]
  have nblk: "nblocks s' = nblocks s" using s'(2) by simp
  have kept: "b \<notin> lost_blocks P s ?i" if "\<not> P n" "b = fblock s ?i n" "b \<noteq> 0" for n b
  proof
    assume "b \<in> lost_blocks P s ?i"
    then obtain m where "P m" "b = fblock s ?i m" by (auto simp: lost_blocks_def)
    with okD(4) [of m n] that show False by simp
  qed
  have ne: "fblock s ?i n \<noteq> sfi_indirect ?i" if "fblock s ?i n \<noteq> 0" for n using okD(3) that by blast
  note ind_kept = indirect_not_lost [OF ok, of P]
  have "inode_ok s' ?i'" unfolding inode_ok_def
  proof (intro conjI allI impI)
    fix n assume n: "fblock s' ?i' n \<noteq> 0"
    then have p: "\<not> P n" "fblock s' ?i' n = fblock s ?i n" using map [of n] by (auto split: if_splits)
    with n okD(3) [of n] nblk show "fblock s' ?i' n < nblocks s'" by simp
    show "fblock s' ?i' n \<in> used s'" using used okD(3) [of n] kept [OF p(1) refl] n p(2) ne [of n] by auto
    show "fblock s' ?i' n \<noteq> sfi_indirect ?i'" using ind n p(2) ne [of n] by auto
  next
    fix m n assume "fblock s' ?i' m = fblock s' ?i' n" "fblock s' ?i' n \<noteq> 0"
    then show "m = n" using okD(4) [of m n] map by (auto split: if_splits)
  next
    assume i: "sfi_indirect ?i' \<noteq> 0"
    with ind have e: "sfi_indirect ?i' = sfi_indirect ?i" by simp
    with i okD(2) nblk show "sfi_indirect ?i' < nblocks s'" by simp
    show "sfi_indirect ?i' \<in> used s'" using i e okD(2) used ind_kept by auto
  qed (use len in simp)
  moreover have sub: "blocks_of s' ?i' \<subseteq> blocks_of s ?i" using ind map by (auto simp: blocks_of_def)
  moreover have "blocks_of s ?i - blocks_of s' ?i' = lost_blocks P s ?i \<union>
      (if sfi_indirect ?i' = 0 then {sfi_indirect ?i} - {0} else {})"
  proof -
    have "b \<notin> blocks_of s' ?i'" if b: "b \<in> lost_blocks P s ?i" for b
    proof
      assume b': "b \<in> blocks_of s' ?i'"
      then have "b \<noteq> 0" "b \<noteq> sfi_indirect ?i'" using b ind ind_kept by (auto simp: blocks_of_def)
      with b' obtain n where "b = fblock s' ?i' n" by (auto simp: blocks_of_def)
      with \<open>b \<noteq> 0\<close> map [of n] kept [of n b] b show False by (auto split: if_splits)
    qed
    moreover have "b \<in> blocks_of s ?i" if b: "b \<in> lost_blocks P s ?i" for b
      using b by (auto simp: lost_blocks_def blocks_of_def)
    moreover have "sfi_indirect ?i \<in> blocks_of s ?i \<and> sfi_indirect ?i \<notin> blocks_of s' ?i'"
      if "sfi_indirect ?i' = 0" "sfi_indirect ?i \<noteq> 0"
      using that map ne by (auto simp: blocks_of_def split: if_splits) metis
    moreover have "b \<in> blocks_of s' ?i'" if b: "b \<in> blocks_of s ?i" "b \<notin> lost_blocks P s ?i" "\<not> (sfi_indirect ?i' = 0 \<and> b = sfi_indirect ?i)" for b
      using b ind map by (auto simp: blocks_of_def lost_blocks_def)
    moreover have "0 \<notin> blocks_of s ?i" by (simp add: blocks_of_def)
    ultimately show ?thesis
      by (cases "sfi_indirect ?i' = 0"; cases "sfi_indirect ?i = 0"; simp; blast)
  qed
  ultimately show ?thesis using sv s' map ind used sec vi by (simp add: trunc_post_def)
qed

section \<open>The two phases\<close>

lemma truncate_one:
  assumes q: "fs_quiet s" and sv: "sfs_heap s v = Some sv" and ok: "inode_ok s (sv_i sv)" and n: "n < 15"
    and b: "sfi_direct (sv_i sv) ! n \<noteq> 0"
  shows "\<exists>s'. do {
      s \<leftarrow> sfs_bfree (sfi_direct (sv_i sv) ! n) s;
      sv \<leftarrow> sv_get v s;
      Some (sv_put v (sv\<lparr>sv_i := (sv_i sv)\<lparr>sfi_direct := (sfi_direct (sv_i sv))[n := 0]\<rparr>, sv_dirty := True\<rparr>) s)
    } = Some s' \<and> trunc_post (\<lambda>m. m = n) v s s'"
proof -
  let ?i = "sv_i sv" and ?b = "sfi_direct (sv_i sv) ! n"
  have fb: "fblock s ?i n = ?b" using n by (simp add: fblock_def)
  with inode_okD(3) [OF ok, of n] b have b3: "?b \<in> used s" "?b < nblocks s" by simp_all
  obtain bm where bm: "sfs_bfree ?b s = Some (with_map bm True s)" "bitmap_set bm = used s - {?b}"
    "fs_quiet (with_map bm True s)" by (rule sfs_bfree_map [OF q b3 b])
  let ?sv = "sv\<lparr>sv_i := ?i\<lparr>sfi_direct := (sfi_direct ?i)[n := 0]\<rparr>, sv_dirty := True\<rparr>"
  let ?s = "sv_put v ?sv (with_map bm True s)"
  have "fblock ?s (sv_i ?sv) m = (if m = n then 0 else fblock s ?i m)" for m
    using fblock_update_direct [OF n inode_okD(1) [OF ok], of ?s s 0 m] by simp
  moreover have "lost_blocks (\<lambda>m. m = n) s ?i = {?b}" using fb b by (auto simp: lost_blocks_def)
  ultimately have "trunc_post (\<lambda>m. m = n) v s ?s"
    using sv bm ok inode_okD(1) [OF ok]
    by (intro trunc_postI [OF sv _ _ ok, where sv' = ?sv]) (auto simp: sv_erase_def)
  with bm(1) sv show ?thesis by (simp add: sv_get_def)
qed

lemma truncate_direct_spec:
  assumes "fs_quiet s" and "sfs_heap s v = Some sv" and "inode_ok s (sv_i sv)" and "i + k = 15"
  shows "\<exists>s'. truncate_direct v bl i k s = Some s' \<and> trunc_post (\<lambda>m. i \<le> m \<and> m < 15 \<and> bl \<le> m) v s s'"
  using assms
proof (induction k arbitrary: i s sv)
  case 0
  have "trunc_post (\<lambda>m. i \<le> m \<and> m < 15 \<and> bl \<le> m) v s s"
    by (rule trunc_post_weaken [OF trunc_post_refl [OF 0(1-3)]]) (use 0(4) in auto)
  then show ?case by simp
next
  case (Suc k)
  let ?b = "sfi_direct (sv_i sv) ! i"
  have i: "i < 15" "Suc i + k = 15" using Suc.prems(4) by simp_all
  have fb: "fblock s (vinode s v) i = ?b" using i Suc.prems(2) by (simp add: fblock_def vinode_def)
  have "\<exists>s1. (if bl \<le> i \<and> ?b \<noteq> 0 then do {
        s \<leftarrow> sfs_bfree ?b s;
        sv \<leftarrow> sv_get v s;
        Some (sv_put v (sv\<lparr>sv_i := (sv_i sv)\<lparr>sfi_direct := (sfi_direct (sv_i sv))[i := 0]\<rparr>, sv_dirty := True\<rparr>) s)
      } else Some s) = Some s1 \<and> trunc_post (\<lambda>m. m = i \<and> bl \<le> m) v s s1"
  proof (cases "bl \<le> i \<and> ?b \<noteq> 0")
    case True
    with truncate_one [OF Suc.prems(1-3) i(1)] obtain s1 where "do {
        s \<leftarrow> sfs_bfree ?b s;
        sv \<leftarrow> sv_get v s;
        Some (sv_put v (sv\<lparr>sv_i := (sv_i sv)\<lparr>sfi_direct := (sfi_direct (sv_i sv))[i := 0]\<rparr>, sv_dirty := True\<rparr>) s)
      } = Some s1" "trunc_post (\<lambda>m. m = i) v s s1" by blast
    moreover from this(2) have "trunc_post (\<lambda>m. m = i \<and> bl \<le> m) v s s1"
      by (rule trunc_post_weaken) (use True in auto)
    ultimately show ?thesis using True by simp
  next
    case False
    from trunc_post_refl [OF Suc.prems(1-3)] have "trunc_post (\<lambda>m. m = i \<and> bl \<le> m) v s s"
      by (rule trunc_post_weaken) (use False fb in auto)
    with False show ?thesis by auto
  qed
  then obtain s1 where s1: "(if bl \<le> i \<and> ?b \<noteq> 0 then do {
        s \<leftarrow> sfs_bfree ?b s;
        sv \<leftarrow> sv_get v s;
        Some (sv_put v (sv\<lparr>sv_i := (sv_i sv)\<lparr>sfi_direct := (sfi_direct (sv_i sv))[i := 0]\<rparr>, sv_dirty := True\<rparr>) s)
      } else Some s) = Some s1" "trunc_post (\<lambda>m. m = i \<and> bl \<le> m) v s s1" by blast
  obtain sv1 where sv1: "sfs_heap s1 v = Some sv1" "inode_ok s1 (sv_i sv1)" "fs_quiet s1"
    by (rule trunc_post_vnode [OF s1(2)])
  from Suc.IH [OF sv1(3,1,2) i(2)] obtain s' where s': "truncate_direct v bl (Suc i) k s1 = Some s'"
    "trunc_post (\<lambda>m. Suc i \<le> m \<and> m < 15 \<and> bl \<le> m) v s1 s'" by blast
  have "(\<lambda>m. (m = i \<and> bl \<le> m) \<or> (Suc i \<le> m \<and> m < 15 \<and> bl \<le> m)) = (\<lambda>m. i \<le> m \<and> m < 15 \<and> bl \<le> m)"
    using i(1) by (intro ext) auto
  with trunc_post_trans [OF s1(2) s'(2)] s1(1) s'(1) Suc.prems(2) show ?case
    by (simp add: sv_get_def cong: if_cong)
qed

lemma truncate_idblock_spec:
  assumes q: "fs_quiet s" and sv: "sfs_heap s v = Some sv" and ok: "inode_ok s (sv_i sv)"
  shows "\<exists>s'. truncate_idblock v bl True s = Some (Inr (), s') \<and> trunc_post (\<lambda>m. 15 \<le> m \<and> bl < m) v s s' \<and>
    (bl < 142 \<longrightarrow> (\<forall>m. 15 \<le> m \<longrightarrow> fblock s' (vinode s' v) m = 0) \<longrightarrow> sfi_indirect (vinode s' v) = 0)"
proof (cases "bl < 142 \<and> sfi_indirect (sv_i sv) \<noteq> 0")
  case False
  from trunc_post_refl [OF q sv ok] have "trunc_post (\<lambda>m. 15 \<le> m \<and> bl < m) v s s"
    by (rule trunc_post_weaken) (use False sv in \<open>auto simp: fblock_def vinode_def\<close>)
  with False sv show ?thesis by (auto simp: truncate_idblock_def sv_get_def vinode_def)
next
  case True
  let ?i = "sv_i sv"
  define ib where "ib = sfi_indirect ?i"
  define buf where "buf = sector s ib"
  have ib: "ib \<noteq> 0" "ib < nblocks s" "ib \<in> used s" using True inode_okD(2) [OF ok] by (simp_all add: ib_def)
  have len: "length buf = 512" using sector_length [OF q] by (simp add: buf_def)
  have map: "get32 buf m = fblock s ?i (15 + m)" if "m < 128" for m
    using that True by (simp add: fblock_def buf_def ib_def)
  have shift: "15 \<le> n \<Longrightarrow> n < 143 \<Longrightarrow> fblock s ?i n = get32 buf (n - 15)" for n using map [of "n - 15"] by simp
  let ?P = "\<lambda>m. 15 \<le> m \<and> bl < m"
  have lost: "lost_blocks ?P s ?i = id_dropped bl buf 0"
  proof (rule set_eqI)
    fix b
    have "(\<exists>n. (15 \<le> n \<and> bl < n) \<and> b = fblock s ?i n) \<longleftrightarrow> (\<exists>m. m < 128 \<and> bl < 15 + m \<and> b = get32 buf m)" if "b \<noteq> 0"
    proof
      assume "\<exists>n. (15 \<le> n \<and> bl < n) \<and> b = fblock s ?i n"
      then obtain n where n: "15 \<le> n" "bl < n" "b = fblock s ?i n" by blast
      with that have "n < 143" by (auto simp: fblock_def split: if_splits)
      with n shift show "\<exists>m. m < 128 \<and> bl < 15 + m \<and> b = get32 buf m" by (intro exI [of _ "n - 15"]) auto
    next
      assume "\<exists>m. m < 128 \<and> bl < 15 + m \<and> b = get32 buf m"
      then show "\<exists>n. (15 \<le> n \<and> bl < n) \<and> b = fblock s ?i n" using map by (metis le_add1)
    qed
    then show "b \<in> lost_blocks ?P s ?i \<longleftrightarrow> b \<in> id_dropped bl buf 0"
      by (auto simp: lost_blocks_def id_dropped_def)
  qed
  have sub: "id_dropped bl buf 0 \<subseteq> used s \<inter> {..<nblocks s}"
    using inode_okD(3) [OF ok] unfolding lost [symmetric] by (auto simp: lost_blocks_def)
  have dist: "id_distinct bl buf 0" unfolding id_distinct_def
  proof (intro allI impI notI)
    fix m n assume "m < n" "n < 128" "get32 buf m \<noteq> 0" "get32 buf m = get32 buf n"
    then show False using inode_okD(4) [OF ok, of "15 + m" "15 + n"] map [of m] map [of n] by simp
  qed
  have "0 + 128 = (128::nat)" by simp
  from truncate_indirect_spec [OF q len this sub dist, of False False] obtain bm fd buf' where
    loop0: "truncate_indirect bl 0 128 buf False False s = Some (buf', False \<or> (\<exists>m. 0 \<le> m \<and> m < 128 \<and> get32 buf' m \<noteq> 0),
      False \<or> id_dropped bl buf 0 \<noteq> {}, with_map bm fd s)"
    "length buf' = 512" "\<forall>m. get32 buf' m = (if 0 \<le> m \<and> m < 128 \<and> bl < 15 + m then 0 else get32 buf m)"
    "bitmap_set bm = used s - id_dropped bl buf 0" "fs_quiet (with_map bm fd s)" "id_dropped bl buf 0 = {} \<longrightarrow> buf' = buf"
    by blast
  have loop: "truncate_indirect bl 0 128 buf False False s =
      Some (buf', \<exists>m < 128. get32 buf' m \<noteq> 0, id_dropped bl buf 0 \<noteq> {}, with_map bm fd s)"
    "length buf' = 512" "\<And>m. get32 buf' m = (if m < 128 \<and> bl < 15 + m then 0 else get32 buf m)"
    "bitmap_set bm = used s - id_dropped bl buf 0" "fs_quiet (with_map bm fd s)" "id_dropped bl buf 0 = {} \<longrightarrow> buf' = buf"
    using loop0(1) apply (simp only: le0 simp_thms)
    using loop0(2-6) by simp_all
  have rd: "rblock ib s = Some (Inr buf, s)" using rblock_ok [OF q ib(2)] by (simp add: buf_def)
  have ib_kept: "ib \<notin> id_dropped bl buf 0"
    unfolding lost [symmetric] ib_def by (rule indirect_not_lost [OF ok])
  define hn d where "hn = (\<exists>m < 128. get32 buf' m \<noteq> 0)" and "d = (id_dropped bl buf 0 \<noteq> {})"
  have pre: "truncate_idblock v bl True s = (if \<not> hn then do {
        s \<leftarrow> sfs_bfree ib (with_map bm fd s);
        sv \<leftarrow> sv_get v s;
        Some (Inr (), sv_put v (sv\<lparr>sv_i := (sv_i sv)\<lparr>sfi_indirect := 0\<rparr>, sv_dirty := True\<rparr>) s) }
      else if d then wblock buf' ib (with_map bm fd s) else Some (Inr (), with_map bm fd s))"
    using True sv rd loop(1) [folded hn_def d_def]
    by (cases hn; cases d) (simp_all add: truncate_idblock_def sv_get_def ib_def)
  show ?thesis
  proof (cases "\<exists>m < 128. get32 buf' m \<noteq> 0")
    case False
    have "ib \<in> used (with_map bm fd s)" "ib < nblocks (with_map bm fd s)" using ib ib_kept loop(4) by simp_all
    then obtain bm' where bm': "sfs_bfree ib (with_map bm fd s) = Some (with_map bm' True (with_map bm fd s))"
      "bitmap_set bm' = used (with_map bm fd s) - {ib}" "fs_quiet (with_map bm' True (with_map bm fd s))"
      by (rule sfs_bfree_map [OF loop(5) _ _ ib(1)])
    let ?sv = "sv\<lparr>sv_i := ?i\<lparr>sfi_indirect := 0\<rparr>, sv_dirty := True\<rparr>"
    let ?s = "sv_put v ?sv (with_map bm' True s)"
    have "fblock s ?i m = 0" if "15 \<le> m" "\<not> bl < m" for m
    proof (cases "m < 143")
      case True
      with that shift [of m] loop(3) [of "m - 15"] False show ?thesis by (auto split: if_splits)
    qed (simp add: fblock_def)
    then have "fblock ?s (sv_i ?sv) m = (if ?P m then 0 else fblock s ?i m)" for m
      by (auto simp: fblock_def)
    moreover have "used ?s = used s - (lost_blocks ?P s ?i \<union> {ib})" using bm'(2) loop(4) lost by auto
    ultimately have "trunc_post ?P v s ?s"
      using bm'(3) ib(1) inode_okD(1) [OF ok]
      by (intro trunc_postI [OF sv _ _ ok, where sv' = ?sv]) (auto simp: sv_erase_def ib_def)
    moreover have "sfi_indirect (vinode ?s v) = 0" by (simp add: vinode_def)
    moreover have "truncate_idblock v bl True s = Some (Inr (), ?s)"
      using pre False bm'(1) sv by (simp add: sv_get_def hn_def)
    ultimately show ?thesis by blast
  next
    case nz: True
    define s2 where "s2 = (if id_dropped bl buf 0 \<noteq> {} then set_sector ib buf' (with_map bm fd s) else with_map bm fd s)"
    have sec: "sector s2 = (sector s)(ib := buf')" using loop(6) by (auto simp: s2_def buf_def)
    have fb: "fblock s2 ?i m = (if ?P m then 0 else fblock s ?i m)" for m
    proof (cases "15 \<le> m \<and> m < 143")
      case True
      with nz sec ib(1) loop(3) [of "m - 15"] shift [of m] show ?thesis
        by (auto simp: fblock_def ib_def split: if_splits)
    qed (auto simp: fblock_def)
    have q2: "fs_quiet s2" using loop(2,5) by (simp add: s2_def)
    have post: "trunc_post ?P v s s2"
      using sv q2 fb sec loop(4) lost ib(1) inode_okD(1) [OF ok]
      by (intro trunc_postI [OF sv _ _ ok, where sv' = sv]) (auto simp: s2_def ib_def)
    have call: "truncate_idblock v bl True s = Some (Inr (), s2)"
      using pre nz wblock_ok [OF loop(5) _ loop(2), of ib] ib(2) by (auto simp: s2_def hn_def d_def)
    have "\<exists>m \<ge> 15. fblock s2 (vinode s2 v) m \<noteq> 0"
    proof -
      from nz obtain m where m: "m < 128" "get32 buf' m \<noteq> 0" by blast
      then have "fblock s2 ?i (15 + m) \<noteq> 0" using fb [of "15 + m"] map [of m] loop(3) [of m] by (auto split: if_splits)
      moreover have "vinode s2 v = ?i" using sv by (simp add: s2_def vinode_def)
      ultimately show ?thesis by (intro exI [of _ "15 + m"]) simp
    qed
    with post call show ?thesis by (intro exI [of _ s2]) auto
  qed
qed

section \<open>The whole operation\<close>

text \<open>The blocks of a file of \<open>bl\<close> blocks that go: those past the end, except the first of them when it is not a direct block.\<close>

definition dropped :: "nat \<Rightarrow> nat \<Rightarrow> bool" where
  "dropped bl m \<longleftrightarrow> bl \<le> m \<and> \<not> (m = bl \<and> SFS_NDIRECT \<le> m)"

lemma trunc_post_resize:
  assumes tp: "trunc_post P v s s'" and sv: "sfs_heap s' v = Some sv"
  shows "trunc_post P v s (sv_put v (sv\<lparr>sv_i := (sv_i sv)\<lparr>sfi_size := n\<rparr>, sv_dirty := d\<rparr>) s')"
proof -
  let ?s = "sv_put v (sv\<lparr>sv_i := (sv_i sv)\<lparr>sfi_size := n\<rparr>, sv_dirty := d\<rparr>) s'"
  have vi: "vinode ?s v = (vinode s' v)\<lparr>sfi_size := n\<rparr>" using sv by (simp add: vinode_def)
  have fb: "fblock ?s (vinode ?s v) = fblock s' (vinode s' v)" unfolding vi by (intro ext) (simp add: fblock_def)
  have bl: "blocks_of ?s (vinode ?s v) = blocks_of s' (vinode s' v)" using fb vi by (simp add: blocks_of_def)
  have "inode_ok ?s (vinode ?s v) = inode_ok s' (vinode s' v)" using fb vi by (simp add: inode_ok_def)
  with tp sv fb bl show ?thesis unfolding trunc_post_def by (simp add: vi sv_erase_def)
qed

lemma trunc_post_bytes:
  assumes tp: "trunc_post P v s s'" and ok: "inode_ok s (vinode s v)"
  shows "fbyte s' (vinode s' v) p = (if P (p div 512) then 0 else fbyte s (vinode s v) p)"
proof -
  let ?b = "fblock s (vinode s v) (p div 512)"
  have fb: "fblock s' (vinode s' v) (p div 512) = (if P (p div 512) then 0 else ?b)"
    using tp unfolding trunc_post_def by blast
  have "sector s' ?b = sector s ?b" if "?b \<noteq> 0"
    using tp inode_okD(3) [OF ok, of "p div 512"] that unfolding trunc_post_def by blast
  with fb show ?thesis by (auto simp: fbyte_def Let_def)
qed

lemma sfs_dotruncate_spec:
  assumes q: "fs_quiet s" and sv: "sfs_heap s v = Some sv" and ok: "inode_ok s (sv_i sv)"
    and held: "SvLock v \<in> sfs_held s" and len: "len + 511 < 2 ^ 31"
  defines "bl \<equiv> (len + 511) div 512"
  shows "\<exists>s'. sfs_dotruncate v (int len) s = Some (Inr (), s') \<and> trunc_post (dropped bl) v s s' \<and>
    sfi_size (vinode s' v) = len \<and>
    (bl < 142 \<longrightarrow> (\<forall>m. 15 \<le> m \<longrightarrow> fblock s' (vinode s' v) m = 0) \<longrightarrow> sfi_indirect (vinode s' v) = 0)"
proof -
  from truncate_direct_spec [OF q sv ok, of 0 15 bl] obtain s1 where
    s1: "truncate_direct v bl 0 15 s = Some s1" "trunc_post (\<lambda>m. m < 15 \<and> bl \<le> m) v s s1" by auto
  obtain sv1 where sv1: "sfs_heap s1 v = Some sv1" "inode_ok s1 (sv_i sv1)" "fs_quiet s1"
    by (rule trunc_post_vnode [OF s1(2)])
  from truncate_idblock_spec [OF sv1(3,1,2)] obtain s2 where s2: "truncate_idblock v bl True s1 = Some (Inr (), s2)"
    "trunc_post (\<lambda>m. 15 \<le> m \<and> bl < m) v s1 s2"
    "bl < 142 \<longrightarrow> (\<forall>m. 15 \<le> m \<longrightarrow> fblock s2 (vinode s2 v) m = 0) \<longrightarrow> sfi_indirect (vinode s2 v) = 0" by blast
  obtain sv2 where sv2: "sfs_heap s2 v = Some sv2" "vinode s2 v = sv_i sv2" by (rule trunc_post_vnode [OF s2(2)])
  let ?s = "sv_put v (sv2\<lparr>sv_i := (sv_i sv2)\<lparr>sfi_size := len\<rparr>, sv_dirty := True\<rparr>) s2"
  have "(\<lambda>n. (n < 15 \<and> bl \<le> n) \<or> (15 \<le> n \<and> bl < n)) = dropped bl" by (intro ext) (auto simp: dropped_def)
  with trunc_post_resize [OF trunc_post_trans [OF s1(2) s2(2)] sv2(1)] have "trunc_post (dropped bl) v s ?s" by simp
  moreover have "u32 ((511 + int len) div 512) = bl"
  proof -
    have "(511 + int len) div 512 = int bl" unfolding bl_def by (simp add: zdiv_int add.commute)
    moreover have "bl < 2 ^ 32" using len unfolding bl_def by simp
    ultimately show ?thesis by simp
  qed
  then have "sfs_dotruncate v (int len) s = Some (Inr (), ?s)"
    using len held s1(1) s2(1) sv2(1) by (simp add: sfs_dotruncate_def sfs_kmalloc_quiet [OF q] sv_get_def Let_def)
  moreover have "fblock ?s (vinode ?s v) = fblock s2 (vinode s2 v)" using sv2(2) by (intro ext) (simp add: fblock_def vinode_def)
  moreover have "vinode ?s v = (sv_i sv2)\<lparr>sfi_size := len\<rparr>" by (simp add: vinode_def)
  ultimately show ?thesis using s2(3) sv2(2) by (intro exI [of _ ?s]) simp
qed

text \<open>Emptying a file gives all of its blocks back.\<close>

lemma sfs_dotruncate_0:
  assumes q: "fs_quiet s" and sv: "sfs_heap s v = Some sv" and ok: "inode_ok s (sv_i sv)"
    and held: "SvLock v \<in> sfs_held s"
  shows "\<exists>s'. sfs_dotruncate v 0 s = Some (Inr (), s') \<and> trunc_post (\<lambda>_. True) v s s' \<and> sfi_size (vinode s' v) = 0 \<and>
    blocks_of s' (vinode s' v) = {} \<and> used s' = used s - blocks_of s (sv_i sv)"
proof -
  from sfs_dotruncate_spec [OF q sv ok held, of 0] obtain s' where s': "sfs_dotruncate v 0 s = Some (Inr (), s')"
    "trunc_post (dropped 0) v s s'" "sfi_size (vinode s' v) = 0"
    "(\<forall>m. 15 \<le> m \<longrightarrow> fblock s' (vinode s' v) m = 0) \<longrightarrow> sfi_indirect (vinode s' v) = 0" by auto
  have tp: "trunc_post (\<lambda>_. True) v s s'"
    by (rule trunc_post_weaken [OF s'(2)]) (auto simp: dropped_def split: if_splits)
  then have "fblock s' (vinode s' v) m = 0" for m unfolding trunc_post_def by simp
  with s'(4) have bl: "blocks_of s' (vinode s' v) = {}" by (auto simp: blocks_of_def)
  have "used s' = used s - (blocks_of s (vinode s v) - blocks_of s' (vinode s' v))"
    using tp unfolding trunc_post_def by blast
  with s' tp bl sv show ?thesis by (simp add: vinode_def)
qed

section \<open>Properties\<close>

lemma sv_lock_free: "sfs_heap s v = Some sv \<Longrightarrow> SvLock v \<notin> sfs_held s \<Longrightarrow> sv_lock v s = Some (sv_locked v s)"
  by (simp add: sv_lock_def sv_get_def sv_locked_def)

lemma sv_unlock_held:
  "sfs_heap s v = Some sv \<Longrightarrow> SvLock v \<in> sfs_held s \<Longrightarrow> sv_unlock v s = Some (s\<lparr>sfs_held := sfs_held s - {SvLock v}\<rparr>)"
  by (simp add: sv_unlock_def sv_get_def)

text \<open>The same file system with other locks held.\<close>

lemma held_facts [simp]:
  "fblock (s\<lparr>sfs_held := h\<rparr>) = fblock s" "inode_ok (s\<lparr>sfs_held := h\<rparr>) = inode_ok s" "fbyte (s\<lparr>sfs_held := h\<rparr>) = fbyte s"
  "blocks_of (s\<lparr>sfs_held := h\<rparr>) = blocks_of s" "vinode (s\<lparr>sfs_held := h\<rparr>) = vinode s"
  by (auto simp: fun_eq_iff fblock_def inode_ok_def fbyte_def blocks_of_def vinode_def Let_def)

lemma sfs_truncate_spec:
  assumes q: "fs_quiet s" and sv: "sfs_heap s v = Some sv" and ok: "inode_ok s (sv_i sv)"
    and held: "SvLock v \<notin> sfs_held s" and len: "len + 511 < 2 ^ 31"
  shows "\<exists>s'. sfs_truncate v (int len) s = Some (Inr (), s'\<lparr>sfs_held := sfs_held s\<rparr>) \<and>
    trunc_post (dropped ((len + 511) div 512)) v (sv_locked v s) s' \<and> sfi_size (vinode s' v) = len \<and>
    ((len + 511) div 512 < 142 \<longrightarrow> (\<forall>m. 15 \<le> m \<longrightarrow> fblock s' (vinode s' v) m = 0) \<longrightarrow> sfi_indirect (vinode s' v) = 0)"
proof -
  have "fs_quiet (sv_locked v s)" "sfs_heap (sv_locked v s) v = Some sv" "inode_ok (sv_locked v s) (sv_i sv)"
    "SvLock v \<in> sfs_held (sv_locked v s)" using q sv ok by simp_all
  from sfs_dotruncate_spec [OF this len] obtain s' where
    s': "sfs_dotruncate v (int len) (sv_locked v s) = Some (Inr (), s')"
      "trunc_post (dropped ((len + 511) div 512)) v (sv_locked v s) s'" "sfi_size (vinode s' v) = len"
      "(len + 511) div 512 < 142 \<longrightarrow> (\<forall>m. 15 \<le> m \<longrightarrow> fblock s' (vinode s' v) m = 0) \<longrightarrow> sfi_indirect (vinode s' v) = 0"
    by blast
  obtain sv' where sv': "sfs_heap s' v = Some sv'" by (rule trunc_post_vnode [OF s'(2)])
  have "sfs_held s' = insert (SvLock v) (sfs_held s)" using s'(2) unfolding trunc_post_def by simp
  then have "sv_unlock v s' = Some (s'\<lparr>sfs_held := sfs_held s\<rparr>)" using sv' held by (simp add: sv_unlock_held)
  with s' sv_lock_free [OF sv held] show ?thesis by (intro exI [of _ s']) (simp add: sfs_truncate_def)
qed

text \<open>C8: \<^verbatim>\<open>sfs_truncate\<close> sets the size and takes the blocks past the new end out of the file, except that the first block past
  the end stays when it is listed in the indirect block (the off-by-one of the indirect loop). The blocks taken out,
  and those only, go back to the free map: no block of the volume is lost and none is freed that is still in the
  file. When the new end is among the direct blocks, or nothing is at the first block past it, no block past the end stays. The
  bytes of the blocks that stay are as before, the dropped ones read as zero, and no block outside the file is written.
  Truncation to 0 returns every block.\<close>

theorem sfs_truncate_correct:
  assumes "fs_quiet s" and "sfs_heap s v = Some sv" and "inode_ok s (sv_i sv)" and "SvLock v \<notin> sfs_held s"
    and "len + 511 < 2 ^ 31"
  shows "\<exists>s'. sfs_truncate v (int len) s = Some (Inr (), s') \<and> fs_quiet s' \<and> sfs_held s' = sfs_held s \<and>
    sfi_size (vinode s' v) = len \<and> inode_ok s' (vinode s' v) \<and>
    (\<forall>p. fbyte s' (vinode s' v) p =
       (if dropped ((len + 511) div SFS_BLOCKSIZE) (p div SFS_BLOCKSIZE) then 0 else fbyte s (sv_i sv) p)) \<and>
    (\<forall>m. fblock s' (vinode s' v) m =
       (if (len + 511) div SFS_BLOCKSIZE \<le> m \<and> \<not> (m = (len + 511) div SFS_BLOCKSIZE \<and> SFS_NDIRECT \<le> m) then 0 else fblock s (sv_i sv) m)) \<and>
    ((len + 511) div SFS_BLOCKSIZE < SFS_NDIRECT \<or> fblock s (sv_i sv) ((len + 511) div SFS_BLOCKSIZE) = 0 \<longrightarrow>
       (\<forall>m. (len + 511) div SFS_BLOCKSIZE \<le> m \<longrightarrow> fblock s' (vinode s' v) m = 0)) \<and>
    used s' = used s - (blocks_of s (sv_i sv) - blocks_of s' (vinode s' v)) \<and>
    (len = 0 \<longrightarrow> blocks_of s' (vinode s' v) = {}) \<and>
    (\<forall>c. c \<noteq> 0 \<longrightarrow> c \<notin> blocks_of s (sv_i sv) \<longrightarrow> sector s' c = sector s c)"
proof -
  let ?bl = "(len + 511) div 512"
  from sfs_truncate_spec [OF assms] obtain s' where s': "sfs_truncate v (int len) s = Some (Inr (), s'\<lparr>sfs_held := sfs_held s\<rparr>)"
    and tp: "trunc_post (dropped ?bl) v (sv_locked v s) s'" and size: "sfi_size (vinode s' v) = len"
    and ind: "?bl < 142 \<longrightarrow> (\<forall>m. 15 \<le> m \<longrightarrow> fblock s' (vinode s' v) m = 0) \<longrightarrow> sfi_indirect (vinode s' v) = 0" by blast
  have vi: "vinode s v = sv_i sv" using assms(2) by (simp add: vinode_def)
  have bytes: "fbyte s' (vinode s' v) p = (if dropped ?bl (p div 512) then 0 else fbyte s (sv_i sv) p)" for p
    using trunc_post_bytes [OF tp, of p] assms(3) vi by simp
  have map: "fblock s' (vinode s' v) m = (if ?bl \<le> m \<and> \<not> (m = ?bl \<and> 15 \<le> m) then 0 else fblock s (sv_i sv) m)" for m
    using tp vi unfolding trunc_post_def by (simp add: dropped_def)
  then have gone: "fblock s' (vinode s' v) m = 0" if "?bl < 15 \<or> fblock s (sv_i sv) ?bl = 0" "?bl \<le> m" for m
    using that by (auto split: if_splits)
  have zero: "blocks_of s' (vinode s' v) = {}" if "len = 0"
  proof -
    have "fblock s' (vinode s' v) m = 0" for m using tp that unfolding trunc_post_def by (simp add: dropped_def)
    with ind that show ?thesis by (auto simp: blocks_of_def)
  qed
  have rest: "fs_quiet s'" "inode_ok s' (vinode s' v)"
    "used s' = used s - (blocks_of s (sv_i sv) - blocks_of s' (vinode s' v))"
    "\<forall>c. c \<noteq> 0 \<longrightarrow> c \<noteq> sfi_indirect (sv_i sv) \<longrightarrow> sector s' c = sector s c"
    using tp vi unfolding trunc_post_def by simp_all
  have "fs_quiet (s'\<lparr>sfs_held := sfs_held s\<rparr>)" using rest(1) assms(1) by (simp add: fs_quiet_def fs_wf_def)
  moreover have "\<forall>c. c \<noteq> 0 \<longrightarrow> c \<notin> blocks_of s (sv_i sv) \<longrightarrow> sector s' c = sector s c"
    using rest(4) by (auto simp: blocks_of_def)
  ultimately show ?thesis using s' size bytes zero rest(2,3) map gone
    by (intro exI [of _ "s'\<lparr>sfs_held := sfs_held s\<rparr>"]) simp
qed

text \<open>C9: truncation to a length of \<open>n\<close> whole blocks keeps block \<open>n\<close> of the file, although it lies past the
  new end, when \<open>n\<close> is 15 or more: the block stays in the inode's map and in the free map.\<close>

theorem sfs_truncate_keeps_block:
  assumes "fs_quiet s" and "sfs_heap s v = Some sv" and "inode_ok s (sv_i sv)" and "SvLock v \<notin> sfs_held s"
    and "SFS_NDIRECT \<le> n" and "n < SFS_MAXBLOCKS" and "fblock s (sv_i sv) n \<noteq> 0"
  shows "\<exists>s'. sfs_truncate v (int (n * SFS_BLOCKSIZE)) s = Some (Inr (), s') \<and>
    sfi_size (vinode s' v) = n * SFS_BLOCKSIZE \<and> fblock s' (vinode s' v) n = fblock s (sv_i sv) n \<and>
    fblock s (sv_i sv) n \<in> used s'"
proof -
  have n: "(n * 512 + 511) div 512 = n" by simp
  from sfs_truncate_spec [OF assms(1-4), of "n * 512"] assms(6) n obtain s' where
    s': "sfs_truncate v (int (n * 512)) s = Some (Inr (), s'\<lparr>sfs_held := sfs_held s\<rparr>)" "sfi_size (vinode s' v) = n * 512"
    and tp: "trunc_post (dropped n) v (sv_locked v s) s'" by auto
  have fb: "fblock s' (vinode s' v) n = fblock s (sv_i sv) n"
    using tp assms(2,5) unfolding trunc_post_def by (simp add: dropped_def vinode_def)
  moreover have "inode_ok s' (vinode s' v)" using tp unfolding trunc_post_def by blast
  ultimately have "fblock s (sv_i sv) n \<in> used s'" using inode_okD(3) [of s' "vinode s' v" n] assms(7) by simp
  with s' fb show ?thesis by (intro exI [of _ "s'\<lparr>sfs_held := sfs_held s\<rparr>"]) simp
qed

theorem sfs_truncate_correct_witness:
  "\<exists>s'. sfs_truncate 0 0 demo_fs = Some (Inr (), s') \<and> sfi_size (vinode s' 0) = 0 \<and>
     used s' = used demo_fs - blocks_of demo_fs (demo_inode 2)"
  using sfs_truncate_correct [OF demo_quiet demo_fs_simps(1), of 0] demo_inode_ok [of 2] by auto

text \<open>A file whose block 15, listed in the indirect block 3, is disk block 2.\<close>

definition demo_long :: sfs_fs where
  "demo_long = demo_fs\<lparr>
     sfs_device := \<lparr>d_blocks = 8, sectors = (\<lambda>b. if b = 3 then put32 2 @ replicate 508 0 else replicate 512 0), lh_status = []\<rparr>,
     sfs_heap := [0 \<mapsto> demo_vnode\<lparr>sv_i := (demo_inode 0)\<lparr>sfi_size := 8192, sfi_indirect := 3\<rparr>\<rparr>]\<rparr>"

lemma demo_long_sector: "get32 (put32 2 @ replicate 508 0) m = (if m = 0 then 2 else 0)"
proof (cases m)
  case 0
  then show ?thesis by (simp add: get32_def slice_append_left)
next
  case (Suc k)
  then have "get32 (put32 2 @ replicate 508 0) m = get32 (replicate 508 0) k"
    by (simp add: get32_def slice_append_right)
  with Suc show ?thesis by (simp add: get32_zeros)
qed

lemma demo_long_fblock: "fblock demo_long ((demo_inode 0)\<lparr>sfi_size := 8192, sfi_indirect := 3\<rparr>) n = (if n = 15 then 2 else 0)"
  using demo_long_sector [of "n - 15"] by (auto simp: fblock_def demo_long_def nth_Cons split: nat.split)

theorem sfs_truncate_keeps_block_witness:
  "\<exists>s'. sfs_truncate 0 (int (15 * 512)) demo_long = Some (Inr (), s') \<and> sfi_size (vinode s' 0) = 15 * 512 \<and>
     fblock s' (vinode s' 0) 15 = 2 \<and> 2 \<in> used s'"
proof -
  have heap: "sfs_heap demo_long 0 = Some (demo_vnode\<lparr>sv_i := (demo_inode 0)\<lparr>sfi_size := 8192, sfi_indirect := 3\<rparr>\<rparr>)"
    and used: "used demo_long = used demo_fs" and nb: "nblocks demo_long = 8" and held: "sfs_held demo_long = {}"
    by (simp_all add: demo_long_def demo_fs_def)
  have "fs_quiet demo_long" using demo_quiet
    by (auto simp: fs_quiet_def fs_wf_def disk_wf_def demo_long_def demo_fs_def)
  moreover have "inode_ok demo_long ((demo_inode 0)\<lparr>sfi_size := 8192, sfi_indirect := 3\<rparr>)"
    using demo_used [of 2] demo_used [of 3] used nb unfolding inode_ok_def demo_long_fblock by simp
  ultimately show ?thesis using sfs_truncate_keeps_block [OF _ heap, of 15] held
    by (simp add: demo_long_fblock)
qed

end
