(* ===== verification/K_Sfs_Table.thy ===== *)
theory K_Sfs_Table
  imports K_Sfs_Trunc
begin

text \<open>
  The table of loaded vnodes. \<open>vtable_ok\<close> is its invariant: the table lists exactly the vnodes in
  memory, each once, and no two of them have the same inode number. \<^verbatim>\<open>sfs_loadvnode\<close> keeps it, so an
  inode is in memory at most once, and \<^verbatim>\<open>sfs_reclaim\<close> keeps it and writes back what it discards.
\<close>

section \<open>The invariant\<close>

abbreviation vtable :: "sfs_fs \<Rightarrow> nat list" where
  "vtable s \<equiv> array_list (sfs_vnodes s)"

definition vnode_ok :: "sfs_fs \<Rightarrow> sfs_vnode \<Rightarrow> bool" where
  "vnode_ok s sv \<longleftrightarrow> sv_ino sv < nblocks s \<and> sv_ino sv \<in> used s \<and> sv_ino sv \<noteq> 0 \<and>
     0 < vn_refcount sv \<and> 0 \<le> vn_opencount sv"

definition unique_inos :: "(nat \<Rightarrow> sfs_vnode option) \<Rightarrow> bool" where
  "unique_inos h \<longleftrightarrow> (\<forall>v w sv sw. h v = Some sv \<longrightarrow> h w = Some sw \<longrightarrow> sv_ino sv = sv_ino sw \<longrightarrow> v = w)"

lemma unique_inosI:
  "(\<And>v w sv sw. h v = Some sv \<Longrightarrow> h w = Some sw \<Longrightarrow> sv_ino sv = sv_ino sw \<Longrightarrow> v = w) \<Longrightarrow> unique_inos h"
  by (simp add: unique_inos_def)

lemma unique_inosD: "unique_inos h \<Longrightarrow> h v = Some sv \<Longrightarrow> h w = Some sw \<Longrightarrow> sv_ino sv = sv_ino sw \<Longrightarrow> v = w"
  unfolding unique_inos_def by (elim allE impE) assumption+

definition vtable_ok :: "sfs_fs \<Rightarrow> bool" where
  "vtable_ok s \<longleftrightarrow> array_inv (sfs_vnodes s) \<and> distinct (vtable s) \<and> dom (sfs_heap s) = set (vtable s) \<and>
     (\<forall>v sv. sfs_heap s v = Some sv \<longrightarrow> v < sfs_fresh s \<and> vnode_ok s sv) \<and> unique_inos (sfs_heap s)"

lemma vtable_okD:
  assumes "vtable_ok s"
  shows "array_inv (sfs_vnodes s)" and "distinct (vtable s)" and "dom (sfs_heap s) = set (vtable s)"
    and "sfs_heap s v = Some sv \<Longrightarrow> v < sfs_fresh s" and "sfs_heap s v = Some sv \<Longrightarrow> vnode_ok s sv"
    and "sfs_heap s v = Some sv \<Longrightarrow> sfs_heap s w = Some sw \<Longrightarrow> sv_ino sv = sv_ino sw \<Longrightarrow> v = w"
    and "sfs_heap s (sfs_fresh s) = None"
proof -
  from assms have t: "array_inv (sfs_vnodes s)" "distinct (vtable s)" "dom (sfs_heap s) = set (vtable s)"
    and h: "\<forall>v sv. sfs_heap s v = Some sv \<longrightarrow> v < sfs_fresh s \<and> vnode_ok s sv"
    and u: "unique_inos (sfs_heap s)"
    unfolding vtable_ok_def by blast+
  from t show "array_inv (sfs_vnodes s)" "distinct (vtable s)" "dom (sfs_heap s) = set (vtable s)" by simp_all
  show "sfs_heap s v = Some sv \<Longrightarrow> v < sfs_fresh s" "sfs_heap s v = Some sv \<Longrightarrow> vnode_ok s sv" using h by simp_all
  show "sfs_heap s v = Some sv \<Longrightarrow> sfs_heap s w = Some sw \<Longrightarrow> sv_ino sv = sv_ino sw \<Longrightarrow> v = w"
    by (rule unique_inosD [OF u])
  show "sfs_heap s (sfs_fresh s) = None"
  proof (rule ccontr)
    assume "sfs_heap s (sfs_fresh s) \<noteq> None"
    then obtain sv where "sfs_heap s (sfs_fresh s) = Some sv" by blast
    with h show False by blast
  qed
qed

text \<open>Updating a vnode in place keeps the table.\<close>

lemma vtable_ok_put:
  assumes "vtable_ok s" and "sfs_heap s v = Some sv" and "sv_ino sv' = sv_ino sv" and "vnode_ok s sv'"
  shows "vtable_ok (sv_put v sv' s)"
proof -
  have "dom ((sfs_heap s)(v \<mapsto> sv')) = dom (sfs_heap s)" using assms(2) by (auto simp: dom_def)
  moreover have "vnode_ok (sv_put v sv' s) = vnode_ok s" by (simp add: fun_eq_iff vnode_ok_def)
  moreover have "unique_inos ((sfs_heap s)(v \<mapsto> sv'))"
  proof (rule unique_inosI)
    fix x y a b assume h: "((sfs_heap s)(v \<mapsto> sv')) x = Some a" "((sfs_heap s)(v \<mapsto> sv')) y = Some b" "sv_ino a = sv_ino b"
    obtain a' b' where "sfs_heap s x = Some a'" "sv_ino a' = sv_ino a" "sfs_heap s y = Some b'" "sv_ino b' = sv_ino b"
      using h(1,2) assms(2,3) by (auto split: if_splits)
    with h(3) vtable_okD(6) [OF assms(1), of x a' y b'] show "x = y" by simp
  qed
  moreover have "w < sfs_fresh s \<and> vnode_ok s sw" if "((sfs_heap s)(v \<mapsto> sv')) w = Some sw" for w sw
    using that vtable_okD(4,5) [OF assms(1)] assms(2,4) by (auto split: if_splits)
  ultimately show ?thesis using vtable_okD(1-3) [OF assms(1)] unfolding vtable_ok_def by simp
qed

section \<open>Loading\<close>

lemma loaded_search_spec:
  assumes q: "fs_quiet s" and ok: "vtable_ok s" and "i + k = length (vtable s)"
  shows "(\<exists>v sv. sfs_heap s v = Some sv \<and> sv_ino sv = ino \<and> loaded_search ino (int i) k s = Some (Some v, s)) \<or>
    ((\<forall>j. i \<le> j \<longrightarrow> j < length (vtable s) \<longrightarrow> (\<forall>sv. sfs_heap s (vtable s ! j) = Some sv \<longrightarrow> sv_ino sv \<noteq> ino)) \<and>
     loaded_search ino (int i) k s = Some (None, s))"
  using assms(3)
proof (induction k arbitrary: i)
  case 0
  then show ?case by auto
next
  case (Suc k)
  have i: "i < length (vtable s)" using Suc.prems by simp
  let ?v = "vtable s ! i"
  have "?v \<in> dom (sfs_heap s)" using i vtable_okD(3) [OF ok] by simp
  then obtain sv where sv: "sfs_heap s ?v = Some sv" by blast
  from vtable_okD(5) [OF ok sv] have vok: "sv_ino sv < nblocks s" "sv_ino sv \<in> used s" by (auto simp: vnode_ok_def)
  have step: "loaded_search ino (int i) (Suc k) s =
      (if sv_ino sv = ino then Some (Some ?v, s) else loaded_search ino (int (Suc i)) k s)"
    using karr.getguy_Suc_index [OF vtable_okD(1) [OF ok] i] sv vok sfs_bused_ok [OF q vok(1)]
    by (simp add: sv_get_def algebra_simps)
  show ?case
  proof (cases "sv_ino sv = ino")
    case True
    with step sv show ?thesis by auto
  next
    case False
    have range: "i \<le> j \<longleftrightarrow> j = i \<or> Suc i \<le> j" for j by auto
    from Suc.IH [of "Suc i"] Suc.prems have
      "(\<exists>v sv. sfs_heap s v = Some sv \<and> sv_ino sv = ino \<and> loaded_search ino (int (Suc i)) k s = Some (Some v, s)) \<or>
       ((\<forall>j. Suc i \<le> j \<longrightarrow> j < length (vtable s) \<longrightarrow> (\<forall>sv. sfs_heap s (vtable s ! j) = Some sv \<longrightarrow> sv_ino sv \<noteq> ino)) \<and>
        loaded_search ino (int (Suc i)) k s = Some (None, s))" by simp
    with False step sv show ?thesis by (auto simp: range simp del: loaded_search.simps)
  qed
qed

lemma loaded_search_cases:
  assumes q: "fs_quiet s" and ok: "vtable_ok s"
  obtains (loaded) v sv where "sfs_heap s v = Some sv" "sv_ino sv = ino"
      "loaded_search ino 0 (nat (array_getnum (sfs_vnodes s))) s = Some (Some v, s)"
    | (absent) "\<And>v sv. sfs_heap s v = Some sv \<Longrightarrow> sv_ino sv \<noteq> ino"
      "loaded_search ino 0 (nat (array_getnum (sfs_vnodes s))) s = Some (None, s)"
proof -
  have n: "nat (array_getnum (sfs_vnodes s)) = length (vtable s)"
    using karr.getnum_law [OF vtable_okD(1) [OF ok]] by simp
  have "0 + length (vtable s) = length (vtable s)" by simp
  from loaded_search_spec [OF q ok this, of ino] show thesis
  proof (elim disjE)
    assume "\<exists>v sv. sfs_heap s v = Some sv \<and> sv_ino sv = ino \<and> loaded_search ino (int 0) (length (vtable s)) s = Some (Some v, s)"
    with loaded n show thesis by auto
  next
    assume *: "(\<forall>j. 0 \<le> j \<longrightarrow> j < length (vtable s) \<longrightarrow> (\<forall>sv. sfs_heap s (vtable s ! j) = Some sv \<longrightarrow> sv_ino sv \<noteq> ino)) \<and>
     loaded_search ino (int 0) (length (vtable s)) s = Some (None, s)"
    have "sv_ino sv \<noteq> ino" if sv: "sfs_heap s v = Some sv" for v sv
    proof -
      have "v \<in> set (vtable s)" using sv vtable_okD(3) [OF ok] by blast
      then show ?thesis using * sv by (auto simp: in_set_conv_nth)
    qed
    with * absent n show thesis by simp
  qed
qed

lemma array_add_no_shortage:
  assumes "array_inv a" and "a_num a < 2 ^ 29 - 1"
  shows "\<exists>a'. array_add a x [] = Some (Inr (), a', []) \<and> array_inv a' \<and> array_list a' = array_list a @ [x]"
proof -
  from array_add_total [OF assms] obtain r a' m' where call: "array_add a x [] = Some (r, a', m')" by blast
  then have "r = Inr () \<and> m' = []"
    by (auto simp: array_add_def array_setsize_def array_preallocate_def kmalloc_ptrs_def Let_def
        elim!: bind_SomeE split: sum.split_asm prod.split_asm option.split_asm if_split_asm)
  with call array_add_ok [OF assms(1)] show ?thesis by blast
qed

lemma vnode_incref_ok:
  assumes "sfs_heap s v = Some sv" and "CountLock v \<notin> sfs_held s" and "0 < vn_refcount sv" "vn_refcount sv < INT_MAX"
  shows "vnode_incref v s = Some (sv_put v (sv\<lparr>vn_refcount := vn_refcount sv + 1\<rparr>) s)"
proof -
  have "(sv_put v x (s\<lparr>sfs_held := h\<rparr>))\<lparr>sfs_held := sfs_held s\<rparr> = sv_put v x s" for x h
    by (simp add: sv_put_def)
  with assms show ?thesis by (simp add: vnode_incref_def sv_get_def sfs_held_restore)
qed

text \<open>The vnode that is made for an inode read from the disk.\<close>

definition new_vnode :: "sfs_fs \<Rightarrow> nat \<Rightarrow> nat \<Rightarrow> vnode_ops \<Rightarrow> sfs_vnode" where
  "new_vnode s ino forcetype ops =
     \<lparr>sv_i = (if forcetype \<noteq> 0 then (decode_inode (sector s ino))\<lparr>sfi_type := forcetype\<rparr> else decode_inode (sector s ino)),
      sv_ino = ino, sv_dirty = (forcetype \<noteq> 0), vn_refcount = 1, vn_opencount = 0, vn_ops = ops\<rparr>"

lemma load_new_ok:
  assumes q: "fs_quiet s" and ok: "vtable_ok s" and room: "a_num (sfs_vnodes s) < 2 ^ 29 - 1"
    and ino: "ino < nblocks s" "ino \<in> used s"
    and type: "forcetype \<noteq> 0 \<longrightarrow> sfi_type (decode_inode (sector s ino)) = 0"
      "choose_ops (sv_i (new_vnode s ino forcetype ops)) = Some ops"
  obtains a where "load_new ino forcetype s = Some (Inr (Some (sfs_fresh s)),
      sv_put (sfs_fresh s) (new_vnode s ino forcetype ops) (s\<lparr>sfs_vnodes := a, sfs_fresh := sfs_fresh s + 1\<rparr>))"
    "array_inv a" "array_list a = vtable s @ [sfs_fresh s]"
proof -
  from array_add_no_shortage [OF vtable_okD(1) [OF ok] room] obtain a where
    a: "array_add (sfs_vnodes s) (sfs_fresh s) [] = Some (Inr (), a, [])" "array_inv a" "array_list a = vtable s @ [sfs_fresh s]"
    by blast
  have m: "sfs_mem s = []" using q by (simp add: fs_quiet_def)
  have upd: "sv_put v x (s\<lparr>sfs_vnodes := a, sfs_mem := [], sfs_fresh := n\<rparr>) = sv_put v x (s\<lparr>sfs_vnodes := a, sfs_fresh := n\<rparr>)" for v x n
    using m by (cases s) (simp add: sv_put_def)
  note facts = sfs_kmalloc_quiet [OF q] lock_create_def sfs_bused_ok [OF q ino(1)] ino(2) rblock_ok [OF q ino(1)]
  have "load_new ino forcetype s = Some (Inr (Some (sfs_fresh s)),
      sv_put (sfs_fresh s) (new_vnode s ino forcetype ops) (s\<lparr>sfs_vnodes := a, sfs_fresh := sfs_fresh s + 1\<rparr>))"
    using type m a(1)
    by (cases "forcetype = 0") (simp_all add: load_new_def facts new_vnode_def Let_def upd)
  with a(2,3) that show thesis by blast
qed

lemma fs_quiet_held: "fs_quiet s \<Longrightarrow> BitLock \<notin> h \<Longrightarrow> fs_quiet (s\<lparr>sfs_held := h\<rparr>)"
  by (simp add: fs_quiet_def fs_wf_def)

lemma vnode_ok_cong: "super s' = super s \<Longrightarrow> used s' = used s \<Longrightarrow> vnode_ok s' sv = vnode_ok s sv"
  by (simp add: vnode_ok_def)

lemma vtable_ok_held [simp]: "vtable_ok (s\<lparr>sfs_held := h\<rparr>) = vtable_ok s"
  by (simp add: vtable_ok_def vnode_ok_def)

text \<open>A new vnode in the table.\<close>

lemma vtable_ok_add:
  assumes ok: "vtable_ok s" and a: "array_inv a" "array_list a = vtable s @ [sfs_fresh s]"
    and sv: "vnode_ok s sv" "\<And>w sw. sfs_heap s w = Some sw \<Longrightarrow> sv_ino sw \<noteq> sv_ino sv"
  shows "vtable_ok (sv_put (sfs_fresh s) sv (s\<lparr>sfs_vnodes := a, sfs_fresh := sfs_fresh s + 1\<rparr>))"
proof -
  let ?h = "(sfs_heap s)(sfs_fresh s \<mapsto> sv)"
  have fresh: "sfs_fresh s \<notin> set (vtable s)" using vtable_okD(3,7) [OF ok] by blast
  have "unique_inos ?h"
  proof (rule unique_inosI)
    fix x y b c assume h: "?h x = Some b" "?h y = Some c" "sv_ino b = sv_ino c"
    then show "x = y" using sv(2) [of x b] sv(2) [of y c] vtable_okD(6) [OF ok, of x b y c] by (auto split: if_splits)
  qed
  moreover have "w < Suc (sfs_fresh s) \<and> vnode_ok s sw" if "?h w = Some sw" for w sw
    using that sv(1) vtable_okD(4,5) [OF ok, of w sw] by (auto split: if_splits)
  moreover have "vnode_ok (sv_put (sfs_fresh s) sv (s\<lparr>sfs_vnodes := a, sfs_fresh := sfs_fresh s + 1\<rparr>)) = vnode_ok s"
    by (simp add: fun_eq_iff vnode_ok_def)
  ultimately show ?thesis using vtable_okD(2,3) [OF ok] fresh a
    unfolding vtable_ok_def by (simp add: dom_fun_upd)
qed

text \<open>The state between two operations: no pending errors, a good table with room, no table lock held.\<close>

definition sfs_ready :: "sfs_fs \<Rightarrow> bool" where
  "sfs_ready s \<longleftrightarrow> fs_quiet s \<and> vtable_ok s \<and> a_num (sfs_vnodes s) < 2 ^ 29 - 1 \<and>
     (\<forall>v sv. sfs_heap s v = Some sv \<longrightarrow> vn_refcount sv < INT_MAX) \<and>
     VnLock \<notin> sfs_held s \<and> (\<forall>v. CountLock v \<notin> sfs_held s)"

lemma sfs_readyD:
  assumes "sfs_ready s"
  shows "fs_quiet s" "vtable_ok s" "a_num (sfs_vnodes s) < 2 ^ 29 - 1" "sfs_heap s v = Some sv \<Longrightarrow> vn_refcount sv < INT_MAX"
    "VnLock \<notin> sfs_held s" "CountLock w \<notin> sfs_held s"
  using assms unfolding sfs_ready_def by auto

text \<open>No vnode in memory has the inode number.\<close>

definition not_loaded :: "sfs_fs \<Rightarrow> nat \<Rightarrow> bool" where
  "not_loaded s ino \<longleftrightarrow> (\<forall>w sw. sfs_heap s w = Some sw \<longrightarrow> sv_ino sw \<noteq> ino)"

lemma not_loadedD: "not_loaded s ino \<Longrightarrow> sfs_heap s w = Some sw \<Longrightarrow> sv_ino sw \<noteq> ino"
  by (simp add: not_loaded_def)

lemma sfs_loadvnode_cases:
  assumes ready: "sfs_ready s" and ino: "ino < nblocks s" "ino \<in> used s" "ino \<noteq> 0"
    and type: "if forcetype = 0 then not_loaded s ino \<longrightarrow> sfi_type (decode_inode (sector s ino)) \<in> {1, 2}
      else forcetype \<in> {1, 2} \<and> sfi_type (decode_inode (sector s ino)) = 0 \<and> not_loaded s ino"
  obtains (loaded) v sv where "sfs_heap s v = Some sv" "sv_ino sv = ino" "forcetype = 0"
      "sfs_loadvnode ino forcetype s = Some (Inr (Some v), sv_put v (sv\<lparr>vn_refcount := vn_refcount sv + 1\<rparr>) s)"
      "vtable_ok (sv_put v (sv\<lparr>vn_refcount := vn_refcount sv + 1\<rparr>) s)"
    | (fresh) a ops where "\<And>w sw. sfs_heap s w = Some sw \<Longrightarrow> sv_ino sw \<noteq> ino"
      "sfs_loadvnode ino forcetype s = Some (Inr (Some (sfs_fresh s)),
        sv_put (sfs_fresh s) (new_vnode s ino forcetype ops) (s\<lparr>sfs_vnodes := a, sfs_fresh := sfs_fresh s + 1\<rparr>))"
      "choose_ops (sv_i (new_vnode s ino forcetype ops)) = Some ops"
      "vtable_ok (sv_put (sfs_fresh s) (new_vnode s ino forcetype ops) (s\<lparr>sfs_vnodes := a, sfs_fresh := sfs_fresh s + 1\<rparr>))"
proof -
  have q: "fs_quiet s" and ok: "vtable_ok s" and room: "a_num (sfs_vnodes s) < 2 ^ 29 - 1"
    and refs: "\<And>v sv. sfs_heap s v = Some sv \<Longrightarrow> vn_refcount sv < INT_MAX"
    and locks: "VnLock \<notin> sfs_held s" "\<And>v. CountLock v \<notin> sfs_held s" using sfs_readyD [OF ready] by auto
  define s1 where "s1 = s\<lparr>sfs_held := insert VnLock (sfs_held s)\<rparr>"
  have s1: "fs_quiet s1" "vtable_ok s1" "sfs_heap s1 = sfs_heap s" "sfs_vnodes s1 = sfs_vnodes s" "sector s1 = sector s"
    "used s1 = used s" "nblocks s1 = nblocks s" "sfs_fresh s1 = sfs_fresh s"
    using q ok fs_quiet_held [OF q, of "insert VnLock (sfs_held s)"] by (simp_all add: s1_def fs_quiet_def)
  from s1(1,2) show thesis
  proof (cases rule: loaded_search_cases [where ino = ino])
    case (loaded v sv)
    have v: "sfs_heap s v = Some sv" "sv_ino sv = ino" using loaded s1(3) by simp_all
    with type have ft: "forcetype = 0" using not_loadedD [of s ino v sv] by (auto split: if_splits)
    have vok: "vnode_ok s sv" using vtable_okD(5) [OF ok v(1)] .
    let ?sv = "sv\<lparr>vn_refcount := vn_refcount sv + 1\<rparr>"
    have inc: "vnode_incref v s1 = Some (sv_put v ?sv s1)"
      using v(1) vok refs [OF v(1)] locks(2) [of v] by (intro vnode_incref_ok) (simp_all add: s1_def vnode_ok_def)
    have "(sv_put v ?sv s1)\<lparr>sfs_held := sfs_held s1 - {VnLock}\<rparr> = sv_put v ?sv s"
      using locks(1) by (simp add: s1_def sv_put_def)
    then have "sfs_loadvnode ino forcetype s = Some (Inr (Some v), sv_put v ?sv s)"
      using locks(1) loaded(3) inc ft by (simp add: sfs_loadvnode_def flip: s1_def) (simp add: s1_def)
    moreover have "vtable_ok (sv_put v ?sv s)" using vok by (intro vtable_ok_put [OF ok v(1)]) (simp_all add: vnode_ok_def)
    ultimately show thesis using that(1) v ft by blast
  next
    case absent
    have abs: "sv_ino sw \<noteq> ino" if "sfs_heap s w = Some sw" for w sw using absent(1) that s1(3) by simp
    then have nl: "not_loaded s ino" by (simp add: not_loaded_def)
    obtain ops where ops: "choose_ops (sv_i (new_vnode s1 ino forcetype ops)) = Some ops"
      using type nl by (auto simp: new_vnode_def choose_ops_def s1(5) split: if_splits)
    have ty: "forcetype \<noteq> 0 \<longrightarrow> sfi_type (decode_inode (sector s1 ino)) = 0" using type by (auto simp: s1(5))
    obtain a where a: "load_new ino forcetype s1 = Some (Inr (Some (sfs_fresh s)),
        sv_put (sfs_fresh s) (new_vnode s1 ino forcetype ops) (s1\<lparr>sfs_vnodes := a, sfs_fresh := sfs_fresh s + 1\<rparr>))"
      "array_inv a" "array_list a = vtable s @ [sfs_fresh s]"
      using load_new_ok [OF s1(1,2) _ _ _ ty ops] room ino s1 by auto
    have nv: "new_vnode s1 ino forcetype ops = new_vnode s ino forcetype ops" by (simp add: new_vnode_def s1(5))
    let ?s = "sv_put (sfs_fresh s) (new_vnode s ino forcetype ops) (s\<lparr>sfs_vnodes := a, sfs_fresh := sfs_fresh s + 1\<rparr>)"
    have "(sv_put (sfs_fresh s) x (s1\<lparr>sfs_vnodes := a, sfs_fresh := n\<rparr>))\<lparr>sfs_held := insert VnLock (sfs_held s) - {VnLock}\<rparr> =
        sv_put (sfs_fresh s) x (s\<lparr>sfs_vnodes := a, sfs_fresh := n\<rparr>)" for x n
      using locks(1) by (cases s) (simp add: s1_def sv_put_def)
    then have call: "sfs_loadvnode ino forcetype s = Some (Inr (Some (sfs_fresh s)), ?s)"
      using locks(1) absent(2) a(1) nv by (simp add: sfs_loadvnode_def flip: s1_def) (simp add: s1_def)
    have "vtable_ok ?s"
      using ino abs by (intro vtable_ok_add [OF ok a(2,3)]) (simp_all add: vnode_ok_def new_vnode_def)
    with call ops nv abs that(2) show thesis by auto
  qed
qed

section \<open>Reclaiming\<close>

lemma sv_eraseD:
  assumes "sv_erase sv' = sv_erase sv"
  shows "sv_ino sv' = sv_ino sv" "vn_refcount sv' = vn_refcount sv" "vn_opencount sv' = vn_opencount sv"
    "vn_ops sv' = vn_ops sv" "sfi_type (sv_i sv') = sfi_type (sv_i sv)"
    "sfi_linkcount (sv_i sv') = sfi_linkcount (sv_i sv)" "sfi_waste (sv_i sv') = sfi_waste (sv_i sv)"
  using arg_cong [OF assms, of sv_ino] arg_cong [OF assms, of vn_refcount] arg_cong [OF assms, of vn_opencount]
    arg_cong [OF assms, of vn_ops] arg_cong [OF assms, of "\<lambda>x. sfi_type (sv_i x)"]
    arg_cong [OF assms, of "\<lambda>x. sfi_linkcount (sv_i x)"] arg_cong [OF assms, of "\<lambda>x. sfi_waste (sv_i x)"]
  by (simp_all add: sv_erase_def)

lemma sync_inode_ok:
  assumes q: "fs_quiet s" and sv: "sfs_heap s v = Some sv" and held: "SvLock v \<in> sfs_held s"
    and ino: "sv_ino sv < nblocks s" and wf: "inode_wf (sv_i sv)"
  shows "sfs_sync_inode v s = Some (Inr (),
    if sv_dirty sv then sv_put v (sv\<lparr>sv_dirty := False\<rparr>) (set_sector (sv_ino sv) (encode_inode (sv_i sv)) s) else s)"
  using sv held wblock_ok [OF q ino, of "encode_inode (sv_i sv)"] wf by (simp add: sfs_sync_inode_def sv_get_def)

lemma table_index_ok:
  assumes "array_inv a" and "array_list a ! j = v" and "j < length (array_list a)" and "distinct (array_list a)"
  shows "i + k = length (array_list a) \<Longrightarrow> i \<le> j \<Longrightarrow> table_index a v (int i) k = Some (int j)"
proof (induction k arbitrary: i)
  case 0
  with assms(3) show ?case by simp
next
  case (Suc k)
  have i: "i < length (array_list a)" using Suc.prems by simp
  have get: "array_getguy a (int i) = Some (array_list a ! i)" by (rule karr.getguy_Suc_index [OF assms(1) i])
  show ?case
  proof (cases "i = j")
    case True
    with get assms(2) show ?thesis by simp
  next
    case False
    then have "array_list a ! i \<noteq> v" using assms i by (metis nth_eq_iff_index_eq)
    moreover have "table_index a v (int (Suc i)) k = Some (int j)"
      using Suc.IH [of "Suc i"] Suc.prems False by simp
    ultimately show ?thesis using get by (simp add: add.commute)
  qed
qed

lemma vtable_ok_remove:
  assumes ok: "vtable_ok s" and sv: "sfs_heap s v = Some sv"
    and s': "sfs_heap s' = (sfs_heap s)(v := None)" "super s' = super s" "sfs_fresh s' = sfs_fresh s"
      "array_inv (sfs_vnodes s')" "vtable s' = remove1 v (vtable s)" "used s - {sv_ino sv} \<subseteq> used s'"
  shows "vtable_ok s'"
proof -
  have "unique_inos (sfs_heap s')"
    using vtable_okD(6) [OF ok] by (intro unique_inosI) (simp add: s'(1) split: if_split_asm)
  moreover have "vnode_ok s' sw" if w: "sfs_heap s' w = Some sw" for w sw
  proof -
    have w': "w \<noteq> v" "sfs_heap s w = Some sw" using w s'(1) by (auto split: if_splits)
    then have "sv_ino sw \<noteq> sv_ino sv" using vtable_okD(6) [OF ok w'(2) sv] by blast
    with vtable_okD(5) [OF ok w'(2)] s'(2,6) show ?thesis by (auto simp: vnode_ok_def)
  qed
  moreover have "w < sfs_fresh s'" if "sfs_heap s' w = Some sw" for w sw
    using that vtable_okD(4) [OF ok, of w sw] s'(1,3) by (auto split: if_splits)
  moreover have "dom (sfs_heap s') = set (vtable s')"
    using vtable_okD(2,3) [OF ok] s'(1,5) by auto
  ultimately show ?thesis using s'(4,5) vtable_okD(2) [OF ok] unfolding vtable_ok_def by simp
qed

lemma reclaim_discard_ok:
  assumes q: "fs_quiet s" and ok: "vtable_ok s" and sv: "sfs_heap s v = Some sv"
    and cnt: "vn_refcount sv = 1" "vn_opencount sv = 0"
    and held: "SvLock v \<in> sfs_held s" "VnLock \<in> sfs_held s"
  shows "\<exists>s'. reclaim_discard v s = Some (Inr (), s') \<and> sfs_heap s' = (sfs_heap s)(v := None) \<and>
    used s' = (if sfi_linkcount (sv_i sv) = 0 then used s - {sv_ino sv} else used s) \<and>
    sector s' = sector s \<and> super s' = super s \<and> sfs_held s' = sfs_held s - {VnLock, SvLock v} \<and> fs_quiet s' \<and> vtable_ok s'"
proof -
  have vok: "sv_ino sv < nblocks s" "sv_ino sv \<in> used s" "sv_ino sv \<noteq> 0"
    using vtable_okD(5) [OF ok sv] by (auto simp: vnode_ok_def)
  obtain bm fd where s1: "(if sfi_linkcount (sv_i sv) = 0 then sfs_bfree (sv_ino sv) s else Some s) = Some (with_map bm fd s)"
    "bitmap_set bm = (if sfi_linkcount (sv_i sv) = 0 then used s - {sv_ino sv} else used s)" "fs_quiet (with_map bm fd s)"
  proof (cases "sfi_linkcount (sv_i sv) = 0")
    case True
    then show thesis using sfs_bfree_map [OF q vok(2,1,3)] that by metis
  next
    case False
    then show thesis using that [of "sfs_freemap s" "sfs_freemapdirty s"] q by (simp add: with_map_same)
  qed
  have inv: "array_inv (sfs_vnodes s)" using vtable_okD(1) [OF ok] .
  have "v \<in> set (vtable s)" using sv vtable_okD(3) [OF ok] by blast
  then obtain j where j: "j < length (vtable s)" "vtable s ! j = v" by (auto simp: in_set_conv_nth)
  have ix: "table_index (sfs_vnodes s) v 0 (nat (array_getnum (sfs_vnodes s))) = Some (int j)"
    using table_index_ok [OF inv j(2,1) vtable_okD(2) [OF ok], of 0 "length (vtable s)"] karr.getnum_law [OF inv] by simp
  obtain a where a: "array_remove (sfs_vnodes s) (int j) = Some a" "array_inv a"
    "array_list a = take j (vtable s) @ drop (Suc j) (vtable s)"
    using karr.remove_law [OF inv, of "int j"] j(1) by auto
  have "vtable s = take j (vtable s) @ v # drop (Suc j) (vtable s)" using id_take_nth_drop [OF j(1)] j(2) by simp
  moreover from this have "v \<notin> set (take j (vtable s))" using vtable_okD(2) [OF ok]
    by (metis distinct_append not_distinct_conv_prefix)
  ultimately have rem: "array_list a = remove1 v (vtable s)" using a(3) by (metis remove1_append remove1.simps(2))
  define s' where "s' = (with_map bm fd s)\<lparr>sfs_vnodes := a, sfs_held := sfs_held s - {VnLock} - {SvLock v},
    sfs_heap := (sfs_heap s)(v := None)\<rparr>"
  have call: "reclaim_discard v s = Some (Inr (), s')"
    using sv s1(1) ix a(1) held cnt
    by (simp add: reclaim_discard_def sv_get_def reclaim_unlock_def sv_unlock_def vnode_kill_def s'_def split del: if_split)
  have f: "sfs_heap s' = (sfs_heap s)(v := None)" "super s' = super s" "sfs_fresh s' = sfs_fresh s" "used s' = bitmap_set bm"
    "vtable s' = remove1 v (vtable s)" "array_inv (sfs_vnodes s')" "sector s' = sector s" "sfs_held s' = sfs_held s - {VnLock, SvLock v}"
    using rem a(2) by (auto simp: s'_def)
  have "vtable_ok s'" using f s1(2) by (intro vtable_ok_remove [OF ok sv]) auto
  moreover have "fs_quiet s'" using s1(3) by (simp add: s'_def fs_quiet_def fs_wf_def)
  ultimately show ?thesis using call f s1(2) by (intro exI [of _ s']) simp
qed

lemma vnode_check_ok:
  assumes "sfs_heap s v = Some sv" and "CountLock v \<notin> sfs_held s" and "0 < vn_refcount sv" and "0 \<le> vn_opencount sv"
  shows "vnode_check rc v s = Some s"
  using assms by (simp add: vnode_check_def sv_get_def sfs_held_restore)

lemma vnode_decref_shared:
  assumes "sfs_heap s v = Some sv" and "CountLock v \<notin> sfs_held s" and "1 < vn_refcount sv"
  shows "vnode_decref v s = Some (sv_put v (sv\<lparr>vn_refcount := vn_refcount sv - 1\<rparr>) s)"
proof -
  have "(sv_put v x (s\<lparr>sfs_held := h\<rparr>))\<lparr>sfs_held := sfs_held s\<rparr> = sv_put v x s" for x h
    by (simp add: sv_put_def)
  with assms show ?thesis by (simp add: vnode_decref_def sv_get_def)
qed

text \<open>No inode of a loaded vnode lies in a block of the file.\<close>

definition inos_outside :: "sfs_fs \<Rightarrow> sfs_inode \<Rightarrow> bool" where
  "inos_outside s i \<longleftrightarrow> (\<forall>w sw. sfs_heap s w = Some sw \<longrightarrow> sv_ino sw \<notin> blocks_of s i)"

lemma inos_outsideD: "inos_outside s i \<Longrightarrow> sfs_heap s w = Some sw \<Longrightarrow> sv_ino sw \<notin> blocks_of s i"
  by (simp add: inos_outside_def)

lemma inos_outside_held [simp]: "inos_outside (s\<lparr>sfs_held := h\<rparr>) i = inos_outside s i"
  by (simp add: inos_outside_def)

lemma vtable_ok_trunc:
  assumes ok: "vtable_ok s" and tp: "trunc_post P v s s'"
    and inos: "inos_outside s (vinode s v)"
  shows "vtable_ok s'"
proof -
  have f: "super s' = super s" "sfs_vnodes s' = sfs_vnodes s" "sfs_fresh s' = sfs_fresh s"
    "\<And>w. w \<noteq> v \<Longrightarrow> sfs_heap s' w = sfs_heap s w"
    "map_option sv_erase (sfs_heap s' v) = map_option sv_erase (sfs_heap s v)"
    "used s - blocks_of s (vinode s v) \<subseteq> used s'" using tp unfolding trunc_post_def by blast+
  have old: "\<exists>sw. sfs_heap s w = Some sw \<and> sv_ino sw' = sv_ino sw \<and> vn_refcount sw' = vn_refcount sw \<and> vn_opencount sw' = vn_opencount sw"
    if "sfs_heap s' w = Some sw'" for w sw'
  proof (cases "w = v")
    case True
    with that f(5) obtain sw where "sfs_heap s w = Some sw" "sv_erase sw' = sv_erase sw" by (auto simp: map_option_case split: option.splits)
    with sv_eraseD show ?thesis by blast
  next
    case False
    with that f(4) show ?thesis by auto
  qed
  have "unique_inos (sfs_heap s')"
  proof (rule unique_inosI)
    fix x y a b assume h: "sfs_heap s' x = Some a" "sfs_heap s' y = Some b" "sv_ino a = sv_ino b"
    obtain a' where "sfs_heap s x = Some a'" "sv_ino a = sv_ino a'" using old [OF h(1)] by auto
    moreover obtain b' where "sfs_heap s y = Some b'" "sv_ino b = sv_ino b'" using old [OF h(2)] by auto
    ultimately show "x = y" using h(3) vtable_okD(6) [OF ok, of x a' y b'] by simp
  qed
  moreover have "w < sfs_fresh s' \<and> vnode_ok s' sw'" if w: "sfs_heap s' w = Some sw'" for w sw'
  proof -
    obtain sw where sw: "sfs_heap s w = Some sw" "sv_ino sw' = sv_ino sw" "vn_refcount sw' = vn_refcount sw" "vn_opencount sw' = vn_opencount sw"
      using old [OF w] by blast
    with vtable_okD(4,5) [OF ok sw(1)] inos_outsideD [OF inos sw(1)] f(1,3,6) show ?thesis by (auto simp: vnode_ok_def)
  qed
  moreover have "dom (sfs_heap s') = dom (sfs_heap s)"
  proof (rule set_eqI)
    fix w
    show "w \<in> dom (sfs_heap s') \<longleftrightarrow> w \<in> dom (sfs_heap s)"
      using f(4) [of w] f(5) by (cases "w = v") (auto simp: dom_def map_option_case split: option.splits)
  qed
  ultimately show ?thesis using vtable_okD(1-3) [OF ok] f(2) unfolding vtable_ok_def by simp
qed

text \<open>The truncation in \<^verbatim>\<open>sfs_reclaim\<close> of a file without links.\<close>

lemma reclaim_truncate:
  assumes q: "fs_quiet s" and ok: "vtable_ok s" and sv: "sfs_heap s v = Some sv" and held: "SvLock v \<in> sfs_held s"
    and iok: "inode_ok s (sv_i sv)" and wf: "inode_wf (sv_i sv)"
    and inos: "inos_outside s (sv_i sv)"
  shows "\<exists>s' sv'. (if sfi_linkcount (sv_i sv) = 0 then sfs_dotruncate v 0 s else Some (Inr (), s)) = Some (Inr (), s') \<and>
    sfs_heap s' = (sfs_heap s)(v \<mapsto> sv') \<and> sv_erase sv' = sv_erase sv \<and> super s' = super s \<and> sfs_held s' = sfs_held s \<and>
    fs_quiet s' \<and> vtable_ok s' \<and> inode_wf (sv_i sv') \<and> (sfi_linkcount (sv_i sv) \<noteq> 0 \<longrightarrow> sv' = sv \<and> s' = s) \<and>
    used s' = (if sfi_linkcount (sv_i sv) = 0 then used s - blocks_of s (sv_i sv) else used s) \<and>
    (\<forall>c. c \<noteq> 0 \<longrightarrow> c \<notin> blocks_of s (sv_i sv) \<longrightarrow> sector s' c = sector s c)"
proof (cases "sfi_linkcount (sv_i sv) = 0")
  case False
  have "(sfs_heap s)(v \<mapsto> sv) = sfs_heap s" using sv by (simp add: fun_upd_idem)
  with False q ok wf show ?thesis by (intro exI [of _ s] exI [of _ sv]) simp
next
  case True
  from sfs_dotruncate_0 [OF q sv iok held] obtain s' where s': "sfs_dotruncate v 0 s = Some (Inr (), s')"
    "trunc_post (\<lambda>_. True) v s s'" "sfi_size (vinode s' v) = 0" "blocks_of s' (vinode s' v) = {}"
    "used s' = used s - blocks_of s (sv_i sv)" by blast
  have vi: "vinode s v = sv_i sv" using sv by (simp add: vinode_def)
  obtain sv' where sv': "sfs_heap s' v = Some sv'" "inode_ok s' (sv_i sv')" "vinode s' v = sv_i sv'" "fs_quiet s'"
    by (rule trunc_post_vnode [OF s'(2)])
  have f: "super s' = super s" "sfs_held s' = sfs_held s" "\<And>w. w \<noteq> v \<Longrightarrow> sfs_heap s' w = sfs_heap s w"
    "map_option sv_erase (sfs_heap s' v) = map_option sv_erase (sfs_heap s v)"
    "\<And>n. fblock s' (vinode s' v) n = 0" "sfi_indirect (vinode s' v) \<in> {0, sfi_indirect (vinode s v)}"
    "\<And>c. c \<noteq> 0 \<Longrightarrow> c \<noteq> sfi_indirect (vinode s v) \<Longrightarrow> sector s' c = sector s c"
    using s'(2) unfolding trunc_post_def by simp_all
  have er: "sv_erase sv' = sv_erase sv" using f(4) sv sv'(1) by simp
  have direct: "sfi_direct (sv_i sv') ! n = 0" if "n < 15" for n using f(5) [of n] that sv'(3) by (simp add: fblock_def)
  have "\<forall>b \<in> set (sfi_direct (sv_i sv')). b < 2 ^ 32"
    using direct inode_okD(1) [OF sv'(2)] by (auto simp: in_set_conv_nth)
  then have wf': "inode_wf (sv_i sv')"
    using wf sv_eraseD [OF er] inode_okD(1) [OF sv'(2)] s'(3) sv'(3) f(6) vi by (auto simp: inode_wf_def)
  have "vtable_ok s'" using inos vi by (intro vtable_ok_trunc [OF ok s'(2)]) simp
  moreover have "sfs_heap s' = (sfs_heap s)(v \<mapsto> sv')" using f(3) sv'(1) by (intro ext) auto
  moreover have "\<forall>c. c \<noteq> 0 \<longrightarrow> c \<notin> blocks_of s (sv_i sv) \<longrightarrow> sector s' c = sector s c"
    using f(7) vi by (auto simp: blocks_of_def)
  ultimately show ?thesis using True s'(1,5) er f(1,2) sv'(4) wf'
    by (intro exI [of _ s'] exI [of _ sv']) simp
qed

lemma sfs_reclaim_last:
  assumes q: "fs_quiet s" and ok: "vtable_ok s" and sv: "sfs_heap s v = Some sv"
    and cnt: "vn_refcount sv = 1" "vn_opencount sv = 0"
    and iok: "inode_ok s (sv_i sv)" and wf: "inode_wf (sv_i sv)"
    and inos: "inos_outside s (sv_i sv)"
    and locks: "SvLock v \<notin> sfs_held s" "VnLock \<notin> sfs_held s" "CountLock v \<notin> sfs_held s"
  shows "\<exists>s'. sfs_reclaim v s = Some (Inr (), s') \<and> sfs_heap s' = (sfs_heap s)(v := None) \<and> vtable_ok s' \<and> fs_quiet s' \<and>
    sfs_held s' = sfs_held s \<and> super s' = super s \<and>
    used s' = (if sfi_linkcount (sv_i sv) = 0 then used s - blocks_of s (sv_i sv) - {sv_ino sv} else used s) \<and>
    (sfi_linkcount (sv_i sv) \<noteq> 0 \<longrightarrow>
       sector s' = (if sv_dirty sv then (sector s)(sv_ino sv := encode_inode (sv_i sv)) else sector s)) \<and>
    (\<forall>c. c \<noteq> 0 \<longrightarrow> c \<noteq> sv_ino sv \<longrightarrow> c \<notin> blocks_of s (sv_i sv) \<longrightarrow> sector s' c = sector s c)"
proof -
  let ?lc0 = "sfi_linkcount (sv_i sv) = 0"
  define s1 where "s1 = s\<lparr>sfs_held := insert VnLock (insert (SvLock v) (sfs_held s))\<rparr>"
  have s1: "fs_quiet s1" "vtable_ok s1" "sfs_heap s1 v = Some sv" "SvLock v \<in> sfs_held s1" "inode_ok s1 (sv_i sv)"
    "inos_outside s1 (sv_i sv)"
    using q ok sv iok inos fs_quiet_held [OF q, of "insert VnLock (insert (SvLock v) (sfs_held s))"]
    by (simp_all add: s1_def fs_quiet_def)
  from reclaim_truncate [OF s1(1-5) wf s1(6)] obtain s2 sv2 where
    s2: "(if ?lc0 then sfs_dotruncate v 0 s1 else Some (Inr (), s1)) = Some (Inr (), s2)"
      "sfs_heap s2 = (sfs_heap s1)(v \<mapsto> sv2)" "sv_erase sv2 = sv_erase sv" "super s2 = super s1" "sfs_held s2 = sfs_held s1"
      "fs_quiet s2" "vtable_ok s2" "inode_wf (sv_i sv2)" "\<not> ?lc0 \<longrightarrow> sv2 = sv \<and> s2 = s1"
      "used s2 = (if ?lc0 then used s1 - blocks_of s1 (sv_i sv) else used s1)"
      "\<forall>c. c \<noteq> 0 \<longrightarrow> c \<notin> blocks_of s1 (sv_i sv) \<longrightarrow> sector s2 c = sector s1 c" by blast
  note er = sv_eraseD [OF s2(3)]
  have h2: "sfs_heap s2 v = Some sv2" using s2(2) by simp
  have ino2: "sv_ino sv2 < nblocks s2" using vtable_okD(5) [OF s2(7) h2] by (simp add: vnode_ok_def)
  have held2: "SvLock v \<in> sfs_held s2" "VnLock \<in> sfs_held s2" using s2(5) by (simp_all add: s1_def)
  define sv3 where "sv3 = (if sv_dirty sv2 then sv2\<lparr>sv_dirty := False\<rparr> else sv2)"
  define s3 where "s3 = (if sv_dirty sv2 then sv_put v sv3 (set_sector (sv_ino sv2) (encode_inode (sv_i sv2)) s2) else s2)"
  have sync: "sfs_sync_inode v s2 = Some (Inr (), s3)"
    using sync_inode_ok [OF s2(6) h2 held2(1) ino2 s2(8)] by (simp add: s3_def sv3_def)
  have h3: "sfs_heap s3 = (sfs_heap s2)(v \<mapsto> sv3)" using h2 by (auto simp: s3_def sv3_def)
  have vt: "vtable_ok (set_sector (sv_ino sv2) (encode_inode (sv_i sv2)) s2)"
    using s2(7) by (simp add: vtable_ok_def vnode_ok_def)
  have "vtable_ok s3" unfolding s3_def
    using vtable_ok_put [OF vt, of v sv2 sv3] h2 vtable_okD(5) [OF s2(7) h2] s2(7)
    by (cases "sv_dirty sv2") (simp_all add: sv3_def vnode_ok_def)
  moreover have "fs_quiet s3" using s2(6,8) by (simp add: s3_def)
  moreover have h3v: "sfs_heap s3 v = Some sv3" using h3 by simp
  moreover have "vn_refcount sv3 = 1" "vn_opencount sv3 = 0" "SvLock v \<in> sfs_held s3" "VnLock \<in> sfs_held s3"
    using er cnt held2 by (simp_all add: sv3_def s3_def)
  ultimately obtain s' where s': "reclaim_discard v s3 = Some (Inr (), s')" "sfs_heap s' = (sfs_heap s3)(v := None)"
    "used s' = (if sfi_linkcount (sv_i sv3) = 0 then used s3 - {sv_ino sv3} else used s3)"
    "sector s' = sector s3" "super s' = super s3" "sfs_held s' = sfs_held s3 - {VnLock, SvLock v}" "fs_quiet s'" "vtable_ok s'"
    using reclaim_discard_ok [of s3 v sv3] by blast
  have sv3: "sv_ino sv3 = sv_ino sv" "sfi_linkcount (sv_i sv3) = sfi_linkcount (sv_i sv)" using er by (simp_all add: sv3_def)
  have sec3: "sector s3 = (if sv_dirty sv2 then (sector s2)(sv_ino sv := encode_inode (sv_i sv2)) else sector s2)"
    using er by (simp add: s3_def)
  have "insert (CountLock v) (insert VnLock (insert (SvLock v) (sfs_held s))) - {CountLock v} =
      insert VnLock (insert (SvLock v) (sfs_held s))" using locks by auto
  then have "sfs_reclaim v s = Some (Inr (), s')"
    using sv locks cnt s2(1) [unfolded s1_def] sync s'(1)
    by (simp add: sfs_reclaim_def sv_lock_def sv_get_def split del: if_split)
  moreover have "sfs_held s' = sfs_held s" using s'(6) s2(5) locks by (auto simp: s3_def s1_def)
  moreover have "used s' = (if ?lc0 then used s - blocks_of s (sv_i sv) - {sv_ino sv} else used s)"
    using s'(3) s2(10) sv3 by (simp add: s3_def s1_def)
  moreover have "super s' = super s" using s'(5) s2(4) by (simp add: s3_def s1_def)
  moreover have "sfs_heap s' = (sfs_heap s)(v := None)" using s'(2) h3 s2(2) by (simp add: s1_def)
  moreover have "sector s' = (if sv_dirty sv then (sector s)(sv_ino sv := encode_inode (sv_i sv)) else sector s)" if "\<not> ?lc0"
    using that s2(9) s'(4) sec3 by (simp add: s1_def)
  moreover have "sector s' c = sector s c" if "c \<noteq> 0" "c \<noteq> sv_ino sv" "c \<notin> blocks_of s (sv_i sv)" for c
    using that s2(11) s'(4) sec3 by (simp add: s1_def)
  ultimately show ?thesis using s'(7,8) by (intro exI [of _ s']) simp
qed

lemma vnode_decref_last:
  assumes "sfs_heap s v = Some sv" and "vn_refcount sv = 1" "vn_opencount sv = 0"
    and "CountLock v \<notin> sfs_held s" and "sfs_reclaim v s = Some (r, s')"
  shows "vnode_decref v s = Some s'"
  using assms vnode_check_ok [OF assms(1,4), of True]
  by (simp add: vnode_decref_def sv_get_def sfs_held_restore)

lemma loadvnode_spec:
  assumes "sfs_ready s" and "ino < nblocks s" "ino \<in> used s" "ino \<noteq> 0"
    and "not_loaded s ino \<longrightarrow> sfi_type (decode_inode (sector s ino)) \<in> {SFS_TYPE_FILE, SFS_TYPE_DIR}"
  shows "\<exists>v s' sv'. sfs_loadvnode ino SFS_TYPE_INVAL s = Some (Inr (Some v), s') \<and>
    sfs_heap s' v = Some sv' \<and> sv_ino sv' = ino \<and>
    (case sfs_heap s v of
       Some sv \<Rightarrow> sv' = sv\<lparr>vn_refcount := vn_refcount sv + 1\<rparr>
     | None \<Rightarrow> not_loaded s ino \<and> vn_refcount sv' = 1 \<and>
         sv_i sv' = decode_inode (sector s ino)) \<and>
    vtable_ok s' \<and> fs_quiet s' \<and> (\<forall>w. w \<noteq> v \<longrightarrow> sfs_heap s' w = sfs_heap s w) \<and>
    sfs_held s' = sfs_held s \<and> sfs_device s' = sfs_device s \<and> sfs_freemap s' = sfs_freemap s \<and> super s' = super s"
proof -
  note r = sfs_readyD [OF assms(1)]
  have ty: "if (0::nat) = 0 then not_loaded s ino \<longrightarrow> sfi_type (decode_inode (sector s ino)) \<in> {1, 2}
      else (0::nat) \<in> {1, 2} \<and> sfi_type (decode_inode (sector s ino)) = 0 \<and> not_loaded s ino"
    using assms(5) by simp
  from assms(1-4) ty show ?thesis
  proof (cases rule: sfs_loadvnode_cases [where ino = ino and forcetype = 0])
    case (loaded v sv)
    then show ?thesis using r(1)
      by (intro exI [of _ v] exI [of _ "sv_put v (sv\<lparr>vn_refcount := vn_refcount sv + 1\<rparr>) s"]
          exI [of _ "sv\<lparr>vn_refcount := vn_refcount sv + 1\<rparr>"]) simp
  next
    case (fresh a ops)
    let ?nv = "new_vnode s ino 0 ops"
    let ?s = "sv_put (sfs_fresh s) ?nv (s\<lparr>sfs_vnodes := a, sfs_fresh := sfs_fresh s + 1\<rparr>)"
    have "fs_quiet ?s" using r(1) by (simp add: fs_quiet_def fs_wf_def)
    moreover have "sfs_heap s (sfs_fresh s) = None" using vtable_okD(7) [OF r(2)] .
    ultimately show ?thesis using fresh
      by (intro exI [of _ "sfs_fresh s"] exI [of _ ?s] exI [of _ ?nv]) (simp add: new_vnode_def not_loaded_def)
  qed
qed

section \<open>Properties\<close>

text \<open>C10: \<^verbatim>\<open>sfs_loadvnode\<close> keeps one vnode per inode. For an allocated inode it always returns a vnode with
  that inode number: the one in memory, with one more reference, when there is one, and otherwise a
  new one with one reference, whose inode is what the disk holds. The table stays well formed, no
  other vnode changes, and all locks are given back.\<close>

theorem sfs_loadvnode_correct:
  assumes "sfs_ready s" and "ino < nblocks s" "ino \<in> used s" "ino \<noteq> 0"
    and "not_loaded s ino \<longrightarrow> sfi_type (decode_inode (sector s ino)) \<in> {SFS_TYPE_FILE, SFS_TYPE_DIR}"
  shows "\<exists>v s' sv'. sfs_loadvnode ino SFS_TYPE_INVAL s = Some (Inr (Some v), s') \<and>
    sfs_heap s' v = Some sv' \<and> sv_ino sv' = ino \<and>
    (case sfs_heap s v of
       Some sv \<Rightarrow> sv' = sv\<lparr>vn_refcount := vn_refcount sv + 1\<rparr>
     | None \<Rightarrow> not_loaded s ino \<and> vn_refcount sv' = 1 \<and>
         sv_i sv' = decode_inode (sector s ino)) \<and>
    vtable_ok s' \<and> fs_quiet s' \<and> (\<forall>w. w \<noteq> v \<longrightarrow> sfs_heap s' w = sfs_heap s w) \<and>
    sfs_held s' = sfs_held s \<and> sfs_device s' = sfs_device s \<and> sfs_freemap s' = sfs_freemap s \<and> super s' = super s"
  by (rule loadvnode_spec [OF assms])

lemma table_count: "vtable_ok s \<Longrightarrow> a_num (sfs_vnodes s) = int (card (dom (sfs_heap s)))"
  using vtable_okD(1-3) [of s] karr.getnum_law [of "sfs_vnodes s"] by (simp add: array_getnum_def distinct_card)

lemma sfs_ready_drop:
  assumes "sfs_ready s" and "sfs_heap s' = (sfs_heap s)(v := None)" "vtable_ok s'" "fs_quiet s'" "sfs_held s' = sfs_held s"
  shows "sfs_ready s'"
proof -
  have "dom (sfs_heap s') \<subseteq> dom (sfs_heap s)" using assms(2) by auto
  moreover have "finite (dom (sfs_heap s))" using vtable_okD(3) [OF sfs_readyD(2) [OF assms(1)]] by simp
  ultimately have "a_num (sfs_vnodes s') \<le> a_num (sfs_vnodes s)"
    using table_count [OF assms(3)] table_count [OF sfs_readyD(2) [OF assms(1)]] by (simp add: card_mono)
  with assms show ?thesis unfolding sfs_ready_def by (auto split: if_splits)
qed

text \<open>dropping the last reference to a file that still has a name loses nothing: the vnode leaves memory and
  the table, no block is freed, and loading the inode number again gives a vnode with the same inode.\<close>

theorem vnode_decref_persistent:
  assumes "sfs_ready s" and "sfs_heap s v = Some sv" and "vn_refcount sv = 1" "vn_opencount sv = 0"
    and "SvLock v \<notin> sfs_held s" and "inode_ok s (sv_i sv)" "inode_wf (sv_i sv)" "inos_outside s (sv_i sv)"
    and "0 < sfi_linkcount (sv_i sv)" and "sfi_type (sv_i sv) \<in> {SFS_TYPE_FILE, SFS_TYPE_DIR}"
    and "sv_dirty sv \<or> decode_inode (sector s (sv_ino sv)) = sv_i sv"
  shows "\<exists>s1 w s2 sw. vnode_decref v s = Some s1 \<and> sfs_heap s1 v = None \<and> used s1 = used s \<and>
    sfs_loadvnode (sv_ino sv) SFS_TYPE_INVAL s1 = Some (Inr (Some w), s2) \<and> sfs_heap s2 w = Some sw \<and> sv_i sw = sv_i sv"
proof -
  note r = sfs_readyD [OF assms(1)]
  from sfs_reclaim_last [OF r(1,2) assms(2-4,6-8,5) r(5,6)] assms(9) obtain s1 where
    rec: "sfs_reclaim v s = Some (Inr (), s1)" and s1: "sfs_heap s1 = (sfs_heap s)(v := None)" "vtable_ok s1" "fs_quiet s1"
      "sfs_held s1 = sfs_held s" "super s1 = super s" "used s1 = used s"
      "sector s1 = (if sv_dirty sv then (sector s)(sv_ino sv := encode_inode (sv_i sv)) else sector s)" by auto
  have dec: "vnode_decref v s = Some s1" by (rule vnode_decref_last [OF assms(2-4) r(6) rec])
  have disk: "decode_inode (sector s1 (sv_ino sv)) = sv_i sv"
    using s1(7) assms(11) decode_inode_encode [OF assms(7)] by auto
  have vok: "sv_ino sv < nblocks s1" "sv_ino sv \<in> used s1" "sv_ino sv \<noteq> 0"
    using vtable_okD(5) [OF r(2) assms(2)] s1(5,6) by (auto simp: vnode_ok_def)
  have gone: "sfs_heap s1 w = Some sw \<Longrightarrow> sv_ino sw \<noteq> sv_ino sv" for w sw
    using s1(1) vtable_okD(6) [OF r(2) _ assms(2), of w sw] by (auto split: if_splits)
  have "not_loaded s1 (sv_ino sv) \<longrightarrow> sfi_type (decode_inode (sector s1 (sv_ino sv))) \<in> {1, 2}" using disk assms(10) by simp
  from loadvnode_spec [OF sfs_ready_drop [OF assms(1) s1(1-4)] vok this]
  obtain w s2 sw where l: "sfs_loadvnode (sv_ino sv) 0 s1 = Some (Inr (Some w), s2)" "sfs_heap s2 w = Some sw"
    "case sfs_heap s1 w of Some t \<Rightarrow> sw = t\<lparr>vn_refcount := vn_refcount t + 1\<rparr>
     | None \<Rightarrow> not_loaded s1 (sv_ino sv) \<and> vn_refcount sw = 1 \<and>
         sv_i sw = decode_inode (sector s1 (sv_ino sv))" "sv_ino sw = sv_ino sv" by blast
  have "sv_i sw = sv_i sv"
  proof (cases "sfs_heap s1 w")
    case None
    with l(3) disk show ?thesis by simp
  next
    case (Some t)
    with l(3,4) gone [OF Some] show ?thesis by simp
  qed
  with dec s1(1,6) l(1,2) show ?thesis by (intro exI [of _ s1] exI [of _ w] exI [of _ s2] exI [of _ sw]) simp
qed

text \<open>C11: dropping the last reference to a file without names returns its blocks, its indirect block and its
  inode to the free map, and nothing else, and takes the vnode out of memory and out of the table.
  The other vnodes and the sectors of other files are as before, and the locks are given back.\<close>

theorem vnode_decref_frees:
  assumes "sfs_ready s" and "sfs_heap s v = Some sv" and "vn_refcount sv = 1" "vn_opencount sv = 0"
    and "SvLock v \<notin> sfs_held s" and "inode_ok s (sv_i sv)" "inode_wf (sv_i sv)" "inos_outside s (sv_i sv)"
    and "sfi_linkcount (sv_i sv) = 0"
  shows "\<exists>s'. vnode_decref v s = Some s' \<and> sfs_heap s' = (sfs_heap s)(v := None) \<and> sfs_ready s' \<and>
    sfs_held s' = sfs_held s \<and> used s' = used s - blocks_of s (sv_i sv) - {sv_ino sv} \<and>
    (\<forall>c. c \<noteq> 0 \<longrightarrow> c \<noteq> sv_ino sv \<longrightarrow> c \<notin> blocks_of s (sv_i sv) \<longrightarrow> sector s' c = sector s c)"
proof -
  note r = sfs_readyD [OF assms(1)]
  from sfs_reclaim_last [OF r(1,2) assms(2-4,6-8,5) r(5,6)] assms(9) obtain s' where
    rec: "sfs_reclaim v s = Some (Inr (), s')" and s': "sfs_heap s' = (sfs_heap s)(v := None)" "vtable_ok s'" "fs_quiet s'"
      "sfs_held s' = sfs_held s" "used s' = used s - blocks_of s (sv_i sv) - {sv_ino sv}"
      "\<forall>c. c \<noteq> 0 \<longrightarrow> c \<noteq> sv_ino sv \<longrightarrow> c \<notin> blocks_of s (sv_i sv) \<longrightarrow> sector s' c = sector s c" by auto
  have "vnode_decref v s = Some s'" by (rule vnode_decref_last [OF assms(2-4) r(6) rec])
  with s' sfs_ready_drop [OF assms(1) s'(1-4)] show ?thesis by blast
qed

text \<open>One loaded file with inode 1 and data block 2; \<open>n\<close> is its link count.\<close>

definition demo_table :: "nat \<Rightarrow> sfs_fs" where
  "demo_table n = demo_fs\<lparr>
     sfs_device := \<lparr>d_blocks = 8, sectors = (\<lambda>b. if b = 1 then encode_inode (demo_inode 2) else replicate 512 0), lh_status = []\<rparr>,
     sfs_heap := [0 \<mapsto> demo_vnode\<lparr>sv_i := (demo_inode 2)\<lparr>sfi_linkcount := n\<rparr>, sv_dirty := True\<rparr>]\<rparr>"

lemma demo_inode_wf: "inode_wf (demo_inode 2)"
  by (simp add: inode_wf_def) (simp add: demo_inode_def)

lemma demo_table_facts:
  "sfs_heap (demo_table n) 0 = Some (demo_vnode\<lparr>sv_i := (demo_inode 2)\<lparr>sfi_linkcount := n\<rparr>, sv_dirty := True\<rparr>)"
  "used (demo_table n) = used demo_fs" "nblocks (demo_table n) = 8" "sfs_held (demo_table n) = {}"
  "sector (demo_table n) 1 = encode_inode (demo_inode 2)"
  by (simp_all add: demo_table_def demo_fs_def)

lemma demo_table_quiet: "fs_quiet (demo_table n)"
  using demo_quiet demo_inode_wf by (auto simp: fs_quiet_def fs_wf_def disk_wf_def demo_table_def demo_fs_def)

lemma demo_table_ready: "sfs_ready (demo_table n)"
proof -
  have "unique_inos (sfs_heap (demo_table n))"
    by (rule unique_inosI) (simp add: demo_table_def split: if_splits)
  moreover have "vnode_ok (demo_table n) sv" if "sfs_heap (demo_table n) v = Some sv" for v sv
    using that demo_used [of 1] demo_table_facts(2,3) [of n]
    by (auto simp: demo_table_def vnode_ok_def demo_vnode_def split: if_splits)
  moreover have "array_inv (sfs_vnodes (demo_table n))" "vtable (demo_table n) = [0]" "a_num (sfs_vnodes (demo_table n)) = 1" "sfs_fresh (demo_table n) = 1"
    by (simp_all add: demo_table_def demo_fs_def array_inv_def array_list_def)
  moreover have "dom (sfs_heap (demo_table n)) = {0}" by (auto simp: demo_table_def split: if_splits)
  ultimately have "vtable_ok (demo_table n)" unfolding vtable_ok_def by auto
  moreover have "vn_refcount sv = 1" if "sfs_heap (demo_table n) v = Some sv" for v sv
    using that by (auto simp: demo_table_def demo_vnode_def split: if_splits)
  ultimately show ?thesis using demo_table_quiet demo_table_facts(4) \<open>a_num (sfs_vnodes (demo_table n)) = 1\<close>
    unfolding sfs_ready_def by auto
qed

lemma demo_table_fblock: "fblock s ((demo_inode 2)\<lparr>sfi_linkcount := n\<rparr>) m = (if m = 0 then 2 else 0)"
  using demo_fblock [of s 2 m] by (simp add: fblock_def)

lemma demo_table_file:
  "inode_ok (demo_table n) ((demo_inode 2)\<lparr>sfi_linkcount := n\<rparr>)" "inos_outside (demo_table n) ((demo_inode 2)\<lparr>sfi_linkcount := n\<rparr>)"
  "blocks_of (demo_table n) ((demo_inode 2)\<lparr>sfi_linkcount := n\<rparr>) = {2}"
  "n < 2 ^ 16 \<Longrightarrow> inode_wf ((demo_inode 2)\<lparr>sfi_linkcount := n\<rparr>)"
proof -
  show "inode_ok (demo_table n) ((demo_inode 2)\<lparr>sfi_linkcount := n\<rparr>)"
    using demo_used [of 2] demo_table_facts(2,3) [of n] by (auto simp: inode_ok_def demo_table_fblock)
  show bl: "blocks_of (demo_table n) ((demo_inode 2)\<lparr>sfi_linkcount := n\<rparr>) = {2}"
    by (auto simp: blocks_of_def demo_table_fblock)
  show "inos_outside (demo_table n) ((demo_inode 2)\<lparr>sfi_linkcount := n\<rparr>)"
    unfolding inos_outside_def bl by (auto simp: demo_table_def demo_vnode_def split: if_splits)
  show "n < 2 ^ 16 \<Longrightarrow> inode_wf ((demo_inode 2)\<lparr>sfi_linkcount := n\<rparr>)"
    using demo_inode_wf by (simp add: inode_wf_def)
qed

lemma demo_table_vnode:
  "vn_refcount (demo_vnode\<lparr>sv_i := i, sv_dirty := True\<rparr>) = 1" "vn_opencount (demo_vnode\<lparr>sv_i := i, sv_dirty := True\<rparr>) = 0"
  "sv_ino (demo_vnode\<lparr>sv_i := i, sv_dirty := True\<rparr>) = 1" "sfi_type (demo_inode 2) = 1"
  by (simp_all add: demo_vnode_def demo_inode_def)

theorem sfs_loadvnode_correct_witness:
  "\<exists>v s' sv'. sfs_loadvnode 1 0 (demo_table 1) = Some (Inr (Some v), s') \<and> sfs_heap s' v = Some sv' \<and> sv_ino sv' = 1 \<and> vtable_ok s'"
  using sfs_loadvnode_correct [OF demo_table_ready, of 1 1] demo_table_facts [of 1] demo_used [of 1]
    decode_inode_encode [OF demo_inode_wf] demo_table_vnode(4) by auto

theorem vnode_decref_persistent_witness:
  "\<exists>s1 w s2 sw. vnode_decref 0 (demo_table 1) = Some s1 \<and> sfs_heap s1 0 = None \<and>
     sfs_loadvnode 1 0 s1 = Some (Inr (Some w), s2) \<and> sfs_heap s2 w = Some sw \<and> sv_i sw = (demo_inode 2)\<lparr>sfi_linkcount := 1\<rparr>"
  using vnode_decref_persistent [OF demo_table_ready demo_table_facts(1), of 1] demo_table_facts(4) [of 1]
    demo_table_file [of 1] by (auto simp: demo_table_vnode)

theorem vnode_decref_frees_witness:
  "\<exists>s'. vnode_decref 0 (demo_table 0) = Some s' \<and> sfs_heap s' 0 = None \<and> used s' = used demo_fs - {2} - {1}"
  using vnode_decref_frees [OF demo_table_ready demo_table_facts(1), of 0] demo_table_facts(2,4) [of 0]
    demo_table_file [of 0] by (auto simp: demo_table_vnode)

end
