(* ===== verification/K_Sfs_Ops.thy ===== *)
theory K_Sfs_Ops
  imports K_Sfs_Table
begin

text \<open>
  The vnode operations of \<^verbatim>\<open>kern/fs/sfs/sfs_vnode.c\<close> and the rest of \<^verbatim>\<open>kern/fs/vfs/vnode.c\<close>. Names
  are C strings without their terminating zero. A vnode that an operation hands back is its address.
\<close>

section \<open>Looking up and creating objects\<close>

text \<open>The callers of \<^verbatim>\<open>sfs_loadvnode\<close> use the vnode it hands back whenever it returns 0; when it has not
  set one (the result \<open>Inr None\<close>) the pointer is uninitialised.\<close>

definition sfs_lookonce :: "nat \<Rightarrow> byte list \<Rightarrow> sfs_fs \<Rightarrow> ((nat \<times> int) res \<times> sfs_fs) option" where
  "sfs_lookonce v name s = do {
     kassert (SvLock v \<in> sfs_held s);
     (r, emptyslot, s) \<leftarrow> sfs_dir_findname v name 0 s;
     case r of
       Inl e \<Rightarrow> Some (Inl e, s)
     | Inr (ino, slot) \<Rightarrow> do {
         (r, s) \<leftarrow> sfs_loadvnode ino SFS_TYPE_INVAL s;
         case r of
           Inl e \<Rightarrow> Some (Inl e, s)
         | Inr None \<Rightarrow> None
         | Inr (Some w) \<Rightarrow> do {
             sv \<leftarrow> sv_get w s;
             kassert (sfi_linkcount (sv_i sv) \<noteq> 0);
             Some (Inr (w, slot), s)
           }
       }
   }"

definition sfs_makeobj :: "nat \<Rightarrow> sfs_fs \<Rightarrow> (nat option res \<times> sfs_fs) option" where
  "sfs_makeobj type s = do {
     (r, s) \<leftarrow> sfs_balloc s;
     case r of
       Inl e \<Rightarrow> Some (Inl e, s)
     | Inr ino \<Rightarrow> sfs_loadvnode ino type s
   }"

section \<open>Simple vnode operations\<close>

abbreviation (input) O_RDONLY :: int where "O_RDONLY \<equiv> 0"
abbreviation (input) O_WRONLY :: int where "O_WRONLY \<equiv> 1"
abbreviation (input) O_RDWR :: int where "O_RDWR \<equiv> 2"
abbreviation (input) O_CREAT :: int where "O_CREAT \<equiv> 4"
abbreviation (input) O_EXCL :: int where "O_EXCL \<equiv> 8"
abbreviation (input) O_TRUNC :: int where "O_TRUNC \<equiv> 16"
abbreviation (input) O_APPEND :: int where "O_APPEND \<equiv> 32"
abbreviation (input) O_ACCMODE :: int where "O_ACCMODE \<equiv> 3"

definition sfs_open :: "nat \<Rightarrow> int \<Rightarrow> unit res" where
  "sfs_open v openflags = (if openflags AND O_APPEND \<noteq> 0 then Inl EUNIMP else Inr ())"

definition sfs_opendir :: "nat \<Rightarrow> int \<Rightarrow> unit res" where
  "sfs_opendir v openflags =
     (if openflags AND O_ACCMODE \<noteq> O_RDONLY then Inl EISDIR
      else if openflags AND O_APPEND \<noteq> 0 then Inl EISDIR
      else Inr ())"

definition sfs_fsync :: "nat \<Rightarrow> sfs_fs \<Rightarrow> (unit res \<times> sfs_fs) option" where
  "sfs_fsync v s = do {
     s \<leftarrow> sv_lock v s;
     (r, s) \<leftarrow> sfs_sync_inode v s;
     s \<leftarrow> sv_unlock v s;
     Some (r, s)
   }"

definition sfs_close :: "nat \<Rightarrow> sfs_fs \<Rightarrow> (unit res \<times> sfs_fs) option" where
  "sfs_close v s = do { s \<leftarrow> vnode_check False v s; sfs_fsync v s }"

definition vnode_decopen :: "nat \<Rightarrow> sfs_fs \<Rightarrow> sfs_fs option" where
  "vnode_decopen v s = do {
     vn \<leftarrow> sv_get v s;
     s \<leftarrow> lock_acquire (CountLock v) s;
     kassert (vn_opencount vn > 0);
     let opencount = vn_opencount vn - 1;
     s \<leftarrow> lock_release (CountLock v) (sv_put v (vn\<lparr>vn_opencount := opencount\<rparr>) s);
     if opencount > 0 then Some s
     else do {
       s \<leftarrow> vnode_check False v s;
       (r, s) \<leftarrow> sfs_close v s;
       Some s
     }
   }"

text \<open>The loop of \<^verbatim>\<open>sfs_getdirentry\<close> over the slots, up to the first entry in use. \<open>None\<close> inside the result
  is the return at the end of the directory.\<close>

function getdirentry_loop :: "nat \<Rightarrow> int \<Rightarrow> sfs_fs \<Rightarrow> ((int \<times> sfs_dir) option res \<times> sfs_fs) option" where
  "getdirentry_loop v slot s = do {
     nentries \<leftarrow> sfs_dir_nentries v s;
     if slot \<ge> nentries then Some (Inr None, s)
     else do {
       (r, s) \<leftarrow> sfs_readdir v slot s;
       case r of
         Inl e \<Rightarrow> Some (Inl e, s)
       | Inr dir \<Rightarrow>
           if sfd_ino dir \<noteq> SFS_NOINO then Some (Inr (Some (slot, dir)), s)
           else if slot < INT_MAX then getdirentry_loop v (slot + 1) s
           else None
     }
   }"
  by pat_completeness auto
termination
  by (relation "measure (\<lambda>(v, slot, s). nat (INT_MAX - slot))") auto

declare getdirentry_loop.simps [simp del]

definition sfs_getdirentry :: "nat \<Rightarrow> uio \<Rightarrow> sfs_fs \<Rightarrow> (unit res \<times> uio \<times> sfs_fs) option" where
  "sfs_getdirentry v u s = do {
     let slot = uio_offset u;
     s \<leftarrow> sv_lock v s;
     sv \<leftarrow> sv_get v s;
     if sfi_type (sv_i sv) \<noteq> SFS_TYPE_DIR then do {
       s \<leftarrow> sv_unlock v s;
       Some (Inl ENOTDIR, u, s)
     }
     else do {
       (r, s) \<leftarrow> getdirentry_loop v slot s;
       case r of
         Inl e \<Rightarrow> do { s \<leftarrow> sv_unlock v s; Some (Inl e, u, s) }
       | Inr None \<Rightarrow> do { s \<leftarrow> sv_unlock v s; Some (Inr (), u, s) }
       | Inr (Some (slot, dir)) \<Rightarrow> do {
           kassert (0 \<in> set (sfd_name dir));
           let name = cstr (sfd_name dir);
           s \<leftarrow> sv_unlock v s;
           kassert (uio_dir u = UIO_READ);
           (r, buf, u) \<leftarrow> uiomove name 0 (length name) u;
           case r of
             Inl e \<Rightarrow> Some (Inl e, u, s)
           | Inr _ \<Rightarrow> do {
               next' \<leftarrow> cint (slot + 1);
               Some (Inr (), u\<lparr>uio_offset := next'\<rparr>, s)
             }
         }
     }
   }"

definition sfs_ioctl :: "nat \<Rightarrow> unit res" where
  "sfs_ioctl v = Inl EINVAL"

abbreviation (input) S_IFREG :: nat where "S_IFREG \<equiv> 4096"
abbreviation (input) S_IFDIR :: nat where "S_IFDIR \<equiv> 8192"

definition sfs_gettype :: "nat \<Rightarrow> sfs_fs \<Rightarrow> nat option" where
  "sfs_gettype v s = do {
     sv \<leftarrow> sv_get v s;
     if sfi_type (sv_i sv) = SFS_TYPE_FILE then Some S_IFREG
     else if sfi_type (sv_i sv) = SFS_TYPE_DIR then Some S_IFDIR
     else None
   }"

record stat =
  st_mode :: nat
  st_nlink :: nat
  st_size :: int
  st_blocks :: nat

definition sfs_stat :: "nat \<Rightarrow> sfs_fs \<Rightarrow> (stat \<times> sfs_fs) option" where
  "sfs_stat v s = do {
     s \<leftarrow> vnode_check False v s;
     mode \<leftarrow> sfs_gettype v s;
     s \<leftarrow> sv_lock v s;
     sv \<leftarrow> sv_get v s;
     let st = \<lparr>st_mode = mode, st_nlink = 0, st_size = off32 (int (sfi_size (sv_i sv))), st_blocks = 0\<rparr>;
     s \<leftarrow> sv_unlock v s;
     Some (st, s)
   }"

definition sfs_tryseek :: "nat \<Rightarrow> int \<Rightarrow> unit res" where
  "sfs_tryseek v pos = (if pos < 0 then Inl EINVAL else Inr ())"

definition sfs_mmap :: "nat \<Rightarrow> unit res" where
  "sfs_mmap v = Inl EUNIMP"

definition sfs_namefile :: "nat \<Rightarrow> sfs_fs \<Rightarrow> unit res option" where
  "sfs_namefile v s = do {
     sv \<leftarrow> sv_get v s;
     kassert (sv_ino sv = SFS_ROOT_LOCATION);
     Some (Inr ())
   }"

section \<open>Operations on directories\<close>

text \<open>\<^verbatim>\<open>sfi_linkcount++\<close> and \<^verbatim>\<open>sfi_linkcount--\<close> with the mark that the inode is dirty; the field has 16 bits.\<close>

definition add_links :: "int \<Rightarrow> nat \<Rightarrow> sfs_fs \<Rightarrow> sfs_fs option" where
  "add_links d v s = do {
     sv \<leftarrow> sv_get v s;
     let n = nat ((int (sfi_linkcount (sv_i sv)) + d) mod 65536);
     Some (sv_put v (sv\<lparr>sv_i := (sv_i sv)\<lparr>sfi_linkcount := n\<rparr>, sv_dirty := True\<rparr>) s)
   }"

text \<open>\<^verbatim>\<open>lock_release(sv->sv_lock); return e;\<close>\<close>

definition fail_unlock :: "nat \<Rightarrow> errno \<Rightarrow> sfs_fs \<Rightarrow> ('a res \<times> sfs_fs) option" where
  "fail_unlock v e s = do { s \<leftarrow> sv_unlock v s; Some (Inl e, s) }"

definition sfs_creat :: "nat \<Rightarrow> byte list \<Rightarrow> bool \<Rightarrow> sfs_fs \<Rightarrow> (nat res \<times> sfs_fs) option" where
  "sfs_creat v name excl s = do {
     s \<leftarrow> sv_lock v s;
     (r, emptyslot, s) \<leftarrow> sfs_dir_findname v name 0 s;
     case r of
       Inr (ino, slot) \<Rightarrow>
         if excl then fail_unlock v EEXIST s
         else do {
           (r, s) \<leftarrow> sfs_loadvnode ino SFS_TYPE_INVAL s;
           case r of
             Inl e \<Rightarrow> fail_unlock v e s
           | Inr None \<Rightarrow> None
           | Inr (Some newguy) \<Rightarrow> do { s \<leftarrow> sv_unlock v s; Some (Inr newguy, s) }
         }
     | Inl e \<Rightarrow>
         if e \<noteq> ENOENT then fail_unlock v e s
         else do {
           (r, s) \<leftarrow> sfs_makeobj SFS_TYPE_FILE s;
           case r of
             Inl e \<Rightarrow> fail_unlock v e s
           | Inr None \<Rightarrow> None
           | Inr (Some newguy) \<Rightarrow> do {
               sv \<leftarrow> sv_get newguy s;
               (r, s) \<leftarrow> sfs_dir_link v name (sv_ino sv) s;
               case r of
                 Inl e \<Rightarrow> do { s \<leftarrow> vnode_decref newguy s; fail_unlock v e s }
               | Inr _ \<Rightarrow> do {
                   s \<leftarrow> add_links 1 newguy s;
                   s \<leftarrow> sv_unlock v s;
                   Some (Inr newguy, s)
                 }
             }
         }
   }"

definition sfs_link :: "nat \<Rightarrow> byte list \<Rightarrow> nat \<Rightarrow> sfs_fs \<Rightarrow> (unit res \<times> sfs_fs) option" where
  "sfs_link dir name file s = do {
     f \<leftarrow> sv_get file s;
     s \<leftarrow> sv_lock dir s;
     (r, s) \<leftarrow> sfs_dir_link dir name (sv_ino f) s;
     s \<leftarrow> sv_unlock dir s;
     case r of
       Inl e \<Rightarrow> Some (Inl e, s)
     | Inr _ \<Rightarrow> do {
         s \<leftarrow> sv_lock file s;
         s \<leftarrow> add_links 1 file s;
         s \<leftarrow> sv_unlock file s;
         Some (Inr (), s)
       }
   }"

definition sfs_remove :: "nat \<Rightarrow> byte list \<Rightarrow> sfs_fs \<Rightarrow> (unit res \<times> sfs_fs) option" where
  "sfs_remove dir name s = do {
     s \<leftarrow> sv_lock dir s;
     (r, s) \<leftarrow> sfs_lookonce dir name s;
     case r of
       Inl e \<Rightarrow> fail_unlock dir e s
     | Inr (victim, slot) \<Rightarrow> do {
         vv \<leftarrow> sv_get victim s;
         if sfi_type (sv_i vv) = SFS_TYPE_DIR then do {
           s \<leftarrow> sv_unlock dir s;
           s \<leftarrow> vnode_decref victim s;
           Some (Inl EISDIR, s)
         }
         else do {
           (r, s) \<leftarrow> sfs_dir_unlink dir slot s;
           s \<leftarrow> (case r of
              Inl e \<Rightarrow> Some s
            | Inr _ \<Rightarrow> do {
                s \<leftarrow> sv_lock victim s;
                vv \<leftarrow> sv_get victim s;
                kassert (sfi_linkcount (sv_i vv) > 0);
                s \<leftarrow> add_links (- 1) victim s;
                sv_unlock victim s
              });
           s \<leftarrow> vnode_decref victim s;
           s \<leftarrow> sv_unlock dir s;
           Some (r, s)
         }
       }
   }"

text \<open>The end of \<^verbatim>\<open>sfs_rename\<close>, on the way out of an error too.\<close>

definition rename_done :: "nat \<Rightarrow> nat \<Rightarrow> unit res \<Rightarrow> sfs_fs \<Rightarrow> (unit res \<times> sfs_fs) option" where
  "rename_done d g1 r s = do {
     s \<leftarrow> vnode_decref g1 s;
     s \<leftarrow> sv_unlock g1 s;
     s \<leftarrow> sv_unlock d s;
     Some (r, s)
   }"

text \<open>Linking the new name and unlinking the old one, with both locks held.\<close>

definition rename_move :: "nat \<Rightarrow> nat \<Rightarrow> int \<Rightarrow> byte list \<Rightarrow> nat \<Rightarrow> sfs_fs \<Rightarrow> (unit res \<times> sfs_fs) option" where
  "rename_move d g1 slot1 n2 ino s = do {
     (r, s) \<leftarrow> sfs_dir_link d n2 ino s;
     case r of
       Inl e \<Rightarrow> rename_done d g1 (Inl e) s
     | Inr slot2 \<Rightarrow> do {
         s \<leftarrow> add_links 1 g1 s;
         (r, s) \<leftarrow> sfs_dir_unlink d slot1 s;
         case r of
           Inl e \<Rightarrow> do {
             (r2, s) \<leftarrow> sfs_dir_unlink d slot2 s;
             kassert (r2 = Inr ());
             g \<leftarrow> sv_get g1 s;
             let n = nat ((int (sfi_linkcount (sv_i g)) - 1) mod 65536);
             rename_done d g1 (Inl e) (sv_put g1 (g\<lparr>sv_i := (sv_i g)\<lparr>sfi_linkcount := n\<rparr>\<rparr>) s)
           }
         | Inr _ \<Rightarrow> do {
             g \<leftarrow> sv_get g1 s;
             kassert (sfi_linkcount (sv_i g) > 0);
             s \<leftarrow> add_links (- 1) g1 s;
             rename_done d g1 (Inr ()) s
           }
       }
   }"

definition sfs_rename :: "nat \<Rightarrow> byte list \<Rightarrow> nat \<Rightarrow> byte list \<Rightarrow> sfs_fs \<Rightarrow> (unit res \<times> sfs_fs) option" where
  "sfs_rename d1 n1 d2 n2 s = do {
     sv \<leftarrow> sv_get d1 s;
     kassert (d1 = d2);
     kassert (sv_ino sv = SFS_ROOT_LOCATION);
     s \<leftarrow> sv_lock d1 s;
     (r, s) \<leftarrow> sfs_lookonce d1 n1 s;
     case r of
       Inl e \<Rightarrow> fail_unlock d1 e s
     | Inr (g1, slot1) \<Rightarrow> do {
         s \<leftarrow> sv_lock g1 s;
         g \<leftarrow> sv_get g1 s;
         kassert (sfi_type (sv_i g) = SFS_TYPE_FILE);
         rename_move d1 g1 slot1 n2 (sv_ino g) s
       }
   }"

text \<open>The error exits of \<^verbatim>\<open>sfs_mkdir\<close> after the new directory has been locked.\<close>

definition mkdir_fail :: "nat \<Rightarrow> nat \<Rightarrow> errno \<Rightarrow> sfs_fs \<Rightarrow> (unit res \<times> sfs_fs) option" where
  "mkdir_fail v newguy e s = do {
     s \<leftarrow> vnode_decref newguy s;
     s \<leftarrow> sv_unlock newguy s;
     fail_unlock v e s
   }"

definition dot :: "byte list" where "dot = [46]"
definition dotdot :: "byte list" where "dotdot = [46, 46]"

definition sfs_mkdir :: "nat \<Rightarrow> byte list \<Rightarrow> sfs_fs \<Rightarrow> (unit res \<times> sfs_fs) option" where
  "sfs_mkdir v name s = do {
     s \<leftarrow> sv_lock v s;
     sv \<leftarrow> sv_get v s;
     if sfi_type (sv_i sv) \<noteq> SFS_TYPE_DIR then fail_unlock v ENOTDIR s
     else do {
       (r, emptyslot, s) \<leftarrow> sfs_dir_findname v name 0 s;
       case r of
         Inr _ \<Rightarrow> fail_unlock v EEXIST s
       | Inl _ \<Rightarrow> do {
           (r, s) \<leftarrow> sfs_makeobj SFS_TYPE_DIR s;
           case r of
             Inl e \<Rightarrow> fail_unlock v e s
           | Inr None \<Rightarrow> None
           | Inr (Some newguy) \<Rightarrow> do {
               s \<leftarrow> sv_lock newguy s;
               nv \<leftarrow> sv_get newguy s;
               (r, s) \<leftarrow> sfs_dir_link newguy dot (sv_ino nv) s;
               case r of
                 Inl e \<Rightarrow> mkdir_fail v newguy e s
               | Inr _ \<Rightarrow> do {
                   sv \<leftarrow> sv_get v s;
                   (r, s) \<leftarrow> sfs_dir_link newguy dotdot (sv_ino sv) s;
                   case r of
                     Inl e \<Rightarrow> mkdir_fail v newguy e s
                   | Inr _ \<Rightarrow> do {
                       (r, s) \<leftarrow> sfs_dir_link v name (sv_ino nv) s;
                       case r of
                         Inl e \<Rightarrow> mkdir_fail v newguy e s
                       | Inr _ \<Rightarrow> do {
                           s \<leftarrow> add_links 1 newguy s;
                           s \<leftarrow> add_links 1 v s;
                           s \<leftarrow> sv_unlock newguy s;
                           s \<leftarrow> sv_unlock v s;
                           s \<leftarrow> vnode_decref newguy s;
                           Some (Inr (), s)
                         }
                     }
                 }
             }
         }
     }
   }"

text \<open>The loop of \<^verbatim>\<open>sfs_rmdir\<close> that counts the entries in use from slot 2 on.\<close>

fun rmdir_count :: "nat \<Rightarrow> int \<Rightarrow> nat \<Rightarrow> int \<Rightarrow> sfs_fs \<Rightarrow> (int res \<times> sfs_fs) option" where
  "rmdir_count victim i 0 victim_size s = Some (Inr victim_size, s)"
| "rmdir_count victim i (Suc k) victim_size s = do {
     (r, s) \<leftarrow> sfs_readdir victim i s;
     case r of
       Inl e \<Rightarrow> Some (Inl e, s)
     | Inr sfd \<Rightarrow>
         rmdir_count victim (i + 1) k (if sfd_ino sfd \<noteq> SFS_NOINO then victim_size + 1 else victim_size) s
   }"

text \<open>The exits of \<^verbatim>\<open>sfs_rmdir\<close> after the victim has been locked.\<close>

definition rmdir_exit :: "nat \<Rightarrow> nat \<Rightarrow> unit res \<Rightarrow> sfs_fs \<Rightarrow> (unit res \<times> sfs_fs) option" where
  "rmdir_exit v victim r s = do {
     s \<leftarrow> sv_unlock victim s;
     s \<leftarrow> sv_unlock v s;
     s \<leftarrow> vnode_decref victim s;
     Some (r, s)
   }"

text \<open>The three \<^verbatim>\<open>sfs_dir_unlink\<close> calls, once the directory has been found to be empty.\<close>

definition rmdir_unlink :: "nat \<Rightarrow> nat \<Rightarrow> int \<Rightarrow> sfs_fs \<Rightarrow> (unit res \<times> sfs_fs) option" where
  "rmdir_unlink v victim slot s = do {
     (r, s) \<leftarrow> sfs_dir_unlink victim 0 s;
     case r of
       Inl e \<Rightarrow> rmdir_exit v victim (Inl e) s
     | Inr _ \<Rightarrow> do {
         (r, s) \<leftarrow> sfs_dir_unlink victim 1 s;
         case r of
           Inl e \<Rightarrow> rmdir_exit v victim (Inl e) s
         | Inr _ \<Rightarrow> do {
             s \<leftarrow> add_links (- 1) v s;
             (r, s) \<leftarrow> sfs_dir_unlink v slot s;
             rmdir_exit v victim r s
           }
       }
   }"

definition sfs_rmdir :: "nat \<Rightarrow> byte list \<Rightarrow> sfs_fs \<Rightarrow> (unit res \<times> sfs_fs) option" where
  "sfs_rmdir v name s =
     (if name = dot \<or> name = dotdot then Some (Inl EINVAL, s)
      else do {
        s \<leftarrow> sv_lock v s;
        (r, s) \<leftarrow> sfs_lookonce v name s;
        case r of
          Inl e \<Rightarrow> fail_unlock v e s
        | Inr (victim, slot) \<Rightarrow> do {
            vv \<leftarrow> sv_get victim s;
            if sfi_type (sv_i vv) \<noteq> SFS_TYPE_DIR then fail_unlock v ENOTDIR s
            else do {
              s \<leftarrow> sv_lock victim s;
              nentries \<leftarrow> sfs_dir_nentries victim s;
              (r, s) \<leftarrow> rmdir_count victim 2 (nat (nentries - 2)) 0 s;
              case r of
                Inl e \<Rightarrow> rmdir_exit v victim (Inl e) s
              | Inr victim_size \<Rightarrow>
                  if victim_size > 0 then rmdir_exit v victim (Inl ENOTEMPTY) s
                  else rmdir_unlink v victim slot s
            }
          }
      })"

section \<open>Paths\<close>

definition sfs_lookparent :: "nat \<Rightarrow> byte list \<Rightarrow> nat \<Rightarrow> sfs_fs \<Rightarrow> ((nat \<times> byte list) res \<times> sfs_fs) option" where
  "sfs_lookparent v path buflen s = do {
     s \<leftarrow> vnode_incref v s;
     sv \<leftarrow> sv_get v s;
     if sfi_type (sv_i sv) \<noteq> SFS_TYPE_DIR then do {
       s \<leftarrow> vnode_decref v s;
       Some (Inl ENOTDIR, s)
     }
     else if length path + 1 > buflen then do {
       s \<leftarrow> vnode_decref v s;
       Some (Inl ENAMETOOLONG, s)
     }
     else Some (Inr (v, path), s)
   }"

definition sfs_lookup :: "nat \<Rightarrow> byte list \<Rightarrow> sfs_fs \<Rightarrow> (nat res \<times> sfs_fs) option" where
  "sfs_lookup v path s = do {
     sv \<leftarrow> sv_get v s;
     if sfi_type (sv_i sv) \<noteq> SFS_TYPE_DIR then Some (Inl ENOTDIR, s)
     else do {
       s \<leftarrow> sv_lock v s;
       (r, s) \<leftarrow> sfs_lookonce v path s;
       s \<leftarrow> sv_unlock v s;
       case r of
         Inl e \<Rightarrow> Some (Inl e, s)
       | Inr (final, slot) \<Rightarrow> Some (Inr final, s)
     }
   }"

definition sfs_getroot :: "sfs_fs \<Rightarrow> (nat \<times> sfs_fs) option" where
  "sfs_getroot s = do {
     (r, s) \<leftarrow> sfs_loadvnode SFS_ROOT_LOCATION SFS_TYPE_INVAL s;
     case r of
       Inr (Some v) \<Rightarrow> Some (v, s)
     | _ \<Rightarrow> None
   }"

end
