(* ===== verification/K_Sfs_Namei.thy ===== *)
theory K_Sfs_Namei
  imports K_Sfs_Ops
begin

text \<open>
  The operations on names: what \<^verbatim>\<open>sfs_lookup\<close> finds, and what becomes of the vnode of a file that
  \<^verbatim>\<open>sfs_rename\<close> has loaded itself. The file system is the one of \<^verbatim>\<open>K_Sfs_Table\<close> between two
  operations; a directory is the finite map of \<^verbatim>\<open>K_Sfs_Dir\<close>.
\<close>

section \<open>Directories while other vnodes come and go\<close>

lemma dir_state_transfer:
  assumes st: "dir_state v s" and h: "sfs_heap s' v \<noteq> None" "vinode s' v = vinode s v"
    and same: "sfs_device s' = sfs_device s" "sfs_freemap s' = sfs_freemap s" "super s' = super s" "sfs_mem s' = sfs_mem s"
    and locks: "SvLock v \<in> sfs_held s'" "BitLock \<notin> sfs_held s'"
  shows "dir_state v s'" and "dir_names v s' = dir_names v s" and "entries s' (vinode s' v) = entries s (vinode s v)"
proof -
  have fb: "fblock s' = fblock s" using same(1) by (auto simp: fun_eq_iff fblock_def)
  then have "fbyte s' = fbyte s" using same(1) by (auto simp: fun_eq_iff fbyte_def Let_def)
  then have "dir_entry s' = dir_entry s" by (intro ext) (simp add: dir_entry_def fbytes_def)
  then show en: "entries s' (vinode s' v) = entries s (vinode s v)" by (simp add: entries_def h(2))
  then show "dir_names v s' = dir_names v s" by (simp add: dir_names_def)
  have "inode_ok s' = inode_ok s" using fb same by (auto simp: fun_eq_iff inode_ok_def)
  then have "dir_ok s' = dir_ok s" by (auto simp: fun_eq_iff dir_ok_def)
  moreover have "fs_quiet s'" using st same locks by (simp add: dir_state_def fs_quiet_def fs_wf_def)
  ultimately show "dir_state v s'" using st h locks(1) en by (simp add: dir_state_def)
qed

text \<open>The inode with a number: the one in memory if there is one, and otherwise the one on the disk.\<close>

definition cur_inode :: "sfs_fs \<Rightarrow> nat \<Rightarrow> sfs_inode" where
  "cur_inode s ino =
     (case find (\<lambda>w. sv_ino (the (sfs_heap s w)) = ino) (vtable s) of
        None \<Rightarrow> decode_inode (sector s ino)
      | Some w \<Rightarrow> vinode s w)"

lemma cur_inode_loaded:
  assumes "vtable_ok s" and "sfs_heap s w = Some sw" "sv_ino sw = ino"
  shows "cur_inode s ino = sv_i sw"
proof -
  have w: "w \<in> set (vtable s)" using assms(2) vtable_okD(3) [OF assms(1)] by blast
  then obtain x where x: "find (\<lambda>w. sv_ino (the (sfs_heap s w)) = ino) (vtable s) = Some x"
    using assms(2,3) by (cases "find (\<lambda>w. sv_ino (the (sfs_heap s w)) = ino) (vtable s)") (auto simp: find_None_iff)
  then have "x \<in> set (vtable s)" "sv_ino (the (sfs_heap s x)) = ino" by (auto simp: find_Some_iff)
  moreover from this obtain sx where "sfs_heap s x = Some sx" using vtable_okD(3) [OF assms(1)] by blast
  ultimately have "x = w" using vtable_okD(6) [OF assms(1) _ assms(2), of x sx] assms(3) by simp
  with x assms(2) show ?thesis by (simp add: cur_inode_def vinode_def)
qed

lemma cur_inode_disk:
  assumes "vtable_ok s" and "not_loaded s ino"
  shows "cur_inode s ino = decode_inode (sector s ino)"
proof -
  have "sv_ino (the (sfs_heap s w)) \<noteq> ino" if w: "w \<in> set (vtable s)" for w
  proof -
    from w obtain sw where "sfs_heap s w = Some sw" using vtable_okD(3) [OF assms(1)] by blast
    with not_loadedD [OF assms(2)] show ?thesis by simp
  qed
  then have "find (\<lambda>w. sv_ino (the (sfs_heap s w)) = ino) (vtable s) = None" by (simp add: find_None_iff)
  then show ?thesis by (simp add: cur_inode_def)
qed

text \<open>Every name of the directory leads to an allocated inode that is a file or a directory with links.\<close>

definition names_ok :: "nat \<Rightarrow> sfs_fs \<Rightarrow> bool" where
  "names_ok v s \<longleftrightarrow> (\<forall>name ino. dir_names v s name = Some ino \<longrightarrow>
     ino < nblocks s \<and> ino \<in> used s \<and> ino \<noteq> 0 \<and> sfi_linkcount (cur_inode s ino) \<noteq> 0 \<and>
     sfi_type (cur_inode s ino) \<in> {SFS_TYPE_FILE, SFS_TYPE_DIR})"

lemma names_okD:
  assumes "names_ok v s" and "dir_names v s name = Some ino"
  shows "ino < nblocks s" "ino \<in> used s" "ino \<noteq> 0" "sfi_linkcount (cur_inode s ino) \<noteq> 0"
    "sfi_type (cur_inode s ino) \<in> {SFS_TYPE_FILE, SFS_TYPE_DIR}"
  using assms unfolding names_ok_def by blast+

text \<open>The vnode that a lookup hands back, and the state it leaves.\<close>

definition lookup_post :: "nat \<Rightarrow> nat \<Rightarrow> sfs_fs \<Rightarrow> sfs_fs \<Rightarrow> bool" where
  "lookup_post ino w s s' \<longleftrightarrow> (\<exists>sw. sfs_heap s' w = Some sw \<and> sv_ino sw = ino \<and> sv_i sw = cur_inode s ino \<and>
       (case sfs_heap s w of
          None \<Rightarrow> not_loaded s ino \<and> vn_refcount sw = 1
        | Some sv \<Rightarrow> sw = sv\<lparr>vn_refcount := vn_refcount sv + 1\<rparr>)) \<and>
     vtable_ok s' \<and> fs_quiet s' \<and> (\<forall>x. x \<noteq> w \<longrightarrow> sfs_heap s' x = sfs_heap s x) \<and>
     sfs_held s' = sfs_held s \<and> sfs_device s' = sfs_device s \<and> sfs_freemap s' = sfs_freemap s \<and> super s' = super s"

lemma loadvnode_post:
  assumes "sfs_ready s" and "ino < nblocks s" "ino \<in> used s" "ino \<noteq> 0"
    and "sfi_type (cur_inode s ino) \<in> {SFS_TYPE_FILE, SFS_TYPE_DIR}"
  obtains w s' where "sfs_loadvnode ino SFS_TYPE_INVAL s = Some (Inr (Some w), s')" "lookup_post ino w s s'"
proof -
  note r = sfs_readyD [OF assms(1)]
  have ty: "if (0::nat) = 0 then not_loaded s ino \<longrightarrow> sfi_type (decode_inode (sector s ino)) \<in> {1, 2}
      else (0::nat) \<in> {1, 2} \<and> sfi_type (decode_inode (sector s ino)) = 0 \<and> not_loaded s ino"
    using assms(5) cur_inode_disk [OF r(2)] by auto
  from assms(1-4) ty show thesis
  proof (cases rule: sfs_loadvnode_cases [where ino = ino and forcetype = 0])
    case (loaded v sv)
    then have "lookup_post ino v s (sv_put v (sv\<lparr>vn_refcount := vn_refcount sv + 1\<rparr>) s)"
      using r(1) cur_inode_loaded [OF r(2)] by (simp add: lookup_post_def)
    with loaded(4) that show thesis by blast
  next
    case (fresh a ops)
    let ?s = "sv_put (sfs_fresh s) (new_vnode s ino 0 ops) (s\<lparr>sfs_vnodes := a, sfs_fresh := sfs_fresh s + 1\<rparr>)"
    have nl: "not_loaded s ino" using fresh(1) by (simp add: not_loaded_def)
    have "fs_quiet ?s" using r(1) by (simp add: fs_quiet_def fs_wf_def)
    moreover have "sfs_heap s (sfs_fresh s) = None" using vtable_okD(7) [OF r(2)] .
    ultimately have "lookup_post ino (sfs_fresh s) s ?s"
      using fresh(4) nl cur_inode_disk [OF r(2) nl] by (simp add: lookup_post_def new_vnode_def)
    with fresh(2) that show thesis by blast
  qed
qed

section \<open>Looking up a name\<close>

lemma lookonce_spec:
  assumes ready: "sfs_ready s" and st: "dir_state v s" and nm: "names_ok v s"
  shows "(dir_names v s name = None \<and> sfs_lookonce v name s = Some (Inl ENOENT, s)) \<or>
    (\<exists>ino w n s'. dir_names v s name = Some ino \<and> n < length (entries s (vinode s v)) \<and>
       names name (entries s (vinode s v) ! n) \<and>
       sfs_lookonce v name s = Some (Inr (w, int n), s') \<and> lookup_post ino w s s')"
proof -
  from st have held: "SvLock v \<in> sfs_held s" by (simp add: dir_state_def)
  from dir_findname [OF st, of name 0] show ?thesis
  proof (elim disjE exE conjE)
    assume "dir_names v s name = None" "sfs_dir_findname v name 0 s =
      Some (Inl ENOENT, last_free (entries s (vinode s v)) (length (entries s (vinode s v))) 0, s)"
    with held show ?thesis by (simp add: sfs_lookonce_def)
  next
    fix n assume n: "n < length (entries s (vinode s v))" "names name (entries s (vinode s v) ! n)"
      and d: "dir_names v s name = Some (sfd_ino (entries s (vinode s v) ! n))"
      and f: "sfs_dir_findname v name 0 s = Some (Inr (sfd_ino (entries s (vinode s v) ! n), int n),
         last_free (entries s (vinode s v)) (length (entries s (vinode s v))) 0, s)"
    define ino where "ino = sfd_ino (entries s (vinode s v) ! n)"
    note nok = names_okD [OF nm d, folded ino_def]
    obtain w s' where l: "sfs_loadvnode ino 0 s = Some (Inr (Some w), s')" "lookup_post ino w s s'"
      by (rule loadvnode_post [OF ready nok(1-3,5)])
    from l(2) obtain sw where "sfs_heap s' w = Some sw" "sv_i sw = cur_inode s ino"
      by (auto simp: lookup_post_def)
    with f held l(1) nok(4) have "sfs_lookonce v name s = Some (Inr (w, int n), s')"
      by (simp add: sfs_lookonce_def sv_get_def flip: ino_def)
    with n d l(2) show ?thesis unfolding ino_def by blast
  qed
qed

lemma held_names [simp]:
  "entries (s\<lparr>sfs_held := h\<rparr>) = entries s" "dir_names v (s\<lparr>sfs_held := h\<rparr>) = dir_names v s"
  "cur_inode (s\<lparr>sfs_held := h\<rparr>) = cur_inode s" "not_loaded (s\<lparr>sfs_held := h\<rparr>) = not_loaded s"
proof -
  have "dir_entry (s\<lparr>sfs_held := h\<rparr>) = dir_entry s" by (intro ext) (simp add: dir_entry_def fbytes_def)
  then show en: "entries (s\<lparr>sfs_held := h\<rparr>) = entries s" by (intro ext) (simp add: entries_def)
  then show "dir_names v (s\<lparr>sfs_held := h\<rparr>) = dir_names v s" by (simp add: dir_names_def)
  show "cur_inode (s\<lparr>sfs_held := h\<rparr>) = cur_inode s"
    by (intro ext) (simp add: cur_inode_def split: option.split)
  show "not_loaded (s\<lparr>sfs_held := h\<rparr>) = not_loaded s" by (intro ext) (simp add: not_loaded_def)
qed

lemma sfs_ready_locked: "sfs_ready (sv_locked v s) = sfs_ready s"
  by (simp add: sfs_ready_def sv_locked_def fs_quiet_def fs_wf_def)

lemma names_ok_locked: "names_ok v (sv_locked v s) = names_ok v s"
  by (simp add: names_ok_def sv_locked_def)

lemma lookup_post_unlock:
  assumes "lookup_post ino w (sv_locked v s) s'" and "SvLock v \<notin> sfs_held s"
  shows "lookup_post ino w s (s'\<lparr>sfs_held := sfs_held s' - {SvLock v}\<rparr>)"
proof -
  have "fs_quiet (s'\<lparr>sfs_held := sfs_held s' - {SvLock v}\<rparr>)"
    using assms(1) by (intro fs_quiet_held) (auto simp: lookup_post_def fs_quiet_def)
  with assms show ?thesis
    by (cases "sfs_heap s w") (auto simp: lookup_post_def sv_locked_def)
qed

text \<open>C13: \<^verbatim>\<open>sfs_lookup\<close> in a directory gives \<^verbatim>\<open>ENOENT\<close> exactly for the names that are not there, and then changes
  nothing. For a name that is there it hands back the one vnode of the inode the name leads to: the
  vnode in memory with one more reference, or a new one with the inode from the disk. The lock of
  the directory is given back, and the volume is as before. Anything that is not a directory gives
  \<^verbatim>\<open>ENOTDIR\<close>.\<close>

theorem sfs_lookup_correct:
  assumes "sfs_ready s" and "sfs_heap s v = Some sv" and "SvLock v \<notin> sfs_held s"
    and "sfi_type (sv_i sv) = SFS_TYPE_DIR \<longrightarrow> dir_state v (sv_locked v s) \<and> names_ok v s"
  shows "sfs_lookup v path s = Some (Inl ENOTDIR, s) \<and> sfi_type (sv_i sv) \<noteq> SFS_TYPE_DIR \<or>
    sfi_type (sv_i sv) = SFS_TYPE_DIR \<and>
     (case dir_names v s path of
        None \<Rightarrow> sfs_lookup v path s = Some (Inl ENOENT, s)
      | Some ino \<Rightarrow> \<exists>w s'. sfs_lookup v path s = Some (Inr w, s') \<and> lookup_post ino w s s')"
proof (cases "sfi_type (sv_i sv) = SFS_TYPE_DIR")
  case False
  with assms(2) show ?thesis by (simp add: sfs_lookup_def sv_get_def)
next
  case dir: True
  let ?l = "sv_locked v s"
  have names: "dir_names v ?l = dir_names v s"
    by (simp add: sv_locked_def)
  have unl: "?l\<lparr>sfs_held := sfs_held ?l - {SvLock v}\<rparr> = s" using assms(3) by (simp add: sv_locked_def)
  note lock = sv_lock_free [OF assms(2,3)]
  have "sfs_ready ?l" "dir_state v ?l" "names_ok v ?l" using dir assms(1,4) by (simp_all add: sfs_ready_locked names_ok_locked)
  from lookonce_spec [OF this, of path, unfolded names] consider "dir_names v s path = None" "sfs_lookonce v path ?l = Some (Inl ENOENT, ?l)"
    | ino w n s' where "dir_names v s path = Some ino" "sfs_lookonce v path ?l = Some (Inr (w, int n), s')"
      "lookup_post ino w ?l s'"
    by auto
  then show ?thesis
  proof cases
    case 1
    with dir lock assms(2) unl sv_unlock_held [of ?l v] show ?thesis by (simp add: sfs_lookup_def sv_get_def)
  next
    case 2
    then obtain sv' where h: "sfs_heap s' v = Some sv'" "SvLock v \<in> sfs_held s'"
      using assms(2) by (cases "v = w") (auto simp: lookup_post_def)
    with 2 dir lock assms(2) lookup_post_unlock [OF 2(3) assms(3)] sv_unlock_held [OF h]
    show ?thesis by (simp add: sfs_lookup_def sv_get_def)
  qed
qed

section \<open>Renaming\<close>

text \<open>A locked directory in which an entry may be erased, whatever it holds.\<close>

definition dir_held :: "nat \<Rightarrow> sfs_fs \<Rightarrow> bool" where
  "dir_held v s \<longleftrightarrow> fs_quiet s \<and> sfs_heap s v \<noteq> None \<and> dir_ok s (vinode s v) \<and> SvLock v \<in> sfs_held s"

lemma dir_state_held: "dir_state v s \<Longrightarrow> dir_held v s"
  by (simp add: dir_state_def dir_held_def)

lemma dir_unlink_any:
  assumes "dir_held v s" and "n < length (entries s (vinode s v))"
  shows "\<exists>r s'. sfs_dir_unlink v (int n) s = Some (r, s') \<and> io_frame v s s' \<and> dir_held v s' \<and>
    length (entries s' (vinode s' v)) = length (entries s (vinode s v))"
proof -
  from assms(1) obtain sv where sv: "fs_quiet s" "sfs_heap s v = Some sv" "dir_ok s (sv_i sv)" "SvLock v \<in> sfs_held s"
    "vinode s v = sv_i sv" by (auto simp: dir_held_def vinode_def)
  from assms(2) sv(5) have n: "n < length (entries s (sv_i sv))" by simp
  then have n': "n \<le> sfi_size (sv_i sv) div 64" by (simp add: entries_def)
  have free: "dir_wf free_dir" by (simp add: dir_wf_def free_dir_def)
  from sfs_writedir_spec [OF sv(1-4) n' free] obtain r s' where
    w: "sfs_writedir v free_dir (int n) s = Some (r, s')" "io_frame v s s'" "dir_ok s' (vinode s' v)"
      "case r of Inl e \<Rightarrow> (e = ENOSPC \<or> e = EINVAL) \<and> entries s' (vinode s' v) = entries s (sv_i sv)
       | Inr _ \<Rightarrow> entries s' (vinode s' v) = put_entry (entries s (sv_i sv)) n free_dir" by blast
  from w(2,3) sv(4) have "dir_held v s'" by (auto simp: io_frame_def dir_held_def)
  moreover have "length (entries s' (vinode s' v)) = length (entries s (sv_i sv))"
    using w(4) n by (cases r) (auto simp: length_put_entry)
  ultimately show ?thesis using w(1,2) sv(4,5) by (simp add: sfs_dir_unlink_def)
qed

text \<open>The last reference to a vnode cannot be dropped by the holder of its lock.\<close>

definition sole_held :: "nat \<Rightarrow> sfs_fs \<Rightarrow> bool" where
  "sole_held g s \<longleftrightarrow> SvLock g \<in> sfs_held s \<and> CountLock g \<notin> sfs_held s \<and>
     (\<exists>sv. sfs_heap s g = Some sv \<and> vn_refcount sv = 1)"

lemma vnode_decref_held: "sole_held g s \<Longrightarrow> vnode_decref g s = None"
  by (auto simp: sole_held_def vnode_decref_def vnode_check_def sfs_reclaim_def sv_lock_def sv_get_def lock_acquire_def
      elim!: bind_SomeE)

lemma rename_done_held: "sole_held g s \<Longrightarrow> rename_done d g r s = None"
  by (simp add: rename_done_def vnode_decref_held)

lemma sole_held_frame: "sole_held g s \<Longrightarrow> io_frame v s s' \<Longrightarrow> g \<noteq> v \<Longrightarrow> sole_held g s'"
  by (simp add: sole_held_def io_frame_def)

lemma sole_held_links:
  assumes "sole_held g s"
  obtains s' where "add_links d g s = Some s'" "sole_held g s'" "v \<noteq> g \<Longrightarrow> dir_held v s' = dir_held v s"
    "v \<noteq> g \<Longrightarrow> entries s' (vinode s' v) = entries s (vinode s v)" "sfs_heap s' v = None \<longleftrightarrow> sfs_heap s v = None"
proof -
  from assms obtain sv where sv: "sfs_heap s g = Some sv" "vn_refcount sv = 1" by (auto simp: sole_held_def)
  let ?sv = "sv\<lparr>sv_i := (sv_i sv)\<lparr>sfi_linkcount := nat ((int (sfi_linkcount (sv_i sv)) + d) mod 65536)\<rparr>, sv_dirty := True\<rparr>"
  let ?s = "sv_put g ?sv s"
  have fb: "fblock ?s = fblock s" by (auto simp: fun_eq_iff fblock_def)
  then have "fbyte ?s = fbyte s" by (auto simp: fun_eq_iff fbyte_def Let_def)
  then have "dir_entry ?s = dir_entry s" by (intro ext) (simp add: dir_entry_def fbytes_def)
  then have en: "entries ?s = entries s" by (intro ext) (simp add: entries_def)
  have "inode_ok ?s = inode_ok s" using fb by (auto simp: fun_eq_iff inode_ok_def)
  then have ok: "dir_ok ?s = dir_ok s" by (auto simp: fun_eq_iff dir_ok_def)
  show thesis
  proof (rule that [of ?s])
    show "add_links d g s = Some ?s" using sv by (simp add: add_links_def sv_get_def Let_def)
    show "sole_held g ?s" using assms sv by (simp add: sole_held_def)
    show "v \<noteq> g \<Longrightarrow> dir_held v ?s = dir_held v s" by (simp add: dir_held_def ok vinode_def)
    show "v \<noteq> g \<Longrightarrow> entries ?s (vinode ?s v) = entries s (vinode s v)" by (simp add: en vinode_def)
    show "sfs_heap ?s v = None \<longleftrightarrow> sfs_heap s v = None" using sv by simp
  qed
qed

text \<open>From the lock on the file to the end, every way out of \<^verbatim>\<open>sfs_rename\<close> goes through \<open>rename_done\<close>.\<close>

lemma rename_tail_panics:
  assumes st: "dir_state d s" and g: "sole_held g s" "g \<noteq> d" and n: "n < length (entries s (vinode s d))"
    and name: "is_cstr name" and ino: "0 < ino" "ino < 2 ^ 32"
  shows "rename_move d g (int n) name ino s = None"
proof -
  from dir_link [OF st name ino] obtain r s1 where
    l: "sfs_dir_link d name ino s = Some (r, s1)" "io_frame d s s1" "dir_state d s1" "slot_kept d s s1 r" by blast
  note g1 = sole_held_frame [OF g(1) l(2) g(2)]
  show ?thesis
  proof (cases r)
    case (Inl e)
    with l(1) rename_done_held [OF g1] show ?thesis by (simp add: rename_move_def)
  next
    case (Inr slot2)
    with l(4) n obtain m where n1: "n < length (entries s1 (vinode s1 d))"
      and m: "slot2 = int m" "m < length (entries s1 (vinode s1 d))" by (auto simp: slot_kept_def)
    obtain s2 where s2: "add_links 1 g s1 = Some s2" "sole_held g s2" "dir_held d s2"
      "entries s2 (vinode s2 d) = entries s1 (vinode s1 d)"
      using sole_held_links [OF g1, of 1 d] g(2) dir_state_held [OF l(3)] by metis
    from dir_unlink_any [OF s2(3), of n] n1 s2(4) obtain r' s3 where
      u: "sfs_dir_unlink d (int n) s2 = Some (r', s3)" "io_frame d s2 s3" "dir_held d s3"
        "length (entries s3 (vinode s3 d)) = length (entries s1 (vinode s1 d))" by auto
    note g3 = sole_held_frame [OF s2(2) u(2) g(2)]
    show ?thesis
    proof (cases r')
      case r': (Inr x)
      obtain s4 where "add_links (- 1) g s3 = Some s4" "sole_held g s4"
        using sole_held_links [OF g3, of "- 1" d] by metis
      with r' Inr l(1) s2(1) u(1) show ?thesis
        by (cases "sv_get g s3") (simp_all add: rename_move_def rename_done_held)
    next
      case r': (Inl e)
      from dir_unlink_any [OF u(3), of m] m(2) u(4) obtain r'' s4 where
        u2: "sfs_dir_unlink d slot2 s3 = Some (r'', s4)" "io_frame d s3 s4" using m(1) by auto
      note g4 = sole_held_frame [OF g3 u2(2) g(2)]
      have "sole_held g (sv_put g (sg\<lparr>sv_i := i\<rparr>) s4)" if "sv_get g s4 = Some sg" for sg i
        using that g4 by (auto simp: sole_held_def sv_get_def)
      with r' Inr l(1) s2(1) u(1) u2(1) show ?thesis
        by (cases "sv_get g s4") (simp_all add: rename_move_def rename_done_held Let_def kassert_def)
    qed
  qed
qed

text \<open>C14: \<^verbatim>\<open>sfs_rename\<close> does not return when the file is not in memory already, that is, when no process has it
  open. The vnode that the lookup has loaded has one reference, which the exit path drops while
  it holds the lock of the vnode; \<^verbatim>\<open>sfs_reclaim\<close> then fails its assertion when it takes the
  lock again. This holds whatever the new name is, on the error paths too.\<close>

theorem sfs_rename_panics:
  assumes "sfs_ready s" and "sfs_held s = {}" and "sfs_heap s d = Some sv" and "sv_ino sv = SFS_ROOT_LOCATION"
    and "dir_state d (sv_locked d s)" and "names_ok d s" and "nblocks s < 2 ^ 32" and "is_cstr n2"
    and "dir_names d s n1 = Some ino" and "not_loaded s ino"
  shows "sfs_rename d n1 d n2 s = None"
proof -
  let ?l = "sv_locked d s"
  have names: "dir_names d ?l = dir_names d s" "not_loaded ?l = not_loaded s" by (simp_all add: sv_locked_def)
  have lock: "sv_lock d s = Some ?l" using assms(2,3) by (intro sv_lock_free) simp_all
  have "sfs_ready ?l" "names_ok d ?l" using assms(1,6) by (simp_all add: sfs_ready_locked names_ok_locked)
  from lookonce_spec [OF this(1) assms(5) this(2), of n1, unfolded names] assms(9)
  obtain w n s' where look: "sfs_lookonce d n1 ?l = Some (Inr (w, int n), s')" "lookup_post ino w ?l s'"
    and n: "n < length (entries ?l (vinode ?l d))" by auto
  note nok = names_okD [OF assms(6,9)]
  from look(2) obtain sw where sw: "sfs_heap s' w = Some sw" "sv_ino sw = ino" "vn_refcount sw = 1" "sfs_heap s w = None"
    using assms(10) names(2) by (cases "sfs_heap s w") (auto simp: lookup_post_def dest: not_loadedD)
  then have wd: "w \<noteq> d" using assms(3) by auto
  have held: "sfs_held s' = {SvLock d}" and h: "sfs_heap s' d = Some sv" and q: "fs_quiet s'"
    and same: "sfs_device s' = sfs_device s" "sfs_freemap s' = sfs_freemap s" "super s' = super s"
    using look(2) assms(2,3) wd by (auto simp: lookup_post_def)
  let ?s = "sv_locked w s'"
  have lockw: "sv_lock w s' = Some ?s" using sw(1) held wd by (intro sv_lock_free) simp_all
  have sole: "sole_held w ?s" using sw held by (simp add: sole_held_def)
  have mem: "sfs_mem ?s = sfs_mem ?l" using q sfs_readyD(1) [OF assms(1)] by (simp add: fs_quiet_def)
  have "vinode ?s d = vinode ?l d" using h assms(3) by (simp add: vinode_def)
  note tr = dir_state_transfer [OF assms(5) _ this _ _ _ mem]
  have st: "dir_state d ?s" and en: "entries ?s (vinode ?s d) = entries ?l (vinode ?l d)"
    using tr(1,3) h same held by simp_all
  note tail = rename_tail_panics [OF st sole wd, of n n2 ino, unfolded en, OF n assms(8)]
  have "rename_move d w (int n) n2 (sv_ino sw) ?s = None" using tail nok(1,3) assms(7) sw(2) by simp
  then show ?thesis using assms(3,4) lock look(1) lockw sw(1)
    by (simp add: sfs_rename_def sv_get_def kassert_def)
qed

text \<open>A root directory with the name \<^verbatim>\<open>a\<close> for inode 3, which is a file that is not in memory.\<close>

definition demo_root :: sfs_fs where
  "demo_root = demo_dir\<lparr>
     sfs_device := \<lparr>d_blocks = 8, sectors = (\<lambda>b. if b = 2 then encode_dir (link_entry [97] 3) @ replicate 448 0
       else if b = 3 then encode_inode ((demo_inode 0)\<lparr>sfi_linkcount := 1\<rparr>) else replicate 512 0), lh_status = []\<rparr>,
     sfs_held := {}\<rparr>"

lemma demo_root_inode: "inode_wf ((demo_inode 0)\<lparr>sfi_linkcount := 1\<rparr>)"
  by (simp add: inode_wf_def) (simp add: demo_inode_def)

lemma demo_root_simps:
  "vinode demo_root 0 = vinode demo_dir 0" "used demo_root = used demo_fs" "sfs_held demo_root = {}"
  "sfs_heap demo_root = sfs_heap demo_dir" "nblocks demo_root = 8" "sfs_vnodes demo_root = sfs_vnodes demo_fs"
  "sector demo_root 3 = encode_inode ((demo_inode 0)\<lparr>sfi_linkcount := 1\<rparr>)" "sfs_fresh demo_root = 1" "sfs_mem demo_root = []"
  by (simp_all add: demo_root_def demo_dir_def vinode_def demo_fs_def)

lemma demo_root_heap: "sfs_heap demo_root v = Some sv \<longleftrightarrow> v = 0 \<and>
    sv = demo_vnode\<lparr>sv_i := (demo_inode 2)\<lparr>sfi_size := 64, sfi_type := SFS_TYPE_DIR\<rparr>\<rparr>"
  by (auto simp: demo_root_simps demo_dir_def)

lemma demo_root_sector: "length (sector demo_root b) = 512"
  using length_demo_entry demo_root_inode by (simp add: demo_root_def)

lemma demo_root_quiet: "fs_quiet demo_root"
  using demo_quiet demo_root_sector
  by (auto simp: fs_quiet_def fs_wf_def disk_wf_def demo_root_def demo_dir_def demo_fs_def)

lemma demo_root_fblock: "fblock demo_root (vinode demo_root 0) n = (if n = 0 then 2 else 0)"
  using demo_fblock [of demo_root 2 n] by (simp add: demo_root_simps demo_dir_simps fblock_def)

lemma demo_root_entries: "entries demo_root (vinode demo_root 0) = [link_entry [97] 3]"
proof -
  have "fbytes demo_root (vinode demo_root 0) 0 64 = encode_dir (link_entry [97] 3)"
    using fbytes_block [where s = demo_root and i = "vinode demo_root 0" and p = 0 and n = 64] demo_root_sector length_demo_entry
    by (simp add: demo_root_fblock) (simp add: demo_root_def slice_def)
  then show ?thesis
    by (simp add: entries_def demo_root_simps demo_dir_simps dir_entry_def decode_dir_encode dir_wf_def link_entry_def)
qed

lemma demo_root_names: "dir_names 0 demo_root = [[97] \<mapsto> 3]"
proof -
  have "sd_name (link_entry [97] 3) = [97]" by (intro sd_name_link_entry) (simp_all add: is_cstr_def)
  then show ?thesis
    by (auto simp: dir_names_def demo_root_entries dirmap_def names_def link_entry_def fun_eq_iff)
qed

lemma demo_root_state: "dir_state 0 (sv_locked 0 demo_root)"
proof -
  have "inode_ok demo_root (vinode demo_root 0)"
    using demo_used [of 2] demo_root_fblock demo_root_simps demo_dir_simps(1) by (auto simp: inode_ok_def)
  moreover have "sv_locked 0 demo_root = demo_root\<lparr>sfs_held := {SvLock 0}\<rparr>" by (simp add: sv_locked_def demo_root_simps)
  ultimately show ?thesis using fs_quiet_held [OF demo_root_quiet, of "{SvLock 0}"] demo_root_entries demo_dir_simps demo_root_simps
    by (simp add: dir_state_def dir_ok_def unique_names_def)
qed

lemma demo_root_ready: "sfs_ready demo_root"
proof -
  have "unique_inos (sfs_heap demo_root)" by (rule unique_inosI) (simp add: demo_root_heap)
  moreover have "vnode_ok demo_root sv" if "sfs_heap demo_root v = Some sv" for v sv
    using that demo_used [of 1] by (auto simp: demo_root_heap demo_root_simps(2,5) vnode_ok_def demo_vnode_def)
  moreover have "array_inv (sfs_vnodes demo_root)" "vtable demo_root = [0]" "a_num (sfs_vnodes demo_root) = 1"
    by (simp_all add: demo_root_simps) (simp_all add: demo_fs_def array_inv_def array_list_def)
  moreover have "dom (sfs_heap demo_root) = {0}" by (auto simp: dom_def demo_root_heap)
  ultimately have "vtable_ok demo_root" unfolding vtable_ok_def by (auto simp: demo_root_heap demo_root_simps(8))
  with demo_root_quiet \<open>a_num (sfs_vnodes demo_root) = 1\<close> show ?thesis
    by (auto simp: sfs_ready_def demo_root_heap demo_root_simps(3) demo_vnode_def)
qed

lemma demo_root_unloaded: "not_loaded demo_root 3"
  by (auto simp: not_loaded_def demo_root_heap demo_vnode_def)

lemma demo_root_names_ok: "names_ok 0 demo_root"
proof -
  have "cur_inode demo_root 3 = (demo_inode 0)\<lparr>sfi_linkcount := 1\<rparr>"
    using cur_inode_disk [OF sfs_readyD(2) [OF demo_root_ready] demo_root_unloaded] decode_inode_encode [OF demo_root_inode]
    by (simp add: demo_root_simps)
  then show ?thesis using demo_used [of 3]
    by (auto simp: names_ok_def demo_root_names demo_root_simps demo_inode_def split: if_splits)
qed

lemma demo_root_vnode:
  "sfs_heap demo_root 0 = Some (demo_vnode\<lparr>sv_i := (demo_inode 2)\<lparr>sfi_size := 64, sfi_type := SFS_TYPE_DIR\<rparr>\<rparr>)"
  by (simp add: demo_root_heap)

theorem sfs_lookup_correct_witness:
  "sfs_lookup 0 [98] demo_root = Some (Inl ENOENT, demo_root)"
  using sfs_lookup_correct [OF demo_root_ready demo_root_vnode, of "[98]"] demo_root_state demo_root_names_ok
  by (simp add: demo_root_simps(3) demo_root_names)

theorem sfs_rename_panics_witness: "sfs_rename 0 [97] 0 [98] demo_root = None"
  using sfs_rename_panics [OF demo_root_ready demo_root_simps(3) demo_root_vnode _ demo_root_state demo_root_names_ok,
      of "[98]" "[97]" 3] demo_root_unloaded
  by (simp add: demo_root_simps(5) demo_root_names demo_vnode_def is_cstr_def)

end
