(* ===== verification/K_Sfs_Fs.thy ===== *)
theory K_Sfs_Fs
  imports K_Sfs_Namei
begin

text \<open>
  The file-system level routines of SFS, \<^verbatim>\<open>kern/fs/sfs/sfs_fs.c\<close>: reading and writing the free block
  map, synchronising, mounting and unmounting.
\<close>

section \<open>The free block map on the disk\<close>

abbreviation (input) SFS_BLOCKBITS :: nat where "SFS_BLOCKBITS \<equiv> 4096"
abbreviation (input) SFS_SB_LOCATION :: nat where "SFS_SB_LOCATION \<equiv> 0"
abbreviation (input) SFS_MAP_LOCATION :: nat where "SFS_MAP_LOCATION \<equiv> 2"

text \<open>The macros compute with 32-bit unsigned integers.\<close>

definition SFS_BITMAPSIZE :: "nat \<Rightarrow> nat" where
  "SFS_BITMAPSIZE nb = ((nb + SFS_BLOCKBITS - 1) mod 2 ^ 32 div SFS_BLOCKBITS) * SFS_BLOCKBITS"

definition SFS_BITBLOCKS :: "nat \<Rightarrow> nat" where
  "SFS_BITBLOCKS nb = SFS_BITMAPSIZE nb div SFS_BLOCKBITS"

text \<open>The loop over the sectors of the map: \<open>k\<close> of them are left, beginning with \<open>j\<close>. The buffer is the data
  of the bit map in memory; reading or writing past its end is undefined.\<close>

fun mapio_loop :: "uio_rw \<Rightarrow> nat \<Rightarrow> nat \<Rightarrow> sfs_fs \<Rightarrow> (unit res \<times> sfs_fs) option" where
  "mapio_loop rw j 0 s = Some (Inr (), s)"
| "mapio_loop rw j (Suc k) s = do {
     let bitdata = bm_v (sfs_freemap s);
     kassert (j * SFS_BLOCKSIZE + SFS_BLOCKSIZE \<le> length bitdata);
     (r, s) \<leftarrow> (case rw of
        UIO_READ \<Rightarrow> do {
          (r, s) \<leftarrow> rblock (SFS_MAP_LOCATION + j) s;
          case r of
            Inl e \<Rightarrow> Some (Inl e, s)
          | Inr bs \<Rightarrow> Some (Inr (), s\<lparr>sfs_freemap := (sfs_freemap s)\<lparr>bm_v := blit bitdata (j * SFS_BLOCKSIZE) bs\<rparr>\<rparr>)
        }
      | UIO_WRITE \<Rightarrow> wblock (slice bitdata (j * SFS_BLOCKSIZE) SFS_BLOCKSIZE) (SFS_MAP_LOCATION + j) s);
     case r of
       Inl e \<Rightarrow> Some (Inl e, s)
     | Inr _ \<Rightarrow> mapio_loop rw (Suc j) k s
   }"

definition sfs_mapio :: "uio_rw \<Rightarrow> sfs_fs \<Rightarrow> (unit res \<times> sfs_fs) option" where
  "sfs_mapio rw s = do {
     kassert (BitLock \<in> sfs_held s);
     mapio_loop rw 0 (SFS_BITBLOCKS (nblocks s)) s
   }"

section \<open>Synchronising\<close>

text \<open>The loop that copies the table of loaded vnodes into a temporary array, with a reference to each.\<close>

fun sync_collect :: "int \<Rightarrow> nat \<Rightarrow> nat karray \<Rightarrow> sfs_fs \<Rightarrow> (nat karray \<times> sfs_fs) option" where
  "sync_collect i 0 tmp s = Some (tmp, s)"
| "sync_collect i (Suc k) tmp s = do {
     v \<leftarrow> array_getguy (sfs_vnodes s) i;
     s \<leftarrow> vnode_incref v s;
     (r, tmp, m) \<leftarrow> array_add tmp v (sfs_mem s);
     kassert (r = Inr ());
     sync_collect (i + 1) k tmp (s\<lparr>sfs_mem := m\<rparr>)
   }"

text \<open>The loop over the temporary array. A failure to write an inode is only reported on the console.\<close>

fun sync_vnodes :: "int \<Rightarrow> nat \<Rightarrow> nat karray \<Rightarrow> sfs_fs \<Rightarrow> sfs_fs option" where
  "sync_vnodes i 0 tmp s = Some s"
| "sync_vnodes i (Suc k) tmp s = do {
     v \<leftarrow> array_getguy tmp i;
     s \<leftarrow> vnode_check False v s;
     (r, s) \<leftarrow> sfs_fsync v s;
     s \<leftarrow> vnode_decref v s;
     sync_vnodes (i + 1) k tmp s
   }"

text \<open>The free map and the superblock.\<close>

definition sync_meta :: "sfs_fs \<Rightarrow> sfs_fs option" where
  "sync_meta s = do {
     s \<leftarrow> (if sfs_freemapdirty s then do {
             (r, s) \<leftarrow> sfs_mapio UIO_WRITE s;
             case r of
               Inl e \<Rightarrow> Some s
             | Inr _ \<Rightarrow> Some (s\<lparr>sfs_freemapdirty := False\<rparr>)
           }
           else Some s);
     if sfs_superdirty s then do {
       (r, s) \<leftarrow> wblock (encode_super (super s)) SFS_SB_LOCATION s;
       case r of
         Inl e \<Rightarrow> Some s
       | Inr _ \<Rightarrow> Some (s\<lparr>sfs_superdirty := False\<rparr>)
     }
     else Some s
   }"

definition sfs_sync :: "sfs_fs \<Rightarrow> (unit res \<times> sfs_fs) option" where
  "sfs_sync s =
     (case array_create (sfs_mem s) of (a, m) \<Rightarrow>
        case a of
          None \<Rightarrow> Some (Inl ENOMEM, s\<lparr>sfs_mem := m\<rparr>)
        | Some tmp \<Rightarrow> do {
            s \<leftarrow> lock_acquire VnLock (s\<lparr>sfs_mem := m\<rparr>);
            (tmp, s) \<leftarrow> sync_collect 0 (nat (array_getnum (sfs_vnodes s))) tmp s;
            s \<leftarrow> lock_release VnLock s;
            s \<leftarrow> sync_vnodes 0 (nat (array_getnum tmp)) tmp s;
            s \<leftarrow> lock_acquire BitLock s;
            s \<leftarrow> sync_meta s;
            s \<leftarrow> lock_release BitLock s;
            Some (Inr (), s)
          })"

section \<open>Mounting and unmounting\<close>

definition sfs_getvolname :: "sfs_fs \<Rightarrow> byte list option" where
  "sfs_getvolname s = do {
     kassert (0 \<in> set (sp_volname (super s)));
     Some (cstr (sp_volname (super s)))
   }"

text \<open>After a success the structure has been freed; the device stays with the VFS layer.\<close>

definition sfs_unmount :: "sfs_fs \<Rightarrow> (unit res \<times> sfs_fs option) option" where
  "sfs_unmount s = do {
     s \<leftarrow> lock_acquire VnLock s;
     s \<leftarrow> lock_acquire BitLock s;
     if array_getnum (sfs_vnodes s) > 0 then do {
       s \<leftarrow> lock_release VnLock s;
       s \<leftarrow> lock_release BitLock s;
       Some (Inl EBUSY, Some s)
     }
     else do {
       kassert (\<not> sfs_superdirty s);
       kassert (\<not> sfs_freemapdirty s);
       Some (Inr (), None)
     }
   }"

text \<open>From the superblock on: the locks have been created and taken. \<open>vn\<close> is the empty vnode table.\<close>

definition domount_load :: "nat karray \<Rightarrow> lhd \<Rightarrow> kmem \<Rightarrow> (sfs_fs res \<times> lhd \<times> kmem) option" where
  "domount_load vn dev m = do {
     (r, dev) \<leftarrow> sfs_rblock SFS_SB_LOCATION dev;
     case r of
       Inl e \<Rightarrow> Some (Inl e, dev, m)
     | Inr bs \<Rightarrow> do {
         let sp = decode_super bs;
         if sp_magic sp \<noteq> SFS_MAGIC then Some (Inl EINVAL, dev, m)
         else do {
           let sp = sp\<lparr>sp_volname := (sp_volname sp)[31 := 0]\<rparr>;
           (bm, m) \<leftarrow> bitmap_create (SFS_BITMAPSIZE (sp_nblocks sp)) m;
           case bm of
             None \<Rightarrow> Some (Inl ENOMEM, dev, m)
           | Some bm \<Rightarrow> do {
               let s = \<lparr>super = sp, sfs_superdirty = False, sfs_device = dev, sfs_vnodes = vn, sfs_freemap = bm,
                        sfs_freemapdirty = False, sfs_heap = Map.empty, sfs_fresh = 0, sfs_held = {VnLock, BitLock},
                        sfs_mem = m\<rparr>;
               (r, s) \<leftarrow> sfs_mapio UIO_READ s;
               case r of
                 Inl e \<Rightarrow> Some (Inl e, sfs_device s, sfs_mem s)
               | Inr _ \<Rightarrow> do {
                   s \<leftarrow> lock_release VnLock s;
                   s \<leftarrow> lock_release BitLock s;
                   Some (Inr s, sfs_device s, sfs_mem s)
                 }
             }
         }
       }
   }"

text \<open>\<^verbatim>\<open>lock_create\<close>, before there is a file system: the lock and a copy of its name.\<close>

definition mount_lock :: "kmem \<Rightarrow> bool \<times> kmem" where
  "mount_lock m = (case kmalloc m of (ok, m) \<Rightarrow> if \<not> ok then (False, m) else kmalloc m)"

text \<open>\<open>blocksize\<close> is the field \<^verbatim>\<open>d_blocksize\<close> of the device. The six allocations before the superblock
  are the structure, the table, and two for each of the two locks.\<close>

definition sfs_domount :: "nat \<Rightarrow> lhd \<Rightarrow> kmem \<Rightarrow> (sfs_fs res \<times> lhd \<times> kmem) option" where
  "sfs_domount blocksize dev m =
     (if blocksize \<noteq> SFS_BLOCKSIZE then Some (Inl ENXIO, dev, m)
      else case kmalloc m of (ok, m) \<Rightarrow>
        if \<not> ok then Some (Inl ENOMEM, dev, m)
        else case array_create m of (a, m) \<Rightarrow>
          case a of
            None \<Rightarrow> Some (Inl ENOMEM, dev, m)
          | Some vn \<Rightarrow>
              case mount_lock m of (ok, m) \<Rightarrow>
                if \<not> ok then Some (Inl ENOMEM, dev, m)
                else case mount_lock m of (ok, m) \<Rightarrow>
                  if \<not> ok then Some (Inl ENOMEM, dev, m)
                  else domount_load vn dev m)"

section \<open>The map loop\<close>

lemma slice_extend:
  "i \<le> length xs \<Longrightarrow> take i xs @ slice xs i n = take (i + n) xs"
  by (simp add: slice_def take_add)

text \<open>The sectors of the disk once part of the map has been written.\<close>

definition put_map :: "nat \<Rightarrow> nat \<Rightarrow> byte list \<Rightarrow> (nat \<Rightarrow> byte list) \<Rightarrow> nat \<Rightarrow> byte list" where
  "put_map j k bs f b =
     (if SFS_MAP_LOCATION + j \<le> b \<and> b < SFS_MAP_LOCATION + j + k
      then slice bs ((b - SFS_MAP_LOCATION) * SFS_BLOCKSIZE) SFS_BLOCKSIZE else f b)"

lemma put_map_step: "put_map (Suc j) k bs (f(2 + j := slice bs (j * 512) 512)) = put_map j (Suc k) bs f"
  by (auto simp: fun_eq_iff put_map_def)

lemma mapio_write:
  assumes "disk_quiet (sfs_device s)" and "2 + j + k \<le> d_blocks (sfs_device s)"
    and "(j + k) * 512 \<le> length (bm_v (sfs_freemap s))"
  shows "mapio_loop UIO_WRITE j k s = Some (Inr (),
    s\<lparr>sfs_device := (sfs_device s)\<lparr>sectors := put_map j k (bm_v (sfs_freemap s)) (sector s)\<rparr>\<rparr>)"
  using assms
proof (induction k arbitrary: j s)
  case 0
  have "put_map j 0 bs f = f" for bs f by (auto simp: fun_eq_iff put_map_def)
  then show ?case by simp
next
  case (Suc k)
  let ?v = "bm_v (sfs_freemap s)"
  define f where "f = (sector s)(2 + j := slice ?v (j * 512) 512)"
  define s1 where "s1 = s\<lparr>sfs_device := (sfs_device s)\<lparr>sectors := f\<rparr>\<rparr>"
  have len: "j * 512 + 512 \<le> length ?v" using Suc.prems(3) by simp
  have w: "wblock (slice ?v (j * 512) 512) (2 + j) s = Some (Inr (), s1)"
    using sfs_wblock_ok [OF Suc.prems(1), of "2 + j" "slice ?v (j * 512) 512"] Suc.prems(2) len
    by (simp add: wblock_def s1_def f_def)
  have s1: "sfs_freemap s1 = sfs_freemap s" "sector s1 = f" "d_blocks (sfs_device s1) = d_blocks (sfs_device s)"
    "s1\<lparr>sfs_device := (sfs_device s1)\<lparr>sectors := g\<rparr>\<rparr> = s\<lparr>sfs_device := (sfs_device s)\<lparr>sectors := g\<rparr>\<rparr>" for g
    by (simp_all add: s1_def)
  have "disk_quiet (sfs_device s1)" using Suc.prems(1) len by (simp add: s1_def f_def)
  with Suc.IH [of s1 "Suc j"] Suc.prems(2,3) s1
  have "mapio_loop UIO_WRITE (Suc j) k s1 = Some (Inr (), s\<lparr>sfs_device := (sfs_device s)\<lparr>sectors := put_map (Suc j) k ?v f\<rparr>\<rparr>)"
    by simp
  moreover have "mapio_loop UIO_WRITE j (Suc k) s = mapio_loop UIO_WRITE (Suc j) k s1" using w len by (simp add: Let_def)
  moreover have "put_map (Suc j) k ?v f = put_map j (Suc k) ?v (sector s)" by (simp only: f_def put_map_step)
  ultimately show ?case by (simp only:)
qed

lemma mapio_read:
  assumes "disk_quiet (sfs_device s)" and "2 + j + k \<le> d_blocks (sfs_device s)"
    and "length (bm_v (sfs_freemap s)) = (j + k) * 512" and "length bs = (j + k) * 512"
    and "take (j * 512) (bm_v (sfs_freemap s)) = take (j * 512) bs"
    and "\<And>i. j \<le> i \<Longrightarrow> i < j + k \<Longrightarrow> sector s (2 + i) = slice bs (i * 512) 512"
  shows "mapio_loop UIO_READ j k s = Some (Inr (), s\<lparr>sfs_freemap := (sfs_freemap s)\<lparr>bm_v := bs\<rparr>\<rparr>)"
  using assms
proof (induction k arbitrary: j s)
  case 0
  then have "bm_v (sfs_freemap s) = bs" by simp
  then show ?case by (cases s; cases "sfs_freemap s") simp
next
  case (Suc k)
  let ?v = "bm_v (sfs_freemap s)"
  let ?s = "s\<lparr>sfs_freemap := (sfs_freemap s)\<lparr>bm_v := blit ?v (j * 512) (slice bs (j * 512) 512)\<rparr>\<rparr>"
  have b: "2 + j < d_blocks (sfs_device s)" using Suc.prems(2) by simp
  have r: "rblock (2 + j) s = Some (Inr (slice bs (j * 512) 512), s)"
    using sfs_rblock_ok [OF Suc.prems(1) b] Suc.prems(6) [of j] by (simp add: rblock_def)
  have "take (Suc j * 512) (bm_v (sfs_freemap ?s)) = take (j * 512) ?v @ slice bs (j * 512) 512"
    using Suc.prems(3,4) by (simp add: blit_def)
  then have "take (Suc j * 512) (bm_v (sfs_freemap ?s)) = take (Suc j * 512) bs"
    using Suc.prems(4,5) slice_extend [of "j * 512" bs 512] by (simp add: add.commute)
  with Suc.IH [of ?s "Suc j"] Suc.prems r show ?case by simp
qed

lemma bitmapsize:
  assumes "nb < 2 ^ 22"
  shows "SFS_BITMAPSIZE nb = SFS_BITBLOCKS nb * 4096" and "nb \<le> SFS_BITMAPSIZE nb" and "SFS_BITMAPSIZE nb < 2 ^ 23"
proof -
  have nb: "(nb + 4095) mod 2 ^ 32 = nb + 4095" using assms by simp
  show eq: "SFS_BITMAPSIZE nb = SFS_BITBLOCKS nb * 4096" by (simp add: SFS_BITBLOCKS_def SFS_BITMAPSIZE_def)
  have "SFS_BITMAPSIZE nb = (nb + 4095) div 4096 * 4096" using nb by (simp add: SFS_BITMAPSIZE_def)
  moreover have "nb < 4194304" using assms by simp
  ultimately have "nb \<le> SFS_BITMAPSIZE nb" "SFS_BITMAPSIZE nb < 8388608" by linarith+
  then show "nb \<le> SFS_BITMAPSIZE nb" "SFS_BITMAPSIZE nb < 2 ^ 23" by simp_all
qed

section \<open>Synchronising the vnodes\<close>

text \<open>One reference more for each of some vnodes.\<close>

definition bump :: "nat set \<Rightarrow> (nat \<Rightarrow> sfs_vnode option) \<Rightarrow> nat \<Rightarrow> sfs_vnode option" where
  "bump S h v = (if v \<in> S then map_option (\<lambda>sv. sv\<lparr>vn_refcount := vn_refcount sv + 1\<rparr>) (h v) else h v)"

lemma sync_collect_ok:
  assumes "array_inv (sfs_vnodes s)" and "distinct (vtable s)" and "i + k = length (vtable s)"
    and "\<forall>v \<in> set (drop i (vtable s)). \<exists>sv. sfs_heap s v = Some sv \<and> 0 < vn_refcount sv \<and> vn_refcount sv < INT_MAX"
    and "\<forall>v. CountLock v \<notin> sfs_held s" and "sfs_mem s = []" and "array_inv tmp" and "array_list tmp = take i (vtable s)"
    and "length (vtable s) < 2 ^ 29 - 1"
  shows "\<exists>tmp'. sync_collect (int i) k tmp s = Some (tmp', s\<lparr>sfs_heap := bump (set (drop i (vtable s))) (sfs_heap s)\<rparr>) \<and>
    array_inv tmp' \<and> array_list tmp' = vtable s"
  using assms
proof (induction k arbitrary: i s tmp)
  case 0
  then have "bump (set (drop i (vtable s))) (sfs_heap s) = sfs_heap s" by (simp add: bump_def fun_eq_iff)
  with 0 show ?case by simp
next
  case (Suc k)
  let ?l = "vtable s" and ?v = "vtable s ! i"
  have i: "i < length ?l" using Suc.prems(3) by simp
  have split: "drop i ?l = ?v # drop (Suc i) ?l" using i by (simp add: Cons_nth_drop_Suc)
  have new: "?v \<notin> set (drop (Suc i) ?l)" using Suc.prems(2) i split by (metis distinct.simps(2) distinct_drop)
  from Suc.prems(4) split obtain sv where sv: "sfs_heap s ?v = Some sv" "0 < vn_refcount sv" "vn_refcount sv < INT_MAX" by auto
  let ?s = "sv_put ?v (sv\<lparr>vn_refcount := vn_refcount sv + 1\<rparr>) s"
  have get: "array_getguy (sfs_vnodes s) (int i) = Some ?v" by (rule karr.getguy_Suc_index [OF Suc.prems(1) i])
  have inc: "vnode_incref ?v s = Some ?s" using sv Suc.prems(5) by (intro vnode_incref_ok) simp_all
  have "a_num tmp = int i" using karr.getnum_law [OF Suc.prems(7)] Suc.prems(8) i by (simp add: array_getnum_def)
  then have "a_num tmp < 2 ^ 29 - 1" using i Suc.prems(9) by simp
  from array_add_no_shortage [OF Suc.prems(7) this] obtain tmp1 where
    tmp1: "array_add tmp ?v [] = Some (Inr (), tmp1, [])" "array_inv tmp1" "array_list tmp1 = array_list tmp @ [?v]" by blast
  have mem: "?s\<lparr>sfs_mem := []\<rparr> = ?s" "sfs_mem ?s = []" using Suc.prems(6) by (simp_all add: sv_put_def)
  have "\<exists>tmp'. sync_collect (int (Suc i)) k tmp1 ?s =
      Some (tmp', ?s\<lparr>sfs_heap := bump (set (drop (Suc i) (vtable ?s))) (sfs_heap ?s)\<rparr>) \<and>
    array_inv tmp' \<and> array_list tmp' = vtable ?s"
  proof (rule Suc.IH)
    show "\<forall>v \<in> set (drop (Suc i) (vtable ?s)). \<exists>sv. sfs_heap ?s v = Some sv \<and> 0 < vn_refcount sv \<and> vn_refcount sv < INT_MAX"
      using Suc.prems(4) split new by auto
    show "array_list tmp1 = take (Suc i) (vtable ?s)"
      using tmp1(3) Suc.prems(8) i by (simp add: take_Suc_conv_app_nth)
  qed (use Suc.prems tmp1(2) mem(2) in simp_all)
  moreover have "bump (set (drop (Suc i) ?l)) (sfs_heap ?s) = bump (set (drop i ?l)) (sfs_heap s)"
    using split new sv(1) by (auto simp: fun_eq_iff bump_def)
  moreover have "int (Suc i) = int i + 1" by simp
  then have "sync_collect (int i) (Suc k) tmp s = sync_collect (int (Suc i)) k tmp1 ?s"
    using get inc tmp1(1) mem by (simp only: sync_collect.simps bind.bind_lunit kassert_simps prod.case simp_thms)
  ultimately show ?case by (simp add: sv_put_def del: sync_collect.simps)
qed

text \<open>What the second loop does for one vnode.\<close>

definition sync_one :: "nat \<Rightarrow> sfs_fs \<Rightarrow> sfs_fs" where
  "sync_one v s =
     (let sv = the (sfs_heap s v);
          s = (if sv_dirty sv then set_sector (sv_ino sv) (encode_inode (sv_i sv)) s else s)
      in sv_put v (sv\<lparr>sv_dirty := False, vn_refcount := vn_refcount sv - 1\<rparr>) s)"

definition syncable :: "sfs_fs \<Rightarrow> nat \<Rightarrow> bool" where
  "syncable s v \<longleftrightarrow> (\<exists>sv. sfs_heap s v = Some sv \<and> 1 < vn_refcount sv \<and> 0 \<le> vn_opencount sv \<and>
     sv_ino sv < nblocks s \<and> inode_wf (sv_i sv)) \<and> SvLock v \<notin> sfs_held s \<and> CountLock v \<notin> sfs_held s"

lemma sync_one_step:
  assumes q: "fs_quiet s" and "syncable s v"
  shows "do { s \<leftarrow> vnode_check False v s; (r, s) \<leftarrow> sfs_fsync v s; s \<leftarrow> vnode_decref v s; f s } = f (sync_one v s)"
proof -
  from assms(2) obtain sv where sv: "sfs_heap s v = Some sv" "1 < vn_refcount sv" "0 \<le> vn_opencount sv"
    "sv_ino sv < nblocks s" "inode_wf (sv_i sv)" and locks: "SvLock v \<notin> sfs_held s" "CountLock v \<notin> sfs_held s"
    by (auto simp: syncable_def)
  have chk: "vnode_check False v s = Some s" using sv locks by (intro vnode_check_ok) simp_all
  let ?l = "sv_locked v s"
  let ?s1 = "if sv_dirty sv then sv_put v (sv\<lparr>sv_dirty := False\<rparr>) (set_sector (sv_ino sv) (encode_inode (sv_i sv)) s) else s"
  have lock: "sv_lock v s = Some ?l" by (rule sv_lock_free [OF sv(1) locks(1)])
  have sync: "sfs_sync_inode v ?l = Some (Inr (),
      if sv_dirty sv then sv_put v (sv\<lparr>sv_dirty := False\<rparr>) (set_sector (sv_ino sv) (encode_inode (sv_i sv)) ?l) else ?l)"
    using q sv by (intro sync_inode_ok) simp_all
  have fs: "sfs_fsync v s = Some (Inr (), ?s1)"
  proof (cases "sv_dirty sv")
    case True
    let ?d = "sv_put v (sv\<lparr>sv_dirty := False\<rparr>) (set_sector (sv_ino sv) (encode_inode (sv_i sv)) ?l)"
    have "sv_unlock v ?d = Some (?d\<lparr>sfs_held := sfs_held ?d - {SvLock v}\<rparr>)" by (rule sv_unlock_held) simp_all
    moreover have "?d\<lparr>sfs_held := sfs_held ?d - {SvLock v}\<rparr> = ?s1"
      using locks(1) True by (simp add: sv_put_def set_sector_def sv_locked_def)
    ultimately show ?thesis using True lock sync by (simp add: sfs_fsync_def)
  next
    case False
    have "sv_unlock v ?l = Some (?l\<lparr>sfs_held := sfs_held ?l - {SvLock v}\<rparr>)" using sv(1) by (intro sv_unlock_held) simp_all
    moreover have "?l\<lparr>sfs_held := sfs_held ?l - {SvLock v}\<rparr> = s" using locks(1) by (simp add: sv_locked_def)
    ultimately show ?thesis using False lock sync by (simp add: sfs_fsync_def)
  qed
  have h1: "sfs_heap ?s1 v = Some (sv\<lparr>sv_dirty := False\<rparr>)" "CountLock v \<notin> sfs_held ?s1" using sv(1) locks(2) by simp_all
  have "vnode_decref v ?s1 = Some (sv_put v (sv\<lparr>sv_dirty := False, vn_refcount := vn_refcount sv - 1\<rparr>) ?s1)"
    using vnode_decref_shared [OF h1] sv(2) by simp
  moreover have "sv_put v (sv\<lparr>sv_dirty := False, vn_refcount := vn_refcount sv - 1\<rparr>) ?s1 = sync_one v s"
    using sv(1) by (simp add: sync_one_def Let_def sv_put_def)
  ultimately show ?thesis using chk fs by simp
qed

lemma sync_one_simps [simp]:
  "super (sync_one v s) = super s" "sfs_vnodes (sync_one v s) = sfs_vnodes s" "sfs_freemap (sync_one v s) = sfs_freemap s"
  "sfs_fresh (sync_one v s) = sfs_fresh s" "sfs_held (sync_one v s) = sfs_held s" "sfs_mem (sync_one v s) = sfs_mem s"
  "sfs_freemapdirty (sync_one v s) = sfs_freemapdirty s" "sfs_superdirty (sync_one v s) = sfs_superdirty s"
  by (simp_all add: sync_one_def Let_def) (simp_all add: sv_put_def set_sector_def)

lemma sync_one_heap: "w \<noteq> v \<Longrightarrow> sfs_heap (sync_one v s) w = sfs_heap s w"
  by (simp add: sync_one_def Let_def)

lemma sync_one_quiet: "fs_quiet s \<Longrightarrow> syncable s v \<Longrightarrow> fs_quiet (sync_one v s)"
  by (auto simp: sync_one_def syncable_def Let_def)

lemma syncable_other: "w \<noteq> v \<Longrightarrow> syncable (sync_one v s) w = syncable s w"
  by (simp add: syncable_def sync_one_heap)

lemma sync_vnodes_ok:
  assumes "array_inv tmp" and "distinct (array_list tmp)" and "i + k = length (array_list tmp)"
    and "fs_quiet s" and "\<forall>v \<in> set (drop i (array_list tmp)). syncable s v"
  shows "sync_vnodes (int i) k tmp s = Some (fold sync_one (drop i (array_list tmp)) s) \<and>
    fs_quiet (fold sync_one (drop i (array_list tmp)) s)"
  using assms(3-5)
proof (induction k arbitrary: i s)
  case 0
  then show ?case by simp
next
  case (Suc k)
  let ?v = "array_list tmp ! i"
  have i: "i < length (array_list tmp)" using Suc.prems(1) by simp
  have split: "drop i (array_list tmp) = ?v # drop (Suc i) (array_list tmp)" using i by (simp add: Cons_nth_drop_Suc)
  have new: "?v \<notin> set (drop (Suc i) (array_list tmp))" using assms(2) i split by (metis distinct.simps(2) distinct_drop)
  have v: "syncable s ?v" using Suc.prems(3) split by simp
  have "sync_vnodes (int i) (Suc k) tmp s = sync_vnodes (int (Suc i)) k tmp (sync_one ?v s)"
    using karr.getguy_Suc_index [OF assms(1) i] sync_one_step [OF Suc.prems(2) v, of "sync_vnodes (int i + 1) k tmp"]
    by (simp add: add.commute)
  moreover have "\<forall>v \<in> set (drop (Suc i) (array_list tmp)). syncable (sync_one ?v s) v"
    using Suc.prems(3) split new syncable_other by (metis insert_iff list.set(2))
  ultimately show ?case
    using Suc.IH [of "Suc i" "sync_one ?v s"] Suc.prems(1) sync_one_quiet [OF Suc.prems(2) v] split
    by (simp del: sync_vnodes.simps)
qed

text \<open>The whole loop: the vnodes lose the extra reference, and the dirty inodes are on the disk.\<close>

lemma sync_fold_frame:
  "super (fold sync_one l s) = super s" "sfs_vnodes (fold sync_one l s) = sfs_vnodes s"
  "sfs_freemap (fold sync_one l s) = sfs_freemap s" "sfs_fresh (fold sync_one l s) = sfs_fresh s"
  "sfs_held (fold sync_one l s) = sfs_held s" "sfs_mem (fold sync_one l s) = sfs_mem s"
  "sfs_freemapdirty (fold sync_one l s) = sfs_freemapdirty s" "sfs_superdirty (fold sync_one l s) = sfs_superdirty s"
  by (induction l arbitrary: s) auto

lemma sync_one_facts:
  assumes "sfs_heap s w = Some sw"
  shows "sfs_heap (sync_one w s) = (sfs_heap s)(w \<mapsto> sw\<lparr>sv_dirty := False, vn_refcount := vn_refcount sw - 1\<rparr>)"
    and "sector (sync_one w s) = (if sv_dirty sw then (sector s)(sv_ino sw := encode_inode (sv_i sw)) else sector s)"
  using assms by (auto simp: sync_one_def Let_def)

lemma sync_fold_heap:
  assumes "distinct l" and "\<forall>v \<in> set l. sfs_heap s v \<noteq> None"
  shows "sfs_heap (fold sync_one l s) v = (if v \<in> set l then map_option (\<lambda>sv. sv\<lparr>sv_dirty := False, vn_refcount := vn_refcount sv - 1\<rparr>) (sfs_heap s v)
     else sfs_heap s v)"
  using assms
proof (induction l arbitrary: s)
  case (Cons w l)
  from Cons.prems obtain sw where sw: "sfs_heap s w = Some sw" by auto
  have "\<forall>v \<in> set l. sfs_heap (sync_one w s) v \<noteq> None" using Cons.prems by (simp add: sync_one_facts [OF sw])
  with Cons sw show ?case by (simp add: sync_one_facts [OF sw])
qed simp

lemma sync_fold_sector:
  assumes "distinct l" and "\<forall>v \<in> set l. sfs_heap s v \<noteq> None"
    and "\<And>v sv. v \<in> set l \<Longrightarrow> sfs_heap s v = Some sv \<Longrightarrow> sv_dirty sv \<Longrightarrow> sv_ino sv \<noteq> b"
  shows "sector (fold sync_one l s) b = sector s b"
  using assms
proof (induction l arbitrary: s)
  case (Cons w l)
  from Cons.prems obtain sw where sw: "sfs_heap s w = Some sw" by auto
  have nw: "w \<notin> set l" using Cons.prems by simp
  note f = sync_one_facts [OF sw]
  have "sector (fold sync_one l (sync_one w s)) b = sector (sync_one w s) b"
  proof (rule Cons.IH)
    show "distinct l" "\<forall>v \<in> set l. sfs_heap (sync_one w s) v \<noteq> None" using Cons.prems(1,2) by (simp_all add: f)
    show "sv_ino sx \<noteq> b" if "x \<in> set l" "sfs_heap (sync_one w s) x = Some sx" "sv_dirty sx" for x sx
      using Cons.prems(3) [of x sx] that nw by (auto simp: f split: if_splits)
  qed
  moreover have "sv_dirty sw \<Longrightarrow> sv_ino sw \<noteq> b" using Cons.prems(3) [of w sw] sw by simp
  ultimately show ?case by (auto simp: f)
qed simp

lemma sync_fold_dirty:
  assumes "distinct l" and "\<forall>v \<in> set l. sfs_heap s v \<noteq> None" and "unique_inos (sfs_heap s)"
    and "v \<in> set l" and "sfs_heap s v = Some sv" and "sv_dirty sv"
  shows "sector (fold sync_one l s) (sv_ino sv) = encode_inode (sv_i sv)"
proof -
  from assms(4) obtain l1 l2 where l: "l = l1 @ v # l2" by (meson split_list)
  have some: "\<forall>w \<in> set l1. sfs_heap s w \<noteq> None" "distinct l1" using assms(1,2) l by auto
  let ?s = "fold sync_one l1 s"
  have h: "sfs_heap ?s w = sfs_heap s w" if "w \<in> set (v # l2)" for w
    using sync_fold_heap [OF some(2,1), of w] that assms(1) l by auto
  have v: "sfs_heap ?s v = Some sv" using h assms(5) by simp
  note f = sync_one_facts [OF v]
  have "sector (fold sync_one l2 (sync_one v ?s)) (sv_ino sv) = sector (sync_one v ?s) (sv_ino sv)"
  proof (rule sync_fold_sector)
    show "distinct l2" using assms(1) l by simp
    show "\<forall>w \<in> set l2. sfs_heap (sync_one v ?s) w \<noteq> None" using assms(2) l h by (auto simp: f)
    show "sv_ino sx \<noteq> sv_ino sv" if x: "x \<in> set l2" "sfs_heap (sync_one v ?s) x = Some sx" for x sx
    proof
      assume "sv_ino sx = sv_ino sv"
      moreover have "x \<noteq> v" using x assms(1) l by auto
      moreover have "sfs_heap s x = Some sx" using x h [of x] \<open>x \<noteq> v\<close> by (simp add: f)
      ultimately show False using unique_inosD [OF assms(3) _ assms(5), of x sx] by simp
    qed
  qed
  then show ?thesis using assms(6) l by (simp add: f)
qed

section \<open>A volume and its disk\<close>

definition super_wf :: "sfs_super \<Rightarrow> bool" where
  "super_wf sp \<longleftrightarrow> sp_magic sp = SFS_MAGIC \<and> sp_nblocks sp < 2 ^ 32 \<and> length (sp_volname sp) = 32 \<and>
     length (sp_reserved sp) = 472 \<and> sp_volname sp ! 31 = 0"

lemma super_roundtrip:
  assumes "super_wf sp"
  shows "decode_super (encode_super sp) = sp" and "length (encode_super sp) = 512"
proof -
  have "slice (sp_volname sp) 0 32 = sp_volname sp" using assms by (simp add: super_wf_def slice_def)
  then show "decode_super (encode_super sp) = sp" "length (encode_super sp) = 512"
    using assms by (simp_all add: super_wf_def decode_super_def encode_super_def slice_append_simps)
qed

text \<open>The sectors of the superblock and of the free map.\<close>

definition meta_block :: "nat \<Rightarrow> nat \<Rightarrow> bool" where
  "meta_block n b \<longleftrightarrow> b = SFS_SB_LOCATION \<or> SFS_MAP_LOCATION \<le> b \<and> b < SFS_MAP_LOCATION + SFS_BITBLOCKS n"

text \<open>The free map covers the volume, its sectors lie on it, and no loaded inode is in one of them or in the superblock.
  The root directory, in block 1, may be loaded.\<close>

definition volume_ok :: "sfs_fs \<Rightarrow> bool" where
  "volume_ok s \<longleftrightarrow> super_wf (super s) \<and> SFS_MAP_LOCATION + SFS_BITBLOCKS (nblocks s) \<le> nblocks s \<and>
     nbits (sfs_freemap s) = SFS_BITMAPSIZE (nblocks s) \<and>
     (\<forall>v sv. sfs_heap s v = Some sv \<longrightarrow> inode_wf (sv_i sv) \<and> \<not> meta_block (nblocks s) (sv_ino sv))"

text \<open>The disk holds the free map and the superblock that memory has.\<close>

definition disk_map :: "sfs_fs \<Rightarrow> bool" where
  "disk_map s \<longleftrightarrow> (\<forall>j < SFS_BITBLOCKS (nblocks s).
     sector s (SFS_MAP_LOCATION + j) = slice (bm_v (sfs_freemap s)) (j * SFS_BLOCKSIZE) SFS_BLOCKSIZE)"

definition disk_super :: "sfs_fs \<Rightarrow> bool" where
  "disk_super s \<longleftrightarrow> decode_super (sector s SFS_SB_LOCATION) = super s"

lemma volume_facts:
  assumes "fs_quiet s" and "volume_ok s"
  shows "nblocks s < 2 ^ 22" and "length (bm_v (sfs_freemap s)) = SFS_BITBLOCKS (nblocks s) * 512"
    and "2 + SFS_BITBLOCKS (nblocks s) \<le> d_blocks (sfs_device s)"
proof -
  show n: "nblocks s < 2 ^ 22" using assms(1) by (auto simp: fs_quiet_def fs_wf_def disk_wf_def)
  have nb: "nbits (sfs_freemap s) = SFS_BITBLOCKS (nblocks s) * 4096" "nbits (sfs_freemap s) < 2 ^ 23"
    using assms(2) bitmapsize [OF n] by (auto simp: volume_ok_def)
  have "length (bm_v (sfs_freemap s)) = (nbits (sfs_freemap s) + 7) div 8"
    using assms(1) nb(2) DIVROUNDUP_8 [of "nbits (sfs_freemap s)"] by (simp add: fs_quiet_def fs_wf_def bitmap_inv_def)
  with nb(1) show "length (bm_v (sfs_freemap s)) = SFS_BITBLOCKS (nblocks s) * 512" by simp
  show "2 + SFS_BITBLOCKS (nblocks s) \<le> d_blocks (sfs_device s)"
    using assms by (auto simp: volume_ok_def fs_quiet_def fs_wf_def)
qed

text \<open>The map and the superblock go to the disk; nothing else changes there.\<close>

lemma sync_meta_ok:
  assumes q: "fs_quiet s" and vol: "volume_ok s"
    and old: "sfs_freemapdirty s \<or> disk_map s" "sfs_superdirty s \<or> disk_super s"
  shows "\<exists>d. sync_meta (s\<lparr>sfs_held := insert BitLock h\<rparr>) =
      Some (s\<lparr>sfs_held := insert BitLock h, sfs_freemapdirty := False, sfs_superdirty := False, sfs_device := d\<rparr>) \<and>
    disk_quiet d \<and> d_blocks d = d_blocks (sfs_device s) \<and>
    (\<forall>b. \<not> meta_block (nblocks s) b \<longrightarrow> sectors d b = sector s b) \<and>
    disk_map (s\<lparr>sfs_device := d\<rparr>) \<and> disk_super (s\<lparr>sfs_device := d\<rparr>)"
proof -
  note vf = volume_facts [OF q vol]
  define k where "k = SFS_BITBLOCKS (nblocks s)"
  define f1 where "f1 = (if sfs_freemapdirty s then put_map 0 k (bm_v (sfs_freemap s)) (sector s) else sector s)"
  define f2 where "f2 = (if sfs_superdirty s then f1(0 := encode_super (super s)) else f1)"
  define d1 where "d1 = (sfs_device s)\<lparr>sectors := f1\<rparr>"
  define d2 where "d2 = (sfs_device s)\<lparr>sectors := f2\<rparr>"
  have q0: "disk_quiet (sfs_device s)" by (rule fs_quiet_disk [OF q])
  have sw: "super_wf (super s)" using vol by (simp add: volume_ok_def)
  have "length (f1 b) = 512" for b
    using q0 vf(2) by (auto simp: f1_def put_map_def k_def disk_quiet_def disk_wf_def)
  then have q1: "disk_quiet d1" using q0 by (simp add: d1_def disk_quiet_def disk_wf_def)
  let ?s = "s\<lparr>sfs_held := insert BitLock h\<rparr>" and ?s1 = "s\<lparr>sfs_held := insert BitLock h, sfs_freemapdirty := False, sfs_device := d1\<rparr>"
  have one: "(if sfs_freemapdirty ?s then do {
             (r, s) \<leftarrow> sfs_mapio UIO_WRITE ?s;
             case r of Inl e \<Rightarrow> Some s | Inr _ \<Rightarrow> Some (s\<lparr>sfs_freemapdirty := False\<rparr>)
           } else Some ?s) = Some ?s1"
    using mapio_write [of ?s 0 k] q0 vf by (simp add: sfs_mapio_def k_def f1_def d1_def)
  have two: "sfs_superdirty s \<Longrightarrow> wblock (encode_super (super s)) 0 ?s1 = Some (Inr (), ?s1\<lparr>sfs_device := d2\<rparr>)"
    using sfs_wblock_ok [OF q1, of 0 "encode_super (super s)"] super_roundtrip(2) [OF sw] vf(3)
    by (simp add: wblock_def d1_def d2_def f2_def)
  have q2: "disk_quiet d2"
    using q1 super_roundtrip(2) [OF sw] by (simp add: d1_def d2_def f2_def disk_quiet_def disk_wf_def)
  have "sync_meta ?s = Some (?s1\<lparr>sfs_superdirty := False, sfs_device := d2\<rparr>)"
    using two unfolding sync_meta_def one by (cases "sfs_superdirty s") (simp_all add: d2_def f2_def d1_def)
  moreover have "sectors d2 b = sector s b" if "\<not> meta_block (nblocks s) b" for b
    using that by (auto simp: d2_def f2_def f1_def put_map_def meta_block_def k_def)
  moreover have "disk_map (s\<lparr>sfs_device := d2\<rparr>)"
    using old(1) by (auto simp: disk_map_def d2_def f2_def f1_def put_map_def k_def)
  moreover have "disk_super (s\<lparr>sfs_device := d2\<rparr>)"
    using old(2) super_roundtrip(1) [OF sw] by (auto simp: disk_super_def d2_def f2_def f1_def put_map_def)
  ultimately show ?thesis using q2 by (intro exI [of _ d2]) (simp add: k_def d2_def)
qed

text \<open>The first loop of \<^verbatim>\<open>sfs_sync\<close>.\<close>

lemma sync_first:
  assumes "sfs_ready s"
  obtains tmp where "sync_collect 0 (nat (array_getnum (sfs_vnodes s))) \<lparr>a_num = 0, a_max = 0, a_v = None\<rparr>
      (s\<lparr>sfs_held := {VnLock}\<rparr>) = Some (tmp, s\<lparr>sfs_heap := bump (set (vtable s)) (sfs_heap s), sfs_held := {VnLock}\<rparr>)"
    and "array_inv tmp" and "array_list tmp = vtable s"
proof -
  note r = sfs_readyD [OF assms] and t = vtable_okD [OF sfs_readyD(2) [OF assms]]
  let ?l = "vtable s" and ?e = "\<lparr>a_num = 0, a_max = 0, a_v = None\<rparr> :: nat karray" and ?s = "s\<lparr>sfs_held := {VnLock}\<rparr>"
  have num: "nat (array_getnum (sfs_vnodes s)) = length ?l" "length ?l < 2 ^ 29 - 1"
    using karr.getnum_law [OF t(1)] r(3) by (simp_all add: array_getnum_def)
  have e: "array_inv ?e" "array_list ?e = take 0 ?l" by (simp_all add: array_inv_def array_list_def)
  have "\<exists>sv. sfs_heap s v = Some sv \<and> 0 < vn_refcount sv \<and> vn_refcount sv < INT_MAX" if v: "v \<in> set ?l" for v
  proof -
    from v t(3) obtain sv where "sfs_heap s v = Some sv" by blast
    with t(5) [OF this] r(4) [OF this] show ?thesis by (simp add: vnode_ok_def)
  qed
  then have "\<exists>tmp'. sync_collect (int 0) (length ?l) ?e ?s =
      Some (tmp', ?s\<lparr>sfs_heap := bump (set (drop 0 (vtable ?s))) (sfs_heap ?s)\<rparr>) \<and> array_inv tmp' \<and> array_list tmp' = vtable ?s"
    using t(1,2) r(1) e num(2) by (intro sync_collect_ok) (auto simp: fs_quiet_def)
  with that num(1) show thesis by auto
qed

text \<open>The second loop.\<close>

lemma sync_second:
  assumes ready: "sfs_ready s" and held: "sfs_held s = {}" and vol: "volume_ok s"
    and tmp: "array_inv tmp" "array_list tmp = vtable s" and s1_def: "s1 = s\<lparr>sfs_heap := bump (set (vtable s)) (sfs_heap s)\<rparr>"
  obtains s2 where "sync_vnodes 0 (nat (array_getnum tmp)) tmp s1 = Some s2"
    and "fs_quiet s2" and "\<And>v. sfs_heap s2 v = map_option (\<lambda>sv. sv\<lparr>sv_dirty := False\<rparr>) (sfs_heap s v)"
    and "\<And>v sv. sfs_heap s v = Some sv \<Longrightarrow> sv_dirty sv \<Longrightarrow> sector s2 (sv_ino sv) = encode_inode (sv_i sv)"
    and "\<And>b. (\<forall>v sv. sfs_heap s v = Some sv \<longrightarrow> sv_ino sv \<noteq> b) \<Longrightarrow> sector s2 b = sector s b"
    and "super s2 = super s" "sfs_freemap s2 = sfs_freemap s" "sfs_held s2 = {}" "sfs_freemapdirty s2 = sfs_freemapdirty s"
      "sfs_superdirty s2 = sfs_superdirty s"
proof -
  note r = sfs_readyD [OF ready] and t = vtable_okD [OF sfs_readyD(2) [OF ready]]
  let ?l = "vtable s"
  have dom: "v \<in> set ?l \<longleftrightarrow> sfs_heap s v \<noteq> None" for v using t(3) by blast
  have h1: "sfs_heap s1 v = map_option (\<lambda>sv. sv\<lparr>vn_refcount := vn_refcount sv + 1\<rparr>) (sfs_heap s v)" for v
    using dom [of v] by (auto simp: s1_def bump_def)
  have "syncable s1 v" if v: "v \<in> set ?l" for v
  proof -
    from v dom obtain sv where sv: "sfs_heap s v = Some sv" by blast
    then have "inode_wf (sv_i sv)" "vnode_ok s sv" using vol t(5) by (simp_all add: volume_ok_def)
    with sv show ?thesis using held by (simp add: syncable_def h1) (simp add: s1_def vnode_ok_def)
  qed
  moreover have "fs_quiet s1" using r(1) by (simp add: s1_def fs_quiet_def fs_wf_def)
  ultimately have s2: "sync_vnodes 0 (length ?l) tmp s1 = Some (fold sync_one ?l s1)" "fs_quiet (fold sync_one ?l s1)"
    using sync_vnodes_ok [OF tmp(1), of 0 "length ?l" s1] tmp(2) t(2) by simp_all
  have some: "\<forall>v \<in> set ?l. sfs_heap s1 v \<noteq> None" using dom by (simp add: h1)
  have u: "unique_inos (sfs_heap s1)"
    by (rule unique_inosI) (use t(6) in \<open>auto simp: h1\<close>)
  have simps1: "super s1 = super s" "sfs_freemap s1 = sfs_freemap s" "sfs_held s1 = {}" "sfs_freemapdirty s1 = sfs_freemapdirty s"
    "sfs_superdirty s1 = sfs_superdirty s" "sector s1 = sector s" using held by (simp_all add: s1_def)
  show thesis
  proof (rule that [of "fold sync_one ?l s1"])
    show "sync_vnodes 0 (nat (array_getnum tmp)) tmp s1 = Some (fold sync_one ?l s1)"
      using s2(1) karr.getnum_law [OF tmp(1)] tmp(2) by simp
    show "sfs_heap (fold sync_one ?l s1) v = map_option (\<lambda>sv. sv\<lparr>sv_dirty := False\<rparr>) (sfs_heap s v)" for v
      using sync_fold_heap [OF t(2) some, of v] dom [of v] by (cases "sfs_heap s v") (auto simp: h1)
    show "sector (fold sync_one ?l s1) (sv_ino sv) = encode_inode (sv_i sv)" if "sfs_heap s v = Some sv" "sv_dirty sv" for v sv
      using sync_fold_dirty [OF t(2) some u, of v "sv\<lparr>vn_refcount := vn_refcount sv + 1\<rparr>"] that dom [of v] by (simp add: h1)
    show "sector (fold sync_one ?l s1) b = sector s b" if b: "\<forall>v sv. sfs_heap s v = Some sv \<longrightarrow> sv_ino sv \<noteq> b" for b
    proof -
      have "sv_ino sv \<noteq> b" if "sfs_heap s1 v = Some sv" for v sv
      proof -
        from that obtain z where z: "sfs_heap s v = Some z" "sv_ino sv = sv_ino z" by (auto simp: h1)
        from b z(1) have "sv_ino z \<noteq> b" by blast
        with z(2) show ?thesis by simp
      qed
      then show ?thesis using sync_fold_sector [OF t(2) some, of b] simps1(6) by simp
    qed
  qed (simp_all add: s2(2) sync_fold_frame simps1)
qed

lemma sfs_sync_spec:
  assumes "sfs_ready s" and "sfs_held s = {}" and "volume_ok s"
    and "sfs_freemapdirty s \<or> disk_map s" and "sfs_superdirty s \<or> disk_super s"
  shows "\<exists>s'. sfs_sync s = Some (Inr (), s') \<and> fs_quiet s' \<and> sfs_held s' = {} \<and>
    \<not> sfs_freemapdirty s' \<and> \<not> sfs_superdirty s' \<and> disk_map s' \<and> disk_super s' \<and>
    super s' = super s \<and> sfs_freemap s' = sfs_freemap s \<and>
    (\<forall>v. sfs_heap s' v = map_option (\<lambda>sv. sv\<lparr>sv_dirty := False\<rparr>) (sfs_heap s v)) \<and>
    (\<forall>v sv. sfs_heap s v = Some sv \<longrightarrow> sv_dirty sv \<longrightarrow> sector s' (sv_ino sv) = encode_inode (sv_i sv)) \<and>
    (\<forall>b. \<not> meta_block (nblocks s) b \<longrightarrow>
       (\<forall>v sv. sfs_heap s v = Some sv \<longrightarrow> sv_ino sv \<noteq> b) \<longrightarrow> sector s' b = sector s b)"
proof -
  have mem: "sfs_mem s = []" using sfs_readyD(1) [OF assms(1)] by (simp add: fs_quiet_def)
  define s1 where "s1 = s\<lparr>sfs_heap := bump (set (vtable s)) (sfs_heap s)\<rparr>"
  obtain tmp where tmp: "sync_collect 0 (nat (array_getnum (sfs_vnodes s))) \<lparr>a_num = 0, a_max = 0, a_v = None\<rparr>
      (s\<lparr>sfs_held := {VnLock}\<rparr>) = Some (tmp, s\<lparr>sfs_heap := bump (set (vtable s)) (sfs_heap s), sfs_held := {VnLock}\<rparr>)"
    "array_inv tmp" "array_list tmp = vtable s" by (rule sync_first [OF assms(1)])
  obtain s2 where s2: "sync_vnodes 0 (nat (array_getnum tmp)) tmp s1 = Some s2" "fs_quiet s2"
    "\<And>v. sfs_heap s2 v = map_option (\<lambda>sv. sv\<lparr>sv_dirty := False\<rparr>) (sfs_heap s v)"
    "\<And>v sv. sfs_heap s v = Some sv \<Longrightarrow> sv_dirty sv \<Longrightarrow> sector s2 (sv_ino sv) = encode_inode (sv_i sv)"
    "\<And>b. (\<forall>v sv. sfs_heap s v = Some sv \<longrightarrow> sv_ino sv \<noteq> b) \<Longrightarrow> sector s2 b = sector s b"
    "super s2 = super s" "sfs_freemap s2 = sfs_freemap s" "sfs_held s2 = {}" "sfs_freemapdirty s2 = sfs_freemapdirty s"
    "sfs_superdirty s2 = sfs_superdirty s"
    using sync_second [OF assms(1-3) tmp(2,3) s1_def] by blast
  have inos: "sfs_heap s v = Some sv \<Longrightarrow> inode_wf (sv_i sv) \<and> \<not> meta_block (nblocks s) (sv_ino sv)" for v sv
    using assms(3) by (simp add: volume_ok_def)
  have low: "sector s2 b = sector s b" if "meta_block (nblocks s) b" for b
  proof (rule s2(5), intro allI impI)
    fix v sv assume "sfs_heap s v = Some sv"
    from inos [OF this] that show "sv_ino sv \<noteq> b" by blast
  qed
  have vol2: "volume_ok s2" using assms(3) s2(3,6,7) by (auto simp: volume_ok_def)
  have old2: "sfs_freemapdirty s2 \<or> disk_map s2" "sfs_superdirty s2 \<or> disk_super s2"
    using assms(4,5) s2(6,7,9,10) low by (auto simp: disk_map_def disk_super_def meta_block_def)
  from sync_meta_ok [OF s2(2) vol2 old2, of "{}"] obtain d where
    d: "sync_meta (s2\<lparr>sfs_held := {BitLock}\<rparr>) =
        Some (s2\<lparr>sfs_held := {BitLock}, sfs_freemapdirty := False, sfs_superdirty := False, sfs_device := d\<rparr>)"
      "disk_quiet d" "d_blocks d = d_blocks (sfs_device s2)"
      "\<And>b. \<not> meta_block (nblocks s2) b \<Longrightarrow> sectors d b = sector s2 b"
      "disk_map (s2\<lparr>sfs_device := d\<rparr>)" "disk_super (s2\<lparr>sfs_device := d\<rparr>)" by auto
  define s3 where "s3 = s2\<lparr>sfs_held := {}, sfs_freemapdirty := False, sfs_superdirty := False, sfs_device := d\<rparr>"
  have hs: "s1\<lparr>sfs_held := {}\<rparr> = s1" using assms(2) by (simp add: s1_def)
  have m0: "s\<lparr>sfs_mem := []\<rparr> = s" using mem by (cases s) simp
  have "sfs_sync s = Some (Inr (), s3)"
    using mem assms(2) tmp(1) s2(1,8) d(1)
    by (simp add: sfs_sync_def array_create_def s1_def s3_def m0 hs [unfolded s1_def])
  moreover have "fs_quiet s3" using s2(2) d(2,3) by (simp add: s3_def fs_quiet_def fs_wf_def disk_quiet_def)
  moreover have "disk_map s3" "disk_super s3" using d(5,6) by (simp_all add: s3_def disk_map_def disk_super_def)
  moreover have "sector s3 b = sector s2 b" if "\<not> meta_block (nblocks s) b" for b
    using d(4) [of b] that s2(6) by (simp add: s3_def)
  then have "\<forall>v sv. sfs_heap s v = Some sv \<longrightarrow> sv_dirty sv \<longrightarrow> sector s3 (sv_ino sv) = encode_inode (sv_i sv)"
    "\<forall>b. \<not> meta_block (nblocks s) b \<longrightarrow> (\<forall>v sv. sfs_heap s v = Some sv \<longrightarrow> sv_ino sv \<noteq> b) \<longrightarrow> sector s3 b = sector s b"
    using s2(4,5) inos by simp_all
  moreover have "sfs_held s3 = {}" "\<not> sfs_freemapdirty s3" "\<not> sfs_superdirty s3" "super s3 = super s" "sfs_freemap s3 = sfs_freemap s"
    "\<forall>v. sfs_heap s3 v = map_option (\<lambda>sv. sv\<lparr>sv_dirty := False\<rparr>) (sfs_heap s v)"
    using s2(3,6,7) by (simp_all add: s3_def)
  ultimately show ?thesis by (intro exI [of _ s3]) simp
qed


section \<open>Mounting\<close>

lemma bitmap_create_bytes:
  assumes "n mod 8 = 0" and "n < 2 ^ 23"
  shows "bitmap_create n [] = Some (Some \<lparr>nbits = n, bm_v = replicate (n div 8) 0\<rparr>, [])"
proof -
  have "DIVROUNDUP n 8 = (n + 7) div 8" using assms(2) by (intro DIVROUNDUP_8) simp
  moreover have "(n + 7) div 8 = n div 8" using assms(1) round_up_div [of 8 n] by simp
  ultimately show ?thesis by (simp add: bitmap_create_def)
qed

lemma domount_ok:
  assumes q: "fs_quiet s" and vol: "volume_ok s" and disk: "disk_map s" "disk_super s"
  shows "sfs_domount SFS_BLOCKSIZE (sfs_device s) [] =
    Some (Inr \<lparr>super = super s, sfs_superdirty = False, sfs_device = sfs_device s,
       sfs_vnodes = \<lparr>a_num = 0, a_max = 0, a_v = None\<rparr>, sfs_freemap = sfs_freemap s, sfs_freemapdirty = False,
       sfs_heap = Map.empty, sfs_fresh = 0, sfs_held = {}, sfs_mem = []\<rparr>, sfs_device s, [])"
proof -
  note vf = volume_facts [OF q vol] and q0 = fs_quiet_disk [OF q]
  let ?k = "SFS_BITBLOCKS (nblocks s)"
  have sw: "super_wf (super s)" and nb: "nbits (sfs_freemap s) = SFS_BITMAPSIZE (nblocks s)" using vol by (simp_all add: volume_ok_def)
  have vn: "super s\<lparr>sp_volname := (sp_volname (super s))[31 := 0]\<rparr> = super s"
    using sw list_update_id [of "sp_volname (super s)" 31] by (simp add: super_wf_def)
  have sb: "sfs_rblock 0 (sfs_device s) = Some (Inr (sector s 0), sfs_device s)"
    using vf(3) by (intro sfs_rblock_ok [OF q0]) simp
  have bm: "bitmap_create (SFS_BITMAPSIZE (nblocks s)) [] =
      Some (Some \<lparr>nbits = SFS_BITMAPSIZE (nblocks s), bm_v = replicate (?k * 512) 0\<rparr>, [])"
    using bitmap_create_bytes [of "SFS_BITMAPSIZE (nblocks s)"] bitmapsize [OF vf(1)] by simp
  define s0 where "s0 = \<lparr>super = super s, sfs_superdirty = False, sfs_device = sfs_device s,
       sfs_vnodes = \<lparr>a_num = 0, a_max = 0, a_v = None\<rparr>, sfs_freemap = \<lparr>nbits = SFS_BITMAPSIZE (nblocks s), bm_v = replicate (?k * 512) 0\<rparr>,
       sfs_freemapdirty = False, sfs_heap = Map.empty, sfs_fresh = 0, sfs_held = {VnLock, BitLock}, sfs_mem = []\<rparr>"
  have "mapio_loop UIO_READ 0 ?k s0 = Some (Inr (), s0\<lparr>sfs_freemap := (sfs_freemap s0)\<lparr>bm_v := bm_v (sfs_freemap s)\<rparr>\<rparr>)"
    using q0 vf(2,3) disk(1) by (intro mapio_read) (simp_all add: s0_def disk_map_def)
  moreover have "(sfs_freemap s0)\<lparr>bm_v := bm_v (sfs_freemap s)\<rparr> = sfs_freemap s" using nb by (simp add: s0_def)
  ultimately have "sfs_mapio UIO_READ s0 = Some (Inr (), s0\<lparr>sfs_freemap := sfs_freemap s\<rparr>)"
    by (simp add: sfs_mapio_def) (simp add: s0_def)
  moreover have "decode_super (sector s 0) = super s" "sp_magic (super s) = SFS_MAGIC"
    using disk(2) sw by (simp_all add: disk_super_def super_wf_def)
  ultimately show ?thesis using sb bm vn
    by (simp add: sfs_domount_def array_create_def mount_lock_def domount_load_def s0_def [symmetric]) (simp add: s0_def insert_Diff_if)
qed

section \<open>Properties\<close>

text \<open>\<^verbatim>\<open>sfs_sync\<close> on a healthy disk returns 0 and leaves nothing unwritten: the inode of every dirty vnode, the
  free map and the superblock are on the disk, and no dirty mark is left. The vnodes in memory have the
  references and the inodes they had, every other sector is as before, and no lock is kept.\<close>

theorem sfs_sync_correct:
  assumes "sfs_ready s" and "sfs_held s = {}" and "volume_ok s"
    and "sfs_freemapdirty s \<or> disk_map s" and "sfs_superdirty s \<or> disk_super s"
  shows "\<exists>s'. sfs_sync s = Some (Inr (), s') \<and> fs_quiet s' \<and> sfs_held s' = {} \<and>
    \<not> sfs_freemapdirty s' \<and> \<not> sfs_superdirty s' \<and> disk_map s' \<and> disk_super s' \<and>
    super s' = super s \<and> sfs_freemap s' = sfs_freemap s \<and>
    (\<forall>v. sfs_heap s' v = map_option (\<lambda>sv. sv\<lparr>sv_dirty := False\<rparr>) (sfs_heap s v)) \<and>
    (\<forall>v sv. sfs_heap s v = Some sv \<longrightarrow> sv_dirty sv \<longrightarrow> sector s' (sv_ino sv) = encode_inode (sv_i sv)) \<and>
    (\<forall>b. \<not> meta_block (nblocks s) b \<longrightarrow>
       (\<forall>v sv. sfs_heap s v = Some sv \<longrightarrow> sv_ino sv \<noteq> b) \<longrightarrow> sector s' b = sector s b)"
  by (rule sfs_sync_spec [OF assms])

text \<open>C12: nothing is lost between \<^verbatim>\<open>sfs_sync\<close> and the next mount. Mounting the disk that \<^verbatim>\<open>sfs_sync\<close> leaves succeeds, with
  the same superblock and the same free map, an empty vnode table and no lock held; the inode of
  every loaded file and directory that was dirty, the root directory included, reads back from the disk as it was in memory. The
  sectors that hold neither the superblock, nor the free map, nor a loaded inode have the contents they had.\<close>

theorem sfs_remount_roundtrip:
  assumes "sfs_ready s" and "sfs_held s = {}" and "volume_ok s"
    and "sfs_freemapdirty s \<or> disk_map s" and "sfs_superdirty s \<or> disk_super s"
  shows "\<exists>s' s''. sfs_sync s = Some (Inr (), s') \<and>
    sfs_domount SFS_BLOCKSIZE (sfs_device s') [] = Some (Inr s'', sfs_device s', []) \<and>
    super s'' = super s \<and> sfs_freemap s'' = sfs_freemap s \<and> sfs_heap s'' = Map.empty \<and> sfs_held s'' = {} \<and>
    (\<forall>v sv. sfs_heap s v = Some sv \<longrightarrow> sv_dirty sv \<longrightarrow> decode_inode (sector s'' (sv_ino sv)) = sv_i sv) \<and>
    (\<forall>b. \<not> meta_block (nblocks s) b \<longrightarrow> (\<forall>v sv. sfs_heap s v = Some sv \<longrightarrow> sv_ino sv \<noteq> b) \<longrightarrow> sector s'' b = sector s b)"
proof -
  from sfs_sync_spec [OF assms] obtain s' where s': "sfs_sync s = Some (Inr (), s')" "fs_quiet s'" "disk_map s'" "disk_super s'"
    "super s' = super s" "sfs_freemap s' = sfs_freemap s"
    "\<And>v. sfs_heap s' v = map_option (\<lambda>sv. sv\<lparr>sv_dirty := False\<rparr>) (sfs_heap s v)"
    "\<And>v sv. sfs_heap s v = Some sv \<Longrightarrow> sv_dirty sv \<Longrightarrow> sector s' (sv_ino sv) = encode_inode (sv_i sv)"
    "\<forall>b. \<not> meta_block (nblocks s) b \<longrightarrow> (\<forall>v sv. sfs_heap s v = Some sv \<longrightarrow> sv_ino sv \<noteq> b) \<longrightarrow> sector s' b = sector s b" by blast
  have vol: "volume_ok s'" using assms(3) s'(5-7) by (auto simp: volume_ok_def)
  have "decode_inode (sector s' (sv_ino sv)) = sv_i sv" if "sfs_heap s v = Some sv" "sv_dirty sv" for v sv
    using s'(8) [OF that] assms(3) that(1) by (simp add: volume_ok_def decode_inode_encode)
  with domount_ok [OF s'(2) vol s'(3,4)] s'(1,5,6,9) show ?thesis by simp
qed

text \<open>A volume of 8 blocks with the free map in block 2 and the root directory loaded; everything is dirty.\<close>

definition demo_vol :: sfs_fs where
  "demo_vol = demo_fs\<lparr>sfs_superdirty := True, sfs_freemapdirty := True,
     sfs_freemap := \<lparr>nbits = 4096, bm_v = 0x0F # replicate 511 (- 1)\<rparr>,
     sfs_heap := [0 \<mapsto> demo_vnode\<lparr>sv_i := (demo_inode 2)\<lparr>sfi_type := SFS_TYPE_DIR\<rparr>, sv_ino := SFS_ROOT_LOCATION, sv_dirty := True\<rparr>]\<rparr>"

lemma demo_vol_simps:
  "sfs_held demo_vol = {}" "super demo_vol = super demo_fs" "nblocks demo_vol = 8" "sfs_vnodes demo_vol = sfs_vnodes demo_fs"
  "sfs_heap demo_vol v = Some sv \<longleftrightarrow> v = 0 \<and> sv = demo_vnode\<lparr>sv_i := (demo_inode 2)\<lparr>sfi_type := SFS_TYPE_DIR\<rparr>, sv_ino := SFS_ROOT_LOCATION, sv_dirty := True\<rparr>"
  "sfs_fresh demo_vol = 1" "SFS_BITBLOCKS 8 = 1" "SFS_BITMAPSIZE 8 = 4096"
  by (auto simp: demo_vol_def demo_fs_def SFS_BITBLOCKS_def SFS_BITMAPSIZE_def)

lemma demo_vol_used: "i \<in> used demo_vol \<longleftrightarrow> i < 4096 \<and> (i < 8 \<longrightarrow> i < 4)"
proof (cases "i < 8")
  case True
  have "(0x0F :: 8 word) = mask 4" by (simp add: mask_eq_exp_minus_1)
  then have "bit (0x0F :: 8 word) i \<longleftrightarrow> i < 4" by (simp only: bit_mask_iff) auto
  with True show ?thesis by (simp add: bitmap_set_def bm_bit_def demo_vol_def)
next
  case False
  then have "(0x0F # replicate 511 (- 1)) ! (i div 8) = (- 1 :: 8 word)" if "i < 4096"
    using that by (simp add: nth_Cons')
  with False show ?thesis by (auto simp: bitmap_set_def bm_bit_def demo_vol_def)
qed

lemma demo_vol_quiet: "fs_quiet demo_vol"
proof -
  have dev: "disk_wf (sfs_device demo_vol)" "d_blocks (sfs_device demo_vol) = 8" "lh_status (sfs_device demo_vol) = []"
    "sfs_mem demo_vol = []" using demo_quiet by (auto simp: demo_vol_def demo_fs_def fs_quiet_def fs_wf_def)
  have "bitmap_inv (sfs_freemap demo_vol)" "nbits (sfs_freemap demo_vol) = 4096"
    by (simp_all add: demo_vol_def bitmap_inv_def DIVROUNDUP_def)
  moreover have "{8..<4096} \<subseteq> used demo_vol" "0 \<in> used demo_vol" by (auto simp: demo_vol_used)
  ultimately show ?thesis using dev by (simp add: fs_quiet_def fs_wf_def demo_vol_simps)
qed

lemma demo_vol_ready: "sfs_ready demo_vol"
proof -
  have "unique_inos (sfs_heap demo_vol)" by (rule unique_inosI) (simp add: demo_vol_simps)
  moreover have "vnode_ok demo_vol sv" if "sfs_heap demo_vol v = Some sv" for v sv
    using that demo_vol_used [of 1] by (auto simp: demo_vol_simps vnode_ok_def demo_vnode_def)
  moreover have "array_inv (sfs_vnodes demo_vol)" "vtable demo_vol = [0]" "a_num (sfs_vnodes demo_vol) = 1"
    by (simp_all add: demo_vol_simps) (simp_all add: demo_fs_def array_inv_def array_list_def)
  moreover have "dom (sfs_heap demo_vol) = {0}" by (auto simp: dom_def demo_vol_simps)
  ultimately have "vtable_ok demo_vol" unfolding vtable_ok_def by (auto simp: demo_vol_simps)
  with demo_vol_quiet \<open>a_num (sfs_vnodes demo_vol) = 1\<close> show ?thesis
    by (auto simp: sfs_ready_def demo_vol_simps demo_vnode_def)
qed

lemma demo_vol_ok: "volume_ok demo_vol"
proof -
  have "super_wf (super demo_vol)" by (simp add: demo_vol_simps) (simp add: super_wf_def demo_fs_def)
  moreover have "nbits (sfs_freemap demo_vol) = 4096" by (simp add: demo_vol_def)
  ultimately show ?thesis using demo_inode_wf by (auto simp: volume_ok_def demo_vol_simps demo_vnode_def meta_block_def inode_wf_def)
qed

lemma demo_vol_dirty: "sfs_freemapdirty demo_vol" "sfs_superdirty demo_vol"
  "sfs_heap demo_vol 0 = Some (demo_vnode\<lparr>sv_i := (demo_inode 2)\<lparr>sfi_type := SFS_TYPE_DIR\<rparr>, sv_ino := SFS_ROOT_LOCATION, sv_dirty := True\<rparr>)"
  by (simp_all add: demo_vol_def)

theorem sfs_sync_correct_witness:
  "\<exists>s'. sfs_sync demo_vol = Some (Inr (), s') \<and> \<not> sfs_freemapdirty s' \<and> sector s' SFS_ROOT_LOCATION = encode_inode ((demo_inode 2)\<lparr>sfi_type := SFS_TYPE_DIR\<rparr>)"
  using sfs_sync_correct [OF demo_vol_ready demo_vol_simps(1) demo_vol_ok] demo_vol_dirty by fastforce

theorem sfs_remount_roundtrip_witness:
  "\<exists>s' s''. sfs_sync demo_vol = Some (Inr (), s') \<and>
     sfs_domount 512 (sfs_device s') [] = Some (Inr s'', sfs_device s', []) \<and> sfs_freemap s'' = sfs_freemap demo_vol \<and>
     decode_inode (sector s'' SFS_ROOT_LOCATION) = (demo_inode 2)\<lparr>sfi_type := SFS_TYPE_DIR\<rparr>"
  using sfs_remount_roundtrip [OF demo_vol_ready demo_vol_simps(1) demo_vol_ok] demo_vol_dirty by fastforce

end
