(* ===== verification/K_Vfs.thy ===== *)
theory K_Vfs
  imports K_Array K_Sfs_Ops
begin

text \<open>
  The VFS layer: pathname translation (\<^verbatim>\<open>kern/fs/vfs/vfslookup.c\<close>), the work of the path-based system
  calls (\<^verbatim>\<open>kern/fs/vfs/vfspath.c\<close>), the current directory (\<^verbatim>\<open>kern/fs/vfs/vfscwd.c\<close>) and the table of named
  devices (\<^verbatim>\<open>kern/fs/vfs/vfslist.c\<close>).

  The layer calls vnodes and file systems through function tables (\<^verbatim>\<open>struct vnode_ops\<close> in
  \<^verbatim>\<open>kern/include/vnode.h\<close>, \<^verbatim>\<open>struct fs\<close> in \<^verbatim>\<open>kern/include/fs.h\<close>). The record \<open>vnops\<close> is such a table over a state
  \<open>'w\<close> of everything below; vnodes and file systems are addresses. Every definition takes the
  table as its first argument.
\<close>

section \<open>Function tables\<close>

record 'w vnops =
  vop_open :: "nat \<Rightarrow> int \<Rightarrow> 'w \<Rightarrow> (unit res \<times> 'w) option"
  vop_read :: "nat \<Rightarrow> uio \<Rightarrow> 'w \<Rightarrow> (unit res \<times> uio \<times> 'w) option"
  vop_readlink :: "nat \<Rightarrow> uio \<Rightarrow> 'w \<Rightarrow> (unit res \<times> uio \<times> 'w) option"
  vop_getdirentry :: "nat \<Rightarrow> uio \<Rightarrow> 'w \<Rightarrow> (unit res \<times> uio \<times> 'w) option"
  vop_write :: "nat \<Rightarrow> uio \<Rightarrow> 'w \<Rightarrow> (unit res \<times> uio \<times> 'w) option"
  vop_stat :: "nat \<Rightarrow> 'w \<Rightarrow> (stat res \<times> 'w) option"
  vop_gettype :: "nat \<Rightarrow> 'w \<Rightarrow> (nat res \<times> 'w) option"
  vop_tryseek :: "nat \<Rightarrow> int \<Rightarrow> 'w \<Rightarrow> (unit res \<times> 'w) option"
  vop_truncate :: "nat \<Rightarrow> int \<Rightarrow> 'w \<Rightarrow> (unit res \<times> 'w) option"
  vop_namefile :: "nat \<Rightarrow> uio \<Rightarrow> 'w \<Rightarrow> (unit res \<times> uio \<times> 'w) option"
  vop_creat :: "nat \<Rightarrow> byte list \<Rightarrow> bool \<Rightarrow> 'w \<Rightarrow> (nat res \<times> 'w) option"
  vop_symlink :: "nat \<Rightarrow> byte list \<Rightarrow> byte list \<Rightarrow> 'w \<Rightarrow> (unit res \<times> 'w) option"
  vop_mkdir :: "nat \<Rightarrow> byte list \<Rightarrow> 'w \<Rightarrow> (unit res \<times> 'w) option"
  vop_link :: "nat \<Rightarrow> byte list \<Rightarrow> nat \<Rightarrow> 'w \<Rightarrow> (unit res \<times> 'w) option"
  vop_remove :: "nat \<Rightarrow> byte list \<Rightarrow> 'w \<Rightarrow> (unit res \<times> 'w) option"
  vop_rmdir :: "nat \<Rightarrow> byte list \<Rightarrow> 'w \<Rightarrow> (unit res \<times> 'w) option"
  vop_rename :: "nat \<Rightarrow> byte list \<Rightarrow> nat \<Rightarrow> byte list \<Rightarrow> 'w \<Rightarrow> (unit res \<times> 'w) option"
  vop_lookup :: "nat \<Rightarrow> byte list \<Rightarrow> 'w \<Rightarrow> (nat res \<times> 'w) option"
  vop_lookparent :: "nat \<Rightarrow> byte list \<Rightarrow> nat \<Rightarrow> 'w \<Rightarrow> ((nat \<times> byte list) res \<times> 'w) option"
  vop_incref :: "nat \<Rightarrow> 'w \<Rightarrow> 'w option"
  vop_decref :: "nat \<Rightarrow> 'w \<Rightarrow> 'w option"
  vop_incopen :: "nat \<Rightarrow> 'w \<Rightarrow> 'w option"
  vop_decopen :: "nat \<Rightarrow> 'w \<Rightarrow> 'w option"
  vn_fs :: "nat \<Rightarrow> 'w \<Rightarrow> nat option"
  fsop_sync :: "nat \<Rightarrow> 'w \<Rightarrow> (unit res \<times> 'w) option"
  fsop_getvolname :: "nat \<Rightarrow> 'w \<Rightarrow> byte list option"
  fsop_getroot :: "nat \<Rightarrow> 'w \<Rightarrow> (nat \<times> 'w) option"
  fsop_unmount :: "nat \<Rightarrow> 'w \<Rightarrow> (unit res \<times> 'w) option"
  dev_create_vnode :: "nat option \<Rightarrow> 'w \<Rightarrow> (nat option \<times> 'w) option"

section \<open>State\<close>

text \<open>\<open>kd_device\<close> and \<open>kd_fs\<close> are addresses of the objects below.\<close>

record knowndev =
  kd_name :: "byte list"
  kd_rawname :: "byte list option"
  kd_device :: "nat option"
  kd_vnode :: nat
  kd_fs :: "nat option"

text \<open>\<open>vfs_w\<close> is everything below the layer, \<open>t_cwd\<close> the field of the running thread. \<open>bootfs_lock\<close> is held
  only around single reads and writes of \<open>bootfs_vnode\<close> and is left out.\<close>

record 'w vfs =
  vfs_w :: 'w
  knowndevs :: "knowndev karray"
  knowndevs_locked :: bool
  bootfs_vnode :: "nat option"
  t_cwd :: "nat option"
  vfs_mem :: kmem

abbreviation (input) S_IFMT :: nat where "S_IFMT \<equiv> 28672"
abbreviation (input) NAME_MAX :: nat where "NAME_MAX \<equiv> 255"

text \<open>An operation of the table, applied to the state below.\<close>

definition below :: "('w \<Rightarrow> ('a \<times> 'w) option) \<Rightarrow> 'w vfs \<Rightarrow> ('a \<times> 'w vfs) option" where
  "below f s = do { (r, w) \<leftarrow> f (vfs_w s); Some (r, s\<lparr>vfs_w := w\<rparr>) }"

definition below0 :: "('w \<Rightarrow> 'w option) \<Rightarrow> 'w vfs \<Rightarrow> 'w vfs option" where
  "below0 f s = do { w \<leftarrow> f (vfs_w s); Some (s\<lparr>vfs_w := w\<rparr>) }"

definition devs_lock :: "'w vfs \<Rightarrow> 'w vfs option" where
  "devs_lock s = do { kassert (\<not> knowndevs_locked s); Some (s\<lparr>knowndevs_locked := True\<rparr>) }"

definition devs_unlock :: "'w vfs \<Rightarrow> 'w vfs option" where
  "devs_unlock s = do { kassert (knowndevs_locked s); Some (s\<lparr>knowndevs_locked := False\<rparr>) }"

section \<open>Named devices\<close>

text \<open>The loop of \<^verbatim>\<open>vfs_getroot\<close>: \<open>k\<close> devices are left, beginning with number \<open>i\<close>.\<close>

fun getroot_loop :: "'w vnops \<Rightarrow> byte list \<Rightarrow> int \<Rightarrow> nat \<Rightarrow> 'w vfs \<Rightarrow> (nat res \<times> 'w vfs) option" where
  "getroot_loop ops devname i 0 s = Some (Inl ENODEV, s)"
| "getroot_loop ops devname i (Suc k) s = do {
     kd \<leftarrow> array_getguy (knowndevs s) i;
     let named = (kd_name kd = devname);
     case kd_fs kd of
       Some fs \<Rightarrow>
         if named \<or> fsop_getvolname ops fs (vfs_w s) = Some devname then do {
           (v, s) \<leftarrow> below (fsop_getroot ops fs) s;
           Some (Inr v, s)
         }
         else if kd_rawname kd = Some devname then do {
           kassert (kd_device kd \<noteq> None);
           s \<leftarrow> below0 (vop_incref ops (kd_vnode kd)) s;
           Some (Inr (kd_vnode kd), s)
         }
         else getroot_loop ops devname (i + 1) k s
     | None \<Rightarrow>
         if kd_rawname kd \<noteq> None \<and> named then Some (Inl ENXIO, s)
         else if named \<or> kd_rawname kd = Some devname then do {
           kassert (kd_device kd \<noteq> None);
           s \<leftarrow> below0 (vop_incref ops (kd_vnode kd)) s;
           Some (Inr (kd_vnode kd), s)
         }
         else getroot_loop ops devname (i + 1) k s
   }"

definition vfs_getroot :: "'w vnops \<Rightarrow> byte list \<Rightarrow> 'w vfs \<Rightarrow> (nat res \<times> 'w vfs) option" where
  "vfs_getroot ops devname s = do {
     s \<leftarrow> devs_lock s;
     (r, s) \<leftarrow> getroot_loop ops devname 0 (nat (array_getnum (knowndevs s))) s;
     s \<leftarrow> devs_unlock s;
     Some (r, s)
   }"

fun sync_loop :: "'w vnops \<Rightarrow> int \<Rightarrow> nat \<Rightarrow> 'w vfs \<Rightarrow> 'w vfs option" where
  "sync_loop ops i 0 s = Some s"
| "sync_loop ops i (Suc k) s = do {
     dev \<leftarrow> array_getguy (knowndevs s) i;
     s \<leftarrow> (case kd_fs dev of
        None \<Rightarrow> Some s
      | Some fs \<Rightarrow> do { (r, s) \<leftarrow> below (fsop_sync ops fs) s; Some s });
     sync_loop ops (i + 1) k s
   }"

definition vfs_sync :: "'w vnops \<Rightarrow> 'w vfs \<Rightarrow> 'w vfs option" where
  "vfs_sync ops s = do {
     s \<leftarrow> devs_lock s;
     s \<leftarrow> sync_loop ops 0 (nat (array_getnum (knowndevs s))) s;
     devs_unlock s
   }"

fun devname_loop :: "nat \<Rightarrow> int \<Rightarrow> nat \<Rightarrow> knowndev karray \<Rightarrow> byte list option option" where
  "devname_loop fs i 0 devs = Some None"
| "devname_loop fs i (Suc k) devs = do {
     kd \<leftarrow> array_getguy devs i;
     if kd_fs kd = Some fs then Some (Some (kd_name kd)) else devname_loop fs (i + 1) k devs
   }"

text \<open>The result is a null pointer when no device has the file system.\<close>

definition vfs_getdevname :: "nat \<Rightarrow> 'w vfs \<Rightarrow> (byte list option \<times> 'w vfs) option" where
  "vfs_getdevname fs s = do {
     s \<leftarrow> devs_lock s;
     name \<leftarrow> devname_loop fs 0 (nat (array_getnum (knowndevs s))) (knowndevs s);
     s \<leftarrow> devs_unlock s;
     Some (name, s)
   }"

definition mkrawname :: "byte list \<Rightarrow> kmem \<Rightarrow> byte list option \<times> kmem" where
  "mkrawname name m = (case kmalloc m of (ok, m) \<Rightarrow> (if ok then Some (name @ [114, 97, 119]) else None, m))"

text \<open>\<open>None\<close> is the null pointer.\<close>

definition samestring :: "byte list option \<Rightarrow> byte list option \<Rightarrow> bool" where
  "samestring a b \<longleftrightarrow> a \<noteq> None \<and> b \<noteq> None \<and> a = b"

definition samestring3 :: "byte list option \<Rightarrow> byte list option \<Rightarrow> byte list option \<Rightarrow> byte list option \<Rightarrow> bool" where
  "samestring3 a b c d \<longleftrightarrow> samestring a b \<or> samestring a c \<or> samestring a d"

fun badnames_loop :: "'w vnops \<Rightarrow> byte list option \<Rightarrow> byte list option \<Rightarrow> byte list option \<Rightarrow> int \<Rightarrow> nat \<Rightarrow> 'w vfs \<Rightarrow>
    bool option" where
  "badnames_loop ops n1 n2 n3 i 0 s = Some False"
| "badnames_loop ops n1 n2 n3 i (Suc k) s = do {
     kd \<leftarrow> array_getguy (knowndevs s) i;
     if (case kd_fs kd of None \<Rightarrow> False | Some fs \<Rightarrow> samestring3 (fsop_getvolname ops fs (vfs_w s)) n1 n2 n3) then Some True
     else if samestring3 (kd_rawname kd) n1 n2 n3 \<or> samestring3 (Some (kd_name kd)) n1 n2 n3 then Some True
     else badnames_loop ops n1 n2 n3 (i + 1) k s
   }"

definition badnames :: "'w vnops \<Rightarrow> byte list option \<Rightarrow> byte list option \<Rightarrow> byte list option \<Rightarrow> 'w vfs \<Rightarrow> bool option" where
  "badnames ops n1 n2 n3 s = do {
     kassert (knowndevs_locked s);
     badnames_loop ops n1 n2 n3 0 (nat (array_getnum (knowndevs s))) s
   }"

definition vfs_doadd :: "'w vnops \<Rightarrow> byte list \<Rightarrow> bool \<Rightarrow> nat option \<Rightarrow> nat option \<Rightarrow> 'w vfs \<Rightarrow> (unit res \<times> 'w vfs) option" where
  "vfs_doadd ops dname mountable dev fs s =
     (case kmalloc (vfs_mem s) of (ok, m) \<Rightarrow>
        if \<not> ok then Some (Inl ENOMEM, s\<lparr>vfs_mem := m\<rparr>)
        else case (if mountable then mkrawname dname m else (None, m)) of (rawname, m) \<Rightarrow>
          if mountable \<and> rawname = None then Some (Inl ENOMEM, s\<lparr>vfs_mem := m\<rparr>)
          else do {
            (vn, s) \<leftarrow> below (dev_create_vnode ops dev) (s\<lparr>vfs_mem := m\<rparr>);
            case vn of
              None \<Rightarrow> Some (Inl ENOMEM, s)
            | Some v \<Rightarrow>
                case kmalloc (vfs_mem s) of (ok, m) \<Rightarrow>
                  if \<not> ok then Some (Inl ENOMEM, s\<lparr>vfs_mem := m\<rparr>)
                  else do {
                    let kd = \<lparr>kd_name = dname, kd_rawname = rawname, kd_device = dev, kd_vnode = v, kd_fs = fs\<rparr>;
                    let volname = (case fs of None \<Rightarrow> None | Some f \<Rightarrow> fsop_getvolname ops f (vfs_w s));
                    s \<leftarrow> devs_lock (s\<lparr>vfs_mem := m\<rparr>);
                    bad \<leftarrow> badnames ops (Some dname) rawname volname s;
                    (r, s) \<leftarrow> (if \<not> bad then do {
                        (r, a, m) \<leftarrow> array_add (knowndevs s) kd (vfs_mem s);
                        Some (r, s\<lparr>knowndevs := a, vfs_mem := m\<rparr>)
                      }
                      else Some (Inl EEXIST, s));
                    s \<leftarrow> devs_unlock s;
                    Some (r, s)
                  }
          })"

definition vfs_adddev :: "'w vnops \<Rightarrow> byte list \<Rightarrow> nat \<Rightarrow> bool \<Rightarrow> 'w vfs \<Rightarrow> (unit res \<times> 'w vfs) option" where
  "vfs_adddev ops devname dev mountable s = vfs_doadd ops devname mountable (Some dev) None s"

definition vfs_addfs :: "'w vnops \<Rightarrow> byte list \<Rightarrow> nat \<Rightarrow> 'w vfs \<Rightarrow> (unit res \<times> 'w vfs) option" where
  "vfs_addfs ops devname fs s = vfs_doadd ops devname False None (Some fs) s"

text \<open>The loop of \<^verbatim>\<open>findmount\<close>; the result is the index of the device.\<close>

fun findmount_loop :: "byte list \<Rightarrow> int \<Rightarrow> nat \<Rightarrow> knowndev karray \<Rightarrow> int res option" where
  "findmount_loop devname i 0 devs = Some (Inl ENODEV)"
| "findmount_loop devname i (Suc k) devs = do {
     dev \<leftarrow> array_getguy devs i;
     if kd_rawname dev \<noteq> None \<and> kd_name dev = devname then Some (Inr i)
     else findmount_loop devname (i + 1) k devs
   }"

definition findmount :: "byte list \<Rightarrow> 'w vfs \<Rightarrow> int res option" where
  "findmount devname s = do {
     kassert (knowndevs_locked s);
     findmount_loop devname 0 (nat (array_getnum (knowndevs s))) (knowndevs s)
   }"

text \<open>\<^verbatim>\<open>kd->kd_fs = fs\<close> for the device with index \<open>i\<close>.\<close>

definition set_fs :: "int \<Rightarrow> nat option \<Rightarrow> 'w vfs \<Rightarrow> 'w vfs option" where
  "set_fs i fs s = do {
     kd \<leftarrow> array_getguy (knowndevs s) i;
     a \<leftarrow> array_setguy (knowndevs s) i (kd\<lparr>kd_fs := fs\<rparr>);
     Some (s\<lparr>knowndevs := a\<rparr>)
   }"

definition devs_fail :: "errno \<Rightarrow> 'w vfs \<Rightarrow> (unit res \<times> 'w vfs) option" where
  "devs_fail e s = do { s \<leftarrow> devs_unlock s; Some (Inl e, s) }"

text \<open>\<open>mountfunc\<close> makes a file system on a device.\<close>

definition vfs_mount :: "(nat \<Rightarrow> 'w \<Rightarrow> (nat res \<times> 'w) option) \<Rightarrow> byte list \<Rightarrow> 'w vfs \<Rightarrow> (unit res \<times> 'w vfs) option" where
  "vfs_mount mountfunc devname s = do {
     s \<leftarrow> devs_lock s;
     r \<leftarrow> findmount devname s;
     case r of
       Inl e \<Rightarrow> devs_fail e s
     | Inr i \<Rightarrow> do {
         kd \<leftarrow> array_getguy (knowndevs s) i;
         if kd_fs kd \<noteq> None then devs_fail EBUSY s
         else case kd_device kd of
           None \<Rightarrow> None
         | Some dev \<Rightarrow> do {
             (r, s) \<leftarrow> below (mountfunc dev) s;
             case r of
               Inl e \<Rightarrow> devs_fail e s
             | Inr fs \<Rightarrow> do {
                 s \<leftarrow> set_fs i (Some fs) s;
                 s \<leftarrow> devs_unlock s;
                 Some (Inr (), s)
               }
           }
       }
   }"

definition vfs_unmount :: "'w vnops \<Rightarrow> byte list \<Rightarrow> 'w vfs \<Rightarrow> (unit res \<times> 'w vfs) option" where
  "vfs_unmount ops devname s = do {
     s \<leftarrow> devs_lock s;
     r \<leftarrow> findmount devname s;
     case r of
       Inl e \<Rightarrow> devs_fail e s
     | Inr i \<Rightarrow> do {
         kd \<leftarrow> array_getguy (knowndevs s) i;
         case kd_fs kd of
           None \<Rightarrow> devs_fail EINVAL s
         | Some fs \<Rightarrow> do {
             kassert (kd_device kd \<noteq> None);
             (r, s) \<leftarrow> below (fsop_sync ops fs) s;
             case r of
               Inl e \<Rightarrow> devs_fail e s
             | Inr _ \<Rightarrow> do {
                 (r, s) \<leftarrow> below (fsop_unmount ops fs) s;
                 case r of
                   Inl e \<Rightarrow> devs_fail e s
                 | Inr _ \<Rightarrow> do {
                     s \<leftarrow> set_fs i None s;
                     s \<leftarrow> devs_unlock s;
                     Some (Inr (), s)
                   }
               }
           }
       }
   }"

text \<open>The loop of \<^verbatim>\<open>vfs_unmountall\<close>. A file system that cannot be written twice in a row, or that is busy, stays.\<close>

definition unmount_one :: "'w vnops \<Rightarrow> int \<Rightarrow> nat \<Rightarrow> 'w vfs \<Rightarrow> 'w vfs option" where
  "unmount_one ops i fs s = do {
     (r, s) \<leftarrow> below (fsop_sync ops fs) s;
     (r, s) \<leftarrow> (case r of Inl e \<Rightarrow> below (fsop_sync ops fs) s | Inr _ \<Rightarrow> Some (r, s));
     case r of
       Inl e \<Rightarrow> Some s
     | Inr _ \<Rightarrow> do {
         (r, s) \<leftarrow> below (fsop_unmount ops fs) s;
         case r of
           Inl e \<Rightarrow> Some s
         | Inr _ \<Rightarrow> set_fs i None s
       }
   }"

fun unmountall_loop :: "'w vnops \<Rightarrow> int \<Rightarrow> nat \<Rightarrow> 'w vfs \<Rightarrow> 'w vfs option" where
  "unmountall_loop ops i 0 s = Some s"
| "unmountall_loop ops i (Suc k) s = do {
     dev \<leftarrow> array_getguy (knowndevs s) i;
     s \<leftarrow> (if kd_rawname dev = None then Some s
           else case kd_fs dev of
             None \<Rightarrow> Some s
           | Some fs \<Rightarrow> unmount_one ops i fs s);
     unmountall_loop ops (i + 1) k s
   }"

definition vfs_unmountall :: "'w vnops \<Rightarrow> 'w vfs \<Rightarrow> 'w vfs option" where
  "vfs_unmountall ops s = do {
     s \<leftarrow> devs_lock s;
     s \<leftarrow> unmountall_loop ops 0 (nat (array_getnum (knowndevs s))) s;
     devs_unlock s
   }"

section \<open>The current directory and the boot file system\<close>

definition vfs_getcurdir :: "'w vnops \<Rightarrow> 'w vfs \<Rightarrow> (nat res \<times> 'w vfs) option" where
  "vfs_getcurdir ops s =
     (case t_cwd s of
        None \<Rightarrow> Some (Inl ENOENT, s)
      | Some v \<Rightarrow> do { s \<leftarrow> below0 (vop_incref ops v) s; Some (Inr v, s) })"

text \<open>Replacing a pointer to a vnode and dropping the reference of the old one.\<close>

definition drop_old :: "'w vnops \<Rightarrow> nat option \<Rightarrow> 'w vfs \<Rightarrow> 'w vfs option" where
  "drop_old ops old s = (case old of None \<Rightarrow> Some s | Some v \<Rightarrow> below0 (vop_decref ops v) s)"

definition vfs_setcurdir :: "'w vnops \<Rightarrow> nat \<Rightarrow> 'w vfs \<Rightarrow> (unit res \<times> 'w vfs) option" where
  "vfs_setcurdir ops dir s = do {
     (r, s) \<leftarrow> below (vop_gettype ops dir) s;
     case r of
       Inl e \<Rightarrow> Some (Inl e, s)
     | Inr vtype \<Rightarrow>
         if vtype AND S_IFMT \<noteq> S_IFDIR then Some (Inl ENOTDIR, s)
         else do {
           s \<leftarrow> below0 (vop_incref ops dir) s;
           s \<leftarrow> drop_old ops (t_cwd s) (s\<lparr>t_cwd := Some dir\<rparr>);
           Some (Inr (), s)
         }
   }"

definition vfs_clearcurdir :: "'w vnops \<Rightarrow> 'w vfs \<Rightarrow> 'w vfs option" where
  "vfs_clearcurdir ops s = drop_old ops (t_cwd s) (s\<lparr>t_cwd := None\<rparr>)"

definition change_bootfs :: "'w vnops \<Rightarrow> nat option \<Rightarrow> 'w vfs \<Rightarrow> 'w vfs option" where
  "change_bootfs ops newguy s = drop_old ops (bootfs_vnode s) (s\<lparr>bootfs_vnode := newguy\<rparr>)"

definition vfs_clearbootfs :: "'w vnops \<Rightarrow> 'w vfs \<Rightarrow> 'w vfs option" where
  "vfs_clearbootfs ops s = change_bootfs ops None s"

section \<open>Pathname translation\<close>

abbreviation (input) colon_char :: byte where "colon_char \<equiv> 58"
abbreviation (input) slash_char :: byte where "slash_char \<equiv> 47"

text \<open>The loop of \<^verbatim>\<open>getdevice\<close> that looks for the first colon or slash: the values of \<^verbatim>\<open>colon\<close> and \<^verbatim>\<open>slash\<close>.\<close>

fun first_sep :: "int \<Rightarrow> byte list \<Rightarrow> int \<times> int" where
  "first_sep i [] = (- 1, - 1)"
| "first_sep i (c # cs) =
     (if c = colon_char then (i, - 1) else if c = slash_char then (- 1, i) else first_sep (i + 1) cs)"

definition skip_slashes :: "byte list \<Rightarrow> byte list" where
  "skip_slashes path = dropWhile (\<lambda>c. c = slash_char) path"

text \<open>The vnode to start from and the rest of the path.\<close>

definition getdevice :: "'w vnops \<Rightarrow> byte list \<Rightarrow> 'w vfs \<Rightarrow> ((byte list \<times> nat) res \<times> 'w vfs) option" where
  "getdevice ops path s =
     (case first_sep 0 path of (colon, slash) \<Rightarrow>
        if colon < 0 \<and> slash \<noteq> 0 then do {
          (r, s) \<leftarrow> vfs_getcurdir ops s;
          case r of Inl e \<Rightarrow> Some (Inl e, s) | Inr v \<Rightarrow> Some (Inr (path, v), s)
        }
        else if colon > 0 then do {
          (r, s) \<leftarrow> vfs_getroot ops (take (nat colon) path) s;
          case r of
            Inl e \<Rightarrow> Some (Inl e, s)
          | Inr v \<Rightarrow> Some (Inr (skip_slashes (drop (nat colon + 1) path), v), s)
        }
        else if hd path = slash_char then
          case bootfs_vnode s of
            None \<Rightarrow> Some (Inl ENOENT, s)
          | Some v \<Rightarrow> do {
              s \<leftarrow> below0 (vop_incref ops v) s;
              Some (Inr (skip_slashes (tl path), v), s)
            }
        else do {
          (r, s) \<leftarrow> vfs_getcurdir ops s;
          case r of
            Inl e \<Rightarrow> Some (Inl e, s)
          | Inr vn \<Rightarrow>
              case vn_fs ops vn (vfs_w s) of
                None \<Rightarrow> None
              | Some fs \<Rightarrow> do {
                  (v, s) \<leftarrow> below (fsop_getroot ops fs) s;
                  s \<leftarrow> below0 (vop_decref ops vn) s;
                  Some (Inr (skip_slashes (tl path), v), s)
                }
        })"

definition vfs_lookparent :: "'w vnops \<Rightarrow> byte list \<Rightarrow> nat \<Rightarrow> 'w vfs \<Rightarrow> ((nat \<times> byte list) res \<times> 'w vfs) option" where
  "vfs_lookparent ops path buflen s = do {
     (r, s) \<leftarrow> getdevice ops path s;
     case r of
       Inl e \<Rightarrow> Some (Inl e, s)
     | Inr (path, startvn) \<Rightarrow> do {
         (r, s) \<leftarrow> (if path = [] then Some (Inl EINVAL, s) else below (vop_lookparent ops startvn path buflen) s);
         s \<leftarrow> below0 (vop_decref ops startvn) s;
         Some (r, s)
       }
   }"

definition vfs_lookup :: "'w vnops \<Rightarrow> byte list \<Rightarrow> 'w vfs \<Rightarrow> (nat res \<times> 'w vfs) option" where
  "vfs_lookup ops path s = do {
     (r, s) \<leftarrow> getdevice ops path s;
     case r of
       Inl e \<Rightarrow> Some (Inl e, s)
     | Inr (path, startvn) \<Rightarrow>
         if path = [] then Some (Inr startvn, s)
         else do {
           (r, s) \<leftarrow> below (vop_lookup ops startvn path) s;
           s \<leftarrow> below0 (vop_decref ops startvn) s;
           Some (r, s)
         }
   }"

definition vfs_chdir :: "'w vnops \<Rightarrow> byte list \<Rightarrow> 'w vfs \<Rightarrow> (unit res \<times> 'w vfs) option" where
  "vfs_chdir ops path s = do {
     (r, s) \<leftarrow> vfs_lookup ops path s;
     case r of
       Inl e \<Rightarrow> Some (Inl e, s)
     | Inr vn \<Rightarrow> do {
         (r, s) \<leftarrow> vfs_setcurdir ops vn s;
         s \<leftarrow> below0 (vop_decref ops vn) s;
         Some (r, s)
       }
   }"

text \<open>The name is first cut to 254 bytes. A colon is refused wherever it is: the string that \<^verbatim>\<open>strchr\<close> finds begins
  with it and so is never empty.\<close>

definition vfs_setbootfs :: "'w vnops \<Rightarrow> byte list \<Rightarrow> 'w vfs \<Rightarrow> (unit res \<times> 'w vfs) option" where
  "vfs_setbootfs ops fsname s =
     (let tmp = take (NAME_MAX - 1) fsname in
      if colon_char \<in> set tmp then Some (Inl EINVAL, s)
      else do {
        (r, s) \<leftarrow> vfs_chdir ops (tmp @ [colon_char]) s;
        case r of
          Inl e \<Rightarrow> Some (Inl e, s)
        | Inr _ \<Rightarrow> do {
            (r, s) \<leftarrow> vfs_getcurdir ops s;
            case r of
              Inl e \<Rightarrow> Some (Inl e, s)
            | Inr newguy \<Rightarrow> do {
                s \<leftarrow> change_bootfs ops (Some newguy) s;
                Some (Inr (), s)
              }
          }
      })"

definition getcwd_name :: "'w vnops \<Rightarrow> nat \<Rightarrow> 'w vfs \<Rightarrow> (byte list \<times> 'w vfs) option" where
  "getcwd_name ops fs s =
     (case fsop_getvolname ops fs (vfs_w s) of
        Some name \<Rightarrow> Some (name, s)
      | None \<Rightarrow> do {
          (name, s) \<leftarrow> vfs_getdevname fs s;
          case name of None \<Rightarrow> None | Some name \<Rightarrow> Some (name, s)
        })"

definition vfs_getcwd :: "'w vnops \<Rightarrow> uio \<Rightarrow> 'w vfs \<Rightarrow> (unit res \<times> uio \<times> 'w vfs) option" where
  "vfs_getcwd ops u s = do {
     kassert (uio_dir u = UIO_READ);
     (r, s) \<leftarrow> vfs_getcurdir ops s;
     case r of
       Inl e \<Rightarrow> Some (Inl e, u, s)
     | Inr cwd \<Rightarrow>
         case vn_fs ops cwd (vfs_w s) of
           None \<Rightarrow> None
         | Some fs \<Rightarrow> do {
             (name, s) \<leftarrow> getcwd_name ops fs s;
             (r, _, u) \<leftarrow> uiomove name 0 (length name) u;
             (r, u) \<leftarrow> (case r of
                Inl e \<Rightarrow> Some (Inl e, u)
              | Inr _ \<Rightarrow> do { (r, _, u) \<leftarrow> uiomove [colon_char] 0 1 u; Some (r, u) });
             (r, u, s) \<leftarrow> (case r of
                Inl e \<Rightarrow> Some (Inl e, u, s)
              | Inr _ \<Rightarrow> do { (r, u, w) \<leftarrow> vop_namefile ops cwd u (vfs_w s); Some (r, u, s\<lparr>vfs_w := w\<rparr>) });
             s \<leftarrow> below0 (vop_decref ops cwd) s;
             Some (r, u, s)
           }
   }"

section \<open>The work of the path-based system calls\<close>

text \<open>The part of \<^verbatim>\<open>vfs_open\<close> after the vnode has been found.\<close>

definition open_vnode :: "'w vnops \<Rightarrow> nat \<Rightarrow> int \<Rightarrow> bool \<Rightarrow> 'w vfs \<Rightarrow> (nat res \<times> 'w vfs) option" where
  "open_vnode ops vn openflags canwrite s = do {
     (r, s) \<leftarrow> below (vop_open ops vn openflags) s;
     case r of
       Inl e \<Rightarrow> do { s \<leftarrow> below0 (vop_decref ops vn) s; Some (Inl e, s) }
     | Inr _ \<Rightarrow> do {
         s \<leftarrow> below0 (vop_incopen ops vn) s;
         (r, s) \<leftarrow> (if openflags AND O_TRUNC = 0 then Some (Inr (), s)
           else if \<not> canwrite then Some (Inl EINVAL, s)
           else below (vop_truncate ops vn 0) s);
         case r of
           Inl e \<Rightarrow> do {
             s \<leftarrow> below0 (vop_decopen ops vn) s;
             s \<leftarrow> below0 (vop_decref ops vn) s;
             Some (Inl e, s)
           }
         | Inr _ \<Rightarrow> Some (Inr vn, s)
       }
   }"

definition vfs_open :: "'w vnops \<Rightarrow> byte list \<Rightarrow> int \<Rightarrow> 'w vfs \<Rightarrow> (nat res \<times> 'w vfs) option" where
  "vfs_open ops path openflags s =
     (let how = openflags AND O_ACCMODE in
      if how \<noteq> O_RDONLY \<and> how \<noteq> O_WRONLY \<and> how \<noteq> O_RDWR then Some (Inl EINVAL, s)
      else do {
        (r, s) \<leftarrow> (if openflags AND O_CREAT \<noteq> 0 then do {
            (r, s) \<leftarrow> vfs_lookparent ops path (NAME_MAX + 1) s;
            case r of
              Inl e \<Rightarrow> Some (Inl e, s)
            | Inr (dir, name) \<Rightarrow> do {
                (r, s) \<leftarrow> below (vop_creat ops dir name (openflags AND O_EXCL \<noteq> 0)) s;
                s \<leftarrow> below0 (vop_decref ops dir) s;
                Some (r, s)
              }
          }
          else vfs_lookup ops path s);
        case r of
          Inl e \<Rightarrow> Some (Inl e, s)
        | Inr vn \<Rightarrow> open_vnode ops vn openflags (how \<noteq> O_RDONLY) s
      })"

definition vfs_close :: "'w vnops \<Rightarrow> nat \<Rightarrow> 'w vfs \<Rightarrow> 'w vfs option" where
  "vfs_close ops vn s = do { s \<leftarrow> below0 (vop_decopen ops vn) s; below0 (vop_decref ops vn) s }"

text \<open>An operation on a name in its directory, as \<^verbatim>\<open>vfs_remove\<close>, \<^verbatim>\<open>vfs_mkdir\<close> and \<^verbatim>\<open>vfs_rmdir\<close> make it.\<close>

definition parent_op :: "'w vnops \<Rightarrow> (nat \<Rightarrow> byte list \<Rightarrow> 'w \<Rightarrow> (unit res \<times> 'w) option) \<Rightarrow> byte list \<Rightarrow> 'w vfs \<Rightarrow>
    (unit res \<times> 'w vfs) option" where
  "parent_op ops f path s = do {
     (r, s) \<leftarrow> vfs_lookparent ops path (NAME_MAX + 1) s;
     case r of
       Inl e \<Rightarrow> Some (Inl e, s)
     | Inr (dir, name) \<Rightarrow> do {
         (r, s) \<leftarrow> below (f dir name) s;
         s \<leftarrow> below0 (vop_decref ops dir) s;
         Some (r, s)
       }
   }"

definition vfs_remove :: "'w vnops \<Rightarrow> byte list \<Rightarrow> 'w vfs \<Rightarrow> (unit res \<times> 'w vfs) option" where
  "vfs_remove ops path s = parent_op ops (vop_remove ops) path s"

definition vfs_mkdir :: "'w vnops \<Rightarrow> byte list \<Rightarrow> 'w vfs \<Rightarrow> (unit res \<times> 'w vfs) option" where
  "vfs_mkdir ops path s = parent_op ops (vop_mkdir ops) path s"

definition vfs_rmdir :: "'w vnops \<Rightarrow> byte list \<Rightarrow> 'w vfs \<Rightarrow> (unit res \<times> 'w vfs) option" where
  "vfs_rmdir ops path s = parent_op ops (vop_rmdir ops) path s"

definition vfs_symlink :: "'w vnops \<Rightarrow> byte list \<Rightarrow> byte list \<Rightarrow> 'w vfs \<Rightarrow> (unit res \<times> 'w vfs) option" where
  "vfs_symlink ops contents path s = parent_op ops (\<lambda>dir name. vop_symlink ops dir name contents) path s"

definition vfs_readlink :: "'w vnops \<Rightarrow> byte list \<Rightarrow> uio \<Rightarrow> 'w vfs \<Rightarrow> (unit res \<times> uio \<times> 'w vfs) option" where
  "vfs_readlink ops path u s = do {
     (r, s) \<leftarrow> vfs_lookup ops path s;
     case r of
       Inl e \<Rightarrow> Some (Inl e, u, s)
     | Inr vn \<Rightarrow> do {
         ((r, u), s) \<leftarrow> below (\<lambda>w. do { (r, u, w) \<leftarrow> vop_readlink ops vn u w; Some ((r, u), w) }) s;
         s \<leftarrow> below0 (vop_decref ops vn) s;
         Some (r, u, s)
       }
   }"

text \<open>The test and the exit that \<^verbatim>\<open>vfs_rename\<close> and \<^verbatim>\<open>vfs_link\<close> share: both vnodes on one file system, then the
  operation, then both references are dropped.\<close>

definition two_vnodes :: "'w vnops \<Rightarrow> nat \<Rightarrow> nat \<Rightarrow> ('w \<Rightarrow> (unit res \<times> 'w) option) \<Rightarrow> 'w vfs \<Rightarrow> (unit res \<times> 'w vfs) option" where
  "two_vnodes ops old newdir f s = do {
     (r, s) \<leftarrow> (if vn_fs ops old (vfs_w s) = None \<or> vn_fs ops newdir (vfs_w s) = None \<or>
                  vn_fs ops old (vfs_w s) \<noteq> vn_fs ops newdir (vfs_w s)
               then Some (Inl EXDEV, s) else below f s);
     s \<leftarrow> below0 (vop_decref ops newdir) s;
     s \<leftarrow> below0 (vop_decref ops old) s;
     Some (r, s)
   }"

definition vfs_rename :: "'w vnops \<Rightarrow> byte list \<Rightarrow> byte list \<Rightarrow> 'w vfs \<Rightarrow> (unit res \<times> 'w vfs) option" where
  "vfs_rename ops oldpath newpath s = do {
     (r, s) \<leftarrow> vfs_lookparent ops oldpath (NAME_MAX + 1) s;
     case r of
       Inl e \<Rightarrow> Some (Inl e, s)
     | Inr (olddir, oldname) \<Rightarrow> do {
         (r, s) \<leftarrow> vfs_lookparent ops newpath (NAME_MAX + 1) s;
         case r of
           Inl e \<Rightarrow> do { s \<leftarrow> below0 (vop_decref ops olddir) s; Some (Inl e, s) }
         | Inr (newdir, newname) \<Rightarrow>
             two_vnodes ops olddir newdir (vop_rename ops olddir oldname newdir newname) s
       }
   }"

definition vfs_link :: "'w vnops \<Rightarrow> byte list \<Rightarrow> byte list \<Rightarrow> 'w vfs \<Rightarrow> (unit res \<times> 'w vfs) option" where
  "vfs_link ops oldpath newpath s = do {
     (r, s) \<leftarrow> vfs_lookup ops oldpath s;
     case r of
       Inl e \<Rightarrow> Some (Inl e, s)
     | Inr oldfile \<Rightarrow> do {
         (r, s) \<leftarrow> vfs_lookparent ops newpath (NAME_MAX + 1) s;
         case r of
           Inl e \<Rightarrow> do { s \<leftarrow> below0 (vop_decref ops oldfile) s; Some (Inl e, s) }
         | Inr (newdir, newname) \<Rightarrow>
             two_vnodes ops oldfile newdir (vop_link ops newdir newname oldfile) s
       }
   }"

section \<open>The device table\<close>

text \<open>The names that lead to a device: its own, its raw name and the name of the volume on it.\<close>

definition leads :: "'w vnops \<Rightarrow> 'w \<Rightarrow> byte list \<Rightarrow> knowndev \<Rightarrow> bool" where
  "leads ops w n kd \<longleftrightarrow> kd_name kd = n \<or> kd_rawname kd = Some n \<or>
     (case kd_fs kd of None \<Rightarrow> False | Some fs \<Rightarrow> fsop_getvolname ops fs w = Some n)"

abbreviation devs :: "'w vfs \<Rightarrow> knowndev list" where
  "devs s \<equiv> array_list (knowndevs s)"

lemma samestring3_some: "samestring3 a (Some n1) n2 n3 \<longleftrightarrow> a = Some n1 \<or> a \<noteq> None \<and> (a = n2 \<or> a = n3)"
  by (cases a) (auto simp: samestring3_def samestring_def)

text \<open>Some of the names that are given lead to the device.\<close>

definition leads_any :: "'w vnops \<Rightarrow> 'w \<Rightarrow> byte list \<Rightarrow> byte list option \<Rightarrow> byte list option \<Rightarrow> knowndev \<Rightarrow> bool" where
  "leads_any ops w n1 n2 n3 kd \<longleftrightarrow> leads ops w n1 kd \<or> (\<exists>n. n2 = Some n \<and> leads ops w n kd) \<or> (\<exists>n. n3 = Some n \<and> leads ops w n kd)"

lemma badnames_hit:
  "(case kd_fs kd of None \<Rightarrow> False | Some fs \<Rightarrow> samestring3 (fsop_getvolname ops fs w) (Some n1) n2 n3) \<or>
   samestring3 (kd_rawname kd) (Some n1) n2 n3 \<or> samestring3 (Some (kd_name kd)) (Some n1) n2 n3 \<longleftrightarrow> leads_any ops w n1 n2 n3 kd"
  unfolding leads_any_def leads_def samestring3_some
  by (cases "kd_fs kd"; cases n2; cases n3) auto

lemma badnames_loop_ok:
  assumes "array_inv (knowndevs s)" and "i + k = length (devs s)"
  shows "badnames_loop ops (Some n1) n2 n3 (int i) k s =
    Some (list_ex (leads_any ops (vfs_w s) n1 n2 n3) (drop i (devs s)))"
  using assms(2)
proof (induction k arbitrary: i)
  case 0
  then show ?case by simp
next
  case (Suc k)
  then have i: "i < length (devs s)" by simp
  let ?kd = "devs s ! i"
  have "badnames_loop ops (Some n1) n2 n3 (int i) (Suc k) s =
      (if leads_any ops (vfs_w s) n1 n2 n3 ?kd then Some True else badnames_loop ops (Some n1) n2 n3 (int (Suc i)) k s)"
    unfolding badnames_hit [symmetric] by (simp add: karr.getguy_Suc_index [OF assms(1) i] add.commute)
  moreover have "drop i (devs s) = ?kd # drop (Suc i) (devs s)" using i by (simp add: Cons_nth_drop_Suc)
  moreover note Suc.IH [of "Suc i"] Suc.prems
  ultimately show ?case by (simp del: badnames_loop.simps)
qed

text \<open>What a name gives, by the rules in the comment at the head of \<^verbatim>\<open>vfslist.c\<close>.\<close>

definition root_of :: "'w vnops \<Rightarrow> byte list \<Rightarrow> knowndev \<Rightarrow> 'w vfs \<Rightarrow> (nat res \<times> 'w vfs) option" where
  "root_of ops n kd s =
     (if kd_fs kd \<noteq> None \<and> kd_rawname kd \<noteq> Some n then do {
        (v, s) \<leftarrow> below (fsop_getroot ops (the (kd_fs kd))) s;
        Some (Inr v, s)
      }
      else if kd_fs kd = None \<and> kd_rawname kd \<noteq> None \<and> kd_name kd = n then Some (Inl ENXIO, s)
      else do {
        kassert (kd_device kd \<noteq> None);
        s \<leftarrow> below0 (vop_incref ops (kd_vnode kd)) s;
        Some (Inr (kd_vnode kd), s)
      })"

text \<open>No device has two equal names; a volume name is not the raw name of the device either.\<close>

definition kd_ok :: "'w vnops \<Rightarrow> 'w \<Rightarrow> knowndev \<Rightarrow> bool" where
  "kd_ok ops w kd \<longleftrightarrow> kd_rawname kd \<noteq> Some (kd_name kd) \<and>
     (case kd_fs kd of None \<Rightarrow> True | Some fs \<Rightarrow> kd_rawname kd = None \<or> fsop_getvolname ops fs w \<noteq> kd_rawname kd)"

lemma getroot_loop_ok:
  assumes "array_inv (knowndevs s)" and "i + k = length (devs s)" and "\<forall>kd \<in> set (devs s). kd_ok ops (vfs_w s) kd"
  shows "getroot_loop ops n (int i) k s =
    (case find (leads ops (vfs_w s) n) (drop i (devs s)) of None \<Rightarrow> Some (Inl ENODEV, s) | Some kd \<Rightarrow> root_of ops n kd s)"
  using assms(2)
proof (induction k arbitrary: i)
  case 0
  then show ?case by simp
next
  case (Suc k)
  then have i: "i < length (devs s)" by simp
  let ?kd = "devs s ! i"
  have kd: "kd_ok ops (vfs_w s) ?kd" using assms(3) i by simp
  have get: "array_getguy (knowndevs s) (int i) = Some ?kd" by (rule karr.getguy_Suc_index [OF assms(1) i])
  have d: "drop i (devs s) = ?kd # drop (Suc i) (devs s)" using i by (simp add: Cons_nth_drop_Suc)
  show ?case
  proof (cases "leads ops (vfs_w s) n ?kd")
    case True
    with kd have "getroot_loop ops n (int i) (Suc k) s = root_of ops n ?kd s"
      by (cases "kd_fs ?kd"; cases "kd_rawname ?kd") (auto simp: get root_of_def leads_def kd_ok_def)
    with True d show ?thesis by simp
  next
    case False
    then have "getroot_loop ops n (int i) (Suc k) s = getroot_loop ops n (int (Suc i)) k s"
      by (auto simp: get leads_def add.commute split: option.split)
    with Suc.IH [of "Suc i"] Suc.prems d False show ?thesis by (simp del: getroot_loop.simps)
  qed
qed

text \<open>A table of devices between two calls.\<close>

definition devs_ok :: "'w vnops \<Rightarrow> 'w vfs \<Rightarrow> bool" where
  "devs_ok ops s \<longleftrightarrow> array_inv (knowndevs s) \<and> \<not> knowndevs_locked s \<and> (\<forall>kd \<in> set (devs s). kd_ok ops (vfs_w s) kd)"

lemma root_of_lock:
  "do { (r, s) \<leftarrow> root_of ops n kd (s\<lparr>knowndevs_locked := True\<rparr>); s \<leftarrow> devs_unlock s; Some (r, s) } =
   root_of ops n kd (s\<lparr>knowndevs_locked := False\<rparr>)"
  by (auto simp: root_of_def below_def below0_def devs_unlock_def kassert_def
      split: option.split intro!: arg_cong [of _ _ "Option.bind _"] ext)

lemma vfs_getroot_ok:
  assumes "devs_ok ops s"
  shows "vfs_getroot ops n s =
    (case find (leads ops (vfs_w s) n) (devs s) of None \<Rightarrow> Some (Inl ENODEV, s) | Some kd \<Rightarrow> root_of ops n kd s)"
proof -
  let ?s = "s\<lparr>knowndevs_locked := True\<rparr>"
  have inv: "array_inv (knowndevs ?s)" and ok: "\<forall>kd \<in> set (devs ?s). kd_ok ops (vfs_w ?s) kd" and nl: "\<not> knowndevs_locked s"
    using assms by (simp_all add: devs_ok_def)
  have num: "nat (array_getnum (knowndevs s)) = length (devs s)" using karr.getnum_law [OF inv] by simp
  have loop: "getroot_loop ops n 0 (length (devs s)) ?s =
      (case find (leads ops (vfs_w s) n) (devs s) of None \<Rightarrow> Some (Inl ENODEV, ?s) | Some kd \<Rightarrow> root_of ops n kd ?s)"
    using getroot_loop_ok [OF inv, of 0 "length (devs s)" ops n] ok by simp
  have "s\<lparr>knowndevs_locked := False\<rparr> = s" using nl by (cases s) simp
  with root_of_lock [of ops n _ s] nl num loop show ?thesis
    by (simp add: vfs_getroot_def devs_lock_def split: option.split) (simp add: devs_unlock_def)
qed

lemma find_append: "find P (xs @ [x]) = (case find P xs of None \<Rightarrow> if P x then Some x else None | Some y \<Rightarrow> Some y)"
  by (induction xs) auto

definition rawname_of :: "bool \<Rightarrow> byte list \<Rightarrow> byte list option" where
  "rawname_of mountable n = (if mountable then Some (n @ [114, 97, 119]) else None)"

lemma vfs_adddev_eq:
  assumes ok: "devs_ok ops (s\<lparr>vfs_w := w\<rparr>)" and mem: "vfs_mem s = []" and room: "a_num (knowndevs s) < 2 ^ 29 - 1"
    and vn: "dev_create_vnode ops (Some dev) (vfs_w s) = Some (Some v, w)"
    and kd: "kd = \<lparr>kd_name = n, kd_rawname = rawname_of mountable n, kd_device = Some dev, kd_vnode = v, kd_fs = None\<rparr>"
  shows "\<exists>a. array_inv a \<and> array_list a = devs s @ [kd] \<and> vfs_adddev ops n dev mountable s =
    (if list_ex (leads_any ops w n (rawname_of mountable n) None) (devs s) then Some (Inl EEXIST, s\<lparr>vfs_w := w\<rparr>)
     else Some (Inr (), s\<lparr>vfs_w := w, knowndevs := a\<rparr>))"
proof -
  have inv: "array_inv (knowndevs s)" and nl: "\<not> knowndevs_locked s" using ok by (simp_all add: devs_ok_def)
  from array_add_no_shortage [OF inv room, of kd] obtain a where
    a: "array_add (knowndevs s) kd [] = Some (Inr (), a, [])" "array_inv a" "array_list a = devs s @ [kd]"
    by blast
  let ?l = "s\<lparr>vfs_w := w, knowndevs_locked := True\<rparr>"
  have bad: "badnames ops (Some n) (rawname_of mountable n) None ?l =
      Some (list_ex (leads_any ops w n (rawname_of mountable n) None) (devs s))"
    using badnames_loop_ok [of ?l 0 "length (devs s)" ops n "rawname_of mountable n" None] inv karr.getnum_law [OF inv]
    by (simp add: badnames_def)
  have eqs: "s\<lparr>vfs_w := w, knowndevs_locked := False\<rparr> = s\<lparr>vfs_w := w\<rparr>" "s\<lparr>vfs_mem := []\<rparr> = s"
    "s\<lparr>vfs_w := w, vfs_mem := []\<rparr> = s\<lparr>vfs_w := w\<rparr>"
    "s\<lparr>knowndevs := a, knowndevs_locked := False, vfs_mem := []\<rparr> = s\<lparr>knowndevs := a\<rparr>"
    "s\<lparr>vfs_w := w, knowndevs := a, knowndevs_locked := False, vfs_mem := []\<rparr> = s\<lparr>vfs_w := w, knowndevs := a\<rparr>"
    "s\<lparr>vfs_w := w, knowndevs_locked := True, vfs_mem := []\<rparr> = s\<lparr>vfs_w := w, knowndevs_locked := True\<rparr>"
    "s\<lparr>vfs_w := w, knowndevs_locked := False, vfs_mem := []\<rparr> = s\<lparr>vfs_w := w\<rparr>"
    using mem nl by (cases s, simp)+
  have raw: "(if mountable then mkrawname n [] else (None, [])) = (rawname_of mountable n, [])"
    by (simp add: mkrawname_def rawname_of_def)
  have nn: "\<not> (mountable \<and> rawname_of mountable n = None)" by (simp add: rawname_of_def)
  have "vfs_adddev ops n dev mountable s =
    (if list_ex (leads_any ops w n (rawname_of mountable n) None) (devs s) then Some (Inl EEXIST, s\<lparr>vfs_w := w\<rparr>)
     else Some (Inr (), s\<lparr>vfs_w := w, knowndevs := a\<rparr>))"
    unfolding vfs_adddev_def vfs_doadd_def mem kmalloc.simps prod.case raw
    using bad a(1) nl nn vn
    by (simp add: below_def devs_lock_def devs_unlock_def kd [symmetric] mem eqs)
  with a(2,3) show ?thesis by blast
qed

lemma find_none_leads: "\<not> list_ex (leads_any ops w n n2 n3) ds \<Longrightarrow> find (leads ops w n) ds = None"
  "\<not> list_ex (leads_any ops w n (Some m) n3) ds \<Longrightarrow> find (leads ops w m) ds = None"
  by (auto simp: list_ex_iff find_None_iff leads_any_def)

text \<open>A new device gets its name only when neither the name nor the raw name of a mountable device
  leads to a device of the table, else the result is \<^verbatim>\<open>EEXIST\<close> and the table is as before. A device that is
  added keeps the table well formed and takes no name away: every name that led to a device leads to
  the same one. The new name gives the vnode of the device, or \<^verbatim>\<open>ENXIO\<close> when the device has to be mounted
  first, and the raw name gives the vnode.\<close>

theorem vfs_adddev_correct:
  assumes ok: "devs_ok ops (s\<lparr>vfs_w := w\<rparr>)" and mem: "vfs_mem s = []" and room: "a_num (knowndevs s) < 2 ^ 29 - 1"
    and vn: "dev_create_vnode ops (Some dev) (vfs_w s) = Some (Some v, w)"
  shows "let clash = list_ex (leads_any ops w n (rawname_of mountable n) None) (devs s) in
    if clash then vfs_adddev ops n dev mountable s = Some (Inl EEXIST, s\<lparr>vfs_w := w\<rparr>)
    else \<exists>s'. vfs_adddev ops n dev mountable s = Some (Inr (), s') \<and> devs_ok ops s' \<and>
      vfs_getroot ops n s' =
        (if mountable then Some (Inl ENXIO, s') else do { s'' \<leftarrow> below0 (vop_incref ops v) s'; Some (Inr v, s'') }) \<and>
      (mountable \<longrightarrow> vfs_getroot ops (n @ [114, 97, 119]) s' = do { s'' \<leftarrow> below0 (vop_incref ops v) s'; Some (Inr v, s'') }) \<and>
      (\<forall>m kd. find (leads ops w m) (devs s) = Some kd \<longrightarrow> vfs_getroot ops m s' = root_of ops m kd s')"
proof -
  let ?raw = "rawname_of mountable n"
  define kd where "kd = \<lparr>kd_name = n, kd_rawname = ?raw, kd_device = Some dev, kd_vnode = v, kd_fs = None\<rparr>"
  from vfs_adddev_eq [OF ok mem room vn kd_def] obtain a where a: "array_inv a" "array_list a = devs s @ [kd]"
    "vfs_adddev ops n dev mountable s = (if list_ex (leads_any ops w n ?raw None) (devs s) then Some (Inl EEXIST, s\<lparr>vfs_w := w\<rparr>)
      else Some (Inr (), s\<lparr>vfs_w := w, knowndevs := a\<rparr>))" by blast
  let ?s = "s\<lparr>vfs_w := w, knowndevs := a\<rparr>"
  show ?thesis
  proof (cases "list_ex (leads_any ops w n ?raw None) (devs s)")
    case False
    have kd: "kd_ok ops w kd" by (simp add: kd_ok_def kd_def rawname_of_def)
    have ok': "devs_ok ops ?s" using ok a(1,2) kd by (simp add: devs_ok_def)
    have dev: "devs ?s = devs s @ [kd]" "vfs_w ?s = w" using a(2) by simp_all
    have "find (leads ops w n) (devs s) = None" using find_none_leads(1) [OF False] .
    then have name: "vfs_getroot ops n ?s =
        (if mountable then Some (Inl ENXIO, ?s) else do { s'' \<leftarrow> below0 (vop_incref ops v) ?s; Some (Inr v, s'') })"
      unfolding vfs_getroot_ok [OF ok'] dev find_append by (simp add: leads_def root_of_def kd_def rawname_of_def)
    have raw: "vfs_getroot ops (n @ [114, 97, 119]) ?s = do { s'' \<leftarrow> below0 (vop_incref ops v) ?s; Some (Inr v, s'') }" if "mountable"
    proof -
      have "find (leads ops w (n @ [114, 97, 119])) (devs s) = None"
        using find_none_leads(2) [of ops w n _ None] False that by (simp add: rawname_of_def)
      then show ?thesis unfolding vfs_getroot_ok [OF ok'] dev find_append
        using that by (simp add: leads_def root_of_def kd_def rawname_of_def)
    qed
    have "vfs_getroot ops m ?s = root_of ops m kd' ?s" if "find (leads ops w m) (devs s) = Some kd'" for m kd'
      unfolding vfs_getroot_ok [OF ok'] dev find_append using that by simp
    with False a(3) ok' name raw show ?thesis by (simp add: Let_def)
  qed (use a(3) in \<open>simp add: Let_def\<close>)
qed

end
