(* ===== verification/K_File.thy ===== *)
theory K_File
  imports K_Vfs
begin

text \<open>
  Open files, the file table of a process (\<^verbatim>\<open>kern/userprog/file.c\<close>) and the file system calls
  (\<^verbatim>\<open>kern/userprog/file_syscalls.c\<close>), above the function tables of \<^verbatim>\<open>K_Vfs\<close>.

  The table holds pointers to \<^verbatim>\<open>struct openfile\<close> objects, which several descriptors can share; the objects
  live in a heap from addresses to structures, and using an address that is not mapped is the use
  of freed memory. \<open>null_words\<close> says for the next objects that are allocated whether the
  first word of the uninitialised memory is zero. A user string is \<open>None\<close> when its address faults.
\<close>

section \<open>State\<close>

abbreviation (input) FOPEN_MAX :: nat where "FOPEN_MAX \<equiv> 16"
abbreviation (input) PATH_MAX :: nat where "PATH_MAX \<equiv> 1024"
abbreviation (input) SEEK_SET :: int where "SEEK_SET \<equiv> 0"
abbreviation (input) SEEK_CUR :: int where "SEEK_CUR \<equiv> 1"
abbreviation (input) SEEK_END :: int where "SEEK_END \<equiv> 2"

record openfile =
  of_vnode :: nat
  of_offset :: int
  of_accmode :: int
  of_refcount :: int

record 'w proc =
  p_vfs :: "'w vfs"
  t_filetable :: "nat option list option"
  of_heap :: "nat \<Rightarrow> openfile option"
  of_fresh :: nat
  p_mem :: kmem
  null_words :: "bool list"

text \<open>An operation of the VFS layer.\<close>

definition in_vfs :: "('w vfs \<Rightarrow> ('a \<times> 'w vfs) option) \<Rightarrow> 'w proc \<Rightarrow> ('a \<times> 'w proc) option" where
  "in_vfs f s = do { (r, x) \<leftarrow> f (p_vfs s); Some (r, s\<lparr>p_vfs := x\<rparr>) }"

definition in_vnode :: "('w \<Rightarrow> ('a \<times> 'w) option) \<Rightarrow> 'w proc \<Rightarrow> ('a \<times> 'w proc) option" where
  "in_vnode f s = in_vfs (below f) s"

text \<open>Reading and writing the entry of a descriptor, which is within the table.\<close>

definition ft_get :: "nat \<Rightarrow> 'w proc \<Rightarrow> nat option option" where
  "ft_get fd s = do { ft \<leftarrow> t_filetable s; kassert (fd < length ft); Some (ft ! fd) }"

definition ft_set :: "nat \<Rightarrow> nat option \<Rightarrow> 'w proc \<Rightarrow> 'w proc option" where
  "ft_set fd x s = do { ft \<leftarrow> t_filetable s; kassert (fd < length ft); Some (s\<lparr>t_filetable := Some (ft[fd := x])\<rparr>) }"

definition of_put :: "nat \<Rightarrow> openfile \<Rightarrow> 'w proc \<Rightarrow> 'w proc" where
  "of_put p f s = s\<lparr>of_heap := (of_heap s)(p \<mapsto> f)\<rparr>"

section \<open>Open files and file tables\<close>

text \<open>The loop of \<^verbatim>\<open>filetable_getfd\<close>: \<open>k\<close> descriptors are left, beginning with \<open>fd\<close>.\<close>

fun getfd_loop :: "nat \<Rightarrow> nat \<Rightarrow> 'w proc \<Rightarrow> nat option" where
  "getfd_loop fd 0 s = Some fd"
| "getfd_loop fd (Suc k) s = do {
     x \<leftarrow> ft_get fd s;
     if x = None then Some fd else getfd_loop (Suc fd) k s
   }"

definition filetable_getfd :: "'w proc \<Rightarrow> nat option" where
  "filetable_getfd s = getfd_loop 0 FOPEN_MAX s"

definition filetable_findfile :: "int \<Rightarrow> 'w proc \<Rightarrow> nat res option" where
  "filetable_findfile fd s =
     (if fd < 0 \<or> fd \<ge> int FOPEN_MAX then Some (Inl EBADF)
      else do {
        x \<leftarrow> ft_get (nat fd) s;
        case x of None \<Rightarrow> Some (Inl EBADF) | Some p \<Rightarrow> Some (Inr p)
      })"

text \<open>When \<^verbatim>\<open>vfs_open\<close> fails, the code frees the pointer \<^verbatim>\<open>of->of_vnode\<close>, which has not been set: this is harmless
  only when the uninitialised word is zero.\<close>

definition file_open :: "'w vnops \<Rightarrow> byte list \<Rightarrow> int \<Rightarrow> 'w proc \<Rightarrow> (nat res \<times> 'w proc) option" where
  "file_open ops filename flags s = do {
     fd \<leftarrow> filetable_getfd s;
     if fd = FOPEN_MAX then Some (Inl EMFILE, s)
     else case kmalloc (p_mem s) of (ok, m) \<Rightarrow>
       let s = s\<lparr>p_mem := m\<rparr> in
       if \<not> ok then Some (Inl ENOMEM, s)
       else do {
         let (null, nw) = kmalloc (null_words s);
         let s = s\<lparr>null_words := nw\<rparr>;
         (r, s) \<leftarrow> in_vfs (vfs_open ops filename flags) s;
         case r of
           Inl e \<Rightarrow> do { kassert null; Some (Inl e, s) }
         | Inr v \<Rightarrow> do {
             let p = of_fresh s;
             let s = of_put p \<lparr>of_vnode = v, of_offset = 0, of_accmode = flags, of_refcount = 1\<rparr> (s\<lparr>of_fresh := p + 1\<rparr>);
             s \<leftarrow> ft_set fd (Some p) s;
             Some (Inr fd, s)
           }
       }
   }"

definition file_close :: "'w vnops \<Rightarrow> int \<Rightarrow> 'w proc \<Rightarrow> (unit res \<times> 'w proc) option" where
  "file_close ops fd s = do {
     r \<leftarrow> filetable_findfile fd s;
     case r of
       Inl e \<Rightarrow> Some (Inl e, s)
     | Inr p \<Rightarrow> do {
         f \<leftarrow> of_heap s p;
         n \<leftarrow> cint (of_refcount f - 1);
         let s = of_put p (f\<lparr>of_refcount := n\<rparr>) s;
         if n = 0 then do {
           (_, s) \<leftarrow> in_vfs (\<lambda>x. do { x \<leftarrow> vfs_close ops (of_vnode f) x; Some ((), x) }) s;
           s \<leftarrow> ft_set (nat fd) None (s\<lparr>of_heap := (of_heap s)(p := None)\<rparr>);
           Some (Inr (), s)
         }
         else Some (Inr (), s)
       }
   }"

text \<open>\<^verbatim>\<open>"con:"\<close>\<close>

definition con_path :: "byte list" where "con_path = [99, 111, 110, 58]"

fun open_consoles :: "'w vnops \<Rightarrow> nat \<Rightarrow> 'w proc \<Rightarrow> (unit res \<times> 'w proc) option" where
  "open_consoles ops 0 s = Some (Inr (), s)"
| "open_consoles ops (Suc k) s = do {
     (r, s) \<leftarrow> file_open ops con_path O_RDWR s;
     case r of Inl e \<Rightarrow> Some (Inl e, s) | Inr _ \<Rightarrow> open_consoles ops k s
   }"

definition filetable_init :: "'w vnops \<Rightarrow> 'w proc \<Rightarrow> (unit res \<times> 'w proc) option" where
  "filetable_init ops s =
     (case kmalloc (p_mem s) of (ok, m) \<Rightarrow>
        if \<not> ok then Some (Inl ENOMEM, s\<lparr>p_mem := m\<rparr>)
        else open_consoles ops 3 (s\<lparr>p_mem := m, t_filetable := Some (replicate FOPEN_MAX None)\<rparr>))"

text \<open>The loop of \<^verbatim>\<open>filetable_destroy\<close>, which is called with the table of the running thread.\<close>

fun destroy_loop :: "'w vnops \<Rightarrow> nat \<Rightarrow> nat \<Rightarrow> 'w proc \<Rightarrow> 'w proc option" where
  "destroy_loop ops i 0 s = Some s"
| "destroy_loop ops i (Suc k) s = do {
     x \<leftarrow> ft_get i s;
     s \<leftarrow> (if x \<noteq> None then do { (r, s) \<leftarrow> file_close ops (int i) s; Some s } else Some s);
     destroy_loop ops (Suc i) k s
   }"

definition filetable_destroy :: "'w vnops \<Rightarrow> 'w proc \<Rightarrow> 'w proc option" where
  "filetable_destroy ops s =
     (if t_filetable s = None then Some s
      else do {
        s \<leftarrow> destroy_loop ops 0 FOPEN_MAX s;
        Some (s\<lparr>t_filetable := None\<rparr>)
      })"

section \<open>System calls\<close>

text \<open>The console vnode of the programs, null when it cannot be opened; the call in \<^verbatim>\<open>boot\<close> is commented out.\<close>

definition dumb_consoleIO_bootstrap :: "'w vnops \<Rightarrow> 'w vfs \<Rightarrow> (nat option \<times> 'w vfs) option" where
  "dumb_consoleIO_bootstrap ops s = do {
     (r, s) \<leftarrow> vfs_open ops con_path O_RDWR s;
     Some (case r of Inl e \<Rightarrow> None | Inr v \<Rightarrow> Some v, s)
   }"

text \<open>\<^verbatim>\<open>copyinstr\<close> into a buffer of \<open>len\<close> bytes.\<close>

definition copyinstr :: "byte list option \<Rightarrow> nat \<Rightarrow> byte list res" where
  "copyinstr us len =
     (case us of
        None \<Rightarrow> Inl EFAULT
      | Some str \<Rightarrow> if length str + 1 > len then Inl ENAMETOOLONG else Inr str)"

text \<open>The user buffer is the region of \<open>len\<close> bytes with contents \<open>buf\<close>; \<open>faults\<close> are the outcomes of the copies.\<close>

definition mk_useruio :: "byte list \<Rightarrow> nat option list \<Rightarrow> nat \<Rightarrow> int \<Rightarrow> uio_rw \<Rightarrow> uio" where
  "mk_useruio buf faults len offset rw =
     \<lparr>uio_data = buf, uio_pos = 0, iov_len = len, uio_offset = offset, uio_resid = len, uio_segflg = UIO_USERSPACE,
      uio_dir = rw, uio_space_ok = True, uio_faults = faults\<rparr>"

definition sys_open :: "'w vnops \<Rightarrow> byte list option \<Rightarrow> int \<Rightarrow> 'w proc \<Rightarrow> (nat res \<times> 'w proc) option" where
  "sys_open ops filename flags s =
     (case copyinstr filename PATH_MAX of
        Inl e \<Rightarrow> Some (Inl e, s)
      | Inr fname \<Rightarrow> file_open ops fname flags s)"

text \<open>\<^verbatim>\<open>sys_read\<close>, \<^verbatim>\<open>sys_write\<close> and \<^verbatim>\<open>sys_getdirentry\<close> differ in the operation of the vnode and the direction. The result is
  the number of bytes moved, and the user buffer afterwards.\<close>

definition sys_io :: "(nat \<Rightarrow> uio \<Rightarrow> 'w \<Rightarrow> (unit res \<times> uio \<times> 'w) option) \<Rightarrow> uio_rw \<Rightarrow> int \<Rightarrow> byte list \<Rightarrow> nat option list \<Rightarrow>
    nat \<Rightarrow> 'w proc \<Rightarrow> (int res \<times> byte list \<times> 'w proc) option" where
  "sys_io vop rw fd buf faults len s = do {
     r \<leftarrow> filetable_findfile fd s;
     case r of
       Inl e \<Rightarrow> Some (Inl e, buf, s)
     | Inr p \<Rightarrow> do {
         f \<leftarrow> of_heap s p;
         let u = mk_useruio buf faults len (of_offset f) rw;
         ((r, u), s) \<leftarrow> in_vnode (\<lambda>w. do { (r, u, w) \<leftarrow> vop (of_vnode f) u w; Some ((r, u), w) }) s;
         case r of
           Inl e \<Rightarrow> Some (Inl e, uio_data u, s)
         | Inr _ \<Rightarrow> do {
             f \<leftarrow> of_heap s p;
             let s = of_put p (f\<lparr>of_offset := uio_offset u\<rparr>) s;
             Some (Inr (off32 (int len - int (uio_resid u))), uio_data u, s)
           }
       }
   }"

definition sys_read :: "'w vnops \<Rightarrow> int \<Rightarrow> byte list \<Rightarrow> nat option list \<Rightarrow> nat \<Rightarrow> 'w proc \<Rightarrow> (int res \<times> byte list \<times> 'w proc) option" where
  "sys_read ops fd buf faults len s = sys_io (vop_read ops) UIO_READ fd buf faults len s"

definition sys_write :: "'w vnops \<Rightarrow> int \<Rightarrow> byte list \<Rightarrow> nat option list \<Rightarrow> nat \<Rightarrow> 'w proc \<Rightarrow> (int res \<times> byte list \<times> 'w proc) option" where
  "sys_write ops fd buf faults len s = sys_io (vop_write ops) UIO_WRITE fd buf faults len s"

definition sys_getdirentry :: "'w vnops \<Rightarrow> int \<Rightarrow> byte list \<Rightarrow> nat option list \<Rightarrow> nat \<Rightarrow> 'w proc \<Rightarrow>
    (int res \<times> byte list \<times> 'w proc) option" where
  "sys_getdirentry ops fd buf faults buflen s = sys_io (vop_getdirentry ops) UIO_READ fd buf faults buflen s"

definition sys_close :: "'w vnops \<Rightarrow> int \<Rightarrow> 'w proc \<Rightarrow> (unit res \<times> 'w proc) option" where
  "sys_close ops fd s = file_close ops fd s"

text \<open>The new position; the result of \<^verbatim>\<open>VOP_STAT\<close> is not tested, so a failure leaves \<^verbatim>\<open>statbuf\<close> uninitialised.\<close>

definition seek_pos :: "'w vnops \<Rightarrow> openfile \<Rightarrow> int \<Rightarrow> int \<Rightarrow> 'w proc \<Rightarrow> (int res \<times> 'w proc) option" where
  "seek_pos ops f offset whence s =
     (if whence = SEEK_SET then Some (Inr offset, s)
      else if whence = SEEK_CUR then do { pos \<leftarrow> cint (of_offset f + offset); Some (Inr pos, s) }
      else if whence = SEEK_END then do {
        (r, s) \<leftarrow> in_vnode (vop_stat ops (of_vnode f)) s;
        case r of
          Inl e \<Rightarrow> None
        | Inr st \<Rightarrow> do {
            last' \<leftarrow> cint (st_size st - 1);
            pos \<leftarrow> cint (last' + offset);
            Some (Inr pos, s)
          }
      }
      else Some (Inl EINVAL, s))"

definition sys_lseek :: "'w vnops \<Rightarrow> int \<Rightarrow> int \<Rightarrow> int \<Rightarrow> 'w proc \<Rightarrow> (int res \<times> 'w proc) option" where
  "sys_lseek ops fd offset whence s = do {
     r \<leftarrow> filetable_findfile fd s;
     case r of
       Inl e \<Rightarrow> Some (Inl e, s)
     | Inr p \<Rightarrow> do {
         f \<leftarrow> of_heap s p;
         (r, s) \<leftarrow> seek_pos ops f offset whence s;
         case r of
           Inl e \<Rightarrow> Some (Inl e, s)
         | Inr pos \<Rightarrow>
             if pos < 0 then Some (Inl EINVAL, s)
             else do {
               (r, s) \<leftarrow> in_vnode (vop_tryseek ops (of_vnode f) pos) s;
               case r of
                 Inl e \<Rightarrow> Some (Inl e, s)
               | Inr _ \<Rightarrow> do {
                   f \<leftarrow> of_heap s p;
                   Some (Inr pos, of_put p (f\<lparr>of_offset := pos\<rparr>) s)
                 }
             }
       }
   }"

definition sys_dup2 :: "'w vnops \<Rightarrow> int \<Rightarrow> int \<Rightarrow> 'w proc \<Rightarrow> (int res \<times> 'w proc) option" where
  "sys_dup2 ops oldfd newfd s = do {
     r \<leftarrow> filetable_findfile oldfd s;
     case r of
       Inl e \<Rightarrow> Some (Inl e, s)
     | Inr p \<Rightarrow>
         if newfd < 0 \<or> newfd \<ge> int FOPEN_MAX then Some (Inl EBADF, s)
         else do {
           x \<leftarrow> ft_get (nat newfd) s;
           s \<leftarrow> (if x \<noteq> None then do { (r, s) \<leftarrow> file_close ops newfd s; Some s } else Some s);
           s \<leftarrow> ft_set (nat newfd) (Some p) s;
           f \<leftarrow> of_heap s p;
           n \<leftarrow> cint (of_refcount f + 1);
           Some (Inr newfd, of_put p (f\<lparr>of_refcount := n\<rparr>) s)
         }
   }"

text \<open>A system call that copies a path in and hands it to the VFS layer.\<close>

definition sys_path :: "(byte list \<Rightarrow> 'w vfs \<Rightarrow> (unit res \<times> 'w vfs) option) \<Rightarrow> byte list option \<Rightarrow> nat \<Rightarrow> 'w proc \<Rightarrow>
    (unit res \<times> 'w proc) option" where
  "sys_path f path len s =
     (case copyinstr path len of Inl e \<Rightarrow> Some (Inl e, s) | Inr p \<Rightarrow> in_vfs (f p) s)"

definition sys_chdir :: "'w vnops \<Rightarrow> byte list option \<Rightarrow> 'w proc \<Rightarrow> (unit res \<times> 'w proc) option" where
  "sys_chdir ops path s = sys_path (vfs_chdir ops) path (NAME_MAX + 1) s"

definition sys_mkdir :: "'w vnops \<Rightarrow> byte list option \<Rightarrow> 'w proc \<Rightarrow> (unit res \<times> 'w proc) option" where
  "sys_mkdir ops path s = sys_path (vfs_mkdir ops) path (NAME_MAX + 1) s"

definition sys_rmdir :: "'w vnops \<Rightarrow> byte list option \<Rightarrow> 'w proc \<Rightarrow> (unit res \<times> 'w proc) option" where
  "sys_rmdir ops path s = sys_path (vfs_rmdir ops) path PATH_MAX s"

definition sys_remove :: "'w vnops \<Rightarrow> byte list option \<Rightarrow> 'w proc \<Rightarrow> (unit res \<times> 'w proc) option" where
  "sys_remove ops path s = sys_path (vfs_remove ops) path PATH_MAX s"

definition sys___getcwd :: "'w vnops \<Rightarrow> byte list \<Rightarrow> nat option list \<Rightarrow> nat \<Rightarrow> 'w proc \<Rightarrow> (int res \<times> byte list \<times> 'w proc) option" where
  "sys___getcwd ops buf faults buflen s = do {
     (r, u, x) \<leftarrow> vfs_getcwd ops (mk_useruio buf faults buflen 0 UIO_READ) (p_vfs s);
     let s = s\<lparr>p_vfs := x\<rparr>;
     case r of
       Inl e \<Rightarrow> Some (Inl e, uio_data u, s)
     | Inr _ \<Rightarrow> Some (Inr (off32 (int buflen - int (uio_resid u))), uio_data u, s)
   }"

text \<open>The two buffers are not tested for allocation failure, and are freed only on the path to \<^verbatim>\<open>vfs_rename\<close>.\<close>

definition sys_rename :: "'w vnops \<Rightarrow> byte list option \<Rightarrow> byte list option \<Rightarrow> 'w proc \<Rightarrow> (unit res \<times> 'w proc) option" where
  "sys_rename ops oldpath newpath s =
     (case kmalloc (p_mem s) of (ok1, m) \<Rightarrow>
        case kmalloc m of (ok2, m) \<Rightarrow>
          let s = s\<lparr>p_mem := m\<rparr> in
          do {
            kassert ok1;
            case copyinstr oldpath (PATH_MAX + 1) of
              Inl e \<Rightarrow> Some (Inl e, s)
            | Inr old_path \<Rightarrow> do {
                kassert ok2;
                case copyinstr newpath (PATH_MAX + 1) of
                  Inl e \<Rightarrow> Some (Inl e, s)
                | Inr new_path \<Rightarrow> in_vfs (vfs_rename ops old_path new_path) s
              }
          })"

definition encode_stat :: "stat \<Rightarrow> byte list" where
  "encode_stat st = put32 (st_mode st) @ put32 (st_nlink st) @ put32 (u32 (st_size st)) @ put32 (st_blocks st)"

definition sys_fstat :: "'w vnops \<Rightarrow> int \<Rightarrow> byte list \<Rightarrow> nat option list \<Rightarrow> 'w proc \<Rightarrow> (unit res \<times> byte list \<times> 'w proc) option" where
  "sys_fstat ops fd statptr faults s = do {
     r \<leftarrow> filetable_findfile fd s;
     case r of
       Inl e \<Rightarrow> Some (Inl e, statptr, s)
     | Inr p \<Rightarrow> do {
         f \<leftarrow> of_heap s p;
         (r, s) \<leftarrow> in_vnode (vop_stat ops (of_vnode f)) s;
         case r of
           Inl e \<Rightarrow> Some (Inl e, statptr, s)
         | Inr st \<Rightarrow> do {
             (r, _, u) \<leftarrow> uiomove (encode_stat st) 0 16 (mk_useruio statptr faults 16 0 UIO_READ);
             Some (r, uio_data u, s)
           }
       }
   }"

section \<open>Descriptors\<close>

lemma findfile_simps [simp]:
  "filetable_findfile fd (of_put p f s) = filetable_findfile fd s"
  "filetable_findfile fd (s\<lparr>p_vfs := x\<rparr>) = filetable_findfile fd s"
  by (simp_all add: filetable_findfile_def ft_get_def of_put_def)

lemma of_put_simps [simp]:
  "of_heap (of_put p f s) = (of_heap s)(p \<mapsto> f)" "p_vfs (of_put p f s) = p_vfs s" "t_filetable (of_put p f s) = t_filetable s"
  by (simp_all add: of_put_def)

text \<open>The descriptor \<open>fd\<close> is open on the vnode \<open>v\<close> through the object at \<open>p\<close>.\<close>

definition refers :: "int \<Rightarrow> nat \<Rightarrow> openfile \<Rightarrow> nat \<Rightarrow> 'w proc \<Rightarrow> bool" where
  "refers fd p f v s \<longleftrightarrow> filetable_findfile fd s = Some (Inr p) \<and> of_heap s p = Some f \<and> of_vnode f = v"

lemma refers_update [simp]:
  "refers fd p f v s \<Longrightarrow> refers fd p (f\<lparr>of_offset := n\<rparr>) v (of_put p (f\<lparr>of_offset := n\<rparr>) (s\<lparr>p_vfs := x\<rparr>))"
  by (simp add: refers_def)

abbreviation world :: "'w proc \<Rightarrow> 'w" where
  "world s \<equiv> vfs_w (p_vfs s)"

text \<open>The effect of a transfer that succeeds.\<close>

lemma sys_io_ok:
  assumes "refers fd p f v s" and "vop v (mk_useruio buf faults len (of_offset f) rw) (world s) = Some (Inr (), u, w)"
  shows "sys_io vop rw fd buf faults len s = Some (Inr (off32 (int len - int (uio_resid u))), uio_data u,
    of_put p (f\<lparr>of_offset := uio_offset u\<rparr>) (s\<lparr>p_vfs := (p_vfs s)\<lparr>vfs_w := w\<rparr>\<rparr>))"
  using assms by (simp add: sys_io_def refers_def in_vnode_def in_vfs_def below_def)

lemma sys_io_fail:
  assumes "refers fd p f v s" and "vop v (mk_useruio buf faults len (of_offset f) rw) (world s) = Some (Inl e, u, w)"
  shows "sys_io vop rw fd buf faults len s = Some (Inl e, uio_data u, s\<lparr>p_vfs := (p_vfs s)\<lparr>vfs_w := w\<rparr>\<rparr>)"
  using assms by (simp add: sys_io_def refers_def in_vnode_def in_vfs_def below_def)

lemma sys_lseek_set:
  assumes "refers fd p f v s" and "vop_tryseek ops v pos (world s) = Some (Inr (), w)" and "0 \<le> pos"
  shows "sys_lseek ops fd pos SEEK_SET s =
    Some (Inr pos, of_put p (f\<lparr>of_offset := pos\<rparr>) (s\<lparr>p_vfs := (p_vfs s)\<lparr>vfs_w := w\<rparr>\<rparr>))"
  using assms by (simp add: sys_lseek_def seek_pos_def refers_def in_vnode_def in_vfs_def below_def)

lemma mk_useruio_simps [simp]:
  "uio_data (mk_useruio buf fs n pos rw) = buf" "uio_pos (mk_useruio buf fs n pos rw) = 0" "uio_dir (mk_useruio buf fs n pos rw) = rw"
  "uio_offset (mk_useruio buf fs n pos rw) = pos" "uio_resid (mk_useruio buf fs n pos rw) = n" "iov_len (mk_useruio buf fs n pos rw) = n"
  "uio_quiet (mk_useruio buf [] n pos rw)"
  by (simp_all add: mk_useruio_def uio_quiet_def)

lemma mk_useruio_wf: "length buf = n \<Longrightarrow> 0 \<le> pos \<Longrightarrow> pos + int n < 2 ^ 31 \<Longrightarrow> uio_wf (mk_useruio buf fs n pos rw)"
  by (simp add: uio_wf_def) (simp add: mk_useruio_def)

section \<open>Closing shared descriptors\<close>

lemma findfile_nth:
  "t_filetable s = Some ft \<Longrightarrow> length ft = FOPEN_MAX \<Longrightarrow> fd < FOPEN_MAX \<Longrightarrow>
   filetable_findfile (int fd) s = Some (case ft ! fd of None \<Rightarrow> Inl EBADF | Some p \<Rightarrow> Inr p)"
  by (auto simp: filetable_findfile_def ft_get_def split: option.split)

lemma findfile_range: "fd < 0 \<or> fd \<ge> int FOPEN_MAX \<Longrightarrow> filetable_findfile fd s = Some (Inl EBADF)"
  by (auto simp: filetable_findfile_def)

text \<open>Closing another object does not touch the one at \<open>p\<close> or the descriptors that refer to it.\<close>

lemma file_close_other:
  assumes "file_close ops fd s = Some (r, s')" and "filetable_findfile fd s \<noteq> Some (Inr p)"
  shows "of_heap s' p = of_heap s p"
    and "t_filetable s = Some ft \<Longrightarrow> \<exists>ft'. t_filetable s' = Some ft' \<and> length ft' = length ft \<and>
      (\<forall>a < length ft. ft ! a = Some p \<longrightarrow> ft' ! a = Some p)"
proof -
  have "of_heap s' p = of_heap s p \<and> (\<forall>ft. t_filetable s = Some ft \<longrightarrow> (\<exists>ft'. t_filetable s' = Some ft' \<and> length ft' = length ft \<and>
      (\<forall>a < length ft. ft ! a = Some p \<longrightarrow> ft' ! a = Some p)))"
  proof (cases "filetable_findfile fd s")
    case (Some x)
    show ?thesis
    proof (cases x)
      case (Inl e)
      with assms(1) Some show ?thesis by (simp add: file_close_def)
    next
      case (Inr q)
      then have q: "q \<noteq> p" "\<And>ft. t_filetable s = Some ft \<Longrightarrow> nat fd < length ft \<and> ft ! nat fd = Some q"
        using assms(2) Some by (auto simp: filetable_findfile_def ft_get_def split: if_splits option.splits elim!: bind_SomeE)
      from assms(1) Some Inr show ?thesis
        by (auto simp: file_close_def in_vfs_def ft_set_def Let_def nth_list_update q not_sym [OF q(1)] split: if_splits elim!: bind_SomeE)
    qed
  qed (use assms(1) in \<open>simp add: file_close_def\<close>)
  then show "of_heap s' p = of_heap s p"
    and "t_filetable s = Some ft \<Longrightarrow> \<exists>ft'. t_filetable s' = Some ft' \<and> length ft' = length ft \<and>
      (\<forall>a < length ft. ft ! a = Some p \<longrightarrow> ft' ! a = Some p)" by blast+
qed

text \<open>A table in which some descriptor from \<open>i\<close> on refers to the object at \<open>p\<close>.\<close>

definition refers_from :: "nat \<Rightarrow> nat \<Rightarrow> 'w proc \<Rightarrow> nat \<Rightarrow> bool" where
  "refers_from i p s a \<longleftrightarrow> i \<le> a \<and> a < FOPEN_MAX \<and> (\<exists>ft. t_filetable s = Some ft \<and> length ft = FOPEN_MAX \<and> ft ! a = Some p)"

lemma refers_from_close:
  assumes "refers_from i p s a" and "file_close ops fd s = Some (r, s')" and "filetable_findfile fd s \<noteq> Some (Inr p)" and "j \<le> a"
  shows "refers_from j p s' a"
  using assms file_close_other(2) [OF assms(2,3)] by (fastforce simp: refers_from_def)

lemma destroy_freed:
  "refers_from i p s b \<Longrightarrow> of_heap s p = None \<Longrightarrow> i + k = FOPEN_MAX \<Longrightarrow> destroy_loop ops i k s = None"
proof (induction k arbitrary: i s)
  case 0
  then show ?case by (simp add: refers_from_def)
next
  case (Suc k)
  then obtain ft where ft: "t_filetable s = Some ft" "length ft = FOPEN_MAX" "ft ! b = Some p" "i \<le> b" "i < FOPEN_MAX"
    by (auto simp: refers_from_def)
  have get: "ft_get i s = Some (ft ! i)" using ft by (simp add: ft_get_def)
  show ?case
  proof (cases "ft ! i = Some p")
    case True
    then have "file_close ops (int i) s = None"
      using findfile_nth [OF ft(1,2,5)] Suc.prems(2) by (simp add: file_close_def)
    with True get show ?thesis by simp
  next
    case False
    then have ib: "Suc i \<le> b" using ft(3,4) by (cases "i = b") auto
    have nf: "filetable_findfile (int i) s \<noteq> Some (Inr p)" using False findfile_nth [OF ft(1,2,5)] by (auto split: option.splits)
    have "destroy_loop ops (Suc i) k s' = None" if "file_close ops (int i) s = Some (r, s')" for r s'
      using Suc.IH [of "Suc i" s'] Suc.prems refers_from_close [OF Suc.prems(1) that nf ib] file_close_other(1) [OF that nf] by simp
    moreover have "destroy_loop ops (Suc i) k s = None"
      using Suc.IH [of "Suc i" s] Suc.prems ib by (simp add: refers_from_def)
    ultimately show ?thesis using get by (cases "file_close ops (int i) s") auto
  qed
qed

lemma destroy_shared:
  "refers_from i p s a \<Longrightarrow> refers_from i p s b \<Longrightarrow> a < b \<Longrightarrow> of_heap s p = Some f \<Longrightarrow> of_refcount f = 1 \<Longrightarrow> i + k = FOPEN_MAX \<Longrightarrow>
   destroy_loop ops i k s = None"
proof (induction k arbitrary: i s)
  case 0
  then show ?case by (simp add: refers_from_def)
next
  case (Suc k)
  then obtain ft where ft: "t_filetable s = Some ft" "length ft = FOPEN_MAX" "ft ! a = Some p" "ft ! b = Some p" "i \<le> a" "i < FOPEN_MAX"
    "b < FOPEN_MAX" by (auto simp: refers_from_def)
  have get: "ft_get i s = Some (ft ! i)" using ft by (simp add: ft_get_def)
  note find = findfile_nth [OF ft(1,2,6)]
  show ?case
  proof (cases "ft ! i = Some p")
    case True
    have "destroy_loop ops (Suc i) k s' = None" if c: "file_close ops (int i) s = Some (r, s')" for r s'
    proof -
      from c True find Suc.prems(4,5) have "of_heap s' p = None" "t_filetable s' = Some (ft[i := None])"
        by (auto simp: file_close_def in_vfs_def ft_set_def ft Let_def elim!: bind_SomeE)
      then show ?thesis using ft Suc.prems(3,6) by (intro destroy_freed [where b = b and p = p]) (auto simp: refers_from_def)
    qed
    with True get show ?thesis by (cases "file_close ops (int i) s") auto
  next
    case False
    then have ia: "Suc i \<le> a" using ft(3,5) by (cases "i = a") auto
    then have ib: "Suc i \<le> b" using Suc.prems(3) by simp
    have nf: "filetable_findfile (int i) s \<noteq> Some (Inr p)" using False find by (auto split: option.splits)
    have "destroy_loop ops (Suc i) k s' = None" if "file_close ops (int i) s = Some (r, s')" for r s'
      using Suc.IH [of "Suc i" s'] Suc.prems refers_from_close [OF Suc.prems(1) that nf ia] refers_from_close [OF Suc.prems(2) that nf ib]
        file_close_other(1) [OF that nf] by simp
    moreover have "destroy_loop ops (Suc i) k s = None"
      using Suc.IH [of "Suc i" s] Suc.prems ia ib by (simp add: refers_from_def)
    ultimately show ?thesis using get by (cases "file_close ops (int i) s") auto
  qed
qed

lemma destroy_shared_pair:
  assumes "t_filetable s = Some ft" "length ft = FOPEN_MAX" and "a < FOPEN_MAX" "b < FOPEN_MAX" "a \<noteq> b"
    and "ft ! a = Some p" "ft ! b = Some p" and "of_heap s p = Some f" "of_refcount f = 1"
  shows "filetable_destroy ops s = None"
proof -
  have "refers_from 0 p s (min a b)" "refers_from 0 p s (max a b)" "min a b < max a b"
    using assms by (auto simp: refers_from_def min_def max_def)
  from destroy_shared [OF this assms(8,9), of 16 ops] assms(1) show ?thesis by (simp add: filetable_destroy_def)
qed

section \<open>Opening\<close>

text \<open>The least free descriptor, or \<^verbatim>\<open>FOPEN_MAX\<close>.\<close>

definition least_free :: "nat option list \<Rightarrow> nat" where
  "least_free ft = length (takeWhile (\<lambda>x. x \<noteq> None) ft)"

lemma least_free_props:
  "least_free ft \<le> length ft" "least_free ft < length ft \<Longrightarrow> ft ! least_free ft = None"
  "a < least_free ft \<Longrightarrow> ft ! a \<noteq> None" "least_free ft = length ft \<longleftrightarrow> None \<notin> set ft"
proof -
  show "least_free ft \<le> length ft" by (simp add: least_free_def length_takeWhile_le)
  show "least_free ft < length ft \<Longrightarrow> ft ! least_free ft = None"
    using nth_length_takeWhile [of "\<lambda>x. x \<noteq> None" ft] by (simp add: least_free_def)
  show "a < least_free ft \<Longrightarrow> ft ! a \<noteq> None"
    using set_takeWhileD [of "ft ! a" "\<lambda>x. x \<noteq> None" ft] takeWhile_nth [of a "\<lambda>x. x \<noteq> None" ft]
      nth_mem [of a "takeWhile (\<lambda>x. x \<noteq> None) ft"] by (auto simp: least_free_def)
  show "least_free ft = length ft \<longleftrightarrow> None \<notin> set ft"
    by (induction ft) (auto simp: least_free_def)
qed

lemma getfd_least:
  assumes "t_filetable s = Some ft" and "fd \<le> least_free ft" and "fd + k = length ft"
  shows "getfd_loop fd k s = Some (least_free ft)"
  using assms(2,3)
proof (induction k arbitrary: fd)
  case 0
  then show ?case using least_free_props(1) [of ft] by simp
next
  case (Suc k)
  then have get: "ft_get fd s = Some (ft ! fd)" using assms(1) by (simp add: ft_get_def)
  show ?case
  proof (cases "fd = least_free ft")
    case True
    with get least_free_props(2) [of ft] Suc.prems show ?thesis by simp
  next
    case False
    with Suc get least_free_props(3) [of fd ft] show ?thesis by simp
  qed
qed

lemma getfd_ok: "t_filetable s = Some ft \<Longrightarrow> length ft = FOPEN_MAX \<Longrightarrow> filetable_getfd s = Some (least_free ft)"
  by (simp add: filetable_getfd_def getfd_least)

end
