(* ===== verification/K_Sfs_Layer.thy ===== *)
theory K_Sfs_Layer
  imports K_Sfs_Fs K_File
begin

text \<open>
  SFS below the VFS layer: the function tables \<^verbatim>\<open>sfs_fileops\<close> and \<^verbatim>\<open>sfs_dirops\<close> of \<^verbatim>\<open>kern/fs/sfs/sfs_vnode.c\<close> and the
  macro \<^verbatim>\<open>__VOP\<close> of \<^verbatim>\<open>kern/include/vnode.h\<close>, which checks the vnode and calls through its table. The state below
  is one mounted SFS; its address as a file system is 0. Device vnodes belong to other tables.
\<close>

section \<open>The function table\<close>

text \<open>\<^verbatim>\<open>__VOP\<close>: the check, and then the entry of the table the vnode has.\<close>

definition vop :: "(nat \<Rightarrow> sfs_fs \<Rightarrow> 'a option) \<Rightarrow> (nat \<Rightarrow> sfs_fs \<Rightarrow> 'a option) \<Rightarrow> nat \<Rightarrow> sfs_fs \<Rightarrow> 'a option" where
  "vop fileop dirop v s = do {
     s \<leftarrow> vnode_check False v s;
     vn \<leftarrow> sv_get v s;
     case vn_ops vn of sfs_fileops \<Rightarrow> fileop v s | sfs_dirops \<Rightarrow> dirop v s
   }"

definition sfs_notdir :: "'a \<Rightarrow> sfs_fs \<Rightarrow> ('b res \<times> sfs_fs) option" where
  "sfs_notdir x s = Some (Inl ENOTDIR, s)"

definition sfs_isdir :: "'a \<Rightarrow> sfs_fs \<Rightarrow> ('b res \<times> sfs_fs) option" where
  "sfs_isdir x s = Some (Inl EISDIR, s)"

definition sfs_unimp :: "'a \<Rightarrow> sfs_fs \<Rightarrow> ('b res \<times> sfs_fs) option" where
  "sfs_unimp x s = Some (Inl EUNIMP, s)"

text \<open>An entry that does not look at the \<^verbatim>\<open>uio\<close>.\<close>

definition uio_fail :: "errno \<Rightarrow> uio \<Rightarrow> nat \<Rightarrow> sfs_fs \<Rightarrow> (unit res \<times> uio \<times> sfs_fs) option" where
  "uio_fail e u v s = Some (Inl e, u, s)"

definition sfs_vnops :: "sfs_fs vnops" where
  "sfs_vnops = \<lparr>
     vop_open = (\<lambda>v flags. vop (\<lambda>v s. Some (sfs_open v flags, s)) (\<lambda>v s. Some (sfs_opendir v flags, s)) v),
     vop_read = (\<lambda>v u. vop (\<lambda>v. sfs_read v u) (uio_fail EISDIR u) v),
     vop_readlink = (\<lambda>v u. vop (uio_fail ENOTDIR u) (uio_fail EISDIR u) v),
     vop_getdirentry = (\<lambda>v u. vop (uio_fail ENOTDIR u) (\<lambda>v. sfs_getdirentry v u) v),
     vop_write = (\<lambda>v u. vop (\<lambda>v. sfs_write v u) (uio_fail EISDIR u) v),
     vop_stat = (let f = (\<lambda>v s. do { (st, s) \<leftarrow> sfs_stat v s; Some (Inr st, s) }) in vop f f),
     vop_gettype = (let f = (\<lambda>v s. do { t \<leftarrow> sfs_gettype v s; Some (Inr t, s) }) in vop f f),
     vop_tryseek = (\<lambda>v pos. vop (\<lambda>v s. Some (sfs_tryseek v pos, s)) sfs_unimp v),
     vop_truncate = (\<lambda>v len. vop (\<lambda>v. sfs_truncate v len) sfs_isdir v),
     vop_namefile = (\<lambda>v u. vop (uio_fail ENOTDIR u) (\<lambda>v s. do { r \<leftarrow> sfs_namefile v s; Some (r, u, s) }) v),
     vop_creat = (\<lambda>v name excl. vop sfs_notdir (\<lambda>v. sfs_creat v name excl) v),
     vop_symlink = (\<lambda>v a b. vop sfs_notdir sfs_unimp v),
     vop_mkdir = (\<lambda>v name. vop sfs_notdir (\<lambda>v. sfs_mkdir v name) v),
     vop_link = (\<lambda>v name file. vop sfs_notdir (\<lambda>v. sfs_link v name file) v),
     vop_remove = (\<lambda>v name. vop sfs_notdir (\<lambda>v. sfs_remove v name) v),
     vop_rmdir = (\<lambda>v name. vop sfs_notdir (\<lambda>v. sfs_rmdir v name) v),
     vop_rename = (\<lambda>v n1 v2 n2. vop sfs_notdir (\<lambda>v. sfs_rename v n1 v2 n2) v),
     vop_lookup = (\<lambda>v path. vop sfs_notdir (\<lambda>v. sfs_lookup v path) v),
     vop_lookparent = (\<lambda>v path buflen. vop sfs_notdir (\<lambda>v. sfs_lookparent v path buflen) v),
     vop_incref = vnode_incref,
     vop_decref = vnode_decref,
     vop_incopen = vnode_incopen,
     vop_decopen = vnode_decopen,
     vn_fs = (\<lambda>v s. Some 0),
     fsop_sync = (\<lambda>fs. sfs_sync),
     fsop_getvolname = (\<lambda>fs. sfs_getvolname),
     fsop_getroot = (\<lambda>fs. sfs_getroot),
     fsop_unmount = (\<lambda>fs s. do { (r, s') \<leftarrow> sfs_unmount s; Some (r, case s' of None \<Rightarrow> s | Some s' \<Rightarrow> s') }),
     dev_create_vnode = (\<lambda>dev s. None)\<rparr>"

section \<open>Files that can be read, written and positioned\<close>

text \<open>
  What the system calls rely on: a vnode that stands for a sequence of bytes. \<open>fsize\<close> and \<open>byte_at\<close> are the
  abstract file.
\<close>

locale seekable_file =
  fixes ops :: "'w vnops" and v :: nat and inv :: "'w \<Rightarrow> bool" and fsize :: "'w \<Rightarrow> nat"
    and byte_at :: "'w \<Rightarrow> nat \<Rightarrow> byte" and maxsize :: nat
  assumes read_law: "inv w \<Longrightarrow> uio_wf u \<Longrightarrow> uio_quiet u \<Longrightarrow> uio_dir u = UIO_READ \<Longrightarrow> uio_offset u = int p \<Longrightarrow> 0 < uio_resid u \<Longrightarrow>
      vop_read ops v u w = Some (Inr (), uio_receive (map (byte_at w) [p..<p + min (uio_resid u) (fsize w - p)]) u, w)"
    and write_law: "inv w \<Longrightarrow> uio_wf u \<Longrightarrow> uio_quiet u \<Longrightarrow> uio_dir u = UIO_WRITE \<Longrightarrow> uio_offset u = int p \<Longrightarrow>
      p + uio_resid u \<le> maxsize \<Longrightarrow> \<exists>r k w'. vop_write ops v u w = Some (r, uio_advance k u, w') \<and> inv w' \<and> k \<le> uio_resid u \<and>
        (case r of Inr _ \<Rightarrow> k = uio_resid u | Inl e \<Rightarrow> e = ENOSPC \<or> e = EINVAL) \<and> fsize w' = max (fsize w) (p + k) \<and>
        (\<forall>x. byte_at w' x = (if p \<le> x \<and> x < p + k then uio_data u ! (uio_pos u + (x - p)) else byte_at w x))"
    and seek_law: "inv w \<Longrightarrow> 0 \<le> pos \<Longrightarrow> vop_tryseek ops v pos w = Some (Inr (), w)"
    and small: "maxsize < 2 ^ 31"
begin

lemma sys_read_file:
  assumes r: "refers fd p f v s" and inv: "inv (world s)" and buf: "length buf = n" "0 < n"
    and off: "of_offset f = int q" "q + n < 2 ^ 31"
    and bs: "bs = map (byte_at (world s)) [q..<q + min n (fsize (world s) - q)]"
  shows "sys_read ops fd buf [] n s = Some (Inr (int (length bs)), blit buf 0 bs,
    of_put p (f\<lparr>of_offset := int (q + length bs)\<rparr>) s)"
proof -
  let ?w = "world s" and ?u = "mk_useruio buf [] n (int q) UIO_READ"
  have len: "length bs \<le> n" by (simp add: bs)
  have rd: "vop_read ops v ?u ?w = Some (Inr (), uio_receive bs ?u, ?w)"
    using read_law [OF inv mk_useruio_wf] buf off(2) bs by simp
  have "s\<lparr>p_vfs := (p_vfs s)\<lparr>vfs_w := ?w\<rparr>\<rparr> = s" by simp
  then show ?thesis
    using sys_io_ok [where vop = "vop_read ops", OF r] rd off len by (simp add: sys_read_def uio_receive_def)
qed

lemma sys_write_file:
  assumes r: "refers fd p f v s" and inv: "inv (world s)" and off: "of_offset f = int q" "q + length buf \<le> maxsize"
  shows "\<exists>res k w. sys_write ops fd buf [] (length buf) s = Some (res, buf,
      (case res of Inl _ \<Rightarrow> s\<lparr>p_vfs := (p_vfs s)\<lparr>vfs_w := w\<rparr>\<rparr>
       | Inr _ \<Rightarrow> of_put p (f\<lparr>of_offset := int (q + k)\<rparr>) (s\<lparr>p_vfs := (p_vfs s)\<lparr>vfs_w := w\<rparr>\<rparr>))) \<and>
    inv w \<and> k \<le> length buf \<and>
    (case res of Inr n \<Rightarrow> n = int k \<and> k = length buf | Inl e \<Rightarrow> e = ENOSPC \<or> e = EINVAL) \<and>
    fsize w = max (fsize (world s)) (q + k) \<and>
    (\<forall>x. byte_at w x = (if q \<le> x \<and> x < q + k then buf ! (x - q) else byte_at (world s) x))"
proof -
  let ?u = "mk_useruio buf [] (length buf) (int q) UIO_WRITE"
  have "uio_wf ?u" using off(2) small by (intro mk_useruio_wf) auto
  note law = write_law [OF inv this, of q, unfolded mk_useruio_simps add_0]
  from law [OF mk_useruio_simps(7) refl refl off(2)] obtain rr k w where
    w: "vop_write ops v ?u (world s) = Some (rr, uio_advance k ?u, w)" "inv w" "k \<le> length buf"
      "case rr of Inr _ \<Rightarrow> k = length buf | Inl e \<Rightarrow> e = ENOSPC \<or> e = EINVAL" "fsize w = max (fsize (world s)) (q + k)"
      "\<forall>x. byte_at w x = (if q \<le> x \<and> x < q + k then buf ! (x - q) else byte_at (world s) x)" by blast
  show ?thesis
  proof (cases rr)
    case (Inl e)
    with sys_io_fail [where vop = "vop_write ops", OF r] w off(1) show ?thesis
      by (intro exI [of _ "Inl e"] exI [of _ k] exI [of _ w]) (simp add: sys_write_def)
  next
    case (Inr x)
    then have k: "k = length buf" using w(4) by simp
    have "length buf < 2 ^ 31" using off(2) small by simp
    with sys_io_ok [where vop = "vop_write ops", OF r] Inr w off(1) k show ?thesis
      by (intro exI [of _ "Inr (int k)"] exI [of _ k] exI [of _ w]) (simp add: sys_write_def)
  qed
qed

text \<open>What a process writes, it reads back after seeking to where it began.\<close>

lemma write_seek_read:
  assumes r: "refers fd p f v s" and inv: "inv (world s)" and off: "of_offset f = int q" "q + length bs \<le> maxsize"
    and bs: "bs \<noteq> []" "length buf = length bs"
  shows "\<exists>res s1. sys_write ops fd bs [] (length bs) s = Some (res, bs, s1) \<and>
    (case res of
       Inl e \<Rightarrow> e = ENOSPC \<or> e = EINVAL
     | Inr n \<Rightarrow> n = int (length bs) \<and> (\<exists>s2 s3. sys_lseek ops fd (int q) SEEK_SET s1 = Some (Inr (int q), s2) \<and>
         sys_read ops fd buf [] (length bs) s2 = Some (Inr (int (length bs)), bs, s3)))"
proof -
  from sys_write_file [OF r inv off] obtain res k w' where
    wr: "sys_write ops fd bs [] (length bs) s = Some (res, bs, (case res of Inl _ \<Rightarrow> s\<lparr>p_vfs := (p_vfs s)\<lparr>vfs_w := w'\<rparr>\<rparr>
       | Inr _ \<Rightarrow> of_put p (f\<lparr>of_offset := int (q + k)\<rparr>) (s\<lparr>p_vfs := (p_vfs s)\<lparr>vfs_w := w'\<rparr>\<rparr>)))"
    and inv': "inv w'" and res: "case res of Inr n \<Rightarrow> n = int k \<and> k = length bs | Inl e \<Rightarrow> e = ENOSPC \<or> e = EINVAL"
    and size: "fsize w' = max (fsize (world s)) (q + k)"
    and bytes: "\<And>x. byte_at w' x = (if q \<le> x \<and> x < q + k then bs ! (x - q) else byte_at (world s) x)" by blast
  show ?thesis
  proof (cases res)
    case (Inl e)
    with wr res show ?thesis by simp
  next
    case (Inr n)
    with res have n: "n = int (length bs)" "k = length bs" by simp_all
    let ?f1 = "f\<lparr>of_offset := int (q + length bs)\<rparr>"
    define s1 where "s1 = of_put p ?f1 (s\<lparr>p_vfs := (p_vfs s)\<lparr>vfs_w := w'\<rparr>\<rparr>)"
    define s2 where "s2 = of_put p (?f1\<lparr>of_offset := int q\<rparr>) (s1\<lparr>p_vfs := (p_vfs s1)\<lparr>vfs_w := w'\<rparr>\<rparr>)"
    have r1: "refers fd p ?f1 v s1" and w1: "world s1 = w'" using r by (simp_all add: s1_def)
    have seek: "sys_lseek ops fd (int q) SEEK_SET s1 = Some (Inr (int q), s2)"
      using sys_lseek_set [OF r1, of ops "int q" w'] seek_law [OF inv', of "int q"] w1 by (simp add: s2_def)
    have r2: "refers fd p (?f1\<lparr>of_offset := int q\<rparr>) v s2" unfolding s2_def by (rule refers_update [OF r1])
    have w2: "world s2 = w'" by (simp add: s2_def)
    have "map (byte_at w') [q..<q + min (length bs) (fsize w' - q)] = bs"
      using size bytes n(2) by (intro nth_equalityI) auto
    then have "sys_read ops fd buf [] (length bs) s2 = Some (Inr (int (length bs)), blit buf 0 bs,
        of_put p ((?f1\<lparr>of_offset := int q\<rparr>)\<lparr>of_offset := int (q + length bs)\<rparr>) s2)"
      using r2 w2 inv' bs off(2) small by (intro sys_read_file) auto
    moreover have "blit buf 0 bs = bs" using bs(2) by (simp add: blit_all)
    ultimately show ?thesis using wr Inr n seek by (intro exI [of _ res] exI [of _ s1]) (auto simp: s1_def)
  qed
qed

end

section \<open>SFS files\<close>

definition sfs_file :: "nat \<Rightarrow> sfs_fs \<Rightarrow> bool" where
  "sfs_file v s \<longleftrightarrow> fs_quiet s \<and> SvLock v \<notin> sfs_held s \<and> CountLock v \<notin> sfs_held s \<and>
     (\<exists>sv. sfs_heap s v = Some sv \<and> vn_ops sv = sfs_fileops \<and> 0 < vn_refcount sv \<and> 0 \<le> vn_opencount sv \<and>
       inode_ok s (sv_i sv) \<and> sfi_size (sv_i sv) \<le> SFS_MAXBLOCKS * SFS_BLOCKSIZE)"

lemma vop_file:
  assumes "sfs_file v s"
  shows "vop f d v s = f v s"
proof -
  from assms obtain sv where sv: "sfs_heap s v = Some sv" "vn_ops sv = sfs_fileops" "0 < vn_refcount sv" "0 \<le> vn_opencount sv"
    and "CountLock v \<notin> sfs_held s" by (auto simp: sfs_file_def)
  with vnode_check_ok [of s v sv False] show ?thesis by (simp add: vop_def sv_get_def)
qed

lemma sfs_file_frame:
  assumes "sfs_file v s" and "io_frame v s s'" and "sfi_size (vinode s' v) \<le> SFS_MAXBLOCKS * SFS_BLOCKSIZE"
  shows "sfs_file v s'"
proof -
  from assms(1) obtain sv where sv: "sfs_heap s v = Some sv" "vn_ops sv = sfs_fileops" "0 < vn_refcount sv" "0 \<le> vn_opencount sv"
    and locks: "SvLock v \<notin> sfs_held s" "CountLock v \<notin> sfs_held s" by (auto simp: sfs_file_def)
  from assms(2) sv(1) obtain sv' where sv': "sfs_heap s' v = Some sv'" "sv_erase sv' = sv_erase sv"
    by (auto simp: io_frame_def)
  note er = sv_eraseD [OF sv'(2)]
  from assms(2,3) sv' er sv locks show ?thesis
    by (auto simp: sfs_file_def io_frame_def vinode_def)
qed

interpretation sfile: seekable_file sfs_vnops v "sfs_file v" "\<lambda>s. sfi_size (vinode s v)" "\<lambda>s. fbyte s (vinode s v)"
  "SFS_MAXBLOCKS * SFS_BLOCKSIZE" for v
proof
  fix w u p assume w: "sfs_file v w" and u: "uio_wf u" "uio_quiet u" "uio_dir u = UIO_READ" "uio_offset u = int p" "0 < uio_resid u"
  from w obtain sv where sv: "fs_quiet w" "sfs_heap w v = Some sv" "inode_ok w (sv_i sv)" "sfi_size (sv_i sv) \<le> SFS_MAXBLOCKS * SFS_BLOCKSIZE"
    "SvLock v \<notin> sfs_held w" by (auto simp: sfs_file_def)
  have "sfs_read v u w = Some (Inr (), uio_receive (fbytes w (sv_i sv) p (min (uio_resid u) (sfi_size (sv_i sv) - p))) u, w)"
    by (rule sfs_read_spec [OF sv u])
  then show "vop_read sfs_vnops v u w = Some (Inr (), uio_receive (map (fbyte w (vinode w v))
      [p..<p + min (uio_resid u) (sfi_size (vinode w v) - p)]) u, w)"
    using sv(2) by (simp add: sfs_vnops_def vop_file [OF w] fbytes_def vinode_def)
next
  fix w u p assume w: "sfs_file v w" and u: "uio_wf u" "uio_quiet u" "uio_dir u = UIO_WRITE" "uio_offset u = int p"
    and max: "p + uio_resid u \<le> SFS_MAXBLOCKS * SFS_BLOCKSIZE"
  from w obtain sv where sv: "fs_quiet w" "sfs_heap w v = Some sv" "inode_ok w (sv_i sv)" "sfi_size (sv_i sv) \<le> SFS_MAXBLOCKS * SFS_BLOCKSIZE"
    "SvLock v \<notin> sfs_held w" by (auto simp: sfs_file_def)
  have vi: "vinode w v = sv_i sv" using sv(2) by (simp add: vinode_def)
  have "sfi_size (sv_i sv) < 2 ^ 31" using sv(4) by simp
  from sfs_write_spec [OF sv(1-3) this sv(5) u] obtain r k w' where
    wr: "sfs_write v u w = Some (r, uio_advance k u, w')" "k \<le> uio_resid u"
      "case r of Inr _ \<Rightarrow> k = uio_resid u | Inl e \<Rightarrow> e = ENOSPC \<or> e = EINVAL"
      "sfi_size (vinode w' v) = max (sfi_size (sv_i sv)) (p + k)"
      "\<forall>x. fbyte w' (vinode w' v) x =
         (if p \<le> x \<and> x < p + k then uio_data u ! (uio_pos u + (x - p)) else fbyte w (sv_i sv) x)" "io_frame v w w'" by blast
  have "sfs_file v w'" using wr(2,4) sv(4) max by (intro sfs_file_frame [OF w wr(6)]) simp
  moreover have "vop_write sfs_vnops v u w = Some (r, uio_advance k u, w')" using wr(1) by (simp add: sfs_vnops_def vop_file [OF w])
  ultimately show "\<exists>r k w'. vop_write sfs_vnops v u w = Some (r, uio_advance k u, w') \<and> sfs_file v w' \<and> k \<le> uio_resid u \<and>
      (case r of Inr _ \<Rightarrow> k = uio_resid u | Inl e \<Rightarrow> e = ENOSPC \<or> e = EINVAL) \<and>
      sfi_size (vinode w' v) = max (sfi_size (vinode w v)) (p + k) \<and>
      (\<forall>x. fbyte w' (vinode w' v) x =
         (if p \<le> x \<and> x < p + k then uio_data u ! (uio_pos u + (x - p)) else fbyte w (vinode w v) x))"
    using wr(2-5) unfolding vi by blast
next
  fix w pos assume "sfs_file v w" and "0 \<le> (pos :: int)"
  then show "vop_tryseek sfs_vnops v pos w = Some (Inr (), w)"
    by (simp add: sfs_vnops_def vop_file sfs_tryseek_def)
qed simp

text \<open>\<^verbatim>\<open>file_open\<close> once there is a descriptor and an object for it.\<close>

lemma file_open_opens:
  assumes "t_filetable s = Some ft" and "length ft = FOPEN_MAX" and "of_heap s (of_fresh s) = None" and lt: "None \<in> set ft \<Longrightarrow> least_free ft < FOPEN_MAX"
    and free: "None \<in> set ft" and mem: "fst (kmalloc (p_mem s))"
  shows "case vfs_open ops path flags (p_vfs s) of
       None \<Rightarrow> file_open ops path flags s = None
     | Some (Inl e, x) \<Rightarrow>
         if fst (kmalloc (null_words s)) then \<exists>s'. file_open ops path flags s = Some (Inl e, s') \<and>
           t_filetable s' = t_filetable s \<and> of_heap s' = of_heap s \<and> p_vfs s' = x
         else file_open ops path flags s = None
     | Some (Inr v, x) \<Rightarrow> \<exists>s' fd. file_open ops path flags s = Some (Inr fd, s') \<and> fd < FOPEN_MAX \<and> ft ! fd = None \<and>
         (\<forall>a < fd. ft ! a \<noteq> None) \<and> t_filetable s' = Some (ft[fd := Some (of_fresh s)]) \<and> p_vfs s' = x \<and>
         of_heap s' = (of_heap s)(of_fresh s \<mapsto> \<lparr>of_vnode = v, of_offset = 0, of_accmode = flags, of_refcount = 1\<rparr>) \<and>
         (\<forall>y. vfs_close ops v x = Some y \<longrightarrow> (\<exists>s''. file_close ops (int fd) s' = Some (Inr (), s'') \<and>
            t_filetable s'' = t_filetable s \<and> of_heap s'' = of_heap s \<and> p_vfs s'' = y))"
proof -
  note lf = least_free_props [where ft = ft] and fd = getfd_ok [OF assms(1,2)] and lt = lt [OF free]
  obtain null nw where nw: "kmalloc (null_words s) = (null, nw)" by fastforce
  obtain m where m: "kmalloc (p_mem s) = (True, m)" using mem by (cases "kmalloc (p_mem s)") simp
  show ?thesis
  proof (cases "vfs_open ops path flags (p_vfs s)")
    case None
    with lt fd nw m show ?thesis by (simp add: file_open_def in_vfs_def)
  next
    case (Some rx)
    obtain r x where rx: "rx = (r, x)" by fastforce
    show ?thesis
    proof (cases r)
      case (Inl e)
      with Some rx lt fd nw m show ?thesis by (simp add: file_open_def in_vfs_def)
    next
      case (Inr v)
      let ?p = "of_fresh s" and ?fd = "least_free ft"
      let ?f = "\<lparr>of_vnode = v, of_offset = 0, of_accmode = flags, of_refcount = 1\<rparr> :: openfile"
      define s' where "s' = (of_put ?p ?f (s\<lparr>p_mem := m, null_words := nw, p_vfs := x, of_fresh := ?p + 1\<rparr>))\<lparr>t_filetable := Some (ft[?fd := Some ?p])\<rparr>"
      have call: "file_open ops path flags s = Some (Inr ?fd, s')"
        using Inr Some rx lt fd nw m assms(1,2) by (simp add: file_open_def in_vfs_def ft_set_def s'_def Let_def)
      have t': "t_filetable s' = Some (ft[?fd := Some ?p])" "of_heap s' = (of_heap s)(?p \<mapsto> ?f)" "p_vfs s' = x" by (simp_all add: s'_def)
      have none: "ft ! ?fd = None" using lf(2) lt assms(2) by simp
      have "\<exists>s''. file_close ops (int ?fd) s' = Some (Inr (), s'') \<and> t_filetable s'' = t_filetable s \<and>
          of_heap s'' = of_heap s \<and> p_vfs s'' = y" if y: "vfs_close ops v x = Some y" for y
        using findfile_nth [OF t'(1) _ lt] y t' assms(1-3) lt none
        by (simp add: file_close_def in_vfs_def ft_set_def fun_upd_idem) (metis list_update_id list_update_overwrite)
      with call t' Inr Some rx lt none lf(3) show ?thesis by (auto intro!: exI [of _ s'] exI [of _ ?fd])
    qed
  qed
qed

section \<open>Properties\<close>

text \<open>C15: what a process writes to an SFS file through a descriptor, it reads back. When \<^verbatim>\<open>sys_write\<close> succeeds it has
  written every byte of the buffer (otherwise the error is \<^verbatim>\<open>ENOSPC\<close> or \<^verbatim>\<open>EINVAL\<close>); \<^verbatim>\<open>sys_lseek\<close> to the old offset succeeds, and \<^verbatim>\<open>sys_read\<close> then fills a buffer of the same
  size with exactly the bytes written. The path is the real one: descriptor table, open file,
  \<^verbatim>\<open>uio\<close>, function table, \<^verbatim>\<open>sfs_io\<close>, block map, free map and disk.

  This holds whatever access mode the file was opened with: no routine looks at \<open>of_accmode\<close>, although the manual
  pages of read and write ask for \<^verbatim>\<open>EBADF\<close> on a descriptor that is not open for it (see \<open>access_mode_ignored\<close>).\<close>

theorem sys_write_read_roundtrip:
  assumes "refers fd p f v s" and "sfs_file v (world s)" and "of_offset f = int q"
    and "q + length bs \<le> SFS_MAXBLOCKS * SFS_BLOCKSIZE" and "bs \<noteq> []" and "length buf = length bs"
  shows "\<exists>res s1. sys_write sfs_vnops fd bs [] (length bs) s = Some (res, bs, s1) \<and>
    (case res of
       Inl e \<Rightarrow> e = ENOSPC \<or> e = EINVAL
     | Inr n \<Rightarrow> n = int (length bs) \<and> (\<exists>s2 s3. sys_lseek sfs_vnops fd (int q) SEEK_SET s1 = Some (Inr (int q), s2) \<and>
         sys_read sfs_vnops fd buf [] (length bs) s2 = Some (Inr (int (length bs)), bs, s3)))"
  by (rule sfile.write_seek_read [OF assms])

text \<open>In particular a process writes through a descriptor that it opened for reading only, and reads through one that it
  opened for writing only.\<close>

lemma access_mode_ignored:
  assumes "sfs_file v (world s)" and "of_offset f = int q" and "q + length bs \<le> SFS_MAXBLOCKS * SFS_BLOCKSIZE" and "bs \<noteq> []"
  shows "refers fd p (f\<lparr>of_accmode := O_RDONLY\<rparr>) v s \<Longrightarrow>
      \<exists>res s1. sys_write sfs_vnops fd bs [] (length bs) s = Some (res, bs, s1) \<and> (case res of Inr n \<Rightarrow> n = int (length bs) | Inl e \<Rightarrow> e = ENOSPC \<or> e = EINVAL)"
    and "refers fd p (f\<lparr>of_accmode := O_WRONLY\<rparr>) v s \<Longrightarrow> \<exists>n buf s1. sys_read sfs_vnops fd bs [] (length bs) s = Some (Inr n, buf, s1)"
proof -
  show "\<exists>res s1. sys_write sfs_vnops fd bs [] (length bs) s = Some (res, bs, s1) \<and> (case res of Inr n \<Rightarrow> n = int (length bs) | Inl e \<Rightarrow> e = ENOSPC \<or> e = EINVAL)"
    if r: "refers fd p (f\<lparr>of_accmode := O_RDONLY\<rparr>) v s"
    using sfile.write_seek_read [OF r assms(1) _ assms(3,4), of bs] assms(2) by (fastforce split: sum.splits)
  show "\<exists>n buf s1. sys_read sfs_vnops fd bs [] (length bs) s = Some (Inr n, buf, s1)" if r: "refers fd p (f\<lparr>of_accmode := O_WRONLY\<rparr>) v s"
    using sfile.sys_read_file [OF r assms(1) refl] assms(2-4) by simp
qed

text \<open>C17: \<^verbatim>\<open>dup2\<close> followed by \<^verbatim>\<open>close\<close> of the copy leaves a process that cannot exit. \<^verbatim>\<open>file_close\<close> drops the count but keeps
  the descriptor when the object is still shared, so the closed descriptor stays open; at exit
  \<^verbatim>\<open>filetable_destroy\<close> closes the object through the first of the two descriptors, frees it, and then
  follows the pointer in the second one into freed memory. Nothing is assumed of the file system.\<close>

theorem dup2_close_exit:
  assumes "t_filetable s = Some ft" and "length ft = FOPEN_MAX" and "a < FOPEN_MAX" "b < FOPEN_MAX" "a \<noteq> b"
    and "ft ! a = Some p" "ft ! b = None" and "of_heap s p = Some f" and "of_refcount f = 1"
  shows "\<exists>s1 s2. sys_dup2 ops (int a) (int b) s = Some (Inr (int b), s1) \<and> sys_close ops (int b) s1 = Some (Inr (), s2) \<and>
    filetable_findfile (int b) s2 = Some (Inr p) \<and> filetable_destroy ops s2 = None"
proof -
  let ?ft = "ft[b := Some p]"
  define s1 where "s1 = of_put p (f\<lparr>of_refcount := 2\<rparr>) (s\<lparr>t_filetable := Some ?ft\<rparr>)"
  define s2 where "s2 = of_put p (f\<lparr>of_refcount := 1\<rparr>) s1"
  have t1: "t_filetable s1 = Some ?ft" "length ?ft = FOPEN_MAX" "?ft ! b = Some p" "?ft ! a = Some p"
    using assms by (simp_all add: s1_def)
  have dup: "sys_dup2 ops (int a) (int b) s = Some (Inr (int b), s1)"
    using findfile_nth [OF assms(1-3)] assms by (simp add: sys_dup2_def ft_get_def ft_set_def s1_def)
  have cl: "sys_close ops (int b) s1 = Some (Inr (), s2)"
    using findfile_nth [OF t1(1,2) assms(4)] t1(3) by (simp add: sys_close_def file_close_def s2_def) (simp add: s1_def)
  have t2: "t_filetable s2 = Some ?ft" "of_heap s2 p = Some (f\<lparr>of_refcount := 1\<rparr>)" using t1(1) by (simp_all add: s2_def)
  have "filetable_destroy ops s2 = None"
    by (rule destroy_shared_pair [OF t2(1) t1(2) assms(3,4,5) t1(4,3) t2(2)]) simp
  with dup cl findfile_nth [OF t2(1) t1(2) assms(4)] t1(3) show ?thesis by simp
qed

text \<open>C16: every outcome of \<^verbatim>\<open>sys_open\<close>. A bad user pointer gives \<^verbatim>\<open>EFAULT\<close> and a path that does not fit \<^verbatim>\<open>ENAMETOOLONG\<close>; a full table
  gives \<^verbatim>\<open>EMFILE\<close>, and without memory for the open file object the call gives \<^verbatim>\<open>ENOMEM\<close> before the VFS layer is
  called; none of these changes the table, the objects or the file systems. Otherwise, when the VFS layer opens the file, the
  call hands out the least free descriptor, which refers to a new object at offset 0 with one reference;
  the other descriptors and objects are as before, and closing the descriptor gives the old table and
  objects back. When the VFS layer fails, its error is handed on only if the uninitialised memory of
  the new object begins with a zero word; otherwise the call frees a wild pointer. When the VFS layer does not return
  (an assertion fails in it), neither does the call.\<close>

theorem sys_open_correct:
  assumes "t_filetable s = Some ft" and "length ft = FOPEN_MAX" and "of_heap s (of_fresh s) = None"
  shows "sys_open ops None flags s = Some (Inl EFAULT, s) \<and>
    (PATH_MAX \<le> length path \<longrightarrow> sys_open ops (Some path) flags s = Some (Inl ENAMETOOLONG, s)) \<and>
    (length path < PATH_MAX \<and> None \<notin> set ft \<longrightarrow> sys_open ops (Some path) flags s = Some (Inl EMFILE, s)) \<and>
    (length path < PATH_MAX \<and> None \<in> set ft \<and> \<not> fst (kmalloc (p_mem s)) \<longrightarrow>
       sys_open ops (Some path) flags s = Some (Inl ENOMEM, s\<lparr>p_mem := snd (kmalloc (p_mem s))\<rparr>)) \<and>
    (length path < PATH_MAX \<and> None \<in> set ft \<and> fst (kmalloc (p_mem s)) \<longrightarrow> (case vfs_open ops path flags (p_vfs s) of
       None \<Rightarrow> sys_open ops (Some path) flags s = None
     | Some (Inl e, x) \<Rightarrow>
         if fst (kmalloc (null_words s)) then \<exists>s'. sys_open ops (Some path) flags s = Some (Inl e, s') \<and>
           t_filetable s' = t_filetable s \<and> of_heap s' = of_heap s \<and> p_vfs s' = x
         else sys_open ops (Some path) flags s = None
     | Some (Inr v, x) \<Rightarrow> \<exists>s' fd. sys_open ops (Some path) flags s = Some (Inr fd, s') \<and> fd < FOPEN_MAX \<and> ft ! fd = None \<and>
         (\<forall>a < fd. ft ! a \<noteq> None) \<and> t_filetable s' = Some (ft[fd := Some (of_fresh s)]) \<and> p_vfs s' = x \<and>
         of_heap s' = (of_heap s)(of_fresh s \<mapsto> \<lparr>of_vnode = v, of_offset = 0, of_accmode = flags, of_refcount = 1\<rparr>) \<and>
         (\<forall>y. vfs_close ops v x = Some y \<longrightarrow> (\<exists>s''. sys_close ops (int fd) s' = Some (Inr (), s'') \<and>
            t_filetable s'' = t_filetable s \<and> of_heap s'' = of_heap s \<and> p_vfs s'' = y))))"
proof -
  note lf = least_free_props [where ft = ft] and fd = getfd_ok [OF assms(1,2)]
  have bad: "sys_open ops None flags s = Some (Inl EFAULT, s)"
    "PATH_MAX \<le> length path \<longrightarrow> sys_open ops (Some path) flags s = Some (Inl ENAMETOOLONG, s)"
    by (simp_all add: sys_open_def copyinstr_def)
  show ?thesis
  proof (cases "length path < PATH_MAX")
    case True
    then have open': "sys_open ops (Some path) flags s = file_open ops path flags s" by (simp add: sys_open_def copyinstr_def)
    have full: "file_open ops path flags s = Some (Inl EMFILE, s)" if "None \<notin> set ft"
      using that lf(4) fd assms(2) by (simp add: file_open_def)
    have lt: "least_free ft < FOPEN_MAX" if "None \<in> set ft" using that lf(1,4) assms(2) by (metis le_neq_implies_less)
    have mem: "file_open ops path flags s = Some (Inl ENOMEM, s\<lparr>p_mem := snd (kmalloc (p_mem s))\<rparr>)"
      if "None \<in> set ft" "\<not> fst (kmalloc (p_mem s))" using that lt fd by (simp add: file_open_def case_prod_beta)
    note opens = file_open_opens [OF assms lt, of ops path flags]
    show ?thesis unfolding open' sys_close_def using bad [unfolded open'] full mem opens by blast
  qed (use bad in simp)
qed

text \<open>A process with descriptor 3 open on the file of the small volume, at offset 1.\<close>

definition demo_proc :: "sfs_fs proc" where
  "demo_proc = \<lparr>p_vfs = \<lparr>vfs_w = demo_fs, knowndevs = \<lparr>a_num = 0, a_max = 0, a_v = None\<rparr>, knowndevs_locked = False,
       bootfs_vnode = None, t_cwd = None, vfs_mem = []\<rparr>,
     t_filetable = Some ((replicate FOPEN_MAX None)[3 := Some 0]),
     of_heap = [0 \<mapsto> \<lparr>of_vnode = 0, of_offset = 1, of_accmode = O_RDWR, of_refcount = 1\<rparr>],
     of_fresh = 1, p_mem = [], null_words = []\<rparr>"

lemma demo_proc_refers: "refers 3 0 \<lparr>of_vnode = 0, of_offset = 1, of_accmode = O_RDWR, of_refcount = 1\<rparr> 0 demo_proc"
  by (simp add: refers_def filetable_findfile_def ft_get_def demo_proc_def)

lemma demo_proc_file: "sfs_file 0 (world demo_proc)"
  using demo_quiet demo_inode_ok [of 2] by (simp add: sfs_file_def demo_proc_def) (simp add: demo_vnode_def)

theorem sys_write_read_roundtrip_witness:
  "\<exists>res s1. sys_write sfs_vnops 3 [7, 8] [] 2 demo_proc = Some (res, [7, 8], s1) \<and>
    (case res of
       Inl e \<Rightarrow> e = ENOSPC \<or> e = EINVAL
     | Inr n \<Rightarrow> n = 2 \<and> (\<exists>s2 s3. sys_lseek sfs_vnops 3 1 0 s1 = Some (Inr 1, s2) \<and>
         sys_read sfs_vnops 3 [0, 0] [] 2 s2 = Some (Inr 2, [7, 8], s3)))"
  using sys_write_read_roundtrip [OF demo_proc_refers demo_proc_file, of 1 "[7, 8]" "[0, 0]"]
  by (simp add: numeral_2_eq_2 cong: sum.case_cong)

theorem dup2_close_exit_witness:
  "\<exists>s1 s2. sys_dup2 sfs_vnops 3 5 demo_proc = Some (Inr 5, s1) \<and> sys_close sfs_vnops 5 s1 = Some (Inr (), s2) \<and>
     filetable_destroy sfs_vnops s2 = None"
  using dup2_close_exit [of demo_proc "(replicate 16 None)[3 := Some 0]" 3 5 0 _ sfs_vnops]
  by (auto simp: demo_proc_def)

text \<open>The same process in a current directory, which is the file itself: the empty path opens it.\<close>

definition demo_cwd :: "sfs_fs proc" where
  "demo_cwd = demo_proc\<lparr>p_vfs := (p_vfs demo_proc)\<lparr>t_cwd := Some 0\<rparr>\<rparr>"

lemma demo_cwd_open:
  "\<exists>x. vfs_open sfs_vnops [] O_RDONLY (p_vfs demo_cwd) = Some (Inr 0, x)"
proof -
  have "vnode_incref 0 demo_fs = Some (sv_put 0 (demo_vnode\<lparr>vn_refcount := 2\<rparr>) demo_fs)"
    using vnode_incref_ok [of demo_fs 0 demo_vnode] by (simp add: demo_vnode_def)
  then show ?thesis
    by (simp add: vfs_open_def vfs_lookup_def getdevice_def vfs_getcurdir_def below0_def below_def open_vnode_def demo_cwd_def demo_proc_def
        sfs_vnops_def vop_def vnode_check_def sv_get_def sfs_open_def vnode_incopen_def)
      (simp add: demo_vnode_def below0_def vnode_incopen_def sv_get_def)
qed

theorem sys_open_correct_witness:
  "sys_open sfs_vnops None O_RDONLY demo_cwd = Some (Inl EFAULT, demo_cwd) \<and>
    (\<exists>s'. sys_open sfs_vnops (Some []) O_RDONLY demo_cwd = Some (Inr 0, s'))"
proof -
  obtain x where x: "vfs_open sfs_vnops [] O_RDONLY (p_vfs demo_cwd) = Some (Inr 0, x)" using demo_cwd_open by blast
  have t: "t_filetable demo_cwd = Some ((replicate 16 None)[3 := Some 0])" "p_mem demo_cwd = []" "of_heap demo_cwd (of_fresh demo_cwd) = None"
    by (simp_all add: demo_cwd_def demo_proc_def)
  have "None \<in> set ((replicate 16 None)[3 := Some (0::nat)])" by (simp add: eval_nat_numeral)
  with sys_open_correct [OF t(1) _ t(3), of sfs_vnops O_RDONLY "[]"] t(2) x obtain s' fd where
    s': "sys_open sfs_vnops (Some []) O_RDONLY demo_cwd = Some (Inr fd, s')" "\<forall>a < fd. ((replicate 16 None)[3 := Some (0::nat)]) ! a \<noteq> None"
    by auto
  have "fd = 0" using s'(2) by (cases fd) auto
  with s'(1) sys_open_correct [OF t(1) _ t(3), of sfs_vnops O_RDONLY "[]"] show ?thesis by simp
qed

end
