(* ===== verification/K_Device.thy ===== *)
theory K_Device
  imports K_File
begin

text \<open>
  Vnodes of devices (\<^verbatim>\<open>kern/fs/vfs/device.c\<close>) and the null device (\<^verbatim>\<open>kern/fs/vfs/devnull.c\<close>).

  A device is a function table of its own; \<open>'x\<close> is the state of the hardware below. The vnodes of devices
  are counted by \<^verbatim>\<open>kern/fs/vfs/vnode.c\<close>, whose routines are repeated here for this kind of vnode: the count
  lock is taken and released within each of them. A device never goes away, so the last reference to
  its vnode is not given up.
\<close>

section \<open>State\<close>

record 'x device =
  d_open :: "int \<Rightarrow> 'x \<Rightarrow> (unit res \<times> 'x) option"
  d_close :: "'x \<Rightarrow> (unit res \<times> 'x) option"
  d_io :: "uio \<Rightarrow> 'x \<Rightarrow> (unit res \<times> uio \<times> 'x) option"
  d_ioctl :: "int \<Rightarrow> int \<Rightarrow> 'x \<Rightarrow> (unit res \<times> 'x) option"
  d_blocks :: nat
  d_blocksize :: nat

text \<open>\<open>dv_data\<close> is null (\<open>None\<close>) in the vnode made for a file system that has no device.\<close>

record dev_vnode =
  dv_refcount :: int
  dv_opencount :: int
  dv_data :: "nat option"

record 'x dev_world =
  dw_devices :: "nat \<Rightarrow> 'x device option"
  dw_vnodes :: "nat \<Rightarrow> dev_vnode option"
  dw_next :: nat
  dw_mem :: kmem
  dw_hw :: 'x

abbreviation (input) S_IFCHR :: nat where "S_IFCHR \<equiv> 16384"
abbreviation (input) S_IFBLK :: nat where "S_IFBLK \<equiv> 20480"

definition dv_put :: "nat \<Rightarrow> dev_vnode \<Rightarrow> 'x dev_world \<Rightarrow> 'x dev_world" where
  "dv_put v vn w = w\<lparr>dw_vnodes := (dw_vnodes w)(v \<mapsto> vn)\<rparr>"

text \<open>Every call through a vnode makes the tests of \<^verbatim>\<open>vnode_check\<close>; most operations then follow the pointer to
  the device.\<close>

definition dev_valid :: "nat \<Rightarrow> 'x dev_world \<Rightarrow> unit option" where
  "dev_valid v w = do {
     vn \<leftarrow> dw_vnodes w v;
     kassert (dv_refcount vn > 0);
     kassert (dv_opencount vn \<ge> 0)
   }"

definition dev_check :: "nat \<Rightarrow> 'x dev_world \<Rightarrow> 'x device option" where
  "dev_check v w = do {
     dev_valid v w;
     vn \<leftarrow> dw_vnodes w v;
     d \<leftarrow> dv_data vn;
     dw_devices w d
   }"

section \<open>Operations on the vnode of a device\<close>

definition dev_open :: "nat \<Rightarrow> int \<Rightarrow> 'x dev_world \<Rightarrow> (unit res \<times> 'x dev_world) option" where
  "dev_open v flags w = do {
     d \<leftarrow> dev_check v w;
     if flags AND (O_CREAT OR O_TRUNC OR O_EXCL OR O_APPEND) \<noteq> 0 then Some (Inl EINVAL, w)
     else do { (r, x) \<leftarrow> d_open d flags (dw_hw w); Some (r, w\<lparr>dw_hw := x\<rparr>) }
   }"

definition dev_close :: "nat \<Rightarrow> 'x dev_world \<Rightarrow> (unit res \<times> 'x dev_world) option" where
  "dev_close v w = do {
     d \<leftarrow> dev_check v w;
     (r, x) \<leftarrow> d_close d (dw_hw w);
     Some (r, w\<lparr>dw_hw := x\<rparr>)
   }"

definition dev_reclaim :: "nat \<Rightarrow> 'x dev_world \<Rightarrow> (unit res \<times> 'x dev_world) option" where
  "dev_reclaim v w = do { dev_valid v w; Some (Inr (), w) }"

definition dev_read :: "nat \<Rightarrow> uio \<Rightarrow> 'x dev_world \<Rightarrow> (unit res \<times> uio \<times> 'x dev_world) option" where
  "dev_read v u w = do {
     d \<leftarrow> dev_check v w;
     kassert (uio_dir u = UIO_READ);
     (r, u, x) \<leftarrow> d_io d u (dw_hw w);
     Some (r, u, w\<lparr>dw_hw := x\<rparr>)
   }"

definition null_io :: "nat \<Rightarrow> uio \<Rightarrow> 'x dev_world \<Rightarrow> (unit res \<times> uio \<times> 'x dev_world) option" where
  "null_io v u w = do { dev_valid v w; Some (Inl EINVAL, u, w) }"

definition dev_write :: "nat \<Rightarrow> uio \<Rightarrow> 'x dev_world \<Rightarrow> (unit res \<times> uio \<times> 'x dev_world) option" where
  "dev_write v u w = do {
     d \<leftarrow> dev_check v w;
     kassert (uio_dir u = UIO_WRITE);
     (r, u, x) \<leftarrow> d_io d u (dw_hw w);
     Some (r, u, w\<lparr>dw_hw := x\<rparr>)
   }"

definition dev_ioctl :: "nat \<Rightarrow> int \<Rightarrow> int \<Rightarrow> 'x dev_world \<Rightarrow> (unit res \<times> 'x dev_world) option" where
  "dev_ioctl v cmd data w = do {
     d \<leftarrow> dev_check v w;
     (r, x) \<leftarrow> d_ioctl d cmd data (dw_hw w);
     Some (r, w\<lparr>dw_hw := x\<rparr>)
   }"

definition dev_gettype :: "nat \<Rightarrow> 'x dev_world \<Rightarrow> (nat res \<times> 'x dev_world) option" where
  "dev_gettype v w = do {
     d \<leftarrow> dev_check v w;
     Some (Inr (if d_blocks d > 0 then S_IFBLK else S_IFCHR), w)
   }"

text \<open>The product of the 32-bit unsigned numbers wraps, and the file size is signed.\<close>

definition dev_bytes :: "'x device \<Rightarrow> int" where
  "dev_bytes d = off32 (int (u32 (int (d_blocks d) * int (d_blocksize d))))"

definition dev_stat :: "nat \<Rightarrow> 'x dev_world \<Rightarrow> (stat res \<times> 'x dev_world) option" where
  "dev_stat v w = do {
     d \<leftarrow> dev_check v w;
     (r, w) \<leftarrow> dev_gettype v w;
     case r of
       Inl e \<Rightarrow> Some (Inl e, w)
     | Inr mode \<Rightarrow>
         Some (Inr \<lparr>st_mode = mode, st_nlink = 1, st_size = (if d_blocks d > 0 then dev_bytes d else 0), st_blocks = d_blocks d\<rparr>, w)
   }"

text \<open>The remainder and the quotient are unsigned, since the block size is.\<close>

definition dev_tryseek :: "nat \<Rightarrow> int \<Rightarrow> 'x dev_world \<Rightarrow> (unit res \<times> 'x dev_world) option" where
  "dev_tryseek v pos w = do {
     d \<leftarrow> dev_check v w;
     if d_blocks d > 0 then do {
       kassert (d_blocksize d \<noteq> 0);
       if u32 pos mod d_blocksize d \<noteq> 0 then Some (Inl EINVAL, w)
       else if pos < 0 then Some (Inl EINVAL, w)
       else if u32 pos div d_blocksize d \<ge> d_blocks d then Some (Inl EINVAL, w)
       else Some (Inr (), w)
     }
     else Some (Inl ESPIPE, w)
   }"

definition null_fsync :: "nat \<Rightarrow> 'x dev_world \<Rightarrow> (unit res \<times> 'x dev_world) option" where
  "null_fsync v w = do { dev_valid v w; Some (Inr (), w) }"

definition dev_mmap :: "nat \<Rightarrow> 'x dev_world \<Rightarrow> (unit res \<times> 'x dev_world) option" where
  "dev_mmap v w = do { dev_valid v w; Some (Inl EUNIMP, w) }"

definition dev_truncate :: "nat \<Rightarrow> int \<Rightarrow> 'x dev_world \<Rightarrow> (unit res \<times> 'x dev_world) option" where
  "dev_truncate v len w = do {
     d \<leftarrow> dev_check v w;
     if d_blocks d > 0 \<and> dev_bytes d = len then Some (Inr (), w) else Some (Inl EINVAL, w)
   }"

definition dev_namefile :: "nat \<Rightarrow> uio \<Rightarrow> 'x dev_world \<Rightarrow> (unit res \<times> uio \<times> 'x dev_world) option" where
  "dev_namefile v u w = do { dev_valid v w; Some (Inr (), u, w) }"

text \<open>\<^verbatim>\<open>null_creat\<close>, \<^verbatim>\<open>null_symlink\<close>, \<^verbatim>\<open>null_nameop\<close>, \<^verbatim>\<open>null_link\<close> and \<^verbatim>\<open>null_rename\<close>: a device is no directory.\<close>

definition null_nameop :: "nat \<Rightarrow> 'x dev_world \<Rightarrow> ('a res \<times> 'x dev_world) option" where
  "null_nameop v w = do { dev_valid v w; Some (Inl ENOTDIR, w) }"

definition dev_incref :: "nat \<Rightarrow> 'x dev_world \<Rightarrow> 'x dev_world option" where
  "dev_incref v w = do {
     vn \<leftarrow> dw_vnodes w v;
     n \<leftarrow> cint (dv_refcount vn + 1);
     Some (dv_put v (vn\<lparr>dv_refcount := n\<rparr>) w)
   }"

definition dev_decref :: "nat \<Rightarrow> 'x dev_world \<Rightarrow> 'x dev_world option" where
  "dev_decref v w = do {
     vn \<leftarrow> dw_vnodes w v;
     kassert (dv_refcount vn > 0);
     if dv_refcount vn > 1 then Some (dv_put v (vn\<lparr>dv_refcount := dv_refcount vn - 1\<rparr>) w)
     else do { (r, w) \<leftarrow> dev_reclaim v w; Some w }
   }"

definition dev_incopen :: "nat \<Rightarrow> 'x dev_world \<Rightarrow> 'x dev_world option" where
  "dev_incopen v w = do {
     vn \<leftarrow> dw_vnodes w v;
     n \<leftarrow> cint (dv_opencount vn + 1);
     Some (dv_put v (vn\<lparr>dv_opencount := n\<rparr>) w)
   }"

definition dev_decopen :: "nat \<Rightarrow> 'x dev_world \<Rightarrow> 'x dev_world option" where
  "dev_decopen v w = do {
     vn \<leftarrow> dw_vnodes w v;
     kassert (dv_opencount vn > 0);
     let vn = vn\<lparr>dv_opencount := dv_opencount vn - 1\<rparr>;
     let w = dv_put v vn w;
     if dv_opencount vn > 0 then Some w
     else do { (r, w) \<leftarrow> dev_close v w; Some w }
   }"

definition dev_lookup :: "nat \<Rightarrow> byte list \<Rightarrow> 'x dev_world \<Rightarrow> (nat res \<times> 'x dev_world) option" where
  "dev_lookup v pathname w = do {
     dev_valid v w;
     if length pathname > 0 then Some (Inl ENOENT, w)
     else do { w \<leftarrow> dev_incref v w; Some (Inr v, w) }
   }"

definition dev_lookparent :: "nat \<Rightarrow> byte list \<Rightarrow> nat \<Rightarrow> 'x dev_world \<Rightarrow> ((nat \<times> byte list) res \<times> 'x dev_world) option" where
  "dev_lookparent v pathname buflen w = do { dev_valid v w; Some (Inl ENOTDIR, w) }"

text \<open>\<^verbatim>\<open>VOP_INIT\<close> allocates the count lock, and a failure there is a panic. A file system that is attached without
  a device passes a null pointer.\<close>

definition create_vnode :: "nat option \<Rightarrow> 'x dev_world \<Rightarrow> (nat option \<times> 'x dev_world) option" where
  "create_vnode dev w = do {
     let (ok, m) = kmalloc (dw_mem w);
     if \<not> ok then Some (None, w\<lparr>dw_mem := m\<rparr>)
     else do {
       let (ok1, m) = kmalloc m;
       kassert ok1;
       let (ok2, m) = kmalloc m;
       kassert ok2;
       let v = dw_next w;
       Some (Some v, dv_put v \<lparr>dv_refcount = 1, dv_opencount = 0, dv_data = dev\<rparr> (w\<lparr>dw_next := v + 1, dw_mem := m\<rparr>))
     }
   }"

text \<open>No file system belongs to such a vnode, so the operations of file systems are not defined here.\<close>

definition dev_vnops :: "'x dev_world vnops" where
  "dev_vnops = \<lparr>
     vop_open = dev_open,
     vop_read = dev_read,
     vop_readlink = null_io,
     vop_getdirentry = null_io,
     vop_write = dev_write,
     vop_stat = dev_stat,
     vop_gettype = dev_gettype,
     vop_tryseek = dev_tryseek,
     vop_truncate = dev_truncate,
     vop_namefile = dev_namefile,
     vop_creat = (\<lambda>v name excl. null_nameop v),
     vop_symlink = (\<lambda>v a b. null_nameop v),
     vop_mkdir = (\<lambda>v name. null_nameop v),
     vop_link = (\<lambda>v name file. null_nameop v),
     vop_remove = (\<lambda>v name. null_nameop v),
     vop_rmdir = (\<lambda>v name. null_nameop v),
     vop_rename = (\<lambda>v n1 v2 n2. null_nameop v),
     vop_lookup = dev_lookup,
     vop_lookparent = dev_lookparent,
     vop_incref = dev_incref,
     vop_decref = dev_decref,
     vop_incopen = dev_incopen,
     vop_decopen = dev_decopen,
     vn_fs = (\<lambda>v w. None),
     fsop_sync = (\<lambda>fs w. None),
     fsop_getvolname = (\<lambda>fs w. None),
     fsop_getroot = (\<lambda>fs w. None),
     fsop_unmount = (\<lambda>fs w. None),
     dev_create_vnode = create_vnode\<rparr>"

lemma dev_vnops_sel [simp]:
  "vop_open dev_vnops = dev_open" "vop_read dev_vnops = dev_read" "vop_write dev_vnops = dev_write"
  "vop_incref dev_vnops = dev_incref" "vop_incopen dev_vnops = dev_incopen"
  "fsop_getvolname dev_vnops fs w = None" "dev_create_vnode dev_vnops = create_vnode"
  by (simp_all add: dev_vnops_def)

section \<open>The null device\<close>

definition nullopen :: "int \<Rightarrow> 'x \<Rightarrow> (unit res \<times> 'x) option" where
  "nullopen openflags x = Some (Inr (), x)"

definition nullclose :: "'x \<Rightarrow> (unit res \<times> 'x) option" where
  "nullclose x = Some (Inr (), x)"

definition nullio :: "uio \<Rightarrow> 'x \<Rightarrow> (unit res \<times> uio \<times> 'x) option" where
  "nullio u x = Some (Inr (), if uio_dir u = UIO_WRITE then u\<lparr>uio_resid := 0\<rparr> else u, x)"

definition nullioctl :: "int \<Rightarrow> int \<Rightarrow> 'x \<Rightarrow> (unit res \<times> 'x) option" where
  "nullioctl cmd data x = Some (Inl EINVAL, x)"

definition devnull :: "'x device" where
  "devnull = \<lparr>d_open = nullopen, d_close = nullclose, d_io = nullio, d_ioctl = nullioctl, d_blocks = 0, d_blocksize = 1\<rparr>"

definition null_name :: "byte list" where
  "null_name = [110, 117, 108, 108]"

definition devnull_create :: "'x dev_world vfs \<Rightarrow> 'x dev_world vfs option" where
  "devnull_create s = do {
     let (ok, m) = kmalloc (vfs_mem s);
     kassert ok;
     let w = vfs_w s;
     let dev = dw_next w;
     let w = w\<lparr>dw_devices := (dw_devices w)(dev \<mapsto> devnull), dw_next := dev + 1\<rparr>;
     (r, s) \<leftarrow> vfs_adddev dev_vnops null_name dev False (s\<lparr>vfs_w := w, vfs_mem := m\<rparr>);
     case r of Inl e \<Rightarrow> None | Inr _ \<Rightarrow> Some s
   }"

text \<open>\<^verbatim>\<open>vfs_bootstrap\<close>, which creates the table of devices; each lock takes two allocations, and any failure is a panic.\<close>

definition vfs_initbootfs :: "kmem \<Rightarrow> kmem option" where
  "vfs_initbootfs m = do {
     let (ok, m) = kmalloc m; kassert ok;
     let (ok, m) = kmalloc m; kassert ok;
     Some m
   }"

definition vfs_bootstrap :: "'x dev_world vfs \<Rightarrow> 'x dev_world vfs option" where
  "vfs_bootstrap s = do {
     let (a, m) = array_create (vfs_mem s);
     a \<leftarrow> a;
     let (ok, m) = kmalloc m; kassert ok;
     let (ok, m) = kmalloc m; kassert ok;
     m \<leftarrow> vfs_initbootfs m;
     devnull_create (s\<lparr>knowndevs := a, knowndevs_locked := False, vfs_mem := m\<rparr>)
   }"

section \<open>Properties\<close>

text \<open>A seek on a block device goes to the start of one of its blocks, and nowhere else.\<close>

lemma dev_tryseek_iff:
  assumes "dev_check v w = Some d" and "0 < d_blocksize d" and "\<bar>pos\<bar> < 2 ^ 31" and "d_blocks d > 0"
  shows "dev_tryseek v pos w = Some (if \<exists>k < d_blocks d. pos = int (k * d_blocksize d) then Inr () else Inl EINVAL, w)"
proof (cases "pos < 0")
  case False
  define n where "n = nat pos"
  have n: "pos = int n" "u32 pos = n" using False assms(3) by (simp_all add: n_def u32_def)
  have "n mod d_blocksize d = 0 \<and> n div d_blocksize d < d_blocks d \<longleftrightarrow> (\<exists>k < d_blocks d. n = k * d_blocksize d)"
    using assms(2) by (metis div_mult_self_is_m mod_mult_self2_is_0 mult_div_mod_eq add.right_neutral mult.commute)
  then show ?thesis using assms(1,2,4) n by (auto simp: dev_tryseek_def simp flip: of_nat_mult)
next
  case True
  then have "\<nexists>k. pos = int (k * d_blocksize d)" by (metis of_nat_less_0_iff)
  with True assms show ?thesis by (auto simp: dev_tryseek_def)
qed

text \<open>A vnode of the null device.\<close>

definition null_vnode :: "nat \<Rightarrow> 'x dev_world \<Rightarrow> bool" where
  "null_vnode v w \<longleftrightarrow> (\<exists>vn. dw_vnodes w v = Some vn \<and> 0 < dv_refcount vn \<and> 0 \<le> dv_opencount vn \<and> (\<exists>d. dv_data vn = Some d \<and> dw_devices w d = Some devnull))"

lemma null_vnode_check: "null_vnode v w \<Longrightarrow> dev_check v w = Some devnull"
  by (auto simp: null_vnode_def dev_check_def dev_valid_def)

lemma create_vnode_ok:
  "dw_mem w = [] \<Longrightarrow> create_vnode dev w =
     Some (Some (dw_next w), dv_put (dw_next w) \<lparr>dv_refcount = 1, dv_opencount = 0, dv_data = dev\<rparr> (w\<lparr>dw_next := dw_next w + 1\<rparr>))"
  by (cases w) (simp add: create_vnode_def)

lemma null_vnode_io:
  assumes "refers fd p f v t" and "null_vnode v (world t)" and "len < 2 ^ 31"
  shows "sys_write dev_vnops fd buf faults len t = Some (Inr (int len), buf, t)"
    and "sys_read dev_vnops fd buf faults len t = Some (Inr 0, buf, t)"
proof -
  have same: "of_put p f t = t" using assms(1) by (cases t) (auto simp: refers_def of_put_def)
  note check = null_vnode_check [OF assms(2)]
  have "dev_write v (mk_useruio buf faults len (of_offset f) UIO_WRITE) (world t) =
      Some (Inr (), (mk_useruio buf faults len (of_offset f) UIO_WRITE)\<lparr>uio_resid := 0\<rparr>, world t)"
    by (simp add: dev_write_def check devnull_def nullio_def mk_useruio_def)
  from sys_io_ok [OF assms(1), of dev_write, OF this]
  show "sys_write dev_vnops fd buf faults len t = Some (Inr (int len), buf, t)"
    using assms(3) by (simp add: sys_write_def same mk_useruio_def)
  have "dev_read v (mk_useruio buf faults len (of_offset f) UIO_READ) (world t) =
      Some (Inr (), mk_useruio buf faults len (of_offset f) UIO_READ, world t)"
    by (simp add: dev_read_def check devnull_def nullio_def mk_useruio_def)
  from sys_io_ok [OF assms(1), of dev_read, OF this]
  show "sys_read dev_vnops fd buf faults len t = Some (Inr 0, buf, t)"
    using assms(3) by (simp add: sys_read_def same mk_useruio_def)
qed

text \<open>The null device, from the boot of the kernel to a program: when no device has the name yet,
  \<^verbatim>\<open>devnull_create\<close> returns, opening \<^verbatim>\<open>null:\<close> for reading or writing gives a new reference to its vnode, and
  through every descriptor of that vnode a write takes all the bytes and a read gives none; neither
  touches the buffer or the offset of the file.\<close>

theorem null_device_correct:
  assumes ok: "devs_ok dev_vnops s" and mem: "vfs_mem s = []" "dw_mem (vfs_w s) = []" and room: "a_num (knowndevs s) < 2 ^ 29 - 1"
    and new: "\<forall>kd \<in> set (devs s). \<not> leads dev_vnops (vfs_w s) null_name kd" and mode: "mode \<in> {O_RDONLY, O_WRONLY, O_RDWR}"
  shows "\<exists>s1 v s2. devnull_create s = Some s1 \<and> vfs_open dev_vnops (null_name @ [colon_char]) mode s1 = Some (Inr v, s2) \<and>
    devs_ok dev_vnops s2 \<and> null_vnode v (vfs_w s2) \<and>
    (\<forall>fd p f t buf faults len. refers fd p f v t \<longrightarrow> null_vnode v (world t) \<longrightarrow> len < 2 ^ 31 \<longrightarrow>
       sys_write dev_vnops fd buf faults len t = Some (Inr (int len), buf, t) \<and>
       sys_read dev_vnops fd buf faults len t = Some (Inr 0, buf, t))"
proof -
  define d where "d = dw_next (vfs_w s)"
  define w where "w = (vfs_w s)\<lparr>dw_devices := (dw_devices (vfs_w s))(d \<mapsto> devnull), dw_next := d + 1\<rparr>"
  define w' where "w' = dv_put (d + 1) \<lparr>dv_refcount = 1, dv_opencount = 0, dv_data = Some d\<rparr> (w\<lparr>dw_next := d + 2\<rparr>)"
  define kd where "kd = \<lparr>kd_name = null_name, kd_rawname = rawname_of False null_name, kd_device = Some d, kd_vnode = d + 1, kd_fs = None\<rparr>"
  have free: "leads_any dev_vnops w' null_name (rawname_of False null_name) None k \<longleftrightarrow> leads dev_vnops (vfs_w s) null_name k" for k
    by (simp add: leads_any_def leads_def rawname_of_def split: option.split)
  have ok': "devs_ok dev_vnops (s\<lparr>vfs_w := x\<rparr>)" for x using ok by (simp add: devs_ok_def kd_ok_def cong: option.case_cong)
  have mem': "s\<lparr>vfs_w := x, vfs_mem := []\<rparr> = s\<lparr>vfs_w := x\<rparr>" for x using mem(1) by (cases s) simp
  have vn: "create_vnode (Some d) w = Some (Some (d + 1), w')"
    using mem(2) by (subst create_vnode_ok) (simp_all add: w'_def w_def)
  from vfs_adddev_eq [where s = "s\<lparr>vfs_w := w\<rparr>" and w = w' and ops = dev_vnops and dev = d and v = "d + 1" and kd = kd
    and n = null_name and mountable = False] ok' [of w'] mem(1) room vn kd_def
  obtain a where a: "array_inv a" "array_list a = devs s @ [kd]"
    "vfs_adddev dev_vnops null_name d False (s\<lparr>vfs_w := w\<rparr>) = Some (Inr (), s\<lparr>vfs_w := w', knowndevs := a\<rparr>)"
    using new by (auto simp: free list_ex_iff)
  let ?s1 = "s\<lparr>vfs_w := w', knowndevs := a\<rparr>"
  have create: "devnull_create s = Some ?s1"
    using a(3) mem(1) by (simp add: devnull_create_def w_def d_def Let_def mem')
  have ok1: "devs_ok dev_vnops ?s1" using ok' [of w'] a(1,2) by (simp add: devs_ok_def kd_ok_def kd_def rawname_of_def)
  have "leads dev_vnops w' null_name k \<longleftrightarrow> leads dev_vnops (vfs_w s) null_name k" for k
    by (simp add: leads_def split: option.split)
  with new have "find (leads dev_vnops w' null_name) (devs s) = None" by (simp add: find_None_iff)
  then have "find (leads dev_vnops w' null_name) (devs ?s1) = Some kd" using a(2) by (simp add: find_append) (simp add: leads_def kd_def)
  then have root: "vfs_getroot dev_vnops null_name ?s1 =
      Some (Inr (d + 1), ?s1\<lparr>vfs_w := dv_put (d + 1) \<lparr>dv_refcount = 2, dv_opencount = 0, dv_data = Some d\<rparr> w'\<rparr>)"
    unfolding vfs_getroot_ok [OF ok1] by (simp add: root_of_def kd_def rawname_of_def below0_def dev_incref_def w'_def dv_put_def)
  define w2 where "w2 = dv_put (d + 1) \<lparr>dv_refcount = 2, dv_opencount = 1, dv_data = Some d\<rparr> w'"
  have null: "null_vnode (d + 1) w2" by (simp add: null_vnode_def w2_def w'_def w_def dv_put_def)
  have "vfs_open dev_vnops (null_name @ [colon_char]) mode ?s1 = Some (Inr (d + 1), ?s1\<lparr>vfs_w := w2\<rparr>)"
    using mode root unfolding null_name_def
    by (auto simp: vfs_open_def vfs_lookup_def getdevice_def skip_slashes_def open_vnode_def below_def below0_def dev_open_def dev_check_def
        dev_valid_def dev_incopen_def dv_put_def devnull_def nullopen_def w2_def w'_def w_def)
  moreover have "devs_ok dev_vnops (?s1\<lparr>vfs_w := w2\<rparr>)" using ok1 by (simp add: devs_ok_def kd_ok_def cong: option.case_cong)
  ultimately show ?thesis using create null null_vnode_io by fastforce
qed

text \<open>A kernel with no devices, and one that has the null device.\<close>

definition demo_boot :: "unit dev_world vfs" where
  "demo_boot = \<lparr>vfs_w = \<lparr>dw_devices = Map.empty, dw_vnodes = Map.empty, dw_next = 0, dw_mem = [], dw_hw = ()\<rparr>,
     knowndevs = \<lparr>a_num = 0, a_max = 0, a_v = None\<rparr>, knowndevs_locked = False, bootfs_vnode = None, t_cwd = None, vfs_mem = []\<rparr>"

lemma demo_boot_ok: "devs_ok dev_vnops demo_boot" "devs demo_boot = []"
  by (simp_all add: devs_ok_def demo_boot_def array_inv_def array_list_def)

theorem null_device_correct_witness:
  "\<exists>s1 v s2. devnull_create demo_boot = Some s1 \<and> vfs_open dev_vnops (null_name @ [colon_char]) O_RDWR s1 = Some (Inr v, s2) \<and>
    null_vnode v (vfs_w s2)"
  using null_device_correct [OF demo_boot_ok(1), of O_RDWR] demo_boot_ok(2) by (fastforce simp: demo_boot_def)

theorem vfs_adddev_correct_witness:
  "\<exists>s'. vfs_adddev dev_vnops null_name 7 True demo_boot = Some (Inr (), s') \<and> vfs_getroot dev_vnops null_name s' = Some (Inl ENXIO, s')"
proof -
  define w where "w = dv_put 0 \<lparr>dv_refcount = 1, dv_opencount = 0, dv_data = Some 7\<rparr> ((vfs_w demo_boot)\<lparr>dw_next := 1\<rparr>)"
  have "devs_ok dev_vnops (demo_boot\<lparr>vfs_w := w\<rparr>)" by (simp add: devs_ok_def demo_boot_def array_inv_def array_list_def)
  moreover have "create_vnode (Some 7) (vfs_w demo_boot) = Some (Some 0, w)"
    by (simp add: create_vnode_ok w_def demo_boot_def)
  ultimately show ?thesis
    using vfs_adddev_correct [where ops = dev_vnops and s = demo_boot and w = w and dev = 7 and v = 0 and n = null_name and mountable = True] demo_boot_ok(2)
    by (auto simp: demo_boot_def)
qed

end
