(* ===== verification/K_Thread.thy ===== *)
theory K_Thread
  imports K_Array K_Queue K_Pid K_Bytes "HOL-Library.Multiset"
begin

text \<open>
  The thread system: \<^verbatim>\<open>kern/thread/thread.c\<close>, \<^verbatim>\<open>kern/thread/scheduler.c\<close> and \<^verbatim>\<open>kern/thread/hardclock.c\<close>.

  There is one processor and the routines run with interrupts off, so each of them is one step on the
  state (\<^verbatim>\<open>thread_fork\<close> turns them off only before its reservations; interleavings with its first part are not
  modelled, and neither is the assertion of \<^verbatim>\<open>thread_sleep\<close> that no interrupt handler runs): the running thread, the run queue, the tables of sleepers and zombies and the thread
  structures. A context switch ends the step of the thread that gives up the processor and goes on
  with the code the next thread had stopped in; \<open>t_pcb\<close> says where that is. When no thread is
  runnable the processor idles (\<open>curthread\<close> is null) until an interrupt handler wakes one.

  Address spaces, vnodes and file tables are objects of other parts of the kernel; their operations
  are a function table \<open>'w env\<close> over a state \<open>'w\<close>.
\<close>

section \<open>State\<close>

datatype threadstate_t = S_RUN | S_READY | S_SLEEP | S_ZOMB

text \<open>Where a thread goes on: at its start, or after the \<^verbatim>\<open>md_switch\<close> reached from one of three routines.\<close>

datatype pcb = At_Start | In_Yield | In_Sleep | In_Exit

text \<open>Sleep addresses are not interpreted: addresses of synchronisation objects, the condition variable
  of a process (\<^verbatim>\<open>pi_cv\<close> in \<^verbatim>\<open>pid.c\<close>), and \<^verbatim>\<open>lbolt\<close>.\<close>

datatype wchan = Addr nat | Pi_cv int | Lbolt

text \<open>\<open>t_stack\<close>: the four bytes at the bottom end of the stack, null for the boot stack.\<close>

record thread =
  t_pcb :: pcb
  t_name :: "byte list"
  t_pid :: int
  t_sleepaddr :: "wchan option"
  t_stack :: "byte list option"
  t_vmspace :: "nat option"
  t_cwd :: "nat option"
  t_filetable :: "nat option"

record 'w env =
  as_copy :: "nat \<Rightarrow> 'w \<Rightarrow> (nat res \<times> 'w) option"
  as_activate :: "nat \<Rightarrow> 'w \<Rightarrow> 'w option"
  as_destroy :: "nat \<Rightarrow> 'w \<Rightarrow> 'w option"
  env_incref :: "nat \<Rightarrow> 'w \<Rightarrow> 'w option"
  env_decref :: "nat \<Rightarrow> 'w \<Rightarrow> 'w option"
  env_ft_destroy :: "nat \<Rightarrow> 'w \<Rightarrow> 'w option"

record 'w tsys =
  curthread :: "nat option"
  runqueue :: "nat queue"
  sleepers :: "nat karray"
  zombies :: "nat karray"
  numthreads :: int
  t_heap :: "nat \<Rightarrow> thread option"
  t_next :: nat
  t_mem :: kmem
  t_pids :: pidsys
  lbolt_counter :: int
  t_w :: 'w

definition th_put :: "nat \<Rightarrow> thread \<Rightarrow> 'w tsys \<Rightarrow> 'w tsys" where
  "th_put p th s = s\<lparr>t_heap := (t_heap s)(p \<mapsto> th)\<rparr>"

lemma th_put_sel [simp]:
  "curthread (th_put p th s) = curthread s" "runqueue (th_put p th s) = runqueue s" "sleepers (th_put p th s) = sleepers s"
  "zombies (th_put p th s) = zombies s" "numthreads (th_put p th s) = numthreads s" "t_next (th_put p th s) = t_next s"
  "t_mem (th_put p th s) = t_mem s" "t_pids (th_put p th s) = t_pids s" "t_w (th_put p th s) = t_w s"
  by (simp_all add: th_put_def)

definition in_env :: "('w \<Rightarrow> 'w option) \<Rightarrow> 'w tsys \<Rightarrow> 'w tsys option" where
  "in_env f s = do { w \<leftarrow> f (t_w s); Some (s\<lparr>t_w := w\<rparr>) }"

text \<open>An operation on a field that may be a null pointer.\<close>

definition unless_null :: "('a \<Rightarrow> 'w \<Rightarrow> 'w option) \<Rightarrow> 'a option \<Rightarrow> 'w tsys \<Rightarrow> 'w tsys option" where
  "unless_null f p s = (case p of None \<Rightarrow> Some s | Some x \<Rightarrow> in_env (f x) s)"

abbreviation (input) stack_magic :: "byte list" where "stack_magic \<equiv> [0xae, 0x11, 0xda, 0x33]"

section \<open>The scheduler\<close>

definition scheduler_bootstrap :: "kmem \<Rightarrow> (nat queue \<times> kmem) option" where
  "scheduler_bootstrap m = do {
     (q, m) \<leftarrow> q_create 32 m;
     q \<leftarrow> q;
     Some (q, m)
   }"

definition scheduler_preallocate :: "int \<Rightarrow> 'w tsys \<Rightarrow> (unit res \<times> 'w tsys) option" where
  "scheduler_preallocate nthreads s = do {
     (r, q, m) \<leftarrow> q_preallocate (runqueue s) nthreads (t_mem s);
     Some (r, s\<lparr>runqueue := q, t_mem := m\<rparr>)
   }"

text \<open>The loop takes \<open>k\<close> threads off the queue, the number it has.\<close>

fun killall_loop :: "nat \<Rightarrow> nat queue \<Rightarrow> nat queue option" where
  "killall_loop 0 q = (if q_empty q then Some q else None)"
| "killall_loop (Suc k) q =
     (if q_empty q then Some q else do { (t, q) \<leftarrow> q_remhead q; killall_loop k q })"

definition scheduler_killall :: "'w tsys \<Rightarrow> 'w tsys option" where
  "scheduler_killall s = do {
     q \<leftarrow> killall_loop (q_len (runqueue s)) (runqueue s);
     Some (s\<lparr>runqueue := q\<rparr>)
   }"

definition scheduler_shutdown :: "'w tsys \<Rightarrow> unit option" where
  "scheduler_shutdown s = do { s \<leftarrow> scheduler_killall s; q_destroy (runqueue s) }"

text \<open>A null result is one turn of the idle loop.\<close>

definition scheduler :: "'w tsys \<Rightarrow> (nat option \<times> 'w tsys) option" where
  "scheduler s =
     (if q_empty (runqueue s) then Some (None, s)
      else do {
        (t, q) \<leftarrow> q_remhead (runqueue s);
        Some (Some t, s\<lparr>runqueue := q\<rparr>)
      })"

definition make_runnable :: "nat \<Rightarrow> 'w tsys \<Rightarrow> (unit res \<times> 'w tsys) option" where
  "make_runnable t s = do {
     (r, q, m) \<leftarrow> q_addtail (runqueue s) t (t_mem s);
     Some (r, s\<lparr>runqueue := q, t_mem := m\<rparr>)
   }"

section \<open>Creating and destroying threads\<close>

definition new_thread :: "byte list \<Rightarrow> thread" where
  "new_thread name = \<lparr>t_pcb = At_Start, t_name = name, t_pid = INVALID_PID, t_sleepaddr = None, t_stack = None,
     t_vmspace = None, t_cwd = None, t_filetable = None\<rparr>"

definition thread_create :: "byte list \<Rightarrow> 'w tsys \<Rightarrow> nat option \<times> 'w tsys" where
  "thread_create name s =
     (case kmalloc (t_mem s) of (ok, m) \<Rightarrow>
        if \<not> ok then (None, s\<lparr>t_mem := m\<rparr>)
        else case kmalloc m of (ok, m) \<Rightarrow>
          if \<not> ok then (None, s\<lparr>t_mem := m\<rparr>)
          else (Some (t_next s), th_put (t_next s) (new_thread name) (s\<lparr>t_mem := m, t_next := t_next s + 1\<rparr>)))"

definition thread_destroy :: "nat \<Rightarrow> 'w tsys \<Rightarrow> 'w tsys option" where
  "thread_destroy p s = do {
     kassert (curthread s \<noteq> Some p);
     th \<leftarrow> t_heap s p;
     kassert (t_vmspace th = None);
     kassert (t_cwd th = None);
     Some (s\<lparr>t_heap := (t_heap s)(p := None)\<rparr>)
   }"

text \<open>The loop of \<^verbatim>\<open>exorcise\<close>: \<open>k\<close> zombies are left, beginning with number \<open>i\<close>.\<close>

fun exorcise_loop :: "int \<Rightarrow> nat \<Rightarrow> 'w tsys \<Rightarrow> 'w tsys option" where
  "exorcise_loop i 0 s = Some s"
| "exorcise_loop i (Suc k) s = do {
     z \<leftarrow> array_getguy (zombies s) i;
     kassert (curthread s \<noteq> Some z);
     s \<leftarrow> thread_destroy z s;
     exorcise_loop (i + 1) k s
   }"

definition exorcise :: "'w tsys \<Rightarrow> 'w tsys option" where
  "exorcise s = do {
     s \<leftarrow> exorcise_loop 0 (nat (array_getnum (zombies s))) s;
     (r, z, m) \<leftarrow> array_setsize (zombies s) 0 (t_mem s);
     kassert (r = Inr ());
     Some (s\<lparr>zombies := z, t_mem := m\<rparr>)
   }"

text \<open>The loop of \<^verbatim>\<open>thread_killall\<close> only prints.\<close>

definition thread_killall :: "'w tsys \<Rightarrow> 'w tsys option" where
  "thread_killall s = do {
     (r, a, m) \<leftarrow> array_setsize (sleepers s) 0 (t_mem s);
     kassert (r = Inr ());
     Some (s\<lparr>sleepers := a, t_mem := m\<rparr>)
   }"

definition thread_panic :: "'w tsys \<Rightarrow> 'w tsys option" where
  "thread_panic s = do { s \<leftarrow> thread_killall s; scheduler_killall s }"

definition boot_name :: "byte list" where
  "boot_name = [60, 98, 111, 111, 116, 47, 109, 101, 110, 117, 62]"

text \<open>The run queue is created before, by \<^verbatim>\<open>scheduler_bootstrap\<close>, and the process table by \<^verbatim>\<open>pid_bootstrap\<close>.\<close>

definition thread_bootstrap :: "nat queue \<Rightarrow> pidsys \<Rightarrow> 'w \<Rightarrow> kmem \<Rightarrow> 'w tsys option" where
  "thread_bootstrap q pids w m = do {
     let (sl, m) = array_create m;
     sl \<leftarrow> sl;
     let (zo, m) = array_create m;
     zo \<leftarrow> zo;
     let s = \<lparr>curthread = None, runqueue = q, sleepers = sl, zombies = zo, numthreads = 0, t_heap = Map.empty, t_next = 0,
              t_mem = m, t_pids = pids, lbolt_counter = 0, t_w = w\<rparr>;
     let (me, s) = thread_create boot_name s;
     me \<leftarrow> me;
     th \<leftarrow> t_heap s me;
     Some ((th_put me (th\<lparr>t_pid := BOOTUP_PID, t_pcb := In_Yield\<rparr>) s)\<lparr>curthread := Some me, numthreads := 1\<rparr>)
   }"

section \<open>Context switch\<close>

definition check_stack :: "thread \<Rightarrow> unit option" where
  "check_stack th = (case t_stack th of None \<Rightarrow> Some () | Some st \<Rightarrow> kassert (take 4 st = stack_magic))"

text \<open>What a thread does when it gets the processor: after \<^verbatim>\<open>md_switch\<close> in \<^verbatim>\<open>mi_switch\<close> and the end of its caller, or
  the beginning of \<^verbatim>\<open>mi_threadstart\<close> for a new thread.\<close>

definition resume_thread :: "'w env \<Rightarrow> nat \<Rightarrow> 'w tsys \<Rightarrow> 'w tsys option" where
  "resume_thread env p s = do {
     let s = s\<lparr>curthread := Some p\<rparr>;
     th \<leftarrow> t_heap s p;
     case t_pcb th of
       At_Start \<Rightarrow> unless_null (as_activate env) (t_vmspace th) s
     | In_Exit \<Rightarrow> None
     | In_Yield \<Rightarrow> do {
         s \<leftarrow> exorcise s;
         unless_null (as_activate env) (t_vmspace th) s
       }
     | In_Sleep \<Rightarrow> do {
         s \<leftarrow> exorcise s;
         s \<leftarrow> unless_null (as_activate env) (t_vmspace th) s;
         th \<leftarrow> t_heap s p;
         Some (th_put p (th\<lparr>t_sleepaddr := None\<rparr>) s)
       }
   }"

definition dispatch :: "'w env \<Rightarrow> 'w tsys \<Rightarrow> 'w tsys option" where
  "dispatch env s = do {
     (n, s) \<leftarrow> scheduler s;
     case n of None \<Rightarrow> Some s | Some p \<Rightarrow> resume_thread env p s
   }"

text \<open>The first half of \<^verbatim>\<open>mi_switch\<close>: the current thread goes on the list it belongs to.\<close>

definition stash :: "threadstate_t \<Rightarrow> nat \<Rightarrow> 'w tsys \<Rightarrow> (unit res \<times> 'w tsys) option" where
  "stash nextstate cur s =
     (case nextstate of
        S_READY \<Rightarrow> make_runnable cur s
      | S_SLEEP \<Rightarrow> do {
          (r, a, m) \<leftarrow> array_add (sleepers s) cur (t_mem s);
          Some (r, s\<lparr>sleepers := a, t_mem := m\<rparr>)
        }
      | S_ZOMB \<Rightarrow> do {
          (r, a, m) \<leftarrow> array_add (zombies s) cur (t_mem s);
          Some (r, s\<lparr>zombies := a, t_mem := m\<rparr>)
        }
      | S_RUN \<Rightarrow> None)"

definition pcb_of :: "threadstate_t \<Rightarrow> pcb" where
  "pcb_of st = (case st of S_SLEEP \<Rightarrow> In_Sleep | S_ZOMB \<Rightarrow> In_Exit | _ \<Rightarrow> In_Yield)"

definition mi_switch :: "'w env \<Rightarrow> threadstate_t \<Rightarrow> 'w tsys \<Rightarrow> 'w tsys option" where
  "mi_switch env nextstate s =
     (case curthread s of
        None \<Rightarrow> Some s
      | Some cur \<Rightarrow> do {
          th \<leftarrow> t_heap s cur;
          check_stack th;
          (r, s) \<leftarrow> stash nextstate cur ((th_put cur (th\<lparr>t_pcb := pcb_of nextstate\<rparr>) s)\<lparr>curthread := None\<rparr>);
          kassert (r = Inr ());
          dispatch env s
        })"

definition thread_yield :: "'w env \<Rightarrow> 'w tsys \<Rightarrow> 'w tsys option" where
  "thread_yield env s = mi_switch env S_READY s"

definition thread_sleep :: "'w env \<Rightarrow> wchan \<Rightarrow> 'w tsys \<Rightarrow> 'w tsys option" where
  "thread_sleep env addr s = do {
     cur \<leftarrow> curthread s;
     th \<leftarrow> t_heap s cur;
     mi_switch env S_SLEEP (th_put cur (th\<lparr>t_sleepaddr := Some addr\<rparr>) s)
   }"

text \<open>The loops over the sleepers: \<open>k\<close> of them are left, beginning with number \<open>i\<close>.\<close>

fun wakeup_loop :: "wchan \<Rightarrow> int \<Rightarrow> nat \<Rightarrow> 'w tsys \<Rightarrow> 'w tsys option" where
  "wakeup_loop addr i 0 s = Some s"
| "wakeup_loop addr i (Suc k) s = do {
     p \<leftarrow> array_getguy (sleepers s) i;
     th \<leftarrow> t_heap s p;
     if t_sleepaddr th = Some addr then do {
       a \<leftarrow> array_remove (sleepers s) i;
       (r, s) \<leftarrow> make_runnable p (s\<lparr>sleepers := a\<rparr>);
       kassert (r = Inr ());
       wakeup_loop addr i k s
     }
     else wakeup_loop addr (i + 1) k s
   }"

definition thread_wakeup :: "wchan \<Rightarrow> 'w tsys \<Rightarrow> 'w tsys option" where
  "thread_wakeup addr s = wakeup_loop addr 0 (nat (array_getnum (sleepers s))) s"

fun wakeone_loop :: "wchan \<Rightarrow> int \<Rightarrow> nat \<Rightarrow> 'w tsys \<Rightarrow> 'w tsys option" where
  "wakeone_loop addr i 0 s = Some s"
| "wakeone_loop addr i (Suc k) s = do {
     p \<leftarrow> array_getguy (sleepers s) i;
     th \<leftarrow> t_heap s p;
     if t_sleepaddr th = Some addr then do {
       a \<leftarrow> array_remove (sleepers s) i;
       (r, s) \<leftarrow> make_runnable p (s\<lparr>sleepers := a\<rparr>);
       kassert (r = Inr ());
       Some s
     }
     else wakeone_loop addr (i + 1) k s
   }"

definition thread_wakeone :: "wchan \<Rightarrow> 'w tsys \<Rightarrow> 'w tsys option" where
  "thread_wakeone addr s = wakeone_loop addr 0 (nat (array_getnum (sleepers s))) s"

fun hassleepers_loop :: "wchan \<Rightarrow> int \<Rightarrow> nat \<Rightarrow> 'w tsys \<Rightarrow> bool option" where
  "hassleepers_loop addr i 0 s = Some False"
| "hassleepers_loop addr i (Suc k) s = do {
     p \<leftarrow> array_getguy (sleepers s) i;
     th \<leftarrow> t_heap s p;
     if t_sleepaddr th = Some addr then Some True else hassleepers_loop addr (i + 1) k s
   }"

definition thread_hassleepers :: "wchan \<Rightarrow> 'w tsys \<Rightarrow> bool option" where
  "thread_hassleepers addr s = hassleepers_loop addr 0 (nat (array_getnum (sleepers s))) s"

section \<open>Fork and exit\<close>

text \<open>The label \<^verbatim>\<open>fail\<close> of \<^verbatim>\<open>thread_fork\<close>.\<close>

definition fork_fail :: "'w env \<Rightarrow> int \<Rightarrow> nat \<Rightarrow> errno \<Rightarrow> 'w tsys \<Rightarrow> (int res \<times> 'w tsys) option" where
  "fork_fail env me p e s = do {
     th \<leftarrow> t_heap s p;
     pids \<leftarrow> pid_unalloc me (t_pid th) (t_pids s);
     let s = s\<lparr>t_pids := pids\<rparr>;
     s \<leftarrow> unless_null (as_destroy env) (t_vmspace th) s;
     s \<leftarrow> unless_null (env_decref env) (t_cwd th) s;
     Some (Inl e, s\<lparr>t_heap := (t_heap s)(p := None)\<rparr>)
   }"

text \<open>The part with interrupts off: the three reservations, and the new thread becomes runnable.\<close>

definition fork_reserve :: "nat \<Rightarrow> 'w tsys \<Rightarrow> (unit res \<times> 'w tsys) option" where
  "fork_reserve p s = do {
     n \<leftarrow> cint (numthreads s + 1);
     (r, a, m) \<leftarrow> array_preallocate (sleepers s) n (t_mem s);
     let s = s\<lparr>sleepers := a, t_mem := m\<rparr>;
     case r of
       Inl e \<Rightarrow> Some (Inl e, s)
     | Inr _ \<Rightarrow> do {
         (r, a, m) \<leftarrow> array_preallocate (zombies s) n (t_mem s);
         let s = s\<lparr>zombies := a, t_mem := m\<rparr>;
         case r of
           Inl e \<Rightarrow> Some (Inl e, s)
         | Inr _ \<Rightarrow> do {
             (r, s) \<leftarrow> scheduler_preallocate n s;
             case r of
               Inl e \<Rightarrow> Some (Inl e, s)
             | Inr _ \<Rightarrow> do {
                 (r, s) \<leftarrow> make_runnable p s;
                 case r of
                   Inl e \<Rightarrow> Some (Inl e, s)
                 | Inr _ \<Rightarrow> Some (Inr (), s\<lparr>numthreads := n\<rparr>)
               }
           }
       }
   }"

definition thread_detach :: "int \<Rightarrow> int \<Rightarrow> 'w tsys \<Rightarrow> (unit res \<times> 'w tsys) option" where
  "thread_detach me pid s = do {
     (r, pids) \<leftarrow> pid_detach me pid (t_pids s);
     Some (r, s\<lparr>t_pids := pids\<rparr>)
   }"

text \<open>The copy of the address space of the current thread, if it has one.\<close>

definition fork_copy :: "'w env \<Rightarrow> thread \<Rightarrow> 'w tsys \<Rightarrow> (nat option res \<times> 'w tsys) option" where
  "fork_copy env cur s =
     (case t_vmspace cur of
        None \<Rightarrow> Some (Inr None, s)
      | Some as \<Rightarrow> do {
          (r, w) \<leftarrow> as_copy env as (t_w s);
          Some (case r of Inl e \<Rightarrow> Inl e | Inr x \<Rightarrow> Inr (Some x), s\<lparr>t_w := w\<rparr>)
        })"

text \<open>From \<^verbatim>\<open>md_initpcb\<close> on; \<open>want\<close>: whether the caller asked for the pid.\<close>

definition fork_start :: "'w env \<Rightarrow> int \<Rightarrow> bool \<Rightarrow> nat \<Rightarrow> thread \<Rightarrow> 'w tsys \<Rightarrow> (int res \<times> 'w tsys) option" where
  "fork_start env me want p th s = do {
     (r, s) \<leftarrow> fork_reserve p (th_put p (th\<lparr>t_pcb := At_Start\<rparr>) s);
     case r of
       Inl e \<Rightarrow> fork_fail env me p e s
     | Inr _ \<Rightarrow>
         if want then Some (Inr (t_pid th), s)
         else do {
           (r, s) \<leftarrow> thread_detach me (t_pid th) s;
           kassert (r = Inr ());
           Some (Inr (t_pid th), s)
         }
   }"

text \<open>From the allocation of the stack on; \<open>p\<close> is the new thread. When the copy of the address space fails, the
  reference to the current directory is kept.\<close>

definition fork_rest :: "'w env \<Rightarrow> thread \<Rightarrow> bool \<Rightarrow> nat \<Rightarrow> 'w tsys \<Rightarrow> (int res \<times> 'w tsys) option" where
  "fork_rest env cur want p s = do {
     th \<leftarrow> t_heap s p;
     let (ok, m) = kmalloc (t_mem s);
     let s = s\<lparr>t_mem := m\<rparr>;
     if \<not> ok then do {
       pids \<leftarrow> pid_unalloc (t_pid cur) (t_pid th) (t_pids s);
       Some (Inl ENOMEM, s\<lparr>t_pids := pids, t_heap := (t_heap s)(p := None)\<rparr>)
     }
     else do {
       s \<leftarrow> unless_null (env_incref env) (t_cwd cur) s;
       (r, s) \<leftarrow> fork_copy env cur s;
       case r of
         Inl e \<Rightarrow> do {
           pids \<leftarrow> pid_unalloc (t_pid cur) (t_pid th) (t_pids s);
           Some (Inl ENOMEM, s\<lparr>t_pids := pids, t_heap := (t_heap s)(p := None)\<rparr>)
         }
       | Inr vm \<Rightarrow>
           fork_start env (t_pid cur) want p (th\<lparr>t_stack := Some stack_magic, t_cwd := t_cwd cur, t_vmspace := vm\<rparr>) s
     }
   }"

definition thread_fork :: "'w env \<Rightarrow> byte list \<Rightarrow> bool \<Rightarrow> 'w tsys \<Rightarrow> (int res \<times> 'w tsys) option" where
  "thread_fork env name want s = do {
     c \<leftarrow> curthread s;
     cur \<leftarrow> t_heap s c;
     let (n, s) = thread_create name s;
     case n of
       None \<Rightarrow> Some (Inl ENOMEM, s)
     | Some p \<Rightarrow> do {
         (r, pids) \<leftarrow> pid_alloc (t_pid cur) (t_pids s);
         let s = s\<lparr>t_pids := pids\<rparr>;
         case r of
           Inl e \<Rightarrow> Some (Inl e, s\<lparr>t_heap := (t_heap s)(p := None)\<rparr>)
         | Inr pid \<Rightarrow> do {
             th \<leftarrow> t_heap s p;
             fork_rest env cur want p (th_put p (th\<lparr>t_pid := pid\<rparr>) s)
           }
       }
   }"

text \<open>\<^verbatim>\<open>pid_setexited\<close> signals the condition variable of the process when it is joinable.\<close>

definition thread_exit :: "'w env \<Rightarrow> int \<Rightarrow> 'w tsys \<Rightarrow> 'w tsys option" where
  "thread_exit env exitcode s = do {
     c \<leftarrow> curthread s;
     cur \<leftarrow> t_heap s c;
     (signal, pids) \<leftarrow> pid_setexited (t_pid cur) exitcode (t_pids s);
     let s = s\<lparr>t_pids := pids\<rparr>;
     s \<leftarrow> (if signal then thread_wakeone (Pi_cv (t_pid cur)) s else Some s);
     check_stack cur;
     let s = th_put c (cur\<lparr>t_vmspace := None\<rparr>) s;
     s \<leftarrow> unless_null (as_destroy env) (t_vmspace cur) s;
     s \<leftarrow> unless_null (env_decref env) (t_cwd cur) s;
     s \<leftarrow> unless_null (env_ft_destroy env) (t_filetable cur) s;
     let s = th_put c (cur\<lparr>t_vmspace := None, t_cwd := None, t_filetable := None\<rparr>) s;
     kassert (numthreads s > 0);
     mi_switch env S_ZOMB (s\<lparr>numthreads := numthreads s - 1\<rparr>)
   }"

text \<open>\<^verbatim>\<open>mi_threadstart\<close> ends in \<^verbatim>\<open>thread_exit(0)\<close>, once the function of the thread has returned.\<close>

definition threadstart_return :: "'w env \<Rightarrow> 'w tsys \<Rightarrow> 'w tsys option" where
  "threadstart_return env s = thread_exit env 0 s"

text \<open>\<^verbatim>\<open>thread_join\<close> up to the sleep in \<^verbatim>\<open>pid_join\<close>; a result \<open>None\<close> means that the thread has gone to sleep.\<close>

definition thread_join :: "'w env \<Rightarrow> int \<Rightarrow> 'w tsys \<Rightarrow> (int res option \<times> 'w tsys) option" where
  "thread_join env pid s = do {
     c \<leftarrow> curthread s;
     cur \<leftarrow> t_heap s c;
     (out, pids) \<leftarrow> pid_join_start (t_pid cur) pid (t_pids s);
     let s = s\<lparr>t_pids := pids\<rparr>;
     case out of
       Join_Error e \<Rightarrow> Some (Some (Inl e), s)
     | Join_Status st \<Rightarrow> Some (Some (Inr st), s)
     | Join_Sleep \<Rightarrow> do { s \<leftarrow> thread_sleep env (Pi_cv pid) s; Some (None, s) }
   }"

section \<open>The clock\<close>

abbreviation (input) HZ :: int where "HZ \<equiv> 100"

definition hardclock :: "'w env \<Rightarrow> 'w tsys \<Rightarrow> 'w tsys option" where
  "hardclock env s = do {
     n \<leftarrow> cint (lbolt_counter s + 1);
     s \<leftarrow> (if n \<ge> HZ then thread_wakeup Lbolt (s\<lparr>lbolt_counter := 0\<rparr>) else Some (s\<lparr>lbolt_counter := n\<rparr>));
     thread_yield env s
   }"

text \<open>One turn of the loop of \<^verbatim>\<open>clocksleep\<close>, for \<open>n\<close> seconds: the thread sleeps, or the loop is over.\<close>

definition clocksleep_turn :: "'w env \<Rightarrow> int \<Rightarrow> 'w tsys \<Rightarrow> (int \<times> 'w tsys) option" where
  "clocksleep_turn env n s =
     (if n > 0 then do { s \<leftarrow> thread_sleep env Lbolt s; Some (n - 1, s) } else Some (n, s))"

section \<open>Invariant\<close>

text \<open>A thread structure is in exactly one of four places: it is running, on the run queue, asleep, or dead and
  not yet destroyed.\<close>

abbreviation running :: "'w tsys \<Rightarrow> nat list" where
  "running s \<equiv> (case curthread s of None \<Rightarrow> [] | Some c \<Rightarrow> [c])"

abbreviation ready :: "'w tsys \<Rightarrow> nat list" where
  "ready s \<equiv> q_list (runqueue s)"

abbreviation asleep :: "'w tsys \<Rightarrow> nat list" where
  "asleep s \<equiv> array_list (sleepers s)"

abbreviation dead :: "'w tsys \<Rightarrow> nat list" where
  "dead s \<equiv> array_list (zombies s)"

definition places :: "'w tsys \<Rightarrow> nat list" where
  "places s = running s @ ready s @ asleep s @ dead s"

definition thread_ok :: "thread \<Rightarrow> bool" where
  "thread_ok th \<longleftrightarrow> check_stack th = Some ()"

definition heap_ok :: "'w tsys \<Rightarrow> bool" where
  "heap_ok s \<longleftrightarrow> distinct (places s) \<and> set (places s) = dom (t_heap s) \<and> (\<forall>p \<in> dom (t_heap s). p < t_next s) \<and>
     (\<forall>p th. t_heap s p = Some th \<longrightarrow> thread_ok th) \<and>
     (\<forall>p \<in> set (dead s). \<forall>th. t_heap s p = Some th \<longrightarrow> t_vmspace th = None \<and> t_cwd th = None) \<and>
     (\<forall>p \<in> set (ready s @ asleep s). \<forall>th. t_heap s p = Some th \<longrightarrow> t_pcb th \<noteq> In_Exit) \<and>
     (\<forall>p \<in> set (asleep s). \<forall>th. t_heap s p = Some th \<longrightarrow> t_sleepaddr th \<noteq> None)"

definition tables_ok :: "'w tsys \<Rightarrow> bool" where
  "tables_ok s \<longleftrightarrow> q_inv (runqueue s) \<and> array_inv (sleepers s) \<and> array_inv (zombies s)"

definition threads_inv :: "'w tsys \<Rightarrow> bool" where
  "threads_inv s \<longleftrightarrow> tables_ok s \<and> heap_ok s \<and>
     numthreads s = int (length (running s) + length (ready s) + length (asleep s))"

section \<open>What the routines do to the four places\<close>

text \<open>A ring that is full is no larger than the number of threads on it, so a bound on that number bounds the
  sizes that growing computes.\<close>

lemma addtail_ok:
  assumes inv: "q_inv q" and n: "length (q_list q) < 2 ^ 28" and add: "q_addtail q x m = Some (r, q', m')"
  shows "case r of Inr _ \<Rightarrow> q_inv q' \<and> q_list q' = q_list q @ [x] \<and> q_size q \<le> q_size q' | Inl e \<Rightarrow> q' = q \<and> e = ENOMEM"
proof (cases "int (length (q_list q)) + 1 < q_size q")
  case True
  from q_addtail_room [OF inv this, of x m] add show ?thesis by auto
next
  case False
  then have "q_size q < 2 ^ 29 - 1" using n by simp
  from q_addtail_full [OF inv this, of m x] add show ?thesis by (auto split: sum.split if_split_asm)
qed

lemma make_runnable_ok:
  assumes "q_inv (runqueue s)" and "length (ready s) < 2 ^ 28" and "make_runnable p s = Some (Inr u, s')"
  shows "\<exists>q m. s' = s\<lparr>runqueue := q, t_mem := m\<rparr> \<and> q_inv q \<and> q_list q = ready s @ [p] \<and> q_size (runqueue s) \<le> q_size q"
proof -
  from assms(3) obtain q m where q: "q_addtail (runqueue s) p (t_mem s) = Some (Inr u, q, m)" "s' = s\<lparr>runqueue := q, t_mem := m\<rparr>"
    by (auto simp: make_runnable_def elim!: bind_SomeE)
  from q(2) addtail_ok [OF assms(1,2) q(1)] show ?thesis by auto
qed

lemma make_runnable_err:
  assumes "q_inv (runqueue s)" and "length (ready s) < 2 ^ 28" and "make_runnable p s = Some (Inl e, s')"
  shows "\<exists>m. s' = s\<lparr>t_mem := m\<rparr> \<and> e = ENOMEM"
proof -
  from assms(3) obtain q m where q: "q_addtail (runqueue s) p (t_mem s) = Some (Inl e, q, m)" "s' = s\<lparr>runqueue := q, t_mem := m\<rparr>"
    by (auto simp: make_runnable_def elim!: bind_SomeE)
  from q(2) addtail_ok [OF assms(1,2) q(1)] have "s' = s\<lparr>t_mem := m\<rparr>" "e = ENOMEM" by (cases s, simp)+
  then show ?thesis by blast
qed

text \<open>With a free slot nothing is allocated.\<close>

lemma make_runnable_room:
  assumes "q_inv (runqueue s)" and "int (length (ready s)) + 1 < q_size (runqueue s)"
  shows "\<exists>q. make_runnable p s = Some (Inr (), s\<lparr>runqueue := q\<rparr>) \<and> q_inv q \<and> q_list q = ready s @ [p] \<and> q_size q = q_size (runqueue s)"
proof -
  have "s\<lparr>runqueue := q, t_mem := t_mem s\<rparr> = s\<lparr>runqueue := q\<rparr>" for q by (cases s) simp
  with q_addtail_room [OF assms, of p "t_mem s"] show ?thesis by (auto simp: make_runnable_def)
qed

lemma exorcise_loop_ok:
  assumes "array_inv (zombies s)" and "i + k = length (dead s)" and "exorcise_loop (int i) k s = Some s'"
  shows "s' = s\<lparr>t_heap := \<lambda>p. if p \<in> set (drop i (dead s)) then None else t_heap s p\<rparr>"
  using assms
proof (induction k arbitrary: i s)
  case 0
  then have "s' = s" "drop i (dead s) = []" by simp_all
  then show ?case by (cases s) simp
next
  case (Suc k)
  then have i: "i < length (dead s)" by simp
  have d: "drop i (dead s) = dead s ! i # drop (Suc i) (dead s)" using i by (simp add: Cons_nth_drop_Suc)
  define t where "t = s\<lparr>t_heap := (t_heap s)(dead s ! i := None)\<rparr>"
  have get: "array_getguy (zombies s) (int i) = Some (dead s ! i)" by (rule karr.getguy_Suc_index [OF Suc.prems(1) i])
  have t: "array_inv (zombies t)" "Suc i + k = length (dead t)" using Suc.prems by (simp_all add: t_def)
  have "exorcise_loop (int (Suc i)) k t = Some s'"
    using Suc.prems(3) by (auto simp: get thread_destroy_def t_def add.commute elim!: bind_SomeE)
  from Suc.IH [OF t this] show ?case unfolding d by (auto simp: t_def fun_eq_iff)
qed

lemma exorcise_loop_total:
  assumes "array_inv (zombies s)" and "i + k = length (dead s)" and "distinct (drop i (dead s))"
    and "\<forall>p \<in> set (drop i (dead s)). curthread s \<noteq> Some p \<and> (\<exists>th. t_heap s p = Some th \<and> t_vmspace th = None \<and> t_cwd th = None)"
  shows "\<exists>s'. exorcise_loop (int i) k s = Some s'"
  using assms
proof (induction k arbitrary: i s)
  case (Suc k)
  then have i: "i < length (dead s)" by simp
  have d: "drop i (dead s) = dead s ! i # drop (Suc i) (dead s)" using i by (simp add: Cons_nth_drop_Suc)
  define t where "t = s\<lparr>t_heap := (t_heap s)(dead s ! i := None)\<rparr>"
  have get: "array_getguy (zombies s) (int i) = Some (dead s ! i)" by (rule karr.getguy_Suc_index [OF Suc.prems(1) i])
  have "\<exists>s'. exorcise_loop (int (Suc i)) k t = Some s'"
  proof (rule Suc.IH)
    show "array_inv (zombies t)" "Suc i + k = length (dead t)" using Suc.prems by (simp_all add: t_def)
    show "distinct (drop (Suc i) (dead t))" using Suc.prems(3) unfolding d by (simp add: t_def)
    show "\<forall>p\<in>set (drop (Suc i) (dead t)). curthread t \<noteq> Some p \<and> (\<exists>th. t_heap t p = Some th \<and> t_vmspace th = None \<and> t_cwd th = None)"
      using Suc.prems(3,4) unfolding d by (auto simp: t_def)
  qed
  then show ?case using Suc.prems(4) unfolding d by (auto simp: get thread_destroy_def t_def add.commute)
qed simp

lemma array_setsize_zero:
  assumes "array_inv a"
  shows "\<exists>a'. array_setsize a 0 m = Some (Inr (), a', m) \<and> array_inv a' \<and> array_list a' = [] \<and> a_max a' = (if a_max a > 16 then 0 else a_max a)"
  using assms by (auto simp: array_setsize_def array_inv_def array_list_def split: option.splits)

text \<open>\<^verbatim>\<open>exorcise\<close> destroys the dead threads; it also gives back a vector of more than sixteen cells.\<close>

lemma exorcise_ok:
  assumes "array_inv (zombies s)" and "exorcise s = Some s'"
  shows "\<exists>z. s' = s\<lparr>t_heap := \<lambda>p. if p \<in> set (dead s) then None else t_heap s p, zombies := z\<rparr> \<and> array_inv z \<and> array_list z = [] \<and>
    a_max z = (if a_max (zombies s) > 16 then 0 else a_max (zombies s))"
proof -
  let ?t = "s\<lparr>t_heap := \<lambda>p. if p \<in> set (dead s) then None else t_heap s p\<rparr>"
  have num: "nat (array_getnum (zombies s)) = length (dead s)" using karr.getnum_law [OF assms(1)] by simp
  from assms(2) obtain t where t: "exorcise_loop (int 0) (length (dead s)) s = Some t" by (auto simp: exorcise_def num elim!: bind_SomeE)
  with exorcise_loop_ok [OF assms(1) _ t] have t': "exorcise_loop 0 (length (dead s)) s = Some ?t" by simp
  from array_setsize_zero [OF assms(1), of "t_mem s"] obtain z where
    z: "array_setsize (zombies s) 0 (t_mem s) = Some (Inr (), z, t_mem s)" "array_inv z" "array_list z = []"
      "a_max z = (if a_max (zombies s) > 16 then 0 else a_max (zombies s))" by blast
  have "?t\<lparr>zombies := z, t_mem := t_mem s\<rparr> = ?t\<lparr>zombies := z\<rparr>" by (cases s) simp
  then have "exorcise s = Some (?t\<lparr>zombies := z\<rparr>)" using t' z(1) by (simp add: exorcise_def num)
  with assms(2) z show ?thesis by auto
qed

lemma exorcise_total:
  assumes "array_inv (zombies s)" and "distinct (dead s)"
    and "\<forall>p \<in> set (dead s). curthread s \<noteq> Some p \<and> (\<exists>th. t_heap s p = Some th \<and> t_vmspace th = None \<and> t_cwd th = None)"
  shows "\<exists>s'. exorcise s = Some s'"
proof -
  have num: "nat (array_getnum (zombies s)) = length (dead s)" using karr.getnum_law [OF assms(1)] by simp
  from exorcise_loop_total [of s 0 "length (dead s)"] assms obtain t where t: "exorcise_loop 0 (length (dead s)) s = Some t" by auto
  have "zombies t = zombies s" using exorcise_loop_ok [of s 0 "length (dead s)" t] assms(1) t by simp
  with array_setsize_zero [OF assms(1), of "t_mem t"] t show ?thesis by (auto simp: exorcise_def num)
qed

text \<open>The sleepers on an address.\<close>

definition waits_on :: "'w tsys \<Rightarrow> wchan \<Rightarrow> nat \<Rightarrow> bool" where
  "waits_on s addr p \<longleftrightarrow> (\<exists>th. t_heap s p = Some th \<and> t_sleepaddr th = Some addr)"

lemma array_remove_at:
  assumes "array_inv a" and "i < length (array_list a)"
  shows "\<exists>a'. array_remove a (int i) = Some a' \<and> array_inv a' \<and> a_max a' = a_max a \<and>
    array_list a' = take i (array_list a) @ drop (Suc i) (array_list a)"
  using array_remove_list [OF assms(1), of "int i"] assms(2) by simp

text \<open>Whatever the loop returns has the sleepers on the address at the end of the run queue.\<close>

lemma wakeup_loop_ok:
  assumes "tables_ok s" and "i + k = length (asleep s)" and "length (ready s) + k < 2 ^ 28" and "wakeup_loop addr (int i) k s = Some s'"
  shows "\<exists>q a m. s' = s\<lparr>runqueue := q, sleepers := a, t_mem := m\<rparr> \<and> q_inv q \<and> array_inv a \<and>
    q_list q = ready s @ filter (waits_on s addr) (drop i (asleep s)) \<and>
    array_list a = take i (asleep s) @ filter (\<lambda>p. \<not> waits_on s addr p) (drop i (asleep s))"
  using assms
proof (induction k arbitrary: i s)
  case 0
  from 0 have "s' = s" "drop i (asleep s) = []" "take i (asleep s) = asleep s" by simp_all
  with 0(1) show ?case
    by (intro exI [of _ "runqueue s"] exI [of _ "sleepers s"] exI [of _ "t_mem s"]) (auto simp: tables_ok_def)
next
  case (Suc k)
  have inv: "array_inv (sleepers s)" "q_inv (runqueue s)" using Suc.prems(1) by (simp_all add: tables_ok_def)
  have i: "i < length (asleep s)" using Suc.prems(2) by simp
  let ?p = "asleep s ! i"
  have d: "drop i (asleep s) = ?p # drop (Suc i) (asleep s)" using i by (simp add: Cons_nth_drop_Suc)
  have get: "array_getguy (sleepers s) (int i) = Some ?p" by (rule karr.getguy_Suc_index [OF inv(1) i])
  show ?case
  proof (cases "waits_on s addr ?p")
    case False
    then have "wakeup_loop addr (int (Suc i)) k s = Some s'"
      using Suc.prems(4) by (auto simp: get waits_on_def add.commute elim!: bind_SomeE split: if_split_asm)
    from Suc.IH [OF Suc.prems(1) _ _ this] Suc.prems(2,3) False show ?thesis
      unfolding d by (simp add: take_Suc_conv_app_nth [OF i])
  next
    case True
    from array_remove_at [OF inv(1) i] obtain a where
      a: "array_remove (sleepers s) (int i) = Some a" "array_inv a" "array_list a = take i (asleep s) @ drop (Suc i) (asleep s)" by blast
    let ?s = "s\<lparr>sleepers := a\<rparr>"
    from True Suc.prems(4) obtain t u where t: "make_runnable ?p ?s = Some (Inr u, t)" "wakeup_loop addr (int i) k t = Some s'"
      by (auto simp: get a(1) waits_on_def kassert_def elim!: bind_SomeE split: if_split_asm)
    from make_runnable_ok [OF _ _ t(1)] inv(2) Suc.prems(3) obtain q m where
      q: "t = ?s\<lparr>runqueue := q, t_mem := m\<rparr>" "q_inv q" "q_list q = ready s @ [?p]" by auto
    have "tables_ok t" "i + k = length (asleep t)" "length (ready t) + k < 2 ^ 28"
      using Suc.prems q a i by (simp_all add: tables_ok_def)
    from Suc.IH [OF this t(2)] obtain q' a' m' where
      r: "s' = t\<lparr>runqueue := q', sleepers := a', t_mem := m'\<rparr>" "q_inv q'" "array_inv a'"
        "q_list q' = ready t @ filter (waits_on t addr) (drop i (asleep t))"
        "array_list a' = take i (asleep t) @ filter (\<lambda>p. \<not> waits_on t addr p) (drop i (asleep t))" by blast
    have w: "waits_on t addr = waits_on s addr" using q(1) by (simp add: waits_on_def fun_eq_iff)
    have al: "asleep t = take i (asleep s) @ drop (Suc i) (asleep s)" "ready t = ready s @ [?p]" using q a by simp_all
    have "s' = s\<lparr>runqueue := q', sleepers := a', t_mem := m'\<rparr>" using r(1) q(1) by simp
    moreover have "q_list q' = ready s @ filter (waits_on s addr) (drop i (asleep s))"
      using r(4) True i unfolding w al d by simp
    moreover have "array_list a' = take i (asleep s) @ filter (\<lambda>p. \<not> waits_on s addr p) (drop i (asleep s))"
      using r(5) True i unfolding w al d by simp
    ultimately show ?thesis using r(2,3) by blast
  qed
qed

text \<open>With a slot for every sleeper the loop returns and allocates nothing.\<close>

lemma wakeup_loop_room:
  assumes "tables_ok s" and "i + k = length (asleep s)" and "int (length (ready s) + k) < q_size (runqueue s)"
    and "\<forall>p \<in> set (asleep s). t_heap s p \<noteq> None"
  shows "\<exists>s'. wakeup_loop addr (int i) k s = Some s' \<and> t_mem s' = t_mem s \<and> q_size (runqueue s') = q_size (runqueue s) \<and>
    a_max (sleepers s') = a_max (sleepers s)"
  using assms
proof (induction k arbitrary: i s)
  case (Suc k)
  have inv: "array_inv (sleepers s)" "q_inv (runqueue s)" using Suc.prems(1) by (simp_all add: tables_ok_def)
  have i: "i < length (asleep s)" using Suc.prems(2) by simp
  let ?p = "asleep s ! i"
  have get: "array_getguy (sleepers s) (int i) = Some ?p" by (rule karr.getguy_Suc_index [OF inv(1) i])
  obtain th where th: "t_heap s ?p = Some th" using Suc.prems(4) i by fastforce
  show ?case
  proof (cases "t_sleepaddr th = Some addr")
    case False
    with Suc.IH [of s "Suc i"] Suc.prems th get show ?thesis by (simp add: add.commute)
  next
    case True
    from array_remove_at [OF inv(1) i] obtain a where a: "array_remove (sleepers s) (int i) = Some a" "array_inv a"
      "a_max a = a_max (sleepers s)" "array_list a = take i (asleep s) @ drop (Suc i) (asleep s)" by blast
    from make_runnable_room [of "s\<lparr>sleepers := a\<rparr>" ?p] inv(2) Suc.prems(3) obtain q where
      q: "make_runnable ?p (s\<lparr>sleepers := a\<rparr>) = Some (Inr (), s\<lparr>sleepers := a, runqueue := q\<rparr>)" "q_inv q" "q_list q = ready s @ [?p]"
        "q_size q = q_size (runqueue s)" by auto
    have "\<exists>s'. wakeup_loop addr (int i) k (s\<lparr>sleepers := a, runqueue := q\<rparr>) = Some s' \<and>
        t_mem s' = t_mem (s\<lparr>sleepers := a, runqueue := q\<rparr>) \<and> q_size (runqueue s') = q_size (runqueue (s\<lparr>sleepers := a, runqueue := q\<rparr>)) \<and>
        a_max (sleepers s') = a_max (sleepers (s\<lparr>sleepers := a, runqueue := q\<rparr>))"
      using Suc.prems a q i by (intro Suc.IH) (auto simp: tables_ok_def dest: in_set_takeD in_set_dropD)
    with True th get a q show ?thesis by simp
  qed
qed simp

lemma wakeone_loop_ok:
  assumes "tables_ok s" and "i + k = length (asleep s)" and "length (ready s) < 2 ^ 28" and "wakeone_loop addr (int i) k s = Some s'"
  shows "s' = s \<and> (\<forall>p \<in> set (drop i (asleep s)). \<not> waits_on s addr p) \<or>
    (\<exists>q a m xs p ys. s' = s\<lparr>runqueue := q, sleepers := a, t_mem := m\<rparr> \<and> q_inv q \<and> array_inv a \<and> drop i (asleep s) = xs @ p # ys \<and>
      waits_on s addr p \<and> (\<forall>x \<in> set xs. \<not> waits_on s addr x) \<and> q_list q = ready s @ [p] \<and> array_list a = take i (asleep s) @ xs @ ys)"
  using assms
proof (induction k arbitrary: i)
  case 0
  then show ?case by simp
next
  case (Suc k)
  have inv: "array_inv (sleepers s)" "q_inv (runqueue s)" using Suc.prems(1) by (simp_all add: tables_ok_def)
  have i: "i < length (asleep s)" using Suc.prems(2) by simp
  let ?p = "asleep s ! i"
  have d: "drop i (asleep s) = ?p # drop (Suc i) (asleep s)" using i by (simp add: Cons_nth_drop_Suc)
  have get: "array_getguy (sleepers s) (int i) = Some ?p" by (rule karr.getguy_Suc_index [OF inv(1) i])
  show ?case
  proof (cases "waits_on s addr ?p")
    case False
    then have "wakeone_loop addr (int (Suc i)) k s = Some s'"
      using Suc.prems(4) by (auto simp: get waits_on_def add.commute elim!: bind_SomeE split: if_split_asm)
    from Suc.IH [OF Suc.prems(1) _ Suc.prems(3) this] Suc.prems(2) consider
      "s' = s" "\<forall>p \<in> set (drop (Suc i) (asleep s)). \<not> waits_on s addr p" |
      q a m xs p ys where "s' = s\<lparr>runqueue := q, sleepers := a, t_mem := m\<rparr>" "q_inv q" "array_inv a" "drop (Suc i) (asleep s) = xs @ p # ys"
        "waits_on s addr p" "\<forall>x \<in> set xs. \<not> waits_on s addr x" "q_list q = ready s @ [p]" "array_list a = take (Suc i) (asleep s) @ xs @ ys"
      by auto
    then show ?thesis
    proof cases
      case 1
      with False show ?thesis unfolding d by simp
    next
      case 2
      then have "drop i (asleep s) = (?p # xs) @ p # ys" "\<forall>x \<in> set (?p # xs). \<not> waits_on s addr x"
        "array_list a = take i (asleep s) @ (?p # xs) @ ys" using False i d by (simp_all add: take_Suc_conv_app_nth)
      with 2 show ?thesis by blast
    qed
  next
    case True
    from array_remove_at [OF inv(1) i] obtain a where
      a: "array_remove (sleepers s) (int i) = Some a" "array_inv a" "array_list a = take i (asleep s) @ drop (Suc i) (asleep s)" by blast
    from True Suc.prems(4) obtain u where t: "make_runnable ?p (s\<lparr>sleepers := a\<rparr>) = Some (Inr u, s')"
      by (auto simp: get a(1) waits_on_def kassert_def elim!: bind_SomeE split: if_split_asm)
    from make_runnable_ok [OF _ _ t] inv(2) Suc.prems(3) obtain q m where
      "s' = s\<lparr>sleepers := a, runqueue := q, t_mem := m\<rparr>" "q_inv q" "q_list q = ready s @ [?p]" by auto
    then have "s' = s\<lparr>runqueue := q, sleepers := a, t_mem := m\<rparr>" "q_inv q" "q_list q = ready s @ [?p]"
      "drop i (asleep s) = [] @ ?p # drop (Suc i) (asleep s)" "array_list a = take i (asleep s) @ [] @ drop (Suc i) (asleep s)"
      using d a by simp_all
    with a True show ?thesis by (metis list.distinct(1) list.set_cases)
  qed
qed

section \<open>The invariant is kept\<close>

text \<open>Sleepers that become ready.\<close>

lemma inv_moved:
  assumes inv: "threads_inv s" and "s' = s\<lparr>runqueue := q, sleepers := a, t_mem := m\<rparr>" and "q_inv q" "array_inv a"
    and perm: "mset (q_list q @ array_list a) = mset (ready s @ asleep s)" and sub: "set (array_list a) \<subseteq> set (asleep s)"
  shows "threads_inv s'"
proof -
  have eq: "set (q_list q) \<union> set (array_list a) = set (ready s) \<union> set (asleep s)" using mset_eq_setD [OF perm] by simp
  have len: "length (q_list q) + length (array_list a) = length (ready s) + length (asleep s)" using mset_eq_length [OF perm] by simp
  have "mset (places s') = mset (places s)" using perm assms(2) by (simp add: places_def ac_simps)
  then have "distinct (places s') = distinct (places s)" "set (places s') = set (places s)"
    using mset_eq_imp_distinct_iff mset_eq_setD by blast+
  then have "heap_ok s'" using inv assms(2) eq sub by (auto simp: threads_inv_def heap_ok_def)
  with inv assms len show ?thesis by (simp add: threads_inv_def tables_ok_def del: length_q_list)
qed

lemma num_asleep: "tables_ok s \<Longrightarrow> nat (array_getnum (sleepers s)) = length (asleep s)"
  by (simp add: tables_ok_def array_getnum_list)

lemma thread_wakeup_inv:
  assumes inv: "threads_inv s" and n: "numthreads s < 2 ^ 28" and call: "thread_wakeup addr s = Some s'"
  shows "threads_inv s'" and "\<exists>q a m. s' = s\<lparr>runqueue := q, sleepers := a, t_mem := m\<rparr> \<and>
    q_list q = ready s @ filter (waits_on s addr) (asleep s) \<and> array_list a = filter (\<lambda>p. \<not> waits_on s addr p) (asleep s)"
proof -
  have tab: "tables_ok s" and len: "length (ready s) + length (asleep s) < 2 ^ 28" using inv n by (simp_all add: threads_inv_def)
  have "nat (array_getnum (sleepers s)) = length (asleep s)" by (rule num_asleep [OF tab])
  with call have "wakeup_loop addr (int 0) (length (asleep s)) s = Some s'" by (simp add: thread_wakeup_def)
  from wakeup_loop_ok [OF tab _ len this] obtain q a m where
    s': "s' = s\<lparr>runqueue := q, sleepers := a, t_mem := m\<rparr>" "q_inv q" "array_inv a"
      "q_list q = ready s @ filter (waits_on s addr) (asleep s)" "array_list a = filter (\<lambda>p. \<not> waits_on s addr p) (asleep s)" by auto
  have "mset (q_list q @ array_list a) = mset (ready s @ asleep s)" using s'(4,5) by (simp add: multiset_partition [symmetric])
  then show "threads_inv s'" using inv_moved [OF inv s'(1,2,3)] s'(5) by auto
  show "\<exists>q a m. s' = s\<lparr>runqueue := q, sleepers := a, t_mem := m\<rparr> \<and>
    q_list q = ready s @ filter (waits_on s addr) (asleep s) \<and> array_list a = filter (\<lambda>p. \<not> waits_on s addr p) (asleep s)"
    using s' by blast
qed

lemma thread_wakeone_inv:
  assumes inv: "threads_inv s" and n: "numthreads s < 2 ^ 28" and call: "thread_wakeone addr s = Some s'"
  shows "threads_inv s'" and "s' = s \<and> (\<forall>p \<in> set (asleep s). \<not> waits_on s addr p) \<or>
    (\<exists>q a m xs p ys. s' = s\<lparr>runqueue := q, sleepers := a, t_mem := m\<rparr> \<and> asleep s = xs @ p # ys \<and>
      waits_on s addr p \<and> (\<forall>x \<in> set xs. \<not> waits_on s addr x) \<and> q_list q = ready s @ [p] \<and> array_list a = xs @ ys)"
proof -
  have tab: "tables_ok s" and len: "length (ready s) < 2 ^ 28" using inv n by (simp_all add: threads_inv_def)
  have "nat (array_getnum (sleepers s)) = length (asleep s)" by (rule num_asleep [OF tab])
  with call have "wakeone_loop addr (int 0) (length (asleep s)) s = Some s'" by (simp add: thread_wakeone_def)
  from wakeone_loop_ok [OF tab _ len this] consider
      "s' = s" "\<forall>p \<in> set (asleep s). \<not> waits_on s addr p" |
      q a m xs p ys where "s' = s\<lparr>runqueue := q, sleepers := a, t_mem := m\<rparr>" "q_inv q" "array_inv a" "asleep s = xs @ p # ys"
        "waits_on s addr p" "\<forall>x \<in> set xs. \<not> waits_on s addr x" "q_list q = ready s @ [p]" "array_list a = xs @ ys"
    by auto
  then have "threads_inv s' \<and> (s' = s \<and> (\<forall>p \<in> set (asleep s). \<not> waits_on s addr p) \<or>
    (\<exists>q a m xs p ys. s' = s\<lparr>runqueue := q, sleepers := a, t_mem := m\<rparr> \<and> asleep s = xs @ p # ys \<and>
      waits_on s addr p \<and> (\<forall>x \<in> set xs. \<not> waits_on s addr x) \<and> q_list q = ready s @ [p] \<and> array_list a = xs @ ys))"
  proof cases
    case 1
    with inv show ?thesis by blast
  next
    case 2
    have "threads_inv s'" by (rule inv_moved [OF inv 2(1,2,3)]) (use 2 in auto)
    with 2 show ?thesis by blast
  qed
  then show "threads_inv s'" and "s' = s \<and> (\<forall>p \<in> set (asleep s). \<not> waits_on s addr p) \<or>
    (\<exists>q a m xs p ys. s' = s\<lparr>runqueue := q, sleepers := a, t_mem := m\<rparr> \<and> asleep s = xs @ p # ys \<and>
      waits_on s addr p \<and> (\<forall>x \<in> set xs. \<not> waits_on s addr x) \<and> q_list q = ready s @ [p] \<and> array_list a = xs @ ys)" by blast+
qed

text \<open>The parts of a switch.\<close>

lemma inv_pick:
  assumes "threads_inv s" and "curthread s = None" and "ready s = p # q_list q" and "q_inv q"
  shows "threads_inv (s\<lparr>runqueue := q, curthread := Some p\<rparr>)"
proof -
  let ?s = "s\<lparr>runqueue := q, curthread := Some p\<rparr>"
  have "places ?s = places s" using assms(2,3) by (simp add: places_def)
  moreover have "set (ready ?s @ asleep ?s) \<subseteq> set (ready s @ asleep s)" using assms(3) by auto
  ultimately have "heap_ok ?s" using assms(1) by (auto simp: threads_inv_def heap_ok_def)
  moreover have "length (ready s) = Suc (length (q_list q))" using assms(3) by simp
  ultimately show ?thesis using assms by (simp add: threads_inv_def tables_ok_def del: length_q_list)
qed

lemma inv_exorcise:
  assumes inv: "threads_inv s" and call: "exorcise s = Some s'"
  shows "threads_inv s' \<and> curthread s' = curthread s \<and> runqueue s' = runqueue s \<and> sleepers s' = sleepers s \<and> t_mem s' = t_mem s \<and> dead s' = [] \<and>
    (\<forall>p. p \<notin> set (dead s) \<longrightarrow> t_heap s' p = t_heap s p)"
proof -
  have "array_inv (zombies s)" using inv by (simp add: threads_inv_def tables_ok_def)
  from exorcise_ok [OF this call] obtain z where
    s': "s' = s\<lparr>t_heap := \<lambda>p. if p \<in> set (dead s) then None else t_heap s p, zombies := z\<rparr>" "array_inv z" "array_list z = []" by blast
  have h: "heap_ok s" using inv by (simp add: threads_inv_def)
  then have "dom (t_heap s') = set (places s')" using s' by (auto simp: heap_ok_def places_def dom_def)
  moreover have "distinct (places s')" using h s' by (auto simp: heap_ok_def places_def)
  ultimately have "heap_ok s'" using h s' by (auto simp: heap_ok_def dom_def split: if_split_asm)
  with inv s' show ?thesis by (simp add: threads_inv_def tables_ok_def)
qed

lemma inv_cur_put:
  assumes "threads_inv s" and "curthread s = Some p" and "thread_ok th"
  shows "threads_inv (th_put p th s)"
proof -
  have h: "heap_ok s" using assms(1) by (simp add: threads_inv_def)
  then have p: "p \<in> dom (t_heap s)" "p \<notin> set (ready s @ asleep s @ dead s)" using assms(2) by (auto simp: heap_ok_def places_def)
  have "places (th_put p th s) = places s" by (simp add: places_def th_put_def)
  then have "heap_ok (th_put p th s)" using h p assms(3) by (auto simp: heap_ok_def th_put_def)
  then show ?thesis using assms(1) by (simp add: threads_inv_def tables_ok_def th_put_def)
qed

text \<open>Fields the invariant does not speak about.\<close>

lemma inv_other [simp]:
  "threads_inv (s\<lparr>t_w := w\<rparr>) = threads_inv s" "threads_inv (s\<lparr>t_pids := x\<rparr>) = threads_inv s"
  "threads_inv (s\<lparr>t_mem := m\<rparr>) = threads_inv s" "threads_inv (s\<lparr>lbolt_counter := n\<rparr>) = threads_inv s"
  by (simp_all add: threads_inv_def tables_ok_def heap_ok_def places_def)

lemma unless_null_Some: "unless_null f p s = Some s' \<Longrightarrow> \<exists>w. s' = s\<lparr>t_w := w\<rparr>"
proof (cases p)
  case None
  assume "unless_null f p s = Some s'"
  with None have "s' = s\<lparr>t_w := t_w s\<rparr>" by (simp add: unless_null_def)
  then show ?thesis ..
qed (auto simp: unless_null_def in_env_def elim!: bind_SomeE)

lemma resume_inv:
  assumes inv: "threads_inv (s\<lparr>curthread := Some p\<rparr>)" and call: "resume_thread env p s = Some s'"
  shows "threads_inv s' \<and> curthread s' = Some p \<and> runqueue s' = runqueue s \<and> sleepers s' = sleepers s \<and> t_mem s' = t_mem s"
proof -
  let ?s = "s\<lparr>curthread := Some p\<rparr>"
  from call obtain th where th: "t_heap s p = Some th" by (auto simp: resume_thread_def Let_def elim!: bind_SomeE)
  note eq = resume_thread_def Let_def
  show ?thesis
  proof (cases "t_pcb th")
    case At_Start
    with call th obtain w where "s' = ?s\<lparr>t_w := w\<rparr>" by (auto simp: eq dest: unless_null_Some)
    with inv show ?thesis by simp
  next
    case In_Exit
    with call th show ?thesis by (simp add: eq)
  next
    case In_Yield
    with call th obtain t w where "exorcise ?s = Some t" "s' = t\<lparr>t_w := w\<rparr>" by (auto simp: eq dest: unless_null_Some elim!: bind_SomeE)
    with inv_exorcise [OF inv this(1)] show ?thesis by simp
  next
    case In_Sleep
    with call th obtain t w th' where t: "exorcise ?s = Some t" "t_heap t p = Some th'" "s' = th_put p (th'\<lparr>t_sleepaddr := None\<rparr>) (t\<lparr>t_w := w\<rparr>)"
      by (fastforce simp: eq dest: unless_null_Some elim!: bind_SomeE)
    from inv_exorcise [OF inv t(1)] have t': "threads_inv (t\<lparr>t_w := w\<rparr>)" "curthread t = Some p" "runqueue t = runqueue s" "sleepers t = sleepers s" "t_mem t = t_mem s"
      by simp_all
    then have "thread_ok th'" using t(2) by (auto simp: threads_inv_def heap_ok_def)
    then have "thread_ok (th'\<lparr>t_sleepaddr := None\<rparr>)" by (simp add: thread_ok_def check_stack_def)
    with inv_cur_put [OF t'(1)] t' t(3) show ?thesis by (simp add: th_put_def)
  qed
qed

lemma dispatch_inv:
  assumes inv: "threads_inv s" and idle: "curthread s = None" and call: "dispatch env s = Some s'"
  shows "threads_inv s' \<and> curthread s' = (case ready s of [] \<Rightarrow> None | p # _ \<Rightarrow> Some p) \<and> ready s' = tl (ready s) \<and> sleepers s' = sleepers s \<and> t_mem s' = t_mem s \<and>
    q_size (runqueue s') = q_size (runqueue s)"
proof -
  have q: "q_inv (runqueue s)" using inv by (simp add: threads_inv_def tables_ok_def)
  show ?thesis
  proof (cases "q_empty (runqueue s)")
    case True
    with q have "ready s = []" using q_empty_iff by blast
    with True call inv idle show ?thesis by (simp add: dispatch_def scheduler_def)
  next
    case False
    from kq.remhead_total [OF q False] obtain p q' where rem: "q_remhead (runqueue s) = Some (p, q')" by blast
    with kq.remhead_Some [OF q] have p: "q_inv q'" "ready s = p # q_list q'" by blast+
    have "q_size q' = q_size (runqueue s)" using rem by (auto simp: q_remhead_def elim!: bind_SomeE)
    moreover from call False rem have "resume_thread env p (s\<lparr>runqueue := q'\<rparr>) = Some s'" by (simp add: dispatch_def scheduler_def)
    ultimately show ?thesis using resume_inv [of p "s\<lparr>runqueue := q'\<rparr>" env s'] inv_pick [OF inv idle p(2,1)] p by simp
  qed
qed

text \<open>What the current thread has to be before it goes on a list.\<close>

definition may_leave :: "threadstate_t \<Rightarrow> thread \<Rightarrow> bool" where
  "may_leave st th \<longleftrightarrow> (case st of S_READY \<Rightarrow> True | S_SLEEP \<Rightarrow> t_sleepaddr th \<noteq> None
     | S_ZOMB \<Rightarrow> t_vmspace th = None \<and> t_cwd th = None | S_RUN \<Rightarrow> False)"

text \<open>The lists after the current thread has left.\<close>

definition left :: "threadstate_t \<Rightarrow> nat \<Rightarrow> 'w tsys \<Rightarrow> 'w tsys \<Rightarrow> bool" where
  "left st c s s' \<longleftrightarrow> curthread s' = None \<and>
     ready s' = ready s @ (if st = S_READY then [c] else []) \<and>
     asleep s' = asleep s @ (if st = S_SLEEP then [c] else []) \<and>
     dead s' = dead s @ (if st = S_ZOMB then [c] else [])"

lemma leave_heap_ok:
  assumes h: "heap_ok s" and c: "curthread s = Some c" "t_heap s c = Some th" and "may_leave st th" and l: "left st c s s'"
    and "t_heap s' = (t_heap s)(c \<mapsto> th\<lparr>t_pcb := pcb_of st\<rparr>)" "t_next s' = t_next s"
  shows "heap_ok s'"
proof -
  have st: "st \<in> {S_READY, S_SLEEP, S_ZOMB}" using assms(4) by (cases st) (auto simp: may_leave_def)
  have ok: "thread_ok (th\<lparr>t_pcb := x\<rparr>)" for x using h c(2) by (auto simp: heap_ok_def thread_ok_def check_stack_def)
  have "mset (places s') = mset (places s)" using l c st by (auto simp: left_def places_def)
  then have "distinct (places s') = distinct (places s)" "set (places s') = set (places s)"
    using mset_eq_imp_distinct_iff mset_eq_setD by blast+
  then have pl: "distinct (places s')" "set (places s') = dom (t_heap s')" using h assms(6) c(2) by (auto simp: heap_ok_def)
  have c': "c \<notin> set (ready s @ asleep s @ dead s)" using h c(1) by (auto simp: heap_ok_def places_def)
  have "\<forall>p\<in>dom (t_heap s'). p < t_next s'" "\<forall>p th. t_heap s' p = Some th \<longrightarrow> thread_ok th"
    using h ok c(2) by (auto simp: heap_ok_def assms(6,7))
  moreover have "\<forall>p\<in>set (dead s'). \<forall>th. t_heap s' p = Some th \<longrightarrow> t_vmspace th = None \<and> t_cwd th = None"
    using h l c' assms(4) st by (auto simp: heap_ok_def assms(6) left_def may_leave_def)
  moreover have "\<forall>p\<in>set (ready s' @ asleep s'). \<forall>th. t_heap s' p = Some th \<longrightarrow> t_pcb th \<noteq> In_Exit"
    using h l c' st by (auto simp: heap_ok_def assms(6) left_def pcb_of_def split: if_split_asm)
  moreover have "\<forall>p\<in>set (asleep s'). \<forall>th. t_heap s' p = Some th \<longrightarrow> t_sleepaddr th \<noteq> None"
    using h l c' assms(4) st by (auto simp: heap_ok_def assms(6) left_def may_leave_def split: if_split_asm)
  ultimately show ?thesis using pl unfolding heap_ok_def by blast
qed

definition live_count :: "threadstate_t \<Rightarrow> 'w tsys \<Rightarrow> int" where
  "live_count st s = int (length (ready s) + length (asleep s)) + (if st = S_ZOMB then 0 else 1)"

lemma stash_inv:
  assumes tab: "tables_ok s" and h: "heap_ok s" and c: "curthread s = Some c" "t_heap s c = Some th" and may: "may_leave st th"
    and n: "numthreads s = live_count st s" "length (ready s) < 2 ^ 28"
    and call: "stash st c ((th_put c (th\<lparr>t_pcb := pcb_of st\<rparr>) s)\<lparr>curthread := None\<rparr>) = Some (Inr u, s')"
  shows "threads_inv s' \<and> left st c s s'"
proof -
  let ?s = "(th_put c (th\<lparr>t_pcb := pcb_of st\<rparr>) s)\<lparr>curthread := None\<rparr>"
  have put: "t_heap s' = (t_heap s)(c \<mapsto> th\<lparr>t_pcb := pcb_of st\<rparr>) \<and> t_next s' = t_next s \<and> numthreads s' = numthreads s \<and> tables_ok s' \<and> left st c s s'"
  proof (cases st)
    case S_READY
    from make_runnable_ok [of ?s c u s'] call tab n(2) S_READY show ?thesis
      by (auto simp: stash_def tables_ok_def left_def th_put_def)
  next
    case S_SLEEP
    with call obtain a m where a: "array_add (sleepers s) c (t_mem s) = Some (Inr u, a, m)" "s' = ?s\<lparr>sleepers := a, t_mem := m\<rparr>"
      by (auto simp: stash_def th_put_def elim!: bind_SomeE)
    with karr.add_ok_law [OF _ a(1)] tab S_SLEEP show ?thesis by (simp add: tables_ok_def left_def th_put_def)
  next
    case S_ZOMB
    with call obtain a m where a: "array_add (zombies s) c (t_mem s) = Some (Inr u, a, m)" "s' = ?s\<lparr>zombies := a, t_mem := m\<rparr>"
      by (auto simp: stash_def th_put_def elim!: bind_SomeE)
    with karr.add_ok_law [OF _ a(1)] tab S_ZOMB show ?thesis by (simp add: tables_ok_def left_def th_put_def)
  qed (use call in \<open>simp add: stash_def\<close>)
  have "length (ready s') + length (asleep s') = length (ready s) + length (asleep s) + (if st = S_ZOMB then 0 else 1)"
    using put may unfolding left_def by (cases st) (auto simp: may_leave_def simp del: length_q_list)
  moreover have "heap_ok s'" using leave_heap_ok [OF h c may] put by blast
  moreover have "curthread s' = None" using put by (simp add: left_def)
  ultimately have "threads_inv s'" using put n(1) by (simp add: threads_inv_def live_count_def del: length_q_list)
  with put show ?thesis by blast
qed

lemma mi_switch_inv:
  assumes tab: "tables_ok s" and h: "heap_ok s" and c: "curthread s = Some c" "t_heap s c = Some th" and may: "may_leave st th"
    and n: "numthreads s = live_count st s" "length (ready s) < 2 ^ 28" and call: "mi_switch env st s = Some s'"
  shows "\<exists>t. threads_inv t \<and> left st c s t \<and> threads_inv s' \<and> dispatch env t = Some s'"
proof -
  from call c obtain u t where t: "stash st c ((th_put c (th\<lparr>t_pcb := pcb_of st\<rparr>) s)\<lparr>curthread := None\<rparr>) = Some (Inr u, t)" "dispatch env t = Some s'"
    by (auto simp: mi_switch_def kassert_def elim!: bind_SomeE split: if_split_asm)
  from stash_inv [OF tab h c may n t(1)] have "threads_inv t" "left st c s t" by blast+
  with dispatch_inv [OF _ _ t(2)] t(2) show ?thesis by (auto simp: left_def)
qed

lemma threads_inv_parts:
  assumes "threads_inv s" and "numthreads s < 2 ^ 28" and "curthread s = Some c" and "st \<noteq> S_ZOMB"
  shows "tables_ok s" and "heap_ok s" and "numthreads s = live_count st s" and "length (ready s) < 2 ^ 28" and "\<exists>th. t_heap s c = Some th"
proof -
  show "tables_ok s" "heap_ok s" using assms(1) by (simp_all add: threads_inv_def)
  then have "c \<in> dom (t_heap s)" using assms(3) by (auto simp: heap_ok_def places_def)
  then show "\<exists>th. t_heap s c = Some th" by blast
  show "numthreads s = live_count st s" "length (ready s) < 2 ^ 28" using assms by (simp_all add: threads_inv_def live_count_def)
qed

lemma thread_yield_inv:
  assumes "threads_inv s" and "numthreads s < 2 ^ 28" and "thread_yield env s = Some s'"
  shows "threads_inv s'"
proof (cases "curthread s")
  case None
  with assms show ?thesis by (simp add: thread_yield_def mi_switch_def)
next
  case (Some c)
  have st: "S_READY \<noteq> S_ZOMB" by simp
  note parts = threads_inv_parts [OF assms(1,2) Some st]
  from parts(5) obtain th where "t_heap s c = Some th" by blast
  from mi_switch_inv [OF parts(1,2) Some this _ parts(3,4), of env s'] assms(3) show ?thesis
    by (auto simp: thread_yield_def may_leave_def)
qed

lemma thread_sleep_inv:
  assumes inv: "threads_inv s" and n: "numthreads s < 2 ^ 28" and call: "thread_sleep env addr s = Some s'"
  shows "threads_inv s'"
proof -
  from call obtain c th where c: "curthread s = Some c" "t_heap s c = Some th"
    and sw: "mi_switch env S_SLEEP (th_put c (th\<lparr>t_sleepaddr := Some addr\<rparr>) s) = Some s'"
    by (auto simp: thread_sleep_def elim!: bind_SomeE)
  let ?s = "th_put c (th\<lparr>t_sleepaddr := Some addr\<rparr>) s"
  have "thread_ok th" using inv c(2) by (auto simp: threads_inv_def heap_ok_def)
  then have inv': "threads_inv ?s" by (intro inv_cur_put [OF inv c(1)]) (simp add: thread_ok_def check_stack_def)
  have cur: "curthread ?s = Some c" "numthreads ?s < 2 ^ 28" "t_heap ?s c = Some (th\<lparr>t_sleepaddr := Some addr\<rparr>)" "S_SLEEP \<noteq> S_ZOMB"
    using c n by (simp_all add: th_put_def)
  note parts = threads_inv_parts [OF inv' cur(2,1,4)]
  from mi_switch_inv [OF parts(1,2) cur(1,3) _ parts(3,4) sw] show ?thesis by (auto simp: may_leave_def)
qed

text \<open>The state in which \<^verbatim>\<open>thread_exit\<close> switches for the last time.\<close>

lemma thread_exit_parts:
  assumes inv: "threads_inv s" and n: "numthreads s < 2 ^ 28" and call: "thread_exit env code s = Some s'"
  obtains c cur pids t w x where "t = s\<lparr>t_pids := pids\<rparr> \<or> thread_wakeone (Pi_cv (t_pid cur)) (s\<lparr>t_pids := pids\<rparr>) = Some t"
    and "threads_inv t" and "curthread t = Some c" and "x = (th_put c cur (t\<lparr>t_w := w\<rparr>))\<lparr>numthreads := numthreads t - 1\<rparr>"
    and "tables_ok x" and "heap_ok x" and "curthread x = Some c" and "t_heap x c = Some cur" and "may_leave S_ZOMB cur"
    and "numthreads x = live_count S_ZOMB x" and "length (ready x) < 2 ^ 28" and "mi_switch env S_ZOMB x = Some s'"
proof -
  from call obtain c cur signal pids t where c: "curthread s = Some c" "t_heap s c = Some cur"
    and t: "(if signal then thread_wakeone (Pi_cv (t_pid cur)) (s\<lparr>t_pids := pids\<rparr>) else Some (s\<lparr>t_pids := pids\<rparr>)) = Some t"
    and rest: "\<exists>a b d. unless_null (as_destroy env) (t_vmspace cur) (th_put c (cur\<lparr>t_vmspace := None\<rparr>) t) = Some a \<and>
        unless_null (env_decref env) (t_cwd cur) a = Some b \<and> unless_null (env_ft_destroy env) (t_filetable cur) b = Some d \<and>
        mi_switch env S_ZOMB ((th_put c (cur\<lparr>t_vmspace := None, t_cwd := None, t_filetable := None\<rparr>) d)\<lparr>numthreads := numthreads d - 1\<rparr>) = Some s'"
    by (auto simp: thread_exit_def Let_def elim!: bind_SomeE)
  have inv0: "threads_inv (s\<lparr>t_pids := pids\<rparr>)" and n0: "numthreads (s\<lparr>t_pids := pids\<rparr>) < 2 ^ 28" using inv n by simp_all
  have t': "threads_inv t" "curthread t = Some c" "t_heap t c = Some cur" "numthreads t = numthreads s"
    using t thread_wakeone_inv [OF inv0 n0, of "Pi_cv (t_pid cur)" t] inv c by (auto split: if_split_asm)
  let ?cur = "cur\<lparr>t_vmspace := None, t_cwd := None, t_filetable := None\<rparr>"
  from rest obtain w where sw: "mi_switch env S_ZOMB ((th_put c ?cur (t\<lparr>t_w := w\<rparr>))\<lparr>numthreads := numthreads t - 1\<rparr>) = Some s'"
    by (fastforce simp: th_put_def dest!: unless_null_Some)
  let ?t = "th_put c ?cur (t\<lparr>t_w := w\<rparr>)"
  let ?x = "?t\<lparr>numthreads := numthreads t - 1\<rparr>"
  have "thread_ok cur" using t'(1,3) by (auto simp: threads_inv_def heap_ok_def)
  then have "thread_ok ?cur" by (simp add: thread_ok_def check_stack_def)
  then have tinv: "threads_inv ?t" by (intro inv_cur_put) (use t' in simp_all)
  have x: "curthread ?x = Some c" "t_heap ?x c = Some ?cur" using t' by (simp_all add: th_put_def)
  have tab: "tables_ok ?x" "heap_ok ?x" using tinv by (simp_all add: threads_inv_def tables_ok_def heap_ok_def places_def)
  have num: "numthreads ?x = live_count S_ZOMB ?x" "length (ready ?x) < 2 ^ 28"
    using t' n by (simp_all add: threads_inv_def live_count_def)
  have "t = s\<lparr>t_pids := pids\<rparr> \<or> thread_wakeone (Pi_cv (t_pid ?cur)) (s\<lparr>t_pids := pids\<rparr>) = Some t" using t by (auto split: if_split_asm)
  from that [OF this t'(1,2) refl tab x _ num sw] show thesis by (simp add: may_leave_def)
qed

lemma thread_exit_inv:
  assumes "threads_inv s" and "numthreads s < 2 ^ 28" and "thread_exit env code s = Some s'"
  shows "threads_inv s'"
  by (rule thread_exit_parts [OF assms]) (use mi_switch_inv in blast)

text \<open>Changes of the representation: longer tables, other memory.\<close>

lemma inv_like:
  assumes "threads_inv s" and "tables_ok s'" and "curthread s' = curthread s" "ready s' = ready s" "asleep s' = asleep s" "dead s' = dead s"
    and "t_heap s' = t_heap s" "t_next s \<le> t_next s'" "numthreads s' = numthreads s"
  shows "threads_inv s'"
proof -
  have "places s' = places s" using assms by (simp add: places_def)
  moreover have "\<forall>p\<in>dom (t_heap s). p < t_next s" using assms(1) by (simp add: threads_inv_def heap_ok_def)
  then have "\<forall>p\<in>dom (t_heap s'). p < t_next s'" unfolding assms(7) using assms(8) less_le_trans by blast
  ultimately have "heap_ok s'" using assms(1) unfolding threads_inv_def heap_ok_def assms(3-7) by simp
  then show ?thesis using assms by (simp add: threads_inv_def del: length_q_list)
qed

lemma fork_reserve_ok:
  assumes tab: "tables_ok s" and n: "0 \<le> numthreads s" "numthreads s < 2 ^ 28" and len: "length (ready s) < 2 ^ 28"
    and call: "fork_reserve p s = Some (r, s')"
  shows "tables_ok s' \<and> curthread s' = curthread s \<and> asleep s' = asleep s \<and> dead s' = dead s \<and> t_heap s' = t_heap s \<and> t_next s' = t_next s \<and>
    t_pids s' = t_pids s \<and> (case r of Inr _ \<Rightarrow> ready s' = ready s @ [p] \<and> numthreads s' = numthreads s + 1 \<and>
        numthreads s' \<le> a_max (sleepers s') \<and> numthreads s' \<le> a_max (zombies s') \<and> numthreads s' \<le> q_size (runqueue s')
      | Inl e \<Rightarrow> ready s' = ready s \<and> numthreads s' = numthreads s \<and> e = ENOMEM)"
proof -
  let ?n = "numthreads s + 1"
  have inv: "array_inv (sleepers s)" "array_inv (zombies s)" "q_inv (runqueue s)" using tab by (simp_all add: tables_ok_def)
  have n': "?n < 2 ^ 29" "cint ?n = Some ?n" using n by (simp_all add: cint_in_range)
  from array_preallocate_total [OF inv(1) n'(1)] obtain r1 a m where a: "array_preallocate (sleepers s) ?n (t_mem s) = Some (r1, a, m)" by blast
  from array_preallocate_total [OF inv(2) n'(1)] obtain r2 z m2 where z: "array_preallocate (zombies s) ?n m = Some (r2, z, m2)" by blast
  from q_preallocate_spec [OF inv(3) n'(1)] obtain r3 q m3 where q: "q_preallocate (runqueue s) ?n m2 = Some (r3, q, m3)"
    and q': "case r3 of Inr _ \<Rightarrow> q_inv q \<and> q_list q = ready s \<and> ?n \<le> q_size q \<and> q_size (runqueue s) \<le> q_size q
      | Inl e \<Rightarrow> e = ENOMEM \<and> q = runqueue s" by blast
  note call = call [unfolded fork_reserve_def scheduler_preallocate_def]
  show ?thesis
  proof (cases r1)
    case (Inl e)
    with array_preallocate_err a have "a = sleepers s" "e = ENOMEM" by blast+
    with call a n' Inl tab show ?thesis by (auto simp: tables_ok_def)
  next
    case Inr1: (Inr u)
    with array_preallocate_ok [OF inv(1)] a have a': "array_inv a" "array_list a = asleep s" "?n \<le> a_max a" by blast+
    show ?thesis
    proof (cases r2)
      case (Inl e)
      with array_preallocate_err z have "z = zombies s" "e = ENOMEM" by blast+
      with call a a' z n' Inl Inr1 tab show ?thesis by (auto simp: tables_ok_def)
    next
      case Inr2: (Inr u)
      with array_preallocate_ok [OF inv(2)] z have z': "array_inv z" "array_list z = dead s" "?n \<le> a_max z" by blast+
      show ?thesis
      proof (cases r3)
        case (Inl e)
        with call a a' z z' q q' n' Inr1 Inr2 tab show ?thesis by (auto simp: tables_ok_def)
      next
        case Inr3: (Inr u)
        let ?t = "s\<lparr>sleepers := a, zombies := z, runqueue := q, t_mem := m3\<rparr>"
        have q'': "q_inv q" "q_list q = ready s" "?n \<le> q_size q" using q' Inr3 by simp_all
        from call a z q n' Inr1 Inr2 Inr3 obtain r4 t where mk: "make_runnable p ?t = Some (r4, t)"
          and r4: "case r4 of Inl e \<Rightarrow> r = Inl e \<and> s' = t | Inr _ \<Rightarrow> r = Inr () \<and> s' = t\<lparr>numthreads := ?n\<rparr>"
          by (auto elim!: bind_SomeE split: sum.split_asm sum.split)
        have mk': "case r4 of Inr _ \<Rightarrow> \<exists>q' m'. t = ?t\<lparr>runqueue := q', t_mem := m'\<rparr> \<and> q_inv q' \<and> q_list q' = ready s @ [p] \<and> q_size q \<le> q_size q'
            | Inl e \<Rightarrow> \<exists>m'. t = ?t\<lparr>t_mem := m'\<rparr> \<and> e = ENOMEM"
        proof (cases r4)
          case (Inl e)
          with make_runnable_err [of ?t p e t] mk q'' len show ?thesis by simp
        next
          case (Inr u)
          with make_runnable_ok [of ?t p u t] mk q'' len show ?thesis by simp
        qed
        show ?thesis using r4 mk' a' z' q'' by (auto simp: tables_ok_def split: sum.split_asm)
      qed
    qed
  qed
qed

text \<open>\<open>t\<close> differs from \<open>s\<close> by the structure of a thread that is not on any list yet.\<close>

definition half_forked :: "'w tsys \<Rightarrow> nat \<Rightarrow> thread \<Rightarrow> 'w tsys \<Rightarrow> bool" where
  "half_forked s p th t \<longleftrightarrow> p = t_next s \<and> tables_ok t \<and> curthread t = curthread s \<and> ready t = ready s \<and> asleep t = asleep s \<and> dead t = dead s \<and>
     t_heap t = (t_heap s)(p \<mapsto> th) \<and> t_next t = p + 1 \<and> numthreads t = numthreads s"

lemma next_free:
  assumes "threads_inv s"
  shows "t_heap s (t_next s) = None" and "t_next s \<notin> set (places s)"
proof -
  have "t_next s \<notin> dom (t_heap s)" using assms by (auto simp: threads_inv_def heap_ok_def)
  then show "t_heap s (t_next s) = None" "t_next s \<notin> set (places s)" using assms by (auto simp: threads_inv_def heap_ok_def)
qed

lemma half_forked_undo:
  assumes "threads_inv s" and "half_forked s p th t" and "t' = t\<lparr>t_heap := (t_heap t)(p := None)\<rparr>"
  shows "threads_inv t'"
proof -
  have "(t_heap t)(p := None) = t_heap s" using assms(2) next_free(1) [OF assms(1)] by (auto simp: half_forked_def)
  then show ?thesis using assms by (intro inv_like [OF assms(1)]) (auto simp: half_forked_def tables_ok_def)
qed

lemma half_forked_done:
  assumes inv: "threads_inv s" and "half_forked s p th t" and "thread_ok th" and "t_pcb th \<noteq> In_Exit"
    and "tables_ok t'" and "curthread t' = curthread t" "ready t' = ready t @ [p]" "asleep t' = asleep t" "dead t' = dead t"
    and "t_heap t' = t_heap t" "t_next t' = t_next t" "numthreads t' = numthreads t + 1"
  shows "threads_inv t'"
proof -
  note half = assms(2) [unfolded half_forked_def]
  have h: "heap_ok s" using inv by (simp add: threads_inv_def)
  have p: "p \<notin> set (places s)" "t_heap s p = None" using next_free [OF inv] half by simp_all
  have "mset (places t') = mset (p # places s)" using assms half by (simp add: places_def)
  then have "distinct (places t') = distinct (p # places s)" "set (places t') = set (p # places s)"
    using mset_eq_imp_distinct_iff mset_eq_setD by blast+
  then have pl: "distinct (places t')" "set (places t') = dom (t_heap t')" using h p assms half by (auto simp: heap_ok_def)
  have "\<forall>p\<in>dom (t_heap t'). p < t_next t'" "\<forall>p th. t_heap t' p = Some th \<longrightarrow> thread_ok th"
    using h half assms by (auto simp: heap_ok_def less_Suc_eq)
  moreover have "\<forall>p\<in>set (dead t'). \<forall>th. t_heap t' p = Some th \<longrightarrow> t_vmspace th = None \<and> t_cwd th = None"
    "\<forall>p\<in>set (ready t' @ asleep t'). \<forall>th. t_heap t' p = Some th \<longrightarrow> t_pcb th \<noteq> In_Exit"
    "\<forall>p\<in>set (asleep t'). \<forall>th. t_heap t' p = Some th \<longrightarrow> t_sleepaddr th \<noteq> None"
    using h half assms p by (auto simp: heap_ok_def places_def)
  ultimately have "heap_ok t'" using pl unfolding heap_ok_def by blast
  moreover have "length (ready t') = Suc (length (ready s))" using assms half by (metis length_append_singleton)
  ultimately show ?thesis using assms half inv by (simp add: threads_inv_def del: length_q_list)
qed

text \<open>After a fork that succeeds there is room for all threads, up to one slot of the run queue.\<close>

definition forked :: "int res \<Rightarrow> nat \<Rightarrow> 'w tsys \<Rightarrow> 'w tsys \<Rightarrow> bool" where
  "forked r p s s' \<longleftrightarrow> curthread s' = curthread s \<and> asleep s' = asleep s \<and> dead s' = dead s \<and>
     (case r of Inl _ \<Rightarrow> ready s' = ready s \<and> numthreads s' = numthreads s
      | Inr _ \<Rightarrow> ready s' = ready s @ [p] \<and> numthreads s' = numthreads s + 1 \<and> numthreads s' \<le> a_max (sleepers s') \<and>
          numthreads s' \<le> a_max (zombies s') \<and> numthreads s' \<le> q_size (runqueue s'))"

lemma forked_other [simp]:
  "forked r p s (s'\<lparr>t_pids := x\<rparr>) = forked r p s s'" "forked r p s (s'\<lparr>t_w := w\<rparr>) = forked r p s s'" "forked r p s (s'\<lparr>t_heap := h\<rparr>) = forked r p s s'"
  by (simp_all add: forked_def cong: sum.case_cong)

lemma half_forked_other [simp]:
  "half_forked s p th (t\<lparr>t_pids := x\<rparr>) = half_forked s p th t" "half_forked s p th (t\<lparr>t_w := w\<rparr>) = half_forked s p th t"
  "half_forked s p th (t\<lparr>t_mem := m\<rparr>) = half_forked s p th t"
  by (simp_all add: half_forked_def tables_ok_def)

lemma half_forked_forked: "half_forked s p th t \<Longrightarrow> forked (Inl e) p s t"
  by (simp add: half_forked_def forked_def)

lemma fork_fail_ok:
  assumes "threads_inv s" and "half_forked s p th t" and "fork_fail env me p e t = Some (r, s')"
  shows "threads_inv s' \<and> forked r p s s'"
proof -
  from assms(3) obtain x w where x: "r = Inl e" "s' = t\<lparr>t_pids := x, t_w := w, t_heap := (t_heap t)(p := None)\<rparr>"
    using assms(2) by (fastforce simp: fork_fail_def half_forked_def Let_def elim!: bind_SomeE dest!: unless_null_Some)
  from assms(2) have "half_forked s p th (t\<lparr>t_pids := x, t_w := w\<rparr>)" by simp
  from half_forked_undo [OF assms(1) this, of s'] half_forked_forked [OF this, of e] x show ?thesis by simp
qed

lemma fork_reserve_forked:
  assumes inv: "threads_inv s" and n: "numthreads s < 2 ^ 28" and half: "half_forked s p th t" and th: "thread_ok th" "t_pcb th \<noteq> In_Exit"
    and call: "fork_reserve p t = Some (r, t')"
  shows "case r of Inl e \<Rightarrow> half_forked s p th t' | Inr _ \<Rightarrow> threads_inv t' \<and> forked (Inr pid) p s t'"
proof -
  have "0 \<le> numthreads s" "length (ready s) < 2 ^ 28" using inv n by (simp_all add: threads_inv_def)
  then have t: "tables_ok t" "0 \<le> numthreads t" "numthreads t < 2 ^ 28" "length (ready t) < 2 ^ 28"
    using half n by (auto simp: half_forked_def simp del: length_q_list)
  note res = fork_reserve_ok [OF t call]
  show ?thesis
  proof (cases r)
    case (Inl e)
    with res half show ?thesis by (simp add: half_forked_def)
  next
    case (Inr u)
    with res have "threads_inv t'" by (intro half_forked_done [OF inv half th]) simp_all
    with res half Inr show ?thesis by (simp add: half_forked_def forked_def)
  qed
qed

lemma half_forked_put:
  "half_forked s p th t \<Longrightarrow> half_forked s p th' (th_put p th' t)"
  by (simp add: half_forked_def tables_ok_def th_put_def)

lemma fork_undo_pid:
  assumes "threads_inv s" and "half_forked s p th t"
  shows "threads_inv (t\<lparr>t_pids := x, t_heap := (t_heap t)(p := None)\<rparr>) \<and> forked (Inl e) p s (t\<lparr>t_pids := x, t_heap := (t_heap t)(p := None)\<rparr>)"
  using half_forked_undo [OF assms(1), of p th "t\<lparr>t_pids := x\<rparr>"] half_forked_forked [OF assms(2), of e] assms(2) by simp

lemma fork_start_ok:
  assumes inv: "threads_inv s" and n: "numthreads s < 2 ^ 28" and half: "half_forked s p th0 t" and th: "thread_ok th"
    and call: "fork_start env me want p th t = Some (r, s')"
  shows "threads_inv s' \<and> forked r p s s'"
proof -
  from call obtain r2 c where c: "fork_reserve p (th_put p (th\<lparr>t_pcb := At_Start\<rparr>) t) = Some (r2, c)"
    and rest: "(case r2 of Inl e \<Rightarrow> fork_fail env me p e c
       | Inr _ \<Rightarrow> if want then Some (Inr (t_pid th), c)
           else do { (r, s) \<leftarrow> thread_detach me (t_pid th) c; kassert (r = Inr ()); Some (Inr (t_pid th), s) }) = Some (r, s')"
    by (auto simp: fork_start_def elim!: bind_SomeE)
  have "thread_ok (th\<lparr>t_pcb := At_Start\<rparr>)" using th by (simp add: thread_ok_def check_stack_def)
  note res = fork_reserve_forked [OF inv n half_forked_put [OF half] this _ c]
  show ?thesis
  proof (cases r2)
    case (Inl e)
    with res rest fork_fail_ok [OF inv] show ?thesis by auto
  next
    case (Inr u)
    with rest obtain x where "r = Inr (t_pid th)" "s' = c \<or> s' = c\<lparr>t_pids := x\<rparr>"
      by (auto simp: thread_detach_def kassert_def elim!: bind_SomeE split: if_split_asm)
    with res [of "t_pid th"] Inr show ?thesis by auto
  qed
qed

lemma fork_rest_ok:
  assumes inv: "threads_inv s" and n: "numthreads s < 2 ^ 28" and half: "half_forked s p th t" and call: "fork_rest env cur want p t = Some (r, s')"
  shows "threads_inv s' \<and> forked r p s s'"
proof -
  obtain ok m where km: "kmalloc (t_mem t) = (ok, m)" by fastforce
  have th: "t_heap t p = Some th" using half by (simp add: half_forked_def)
  show ?thesis
  proof (cases ok)
    case False
    with call km th obtain x where "r = Inl ENOMEM" "s' = (t\<lparr>t_mem := m\<rparr>)\<lparr>t_pids := x, t_heap := (t_heap (t\<lparr>t_mem := m\<rparr>))(p := None)\<rparr>"
      by (auto simp: fork_rest_def Let_def elim!: bind_SomeE)
    with fork_undo_pid [OF inv, of p th "t\<lparr>t_mem := m\<rparr>"] half show ?thesis by simp
  next
    case True
    let ?th = "\<lambda>vm. th\<lparr>t_stack := Some stack_magic, t_cwd := t_cwd cur, t_vmspace := vm\<rparr>"
    from call km th True obtain a vm b where a: "unless_null (env_incref env) (t_cwd cur) (t\<lparr>t_mem := m\<rparr>) = Some a"
      and b: "fork_copy env cur a = Some (vm, b)"
      and rest: "(case vm of Inl e \<Rightarrow> do { pids \<leftarrow> pid_unalloc (t_pid cur) (t_pid th) (t_pids b);
             Some (Inl ENOMEM, b\<lparr>t_pids := pids, t_heap := (t_heap b)(p := None)\<rparr>) }
         | Inr vm \<Rightarrow> fork_start env (t_pid cur) want p (?th vm) b) = Some (r, s')"
      by (auto simp: fork_rest_def Let_def elim!: bind_SomeE)
    from unless_null_Some [OF a] b obtain w where w: "b = t\<lparr>t_mem := m, t_w := w\<rparr>"
      by (fastforce simp: fork_copy_def elim!: bind_SomeE split: option.split_asm)
    have hb: "half_forked s p th b" using half w by simp
    show ?thesis
    proof (cases vm)
      case (Inl e)
      with rest obtain x where "r = Inl ENOMEM" "s' = b\<lparr>t_pids := x, t_heap := (t_heap b)(p := None)\<rparr>" by (auto elim!: bind_SomeE)
      with fork_undo_pid [OF inv hb] show ?thesis by simp
    next
      case (Inr vm)
      have "thread_ok (?th vm)" by (simp add: thread_ok_def check_stack_def)
      with fork_start_ok [OF inv n hb] rest Inr show ?thesis by simp
    qed
  qed
qed

lemma thread_fork_inv:
  assumes inv: "threads_inv s" and n: "numthreads s < 2 ^ 28" and call: "thread_fork env name want s = Some (r, s')"
  shows "threads_inv s' \<and> forked r (t_next s) s s'"
proof -
  from call obtain c cur where c: "curthread s = Some c" "t_heap s c = Some cur" by (auto simp: thread_fork_def elim!: bind_SomeE)
  obtain np t where t: "thread_create name s = (np, t)" by fastforce
  show ?thesis
  proof (cases np)
    case None
    with t obtain m where "t = s\<lparr>t_mem := m\<rparr>" by (auto simp: thread_create_def split: prod.split_asm if_split_asm)
    with call c t None inv show ?thesis by (auto simp: thread_fork_def forked_def)
  next
    case (Some p)
    with t obtain m where m: "p = t_next s" "t = th_put p (new_thread name) (s\<lparr>t_mem := m, t_next := p + 1\<rparr>)"
      by (auto simp: thread_create_def split: prod.split_asm if_split_asm)
    have half: "half_forked s p (new_thread name) t" using m inv by (simp add: half_forked_def threads_inv_def tables_ok_def th_put_def)
    from call c t Some obtain r1 x where x: "pid_alloc (t_pid cur) (t_pids t) = Some (r1, x)"
      and rest: "(case r1 of Inl e \<Rightarrow> Some (Inl e, t\<lparr>t_pids := x, t_heap := (t_heap t)(p := None)\<rparr>)
         | Inr pid \<Rightarrow> do { th \<leftarrow> t_heap t p; fork_rest env cur want p (th_put p (th\<lparr>t_pid := pid\<rparr>) (t\<lparr>t_pids := x\<rparr>)) }) = Some (r, s')"
      by (auto simp: thread_fork_def Let_def elim!: bind_SomeE cong: sum.case_cong)
    show ?thesis
    proof (cases r1)
      case (Inl e)
      with rest fork_undo_pid [OF inv half] m show ?thesis by auto
    next
      case (Inr pid)
      let ?t = "th_put p (new_thread name\<lparr>t_pid := pid\<rparr>) (t\<lparr>t_pids := x\<rparr>)"
      have "fork_rest env cur want p ?t = Some (r, s')" using rest Inr half by (simp add: half_forked_def)
      moreover have "half_forked s p (new_thread name\<lparr>t_pid := pid\<rparr>) ?t" by (rule half_forked_put) (use half in simp)
      ultimately show ?thesis using fork_rest_ok [OF inv n] m(1) by blast
    qed
  qed
qed

section \<open>Reachable states\<close>

text \<open>Every sequence of the routines, by whatever thread runs and by interrupt handlers (\<^verbatim>\<open>thread_wakeup\<close>, the clock), which
  also run when the processor idles. The number of threads is bounded far above what the process table
  allows.\<close>

inductive tstep :: "'w env \<Rightarrow> 'w tsys \<Rightarrow> 'w tsys \<Rightarrow> bool" for env where
  Fork: "numthreads s < 2 ^ 28 \<Longrightarrow> thread_fork env name want s = Some (r, s') \<Longrightarrow> tstep env s s'"
| Yield: "numthreads s < 2 ^ 28 \<Longrightarrow> thread_yield env s = Some s' \<Longrightarrow> tstep env s s'"
| Sleep: "numthreads s < 2 ^ 28 \<Longrightarrow> thread_sleep env addr s = Some s' \<Longrightarrow> tstep env s s'"
| Join: "numthreads s < 2 ^ 28 \<Longrightarrow> thread_join env pid s = Some (j, s') \<Longrightarrow> tstep env s s'"
| Exit: "numthreads s < 2 ^ 28 \<Longrightarrow> thread_exit env code s = Some s' \<Longrightarrow> tstep env s s'"
| Wakeup: "numthreads s < 2 ^ 28 \<Longrightarrow> thread_wakeup addr s = Some s' \<Longrightarrow> tstep env s s'"
| Wakeone: "numthreads s < 2 ^ 28 \<Longrightarrow> thread_wakeone addr s = Some s' \<Longrightarrow> tstep env s s'"
| Tick: "numthreads s < 2 ^ 28 \<Longrightarrow> hardclock env s = Some s' \<Longrightarrow> tstep env s s'"
| Idle: "curthread s = None \<Longrightarrow> dispatch env s = Some s' \<Longrightarrow> tstep env s s'"

inductive treachable :: "'w env \<Rightarrow> 'w tsys \<Rightarrow> bool" for env where
  Boot: "scheduler_bootstrap m = Some (q, m') \<Longrightarrow> thread_bootstrap q pids w m' = Some s \<Longrightarrow> treachable env s"
| Step: "treachable env s \<Longrightarrow> tstep env s s' \<Longrightarrow> treachable env s'"

lemma bootstrap_inv:
  assumes "scheduler_bootstrap m = Some (q, m')" and "thread_bootstrap q pids w m' = Some s"
  shows "threads_inv s" and "ready s = []" and "q_size (runqueue s) = 32" and "numthreads s = 1"
proof -
  have q: "q_inv q" "q_list q = []" "q_size q = 32" using assms(1) q_create_spec [of 32 m q m'] by (auto simp: scheduler_bootstrap_def elim!: bind_SomeE)
  obtain m1 where s: "s = \<lparr>curthread = Some 0, runqueue = q, sleepers = \<lparr>a_num = 0, a_max = 0, a_v = None\<rparr>, zombies = \<lparr>a_num = 0, a_max = 0, a_v = None\<rparr>,
      numthreads = 1, t_heap = [0 \<mapsto> (new_thread boot_name)\<lparr>t_pid := BOOTUP_PID, t_pcb := In_Yield\<rparr>], t_next = 1, t_mem = m1, t_pids = pids,
      lbolt_counter = 0, t_w = w\<rparr>"
    using assms(2) by (auto simp: thread_bootstrap_def array_create_def thread_create_def th_put_def Let_def elim!: bind_SomeE split: prod.split_asm if_split_asm)
  show "ready s = []" "q_size (runqueue s) = 32" "numthreads s = 1" using s q by simp_all
  have "thread_ok ((new_thread boot_name)\<lparr>t_pid := BOOTUP_PID, t_pcb := In_Yield\<rparr>)" by (simp add: thread_ok_def check_stack_def new_thread_def)
  then show "threads_inv s" using s q by (simp add: threads_inv_def tables_ok_def heap_ok_def places_def array_inv_def array_list_def del: length_q_list)
qed

lemma tstep_inv: "tstep env s s' \<Longrightarrow> threads_inv s \<Longrightarrow> threads_inv s'"
proof (induction rule: tstep.induct)
  case (Join s pid j s')
  then obtain x where "s' = s\<lparr>t_pids := x\<rparr> \<or> thread_sleep env (Pi_cv pid) (s\<lparr>t_pids := x\<rparr>) = Some s'"
    by (fastforce simp: thread_join_def Let_def elim!: bind_SomeE split: join_outcome.split_asm)
  then show ?case using Join thread_sleep_inv [of "s\<lparr>t_pids := x\<rparr>" env "Pi_cv pid" s'] by auto
next
  case (Tick s s')
  then obtain t where t: "(\<exists>n. t = s\<lparr>lbolt_counter := n\<rparr>) \<or> thread_wakeup Lbolt (s\<lparr>lbolt_counter := 0\<rparr>) = Some t" "thread_yield env t = Some s'"
    by (auto simp: hardclock_def elim!: bind_SomeE split: if_split_asm; blast)
  then have "threads_inv t \<and> numthreads t = numthreads s"
    using thread_wakeup_inv [of "s\<lparr>lbolt_counter := 0\<rparr>" Lbolt t] Tick by auto
  then show ?case using thread_yield_inv [OF _ _ t(2)] Tick by auto
qed (auto dest: thread_fork_inv thread_yield_inv thread_sleep_inv thread_exit_inv thread_wakeup_inv thread_wakeone_inv dispatch_inv)

lemma treachable_inv: "treachable env s \<Longrightarrow> threads_inv s"
  by (induction rule: treachable.induct) (auto dest: bootstrap_inv tstep_inv)

section \<open>Switches that cannot fail\<close>

text \<open>What the thread system needs of address spaces.\<close>

definition activates :: "'w env \<Rightarrow> bool" where
  "activates env \<longleftrightarrow> (\<forall>as w. \<exists>w'. as_activate env as w = Some w')"

lemma unless_null_total: "(\<And>x w. \<exists>w'. f x w = Some w') \<Longrightarrow> \<exists>w. unless_null f p s = Some (s\<lparr>t_w := w\<rparr>)"
proof (cases p)
  case None
  have "s\<lparr>t_w := t_w s\<rparr> = s" by simp
  with None show ?thesis by (auto simp: unless_null_def intro: exI [of _ "t_w s"])
next
  case (Some x)
  assume "\<And>x w. \<exists>w'. f x w = Some w'"
  then obtain w where "f x (t_w s) = Some w" by blast
  with Some show ?thesis by (auto simp: unless_null_def in_env_def)
qed

lemma resume_total:
  assumes inv: "threads_inv (s\<lparr>curthread := Some p\<rparr>)" and th: "t_heap s p = Some th" "t_pcb th \<noteq> In_Exit" and act: "activates env"
  shows "\<exists>s'. resume_thread env p s = Some s'"
proof -
  let ?s = "s\<lparr>curthread := Some p\<rparr>"
  have un: "\<exists>w. unless_null (as_activate env) x t = Some (t\<lparr>t_w := w\<rparr>)" for x t
    using act by (intro unless_null_total) (simp add: activates_def)
  have d: "distinct (dead ?s)" "p \<notin> set (dead ?s)" "set (dead ?s) \<subseteq> dom (t_heap ?s)"
    "\<forall>x \<in> set (dead ?s). \<forall>th. t_heap ?s x = Some th \<longrightarrow> t_vmspace th = None \<and> t_cwd th = None"
    using inv by (auto simp: threads_inv_def heap_ok_def places_def)
  have "array_inv (zombies ?s)" using inv by (simp add: threads_inv_def tables_ok_def)
  from exorcise_total [OF this d(1)] d obtain t where t: "exorcise ?s = Some t" by fastforce
  with inv_exorcise [OF inv] d(2) th have tp: "t_heap t p = Some th" by simp
  from un [of "t_vmspace th" ?s] un [of "t_vmspace th" t] obtain w1 w2 where
    w: "unless_null (as_activate env) (t_vmspace th) ?s = Some (?s\<lparr>t_w := w1\<rparr>)" "unless_null (as_activate env) (t_vmspace th) t = Some (t\<lparr>t_w := w2\<rparr>)" by blast
  show ?thesis using th t w tp by (cases "t_pcb th") (simp_all add: resume_thread_def Let_def)
qed

lemma dispatch_total:
  assumes inv: "threads_inv s" and idle: "curthread s = None" and act: "activates env"
  shows "\<exists>s'. dispatch env s = Some s'"
proof (cases "q_empty (runqueue s)")
  case True
  then show ?thesis by (simp add: dispatch_def scheduler_def)
next
  case False
  have q: "q_inv (runqueue s)" and h: "heap_ok s" using inv by (simp_all add: threads_inv_def tables_ok_def)
  from kq.remhead_total [OF q False] obtain p q' where rem: "q_remhead (runqueue s) = Some (p, q')" by blast
  with kq.remhead_Some [OF q] have p: "q_inv q'" "ready s = p # q_list q'" by blast+
  have pr: "p \<in> set (ready s)" using p(2) by simp
  then obtain th where th: "t_heap s p = Some th" using h by (auto simp: heap_ok_def places_def)
  with pr h have "t_pcb th \<noteq> In_Exit" by (auto simp: heap_ok_def)
  with resume_total [of p "s\<lparr>runqueue := q'\<rparr>" th env] inv_pick [OF inv idle p(2,1)] th act show ?thesis
    using False rem by (simp add: dispatch_def scheduler_def)
qed

text \<open>A yield with room on the run queue: the next thread is the head of the queue, the current one goes to its
  end, and nothing is allocated.\<close>

lemma thread_yield_room:
  assumes inv: "threads_inv s" and n: "numthreads s < 2 ^ 28" and c: "curthread s = Some c" and room: "int (length (ready s)) + 1 < q_size (runqueue s)"
    and act: "activates env"
  shows "\<exists>s'. thread_yield env s = Some s' \<and> threads_inv s' \<and> running s' @ ready s' = rotate1 (running s @ ready s) \<and> curthread s' \<noteq> None \<and>
    asleep s' = asleep s \<and> numthreads s' = numthreads s \<and> q_size (runqueue s') = q_size (runqueue s) \<and> t_mem s' = t_mem s"
proof -
  have st: "S_READY \<noteq> S_ZOMB" by simp
  note parts = threads_inv_parts [OF inv n c st]
  from parts(5) obtain th where th: "t_heap s c = Some th" by blast
  then have ok: "check_stack th = Some ()" using inv by (auto simp: threads_inv_def heap_ok_def thread_ok_def)
  let ?s = "(th_put c (th\<lparr>t_pcb := pcb_of S_READY\<rparr>) s)\<lparr>curthread := None\<rparr>"
  have "q_inv (runqueue ?s)" using inv by (simp add: threads_inv_def tables_ok_def)
  from make_runnable_room [OF this, of c] room obtain q where
    q: "make_runnable c ?s = Some (Inr (), ?s\<lparr>runqueue := q\<rparr>)" "q_inv q" "q_list q = ready s @ [c]" "q_size q = q_size (runqueue s)" by auto
  let ?t = "?s\<lparr>runqueue := q\<rparr>"
  have stash: "stash S_READY c ?s = Some (Inr (), ?t)" using q(1) by (simp add: stash_def)
  have t: "threads_inv ?t" "curthread ?t = None"
    using stash_inv [OF parts(1,2) c th _ parts(3,4) stash] by (simp_all add: may_leave_def)
  from dispatch_total [OF t act] obtain s' where s': "dispatch env ?t = Some s'" by blast
  from dispatch_inv [OF t s'] have d: "threads_inv s'" "curthread s' = (case ready s @ [c] of [] \<Rightarrow> None | p # _ \<Rightarrow> Some p)"
    "ready s' = tl (ready s @ [c])" "asleep s' = asleep s" "t_mem s' = t_mem s" using q(3) by simp_all
  have call: "thread_yield env s = Some s'"
    using c th ok stash s' by (simp add: thread_yield_def mi_switch_def)
  have rot: "running s' @ ready s' = rotate1 (running s @ ready s)" "curthread s' \<noteq> None" using d c by (cases "ready s"; simp)+
  have "numthreads s' = numthreads s" using d(1) inv rot d(3,4) c
    by (cases "ready s") (auto simp: threads_inv_def simp del: length_q_list)
  moreover have "q_size (runqueue s') = q_size (runqueue s)" using dispatch_inv [OF t s'] q(4) by simp
  ultimately show ?thesis using call d rot by blast
qed

section \<open>Properties\<close>

text \<open>C21: In every state that a sequence of thread operations reaches from boot, a thread structure is in exactly
  one place: running, on the run queue, asleep, or dead and waiting to be destroyed. No thread is lost
  and none is in two places, a dead thread has no address space and no directory, and \<^verbatim>\<open>numthreads\<close>
  counts the threads that are not dead.\<close>

theorem thread_places:
  assumes "treachable env s"
  shows "distinct (places s) \<and> set (places s) = dom (t_heap s) \<and>
    numthreads s = int (length (running s) + length (ready s) + length (asleep s)) \<and>
    (\<forall>p \<in> set (dead s). \<forall>th. t_heap s p = Some th \<longrightarrow> t_vmspace th = None \<and> t_cwd th = None)"
  using treachable_inv [OF assms] by (simp add: threads_inv_def heap_ok_def)

text \<open>C22: \<^verbatim>\<open>thread_wakeup\<close> makes exactly the threads that sleep on the address runnable, in the order in which they
  went to sleep and behind the threads that are runnable already; the other sleepers stay. When the run queue has a
  slot for every sleeper it succeeds and needs no memory.\<close>

theorem thread_wakeup_correct:
  assumes "threads_inv s" and "numthreads s < 2 ^ 28" and "int (length (ready s) + length (asleep s)) < q_size (runqueue s)"
  shows "\<exists>s'. thread_wakeup addr s = Some s' \<and> threads_inv s' \<and> t_mem s' = t_mem s \<and> running s' = running s \<and> dead s' = dead s \<and>
    ready s' = ready s @ filter (waits_on s addr) (asleep s) \<and> asleep s' = filter (\<lambda>p. \<not> waits_on s addr p) (asleep s)"
proof -
  have tab: "tables_ok s" and h: "\<forall>p \<in> set (asleep s). t_heap s p \<noteq> None"
    using assms(1) by (auto simp: threads_inv_def heap_ok_def places_def)
  from wakeup_loop_room [OF tab _ assms(3) h, of 0 addr] obtain s' where s': "thread_wakeup addr s = Some s'" "t_mem s' = t_mem s"
    by (auto simp: thread_wakeup_def num_asleep [OF tab])
  from thread_wakeup_inv [OF assms(1,2) s'(1)] s' show ?thesis by auto
qed

text \<open>The state after \<open>k\<close> calls of \<^verbatim>\<open>thread_yield\<close>, each by the thread that runs then.\<close>

fun yields :: "'w env \<Rightarrow> nat \<Rightarrow> 'w tsys \<Rightarrow> 'w tsys option" where
  "yields env 0 s = Some s"
| "yields env (Suc k) s = do { s \<leftarrow> yields env k s; thread_yield env s }"

lemma yields_rotate:
  assumes "threads_inv s" and "numthreads s < 2 ^ 28" and "curthread s \<noteq> None" and "int (length (ready s)) + 1 < q_size (runqueue s)" and "activates env"
  shows "\<exists>s'. yields env k s = Some s' \<and> threads_inv s' \<and> running s' @ ready s' = rotate k (running s @ ready s) \<and> curthread s' \<noteq> None \<and>
    asleep s' = asleep s \<and> numthreads s' = numthreads s \<and> q_size (runqueue s') = q_size (runqueue s) \<and> t_mem s' = t_mem s"
proof (induction k)
  case 0
  with assms show ?case by simp
next
  case (Suc k)
  then obtain t where t: "yields env k s = Some t" "threads_inv t" "running t @ ready t = rotate k (running s @ ready s)" "curthread t \<noteq> None"
    "asleep t = asleep s" "numthreads t = numthreads s" "q_size (runqueue t) = q_size (runqueue s)" "t_mem t = t_mem s" by blast
  from t(4) obtain c where c: "curthread t = Some c" by blast
  have "length (running t @ ready t) = length (running s @ ready s)" using t(3) by (simp only: length_rotate)
  then have "length (ready t) = length (ready s)" using assms(3) c by (auto simp del: length_q_list)
  with assms t have "numthreads t < 2 ^ 28" "int (length (ready t)) + 1 < q_size (runqueue t)" by simp_all
  from thread_yield_room [OF t(2) this(1) c this(2) assms(5)] t show ?case by (auto simp del: append.simps)
qed

text \<open>C23: The scheduler is fair. With room on the run queue, calls of \<^verbatim>\<open>thread_yield\<close> rotate the running and the runnable
  threads: every runnable thread gets the processor after as many yields as its position says, no thread is
  dropped, and no memory is needed.\<close>

theorem round_robin:
  assumes "threads_inv s" and "numthreads s < 2 ^ 28" and "curthread s \<noteq> None" and "int (length (ready s)) + 1 < q_size (runqueue s)" and "activates env"
  shows "(\<forall>k. \<exists>s'. yields env k s = Some s' \<and> running s' @ ready s' = rotate k (running s @ ready s) \<and> t_mem s' = t_mem s) \<and>
    (\<forall>i < length (ready s). \<exists>s'. yields env (Suc i) s = Some s' \<and> curthread s' = Some (ready s ! i))"
proof -
  note rot = yields_rotate [OF assms]
  have "\<exists>s'. yields env (Suc i) s = Some s' \<and> curthread s' = Some (ready s ! i)" if i: "i < length (ready s)" for i
  proof -
    from rot [of "Suc i"] obtain s' c' where s': "yields env (Suc i) s = Some s'" "curthread s' = Some c'"
      "running s' @ ready s' = rotate (Suc i) (running s @ ready s)" by (auto simp del: yields.simps)
    from assms(3) obtain c where c: "curthread s = Some c" by blast
    have "c' = rotate (Suc i) (c # ready s) ! 0" using s'(2,3) c by (metis append_Cons append_Nil nth_Cons_0 option.simps(5))
    also have "\<dots> = (c # ready s) ! Suc i" using nth_rotate [of 0 "c # ready s" "Suc i"] i by (simp del: length_q_list)
    finally show ?thesis using s' by simp
  qed
  with rot show ?thesis by blast
qed

text \<open>C24: A run queue with \<^verbatim>\<open>numthreads\<close> slots, which is what \<^verbatim>\<open>thread_fork\<close> reserves, is one slot short, because one slot
  of the ring is never used: when all other threads are runnable, the current thread does not fit, and
  a \<^verbatim>\<open>thread_yield\<close> (the clock calls it at every tick) panics when \<^verbatim>\<open>kmalloc\<close> fails.\<close>

theorem yield_shortfall:
  assumes "threads_inv s" and "numthreads s < 2 ^ 28" and "curthread s = Some c" and "asleep s = []"
    and "q_size (runqueue s) = numthreads s" and "t_mem s = False # m"
  shows "thread_yield env s = None"
proof -
  have st: "S_READY \<noteq> S_ZOMB" by simp
  from threads_inv_parts(5) [OF assms(1-3) st] obtain th where th: "t_heap s c = Some th" by blast
  have q: "q_inv (runqueue s)" "q_size (runqueue s) < 2 ^ 29 - 1" "int (length (ready s)) + 1 = q_size (runqueue s)"
    using assms by (simp_all add: threads_inv_def tables_ok_def)
  then have "q_full (runqueue s)" using q_full_len [OF q(1)] by simp
  with q_addtail_full [OF q(1,2), of "t_mem s" c] assms(6) have "q_addtail (runqueue s) c (t_mem s) = Some (Inl ENOMEM, runqueue s, m)" by simp
  then show ?thesis using th assms(3) by (simp add: thread_yield_def mi_switch_def stash_def make_runnable_def)
qed

text \<open>States with one running thread and \<open>n\<close> runnable ones, on a ring of \<open>k\<close> slots.\<close>

definition demo_env :: "unit env" where
  "demo_env = \<lparr>as_copy = \<lambda>as w. Some (Inr as, w), as_activate = \<lambda>as w. Some w, as_destroy = \<lambda>as w. Some w,
     env_incref = \<lambda>v w. Some w, env_decref = \<lambda>v w. Some w, env_ft_destroy = \<lambda>ft w. Some w\<rparr>"

definition demo_pids :: pidsys where
  "demo_pids = \<lparr>pidtab = replicate 128 None, nextpid = 2, nprocs = 0, pi_held = False, pid_mem = []\<rparr>"

definition demo_threads :: "nat \<Rightarrow> nat \<Rightarrow> kmem \<Rightarrow> unit tsys" where
  "demo_threads n k m = \<lparr>curthread = Some 0,
     runqueue = \<lparr>q_size = int k, nextwrite = int n, nextread = 0, q_data = map Some [1..<Suc n] @ replicate (k - n) None\<rparr>,
     sleepers = \<lparr>a_num = 0, a_max = 0, a_v = None\<rparr>, zombies = \<lparr>a_num = 0, a_max = 0, a_v = None\<rparr>, numthreads = int n + 1,
     t_heap = \<lambda>p. if p \<le> n then Some ((new_thread [])\<lparr>t_pcb := In_Yield\<rparr>) else None, t_next = n + 1, t_mem = m, t_pids = demo_pids,
     lbolt_counter = 0, t_w = ()\<rparr>"

lemma demo_threads_ok:
  assumes "n < k" and "k < 2 ^ 28"
  shows "threads_inv (demo_threads n k m)" and "ready (demo_threads n k m) = [1..<Suc n]" and "asleep (demo_threads n k m) = []"
proof -
  let ?q = "runqueue (demo_threads n k m)"
  have len: "q_len ?q = n" using assms by (simp add: q_len_def demo_threads_def)
  have slot: "q_slot ?q i = i" if "i < n" for i using assms that by (simp add: q_slot_def demo_threads_def)
  have data: "q_data ?q ! i = Some (Suc i)" if "i < n" for i using that by (simp add: demo_threads_def nth_append del: upt_Suc)
  have q: "q_inv ?q" using assms len slot data by (auto simp: q_inv_def demo_threads_def)
  show r: "ready (demo_threads n k m) = [1..<Suc n]" by (rule nth_equalityI) (simp_all add: len q_list_def slot data del: upt_Suc)
  show "asleep (demo_threads n k m) = []" by (simp add: demo_threads_def array_list_def)
  have rest: "curthread (demo_threads n k m) = Some 0" "dead (demo_threads n k m) = []" "asleep (demo_threads n k m) = []"
    "tables_ok (demo_threads n k m)" "numthreads (demo_threads n k m) = int n + 1"
    using q by (simp_all add: demo_threads_def array_list_def tables_ok_def array_inv_def)
  have pl: "places (demo_threads n k m) = [0..<Suc n]" using r rest by (simp add: places_def upt_conv_Cons del: upt_Suc)
  have "thread_ok ((new_thread [])\<lparr>t_pcb := In_Yield\<rparr>)" by (simp add: thread_ok_def check_stack_def new_thread_def)
  then have "heap_ok (demo_threads n k m)" unfolding heap_ok_def pl rest r
    by (auto simp: demo_threads_def dom_def split: if_split_asm)
  with rest len show "threads_inv (demo_threads n k m)" by (simp add: threads_inv_def)
qed

lemma demo_boot_reachable: "\<exists>s. treachable demo_env s \<and> curthread s = Some 0"
proof -
  obtain q where q: "scheduler_bootstrap [] = Some (q, [])" by (simp add: scheduler_bootstrap_def q_create_def kmalloc_ptrs_def)
  obtain s where s: "thread_bootstrap q demo_pids () [] = Some s" "curthread s = Some 0"
    by (simp add: thread_bootstrap_def array_create_def thread_create_def th_put_def Let_def)
  from treachable.Boot [OF q s(1)] s(2) show ?thesis by blast
qed

theorem thread_places_witness: "\<exists>s. treachable demo_env s \<and> distinct (places s) \<and> set (places s) = dom (t_heap s) \<and> places s \<noteq> []"
proof -
  from demo_boot_reachable obtain s where s: "treachable demo_env s" "curthread s = Some 0" by blast
  from s(2) have "places s \<noteq> []" by (simp add: places_def)
  with thread_places [OF s(1)] s(1) show ?thesis by blast
qed

theorem thread_wakeup_correct_witness:
  "\<exists>s'. thread_wakeup Lbolt (demo_threads 2 32 [False]) = Some s' \<and> ready s' = [1, 2] \<and> t_mem s' = [False]"
  using thread_wakeup_correct [OF demo_threads_ok(1) [of 2 32 "[False]"], of Lbolt] demo_threads_ok(2,3) [of 2 32 "[False]"]
  by (auto simp: upt_conv_Cons) (auto simp: demo_threads_def)

theorem round_robin_witness:
  "\<exists>s'. yields demo_env 2 (demo_threads 3 32 [False]) = Some s' \<and> curthread s' = Some 2"
proof -
  let ?s = "demo_threads 3 32 [False]"
  have h: "threads_inv ?s" "ready ?s = [1, 2, 3]" using demo_threads_ok(1,2) [of 3 32 "[False]"] by (simp_all add: upt_conv_Cons)
  then have len: "length (ready ?s) = 3" by simp
  have o: "numthreads ?s < 2 ^ 28" "curthread ?s \<noteq> None" "int (length (ready ?s)) + 1 < q_size (runqueue ?s)" "activates demo_env"
    unfolding len by (simp_all add: demo_threads_def demo_env_def activates_def)
  have "1 < length (ready ?s)" "ready ?s ! 1 = 2" using h by (simp_all del: length_q_list)
  with round_robin [OF h(1) o] show ?thesis by (metis Suc_1)
qed

theorem yield_shortfall_witness: "thread_yield demo_env (demo_threads 31 32 [False]) = None"
  using yield_shortfall [OF demo_threads_ok(1) [of 31 32 "[False]"], of 0 "[]" demo_env] demo_threads_ok(3) [of 31 32 "[False]"]
  by (simp add: demo_threads_def)

end
