(* ===== verification/K_Synch.thy ===== *)
theory K_Synch
  imports K_Thread
begin

text \<open>
  Semaphores, locks and condition variables, \<^verbatim>\<open>kern/thread/synch.c\<close>, on top of the thread system.

  The routines run with interrupts off. One that blocks is cut at its sleep: \<open>k_cont\<close> says what a thread goes
  on with when it gets the processor back, the loop of \<^verbatim>\<open>P\<close> or \<^verbatim>\<open>lock_acquire\<close> or the end of \<^verbatim>\<open>cv_wait\<close>. The relation
  \<open>kstep\<close> interleaves the routines of all threads and interrupt handlers. A thread that finds the lock or
  the semaphore taken sleeps on the address of the object.

  An object is created at any address where no object is, so the address of a destroyed one may be used again:
  \<^verbatim>\<open>kmalloc\<close> gives out the block that was freed last. \<^verbatim>\<open>lock_destroy\<close> and \<^verbatim>\<open>cv_destroy\<close> check nothing, so \<open>kstep\<close> lets
  them free an object that threads sleep on; \<open>korderly\<close> are the runs without such a step.

  The assertions that \<^verbatim>\<open>in_interrupt\<close> is 0 (in \<^verbatim>\<open>P\<close>, \<^verbatim>\<open>lock_acquire\<close> and \<^verbatim>\<open>thread_sleep\<close>) are not written out: the
  model then has more runs than the code, those in which a handler would call these routines. \<^verbatim>\<open>thread_fork\<close> is one step,
  although interrupts are off only from the reservations on: interleavings with its first part, which allocates the new
  thread, takes a pid and copies the address space, are not modelled.
\<close>

section \<open>The code\<close>

datatype cont = In_P nat | In_Acquire nat | In_Wait nat

text \<open>The objects by address: the count of a semaphore, the owner of a lock (null when it is free), condition variables.\<close>

record 'w ksync =
  k_t :: "'w tsys"
  k_sems :: "nat \<Rightarrow> int option"
  k_locks :: "nat \<Rightarrow> nat option option"
  k_cvs :: "nat set"
  k_cont :: "nat \<Rightarrow> cont option"

definition set_cont :: "nat \<Rightarrow> cont option \<Rightarrow> 'w ksync \<Rightarrow> 'w ksync" where
  "set_cont c x k = k\<lparr>k_cont := (k_cont k)(c := x)\<rparr>"

definition in_threads :: "('w tsys \<Rightarrow> 'w tsys option) \<Rightarrow> 'w ksync \<Rightarrow> 'w ksync option" where
  "in_threads f k = do { t \<leftarrow> f (k_t k); Some (k\<lparr>k_t := t\<rparr>) }"

text \<open>The object and the copy of its name. \<open>a\<close> is the address that \<^verbatim>\<open>kmalloc\<close> has for the object when it has one: any
  address at which no object is, so the address of an object that was destroyed may come back.\<close>

definition live :: "'w ksync \<Rightarrow> nat \<Rightarrow> bool" where
  "live k a \<longleftrightarrow> k_sems k a \<noteq> None \<or> k_locks k a \<noteq> None \<or> a \<in> k_cvs k"

definition alloc_obj :: "nat \<Rightarrow> 'w ksync \<Rightarrow> nat option \<times> 'w ksync" where
  "alloc_obj a k =
     (case kmalloc (t_mem (k_t k)) of (ok, m) \<Rightarrow>
        if \<not> ok then (None, k\<lparr>k_t := (k_t k)\<lparr>t_mem := m\<rparr>\<rparr>)
        else case kmalloc m of (ok, m) \<Rightarrow>
          if \<not> ok then (None, k\<lparr>k_t := (k_t k)\<lparr>t_mem := m\<rparr>\<rparr>)
          else (Some a, k\<lparr>k_t := (k_t k)\<lparr>t_mem := m\<rparr>\<rparr>))"

definition sem_create :: "nat \<Rightarrow> int \<Rightarrow> 'w ksync \<Rightarrow> (nat option \<times> 'w ksync) option" where
  "sem_create a n k = do {
     kassert (n \<ge> 0);
     let (p, k) = alloc_obj a k;
     case p of None \<Rightarrow> Some (None, k) | Some a \<Rightarrow> Some (Some a, k\<lparr>k_sems := (k_sems k)(a \<mapsto> n)\<rparr>)
   }"

definition sem_destroy :: "nat \<Rightarrow> 'w ksync \<Rightarrow> 'w ksync option" where
  "sem_destroy a k = do {
     n \<leftarrow> k_sems k a;
     b \<leftarrow> thread_hassleepers (Addr a) (k_t k);
     kassert (\<not> b);
     Some (k\<lparr>k_sems := (k_sems k)(a := None)\<rparr>)
   }"

text \<open>One turn of the loop of \<^verbatim>\<open>P\<close>, and the end of the routine.\<close>

definition sem_P :: "'w env \<Rightarrow> nat \<Rightarrow> 'w ksync \<Rightarrow> 'w ksync option" where
  "sem_P env a k = do {
     c \<leftarrow> curthread (k_t k);
     n \<leftarrow> k_sems k a;
     if n = 0 then in_threads (thread_sleep env (Addr a)) (set_cont c (Some (In_P a)) k)
     else do {
       kassert (n > 0);
       Some (set_cont c None (k\<lparr>k_sems := (k_sems k)(a \<mapsto> n - 1)\<rparr>))
     }
   }"

definition sem_V :: "nat \<Rightarrow> 'w ksync \<Rightarrow> 'w ksync option" where
  "sem_V a k = do {
     n \<leftarrow> k_sems k a;
     n \<leftarrow> cint (n + 1);
     kassert (n > 0);
     in_threads (thread_wakeup (Addr a)) (k\<lparr>k_sems := (k_sems k)(a \<mapsto> n)\<rparr>)
   }"

definition lock_create :: "nat \<Rightarrow> 'w ksync \<Rightarrow> nat option \<times> 'w ksync" where
  "lock_create a k =
     (case alloc_obj a k of (p, k) \<Rightarrow>
        case p of None \<Rightarrow> (None, k) | Some a \<Rightarrow> (Some a, k\<lparr>k_locks := (k_locks k)(a \<mapsto> None)\<rparr>))"

text \<open>The code does not look at the owner or at the sleepers.\<close>

definition lock_destroy :: "nat \<Rightarrow> 'w ksync \<Rightarrow> 'w ksync option" where
  "lock_destroy a k = do { l \<leftarrow> k_locks k a; Some (k\<lparr>k_locks := (k_locks k)(a := None)\<rparr>) }"

definition lock_do_i_hold :: "nat \<Rightarrow> 'w ksync \<Rightarrow> bool option" where
  "lock_do_i_hold a k = do { l \<leftarrow> k_locks k a; Some (l = curthread (k_t k)) }"

text \<open>The loop of \<^verbatim>\<open>lock_acquire\<close> and the end of the routine.\<close>

definition acquire_loop :: "'w env \<Rightarrow> nat \<Rightarrow> 'w ksync \<Rightarrow> 'w ksync option" where
  "acquire_loop env a k = do {
     c \<leftarrow> curthread (k_t k);
     l \<leftarrow> k_locks k a;
     if l \<noteq> None then in_threads (thread_sleep env (Addr a)) (set_cont c (Some (In_Acquire a)) k)
     else Some (set_cont c None (k\<lparr>k_locks := (k_locks k)(a \<mapsto> Some c)\<rparr>))
   }"

definition lock_acquire :: "'w env \<Rightarrow> nat \<Rightarrow> 'w ksync \<Rightarrow> 'w ksync option" where
  "lock_acquire env a k = do {
     h \<leftarrow> lock_do_i_hold a k;
     kassert (\<not> h);
     acquire_loop env a k
   }"

definition lock_release :: "nat \<Rightarrow> 'w ksync \<Rightarrow> 'w ksync option" where
  "lock_release a k = do {
     h \<leftarrow> lock_do_i_hold a k;
     kassert h;
     in_threads (thread_wakeup (Addr a)) (k\<lparr>k_locks := (k_locks k)(a \<mapsto> None)\<rparr>)
   }"

definition cv_create :: "nat \<Rightarrow> 'w ksync \<Rightarrow> nat option \<times> 'w ksync" where
  "cv_create a k =
     (case alloc_obj a k of (p, k) \<Rightarrow>
        case p of None \<Rightarrow> (None, k) | Some a \<Rightarrow> (Some a, k\<lparr>k_cvs := insert a (k_cvs k)\<rparr>))"

definition cv_destroy :: "nat \<Rightarrow> 'w ksync \<Rightarrow> 'w ksync option" where
  "cv_destroy a k = do { kassert (a \<in> k_cvs k); Some (k\<lparr>k_cvs := k_cvs k - {a}\<rparr>) }"

text \<open>\<^verbatim>\<open>cv_wait\<close> up to its sleep.\<close>

definition cv_wait :: "'w env \<Rightarrow> nat \<Rightarrow> nat \<Rightarrow> 'w ksync \<Rightarrow> 'w ksync option" where
  "cv_wait env cv a k = do {
     kassert (cv \<in> k_cvs k);
     h \<leftarrow> lock_do_i_hold a k;
     kassert h;
     c \<leftarrow> curthread (k_t k);
     k \<leftarrow> lock_release a k;
     in_threads (thread_sleep env (Addr cv)) (set_cont c (Some (In_Wait a)) k)
   }"

definition cv_signal :: "nat \<Rightarrow> nat \<Rightarrow> 'w ksync \<Rightarrow> 'w ksync option" where
  "cv_signal cv a k = do {
     kassert (cv \<in> k_cvs k);
     h \<leftarrow> lock_do_i_hold a k;
     kassert h;
     in_threads (thread_wakeone (Addr cv)) k
   }"

definition cv_broadcast :: "nat \<Rightarrow> nat \<Rightarrow> 'w ksync \<Rightarrow> 'w ksync option" where
  "cv_broadcast cv a k = do {
     kassert (cv \<in> k_cvs k);
     h \<leftarrow> lock_do_i_hold a k;
     kassert h;
     in_threads (thread_wakeup (Addr cv)) k
   }"

text \<open>What a thread does after \<^verbatim>\<open>thread_sleep\<close>.\<close>

definition go_on :: "'w env \<Rightarrow> 'w ksync \<Rightarrow> 'w ksync option" where
  "go_on env k = do {
     c \<leftarrow> curthread (k_t k);
     x \<leftarrow> k_cont k c;
     case x of
       In_P a \<Rightarrow> sem_P env a k
     | In_Acquire a \<Rightarrow> acquire_loop env a k
     | In_Wait a \<Rightarrow> lock_acquire env a k
   }"

section \<open>Interleavings\<close>

text \<open>A thread runs its own code only when it has nothing left of a routine it slept in; interrupts are off
  until then. \<^verbatim>\<open>V\<close> and the clock may also come from interrupt handlers, while another thread runs or none.\<close>

definition at_ease :: "'w ksync \<Rightarrow> bool" where
  "at_ease k \<longleftrightarrow> (case curthread (k_t k) of None \<Rightarrow> True | Some c \<Rightarrow> k_cont k c = None)"

definition few :: "'w ksync \<Rightarrow> bool" where
  "few k \<longleftrightarrow> numthreads (k_t k) < 2 ^ 28"

inductive kstep :: "'w env \<Rightarrow> 'w ksync \<Rightarrow> 'w ksync \<Rightarrow> bool" for env where
  KGoOn: "few k \<Longrightarrow> go_on env k = Some k' \<Longrightarrow> kstep env k k'"
| KSemCreate: "\<not> live k a \<Longrightarrow> sem_create a n k = Some (p, k') \<Longrightarrow> kstep env k k'"
| KSemDestroy: "at_ease k \<Longrightarrow> sem_destroy a k = Some k' \<Longrightarrow> kstep env k k'"
| KP: "few k \<Longrightarrow> at_ease k \<Longrightarrow> sem_P env a k = Some k' \<Longrightarrow> kstep env k k'"
| KV: "few k \<Longrightarrow> at_ease k \<Longrightarrow> sem_V a k = Some k' \<Longrightarrow> kstep env k k'"
| KLockCreate: "\<not> live k a \<Longrightarrow> lock_create a k = (p, k') \<Longrightarrow> kstep env k k'"
| KLockDestroy: "at_ease k \<Longrightarrow> lock_destroy a k = Some k' \<Longrightarrow> kstep env k k'"
| KAcquire: "few k \<Longrightarrow> at_ease k \<Longrightarrow> lock_acquire env a k = Some k' \<Longrightarrow> kstep env k k'"
| KRelease: "few k \<Longrightarrow> at_ease k \<Longrightarrow> lock_release a k = Some k' \<Longrightarrow> kstep env k k'"
| KCvCreate: "\<not> live k a \<Longrightarrow> cv_create a k = (p, k') \<Longrightarrow> kstep env k k'"
| KCvDestroy: "at_ease k \<Longrightarrow> cv_destroy a k = Some k' \<Longrightarrow> kstep env k k'"
| KWait: "few k \<Longrightarrow> at_ease k \<Longrightarrow> cv_wait env cv a k = Some k' \<Longrightarrow> kstep env k k'"
| KSignal: "few k \<Longrightarrow> at_ease k \<Longrightarrow> cv_signal cv a k = Some k' \<Longrightarrow> kstep env k k'"
| KBroadcast: "few k \<Longrightarrow> at_ease k \<Longrightarrow> cv_broadcast cv a k = Some k' \<Longrightarrow> kstep env k k'"
| KFork: "few k \<Longrightarrow> at_ease k \<Longrightarrow> thread_fork env name want (k_t k) = Some (r, t) \<Longrightarrow> kstep env k (k\<lparr>k_t := t\<rparr>)"
| KYield: "few k \<Longrightarrow> at_ease k \<Longrightarrow> in_threads (thread_yield env) k = Some k' \<Longrightarrow> kstep env k k'"
| KExit: "few k \<Longrightarrow> at_ease k \<Longrightarrow> in_threads (thread_exit env code) k = Some k' \<Longrightarrow> kstep env k k'"
| KTick: "few k \<Longrightarrow> at_ease k \<Longrightarrow> in_threads (hardclock env) k = Some k' \<Longrightarrow> kstep env k k'"
| KIdle: "curthread (k_t k) = None \<Longrightarrow> in_threads (dispatch env) k = Some k' \<Longrightarrow> kstep env k k'"

section \<open>Who sleeps on what\<close>

definition sleeps_on :: "'w tsys \<Rightarrow> wchan \<Rightarrow> nat list" where
  "sleeps_on t addr = filter (waits_on t addr) (asleep t)"

lemma sleeps_on_cong:
  assumes "asleep t' = asleep t" and "\<And>p. p \<in> set (asleep t) \<Longrightarrow> t_heap t' p = t_heap t p"
  shows "sleeps_on t' addr = sleeps_on t addr"
  unfolding sleeps_on_def assms(1) by (rule filter_cong) (use assms(2) in \<open>simp_all add: waits_on_def\<close>)

lemma sleeps_on_other [simp]:
  "sleeps_on (t\<lparr>t_w := w\<rparr>) addr = sleeps_on t addr" "sleeps_on (t\<lparr>t_mem := m\<rparr>) addr = sleeps_on t addr"
  "sleeps_on (t\<lparr>t_pids := x\<rparr>) addr = sleeps_on t addr" "sleeps_on (t\<lparr>lbolt_counter := n\<rparr>) addr = sleeps_on t addr"
  "sleeps_on (t\<lparr>numthreads := n\<rparr>) addr = sleeps_on t addr"
  by (rule sleeps_on_cong; simp)+












section \<open>Invariant\<close>

text \<open>An address is the address of one object, no thread sleeps on an object that is free, and no thread sleeps on
  an object that is gone.\<close>

definition kind_ok :: "'w ksync \<Rightarrow> bool" where
  "kind_ok k \<longleftrightarrow> dom (k_sems k) \<inter> dom (k_locks k) = {} \<and> dom (k_sems k) \<inter> k_cvs k = {} \<and> dom (k_locks k) \<inter> k_cvs k = {}"

definition wait_ok :: "'w ksync \<Rightarrow> bool" where
  "wait_ok k \<longleftrightarrow>
     (\<forall>a n. k_sems k a = Some n \<longrightarrow> 0 \<le> n \<and> (0 < n \<longrightarrow> sleeps_on (k_t k) (Addr a) = [])) \<and>
     (\<forall>a. k_locks k a = Some None \<longrightarrow> sleeps_on (k_t k) (Addr a) = []) \<and>
     (\<forall>a. sleeps_on (k_t k) (Addr a) \<noteq> [] \<longrightarrow> live k a)"

definition sync_inv :: "'w ksync \<Rightarrow> bool" where
  "sync_inv k \<longleftrightarrow> threads_inv (k_t k) \<and> kind_ok k \<and> wait_ok k"

lemma live_t [simp]: "live (k\<lparr>k_t := t\<rparr>) = live k"
  by (simp add: live_def fun_eq_iff)


lemma sync_cont [simp]: "sync_inv (set_cont c x k) = sync_inv k"
  by (simp add: sync_inv_def kind_ok_def wait_ok_def set_cont_def live_def)

lemma set_cont_sel [simp]:
  "k_t (set_cont c x k) = k_t k" "k_sems (set_cont c x k) = k_sems k" "k_locks (set_cont c x k) = k_locks k" "k_cvs (set_cont c x k) = k_cvs k"
  "live (set_cont c x k) = live k"
  by (simp_all add: set_cont_def live_def fun_eq_iff)











lemma in_threads_Some: "in_threads f k = Some k' \<longleftrightarrow> (\<exists>t. f (k_t k) = Some t \<and> k' = k\<lparr>k_t := t\<rparr>)"
  by (auto simp: in_threads_def elim!: bind_SomeE)

lemma lock_acquire_loop: "lock_acquire env a k = Some k' \<Longrightarrow> acquire_loop env a k = Some k'"
  by (auto simp: lock_acquire_def elim!: bind_SomeE)

lemma go_on_cases: "go_on env k = Some k' \<Longrightarrow> \<exists>a. sem_P env a k = Some k' \<or> acquire_loop env a k = Some k'"
  by (auto simp: go_on_def elim!: bind_SomeE split: cont.split_asm) (blast dest: lock_acquire_loop)+

text \<open>No object goes away while a thread sleeps on it.\<close>

definition careful :: "'w ksync \<Rightarrow> 'w ksync \<Rightarrow> bool" where
  "careful k k' \<longleftrightarrow> (\<forall>a. live k a \<and> \<not> live k' a \<longrightarrow> sleeps_on (k_t k) (Addr a) = [])"


text \<open>From the boot of the thread system, before any object exists.\<close>

inductive kreachable :: "'w env \<Rightarrow> 'w ksync \<Rightarrow> bool" for env where
  KBoot: "scheduler_bootstrap m = Some (q, m') \<Longrightarrow> thread_bootstrap q pids w m' = Some t \<Longrightarrow>
     kreachable env \<lparr>k_t = t, k_sems = Map.empty, k_locks = Map.empty, k_cvs = {}, k_cont = Map.empty\<rparr>"
| KStep: "kreachable env k \<Longrightarrow> kstep env k k' \<Longrightarrow> kreachable env k'"

text \<open>The runs in which no lock and no condition variable is destroyed under its sleepers.\<close>

inductive korderly :: "'w env \<Rightarrow> 'w ksync \<Rightarrow> bool" for env where
  OBoot: "scheduler_bootstrap m = Some (q, m') \<Longrightarrow> thread_bootstrap q pids w m' = Some t \<Longrightarrow>
     korderly env \<lparr>k_t = t, k_sems = Map.empty, k_locks = Map.empty, k_cvs = {}, k_cont = Map.empty\<rparr>"
| OStep: "korderly env k \<Longrightarrow> kstep env k k' \<Longrightarrow> careful k k' \<Longrightarrow> korderly env k'"

lemma korderly_reachable: "korderly env k \<Longrightarrow> kreachable env k"
  by (induction rule: korderly.induct) (auto intro: kreachable.intros)


section \<open>Properties\<close>


lemma locks_in_threads [simp]: "in_threads f k = Some k' \<Longrightarrow> k_locks k' = k_locks k"
  by (auto simp: in_threads_Some)

lemma locks_sem_P: "sem_P env a k = Some k' \<Longrightarrow> k_locks k' = k_locks k"
  by (auto simp: sem_P_def in_threads_Some elim!: bind_SomeE split: if_split_asm)

lemma locks_acquire:
  "acquire_loop env b k = Some k' \<Longrightarrow> k_locks k a = Some (Some c) \<Longrightarrow> k_locks k' a = Some (Some c)"
  by (auto simp: acquire_loop_def in_threads_Some elim!: bind_SomeE split: if_split_asm)

lemma locks_release:
  "lock_release b k = Some k' \<Longrightarrow> k_locks k a = Some (Some c) \<Longrightarrow> k_locks k' a \<noteq> Some (Some c) \<Longrightarrow> a = b \<and> curthread (k_t k) = Some c"
  by (auto simp: lock_release_def lock_do_i_hold_def in_threads_Some elim!: bind_SomeE split: if_split_asm)

lemma locks_wait:
  assumes "cv_wait env cv b k = Some k'" and "k_locks k a = Some (Some c)" and "k_locks k' a \<noteq> Some (Some c)"
  shows "a = b \<and> curthread (k_t k) = Some c"
proof -
  from assms(1) obtain r where "lock_release b k = Some r" "k_locks k' = k_locks r"
    by (auto simp: cv_wait_def in_threads_Some elim!: bind_SomeE)
  with locks_release [of b k r a c] assms(2,3) show ?thesis by simp
qed

lemma locks_alloc: "alloc_obj a k = (p, x) \<Longrightarrow> k_locks x = k_locks k"
  by (auto simp: alloc_obj_def split: prod.split_asm if_split_asm)

lemma locks_create:
  assumes "\<not> live k b" and "lock_create b k = (p, k')" and "k_locks k a = Some l"
  shows "k_locks k' a = Some l"
  using assms by (auto simp: lock_create_def alloc_obj_def live_def split: prod.split_asm option.split_asm if_split_asm)

text \<open>C19: Mutual exclusion. A lock that a thread owns stays its own, whatever the threads and interrupt handlers do
  next: it changes hands only when the owner itself releases it, directly or by waiting on a condition variable, or
  when somebody destroys the lock, which the code does not check.\<close>

theorem lock_exclusion:
  assumes "kreachable env k" and "kstep env k k'" and "k_locks k a = Some (Some c)" and "k_locks k' a \<noteq> Some (Some c)"
  shows "curthread (k_t k) = Some c \<and> (lock_release a k = Some k' \<or> (\<exists>cv. cv_wait env cv a k = Some k')) \<or> lock_destroy a k = Some k'"
  using assms(2)
proof (cases rule: kstep.cases)
  case KGoOn
  with go_on_cases locks_sem_P locks_acquire assms(3,4) show ?thesis by metis
next
  case (KRelease b)
  with locks_release assms(3,4) show ?thesis by blast
next
  case (KWait cv b)
  with locks_wait assms(3,4) show ?thesis by blast
next
  case (KLockDestroy b)
  then have "k_locks k' = (k_locks k)(b := None)" by (auto simp: lock_destroy_def elim!: bind_SomeE)
  with KLockDestroy assms(3,4) show ?thesis by (auto split: if_split_asm)
next
  case (KLockCreate b p)
  with locks_create assms(3,4) show ?thesis by blast
next
  case (KAcquire b)
  with lock_acquire_loop locks_acquire assms(3,4) show ?thesis by blast
next
  case (KP b)
  with locks_sem_P assms(3,4) show ?thesis by metis
next
  case (KV b)
  then have "k_locks k' = k_locks k" by (auto simp: sem_V_def in_threads_Some elim!: bind_SomeE)
  with assms(3,4) show ?thesis by simp
next
  case (KSemCreate b n p)
  then have "k_locks k' = k_locks k" by (auto simp: sem_create_def elim!: bind_SomeE split: prod.split_asm option.split_asm dest!: locks_alloc)
  with assms(3,4) show ?thesis by simp
next
  case (KCvCreate b p)
  then have "k_locks k' = k_locks k" by (auto simp: cv_create_def split: prod.split_asm option.split_asm dest!: locks_alloc)
  with assms(3,4) show ?thesis by simp
qed (use assms(3,4) in \<open>auto simp: sem_destroy_def cv_destroy_def cv_signal_def cv_broadcast_def in_threads_Some elim!: bind_SomeE\<close>)

text \<open>The first thread makes a lock, takes it and gives it back.\<close>

lemma demo_lock:
  "\<exists>k k'. korderly demo_env k \<and> k_locks k 0 = Some (Some 0) \<and> lock_release 0 k = Some k' \<and> few k \<and> at_ease k \<and> k_locks k' 0 = Some None \<and> careful k k'"
proof -
  obtain q where q: "scheduler_bootstrap [] = Some (q, [])" by (simp add: scheduler_bootstrap_def q_create_def kmalloc_ptrs_def)
  obtain s where s: "thread_bootstrap q demo_pids () [] = Some s" "curthread s = Some 0" "t_mem s = []" "numthreads s = 1"
    "sleepers s = \<lparr>a_num = 0, a_max = 0, a_v = None\<rparr>"
    by (simp add: thread_bootstrap_def array_create_def thread_create_def th_put_def Let_def)
  let ?k = "\<lparr>k_t = s, k_sems = Map.empty, k_locks = Map.empty, k_cvs = {}, k_cont = Map.empty\<rparr>"
  let ?k1 = "?k\<lparr>k_locks := [0 \<mapsto> None]\<rparr>"
  let ?k2 = "?k\<lparr>k_locks := [0 \<mapsto> Some 0]\<rparr>"
  have "lock_create 0 ?k = (Some 0, ?k1)" using s(3) by (simp add: lock_create_def alloc_obj_def)
  then have "kstep demo_env ?k ?k1" by (intro kstep.KLockCreate) (simp_all add: live_def)
  from korderly.OStep [OF korderly.OBoot [OF q s(1)] this] have r1: "korderly demo_env ?k1" by (simp add: careful_def live_def)
  have "lock_acquire demo_env 0 ?k1 = Some ?k2" using s(2)
    by (simp add: lock_acquire_def lock_do_i_hold_def acquire_loop_def set_cont_def kassert_def)
  moreover have "few ?k1" "at_ease ?k1" "few ?k2" "at_ease ?k2" using s by (simp_all add: few_def at_ease_def)
  ultimately have "kstep demo_env ?k1 ?k2" using kstep.KAcquire by blast
  from korderly.OStep [OF r1 this] have r2: "korderly demo_env ?k2" by (simp add: careful_def live_def)
  have w: "thread_wakeup a s = Some s" for a using s(5) by (simp add: thread_wakeup_def wakeup_loop.simps array_getnum_def)
  have rel: "lock_release 0 ?k2 = Some ?k1" using s(2) w
    by (simp add: lock_release_def lock_do_i_hold_def in_threads_def kassert_def)
  have "careful ?k2 ?k1" by (simp add: careful_def live_def)
  with r2 rel \<open>few ?k2\<close> \<open>at_ease ?k2\<close> show ?thesis by (intro exI [of _ ?k2] exI [of _ ?k1]) simp
qed


theorem lock_exclusion_witness: "\<exists>k k'. kreachable demo_env k \<and> kstep demo_env k k' \<and> k_locks k 0 = Some (Some 0) \<and> k_locks k' 0 = Some None \<and>
    (curthread (k_t k) = Some 0 \<or> lock_destroy 0 k = Some k')"
proof -
  from demo_lock obtain k k' where k: "korderly demo_env k" "lock_release 0 k = Some k'" "few k" "at_ease k" "k_locks k' 0 = Some None"
    "k_locks k 0 = Some (Some 0)" by blast
  have "kstep demo_env k k'" by (rule kstep.KRelease [OF k(3,4,2)])
  with lock_exclusion [OF korderly_reachable [OF k(1)] this k(6)] korderly_reachable [OF k(1)] k show ?thesis by auto
qed

text \<open>C20: A lock that is destroyed under its sleepers can come back free at the same address, with the threads still
  asleep on it. From every reachable state in which a thread sleeps on a lock and memory is not short, \<^verbatim>\<open>lock_destroy\<close> of
  the lock and a \<^verbatim>\<open>lock_create\<close> that gets the address again succeed and give a reachable state in which the lock
  at that address is free and the same threads sleep on it: neither routine looks at the sleepers, and no release of the
  new lock is due. This is what orderly runs leave out.\<close>

theorem lock_destroy_strands:
  assumes k: "kreachable env k" "at_ease k" and a: "k_locks k a = Some l" "a \<notin> k_cvs k" "k_sems k a = None"
    and sl: "sleeps_on (k_t k) (Addr a) \<noteq> []" and mem: "t_mem (k_t k) = []"
  shows "\<exists>k1 k2. lock_destroy a k = Some k1 \<and> lock_create a k1 = (Some a, k2) \<and> kreachable env k2 \<and>
    k_locks k2 a = Some None \<and> sleeps_on (k_t k2) (Addr a) = sleeps_on (k_t k) (Addr a) \<and> \<not> careful k k1"
proof -
  let ?k1 = "k\<lparr>k_locks := (k_locks k)(a := None)\<rparr>" and ?k2 = "k\<lparr>k_locks := (k_locks k)(a \<mapsto> None)\<rparr>"
  have d: "lock_destroy a k = Some ?k1" using a(1) by (simp add: lock_destroy_def)
  have c: "lock_create a ?k1 = (Some a, ?k2)" using mem by (simp add: lock_create_def alloc_obj_def)
  have "\<not> live ?k1 a" using a by (simp add: live_def)
  then have "kreachable env ?k2" using kreachable.KStep kstep.KLockDestroy [OF k(2) d] kstep.KLockCreate [OF _ c] k(1) by metis
  moreover have "\<not> careful k ?k1" using a sl by (auto simp: careful_def live_def)
  ultimately show ?thesis using d c by (intro exI [of _ ?k1] exI [of _ ?k2]) simp
qed

text \<open>The first thread takes a lock and starts a second thread, which sleeps on the lock.\<close>

definition demo_strand :: "unit ksync option" where
  "demo_strand = do {
     (q, m) \<leftarrow> scheduler_bootstrap [];
     t \<leftarrow> thread_bootstrap q demo_pids () m;
     let k0 = \<lparr>k_t = t, k_sems = Map.empty, k_locks = Map.empty, k_cvs = {}, k_cont = Map.empty\<rparr>;
     kassert (\<not> live k0 0);
     let (p, k1) = lock_create 0 k0;
     kassert (few k1 \<and> at_ease k1);
     k2 \<leftarrow> lock_acquire demo_env 0 k1;
     kassert (few k2 \<and> at_ease k2);
     (r, t) \<leftarrow> thread_fork demo_env [] False (k_t k2);
     let k3 = k2\<lparr>k_t := t\<rparr>;
     kassert (few k3 \<and> at_ease k3);
     k4 \<leftarrow> in_threads (thread_yield demo_env) k3;
     kassert (few k4 \<and> at_ease k4);
     lock_acquire demo_env 0 k4
   }"

lemma waits_on_code [code]: "waits_on s addr p = (case t_heap s p of None \<Rightarrow> False | Some th \<Rightarrow> t_sleepaddr th = Some addr)"
  by (simp add: waits_on_def split: option.split)

lemma demo_strand_runs:
  "case demo_strand of None \<Rightarrow> False
   | Some k \<Rightarrow> at_ease k \<and> k_locks k 0 = Some (Some 0) \<and> 0 \<notin> k_cvs k \<and> k_sems k 0 = None \<and> sleeps_on (k_t k) (Addr 0) = [1] \<and> t_mem (k_t k) = []"
  by code_simp

lemma demo_strand_reachable: "demo_strand = Some k \<Longrightarrow> kreachable demo_env k"
  unfolding demo_strand_def Let_def
  by (elim bind_SomeE, clarsimp elim!: bind_SomeE split: prod.split_asm)
    (rule kreachable.KStep, rule kreachable.KStep, rule kreachable.KStep, rule kreachable.KStep, rule kreachable.KStep, rule kreachable.KBoot,
      assumption, assumption, erule kstep.KLockCreate, assumption, erule kstep.KAcquire, assumption, assumption,
      erule kstep.KFork, assumption, assumption, erule kstep.KYield, assumption, assumption, erule kstep.KAcquire)

theorem lock_destroy_strands_witness:
  "\<exists>k. kreachable demo_env k \<and> k_locks k 0 = Some None \<and> sleeps_on (k_t k) (Addr 0) = [1]"
proof -
  from demo_strand_runs obtain k where k: "demo_strand = Some k" and
    l: "at_ease k" "k_locks k 0 = Some (Some 0)" "0 \<notin> k_cvs k" "k_sems k 0 = None" "sleeps_on (k_t k) (Addr 0) = [1]" "t_mem (k_t k) = []"
    by (auto split: option.split_asm)
  from l(5) have "sleeps_on (k_t k) (Addr 0) \<noteq> []" by simp
  from lock_destroy_strands [OF demo_strand_reachable [OF k] l(1-4) this l(6)] l(5) show ?thesis by auto
qed

end
