(* ===== verification/K_Machine.thy ===== *)
theory K_Machine
  imports K_Bytes
begin

text \<open>
  What the two VM systems need of the machine: page arithmetic (\<^verbatim>\<open>arch/mips/include/vm.h\<close>), the translation buffer of the
  processor as \<^verbatim>\<open>arch/mips/include/tlb.h\<close> documents it, and the physical memory that is left after
  boot (\<^verbatim>\<open>arch/mips/mips/ram.c\<close>). Addresses are natural numbers below \<open>2 ^ 32\<close>.
\<close>

section \<open>Pages\<close>

abbreviation (input) PAGE_SIZE :: nat where "PAGE_SIZE \<equiv> 4096"
abbreviation (input) PAGE_FRAME :: nat where "PAGE_FRAME \<equiv> 0xfffff000"
abbreviation (input) MIPS_KSEG0 :: nat where "MIPS_KSEG0 \<equiv> 0x80000000"

definition PADDR_TO_KVADDR :: "nat \<Rightarrow> nat" where
  "PADDR_TO_KVADDR pa = (pa + MIPS_KSEG0) mod 2 ^ 32"

definition KVADDR_TO_PADDR :: "nat \<Rightarrow> nat" where
  "KVADDR_TO_PADDR va = u32 (int va - int MIPS_KSEG0)"

text \<open>\<^verbatim>\<open>x & PAGE_FRAME\<close>.\<close>

definition frame :: "nat \<Rightarrow> nat" where
  "frame x = x AND PAGE_FRAME"

lemma frame_shift: "PAGE_FRAME = push_bit 12 (mask 20)"
  by (simp add: push_bit_eq_mult mask_eq_exp_minus_1)

lemma frame_mod: "frame x = x div 4096 mod 2 ^ 20 * 4096"
proof -
  have "frame x = push_bit 12 (take_bit 20 (drop_bit 12 x))"
    unfolding frame_def frame_shift by (rule bit_eqI) (auto simp: bit_simps)
  then show ?thesis by (simp add: push_bit_eq_mult take_bit_eq_mod drop_bit_eq_div)
qed

lemma frame_eq: "x < 2 ^ 32 \<Longrightarrow> frame x = x div 4096 * 4096"
  by (simp add: frame_mod)

lemma frame_fixed: "frame x = x \<longleftrightarrow> x < 2 ^ 32 \<and> x mod 4096 = 0"
proof -
  have "x div 4096 mod 2 ^ 20 < 2 ^ 20" by simp
  then have "frame x < 2 ^ 32" by (simp add: frame_mod)
  moreover have "frame x mod 4096 = 0" by (simp add: frame_mod)
  moreover have "x mod 4096 = 0 \<Longrightarrow> x div 4096 * 4096 = x" by (metis add.right_neutral div_mult_mod_eq)
  ultimately show ?thesis using frame_eq [of x] by metis
qed

lemma frame_frame [simp]: "frame (frame x) = frame x"
  by (simp add: frame_mod)

lemma kvaddr_paddr [simp]: "pa < MIPS_KSEG0 \<Longrightarrow> KVADDR_TO_PADDR (PADDR_TO_KVADDR pa) = pa"
  by (simp add: KVADDR_TO_PADDR_def PADDR_TO_KVADDR_def u32_def)

section \<open>The translation buffer\<close>

abbreviation (input) NUM_TLB :: nat where "NUM_TLB \<equiv> 64"
abbreviation (input) TLBLO_DIRTY :: nat where "TLBLO_DIRTY \<equiv> 0x400"
abbreviation (input) TLBLO_VALID :: nat where "TLBLO_VALID \<equiv> 0x200"

text \<open>An entry is a pair of words.\<close>

type_synonym tlb = "(nat \<times> nat) list"

definition TLBHI_INVALID :: "nat \<Rightarrow> nat" where
  "TLBHI_INVALID n = (0x80000 + n) * 4096 mod 2 ^ 32"

definition TLB_Read :: "tlb \<Rightarrow> nat \<Rightarrow> (nat \<times> nat) option" where
  "TLB_Read t i = (if i < length t then Some (t ! i) else None)"

definition TLB_Write :: "nat \<Rightarrow> nat \<Rightarrow> nat \<Rightarrow> tlb \<Rightarrow> tlb" where
  "TLB_Write ehi elo i t = t[i := (ehi, elo)]"

text \<open>An entry matches even when it is not valid.\<close>

fun tlb_search :: "nat \<Rightarrow> nat \<Rightarrow> tlb \<Rightarrow> nat option" where
  "tlb_search hi i [] = None"
| "tlb_search hi i ((ehi, elo) # t) = (if frame ehi = frame hi then Some i else tlb_search hi (Suc i) t)"

definition TLB_Probe :: "nat \<Rightarrow> tlb \<Rightarrow> nat option" where
  "TLB_Probe hi t = tlb_search hi 0 t"

text \<open>What the processor does with a virtual address: the page frame and whether writing is allowed.\<close>

definition tlb_translate :: "tlb \<Rightarrow> nat \<Rightarrow> (nat \<times> bool) option" where
  "tlb_translate t va = do {
     i \<leftarrow> TLB_Probe va t;
     let lo = snd (t ! i);
     if lo AND TLBLO_VALID \<noteq> 0 then Some (frame lo, lo AND TLBLO_DIRTY \<noteq> 0) else None
   }"

lemma tlb_search_Some:
  "tlb_search hi k t = Some i \<longleftrightarrow> k \<le> i \<and> i < k + length t \<and> frame (fst (t ! (i - k))) = frame hi \<and>
     (\<forall>j < i - k. frame (fst (t ! j)) \<noteq> frame hi)"
proof (induction hi k t rule: tlb_search.induct)
  case (2 hi k ehi elo t)
  show ?case
  proof (cases "frame ehi = frame hi")
    case True
    then show ?thesis by (auto simp: nth_Cons' )
  next
    case False
    then have "tlb_search hi k ((ehi, elo) # t) = tlb_search hi (Suc k) t" by simp
    also have "(\<dots> = Some i) \<longleftrightarrow> Suc k \<le> i \<and> i < Suc k + length t \<and> frame (fst (t ! (i - Suc k))) = frame hi \<and>
      (\<forall>j < i - Suc k. frame (fst (t ! j)) \<noteq> frame hi)" by (rule 2 [OF False])
    also have "\<dots> \<longleftrightarrow> k \<le> i \<and> i < k + length ((ehi, elo) # t) \<and> frame (fst (((ehi, elo) # t) ! (i - k))) = frame hi \<and>
      (\<forall>j < i - k. frame (fst (((ehi, elo) # t) ! j)) \<noteq> frame hi)"
    proof (cases "Suc k \<le> i")
      case True
      then have "i - k = Suc (i - Suc k)" by simp
      then show ?thesis using True False by (simp add: All_less_Suc2)
    next
      case ge: False
      then show ?thesis using False by (cases "i = k") auto
    qed
    finally show ?thesis .
  qed
qed simp

text \<open>No two entries are for the same page: more than one match is an error of the program, says \<^verbatim>\<open>tlb.h\<close>.\<close>

definition tlb_unique :: "tlb \<Rightarrow> bool" where
  "tlb_unique t \<longleftrightarrow> (\<forall>i < length t. \<forall>j < length t. frame (fst (t ! i)) = frame (fst (t ! j)) \<longrightarrow> i = j)"

lemma TLB_Probe_Some: "TLB_Probe hi t = Some i \<Longrightarrow> i < length t \<and> frame (fst (t ! i)) = frame hi"
  by (simp add: TLB_Probe_def tlb_search_Some)

lemma TLB_Probe_unique:
  assumes "tlb_unique t"
  shows "TLB_Probe hi t = Some i \<longleftrightarrow> i < length t \<and> frame (fst (t ! i)) = frame hi"
proof -
  have "frame (fst (t ! j)) \<noteq> frame hi" if "i < length t" "frame (fst (t ! i)) = frame hi" "j < i" for j
    using assms that unfolding tlb_unique_def by (metis less_trans nat_neq_iff)
  then show ?thesis unfolding TLB_Probe_def tlb_search_Some by auto
qed

lemma TLB_Probe_None:
  assumes "tlb_unique t"
  shows "TLB_Probe hi t = None \<longleftrightarrow> (\<forall>i < length t. frame (fst (t ! i)) \<noteq> frame hi)"
  using TLB_Probe_unique [OF assms, of hi] by (metis not_Some_eq)

text \<open>The fields of a low word that is put together from a frame and flags.\<close>

lemma page_bit: "pa mod 4096 = 0 \<Longrightarrow> n < 12 \<Longrightarrow> \<not> bit pa n" for pa :: nat
proof -
  assume "pa mod 4096 = 0" "n < 12"
  then have "take_bit 12 pa = 0" by (simp add: take_bit_eq_mod)
  then show ?thesis using \<open>n < 12\<close> by (metis bit_take_bit_iff bit_0_eq bot_apply bot_bool_def)
qed

lemma or_page: "pa mod 4096 = 0 \<Longrightarrow> f < 4096 \<Longrightarrow> pa OR f = pa + f" for pa :: nat
proof -
  assume pa: "pa mod 4096 = 0" and f: "f < 4096"
  have "\<not> bit f n" if "12 \<le> n" for n
  proof -
    have "take_bit 12 f = f" using f by (simp add: take_bit_eq_mod)
    then show ?thesis using that by (metis bit_take_bit_iff not_le)
  qed
  then have "pa AND f = 0" using page_bit [OF pa] by (auto simp: bit_eq_iff bit_simps) (meson not_le)
  then show ?thesis by (simp add: disjunctive_add_eq_or)
qed

lemma frame_page: "pa mod 4096 = 0 \<Longrightarrow> f < 4096 \<Longrightarrow> pa + f < 2 ^ 32 \<Longrightarrow> frame (pa OR f) = pa"
proof -
  assume a: "pa mod 4096 = 0" "f < 4096" "pa + f < 2 ^ 32"
  then obtain q where "pa = q * 4096" by (auto simp: mod_eq_0_iff_dvd dvd_def mult.commute)
  with a show ?thesis by (simp add: or_page frame_eq)
qed

lemma tlblo_flags:
  assumes "pa mod 4096 = 0"
  shows "(pa OR f) AND TLBLO_VALID \<noteq> 0 \<longleftrightarrow> f AND TLBLO_VALID \<noteq> 0" and "(pa OR f) AND TLBLO_DIRTY \<noteq> 0 \<longleftrightarrow> f AND TLBLO_DIRTY \<noteq> 0"
proof -
  have "x AND TLBLO_VALID \<noteq> 0 \<longleftrightarrow> bit x 9" "x AND TLBLO_DIRTY \<noteq> 0 \<longleftrightarrow> bit x 10" for x :: nat
    using and_exp_eq_0_iff_not_bit [of x 9] and_exp_eq_0_iff_not_bit [of x 10] by simp_all
  then show "(pa OR f) AND TLBLO_VALID \<noteq> 0 \<longleftrightarrow> f AND TLBLO_VALID \<noteq> 0" "(pa OR f) AND TLBLO_DIRTY \<noteq> 0 \<longleftrightarrow> f AND TLBLO_DIRTY \<noteq> 0"
    using page_bit [OF assms] by (simp_all add: bit_or_iff)
qed

section \<open>Physical memory\<close>

record ram =
  firstpaddr :: nat
  lastpaddr :: nat

definition ram_bootstrap :: "nat \<Rightarrow> nat \<Rightarrow> ram" where
  "ram_bootstrap ramsize firstfree =
     (let ramsize = (if ramsize > 508 * 1024 * 1024 then 508 * 1024 * 1024 else ramsize) in
      \<lparr>firstpaddr = u32 (int firstfree - int MIPS_KSEG0), lastpaddr = ramsize\<rparr>)"

definition ram_stealmem :: "nat \<Rightarrow> ram \<Rightarrow> nat \<times> ram" where
  "ram_stealmem npages r =
     (let size = npages * PAGE_SIZE mod 2 ^ 32 in
      if (firstpaddr r + size) mod 2 ^ 32 > lastpaddr r then (0, r)
      else (firstpaddr r, r\<lparr>firstpaddr := (firstpaddr r + size) mod 2 ^ 32\<rparr>))"

definition ram_getsize :: "ram \<Rightarrow> (nat \<times> nat) \<times> ram" where
  "ram_getsize r = ((firstpaddr r, lastpaddr r), r\<lparr>firstpaddr := 0, lastpaddr := 0\<rparr>)"

end
