(* ===== verification/K_Dumbvm.thy ===== *)
theory K_Dumbvm
  imports K_Machine K_Bitmap
begin

text \<open>
  The VM system that the kernel of assignment 3 is configured with, \<^verbatim>\<open>kern/arch/mips/mips/dumbvm.c\<close>: a bit map
  of physical pages with first-fit allocation, address spaces of two regions and a stack, each in
  contiguous physical memory, and a fault handler that loads the translation buffer.

  \<open>d_ram\<close> is physical memory, which the kernel sees through \<^verbatim>\<open>kseg0\<close>; \<open>d_spl\<close> tells whether interrupts are off. The step
  relation \<open>vstep\<close> lets processes create, load, copy, activate and destroy address spaces and take faults in any order.
\<close>

section \<open>The code\<close>

abbreviation (input) USERSTACK :: nat where "USERSTACK \<equiv> MIPS_KSEG0"
abbreviation (input) DUMBVM_STACKPAGES :: nat where "DUMBVM_STACKPAGES \<equiv> 12"

record addrspace =
  as_vbase1 :: nat
  as_pbase1 :: nat
  as_npages1 :: nat
  as_vbase2 :: nat
  as_pbase2 :: nat
  as_npages2 :: nat
  as_stackpbase :: nat

record dumbvm =
  freephys_map :: bitmap
  firstpage :: nat
  lastpage :: nat
  d_tlb :: tlb
  d_ram :: "nat \<Rightarrow> byte"
  d_mem :: kmem
  d_spl :: bool

text \<open>Loops that mark or unmark \<open>k\<close> pages from page \<open>j\<close> on.\<close>

fun mark_loop :: "nat \<Rightarrow> nat \<Rightarrow> bitmap \<Rightarrow> bitmap option" where
  "mark_loop j 0 b = Some b"
| "mark_loop j (Suc k) b = do { b \<leftarrow> bitmap_mark b j; mark_loop (Suc j) k b }"

fun unmark_loop :: "nat \<Rightarrow> nat \<Rightarrow> bitmap \<Rightarrow> bitmap option" where
  "unmark_loop j 0 b = Some b"
| "unmark_loop j (Suc k) b = do { b \<leftarrow> bitmap_unmark b j; unmark_loop (Suc j) k b }"

text \<open>The bit map is not made by \<^verbatim>\<open>bitmap_create\<close>: the bits past the end of memory stay clear.\<close>

definition vm_bootstrap :: "ram \<Rightarrow> dumbvm \<Rightarrow> (ram \<times> dumbvm) option" where
  "vm_bootstrap r s = do {
     let ((min_addr, max_addr), r) = ram_getsize r;
     let n = DIVROUNDUP max_addr PAGE_SIZE;
     let bytes = DIVROUNDUP n BITS_PER_WORD;
     let npages = DIVROUNDUP bytes PAGE_SIZE;
     let first = (min_addr + npages * PAGE_SIZE) mod 2 ^ 32 div PAGE_SIZE;
     b \<leftarrow> mark_loop 0 first \<lparr>nbits = n, bm_v = replicate bytes 0\<rparr>;
     Some (r, s\<lparr>freephys_map := b, firstpage := first, lastpage := u32 (int max_addr - 1) div PAGE_SIZE\<rparr>)
   }"

text \<open>The search of \<^verbatim>\<open>getppages\<close>: \<open>k\<close> pages are left, beginning with page \<open>i\<close>.\<close>

fun getpp_loop :: "nat \<Rightarrow> nat \<Rightarrow> nat \<Rightarrow> nat \<Rightarrow> nat \<Rightarrow> bitmap \<Rightarrow> (nat \<times> bitmap) option" where
  "getpp_loop npages i 0 firstpos clearcount b = Some (0, b)"
| "getpp_loop npages i (Suc k) firstpos clearcount b = do {
     set \<leftarrow> bitmap_isset b i;
     if \<not> set then do {
       let clearcount = (clearcount + 1) mod 2 ^ 32;
       let firstpos = (if clearcount = 1 then i else firstpos);
       if clearcount = npages then do {
         b \<leftarrow> mark_loop firstpos npages b;
         Some (firstpos * PAGE_SIZE mod 2 ^ 32, b)
       }
       else getpp_loop npages (Suc i) k firstpos clearcount b
     }
     else getpp_loop npages (Suc i) k firstpos 0 b
   }"

definition getppages :: "nat \<Rightarrow> dumbvm \<Rightarrow> (nat \<times> dumbvm) option" where
  "getppages npages s = do {
     (pa, b) \<leftarrow> getpp_loop npages (firstpage s) (Suc (lastpage s) - firstpage s) 0 0 (freephys_map s);
     Some (pa, s\<lparr>freephys_map := b\<rparr>)
   }"

definition alloc_kpages :: "int \<Rightarrow> dumbvm \<Rightarrow> (nat \<times> dumbvm) option" where
  "alloc_kpages npages s =
     (if npages > 1 then Some (0, s)
      else do {
        (pa, s) \<leftarrow> getppages (u32 npages) s;
        Some (if pa = 0 then 0 else PADDR_TO_KVADDR pa, s)
      })"

definition free_kpages :: "nat \<Rightarrow> dumbvm \<Rightarrow> dumbvm option" where
  "free_kpages addr s = do {
     b \<leftarrow> bitmap_unmark (freephys_map s) (KVADDR_TO_PADDR addr div PAGE_SIZE);
     Some (s\<lparr>freephys_map := b\<rparr>)
   }"

section \<open>Faults\<close>

datatype fault = VM_FAULT_READ | VM_FAULT_WRITE | VM_FAULT_READONLY | Other_Fault

definition as_ready :: "addrspace \<Rightarrow> bool" where
  "as_ready as \<longleftrightarrow> as_vbase1 as \<noteq> 0 \<and> as_pbase1 as \<noteq> 0 \<and> as_npages1 as \<noteq> 0 \<and> as_vbase2 as \<noteq> 0 \<and> as_pbase2 as \<noteq> 0 \<and>
     as_npages2 as \<noteq> 0 \<and> as_stackpbase as \<noteq> 0 \<and> frame (as_vbase1 as) = as_vbase1 as \<and> frame (as_pbase1 as) = as_pbase1 as \<and>
     frame (as_vbase2 as) = as_vbase2 as \<and> frame (as_pbase2 as) = as_pbase2 as \<and> frame (as_stackpbase as) = as_stackpbase as"

text \<open>The physical address of a page, if it is in one of the regions.\<close>

definition fault_paddr :: "addrspace \<Rightarrow> nat \<Rightarrow> nat option" where
  "fault_paddr as fa =
     (let vbase1 = as_vbase1 as; vtop1 = (vbase1 + as_npages1 as * PAGE_SIZE) mod 2 ^ 32;
          vbase2 = as_vbase2 as; vtop2 = (vbase2 + as_npages2 as * PAGE_SIZE) mod 2 ^ 32;
          stackbase = USERSTACK - DUMBVM_STACKPAGES * PAGE_SIZE; stacktop = USERSTACK in
      if fa \<ge> vbase1 \<and> fa < vtop1 then Some ((fa - vbase1 + as_pbase1 as) mod 2 ^ 32)
      else if fa \<ge> vbase2 \<and> fa < vtop2 then Some ((fa - vbase2 + as_pbase2 as) mod 2 ^ 32)
      else if fa \<ge> stackbase \<and> fa < stacktop then Some ((fa - stackbase + as_stackpbase as) mod 2 ^ 32)
      else None)"

text \<open>The loop over the translation buffer: \<open>k\<close> entries are left, beginning with entry \<open>i\<close>.\<close>

fun fill_loop :: "nat \<Rightarrow> nat \<Rightarrow> nat \<Rightarrow> nat \<Rightarrow> tlb \<Rightarrow> (bool \<times> tlb) option" where
  "fill_loop fa pa i 0 t = Some (False, t)"
| "fill_loop fa pa i (Suc k) t = do {
     (ehi, elo) \<leftarrow> TLB_Read t i;
     if elo AND TLBLO_VALID \<noteq> 0 then fill_loop fa pa (Suc i) k t
     else Some (True, TLB_Write fa (pa OR TLBLO_DIRTY OR TLBLO_VALID) i t)
   }"

text \<open>When the thread has no address space the routine returns with interrupts off.\<close>

definition vm_fault :: "fault \<Rightarrow> nat \<Rightarrow> addrspace option \<Rightarrow> dumbvm \<Rightarrow> (unit res \<times> dumbvm) option" where
  "vm_fault faulttype faultaddress vmspace s = do {
     let spl = d_spl s;
     let s = s\<lparr>d_spl := True\<rparr>;
     let fa = frame faultaddress;
     case faulttype of
       VM_FAULT_READONLY \<Rightarrow> None
     | Other_Fault \<Rightarrow> Some (Inl EINVAL, s\<lparr>d_spl := spl\<rparr>)
     | _ \<Rightarrow>
       (case vmspace of
          None \<Rightarrow> Some (Inl EFAULT, s)
        | Some as \<Rightarrow> do {
            kassert (as_ready as);
            case fault_paddr as fa of
              None \<Rightarrow> Some (Inl EFAULT, s\<lparr>d_spl := spl\<rparr>)
            | Some pa \<Rightarrow> do {
                kassert (frame pa = pa);
                (done, t) \<leftarrow> fill_loop fa pa 0 NUM_TLB (d_tlb s);
                Some (if done then Inr () else Inl EFAULT, s\<lparr>d_tlb := t, d_spl := spl\<rparr>)
              }
          })
   }"

section \<open>Address spaces\<close>

definition as_create :: "dumbvm \<Rightarrow> addrspace option \<times> dumbvm" where
  "as_create s =
     (case kmalloc (d_mem s) of (ok, m) \<Rightarrow>
        (if ok then Some \<lparr>as_vbase1 = 0, as_pbase1 = 0, as_npages1 = 0, as_vbase2 = 0, as_pbase2 = 0, as_npages2 = 0, as_stackpbase = 0\<rparr>
         else None, s\<lparr>d_mem := m\<rparr>))"

definition free_region :: "nat \<Rightarrow> nat \<Rightarrow> bitmap \<Rightarrow> bitmap option" where
  "free_region pbase npages b = (if pbase \<noteq> 0 then unmark_loop (pbase div PAGE_SIZE) npages b else Some b)"

definition as_destroy :: "addrspace \<Rightarrow> dumbvm \<Rightarrow> dumbvm option" where
  "as_destroy as s = do {
     b \<leftarrow> free_region (as_pbase1 as) (as_npages1 as) (freephys_map s);
     b \<leftarrow> free_region (as_pbase2 as) (as_npages2 as) b;
     b \<leftarrow> free_region (as_stackpbase as) DUMBVM_STACKPAGES b;
     Some (s\<lparr>freephys_map := b\<rparr>)
   }"

fun flush_loop :: "nat \<Rightarrow> nat \<Rightarrow> tlb \<Rightarrow> tlb" where
  "flush_loop i 0 t = t"
| "flush_loop i (Suc k) t = flush_loop (Suc i) k (TLB_Write (TLBHI_INVALID i) 0 i t)"

definition as_activate :: "dumbvm \<Rightarrow> dumbvm" where
  "as_activate s = s\<lparr>d_tlb := flush_loop 0 NUM_TLB (d_tlb s)\<rparr>"

definition as_define_region :: "addrspace \<Rightarrow> nat \<Rightarrow> nat \<Rightarrow> unit res \<times> addrspace" where
  "as_define_region as vaddr sz =
     (let sz = (sz + (vaddr AND 0xfff)) mod 2 ^ 32; vaddr = frame vaddr;
          sz = frame ((sz + PAGE_SIZE - 1) mod 2 ^ 32); npages = sz div PAGE_SIZE in
      if as_vbase1 as = 0 then (Inr (), as\<lparr>as_vbase1 := vaddr, as_npages1 := npages\<rparr>)
      else if as_vbase2 as = 0 then (Inr (), as\<lparr>as_vbase2 := vaddr, as_npages2 := npages\<rparr>)
      else (Inl EUNIMP, as))"

definition as_prepare_load :: "addrspace \<Rightarrow> dumbvm \<Rightarrow> (unit res \<times> addrspace \<times> dumbvm) option" where
  "as_prepare_load as s = do {
     kassert (as_pbase1 as = 0);
     kassert (as_pbase2 as = 0);
     kassert (as_stackpbase as = 0);
     (pa, s) \<leftarrow> getppages (as_npages1 as) s;
     let as = as\<lparr>as_pbase1 := pa\<rparr>;
     if pa = 0 then Some (Inl ENOMEM, as, s)
     else do {
       (pa, s) \<leftarrow> getppages (as_npages2 as) s;
       let as = as\<lparr>as_pbase2 := pa\<rparr>;
       if pa = 0 then Some (Inl ENOMEM, as, s)
       else do {
         (pa, s) \<leftarrow> getppages DUMBVM_STACKPAGES s;
         let as = as\<lparr>as_stackpbase := pa\<rparr>;
         Some (if pa = 0 then Inl ENOMEM else Inr (), as, s)
       }
     }
   }"

definition as_define_stack :: "addrspace \<Rightarrow> nat option" where
  "as_define_stack as = do { kassert (as_stackpbase as \<noteq> 0); Some USERSTACK }"

text \<open>\<^verbatim>\<open>memmove\<close> between pages of physical memory.\<close>

definition memmove_phys :: "nat \<Rightarrow> nat \<Rightarrow> nat \<Rightarrow> (nat \<Rightarrow> byte) \<Rightarrow> nat \<Rightarrow> byte" where
  "memmove_phys dst src n m = (\<lambda>a. if dst \<le> a \<and> a < dst + n then m (src + (a - dst)) else m a)"

definition as_copy :: "addrspace \<Rightarrow> dumbvm \<Rightarrow> (addrspace res \<times> dumbvm) option" where
  "as_copy old s = do {
     let (new, s) = as_create s;
     case new of
       None \<Rightarrow> Some (Inl ENOMEM, s)
     | Some new \<Rightarrow> do {
         let new = new\<lparr>as_vbase1 := as_vbase1 old, as_npages1 := as_npages1 old, as_vbase2 := as_vbase2 old, as_npages2 := as_npages2 old\<rparr>;
         (r, new, s) \<leftarrow> as_prepare_load new s;
         case r of
           Inl e \<Rightarrow> do { s \<leftarrow> as_destroy new s; Some (Inl ENOMEM, s) }
         | Inr _ \<Rightarrow> do {
             kassert (as_pbase1 new \<noteq> 0);
             kassert (as_pbase2 new \<noteq> 0);
             kassert (as_stackpbase new \<noteq> 0);
             let m = memmove_phys (as_pbase1 new) (as_pbase1 old) (as_npages1 old * PAGE_SIZE) (d_ram s);
             let m = memmove_phys (as_pbase2 new) (as_pbase2 old) (as_npages2 old * PAGE_SIZE) m;
             let m = memmove_phys (as_stackpbase new) (as_stackpbase old) (DUMBVM_STACKPAGES * PAGE_SIZE) m;
             Some (Inr new, s\<lparr>d_ram := m\<rparr>)
           }
       }
   }"

section \<open>The map of physical pages\<close>

definition bm_fits :: "bitmap \<Rightarrow> bool" where
  "bm_fits b \<longleftrightarrow> nbits b \<le> length (bm_v b) * BITS_PER_WORD"

lemma fits_index: "bm_fits b \<Longrightarrow> i < nbits b \<Longrightarrow> i div 8 < length (bm_v b)"
  by (simp add: bm_fits_def div_less_iff_less_mult)

lemma mark_fits:
  assumes fits: "bm_fits b" and i: "i < nbits b" "i \<notin> bitmap_set b"
  shows "\<exists>b'. bitmap_mark b i = Some b' \<and> bm_fits b' \<and> nbits b' = nbits b \<and> bitmap_set b' = insert i (bitmap_set b)"
proof -
  let ?b = "b\<lparr>bm_v := (bm_v b)[i div 8 := bm_v b ! (i div 8) OR bm_mask (i mod 8)]\<rparr>"
  have "bitmap_mark b i = Some ?b" using i fits_index [OF fits i(1)]
    by (auto simp: bitmap_mark_def bitmap_translate_def kassert_def bitmap_set_def bm_bit_def and_mask_0)
  moreover have "bitmap_set ?b = insert i (bitmap_set b)"
    using bm_bit_update_or [OF fits_index [OF fits i(1)], of "i mod 8"] i(1) by (auto simp: bitmap_set_def)
  ultimately show ?thesis using fits by (intro exI [of _ ?b]) (simp add: bm_fits_def)
qed

lemma unmark_fits:
  assumes fits: "bm_fits b" and i: "i \<in> bitmap_set b"
  shows "\<exists>b'. bitmap_unmark b i = Some b' \<and> bm_fits b' \<and> nbits b' = nbits b \<and> bitmap_set b' = bitmap_set b - {i}"
proof -
  have n: "i < nbits b" using i by (simp add: bitmap_set_def)
  let ?b = "b\<lparr>bm_v := (bm_v b)[i div 8 := bm_v b ! (i div 8) AND NOT (bm_mask (i mod 8))]\<rparr>"
  have "bitmap_unmark b i = Some ?b" using i fits_index [OF fits n]
    by (auto simp: bitmap_unmark_def bitmap_translate_def kassert_def bitmap_set_def bm_bit_def and_mask_0)
  moreover have "bitmap_set ?b = bitmap_set b - {i}"
    using bm_bit_update_and_not [OF fits_index [OF fits n], of "i mod 8"] by (auto simp: bitmap_set_def)
  ultimately show ?thesis using fits by (intro exI [of _ ?b]) (simp add: bm_fits_def)
qed

lemma isset_fits: "bm_fits b \<Longrightarrow> i < nbits b \<Longrightarrow> bitmap_isset b i = Some (i \<in> bitmap_set b)"
  using fits_index [of b i] by (auto simp: bitmap_isset_def bitmap_translate_def kassert_def bitmap_set_def bm_bit_def and_mask_0)

lemma mark_loop_ok:
  assumes "bm_fits b" and "j + k \<le> nbits b" and "{j..<j + k} \<inter> bitmap_set b = {}"
  shows "\<exists>b'. mark_loop j k b = Some b' \<and> bm_fits b' \<and> nbits b' = nbits b \<and> bitmap_set b' = bitmap_set b \<union> {j..<j + k}"
  using assms
proof (induction j k b rule: mark_loop.induct)
  case (2 j k b)
  have "j \<in> {j..<j + Suc k}" by simp
  then have "j \<notin> bitmap_set b" using 2(4) by blast
  moreover have "j < nbits b" using 2(3) by simp
  ultimately obtain b' where b': "bitmap_mark b j = Some b'" "bm_fits b'" "nbits b' = nbits b" "bitmap_set b' = insert j (bitmap_set b)"
    using mark_fits [OF 2(2)] by blast
  have "{Suc j..<Suc j + k} \<inter> bitmap_set b' = {}" "Suc j + k \<le> nbits b'" using 2(3,4) b'(3,4) by (auto simp: disjoint_iff)
  with 2(1) [OF b'(1,2)] b' show ?case by auto
qed simp

lemma unmark_loop_ok:
  assumes "bm_fits b" and "{j..<j + k} \<subseteq> bitmap_set b"
  shows "\<exists>b'. unmark_loop j k b = Some b' \<and> bm_fits b' \<and> nbits b' = nbits b \<and> bitmap_set b' = bitmap_set b - {j..<j + k}"
  using assms
proof (induction j k b rule: unmark_loop.induct)
  case (2 j k b)
  then have "j \<in> bitmap_set b" by auto
  with unmark_fits [OF 2(2)] obtain b' where b': "bitmap_unmark b j = Some b'" "bm_fits b'" "nbits b' = nbits b" "bitmap_set b' = bitmap_set b - {j}"
    by blast
  have "{Suc j..<Suc j + k} \<subseteq> bitmap_set b'" using 2(3) b'(4) by auto
  with 2(1) [OF b'(1,2)] b' show ?case by auto
qed simp

text \<open>A run of free pages, and what a first-fit search should find.\<close>

definition free_run :: "dumbvm \<Rightarrow> nat \<Rightarrow> nat \<Rightarrow> bool" where
  "free_run s n p \<longleftrightarrow> firstpage s \<le> p \<and> p + n \<le> Suc (lastpage s) \<and> {p..<p + n} \<inter> bitmap_set (freephys_map s) = {}"

text \<open>The managed pages lie within the map and below 512M, and the first of them is not page 0.\<close>

definition map_ok :: "dumbvm \<Rightarrow> bool" where
  "map_ok s \<longleftrightarrow> bm_fits (freephys_map s) \<and> 0 < firstpage s \<and> lastpage s < nbits (freephys_map s) \<and> nbits (freephys_map s) \<le> 2 ^ 17"

lemma getpp_loop_ok:
  assumes fits: "bm_fits b" and n: "0 < n" and top: "i + k \<le> nbits b" "nbits b \<le> 2 ^ 17"
    and cc: "cc < n" "cc \<le> i - lo" "lo \<le> i" "cc > 0 \<Longrightarrow> fp = i - cc" "{i - cc..<i} \<inter> bitmap_set b = {}"
    and no: "\<forall>p. lo \<le> p \<longrightarrow> p + n \<le> i \<longrightarrow> {p..<p + n} \<inter> bitmap_set b \<noteq> {}"
    and left: "cc = i - lo \<or> i - cc - 1 \<in> bitmap_set b \<and> lo + cc < i"
  shows "(\<exists>p b'. getpp_loop n i k fp cc b = Some (p * 4096, b') \<and> lo \<le> p \<and> p + n \<le> i + k \<and> {p..<p + n} \<inter> bitmap_set b = {} \<and>
      (\<forall>q. lo \<le> q \<longrightarrow> q < p \<longrightarrow> {q..<q + n} \<inter> bitmap_set b \<noteq> {}) \<and> bm_fits b' \<and> nbits b' = nbits b \<and> bitmap_set b' = bitmap_set b \<union> {p..<p + n}) \<or>
    (getpp_loop n i k fp cc b = Some (0, b) \<and> (\<forall>p. lo \<le> p \<longrightarrow> p + n \<le> i + k \<longrightarrow> {p..<p + n} \<inter> bitmap_set b \<noteq> {}))"
  using assms
proof (induction k arbitrary: i fp cc)
  case (Suc k)
  have set: "bitmap_isset b i = Some (i \<in> bitmap_set b)" using Suc.prems(1,3) by (simp add: isset_fits)
  show ?case
  proof (cases "i \<in> bitmap_set b")
    case True
    have "\<forall>p. lo \<le> p \<longrightarrow> p + n \<le> Suc i \<longrightarrow> {p..<p + n} \<inter> bitmap_set b \<noteq> {}"
    proof (intro allI impI)
      fix p assume p: "lo \<le> p" "p + n \<le> Suc i"
      show "{p..<p + n} \<inter> bitmap_set b \<noteq> {}"
      proof (cases "p + n \<le> i")
        case False
        with p Suc.prems(2) have "i \<in> {p..<p + n}" by auto
        with True show ?thesis by blast
      qed (use Suc.prems(10) p in blast)
    qed
    with Suc.IH [of "Suc i" 0 fp] True Suc.prems set show ?thesis by simp
  next
    case False
    have small: "Suc cc mod 2 ^ 32 = Suc cc" using Suc.prems(3-6) by simp
    let ?fp = "if Suc cc = 1 then i else fp"
    have fp: "?fp = Suc i - Suc cc" using Suc.prems(8) by (cases "cc = 0") auto
    have clear: "{Suc i - Suc cc..<Suc i} \<inter> bitmap_set b = {}" using Suc.prems(9) False
      by (auto simp: less_Suc_eq)
    show ?thesis
    proof (cases "Suc cc = n")
      case True
      have r: "?fp + n = Suc i" "lo \<le> ?fp" using True fp Suc.prems(6,7) by auto
      have "{?fp..<?fp + n} \<inter> bitmap_set b = {}" using clear True fp r(1) by auto
      moreover have "?fp + n \<le> nbits b" using r Suc.prems(3) by simp
      ultimately obtain b' where b': "mark_loop ?fp n b = Some b'" "bm_fits b'" "nbits b' = nbits b" "bitmap_set b' = bitmap_set b \<union> {?fp..<?fp + n}"
        using mark_loop_ok [OF Suc.prems(1)] by blast
      have "?fp * 4096 mod 2 ^ 32 = ?fp * 4096" using r Suc.prems(3,4) by simp
      then have "getpp_loop n i (Suc k) fp cc b = Some (?fp * 4096, b')" using set False small True b'(1) by (simp add: Let_def)
      moreover have "{q..<q + n} \<inter> bitmap_set b \<noteq> {}" if "lo \<le> q" "q < ?fp" for q using Suc.prems(10) that r by auto
      ultimately show ?thesis using r b' \<open>{?fp..<?fp + n} \<inter> bitmap_set b = {}\<close> by (intro disjI1 exI [of _ ?fp] exI [of _ b']) simp
    next
      case ne: False
      have step: "getpp_loop n i (Suc k) fp cc b = getpp_loop n (Suc i) k ?fp (Suc cc) b" using set False small ne by (simp add: Let_def)
      have no: "\<forall>p. lo \<le> p \<longrightarrow> p + n \<le> Suc i \<longrightarrow> {p..<p + n} \<inter> bitmap_set b \<noteq> {}"
      proof (intro allI impI)
        fix p assume p: "lo \<le> p" "p + n \<le> Suc i"
        show "{p..<p + n} \<inter> bitmap_set b \<noteq> {}"
        proof (cases "p + n \<le> i")
          case False
          with p have pn: "p + n = Suc i" by simp
          with ne Suc.prems(5) have "p < i - cc" by simp
          then have "i - cc - 1 \<in> {p..<p + n}" "cc \<noteq> i - lo" using p pn by auto
          with Suc.prems(11) show ?thesis by blast
        qed (use Suc.prems(10) p in blast)
      qed
      have "Suc cc = Suc i - lo \<or> Suc i - Suc cc - 1 \<in> bitmap_set b \<and> lo + Suc cc < Suc i" using Suc.prems(7,11) by auto
      with Suc.IH [of "Suc i" "Suc cc" ?fp] Suc.prems(1-7) ne fp clear no show ?thesis unfolding step by simp
    qed
  qed
qed simp

lemma getppages_ok:
  assumes ok: "map_ok s" and n: "0 < n"
  shows "(\<exists>p b. getppages n s = Some (p * 4096, s\<lparr>freephys_map := b\<rparr>) \<and> free_run s n p \<and> (\<forall>q < p. \<not> free_run s n q) \<and>
      map_ok (s\<lparr>freephys_map := b\<rparr>) \<and> nbits b = nbits (freephys_map s) \<and> bitmap_set b = bitmap_set (freephys_map s) \<union> {p..<p + n}) \<or>
    (getppages n s = Some (0, s) \<and> (\<forall>p. \<not> free_run s n p))"
proof -
  let ?b = "freephys_map s" and ?k = "Suc (lastpage s) - firstpage s"
  have b: "bm_fits ?b" "0 < firstpage s" "lastpage s < nbits ?b" "nbits ?b \<le> 2 ^ 17" using ok by (simp_all add: map_ok_def)
  show ?thesis
  proof (cases "firstpage s \<le> Suc (lastpage s)")
    case False
    then have "getppages n s = Some (0, s)" by (simp add: getppages_def)
    moreover have "\<not> free_run s n p" for p using False n by (simp add: free_run_def)
    ultimately show ?thesis by blast
  next
    case True
    then have k: "firstpage s + ?k = Suc (lastpage s)" by simp
    have "(\<exists>p b'. getpp_loop n (firstpage s) ?k 0 0 ?b = Some (p * 4096, b') \<and> free_run s n p \<and> (\<forall>q < p. \<not> free_run s n q) \<and>
        bm_fits b' \<and> nbits b' = nbits ?b \<and> bitmap_set b' = bitmap_set ?b \<union> {p..<p + n}) \<or>
      (getpp_loop n (firstpage s) ?k 0 0 ?b = Some (0, ?b) \<and> (\<forall>p. \<not> free_run s n p))"
      using getpp_loop_ok [OF b(1) n, of "firstpage s" ?k 0 "firstpage s" 0] b k n unfolding free_run_def by (simp) metis
    then show ?thesis
    proof
      assume "\<exists>p b'. getpp_loop n (firstpage s) ?k 0 0 ?b = Some (p * 4096, b') \<and> free_run s n p \<and> (\<forall>q < p. \<not> free_run s n q) \<and>
        bm_fits b' \<and> nbits b' = nbits ?b \<and> bitmap_set b' = bitmap_set ?b \<union> {p..<p + n}"
      then obtain p b' where p: "getpp_loop n (firstpage s) ?k 0 0 ?b = Some (p * 4096, b')" "free_run s n p" "\<forall>q < p. \<not> free_run s n q"
        "bm_fits b'" "nbits b' = nbits ?b" "bitmap_set b' = bitmap_set ?b \<union> {p..<p + n}" by blast
      then have "getppages n s = Some (p * 4096, s\<lparr>freephys_map := b'\<rparr>)" "map_ok (s\<lparr>freephys_map := b'\<rparr>)" using b by (simp_all add: getppages_def map_ok_def)
      with p show ?thesis by blast
    qed (simp add: getppages_def)
  qed
qed

lemma getppages_0: "map_ok s \<Longrightarrow> getppages 0 s = Some (0, s)"
proof -
  assume ok: "map_ok s"
  have "getpp_loop 0 i k fp cc b = Some (0, b)" if "bm_fits b" "i + k \<le> nbits b" "nbits b \<le> 2 ^ 17" "cc \<le> i" for i k fp cc b
    using that by (induction k arbitrary: i fp cc) (auto simp: isset_fits Let_def)
  from this [of "freephys_map s" "firstpage s" "Suc (lastpage s) - firstpage s" 0 0] ok show ?thesis
    by (cases "firstpage s \<le> Suc (lastpage s)") (auto simp: map_ok_def getppages_def)
qed

section \<open>Pages of an address space\<close>

definition region_pages :: "nat \<Rightarrow> nat \<Rightarrow> nat set" where
  "region_pages pbase n = (if pbase = 0 then {} else {pbase div 4096..<pbase div 4096 + n})"

definition as_pages :: "addrspace \<Rightarrow> nat set" where
  "as_pages as = region_pages (as_pbase1 as) (as_npages1 as) \<union> region_pages (as_pbase2 as) (as_npages2 as) \<union> region_pages (as_stackpbase as) 12"

text \<open>The three pieces are aligned and do not overlap.\<close>

definition as_pieces :: "addrspace \<Rightarrow> bool" where
  "as_pieces as \<longleftrightarrow> as_pbase1 as mod 4096 = 0 \<and> as_pbase2 as mod 4096 = 0 \<and> as_stackpbase as mod 4096 = 0 \<and>
     region_pages (as_pbase1 as) (as_npages1 as) \<inter> region_pages (as_pbase2 as) (as_npages2 as) = {} \<and>
     (region_pages (as_pbase1 as) (as_npages1 as) \<union> region_pages (as_pbase2 as) (as_npages2 as)) \<inter> region_pages (as_stackpbase as) 12 = {}"

abbreviation used :: "dumbvm \<Rightarrow> nat set" where
  "used s \<equiv> bitmap_set (freephys_map s)"

definition unloaded :: "addrspace \<Rightarrow> bool" where
  "unloaded as \<longleftrightarrow> as_pbase1 as = 0 \<and> as_pbase2 as = 0 \<and> as_stackpbase as = 0"

lemma unloaded_pages [simp]: "unloaded as \<Longrightarrow> as_pages as = {} \<and> as_pieces as"
  by (simp add: unloaded_def as_pages_def as_pieces_def region_pages_def)

text \<open>The free pages \<open>P\<close> have been taken, and nothing else has changed.\<close>

definition takes :: "dumbvm \<Rightarrow> nat set \<Rightarrow> dumbvm \<Rightarrow> bool" where
  "takes s P s' \<longleftrightarrow> (\<exists>b. s' = s\<lparr>freephys_map := b\<rparr> \<and> nbits b = nbits (freephys_map s)) \<and> map_ok s' \<and>
     P \<inter> used s = {} \<and> used s' = used s \<union> P \<and> (\<forall>p \<in> P. 0 < p)"

lemma takes_refl: "map_ok s \<Longrightarrow> takes s {} s"
  by (auto simp: takes_def intro: exI [of _ "freephys_map s"])

lemma takes_trans:
  assumes "takes s P t" and "takes t Q u"
  shows "takes s (P \<union> Q) u" and "P \<inter> Q = {}"
  using assms by (auto simp: takes_def)

lemma takes_map_ok: "takes s P t \<Longrightarrow> map_ok t"
  by (simp add: takes_def)

lemma getppages_takes:
  assumes ok: "map_ok s"
  shows "\<exists>pa s'. getppages n s = Some (pa, s') \<and> takes s (region_pages pa n) s' \<and> pa mod 4096 = 0 \<and> (pa \<noteq> 0 \<longrightarrow> 0 < n)"
proof (cases "n = 0")
  case True
  with getppages_0 [OF ok] takes_refl [OF ok] show ?thesis by (simp add: region_pages_def)
next
  case False
  then have n: "0 < n" by simp
  from getppages_ok [OF ok n] show ?thesis
  proof
    assume "getppages n s = Some (0, s) \<and> (\<forall>p. \<not> free_run s n p)"
    with takes_refl [OF ok] show ?thesis by (simp add: region_pages_def)
  next
    assume "\<exists>p b. getppages n s = Some (p * 4096, s\<lparr>freephys_map := b\<rparr>) \<and> free_run s n p \<and> (\<forall>q < p. \<not> free_run s n q) \<and>
      map_ok (s\<lparr>freephys_map := b\<rparr>) \<and> nbits b = nbits (freephys_map s) \<and> bitmap_set b = used s \<union> {p..<p + n}"
    then obtain p b where p: "getppages n s = Some (p * 4096, s\<lparr>freephys_map := b\<rparr>)" "free_run s n p"
      "map_ok (s\<lparr>freephys_map := b\<rparr>)" "nbits b = nbits (freephys_map s)" "bitmap_set b = used s \<union> {p..<p + n}" by blast
    from p(2) ok have "0 < p" "{p..<p + n} \<inter> used s = {}" by (auto simp: free_run_def map_ok_def)
    with p n show ?thesis by (auto simp: takes_def region_pages_def)
  qed
qed

text \<open>A load takes the pages of the address space, also when it fails half-way.\<close>

lemma prepare_load_ok:
  assumes ok: "map_ok s" and un: "unloaded as"
  shows "\<exists>r as' s' x y z. as_prepare_load as s = Some (r, as', s') \<and> as' = as\<lparr>as_pbase1 := x, as_pbase2 := y, as_stackpbase := z\<rparr> \<and>
    takes s (as_pages as') s' \<and> as_pieces as' \<and> (r = Inl ENOMEM \<or> r = Inr () \<and> x \<noteq> 0 \<and> y \<noteq> 0 \<and> z \<noteq> 0 \<and> 0 < as_npages1 as \<and> 0 < as_npages2 as)"
proof -
  have z: "as_pbase1 as = 0" "as_pbase2 as = 0" "as_stackpbase as = 0" using un by (simp_all add: unloaded_def)
  have as0: "as\<lparr>as_pbase1 := 0, as_pbase2 := 0, as_stackpbase := 0\<rparr> = as" using z by simp
  note defs = as_prepare_load_def z as_pages_def as_pieces_def region_pages_def
  obtain x s1 where 1: "getppages (as_npages1 as) s = Some (x, s1)" "takes s (region_pages x (as_npages1 as)) s1" "x mod 4096 = 0" "x \<noteq> 0 \<longrightarrow> 0 < as_npages1 as"
    using getppages_takes [OF ok, of "as_npages1 as"] by auto
  obtain y s2 where 2: "getppages (as_npages2 as) s1 = Some (y, s2)" "takes s1 (region_pages y (as_npages2 as)) s2" "y mod 4096 = 0" "y \<noteq> 0 \<longrightarrow> 0 < as_npages2 as"
    using getppages_takes [OF takes_map_ok [OF 1(2)], of "as_npages2 as"] by auto
  obtain w s3 where 3: "getppages 12 s2 = Some (w, s3)" "takes s2 (region_pages w 12) s3" "w mod 4096 = 0"
    using getppages_takes [OF takes_map_ok [OF 2(2)], of 12] by auto
  note t12 = takes_trans [OF 1(2) 2(2)]
  note t123 = takes_trans [OF t12(1) 3(2)]
  show ?thesis
  proof (cases "x = 0")
    case True
    let ?as = "as\<lparr>as_pbase1 := 0, as_pbase2 := 0, as_stackpbase := 0\<rparr>"
    have "as_prepare_load as s = Some (Inl ENOMEM, ?as, s1)" using 1(1) True z by (simp add: as_prepare_load_def)
    moreover have "takes s (as_pages ?as) s1 \<and> as_pieces ?as" using 1(2) True by (simp add: as_pages_def as_pieces_def region_pages_def)
    ultimately show ?thesis by blast
  next
    case x: False
    show ?thesis
    proof (cases "y = 0")
      case True
      let ?as = "as\<lparr>as_pbase1 := x, as_pbase2 := 0, as_stackpbase := 0\<rparr>"
      have "as_prepare_load as s = Some (Inl ENOMEM, ?as, s2)" using 1(1) 2(1) x True z by (simp add: as_prepare_load_def)
      moreover have "takes s (as_pages ?as) s2 \<and> as_pieces ?as" using t12 1(3) True by (simp add: as_pages_def as_pieces_def region_pages_def)
      ultimately show ?thesis by blast
    next
      case y: False
      let ?as = "as\<lparr>as_pbase1 := x, as_pbase2 := y, as_stackpbase := w\<rparr>"
      have "as_prepare_load as s = Some (if w = 0 then Inl ENOMEM else Inr (), ?as, s3)" using 1(1) 2(1) 3(1) x y z by (simp add: as_prepare_load_def)
      moreover have "takes s (as_pages ?as) s3 \<and> as_pieces ?as" using t12 t123 1(3) 2(3) 3(3) by (simp add: as_pages_def as_pieces_def)
      ultimately show ?thesis using x y 1(4) 2(4)
        by (intro exI [of _ "if w = 0 then Inl ENOMEM else Inr ()"] exI [of _ ?as] exI [of _ s3] exI [of _ x] exI [of _ y] exI [of _ w]) simp
    qed
  qed
qed

lemma free_region_ok:
  assumes "bm_fits b" and "region_pages pbase n \<subseteq> bitmap_set b"
  shows "\<exists>b'. free_region pbase n b = Some b' \<and> bm_fits b' \<and> nbits b' = nbits b \<and> bitmap_set b' = bitmap_set b - region_pages pbase n"
  using unmark_loop_ok [of b "pbase div 4096" n] assms by (auto simp: free_region_def region_pages_def)

lemma as_destroy_ok:
  assumes ok: "map_ok s" and own: "as_pages as \<subseteq> used s" "as_pieces as"
  shows "\<exists>b. as_destroy as s = Some (s\<lparr>freephys_map := b\<rparr>) \<and> map_ok (s\<lparr>freephys_map := b\<rparr>) \<and> nbits b = nbits (freephys_map s) \<and>
    bitmap_set b = used s - as_pages as"
proof -
  let ?P = "region_pages (as_pbase1 as) (as_npages1 as)" and ?Q = "region_pages (as_pbase2 as) (as_npages2 as)" and ?R = "region_pages (as_stackpbase as) 12"
  have fits: "bm_fits (freephys_map s)" using ok by (simp add: map_ok_def)
  have sub: "?P \<subseteq> used s" "?Q \<subseteq> used s - ?P" "?R \<subseteq> used s - ?P - ?Q" using own by (auto simp: as_pages_def as_pieces_def)
  from free_region_ok [OF fits sub(1)] obtain b1 where b1: "free_region (as_pbase1 as) (as_npages1 as) (freephys_map s) = Some b1" "bm_fits b1"
    "nbits b1 = nbits (freephys_map s)" "bitmap_set b1 = used s - ?P" by blast
  from free_region_ok [OF b1(2)] sub(2) b1(4) obtain b2 where b2: "free_region (as_pbase2 as) (as_npages2 as) b1 = Some b2" "bm_fits b2"
    "nbits b2 = nbits b1" "bitmap_set b2 = used s - ?P - ?Q" by metis
  from free_region_ok [OF b2(2)] sub(3) b2(4) obtain b3 where b3: "free_region (as_stackpbase as) 12 b2 = Some b3" "bm_fits b3"
    "nbits b3 = nbits b2" "bitmap_set b3 = used s - ?P - ?Q - ?R" by metis
  have "as_destroy as s = Some (s\<lparr>freephys_map := b3\<rparr>)" using b1(1) b2(1) b3(1) by (simp add: as_destroy_def)
  moreover have "map_ok (s\<lparr>freephys_map := b3\<rparr>)" "nbits b3 = nbits (freephys_map s)" using ok b1 b2 b3 by (simp_all add: map_ok_def)
  moreover have "bitmap_set b3 = used s - as_pages as" using b3(4) by (auto simp: as_pages_def)
  ultimately show ?thesis by blast
qed

section \<open>The fault handler\<close>

definition valid_entry :: "tlb \<Rightarrow> nat \<Rightarrow> bool" where
  "valid_entry t k \<longleftrightarrow> k < length t \<and> snd (t ! k) AND TLBLO_VALID \<noteq> 0"

lemma fill_loop_ok:
  assumes "i + k = length t"
  shows "(\<exists>j. i \<le> j \<and> j < length t \<and> \<not> valid_entry t j \<and> fill_loop fa pa i k t = Some (True, t[j := (fa, pa OR 0x400 OR 0x200)])) \<or>
    fill_loop fa pa i k t = Some (False, t) \<and> (\<forall>j. i \<le> j \<and> j < length t \<longrightarrow> valid_entry t j)"
  using assms
proof (induction k arbitrary: i)
  case (Suc k)
  then have i: "i < length t" "Suc i + k = length t" by simp_all
  show ?case
  proof (cases "valid_entry t i")
    case True
    then have step: "fill_loop fa pa i (Suc k) t = fill_loop fa pa (Suc i) k t" using i by (cases "t ! i") (simp add: TLB_Read_def valid_entry_def)
    have "valid_entry t j" if "\<forall>j. Suc i \<le> j \<and> j < length t \<longrightarrow> valid_entry t j" "i \<le> j" "j < length t" for j
      using that True by (cases "j = i") auto
    with Suc.IH [OF i(2)] step show ?thesis by (metis Suc_leD)
  next
    case False
    then have "fill_loop fa pa i (Suc k) t = Some (True, t[i := (fa, pa OR 0x400 OR 0x200)])" using i
      by (cases "t ! i") (simp add: TLB_Read_def TLB_Write_def valid_entry_def)
    with False i show ?thesis by blast
  qed
qed auto

text \<open>The page that the handler maps is one of the pages of the address space.\<close>

lemma region_paddr:
  assumes p: "p mod 4096 = 0" "p \<noteq> 0" and v: "v mod 4096 = 0" "fa mod 4096 = 0" "v \<le> fa" "fa < (v + n * 4096) mod 2 ^ 32" and top: "p div 4096 + n \<le> 2 ^ 17"
  shows "(fa - v + p) mod 2 ^ 32 mod 4096 = 0" and "(fa - v + p) mod 2 ^ 32 div 4096 \<in> region_pages p n" and "(fa - v + p) mod 2 ^ 32 < 2 ^ 29"
proof -
  obtain a b c where abc: "p = a * 4096" "v = b * 4096" "fa = c * 4096"
    using p(1) v(1,2) by (auto simp: mod_eq_0_iff_dvd dvd_def mult.commute)
  have "fa < v + n * 4096" using v(4) by (metis mod_less_eq_dividend order_less_le_trans)
  with abc v(3) have c: "b \<le> c" "c < b + n" by simp_all
  have "fa - v + p = (c - b + a) * 4096" using abc c by (simp add: algebra_simps diff_mult_distrib)
  moreover have "c - b + a < 2 ^ 17" using c top abc(1) by simp
  ultimately have e: "(fa - v + p) mod 2 ^ 32 = (c - b + a) * 4096" "c - b + a < 2 ^ 17" by simp_all
  then show "(fa - v + p) mod 2 ^ 32 mod 4096 = 0" "(fa - v + p) mod 2 ^ 32 < 2 ^ 29" by simp_all
  have "a \<le> c - b + a" "c - b + a < a + n" using c by simp_all
  then have "c - b + a \<in> region_pages (a * 4096) n" using abc(1) p(2) by (simp add: region_pages_def)
  then have "(c - b + a) * 4096 div 4096 \<in> region_pages p n" unfolding abc(1) by simp
  then show "(fa - v + p) mod 2 ^ 32 div 4096 \<in> region_pages p n" unfolding e(1) .
qed

lemma fault_paddr_page:
  assumes ready: "as_ready as" and low: "\<forall>p \<in> as_pages as. p < 2 ^ 17" and fa: "fa mod 4096 = 0" and pa: "fault_paddr as fa = Some pa"
  shows "pa mod 4096 = 0 \<and> pa div 4096 \<in> as_pages as \<and> pa < 2 ^ 29"
proof -
  have al: "as_vbase1 as mod 4096 = 0" "as_vbase2 as mod 4096 = 0" "as_pbase1 as mod 4096 = 0" "as_pbase2 as mod 4096 = 0" "as_stackpbase as mod 4096 = 0"
    and nz: "as_pbase1 as \<noteq> 0" "as_pbase2 as \<noteq> 0" "as_stackpbase as \<noteq> 0" "as_npages1 as \<noteq> 0" "as_npages2 as \<noteq> 0"
    using ready by (simp_all add: as_ready_def frame_fixed)
  have last: "p div 4096 + n \<le> 2 ^ 17" if "region_pages p n \<subseteq> as_pages as" "p \<noteq> 0" "n \<noteq> 0" for p n
  proof -
    have "p div 4096 + (n - 1) \<in> region_pages p n" using that(2,3) by (simp add: region_pages_def)
    with that low have "p div 4096 + (n - 1) < 2 ^ 17" by blast
    then show ?thesis using that(3) by simp
  qed
  have sub: "region_pages (as_pbase1 as) (as_npages1 as) \<subseteq> as_pages as" "region_pages (as_pbase2 as) (as_npages2 as) \<subseteq> as_pages as"
    "region_pages (as_stackpbase as) 12 \<subseteq> as_pages as" by (auto simp: as_pages_def)
  have stack: "(0x7fff4000 + 12 * 4096) mod 2 ^ 32 = (0x80000000 :: nat)" by simp
  from pa consider "as_vbase1 as \<le> fa" "fa < (as_vbase1 as + as_npages1 as * 4096) mod 2 ^ 32" "pa = (fa - as_vbase1 as + as_pbase1 as) mod 2 ^ 32" |
    "as_vbase2 as \<le> fa" "fa < (as_vbase2 as + as_npages2 as * 4096) mod 2 ^ 32" "pa = (fa - as_vbase2 as + as_pbase2 as) mod 2 ^ 32" |
    "0x7fff4000 \<le> fa" "fa < (0x7fff4000 + 12 * 4096) mod 2 ^ 32" "pa = (fa - 0x7fff4000 + as_stackpbase as) mod 2 ^ 32"
    by (auto simp: fault_paddr_def Let_def split: if_split_asm)
  then show ?thesis
  proof cases
    case 1
    note r = region_paddr [OF al(3) nz(1) al(1) fa 1(1,2) last [OF sub(1) nz(1,4)]]
    show ?thesis unfolding 1(3) using r(1,3) subsetD [OF sub(1) r(2)] by (intro conjI)
  next
    case 2
    note r = region_paddr [OF al(4) nz(2) al(2) fa 2(1,2) last [OF sub(2) nz(2,5)]]
    show ?thesis unfolding 2(3) using r(1,3) subsetD [OF sub(2) r(2)] by (intro conjI)
  next
    case 3
    have "(0x7fff4000 :: nat) mod 4096 = 0" "(12 :: nat) \<noteq> 0" by simp_all
    note r = region_paddr [OF al(5) nz(3) this(1) fa 3(1,2) last [OF sub(3) nz(3) this(2)]]
    show ?thesis unfolding 3(3) using r(1,3) subsetD [OF sub(3) r(2)] by (intro conjI)
  qed
qed

text \<open>A successful fault puts one translation into a free entry of the buffer; all others stay.\<close>

definition entry_for :: "addrspace \<Rightarrow> nat \<times> nat \<Rightarrow> bool" where
  "entry_for as e \<longleftrightarrow> frame (fst e) = fst e \<and> fault_paddr as (fst e) = Some (frame (snd e)) \<and> snd e AND TLBLO_DIRTY \<noteq> 0"

lemma vm_fault_ok:
  assumes ready: "as_ready as" and low: "\<forall>p \<in> as_pages as. p < 2 ^ 17" and len: "length (d_tlb s) = 64" and ft: "ft = VM_FAULT_READ \<or> ft = VM_FAULT_WRITE"
  shows "(\<exists>pa j lo. fault_paddr as (frame fa) = Some pa \<and> j < 64 \<and> \<not> valid_entry (d_tlb s) j \<and> frame lo = pa \<and> lo AND TLBLO_VALID \<noteq> 0 \<and>
      lo AND TLBLO_DIRTY \<noteq> 0 \<and> vm_fault ft fa (Some as) s = Some (Inr (), s\<lparr>d_tlb := (d_tlb s)[j := (frame fa, lo)]\<rparr>)) \<or>
    vm_fault ft fa (Some as) s = Some (Inl EFAULT, s) \<and> (fault_paddr as (frame fa) = None \<or> (\<forall>j < 64. valid_entry (d_tlb s) j))"
proof (cases "fault_paddr as (frame fa)")
  case None
  with ready ft show ?thesis by (auto simp: vm_fault_def)
next
  case (Some pa)
  have "frame fa mod 4096 = 0" using frame_fixed [of "frame fa"] by simp
  from fault_paddr_page [OF ready low this Some] have pa: "pa mod 4096 = 0" "pa < 2 ^ 29" by blast+
  then have fr: "frame pa = pa" by (simp add: frame_fixed)
  let ?lo = "pa OR 0x400 OR 0x200"
  have lo: "frame ?lo = pa" "?lo AND 0x200 \<noteq> 0" "?lo AND 0x400 \<noteq> 0"
    using frame_page [OF pa(1), of "0x400 OR 0x200"] tlblo_flags [OF pa(1), of "0x400 OR 0x200"] pa(2) by simp_all
  from fill_loop_ok [of 0 64 "d_tlb s" "frame fa" pa] len consider
    j where "j < 64" "\<not> valid_entry (d_tlb s) j" "fill_loop (frame fa) pa 0 64 (d_tlb s) = Some (True, (d_tlb s)[j := (frame fa, ?lo)])" |
    "fill_loop (frame fa) pa 0 64 (d_tlb s) = Some (False, d_tlb s)" "\<forall>j < 64. valid_entry (d_tlb s) j" by auto
  then show ?thesis
  proof cases
    case 1
    then have "vm_fault ft fa (Some as) s = Some (Inr (), s\<lparr>d_tlb := (d_tlb s)[j := (frame fa, ?lo)]\<rparr>)" using Some ready ft fr by (auto simp: vm_fault_def)
    with 1(1,2) Some lo show ?thesis by blast
  next
    case 2
    then have "vm_fault ft fa (Some as) s = Some (Inl EFAULT, s)" using Some ready ft fr by (auto simp: vm_fault_def)
    with 2(2) show ?thesis by blast
  qed
qed

lemma flush_loop_nth:
  "i + k \<le> length t \<Longrightarrow> length (flush_loop i k t) = length t \<and>
     (\<forall>j < length t. flush_loop i k t ! j = (if i \<le> j \<and> j < i + k then (TLBHI_INVALID j, 0) else t ! j))"
proof (induction i k t rule: flush_loop.induct)
  case (2 i k t)
  then show ?case by (auto simp: TLB_Write_def nth_list_update not_less_eq_eq)
qed auto

lemma flush_ok:
  assumes "length (d_tlb s) = 64"
  shows "length (d_tlb (as_activate s)) = 64" and "tlb_unique (d_tlb (as_activate s))" and "\<not> valid_entry (d_tlb (as_activate s)) k"
proof -
  have n: "length (d_tlb (as_activate s)) = 64" "\<forall>j < 64. d_tlb (as_activate s) ! j = (TLBHI_INVALID j, 0)"
    using flush_loop_nth [of 0 64 "d_tlb s"] assms by (simp_all add: as_activate_def)
  then show "length (d_tlb (as_activate s)) = 64" "\<not> valid_entry (d_tlb (as_activate s)) k" by (auto simp: valid_entry_def)
  have "frame (TLBHI_INVALID j) = (0x80000 + j) * 4096" if "j < 64" for j using that by (simp add: TLBHI_INVALID_def frame_eq)
  then show "tlb_unique (d_tlb (as_activate s))" using n by (simp add: tlb_unique_def)
qed

section \<open>The system\<close>

text \<open>All address spaces, the one that the processor runs in, and the pages that the kernel has.\<close>

record vsys =
  v_d :: dumbvm
  v_as :: "nat \<Rightarrow> addrspace option"
  v_cur :: "nat option"
  v_kern :: "nat set"

text \<open>Regions are defined before the load, in the order of \<^verbatim>\<open>load_elf\<close>. A fault is taken when no entry of the
  buffer matches. A thread without an address space does not flush the buffer.\<close>

inductive vstep :: "vsys \<Rightarrow> vsys \<Rightarrow> bool" where
  VCreate: "as_create (v_d v) = (Some as, d) \<Longrightarrow> v_as v i = None \<Longrightarrow> vstep v (v\<lparr>v_d := d, v_as := (v_as v)(i \<mapsto> as)\<rparr>)"
| VDefine: "v_as v i = Some as \<Longrightarrow> unloaded as \<Longrightarrow> as_define_region as vaddr sz = (r, as') \<Longrightarrow>
     vstep v (v\<lparr>v_as := (v_as v)(i \<mapsto> as')\<rparr>)"
| VLoad: "v_as v i = Some as \<Longrightarrow> as_prepare_load as (v_d v) = Some (r, as', d) \<Longrightarrow>
     vstep v (v\<lparr>v_d := d, v_as := (v_as v)(i \<mapsto> as')\<rparr>)"
| VCopy: "v_as v i = Some as \<Longrightarrow> as_copy as (v_d v) = Some (Inr as', d) \<Longrightarrow> v_as v j = None \<Longrightarrow>
     vstep v (v\<lparr>v_d := d, v_as := (v_as v)(j \<mapsto> as')\<rparr>)"
| VCopyFail: "v_as v i = Some as \<Longrightarrow> as_copy as (v_d v) = Some (Inl e, d) \<Longrightarrow> vstep v (v\<lparr>v_d := d\<rparr>)"
| VActivate: "v_as v i = Some as \<Longrightarrow> vstep v (v\<lparr>v_d := as_activate (v_d v), v_cur := Some i\<rparr>)"
| VSwitch: "vstep v (v\<lparr>v_cur := None\<rparr>)"
| VFault: "v_cur v = Some i \<Longrightarrow> TLB_Probe fa (d_tlb (v_d v)) = None \<Longrightarrow> vm_fault ft fa (v_as v i) (v_d v) = Some (r, d) \<Longrightarrow>
     vstep v (v\<lparr>v_d := d\<rparr>)"
| VDestroy: "v_as v i = Some as \<Longrightarrow> as_destroy as (v_d v) = Some d \<Longrightarrow>
     vstep v (v\<lparr>v_d := d, v_as := (v_as v)(i := None), v_cur := (if v_cur v = Some i then None else v_cur v)\<rparr>)"
| VAllocK: "alloc_kpages n (v_d v) = Some (va, d) \<Longrightarrow> n = 1 \<Longrightarrow>
     vstep v (v\<lparr>v_d := d, v_kern := (if va = 0 then v_kern v else insert (KVADDR_TO_PADDR va div 4096) (v_kern v))\<rparr>)"
| VFreeK: "p \<in> v_kern v \<Longrightarrow> free_kpages (PADDR_TO_KVADDR (p * 4096)) (v_d v) = Some d \<Longrightarrow>
     vstep v (v\<lparr>v_d := d, v_kern := v_kern v - {p}\<rparr>)"

text \<open>The memory that the boot leaves, and a translation buffer that has been reset.\<close>

inductive vreachable :: "vsys \<Rightarrow> bool" where
  VBoot: "vm_bootstrap r d0 = Some (r', d) \<Longrightarrow> 0 < lastpaddr r \<Longrightarrow> lastpaddr r \<le> 508 * 1024 * 1024 \<Longrightarrow> firstpaddr r < 2 ^ 31 \<Longrightarrow>
     length (d_tlb d0) = 64 \<Longrightarrow> tlb_unique (d_tlb d0) \<Longrightarrow> (\<forall>k. \<not> valid_entry (d_tlb d0) k) \<Longrightarrow>
     vreachable \<lparr>v_d = d, v_as = Map.empty, v_cur = None, v_kern = {}\<rparr>"
| VStep: "vreachable v \<Longrightarrow> vstep v v' \<Longrightarrow> vreachable v'"

section \<open>Invariant\<close>

definition vm_owners :: "vsys \<Rightarrow> bool" where
  "vm_owners v \<longleftrightarrow>
     (\<forall>i as. v_as v i = Some as \<longrightarrow> as_pieces as \<and> as_pages as \<subseteq> used (v_d v) \<and> as_pages as \<inter> v_kern v = {}) \<and>
     (\<forall>i j as as'. i \<noteq> j \<longrightarrow> v_as v i = Some as \<longrightarrow> v_as v j = Some as' \<longrightarrow> as_pages as \<inter> as_pages as' = {}) \<and>
     v_kern v \<subseteq> used (v_d v)"

definition tlb_ok :: "vsys \<Rightarrow> bool" where
  "tlb_ok v \<longleftrightarrow> length (d_tlb (v_d v)) = 64 \<and> tlb_unique (d_tlb (v_d v)) \<and>
     (\<forall>i. v_cur v = Some i \<longrightarrow> (\<exists>as. v_as v i = Some as \<and>
        (\<forall>k. valid_entry (d_tlb (v_d v)) k \<longrightarrow> as_ready as \<and> entry_for as (d_tlb (v_d v) ! k))))"

definition vinv :: "vsys \<Rightarrow> bool" where
  "vinv v \<longleftrightarrow> map_ok (v_d v) \<and> vm_owners v \<and> tlb_ok v"

lemma as_low:
  assumes "vinv v" and "v_as v i = Some as"
  shows "\<forall>p \<in> as_pages as. p < 2 ^ 17"
proof -
  have "as_pages as \<subseteq> used (v_d v)" "nbits (freephys_map (v_d v)) \<le> 2 ^ 17" using assms by (auto simp: vinv_def vm_owners_def map_ok_def)
  then show ?thesis by (auto simp: bitmap_set_def)
qed

lemma not_ready: "unloaded as \<Longrightarrow> \<not> as_ready as"
  by (simp add: unloaded_def as_ready_def)

text \<open>Address space \<open>i\<close> is new, or had no pages, and gets pages that were free.\<close>

lemma owners_take:
  assumes "vm_owners v" and d: "used d = used (v_d v) \<union> as_pages as'" "as_pages as' \<inter> used (v_d v) = {}" and "as_pieces as'" and "\<And>as. v_as v i = Some as \<Longrightarrow> as_pages as = {}"
  shows "vm_owners (v\<lparr>v_d := d, v_as := (v_as v)(i \<mapsto> as')\<rparr>)"
proof -
  have old: "as_pieces as" "as_pages as \<subseteq> used (v_d v)" "as_pages as \<inter> v_kern v = {}" if "v_as v j = Some as" for j as
    using assms(1) that by (auto simp: vm_owners_def)
  have kern: "v_kern v \<subseteq> used (v_d v)" using assms(1) by (simp add: vm_owners_def)
  have new: "as_pages as \<inter> as_pages as' = {}" if "v_as v j = Some as" for j as using old(2) [OF that] d(2) by blast
  have "as_pages as' \<inter> v_kern v = {}" using kern d(2) by blast
  moreover have "as_pages as \<subseteq> used d" if "v_as v j = Some as" for j as using old(2) [OF that] d(1) by blast
  moreover have "as_pages x \<inter> as_pages y = {}" if "j \<noteq> k" "((v_as v)(i \<mapsto> as')) j = Some x" "((v_as v)(i \<mapsto> as')) k = Some y" for j k x y
    using that assms(1) new [of j x] new [of k y] unfolding vm_owners_def by (auto split: if_split_asm)
  ultimately show ?thesis using old kern assms(4) d(1) unfolding vm_owners_def by auto
qed

lemma tlb_ok_keep:
  assumes "tlb_ok v" and "d_tlb d = d_tlb (v_d v)" and "v_cur v = Some i \<Longrightarrow> v_as v i = Some as \<Longrightarrow> \<not> as_ready as"
    and "v_as v i = Some as \<or> v_as v i = None"
  shows "tlb_ok (v\<lparr>v_d := d, v_as := (v_as v)(i \<mapsto> as')\<rparr>)"
  using assms unfolding tlb_ok_def by (cases "v_cur v = Some i") auto

text \<open>A copy that fails gives back what it took.\<close>

lemma as_copy_ok:
  assumes ok: "map_ok s"
  shows "\<exists>r s'. as_copy old s = Some (r, s') \<and> d_tlb s' = d_tlb s \<and> (case r of
      Inl e \<Rightarrow> e = ENOMEM \<and> map_ok s' \<and> used s' = used s \<and> d_ram s' = d_ram s
    | Inr new \<Rightarrow> takes (s\<lparr>d_mem := d_mem s', d_ram := d_ram s'\<rparr>) (as_pages new) s' \<and> as_pieces new \<and> as_vbase1 new = as_vbase1 old \<and> as_npages1 new = as_npages1 old \<and>
        as_vbase2 new = as_vbase2 old \<and> as_npages2 new = as_npages2 old \<and> as_pbase1 new \<noteq> 0 \<and> as_pbase2 new \<noteq> 0 \<and> as_stackpbase new \<noteq> 0 \<and>
        d_ram s' = memmove_phys (as_stackpbase new) (as_stackpbase old) (12 * 4096)
          (memmove_phys (as_pbase2 new) (as_pbase2 old) (as_npages2 old * 4096)
            (memmove_phys (as_pbase1 new) (as_pbase1 old) (as_npages1 old * 4096) (d_ram s))))"
proof -
  obtain good m where m: "kmalloc (d_mem s) = (good, m)" by (cases "kmalloc (d_mem s)")
  show ?thesis
  proof (cases good)
    case False
    then have "as_copy old s = Some (Inl ENOMEM, s\<lparr>d_mem := m\<rparr>)" using m by (simp add: as_copy_def as_create_def)
    then show ?thesis using ok by (simp add: map_ok_def)
  next
    case True
    let ?s = "s\<lparr>d_mem := m\<rparr>"
    let ?new = "\<lparr>as_vbase1 = as_vbase1 old, as_pbase1 = 0, as_npages1 = as_npages1 old, as_vbase2 = as_vbase2 old, as_pbase2 = 0, as_npages2 = as_npages2 old, as_stackpbase = 0\<rparr>"
    have ok': "map_ok ?s" using ok by (simp add: map_ok_def)
    obtain r new s1 x y z where p: "as_prepare_load ?new ?s = Some (r, new, s1)" "new = ?new\<lparr>as_pbase1 := x, as_pbase2 := y, as_stackpbase := z\<rparr>"
      "takes ?s (as_pages new) s1" "as_pieces new" "r = Inl ENOMEM \<or> r = Inr () \<and> x \<noteq> 0 \<and> y \<noteq> 0 \<and> z \<noteq> 0"
      using prepare_load_ok [OF ok', of ?new] by (auto simp: unloaded_def)
    have call: "as_copy old s = do {
        (r, new, s) \<leftarrow> as_prepare_load ?new ?s;
        case r of
          Inl e \<Rightarrow> do { s \<leftarrow> as_destroy new s; Some (Inl ENOMEM, s) }
        | Inr _ \<Rightarrow> do {
            kassert (as_pbase1 new \<noteq> 0);
            kassert (as_pbase2 new \<noteq> 0);
            kassert (as_stackpbase new \<noteq> 0);
            let m = memmove_phys (as_pbase1 new) (as_pbase1 old) (as_npages1 old * PAGE_SIZE) (d_ram s);
            let m = memmove_phys (as_pbase2 new) (as_pbase2 old) (as_npages2 old * PAGE_SIZE) m;
            let m = memmove_phys (as_stackpbase new) (as_stackpbase old) (DUMBVM_STACKPAGES * PAGE_SIZE) m;
            Some (Inr new, s\<lparr>d_ram := m\<rparr>)
          }
      }" using m True by (simp add: as_copy_def as_create_def)
    from p(3) obtain b where s1: "s1 = ?s\<lparr>freephys_map := b\<rparr>" "map_ok s1" "used s1 = used s \<union> as_pages new" "as_pages new \<inter> used s = {}"
      by (auto simp: takes_def)
    show ?thesis
    proof (cases r)
      case (Inl e)
      from s1 have "as_pages new \<subseteq> used s1" by auto
      from as_destroy_ok [OF s1(2) this p(4)] obtain b' where b': "as_destroy new s1 = Some (s1\<lparr>freephys_map := b'\<rparr>)" "map_ok (s1\<lparr>freephys_map := b'\<rparr>)"
        "bitmap_set b' = used s1 - as_pages new" by blast
      have "as_copy old s = Some (Inl ENOMEM, s1\<lparr>freephys_map := b'\<rparr>)" using call p(1) Inl b'(1) by simp
      moreover have "bitmap_set b' = used s" using b'(3) s1(3,4) by auto
      ultimately show ?thesis using b'(2) s1(1) by simp
    next
      case (Inr u)
      with p(5) have nz: "x \<noteq> 0" "y \<noteq> 0" "z \<noteq> 0" by simp_all
      let ?m = "memmove_phys z (as_stackpbase old) (12 * 4096) (memmove_phys y (as_pbase2 old) (as_npages2 old * 4096)
        (memmove_phys x (as_pbase1 old) (as_npages1 old * 4096) (d_ram s)))"
      have "as_copy old s = Some (Inr new, s1\<lparr>d_ram := ?m\<rparr>)" using call p(1) Inr p(2) nz s1(1) by (simp add: Let_def)
      moreover have "takes (s\<lparr>d_mem := m, d_ram := ?m\<rparr>) (as_pages new) (s1\<lparr>d_ram := ?m\<rparr>)" using p(3) s1(1) by (auto simp: takes_def map_ok_def)
      ultimately show ?thesis using p(2,4) nz s1(1) by simp
    qed
  qed
qed

lemma owners_drop:
  assumes "vm_owners v" and "v_as v i = Some as" and "used d = used (v_d v) - as_pages as"
  shows "vm_owners (v\<lparr>v_d := d, v_as := (v_as v)(i := None), v_cur := c\<rparr>)"
proof -
  have "as_pages x \<inter> as_pages as = {}" if "j \<noteq> i" "v_as v j = Some x" for j x
    using assms(1,2) that unfolding vm_owners_def by blast
  moreover have "as_pages x \<subseteq> used (v_d v)" "as_pieces x" "as_pages x \<inter> v_kern v = {}" if "v_as v j = Some x" for j x
    using assms(1) that unfolding vm_owners_def by blast+
  moreover have "v_kern v \<subseteq> used d" using assms unfolding vm_owners_def by blast
  ultimately show ?thesis using assms(1,3) unfolding vm_owners_def by (auto split: if_split_asm) blast+
qed

lemma owners_same: "vm_owners v \<Longrightarrow> used d = used (v_d v) \<Longrightarrow> vm_owners (v\<lparr>v_d := d, v_cur := c\<rparr>)"
  by (simp add: vm_owners_def)

lemma owners_kern:
  assumes "vm_owners v" and "used d = used (v_d v) \<union> P" and "P \<inter> used (v_d v) = {}"
  shows "vm_owners (v\<lparr>v_d := d, v_kern := v_kern v \<union> P\<rparr>)"
proof -
  have "as_pages x \<inter> (v_kern v \<union> P) = {}" "as_pages x \<subseteq> used d" if "v_as v j = Some x" for j x
  proof -
    have "as_pages x \<subseteq> used (v_d v)" "as_pages x \<inter> v_kern v = {}" using assms(1) that unfolding vm_owners_def by blast+
    with assms(2,3) show "as_pages x \<inter> (v_kern v \<union> P) = {}" "as_pages x \<subseteq> used d" by blast+
  qed
  then show ?thesis using assms(1,2) unfolding vm_owners_def by auto
qed

lemma tlb_ok_sub:
  assumes "tlb_ok v" and "d_tlb d = d_tlb (v_d v)" and "\<And>i. c = Some i \<Longrightarrow> v_cur v = Some i \<and> f i = v_as v i"
  shows "tlb_ok (v\<lparr>v_d := d, v_as := f, v_cur := c, v_kern := K\<rparr>)"
  using assms unfolding tlb_ok_def by auto

text \<open>A new entry for a page that no entry matches.\<close>

lemma unique_fill:
  assumes u: "tlb_unique t" and probe: "TLB_Probe fa t = None"
  shows "tlb_unique (t[j := (frame fa, lo)])"
proof -
  have free: "frame (fst (t ! k)) \<noteq> frame fa" if "k < length t" for k using probe that TLB_Probe_None [OF u, of fa] by simp
  have hi: "frame (fst (t[j := (frame fa, lo)] ! k)) = (if k = j then frame fa else frame (fst (t ! k)))" if "k < length t" for k
    using that by (simp add: nth_list_update)
  show ?thesis unfolding tlb_unique_def
  proof (intro allI impI)
    fix k l assume kl: "k < length (t[j := (frame fa, lo)])" "l < length (t[j := (frame fa, lo)])"
      "frame (fst (t[j := (frame fa, lo)] ! k)) = frame (fst (t[j := (frame fa, lo)] ! l))"
    then have lt: "k < length t" "l < length t" by simp_all
    then show "k = l" using kl(3) hi [OF lt(1)] hi [OF lt(2)] free [OF lt(1)] free [OF lt(2)] u unfolding tlb_unique_def by (auto split: if_split_asm)
  qed
qed

lemma tlb_ok_fill:
  assumes ok: "tlb_ok v" and cur: "v_cur v = Some i" "v_as v i = Some as" and probe: "TLB_Probe fa (d_tlb (v_d v)) = None"
    and j: "j < 64" "\<not> valid_entry (d_tlb (v_d v)) j" and ready: "as_ready as" and e: "entry_for as (frame fa, lo)"
  shows "tlb_ok (v\<lparr>v_d := (v_d v)\<lparr>d_tlb := (d_tlb (v_d v))[j := (frame fa, lo)]\<rparr>\<rparr>)"
proof -
  let ?t = "d_tlb (v_d v)" and ?t' = "(d_tlb (v_d v))[j := (frame fa, lo)]"
  have t: "length ?t = 64" "tlb_unique ?t" using ok by (simp_all add: tlb_ok_def)
  have "tlb_unique ?t'" by (rule unique_fill [OF t(2) probe])
  moreover have "as_ready as \<and> entry_for as (?t' ! k)" if "valid_entry ?t' k" for k
  proof (cases "k = j")
    case True
    then show ?thesis using ready e j t(1) by simp
  next
    case False
    then have "?t' ! k = ?t ! k" "valid_entry ?t k" using that by (simp_all add: valid_entry_def)
    then show ?thesis using ok cur unfolding tlb_ok_def by auto
  qed
  ultimately show ?thesis using t(1) cur unfolding tlb_ok_def by simp
qed

lemma fault_inv:
  assumes inv: "vinv v" and cur: "v_cur v = Some i" and probe: "TLB_Probe fa (d_tlb (v_d v)) = None"
    and call: "vm_fault ft fa (v_as v i) (v_d v) = Some (r, d)"
  shows "vinv (v\<lparr>v_d := d\<rparr>)"
proof -
  have ok: "tlb_ok v" using inv by (simp add: vinv_def)
  with cur obtain as where as: "v_as v i = Some as" by (auto simp: tlb_ok_def)
  show ?thesis
  proof (cases "ft = VM_FAULT_READ \<or> ft = VM_FAULT_WRITE")
    case False
    then have "d = v_d v" using call by (cases ft) (auto simp: vm_fault_def)
    with inv show ?thesis by simp
  next
    case True
    have len: "length (d_tlb (v_d v)) = 64" using ok by (simp add: tlb_ok_def)
    have ready: "as_ready as" using call as True by (auto simp: vm_fault_def Let_def)
    from vm_fault_ok [OF ready as_low [OF inv as] len True, of fa] call as consider "d = v_d v" |
      pa j lo where "fault_paddr as (frame fa) = Some pa" "j < 64" "\<not> valid_entry (d_tlb (v_d v)) j" "frame lo = pa" "lo AND 0x400 \<noteq> 0"
        "d = (v_d v)\<lparr>d_tlb := (d_tlb (v_d v))[j := (frame fa, lo)]\<rparr>" by auto
    then show ?thesis
    proof cases
      case 2
      have "entry_for as (frame fa, lo)" using 2(1,4,5) by (simp add: entry_for_def)
      from tlb_ok_fill [OF ok cur as probe 2(2,3) ready this] have "tlb_ok (v\<lparr>v_d := d\<rparr>)" using 2(6) by simp
      moreover have "map_ok d" "used d = used (v_d v)" using inv 2(6) by (simp_all add: vinv_def map_ok_def)
      moreover have "vm_owners (v\<lparr>v_d := d\<rparr>)" using inv 2(6) by (simp add: vinv_def vm_owners_def)
      ultimately show ?thesis by (simp add: vinv_def)
    qed (use inv in simp)
  qed
qed

lemma alloc_kpages_ok:
  assumes ok: "map_ok s"
  shows "(\<exists>p b. alloc_kpages 1 s = Some (PADDR_TO_KVADDR (p * 4096), s\<lparr>freephys_map := b\<rparr>) \<and> 0 < p \<and> p < 2 ^ 17 \<and> takes s {p} (s\<lparr>freephys_map := b\<rparr>)) \<or>
    alloc_kpages 1 s = Some (0, s) \<and> {firstpage s..lastpage s} \<subseteq> used s"
proof -
  have one: "u32 1 = 1" by (simp add: u32_def)
  have n: "0 < (1 :: nat)" by simp
  from getppages_ok [OF ok n] show ?thesis
  proof
    assume "\<exists>p b. getppages 1 s = Some (p * 4096, s\<lparr>freephys_map := b\<rparr>) \<and> free_run s 1 p \<and> (\<forall>q < p. \<not> free_run s 1 q) \<and>
      map_ok (s\<lparr>freephys_map := b\<rparr>) \<and> nbits b = nbits (freephys_map s) \<and> bitmap_set b = used s \<union> {p..<p + 1}"
    then obtain p b where p: "getppages 1 s = Some (p * 4096, s\<lparr>freephys_map := b\<rparr>)" "free_run s 1 p"
      "map_ok (s\<lparr>freephys_map := b\<rparr>)" "nbits b = nbits (freephys_map s)" "bitmap_set b = used s \<union> {p..<p + 1}" by blast
    have "0 < p" "p < 2 ^ 17" "p \<notin> used s" using p(2) ok by (auto simp: free_run_def map_ok_def)
    then show ?thesis using p by (auto simp: alloc_kpages_def one takes_def)
  next
    assume a: "getppages 1 s = Some (0, s) \<and> (\<forall>p. \<not> free_run s 1 p)"
    then have "p \<in> used s" if "firstpage s \<le> p" "p \<le> lastpage s" for p using that by (auto simp: free_run_def)
    with a show ?thesis by (auto simp: alloc_kpages_def one)
  qed
qed

lemma kvaddr_page:
  assumes "0 < p" and "p < 2 ^ 17"
  shows "KVADDR_TO_PADDR (PADDR_TO_KVADDR (p * 4096)) = p * 4096" and "PADDR_TO_KVADDR (p * 4096) \<noteq> 0"
proof -
  show "KVADDR_TO_PADDR (PADDR_TO_KVADDR (p * 4096)) = p * 4096" by (rule kvaddr_paddr) (use assms(2) in simp)
qed (use assms in \<open>simp add: PADDR_TO_KVADDR_def\<close>)

lemma vstep_inv:
  assumes step: "vstep v v'" and inv: "vinv v"
  shows "vinv v'"
  using step
proof (cases rule: vstep.cases)
  case (VCreate as d i)
  then have d: "unloaded as" "d_tlb d = d_tlb (v_d v)" "used d = used (v_d v)" "map_ok d"
    using inv by (auto simp: as_create_def unloaded_def vinv_def map_ok_def split: prod.split_asm if_split_asm)
  have "vm_owners (v\<lparr>v_d := d, v_as := (v_as v)(i \<mapsto> as)\<rparr>)"
    by (rule owners_take) (use inv d VCreate(3) in \<open>simp_all add: vinv_def\<close>)
  moreover have "tlb_ok (v\<lparr>v_d := d, v_as := (v_as v)(i \<mapsto> as)\<rparr>)"
    by (rule tlb_ok_keep [where as = as]) (use inv d VCreate(3) in \<open>simp_all add: vinv_def\<close>)
  ultimately show ?thesis using d(4) VCreate(1) by (simp add: vinv_def)
next
  case (VDefine i as vaddr sz r as')
  then have u: "unloaded as'" by (auto simp: as_define_region_def unloaded_def Let_def split: if_split_asm)
  have eq: "v' = v\<lparr>v_d := v_d v, v_as := (v_as v)(i \<mapsto> as')\<rparr>" using VDefine(1) by simp
  have "vm_owners v'" unfolding eq by (rule owners_take) (use inv u VDefine(2,3) in \<open>auto simp: vinv_def\<close>)
  moreover have "tlb_ok v'" unfolding eq
    by (rule tlb_ok_keep [where as = as]) (use inv not_ready [OF VDefine(3)] VDefine(2) in \<open>simp_all add: vinv_def\<close>)
  ultimately show ?thesis using inv eq by (simp add: vinv_def)
next
  case (VLoad i as r as' d)
  have un: "unloaded as" using VLoad(3) by (auto simp: as_prepare_load_def unloaded_def)
  have ok: "map_ok (v_d v)" using inv by (simp add: vinv_def)
  from prepare_load_ok [OF ok un] VLoad(3) have t: "takes (v_d v) (as_pages as') d" "as_pieces as'" by auto
  then have d: "used d = used (v_d v) \<union> as_pages as'" "as_pages as' \<inter> used (v_d v) = {}" "map_ok d" "d_tlb d = d_tlb (v_d v)" by (auto simp: takes_def)
  have "vm_owners v'" unfolding VLoad(1) by (rule owners_take) (use inv un t d VLoad(2) in \<open>auto simp: vinv_def\<close>)
  moreover have "tlb_ok v'" unfolding VLoad(1)
    by (rule tlb_ok_keep [where as = as]) (use inv not_ready [OF un] VLoad(2) d in \<open>simp_all add: vinv_def\<close>)
  ultimately show ?thesis using d(3) VLoad(1) by (simp add: vinv_def)
next
  case (VCopy i as as' d j)
  have ok: "map_ok (v_d v)" using inv by (simp add: vinv_def)
  from as_copy_ok [OF ok, of as] VCopy(3) have d: "used d = used (v_d v) \<union> as_pages as'" "as_pages as' \<inter> used (v_d v) = {}" "map_ok d"
    "d_tlb d = d_tlb (v_d v)" "as_pieces as'" by (auto simp: takes_def)
  have "vm_owners v'" unfolding VCopy(1) by (rule owners_take) (use inv d VCopy(4) in \<open>auto simp: vinv_def\<close>)
  moreover have "tlb_ok v'" unfolding VCopy(1)
    by (rule tlb_ok_keep [where as = as']) (use inv VCopy(4) d in \<open>simp_all add: vinv_def\<close>)
  ultimately show ?thesis using d(3) VCopy(1) by (simp add: vinv_def)
next
  case (VCopyFail i as e d)
  have ok: "map_ok (v_d v)" using inv by (simp add: vinv_def)
  from as_copy_ok [OF ok, of as] VCopyFail(3) have "used d = used (v_d v)" "map_ok d" "d_tlb d = d_tlb (v_d v)" by auto
  with inv show ?thesis unfolding VCopyFail(1) by (simp add: vinv_def vm_owners_def tlb_ok_def)
next
  case (VActivate i as)
  have len: "length (d_tlb (v_d v)) = 64" using inv by (simp add: vinv_def tlb_ok_def)
  have "vm_owners v'" "map_ok (v_d v')" using inv VActivate(1) by (simp_all add: vinv_def vm_owners_def as_activate_def map_ok_def)
  moreover have "tlb_ok v'" using flush_ok [OF len] VActivate by (simp add: tlb_ok_def)
  ultimately show ?thesis by (simp add: vinv_def)
next
  case VSwitch
  with inv show ?thesis by (simp add: vinv_def vm_owners_def tlb_ok_def)
next
  case (VFault i fa ft r d)
  with fault_inv [OF inv] show ?thesis by blast
next
  case (VDestroy i as d)
  have ok: "map_ok (v_d v)" "as_pages as \<subseteq> used (v_d v)" "as_pieces as" using inv VDestroy(2) by (auto simp: vinv_def vm_owners_def)
  from as_destroy_ok [OF ok] obtain b where b: "as_destroy as (v_d v) = Some ((v_d v)\<lparr>freephys_map := b\<rparr>)" "map_ok ((v_d v)\<lparr>freephys_map := b\<rparr>)"
    "bitmap_set b = used (v_d v) - as_pages as" by blast
  have "d = (v_d v)\<lparr>freephys_map := b\<rparr>" using VDestroy(3) b(1) by simp
  with b(2,3) have d: "used d = used (v_d v) - as_pages as" "map_ok d" "d_tlb d = d_tlb (v_d v)" by simp_all
  let ?c = "if v_cur v = Some i then None else v_cur v"
  have "vm_owners v'" unfolding VDestroy(1) by (rule owners_drop) (use inv d VDestroy(2) in \<open>simp_all add: vinv_def\<close>)
  moreover have "tlb_ok (v\<lparr>v_d := d, v_as := (v_as v)(i := None), v_cur := ?c, v_kern := v_kern v\<rparr>)"
    by (rule tlb_ok_sub) (use inv d in \<open>auto simp: vinv_def split: if_split_asm\<close>)
  ultimately show ?thesis using d(2) VDestroy(1) by (simp add: vinv_def)
next
  case (VAllocK n va d)
  have ok: "map_ok (v_d v)" using inv by (simp add: vinv_def)
  from alloc_kpages_ok [OF ok] VAllocK(2,3) consider "va = 0" "d = v_d v" |
    p where "va = PADDR_TO_KVADDR (p * 4096)" "0 < p" "p < 2 ^ 17" "takes (v_d v) {p} d" by auto
  then show ?thesis
  proof cases
    case 1
    with inv VAllocK(1) show ?thesis by simp
  next
    case 2
    then have eq: "v' = v\<lparr>v_d := d, v_kern := v_kern v \<union> {p}\<rparr>" using VAllocK(1) kvaddr_page [of p] by simp
    have d: "used d = used (v_d v) \<union> {p}" "{p} \<inter> used (v_d v) = {}" "map_ok d" "d_tlb d = d_tlb (v_d v)" using 2(4) by (auto simp: takes_def)
    have "vm_owners v'" unfolding eq by (rule owners_kern) (use inv d in \<open>simp_all add: vinv_def\<close>)
    moreover have "tlb_ok v'" using inv d(4) unfolding eq by (simp add: vinv_def tlb_ok_def)
    ultimately show ?thesis using d(3) eq by (simp add: vinv_def)
  qed
next
  case (VFreeK p d)
  have ok: "map_ok (v_d v)" "p \<in> used (v_d v)" using inv VFreeK(2) by (auto simp: vinv_def vm_owners_def)
  then have p: "p < 2 ^ 17" by (auto simp: map_ok_def bitmap_set_def)
  then have "KVADDR_TO_PADDR (PADDR_TO_KVADDR (p * 4096)) div 4096 = p" by simp
  with VFreeK(3) obtain b where b: "bitmap_unmark (freephys_map (v_d v)) p = Some b" "d = (v_d v)\<lparr>freephys_map := b\<rparr>"
    by (auto simp: free_kpages_def elim!: bind_SomeE)
  from unmark_fits [OF _ ok(2)] ok(1) b have d: "used d = used (v_d v) - {p}" "map_ok d" by (auto simp: map_ok_def)
  have "as_pages x \<subseteq> used d" "as_pages x \<inter> (v_kern v - {p}) = {}" if "v_as v j = Some x" for j x
    using inv that VFreeK(2) d(1) unfolding vinv_def vm_owners_def by blast+
  then have "vm_owners v'" using inv d(1) VFreeK(2) unfolding VFreeK(1) vinv_def vm_owners_def by auto
  moreover have "tlb_ok v'" using inv b(2) unfolding VFreeK(1) by (simp add: vinv_def tlb_ok_def)
  ultimately show ?thesis using d(2) VFreeK(1) by (simp add: vinv_def)
qed

lemma mark_loop_Some: "mark_loop j k b = Some b' \<Longrightarrow> bm_fits b \<Longrightarrow> bm_fits b' \<and> nbits b' = nbits b"
proof (induction j k b rule: mark_loop.induct)
  case (2 j k b)
  then obtain c where c: "bitmap_mark b j = Some c" "mark_loop (Suc j) k c = Some b'" by (auto elim: bind_SomeE)
  then have "bm_fits c" "nbits c = nbits b" using 2(3) by (auto simp: bitmap_mark_def bm_fits_def split: prod.split_asm)
  with 2(1) [OF c] show ?case by simp
qed simp

lemma vm_bootstrap_ok:
  assumes call: "vm_bootstrap r d0 = Some (r', d)" and r: "0 < lastpaddr r" "lastpaddr r \<le> 508 * 1024 * 1024" "firstpaddr r < 2 ^ 31"
  shows "map_ok d" and "d_tlb d = d_tlb d0"
proof -
  obtain n where n: "DIVROUNDUP (lastpaddr r) 4096 = n" "0 < n" "n \<le> 130048" "(lastpaddr r - 1) div 4096 < n" using r(1,2) by (simp add: DIVROUNDUP_def)
  obtain bytes where bytes: "DIVROUNDUP n 8 = bytes" "0 < bytes" "bytes \<le> 16256" "n \<le> bytes * 8" using n(2,3) by (simp add: DIVROUNDUP_def)
  obtain p where p: "DIVROUNDUP bytes 4096 = p" "0 < p" "p \<le> 4" using bytes(2,3) by (simp add: DIVROUNDUP_def)
  let ?b = "\<lparr>nbits = n, bm_v = replicate bytes (0 :: 8 word)\<rparr>" and ?first = "(firstpaddr r + p * 4096) div 4096"
  have first: "(firstpaddr r + p * 4096) mod 2 ^ 32 div 4096 = ?first" using r(3) p(3) by simp
  have last: "u32 (int (lastpaddr r) - 1) div 4096 = (lastpaddr r - 1) div 4096" using r(1,2) by (simp add: u32_def nat_diff_distrib)
  from call obtain b where b: "mark_loop 0 ?first ?b = Some b" "d = d0\<lparr>freephys_map := b, firstpage := ?first, lastpage := (lastpaddr r - 1) div 4096\<rparr>"
    unfolding vm_bootstrap_def ram_getsize_def n(1) Let_def prod.case bytes(1) p(1) first last by (auto simp del: mark_loop.simps elim!: bind_SomeE)
  have "bm_fits ?b" using bytes(4) by (simp add: bm_fits_def)
  from mark_loop_Some [OF b(1) this] have "bm_fits b" "nbits b = n" by simp_all
  moreover have "0 < ?first" using p(2) by simp
  ultimately show "map_ok d" using b(2) n(3,4) by (simp add: map_ok_def)
  show "d_tlb d = d_tlb d0" using b(2) by simp
qed

lemma vreachable_inv: "vreachable v \<Longrightarrow> vinv v"
proof (induction rule: vreachable.induct)
  case (VBoot r d0 r' d)
  note ok = vm_bootstrap_ok [OF VBoot(1-4)]
  then show ?case using VBoot(5,6) by (simp add: vinv_def vm_owners_def tlb_ok_def)
next
  case (VStep v v')
  then show ?case using vstep_inv by blast
qed

section \<open>Properties\<close>

text \<open>C25: Isolation. In every state that processes and the kernel reach from boot, a physical page has at most one owner: no
  page belongs to two address spaces, or to an address space and the kernel, and every page that has an owner is marked
  in the map, so it cannot be handed out again. Whatever the processor translates while an address space is
  active leads to a page of this address space, to the page that the regions of the address space say.\<close>

theorem dumbvm_isolation:
  assumes "vreachable v"
  shows "(\<forall>i j as as'. i \<noteq> j \<longrightarrow> v_as v i = Some as \<longrightarrow> v_as v j = Some as' \<longrightarrow> as_pages as \<inter> as_pages as' = {}) \<and>
    (\<forall>i as. v_as v i = Some as \<longrightarrow> as_pages as \<inter> v_kern v = {} \<and> as_pages as \<union> v_kern v \<subseteq> used (v_d v)) \<and>
    (\<forall>i va pa w. v_cur v = Some i \<longrightarrow> tlb_translate (d_tlb (v_d v)) va = Some (pa, w) \<longrightarrow>
       (\<exists>as. v_as v i = Some as \<and> fault_paddr as (frame va) = Some pa \<and> pa div 4096 \<in> as_pages as))"
proof -
  have inv: "vinv v" by (rule vreachable_inv [OF assms])
  have "\<exists>as. v_as v i = Some as \<and> fault_paddr as (frame va) = Some pa \<and> pa div 4096 \<in> as_pages as"
    if cur: "v_cur v = Some i" and tr: "tlb_translate (d_tlb (v_d v)) va = Some (pa, w)" for i va pa w
  proof -
    from tr obtain k where k: "TLB_Probe va (d_tlb (v_d v)) = Some k" "snd (d_tlb (v_d v) ! k) AND 0x200 \<noteq> 0" "pa = frame (snd (d_tlb (v_d v) ! k))"
      by (auto simp: tlb_translate_def Let_def elim!: bind_SomeE split: if_split_asm)
    note hit = TLB_Probe_Some [OF k(1)]
    with k(2) have "valid_entry (d_tlb (v_d v)) k" by (simp add: valid_entry_def)
    with inv cur obtain as where as: "v_as v i = Some as" "as_ready as" "entry_for as (d_tlb (v_d v) ! k)" by (auto simp: vinv_def tlb_ok_def)
    have al: "frame va mod 4096 = 0" using frame_fixed [of "frame va"] by simp
    have pa: "fault_paddr as (frame va) = Some pa" using as(3) hit k(3) by (simp add: entry_for_def)
    from fault_paddr_page [OF as(2) as_low [OF inv as(1)] al pa] show ?thesis using as(1) pa by (intro exI [of _ as]) simp
  qed
  then show ?thesis using inv unfolding vinv_def vm_owners_def by auto
qed

lemma translate_iff:
  assumes "tlb_unique t"
  shows "tlb_translate t va = Some (pa, w) \<longleftrightarrow>
    (\<exists>k. valid_entry t k \<and> frame (fst (t ! k)) = frame va \<and> pa = frame (snd (t ! k)) \<and> w = (snd (t ! k) AND TLBLO_DIRTY \<noteq> 0))"
proof -
  have "tlb_translate t va = Some (pa, w) \<longleftrightarrow>
      (\<exists>k. TLB_Probe va t = Some k \<and> snd (t ! k) AND 0x200 \<noteq> 0 \<and> pa = frame (snd (t ! k)) \<and> w = (snd (t ! k) AND 0x400 \<noteq> 0))"
    by (auto simp: tlb_translate_def Let_def elim!: bind_SomeE split: if_split_asm)
  then show ?thesis unfolding TLB_Probe_unique [OF assms] valid_entry_def by auto
qed

lemma translate_fill:
  assumes u: "tlb_unique t" and u': "tlb_unique (t[j := (frame fa, lo)])" and j: "j < length t" "\<not> valid_entry t j"
    and lo: "lo AND 0x200 \<noteq> 0" "lo AND 0x400 \<noteq> 0"
  shows "tlb_translate (t[j := (frame fa, lo)]) va = (if frame va = frame fa then Some (frame lo, True) else tlb_translate t va)"
proof -
  let ?t = "t[j := (frame fa, lo)]"
  have val: "valid_entry ?t k \<longleftrightarrow> k = j \<or> valid_entry t k" for k using j lo(1) by (auto simp: valid_entry_def nth_list_update)
  have eq: "tlb_translate ?t va = Some (pa, w) \<longleftrightarrow> frame va = frame fa \<and> pa = frame lo \<and> w \<or> frame va \<noteq> frame fa \<and> tlb_translate t va = Some (pa, w)" for pa w
  proof (cases "frame va = frame fa")
    case True
    have "k = j" if "valid_entry ?t k" "frame (fst (?t ! k)) = frame va" for k
      using u' that True j(1) unfolding tlb_unique_def valid_entry_def by (metis fst_conv frame_frame length_list_update nth_list_update_eq)
    moreover have "valid_entry ?t j" "?t ! j = (frame fa, lo)" using j val by simp_all
    ultimately show ?thesis unfolding translate_iff [OF u'] using True lo(2) by (metis fst_conv snd_conv frame_frame)
  next
    case False
    have "?t ! k = t ! k" if "valid_entry t k" for k using that j(2) by (metis nth_list_update_neq)
    moreover have "frame (fst (?t ! j)) \<noteq> frame va" using j(1) False by simp
    ultimately show ?thesis unfolding translate_iff [OF u'] translate_iff [OF u] val using False by metis
  qed
  show ?thesis using eq by (cases "tlb_translate ?t va"; cases "tlb_translate t va") (auto split: if_split_asm)
qed

lemma vm_fault_entry:
  assumes ready: "as_ready as" and low: "\<forall>p \<in> as_pages as. p < 2 ^ 17" and len: "length (d_tlb s) = 64" and u: "tlb_unique (d_tlb s)"
    and probe: "TLB_Probe fa (d_tlb s) = None" and ft: "ft = VM_FAULT_READ \<or> ft = VM_FAULT_WRITE"
  shows "\<exists>r s'. vm_fault ft fa (Some as) s = Some (r, s') \<and> d_spl s' = d_spl s \<and> tlb_unique (d_tlb s') \<and>
      (case r of
         Inr _ \<Rightarrow> \<exists>pa. fault_paddr as (frame fa) = Some pa \<and>
           (\<forall>va. tlb_translate (d_tlb s') va = (if frame va = frame fa then Some (pa, True) else tlb_translate (d_tlb s) va))
       | Inl e \<Rightarrow> e = EFAULT \<and> s' = s \<and> (fault_paddr as (frame fa) = None \<or> (\<forall>j < 64. valid_entry (d_tlb s) j)))"
proof -
  from vm_fault_ok [OF ready low len ft, of fa] show ?thesis
  proof
    assume "\<exists>pa j lo. fault_paddr as (frame fa) = Some pa \<and> j < 64 \<and> \<not> valid_entry (d_tlb s) j \<and> frame lo = pa \<and> lo AND 0x200 \<noteq> 0 \<and>
      lo AND 0x400 \<noteq> 0 \<and> vm_fault ft fa (Some as) s = Some (Inr (), s\<lparr>d_tlb := (d_tlb s)[j := (frame fa, lo)]\<rparr>)"
    then obtain pa j lo where x: "fault_paddr as (frame fa) = Some pa" "j < 64" "\<not> valid_entry (d_tlb s) j" "frame lo = pa" "lo AND 0x200 \<noteq> 0"
      "lo AND 0x400 \<noteq> 0" "vm_fault ft fa (Some as) s = Some (Inr (), s\<lparr>d_tlb := (d_tlb s)[j := (frame fa, lo)]\<rparr>)" by blast
    have u': "tlb_unique ((d_tlb s)[j := (frame fa, lo)])" by (rule unique_fill [OF u probe])
    have j: "j < length (d_tlb s)" using x(2) len by simp
    note tr = translate_fill [OF u u' j x(3,5,6)]
    show ?thesis using x(1,4,7) u' tr by simp
  qed (use u in simp)
qed

text \<open>C26: The fault handler, for every kind of fault. A fault on a read-only page panics, and a kind of fault that is none of the three
  gives \<^verbatim>\<open>EINVAL\<close> and changes nothing, whether or not there is an address space. For a read or write fault:
  a thread without an address space gets \<^verbatim>\<open>EFAULT\<close> with interrupts left off; an address space that has not been set up properly fails an
  assertion; and a page of an address space that has been set up gets the one translation that the
  regions say, writable, and no other translation changes; the buffer never gets two entries for a page. When the page is in no region, or
  when all 64 entries are in use, the result is \<^verbatim>\<open>EFAULT\<close> and nothing changes; interrupts are as before the call.\<close>

theorem vm_fault_correct:
  assumes "\<forall>p \<in> as_pages as. p < 2 ^ 17" and "length (d_tlb s) = 64" and "tlb_unique (d_tlb s)" and "TLB_Probe fa (d_tlb s) = None"
  shows "vm_fault VM_FAULT_READONLY fa vmspace s = None \<and> vm_fault Other_Fault fa vmspace s = Some (Inl EINVAL, s) \<and>
    (ft = VM_FAULT_READ \<or> ft = VM_FAULT_WRITE \<longrightarrow>
      vm_fault ft fa None s = Some (Inl EFAULT, s\<lparr>d_spl := True\<rparr>) \<and>
      (\<not> as_ready as \<longrightarrow> vm_fault ft fa (Some as) s = None) \<and>
      (as_ready as \<longrightarrow> (\<exists>r s'. vm_fault ft fa (Some as) s = Some (r, s') \<and> d_spl s' = d_spl s \<and> tlb_unique (d_tlb s') \<and>
        (case r of
           Inr _ \<Rightarrow> \<exists>pa. fault_paddr as (frame fa) = Some pa \<and>
             (\<forall>va. tlb_translate (d_tlb s') va = (if frame va = frame fa then Some (pa, True) else tlb_translate (d_tlb s) va))
         | Inl e \<Rightarrow> e = EFAULT \<and> s' = s \<and> (fault_paddr as (frame fa) = None \<or> (\<forall>j < 64. valid_entry (d_tlb s) j))))))"
proof -
  have kind: "vm_fault VM_FAULT_READONLY fa vmspace s = None" "vm_fault Other_Fault fa vmspace s = Some (Inl EINVAL, s)"
    by (simp_all add: vm_fault_def)
  have bad: "vm_fault ft fa None s = Some (Inl EFAULT, s\<lparr>d_spl := True\<rparr>)" "\<not> as_ready as \<Longrightarrow> vm_fault ft fa (Some as) s = None"
    if "ft = VM_FAULT_READ \<or> ft = VM_FAULT_WRITE" using that by (auto simp: vm_fault_def)
  show ?thesis by (intro conjI impI kind bad vm_fault_entry [OF _ assms]) assumption+
qed

lemma region_mem:
  assumes "p mod 4096 = 0" and "p \<noteq> 0"
  shows "p \<le> a \<and> a < p + n * 4096 \<longleftrightarrow> a div 4096 \<in> region_pages p n"
proof -
  obtain q where q: "p = q * 4096" using assms(1) by (auto simp: mod_eq_0_iff_dvd dvd_def mult.commute)
  with assms(2) have "region_pages p n = {q..<q + n}" by (simp add: region_pages_def)
  moreover have "q * 4096 \<le> a \<longleftrightarrow> q \<le> a div 4096" "a < q * 4096 + n * 4096 \<longleftrightarrow> a div 4096 < q + n"
    by (simp_all add: less_eq_div_iff_mult_less_eq div_less_iff_less_mult algebra_simps)
  ultimately show ?thesis using q by simp
qed

text \<open>One region of a copy: the bytes of the source, which lies in other pages.\<close>

lemma memmove_region:
  assumes p: "p mod 4096 = 0" "p \<noteq> 0"
  shows "a div 4096 \<notin> region_pages p n \<Longrightarrow> memmove_phys p src (n * 4096) m a = m a"
    and "x < n * 4096 \<Longrightarrow> memmove_phys p src (n * 4096) m (p + x) = m (src + x)"
  using region_mem [OF p, of a n] by (auto simp: memmove_phys_def)

lemma in_region:
  assumes "p mod 4096 = 0" and "p \<noteq> 0" and "x < n * 4096"
  shows "(p + x) div 4096 \<in> region_pages p n"
  using region_mem [OF assms(1,2), of "p + x" n] assms(3) by simp

text \<open>Copying an address space, the memory side of \<^verbatim>\<open>fork\<close>. The call returns. When memory runs out the result is \<^verbatim>\<open>ENOMEM\<close>
  and every page that was taken is given back. Otherwise the copy has the same regions in pages that were free and
  are now marked, each byte of the copy equals the byte of the original, and no other byte of memory has changed.\<close>

theorem as_copy_correct:
  assumes ok: "map_ok s" and own: "as_pages old \<subseteq> used s" and p: "as_pieces old" "as_pbase1 old \<noteq> 0" "as_pbase2 old \<noteq> 0" "as_stackpbase old \<noteq> 0"
  shows "\<exists>r s'. as_copy old s = Some (r, s') \<and> (case r of
      Inl e \<Rightarrow> e = ENOMEM \<and> used s' = used s \<and> d_ram s' = d_ram s
    | Inr new \<Rightarrow> as_vbase1 new = as_vbase1 old \<and> as_npages1 new = as_npages1 old \<and> as_vbase2 new = as_vbase2 old \<and> as_npages2 new = as_npages2 old \<and>
        as_pages new \<inter> used s = {} \<and> used s' = used s \<union> as_pages new \<and> as_pieces new \<and>
        (\<forall>x < as_npages1 old * 4096. d_ram s' (as_pbase1 new + x) = d_ram s (as_pbase1 old + x)) \<and>
        (\<forall>x < as_npages2 old * 4096. d_ram s' (as_pbase2 new + x) = d_ram s (as_pbase2 old + x)) \<and>
        (\<forall>x < 12 * 4096. d_ram s' (as_stackpbase new + x) = d_ram s (as_stackpbase old + x)) \<and>
        (\<forall>a. a div 4096 \<notin> as_pages new \<longrightarrow> d_ram s' a = d_ram s a))"
proof -
  from as_copy_ok [OF ok, of old] obtain r s' where call: "as_copy old s = Some (r, s')" and post: "case r of
      Inl e \<Rightarrow> e = ENOMEM \<and> map_ok s' \<and> used s' = used s \<and> d_ram s' = d_ram s
    | Inr new \<Rightarrow> takes (s\<lparr>d_mem := d_mem s', d_ram := d_ram s'\<rparr>) (as_pages new) s' \<and> as_pieces new \<and> as_vbase1 new = as_vbase1 old \<and> as_npages1 new = as_npages1 old \<and>
        as_vbase2 new = as_vbase2 old \<and> as_npages2 new = as_npages2 old \<and> as_pbase1 new \<noteq> 0 \<and> as_pbase2 new \<noteq> 0 \<and> as_stackpbase new \<noteq> 0 \<and>
        d_ram s' = memmove_phys (as_stackpbase new) (as_stackpbase old) (12 * 4096)
          (memmove_phys (as_pbase2 new) (as_pbase2 old) (as_npages2 old * 4096)
            (memmove_phys (as_pbase1 new) (as_pbase1 old) (as_npages1 old * 4096) (d_ram s)))" by blast
  show ?thesis
  proof (cases r)
    case (Inl e)
    with call post show ?thesis by auto
  next
    case (Inr new)
    let ?P = "region_pages (as_pbase1 new) (as_npages1 old)" and ?Q = "region_pages (as_pbase2 new) (as_npages2 old)" and ?R = "region_pages (as_stackpbase new) 12"
    let ?m1 = "memmove_phys (as_pbase1 new) (as_pbase1 old) (as_npages1 old * 4096) (d_ram s)"
    let ?m2 = "memmove_phys (as_pbase2 new) (as_pbase2 old) (as_npages2 old * 4096) ?m1"
    have new: "as_pieces new" "as_pbase1 new \<noteq> 0" "as_pbase2 new \<noteq> 0" "as_stackpbase new \<noteq> 0" "as_npages1 new = as_npages1 old" "as_npages2 new = as_npages2 old"
      "as_vbase1 new = as_vbase1 old" "as_vbase2 new = as_vbase2 old" "as_pages new \<inter> used s = {}" "used s' = used s \<union> as_pages new"
      "d_ram s' = memmove_phys (as_stackpbase new) (as_stackpbase old) (12 * 4096) ?m2"
      using post Inr by (simp_all add: takes_def)
    have pages: "as_pages new = ?P \<union> ?Q \<union> ?R" using new(5,6) by (simp add: as_pages_def)
    have al: "as_pbase1 new mod 4096 = 0" "as_pbase2 new mod 4096 = 0" "as_stackpbase new mod 4096 = 0" "?P \<inter> ?Q = {}" "(?P \<union> ?Q) \<inter> ?R = {}"
      using new(1,5,6) by (simp_all add: as_pieces_def)
    have alo: "as_pbase1 old mod 4096 = 0" "as_pbase2 old mod 4096 = 0" "as_stackpbase old mod 4096 = 0" using p(1) by (simp_all add: as_pieces_def)
    have old: "region_pages (as_pbase1 old) (as_npages1 old) \<subseteq> used s" "region_pages (as_pbase2 old) (as_npages2 old) \<subseteq> used s" "region_pages (as_stackpbase old) 12 \<subseteq> used s"
      using own by (auto simp: as_pages_def)
    note m1 = memmove_region [OF al(1) new(2), of _ "as_npages1 old" "as_pbase1 old" "d_ram s"]
    note m2 = memmove_region [OF al(2) new(3), of _ "as_npages2 old" "as_pbase2 old" ?m1]
    note m3 = memmove_region [OF al(3) new(4), of _ 12 "as_stackpbase old" ?m2]
    have "d_ram s' (as_pbase1 new + x) = d_ram s (as_pbase1 old + x)" if x: "x < as_npages1 old * 4096" for x
      using in_region [OF al(1) new(2) x] al(4,5) m1(2) [OF x] m2(1) m3(1) unfolding new(11) by (metis IntI UnI1 empty_iff)
    moreover have "d_ram s' (as_pbase2 new + x) = d_ram s (as_pbase2 old + x)" if x: "x < as_npages2 old * 4096" for x
    proof -
      have "(as_pbase2 old + x) div 4096 \<notin> ?P" using in_region [OF alo(2) p(3) x] old(2) new(9) pages by blast
      then show ?thesis using in_region [OF al(2) new(3) x] al(5) m1(1) m2(2) [OF x] m3(1) unfolding new(11) by (metis IntI UnI2 empty_iff)
    qed
    moreover have "d_ram s' (as_stackpbase new + x) = d_ram s (as_stackpbase old + x)" if x: "x < 12 * 4096" for x
    proof -
      have "(as_stackpbase old + x) div 4096 \<notin> ?P \<union> ?Q" using in_region [OF alo(3) p(4) x] old(3) new(9) pages by blast
      then show ?thesis using m1(1) m2(1) m3(2) [OF x] unfolding new(11) by simp
    qed
    moreover have "d_ram s' a = d_ram s a" if "a div 4096 \<notin> as_pages new" for a
      using that m1(1) m2(1) m3(1) unfolding new(11) pages by simp
    ultimately show ?thesis using call Inr new by auto
  qed
qed

text \<open>C27: \<^verbatim>\<open>getppages\<close> is first fit: it returns the lowest run of as many free pages as asked for, marks exactly these, and returns
  0 only if there is no such run.\<close>

theorem getppages_correct:
  assumes "map_ok s" and "0 < n"
  shows "\<exists>pa s'. getppages n s = Some (pa, s') \<and> map_ok s' \<and>
    (if \<exists>p. free_run s n p then pa = (LEAST p. free_run s n p) * 4096 \<and> used s' = used s \<union> {pa div 4096..<pa div 4096 + n} else pa = 0 \<and> s' = s)"
  using getppages_ok [OF assms]
proof
  assume "\<exists>p b. getppages n s = Some (p * 4096, s\<lparr>freephys_map := b\<rparr>) \<and> free_run s n p \<and> (\<forall>q < p. \<not> free_run s n q) \<and>
      map_ok (s\<lparr>freephys_map := b\<rparr>) \<and> nbits b = nbits (freephys_map s) \<and> bitmap_set b = used s \<union> {p..<p + n}"
  then obtain p b where p: "getppages n s = Some (p * 4096, s\<lparr>freephys_map := b\<rparr>)" "free_run s n p" "\<forall>q < p. \<not> free_run s n q"
    "map_ok (s\<lparr>freephys_map := b\<rparr>)" "bitmap_set b = used s \<union> {p..<p + n}" by blast
  have "(LEAST p. free_run s n p) = p" using p(2,3) by (intro Least_equality) (auto simp: not_less [symmetric])
  with p show ?thesis by (intro exI [of _ "p * 4096"] exI [of _ "s\<lparr>freephys_map := b\<rparr>"]) auto
qed (use assms in auto)

text \<open>A machine with 64 pages, of which the first 15 are in use: page 0, and one loaded address space.\<close>

definition demo_as :: addrspace where
  "demo_as = \<lparr>as_vbase1 = 0x400000, as_pbase1 = 0x1000, as_npages1 = 1, as_vbase2 = 0x10000000, as_pbase2 = 0x2000, as_npages2 = 1, as_stackpbase = 0x3000\<rparr>"

definition demo_vm :: dumbvm where
  "demo_vm = \<lparr>freephys_map = \<lparr>nbits = 64, bm_v = [0xff, 0x7f, 0, 0, 0, 0, 0, 0]\<rparr>, firstpage = 1, lastpage = 63,
     d_tlb = map (\<lambda>i. (TLBHI_INVALID i, 0)) [0..<64], d_ram = (\<lambda>a. of_nat a), d_mem = [], d_spl = False\<rparr>"

lemma demo_map_ok: "map_ok demo_vm"
  by (simp add: map_ok_def demo_vm_def bm_fits_def)

lemma demo_vm_used: "{0..<15} \<subseteq> used demo_vm"
proof
  fix i :: nat assume "i \<in> {0..<15}"
  then have i: "i < 15" by simp
  have m: "(0xff :: 8 word) = mask 8" "(0x7f :: 8 word) = mask 7" by (simp_all add: mask_numeral)
  have "bm_bit (freephys_map demo_vm) i"
  proof (cases "i < 8")
    case True
    then show ?thesis by (simp add: bm_bit_def demo_vm_def m(1) bit_mask_iff)
  next
    case False
    with i have "i = 8 + (i - 8)" "i - 8 < 7" by simp_all
    then have "i div 8 = 1" "i mod 8 < 7" by (auto simp: mod_if)
    then show ?thesis by (simp add: bm_bit_def demo_vm_def m(2) bit_mask_iff)
  qed
  then show "i \<in> used demo_vm" using i by (simp add: bitmap_set_def demo_vm_def)
qed

lemma demo_as_pages: "as_pages demo_as = {1..<15}" and demo_as_pieces: "as_pieces demo_as"
  by (auto simp: as_pages_def as_pieces_def region_pages_def demo_as_def)

lemma demo_as_ready: "as_ready demo_as"
  by (simp add: as_ready_def demo_as_def frame_fixed)

lemma demo_tlb: "length (d_tlb demo_vm) = 64" "tlb_unique (d_tlb demo_vm)" "\<not> valid_entry (d_tlb demo_vm) k" "TLB_Probe 0x400000 (d_tlb demo_vm) = None"
proof -
  have n: "length (d_tlb demo_vm) = 64" "\<forall>j < 64. d_tlb demo_vm ! j = (TLBHI_INVALID j, 0)" by (simp_all add: demo_vm_def del: upt.simps)
  have f: "frame (TLBHI_INVALID j) = (0x80000 + j) * 4096" if "j < 64" for j using that by (simp add: TLBHI_INVALID_def frame_eq)
  show "length (d_tlb demo_vm) = 64" by (rule n(1))
  show u: "tlb_unique (d_tlb demo_vm)" using n f by (simp add: tlb_unique_def)
  show "\<not> valid_entry (d_tlb demo_vm) k" using n by (simp add: valid_entry_def)
  have "frame 0x400000 = 0x400000" by (simp add: frame_fixed)
  then show "TLB_Probe 0x400000 (d_tlb demo_vm) = None" using n f by (simp add: TLB_Probe_None [OF u])
qed

theorem vm_fault_correct_witness: "vm_fault VM_FAULT_READ 0x400000 None demo_vm = Some (Inl EFAULT, demo_vm\<lparr>d_spl := True\<rparr>) \<and>
    vm_fault Other_Fault 0x400000 (Some demo_as) demo_vm = Some (Inl EINVAL, demo_vm) \<and>
    (\<exists>r s'. vm_fault VM_FAULT_READ 0x400000 (Some demo_as) demo_vm = Some (r, s') \<and> d_spl s' = False)"
proof -
  have "\<forall>p \<in> as_pages demo_as. p < 2 ^ 17" by (simp add: demo_as_pages)
  from vm_fault_correct [OF this demo_tlb(1,2,4), of "Some demo_as" VM_FAULT_READ] demo_as_ready show ?thesis by (auto simp: demo_vm_def)
qed

theorem as_copy_correct_witness: "\<exists>r s'. as_copy demo_as demo_vm = Some (r, s') \<and> (\<forall>new. r = Inr new \<longrightarrow> as_pages new \<inter> {0..<15} = {})"
proof -
  have "as_pages demo_as \<subseteq> used demo_vm" using demo_vm_used by (auto simp: demo_as_pages)
  from as_copy_correct [OF demo_map_ok this demo_as_pieces] demo_vm_used show ?thesis by (auto simp: demo_as_def) fastforce+
qed

theorem getppages_correct_witness: "\<exists>pa s'. getppages 2 demo_vm = Some (pa, s') \<and> map_ok s'"
  using getppages_correct [OF demo_map_ok, of 2] by auto

theorem dumbvm_isolation_witness: "\<exists>v as. vreachable v \<and> v_cur v = Some 0 \<and> v_as v 0 = Some as \<and> as_pages as \<inter> v_kern v = {}"
proof -
  let ?r = "\<lparr>firstpaddr = 0x1000, lastpaddr = 0x10000\<rparr>"
  let ?b = "\<lparr>nbits = 16, bm_v = [0, 0]\<rparr>"
  have "bm_v ?b ! (i div 8) = 0" if "i < 16" for i using that by (cases "i < 8") (auto simp: nth_Cons')
  then have "bitmap_set ?b = {}" by (auto simp: bitmap_set_def bm_bit_def)
  with mark_loop_ok [of ?b 0 2] obtain b where "mark_loop 0 2 ?b = Some b" by (auto simp: bm_fits_def)
  moreover have calc: "DIVROUNDUP 0x10000 4096 = 16" "DIVROUNDUP 16 8 = 2" "DIVROUNDUP 2 4096 = 1" by (simp_all add: DIVROUNDUP_def)
  moreover have "replicate 2 (0 :: 8 word) = [0, 0]" by (simp add: numeral_2_eq_2)
  ultimately obtain r' d where "vm_bootstrap ?r demo_vm = Some (r', d)"
    by (simp add: vm_bootstrap_def ram_getsize_def del: mark_loop.simps)
  from vreachable.VBoot [OF this] have 1: "vreachable \<lparr>v_d = d, v_as = Map.empty, v_cur = None, v_kern = {}\<rparr>" (is "vreachable ?v")
    using demo_tlb by simp
  show ?thesis
  proof (cases "as_create (v_d ?v)")
    case (Pair a d')
    obtain r where "d_mem d = []" using \<open>vm_bootstrap ?r demo_vm = Some (r', d)\<close> by (auto simp: vm_bootstrap_def demo_vm_def ram_getsize_def Let_def elim!: bind_SomeE)
    with Pair obtain as where as: "a = Some as" by (auto simp: as_create_def)
    let ?w = "?v\<lparr>v_d := d', v_as := (v_as ?v)(0 \<mapsto> as)\<rparr>"
    have "vreachable ?w" by (rule vreachable.VStep [OF 1 vstep.VCreate]) (use Pair as in simp_all)
    from vreachable.VStep [OF this vstep.VActivate, of 0 as] have w: "vreachable (?w\<lparr>v_d := as_activate (v_d ?w), v_cur := Some 0\<rparr>)" by simp
    from dumbvm_isolation [OF w] w show ?thesis by (intro exI [of _ "?w\<lparr>v_d := as_activate (v_d ?w), v_cur := Some 0\<rparr>"] exI [of _ as]) simp
  qed
qed

end
