(* ===== verification/K_Kheap.thy ===== *)
theory K_Kheap
  imports K_Dumbvm
begin

text \<open>
  The kernel heap, \<^verbatim>\<open>kern/lib/kheap.c\<close>: a subpage allocator with one free list per page, over the pages that the VM
  system hands out.

  Pages come from a table of functions, \<open>kpages\<close>; the locale \<open>page_source\<close> states what the heap needs of it, and \<^verbatim>\<open>dumbvm.c\<close>
  is an instance. The structures of the heap are as in the code: page references in a static array, with a word of use
  bits for each 32 of them, linked by indices into two kinds of lists, and free lists that run through the free blocks
  themselves (\<open>h_mem\<close> is the memory, a word per aligned address). A list walk has fuel, one more than there can be elements.
\<close>

section \<open>The code\<close>

record 'w kpages =
  kp_alloc :: "int \<Rightarrow> 'w \<Rightarrow> (nat \<times> 'w) option"
  kp_free :: "nat \<Rightarrow> 'w \<Rightarrow> 'w option"
  opt_dumbvm :: bool

abbreviation (input) NSIZES :: nat where "NSIZES \<equiv> 8"
abbreviation (input) LARGEST_SUBPAGE_SIZE :: nat where "LARGEST_SUBPAGE_SIZE \<equiv> 2048"
abbreviation (input) INVALID_OFFSET :: nat where "INVALID_OFFSET \<equiv> 0xffff"
abbreviation (input) NPAGEREFS :: nat where "NPAGEREFS \<equiv> 256"
abbreviation (input) INUSE_WORDS :: nat where "INUSE_WORDS \<equiv> 8"

definition sizes :: "nat list" where
  "sizes = [16, 32, 64, 128, 256, 512, 1024, 2048]"

record pageref =
  next_samesize :: "nat option"
  next_all :: "nat option"
  pageaddr_and_blocktype :: nat
  freelist_offset :: nat
  nfree :: nat

record 'w kheap =
  pagerefs :: "pageref list"
  pagerefs_inuse :: "32 word list"
  sizebases :: "nat option list"
  allbase :: "nat option"
  h_mem :: "nat \<Rightarrow> nat"
  h_w :: 'w

definition PR_PAGEADDR :: "pageref \<Rightarrow> nat" where
  "PR_PAGEADDR pr = frame (pageaddr_and_blocktype pr)"

definition PR_BLOCKTYPE :: "pageref \<Rightarrow> nat" where
  "PR_BLOCKTYPE pr = pageaddr_and_blocktype pr AND 0xfff"

definition MKPAB :: "nat \<Rightarrow> nat \<Rightarrow> nat" where
  "MKPAB pa blk = frame pa OR (blk AND 0xfff)"

text \<open>The value that a \<^verbatim>\<open>u_int16_t\<close> takes.\<close>

definition u16 :: "int \<Rightarrow> nat" where
  "u16 x = nat (x mod 2 ^ 16)"

definition ptr :: "nat \<Rightarrow> nat option" where
  "ptr a = (if a = 0 then None else Some a)"

abbreviation put_pr :: "nat \<Rightarrow> pageref \<Rightarrow> 'w kheap \<Rightarrow> 'w kheap" where
  "put_pr i pr h \<equiv> h\<lparr>pagerefs := (pagerefs h)[i := pr]\<rparr>"

fun fill_words :: "nat \<Rightarrow> nat \<Rightarrow> (nat \<Rightarrow> nat) \<Rightarrow> nat \<Rightarrow> nat" where
  "fill_words a 0 m = m"
| "fill_words a (Suc k) m = fill_words (a + 4) k (m(a := 0xdeadbeef))"

definition fill_deadbeef :: "nat \<Rightarrow> nat \<Rightarrow> (nat \<Rightarrow> nat) \<Rightarrow> nat \<Rightarrow> nat" where
  "fill_deadbeef vptr len m = fill_words vptr (len div 4) m"

text \<open>The inner loop of \<^verbatim>\<open>allocpageref\<close>, over the bits of a word, and the outer one, over the words.\<close>

fun inuse_bit :: "32 word \<Rightarrow> nat \<Rightarrow> nat \<Rightarrow> nat option" where
  "inuse_bit w j 0 = None"
| "inuse_bit w j (Suc n) = (if w AND push_bit j 1 = 0 then Some j else inuse_bit w (Suc j) n)"

fun inuse_words :: "nat \<Rightarrow> nat \<Rightarrow> 32 word list \<Rightarrow> (nat option \<times> 32 word list) option" where
  "inuse_words i 0 ws = Some (None, ws)"
| "inuse_words i (Suc n) ws =
     (if ws ! i = 0xffffffff then inuse_words (Suc i) n ws
      else do {
        j \<leftarrow> inuse_bit (ws ! i) 0 32;
        Some (Some (i * 32 + j), ws[i := ws ! i OR push_bit j 1])
      })"

definition allocpageref :: "'w kheap \<Rightarrow> (nat option \<times> 'w kheap) option" where
  "allocpageref h = do {
     (p, ws) \<leftarrow> inuse_words 0 INUSE_WORDS (pagerefs_inuse h);
     Some (p, h\<lparr>pagerefs_inuse := ws\<rparr>)
   }"

definition freepageref :: "nat \<Rightarrow> 'w kheap \<Rightarrow> 'w kheap option" where
  "freepageref j h = do {
     kassert (j < NPAGEREFS);
     let i = j div 32;
     let k = push_bit (j mod 32) 1;
     kassert (pagerefs_inuse h ! i AND k \<noteq> 0);
     Some (h\<lparr>pagerefs_inuse := (pagerefs_inuse h)[i := pagerefs_inuse h ! i AND NOT k]\<rparr>)
   }"

text \<open>One loop of \<^verbatim>\<open>remove_lists\<close>: \<open>guy\<close> is the content of the pointer cell; the result is its new content. \<open>nx\<close> and \<open>upd\<close>
  read and write the link.\<close>

fun unlink :: "nat \<Rightarrow> (pageref \<Rightarrow> nat option) \<Rightarrow> (nat option \<Rightarrow> pageref \<Rightarrow> pageref) \<Rightarrow> nat \<Rightarrow> nat option \<Rightarrow> pageref list \<Rightarrow> (nat option \<times> pageref list) option" where
  "unlink 0 nx upd pr guy prs = None"
| "unlink (Suc k) nx upd pr guy prs =
     (case guy of
        None \<Rightarrow> Some (None, prs)
      | Some g \<Rightarrow>
          if g = pr then Some (nx (prs ! pr), prs)
          else do {
            (n, prs) \<leftarrow> unlink k nx upd pr (nx (prs ! g)) prs;
            Some (guy, prs[g := upd n (prs ! g)])
          })"

definition remove_lists :: "nat \<Rightarrow> nat \<Rightarrow> 'w kheap \<Rightarrow> 'w kheap option" where
  "remove_lists pr blktype h = do {
     kassert (blktype < NSIZES);
     (b, prs) \<leftarrow> unlink (Suc NPAGEREFS) next_samesize (\<lambda>n. next_samesize_update (\<lambda>_. n)) pr (sizebases h ! blktype) (pagerefs h);
     (a, prs) \<leftarrow> unlink (Suc NPAGEREFS) next_all (\<lambda>n. next_all_update (\<lambda>_. n)) pr (allbase h) prs;
     Some (h\<lparr>sizebases := (sizebases h)[blktype := b], allbase := a, pagerefs := prs\<rparr>)
   }"

fun blocktype_from :: "nat \<Rightarrow> nat \<Rightarrow> nat list \<Rightarrow> nat option" where
  "blocktype_from sz i [] = None"
| "blocktype_from sz i (s # ss) = (if sz \<le> s then Some i else blocktype_from sz (Suc i) ss)"

definition blocktype :: "nat \<Rightarrow> nat option" where
  "blocktype sz = blocktype_from sz 0 sizes"

text \<open>The part of \<^verbatim>\<open>subpage_kmalloc\<close> from the label \<^verbatim>\<open>doalloc\<close> on.\<close>

definition doalloc :: "nat \<Rightarrow> 'w kheap \<Rightarrow> (nat \<times> 'w kheap) option" where
  "doalloc i h = do {
     let pr = pagerefs h ! i;
     kassert (freelist_offset pr < PAGE_SIZE);
     let prpage = PR_PAGEADDR pr;
     let fla = prpage + freelist_offset pr;
     let fl = h_mem h fla;
     let n = u16 (int (nfree pr) - 1);
     if fl \<noteq> 0 then do {
       kassert (n > 0);
       kassert (u32 (int fl - int prpage) < PAGE_SIZE);
       Some (fla, put_pr i (pr\<lparr>nfree := n, freelist_offset := u16 (int fl - int prpage)\<rparr>) h)
     }
     else do {
       kassert (n = 0);
       Some (fla, put_pr i (pr\<lparr>nfree := n, freelist_offset := INVALID_OFFSET\<rparr>) h)
     }
   }"

text \<open>The search for a page of the right size with a free block.\<close>

fun find_page :: "nat \<Rightarrow> nat \<Rightarrow> nat option \<Rightarrow> pageref list \<Rightarrow> nat option option" where
  "find_page 0 blktype p prs = None"
| "find_page (Suc k) blktype p prs =
     (case p of
        None \<Rightarrow> Some None
      | Some i \<Rightarrow> do {
          kassert (PR_BLOCKTYPE (prs ! i) = blktype);
          if nfree (prs ! i) > 0 then Some (Some i) else find_page k blktype (next_samesize (prs ! i)) prs
        })"

text \<open>The loop that threads the free list through a fresh page: block \<open>i\<close> points to block \<open>i - 1\<close>.\<close>

fun thread_list :: "nat \<Rightarrow> nat \<Rightarrow> nat \<Rightarrow> nat \<Rightarrow> (nat \<Rightarrow> nat) \<Rightarrow> nat \<Rightarrow> nat" where
  "thread_list fla sz i 0 m = m"
| "thread_list fla sz i (Suc k) m = thread_list fla sz (Suc i) k (m(fla + i * sz := fla + (i - 1) * sz))"

definition subpage_kmalloc :: "'w kpages \<Rightarrow> nat \<Rightarrow> 'w kheap \<Rightarrow> (nat \<times> 'w kheap) option" where
  "subpage_kmalloc kp sz h = do {
     blktype \<leftarrow> blocktype sz;
     let sz = sizes ! blktype;
     p \<leftarrow> find_page (Suc NPAGEREFS) blktype (sizebases h ! blktype) (pagerefs h);
     case p of
       Some i \<Rightarrow> doalloc i h
     | None \<Rightarrow> do {
         (p, h) \<leftarrow> allocpageref h;
         case p of
           None \<Rightarrow> Some (0, h)
         | Some i \<Rightarrow> do {
             (prpage, w) \<leftarrow> kp_alloc kp 1 (h_w h);
             let h = h\<lparr>h_w := w\<rparr>;
             if prpage = 0 then do { h \<leftarrow> freepageref i h; Some (0, h) }
             else do {
               let n = PAGE_SIZE div sz;
               let m = thread_list prpage sz 1 (n - 1) ((h_mem h)(prpage := 0));
               let pr = \<lparr>next_samesize = sizebases h ! blktype, next_all = allbase h, pageaddr_and_blocktype = MKPAB prpage blktype,
                         freelist_offset = (n - 1) * sz, nfree = n\<rparr>;
               doalloc i ((put_pr i pr h)\<lparr>h_mem := m, sizebases := (sizebases h)[blktype := Some i], allbase := Some i\<rparr>)
             }
           }
       }
   }"

text \<open>The search for the page that an address is in.\<close>

fun find_owner :: "nat \<Rightarrow> nat \<Rightarrow> nat option \<Rightarrow> pageref list \<Rightarrow> nat option option" where
  "find_owner 0 ptraddr p prs = None"
| "find_owner (Suc k) ptraddr p prs =
     (case p of
        None \<Rightarrow> Some None
      | Some i \<Rightarrow> do {
          let prpage = PR_PAGEADDR (prs ! i);
          kassert (PR_BLOCKTYPE (prs ! i) < NSIZES);
          if ptraddr \<ge> prpage \<and> ptraddr < prpage + PAGE_SIZE then Some (Some i) else find_owner k ptraddr (next_all (prs ! i)) prs
        })"

text \<open>False: not a subpage allocation.\<close>

definition subpage_kfree :: "'w kpages \<Rightarrow> nat \<Rightarrow> 'w kheap \<Rightarrow> (bool \<times> 'w kheap) option" where
  "subpage_kfree kp ptraddr h = do {
     p \<leftarrow> find_owner (Suc NPAGEREFS) ptraddr (allbase h) (pagerefs h);
     case p of
       None \<Rightarrow> Some (False, h)
     | Some i \<Rightarrow> do {
         let pr = pagerefs h ! i;
         let prpage = PR_PAGEADDR pr;
         let blktype = PR_BLOCKTYPE pr;
         let offset = ptraddr - prpage;
         kassert (offset < PAGE_SIZE \<and> offset mod (sizes ! blktype) = 0);
         let m = fill_deadbeef ptraddr (sizes ! blktype) (h_mem h);
         let m = m(prpage + offset := (if freelist_offset pr = INVALID_OFFSET then 0 else prpage + freelist_offset pr));
         let pr = pr\<lparr>freelist_offset := offset, nfree := u16 (int (nfree pr) + 1)\<rparr>;
         let h = (put_pr i pr h)\<lparr>h_mem := m\<rparr>;
         kassert (nfree pr \<le> PAGE_SIZE div (sizes ! blktype));
         if nfree pr = PAGE_SIZE div (sizes ! blktype) then do {
           h \<leftarrow> remove_lists i blktype h;
           w \<leftarrow> kp_free kp prpage (h_w h);
           h \<leftarrow> freepageref i (h\<lparr>h_w := w\<rparr>);
           Some (True, h)
         }
         else Some (True, h)
       }
   }"

definition kmalloc_heap :: "'w kpages \<Rightarrow> nat \<Rightarrow> 'w kheap \<Rightarrow> (nat \<times> 'w kheap) option" where
  "kmalloc_heap kp sz h =
     (if sz \<ge> LARGEST_SUBPAGE_SIZE then do {
        let npages = (sz + PAGE_SIZE - 1) mod 2 ^ 32 div PAGE_SIZE;
        if opt_dumbvm kp \<and> npages > 1 then Some (0, h)
        else do {
          (address, w) \<leftarrow> kp_alloc kp (int npages) (h_w h);
          Some (address, h\<lparr>h_w := w\<rparr>)
        }
      }
      else subpage_kmalloc kp sz h)"

definition kfree :: "'w kpages \<Rightarrow> nat \<Rightarrow> 'w kheap \<Rightarrow> 'w kheap option" where
  "kfree kp p h =
     (if p = 0 then Some h
      else do {
        (sub, h) \<leftarrow> subpage_kfree kp p h;
        if sub then Some h
        else do {
          kassert (p mod PAGE_SIZE = 0);
          w \<leftarrow> kp_free kp p (h_w h);
          Some (h\<lparr>h_w := w\<rparr>)
        }
      })"

section \<open>Linked lists\<close>

fun chain :: "('a \<Rightarrow> 'a option) \<Rightarrow> 'a option \<Rightarrow> 'a list \<Rightarrow> bool" where
  "chain nx p [] \<longleftrightarrow> p = None"
| "chain nx p (x # xs) \<longleftrightarrow> p = Some x \<and> chain nx (nx x) xs"

text \<open>The elements of a list, as far as the fuel goes.\<close>

fun walk :: "nat \<Rightarrow> ('a \<Rightarrow> 'a option) \<Rightarrow> 'a option \<Rightarrow> 'a list" where
  "walk 0 nx p = []"
| "walk (Suc k) nx p = (case p of None \<Rightarrow> [] | Some x \<Rightarrow> x # walk k nx (nx x))"

lemma walk_chain: "chain nx p xs \<Longrightarrow> length xs \<le> k \<Longrightarrow> walk k nx p = xs"
proof (induction xs arbitrary: p k)
  case Nil
  then show ?case by (cases k) simp_all
next
  case (Cons x xs)
  then show ?case by (cases k) simp_all
qed

lemma chain_cong:
  assumes "\<And>x. x \<in> set xs \<Longrightarrow> nx x = nx' x"
  shows "chain nx p xs \<longleftrightarrow> chain nx' p xs"
  using assms by (induction xs arbitrary: p) auto

lemma chain_same: "chain nx p xs \<Longrightarrow> \<forall>x \<in> set xs. nx' x = nx x \<Longrightarrow> chain nx' p xs"
  using chain_cong [of xs nx nx' p] by simp

lemma chain_None [simp]: "chain nx None xs \<longleftrightarrow> xs = []"
  by (cases xs) auto

lemma chain_unique: "chain nx p xs \<Longrightarrow> chain nx p ys \<Longrightarrow> xs = ys"
proof (induction xs arbitrary: p ys)
  case (Cons x xs)
  then show ?case by (cases ys) auto
qed auto

lemma chain_distinct: "chain nx p xs \<Longrightarrow> distinct xs"
proof (induction xs arbitrary: p)
  case (Cons x xs)
  have "x \<notin> set xs"
  proof
    assume "x \<in> set xs"
    then obtain ys zs where split: "xs = ys @ x # zs" by (auto dest: split_list)
    have app: "chain nx q (us @ x # vs) \<Longrightarrow> chain nx (Some x) (x # vs)" for q us vs by (induction us arbitrary: q) auto
    from Cons.prems split have "chain nx (nx x) (ys @ x # zs)" by simp
    from app [OF this] have "chain nx (nx x) zs" by simp
    with chain_unique [of nx "nx x" xs zs] Cons.prems split show False by simp
  qed
  with Cons show ?case by auto
qed simp

lemma length_distinct_le: "distinct xs \<Longrightarrow> set xs \<subseteq> {..<n} \<Longrightarrow> length xs \<le> n"
  using card_mono [of "{..<n}" "set xs"] by (simp add: distinct_card)

lemma find_page_ok:
  assumes "chain (\<lambda>i. next_samesize (prs ! i)) p xs" and "length xs \<le> k" and "\<forall>i \<in> set xs. PR_BLOCKTYPE (prs ! i) = b"
  shows "find_page (Suc k) b p prs = Some (List.find (\<lambda>i. nfree (prs ! i) > 0) xs)"
  using assms
proof (induction xs arbitrary: p k)
  case (Cons x xs)
  then obtain k' where "k = Suc k'" by (cases k) auto
  with Cons show ?case by simp
qed simp

lemma find_owner_ok:
  assumes "chain (\<lambda>i. next_all (prs ! i)) p xs" and "length xs \<le> k" and "\<forall>i \<in> set xs. PR_BLOCKTYPE (prs ! i) < 8"
  shows "find_owner (Suc k) a p prs = Some (List.find (\<lambda>i. PR_PAGEADDR (prs ! i) \<le> a \<and> a < PR_PAGEADDR (prs ! i) + 4096) xs)"
  using assms
proof (induction xs arbitrary: p k)
  case (Cons x xs)
  then obtain k' where "k = Suc k'" by (cases k) auto
  with Cons show ?case by (simp add: Let_def)
qed simp

text \<open>Taking an element out of a list changes links of the list only.\<close>

lemma unlink_ok:
  assumes upd: "\<And>n r. nx (upd n r) = n" "\<And>r. upd (nx r) r = r"
    and "chain (\<lambda>i. nx (prs ! i)) guy xs" and "distinct xs" and "set xs \<subseteq> {..<length prs}" and "pr \<in> set xs" and "length xs \<le> k"
  shows "\<exists>n prs'. unlink (Suc k) nx upd pr guy prs = Some (n, prs') \<and> chain (\<lambda>i. nx (prs' ! i)) n (remove1 pr xs) \<and> length prs' = length prs \<and>
    (\<forall>i. i \<notin> set xs \<longrightarrow> prs' ! i = prs ! i) \<and> (\<forall>i < length prs. \<exists>m. prs' ! i = upd m (prs ! i))"
  using assms(3-)
proof (induction xs arbitrary: guy k)
  case (Cons x xs)
  have id: "\<exists>m. prs ! i = upd m (prs ! i)" for i using upd(2) by metis
  show ?case
  proof (cases "x = pr")
    case True
    then show ?thesis using Cons.prems id by auto
  next
    case False
    then obtain k' where k: "k = Suc k'" "length xs \<le> k'" using Cons.prems(4,5) by (cases k) auto
    from Cons.IH [of "nx (prs ! x)" k'] Cons.prems False k(2) obtain n prs' where u: "unlink (Suc k') nx upd pr (nx (prs ! x)) prs = Some (n, prs')"
      "chain (\<lambda>i. nx (prs' ! i)) n (remove1 pr xs)" "length prs' = length prs" "\<forall>i. i \<notin> set xs \<longrightarrow> prs' ! i = prs ! i" "\<forall>i < length prs. \<exists>m. prs' ! i = upd m (prs ! i)"
      by auto
    let ?p = "prs'[x := upd n (prs' ! x)]"
    have x: "x < length prs" "x \<notin> set xs" "prs' ! x = prs ! x" using Cons.prems u(4) by auto
    have "chain (\<lambda>i. nx (?p ! i)) n (remove1 pr xs) \<longleftrightarrow> chain (\<lambda>i. nx (prs' ! i)) n (remove1 pr xs)"
      by (rule chain_cong) (metis nth_list_update_neq notin_set_remove1 x(2))
    then have "chain (\<lambda>i. nx (?p ! i)) (Some x) (remove1 pr (x # xs))" using False u(2,3) x(1) upd(1) by simp
    moreover have "unlink (Suc k) nx upd pr guy prs = Some (Some x, ?p)" using False Cons.prems(1) k(1) u(1) by simp
    moreover have "\<forall>i. i \<notin> set (x # xs) \<longrightarrow> ?p ! i = prs ! i" using u(4) by auto
    moreover have "\<forall>i < length prs. \<exists>m. ?p ! i = upd m (prs ! i)" using u(3,5) x by (auto simp: nth_list_update)
    ultimately show ?thesis using u(3) by auto
  qed
qed simp

section \<open>Use bits of the page references\<close>

definition inuse :: "32 word list \<Rightarrow> nat set" where
  "inuse ws = {j. j < 256 \<and> bit (ws ! (j div 32)) (j mod 32)}"

lemma word_bit_mask: "w AND 2 ^ j = 0 \<longleftrightarrow> \<not> bit w j" for w :: "32 word"
  by (rule and_exp_eq_0_iff_not_bit)

lemma full_word: "w = 0xffffffff \<longleftrightarrow> (\<forall>j < 32. bit w j)" for w :: "32 word"
proof -
  have "w = 0xffffffff \<longleftrightarrow> w = mask 32" by (simp add: mask_numeral)
  then show ?thesis by (auto simp: bit_eq_iff bit_simps)
qed

lemma inuse_bit_ok:
  assumes "\<exists>k. j \<le> k \<and> k < j + n \<and> \<not> bit w k" and "j + n \<le> 32"
  shows "\<exists>k. inuse_bit w j n = Some k \<and> k < 32 \<and> \<not> bit w k"
  using assms
proof (induction w j n rule: inuse_bit.induct)
  case (2 w j n)
  show ?case
  proof (cases "bit w j")
    case True
    from 2(2) obtain k where "j \<le> k" "k < j + Suc n" "\<not> bit w k" by blast
    with True have "Suc j \<le> k" by (cases "k = j") auto
    with \<open>k < j + Suc n\<close> \<open>\<not> bit w k\<close> 2(1,3) True show ?thesis by (auto simp: word_bit_mask)
  next
    case False
    with 2(3) show ?thesis by (simp add: word_bit_mask)
  qed
qed auto

lemma inuse_words_ok:
  assumes "length ws = 8" and "i + n = 8" and "\<forall>j < i * 32. j \<in> inuse ws"
  shows "(\<exists>j ws'. inuse_words i n ws = Some (Some j, ws') \<and> j < 256 \<and> j \<notin> inuse ws \<and> length ws' = 8 \<and> inuse ws' = insert j (inuse ws)) \<or>
    (inuse_words i n ws = Some (None, ws) \<and> inuse ws = {..<256})"
  using assms(2,3)
proof (induction n arbitrary: i)
  case 0
  then show ?case by (auto simp: inuse_def)
next
  case (Suc n)
  show ?case
  proof (cases "ws ! i = 0xffffffff")
    case True
    have "j \<in> inuse ws" if "j < Suc i * 32" for j
    proof (cases "j < i * 32")
      case False
      with that have "j div 32 = i" "j < 256" using Suc.prems(1) by auto
      with True show ?thesis by (simp add: inuse_def full_word)
    qed (use Suc.prems in simp)
    with Suc.IH [of "Suc i"] Suc.prems True show ?thesis by simp
  next
    case False
    then have "\<exists>k. 0 \<le> k \<and> k < 0 + 32 \<and> \<not> bit (ws ! i) k" by (auto simp: full_word)
    from inuse_bit_ok [OF this] obtain k where k: "inuse_bit (ws ! i) 0 32 = Some k" "k < 32" "\<not> bit (ws ! i) k" by auto
    let ?ws = "ws[i := ws ! i OR push_bit k 1]"
    have i: "i < 8" using Suc.prems by simp
    have bits: "bit (?ws ! (j div 32)) (j mod 32) \<longleftrightarrow> bit (ws ! (j div 32)) (j mod 32) \<or> j = i * 32 + k" if "j < 256" for j
    proof (cases "j div 32 = i")
      case True
      then have "j = i * 32 + k \<longleftrightarrow> j mod 32 = k" using k(2) by (metis div_mult_mod_eq add_left_cancel)
      then show ?thesis using True i assms(1) k(2) by (auto simp: bit_simps)
    next
      case False
      then have "j \<noteq> i * 32 + k" using k(2) by auto
      then show ?thesis using False by simp
    qed
    have lt: "i * 32 + k < 256" using i k(2) by simp
    have "x \<in> inuse ?ws \<longleftrightarrow> x = i * 32 + k \<or> x \<in> inuse ws" for x
      by (cases "x < 256") (use lt in \<open>auto simp only: inuse_def mem_Collect_eq bits\<close>)
    then have "inuse ?ws = insert (i * 32 + k) (inuse ws)" by blast
    moreover have "i * 32 + k \<notin> inuse ws" using k by (simp add: inuse_def)
    ultimately show ?thesis using False k(1,2) i assms(1) by auto
  qed
qed

lemma freepageref_ok:
  assumes "length us = 8" and "j \<in> inuse us"
  shows "\<exists>ws. (\<forall>h. pagerefs_inuse h = us \<longrightarrow> freepageref j h = Some (h\<lparr>pagerefs_inuse := ws\<rparr>)) \<and> length ws = 8 \<and> inuse ws = inuse us - {j}"
proof -
  let ?i = "j div 32" and ?k = "j mod 32"
  have j: "j < 256" "bit (us ! ?i) ?k" "?i < 8" "?k < 32" using assms(2) by (auto simp: inuse_def)
  let ?v = "us[?i := us ! ?i AND NOT (push_bit ?k 1)]"
  have "\<forall>h. pagerefs_inuse h = us \<longrightarrow> freepageref j h = Some (h\<lparr>pagerefs_inuse := ?v\<rparr>)" using j by (simp add: freepageref_def word_bit_mask Let_def)
  moreover have "bit (?v ! (x div 32)) (x mod 32) \<longleftrightarrow> bit (us ! (x div 32)) (x mod 32) \<and> x \<noteq> j" if "x < 256" for x
  proof (cases "x div 32 = ?i")
    case True
    then have "x = j \<longleftrightarrow> x mod 32 = ?k" by (metis div_mult_mod_eq)
    then show ?thesis using True j(3,4) assms(1) by (auto simp: bit_simps)
  next
    case False
    then show ?thesis by auto
  qed
  ultimately show ?thesis using assms(1) by (intro exI [of _ ?v]) (auto simp: inuse_def)
qed

section \<open>One page\<close>

abbreviation bsize :: "pageref \<Rightarrow> nat" where
  "bsize pr \<equiv> sizes ! PR_BLOCKTYPE pr"

text \<open>The blocks of a page, and its free list.\<close>

definition slots :: "pageref \<Rightarrow> nat set" where
  "slots pr = (\<lambda>k. PR_PAGEADDR pr + k * bsize pr) ` {..<4096 div bsize pr}"

definition fl_head :: "pageref \<Rightarrow> nat option" where
  "fl_head pr = (if freelist_offset pr = INVALID_OFFSET then None else Some (PR_PAGEADDR pr + freelist_offset pr))"

definition free_blocks :: "(nat \<Rightarrow> nat) \<Rightarrow> pageref \<Rightarrow> nat list" where
  "free_blocks m pr = walk NPAGEREFS (\<lambda>a. ptr (m a)) (fl_head pr)"

definition pr_list :: "(nat \<Rightarrow> nat) \<Rightarrow> pageref \<Rightarrow> bool" where
  "pr_list m pr \<longleftrightarrow> PR_BLOCKTYPE pr < 8 \<and> 0x80000000 \<le> PR_PAGEADDR pr \<and> PR_PAGEADDR pr < 0xa0000000 \<and>
     chain (\<lambda>a. ptr (m a)) (fl_head pr) (free_blocks m pr) \<and> set (free_blocks m pr) \<subseteq> slots pr \<and> nfree pr = length (free_blocks m pr)"

text \<open>A page that is in use has a block that is not free.\<close>

definition pr_ok :: "(nat \<Rightarrow> nat) \<Rightarrow> pageref \<Rightarrow> bool" where
  "pr_ok m pr \<longleftrightarrow> pr_list m pr \<and> nfree pr < 4096 div bsize pr"

lemma sizes_cases: "b < 8 \<Longrightarrow> sizes ! b \<in> {16, 32, 64, 128, 256, 512, 1024, 2048}"
  by (auto simp: sizes_def less_Suc_eq numeral_eq_Suc)

lemma sizes_facts: "b < 8 \<Longrightarrow> 16 \<le> sizes ! b \<and> sizes ! b \<le> 2048 \<and> 4096 div (sizes ! b) * (sizes ! b) = 4096 \<and> 4096 div (sizes ! b) \<le> 256 \<and> sizes ! b mod 4 = 0"
  using sizes_cases [of b] by auto

lemma slots_range:
  assumes "PR_BLOCKTYPE pr < 8" and "a \<in> slots pr"
  shows "PR_PAGEADDR pr \<le> a" and "a + bsize pr \<le> PR_PAGEADDR pr + 4096" and "(a - PR_PAGEADDR pr) mod bsize pr = 0" and "a < PR_PAGEADDR pr + 4096"
proof -
  from assms(2) obtain k where k: "a = PR_PAGEADDR pr + k * bsize pr" "k < 4096 div bsize pr" by (auto simp: slots_def)
  have "Suc k * bsize pr \<le> 4096 div bsize pr * bsize pr" using k(2) by (intro mult_le_mono1) simp
  then show "a + bsize pr \<le> PR_PAGEADDR pr + 4096" using k(1) sizes_facts [OF assms(1)] by simp
  with sizes_facts [OF assms(1)] show "a < PR_PAGEADDR pr + 4096" by simp
  show "PR_PAGEADDR pr \<le> a" "(a - PR_PAGEADDR pr) mod bsize pr = 0" using k(1) by simp_all
qed

lemma in_slots:
  assumes "PR_BLOCKTYPE pr < 8" and "PR_PAGEADDR pr \<le> a" "a < PR_PAGEADDR pr + 4096" "(a - PR_PAGEADDR pr) mod bsize pr = 0"
  shows "a \<in> slots pr"
proof -
  let ?k = "(a - PR_PAGEADDR pr) div bsize pr"
  have e: "a = PR_PAGEADDR pr + ?k * bsize pr" using assms(2,4) by (simp add: mod_eq_0_iff_dvd)
  have "a - PR_PAGEADDR pr < 4096 div bsize pr * bsize pr" using assms(2,3) sizes_facts [OF assms(1)] by simp
  then have "?k < 4096 div bsize pr" using sizes_facts [OF assms(1)] by (simp add: less_mult_imp_div_less)
  with e show ?thesis unfolding slots_def by blast
qed

text \<open>Blocks of a page do not overlap.\<close>

lemma slots_apart:
  assumes "a \<in> slots pr" "b \<in> slots pr" "a < b"
  shows "a + bsize pr \<le> b"
proof -
  from assms obtain k l where kl: "a = PR_PAGEADDR pr + k * bsize pr" "b = PR_PAGEADDR pr + l * bsize pr" by (auto simp: slots_def)
  with assms(3) have "k < l" by simp
  then have "Suc k * bsize pr \<le> l * bsize pr" by (intro mult_le_mono1) simp
  with kl show ?thesis by simp
qed

lemma finite_slots [simp]: "finite (slots pr)"
  by (simp add: slots_def)

lemma card_slots: "PR_BLOCKTYPE pr < 8 \<Longrightarrow> card (slots pr) = 4096 div bsize pr"
  using sizes_facts [of "PR_BLOCKTYPE pr"] unfolding slots_def by (subst card_image) (auto simp: inj_on_def)

lemma pr_list_bound: "pr_list m pr \<Longrightarrow> nfree pr \<le> 4096 div bsize pr \<and> nfree pr \<le> 256 \<and> distinct (free_blocks m pr)"
proof -
  assume p: "pr_list m pr"
  then have d: "distinct (free_blocks m pr)" using chain_distinct by (auto simp: pr_list_def)
  have "card (set (free_blocks m pr)) \<le> card (slots pr)" using p by (intro card_mono) (auto simp: pr_list_def)
  then have "nfree pr \<le> 4096 div bsize pr" using p d by (simp add: pr_list_def distinct_card card_slots)
  with sizes_facts [of "PR_BLOCKTYPE pr"] p d show ?thesis by (simp add: pr_list_def)
qed

lemma pr_listI:
  assumes "PR_BLOCKTYPE pr < 8" "0x80000000 \<le> PR_PAGEADDR pr" "PR_PAGEADDR pr < 0xa0000000" and c: "chain (\<lambda>a. ptr (m a)) (fl_head pr) fs"
    and s: "set fs \<subseteq> slots pr" and n: "nfree pr = length fs"
  shows "pr_list m pr" and "free_blocks m pr = fs"
proof -
  have "card (set fs) \<le> card (slots pr)" using s by (intro card_mono) auto
  then have "length fs \<le> 256" using chain_distinct [OF c] card_slots [OF assms(1)] sizes_facts [OF assms(1)] by (simp add: distinct_card)
  then show f: "free_blocks m pr = fs" unfolding free_blocks_def by (rule walk_chain [OF c])
  show "pr_list m pr" using assms f by (simp add: pr_list_def)
qed

text \<open>A page depends on the words in its free blocks only.\<close>

lemma pr_list_frame:
  assumes p: "pr_list m pr" and same: "\<And>a. a \<in> set (free_blocks m pr) \<Longrightarrow> m' a = m a"
  shows "pr_list m' pr" and "free_blocks m' pr = free_blocks m pr"
proof -
  have "chain (\<lambda>a. ptr (m' a)) (fl_head pr) (free_blocks m pr)"
    using p same chain_cong [of "free_blocks m pr" "\<lambda>a. ptr (m' a)" "\<lambda>a. ptr (m a)"] by (simp add: pr_list_def)
  note i = pr_listI [OF _ _ _ this]
  show "pr_list m' pr" "free_blocks m' pr = free_blocks m pr" using i p by (simp_all add: pr_list_def)
qed

lemma ptr_Some [simp]: "ptr a = Some b \<longleftrightarrow> a = b \<and> b \<noteq> 0"
  by (auto simp: ptr_def)

lemma ptr_None [simp]: "ptr a = None \<longleftrightarrow> a = 0" "ptr 0 = None"
  by (simp_all add: ptr_def)

lemma same_page [simp]:
  "PR_PAGEADDR (pr\<lparr>nfree := n\<rparr>) = PR_PAGEADDR pr" "PR_PAGEADDR (pr\<lparr>freelist_offset := f\<rparr>) = PR_PAGEADDR pr"
  "PR_PAGEADDR (next_samesize_update g pr) = PR_PAGEADDR pr" "PR_PAGEADDR (next_all_update g pr) = PR_PAGEADDR pr"
  "PR_BLOCKTYPE (pr\<lparr>nfree := n\<rparr>) = PR_BLOCKTYPE pr" "PR_BLOCKTYPE (pr\<lparr>freelist_offset := f\<rparr>) = PR_BLOCKTYPE pr"
  "PR_BLOCKTYPE (next_samesize_update g pr) = PR_BLOCKTYPE pr" "PR_BLOCKTYPE (next_all_update g pr) = PR_BLOCKTYPE pr"
  "slots (pr\<lparr>nfree := n\<rparr>) = slots pr" "slots (pr\<lparr>freelist_offset := f\<rparr>) = slots pr"
  "slots (next_samesize_update g pr) = slots pr" "slots (next_all_update g pr) = slots pr"
  by (simp_all add: PR_PAGEADDR_def PR_BLOCKTYPE_def slots_def)

lemma fl_head_same [simp]:
  "fl_head (pr\<lparr>nfree := n\<rparr>) = fl_head pr" "fl_head (next_samesize_update g pr) = fl_head pr" "fl_head (next_all_update g pr) = fl_head pr"
  by (simp_all add: fl_head_def)

text \<open>The first free block is taken.\<close>

lemma doalloc_ok:
  assumes p: "pr_list (h_mem h) (pagerefs h ! i)" and n: "0 < nfree (pagerefs h ! i)"
  shows "\<exists>f pr n g. pr = (pagerefs h ! i)\<lparr>nfree := n, freelist_offset := g\<rparr> \<and> doalloc i h = Some (f, put_pr i pr h) \<and>
    free_blocks (h_mem h) (pagerefs h ! i) = f # free_blocks (h_mem h) pr \<and> pr_ok (h_mem h) pr"
proof -
  let ?pr = "pagerefs h ! i" and ?m = "h_mem h"
  from p n obtain f fs where ffs: "free_blocks ?m ?pr = f # fs" by (cases "free_blocks ?m ?pr") (auto simp: pr_list_def)
  have bt: "PR_BLOCKTYPE ?pr < 8" "0x80000000 \<le> PR_PAGEADDR ?pr" "PR_PAGEADDR ?pr < 0xa0000000" and c: "fl_head ?pr = Some f" "chain (\<lambda>a. ptr (?m a)) (ptr (?m f)) fs"
    and s: "f \<in> slots ?pr" "set fs \<subseteq> slots ?pr" and nf: "nfree ?pr = Suc (length fs)" using p ffs by (simp_all add: pr_list_def)
  have bound: "nfree ?pr \<le> 4096 div bsize ?pr" "nfree ?pr \<le> 256" using pr_list_bound [OF p] by simp_all
  have f: "f = PR_PAGEADDR ?pr + freelist_offset ?pr" using c(1) by (auto simp: fl_head_def split: if_split_asm)
  have off: "freelist_offset ?pr < 4096" using slots_range(4) [OF bt(1) s(1)] f by simp
  have n1: "u16 (int (nfree ?pr) - 1) = length fs" using nf bound(2) by (simp add: u16_def)
  define g where "g = (if fs = [] then 0xffff else hd fs - PR_PAGEADDR ?pr)"
  let ?new = "?pr\<lparr>nfree := length fs, freelist_offset := g\<rparr>"
  have "doalloc i h = Some (f, put_pr i ?new h) \<and> fl_head ?new = ptr (?m f)"
  proof (cases fs)
    case Nil
    with c(2) have "?m f = 0" by simp
    then show ?thesis using Nil off f n1 by (simp add: doalloc_def g_def fl_head_def Let_def)
  next
    case (Cons x xs)
    with c(2) s(2) have x: "?m f = x" "x \<noteq> 0" "x \<in> slots ?pr" by auto
    note r = slots_range(1,4) [OF bt(1) x(3)]
    have lt: "x - PR_PAGEADDR ?pr < 4096" using r by simp
    have "int x - int (PR_PAGEADDR ?pr) = int (x - PR_PAGEADDR ?pr)" using r(1) by simp
    then have "u32 (int x - int (PR_PAGEADDR ?pr)) = x - PR_PAGEADDR ?pr" "u16 (int x - int (PR_PAGEADDR ?pr)) = x - PR_PAGEADDR ?pr"
      using lt by (simp_all add: u32_def u16_def del: of_nat_diff)
    then show ?thesis using Cons off f n1 x lt r(1) by (simp add: doalloc_def g_def fl_head_def Let_def ptr_def)
  qed
  moreover have "pr_list ?m ?new" "free_blocks ?m ?new = fs"
    using pr_listI [of ?new ?m fs] bt c(2) s(2) calculation by simp_all
  moreover have "nfree ?new < 4096 div bsize ?new" using bound nf by simp
  ultimately show ?thesis using ffs unfolding pr_ok_def by (intro exI [of _ f] exI [of _ ?new] exI [of _ "length fs"] exI [of _ g]) simp
qed

lemma fill_words_apply: "fill_words a k m x = (if \<exists>i < k. x = a + 4 * i then 0xdeadbeef else m x)"
proof (induction k arbitrary: a m)
  case (Suc k)
  show ?case by (auto simp: Suc Ex_less_Suc2)
qed simp

lemma fill_deadbeef_out: "x < a \<or> a + n \<le> x \<Longrightarrow> fill_deadbeef a n m x = m x"
proof -
  assume x: "x < a \<or> a + n \<le> x"
  have "x \<noteq> a + 4 * i" if "i < n div 4" for i using that x by auto
  then show ?thesis by (auto simp: fill_deadbeef_def fill_words_apply)
qed

text \<open>A block is put at the head of the free list of its page.\<close>

lemma free_block_ok:
  assumes p: "pr_list m pr" and a: "a \<in> slots pr" "a \<notin> set (free_blocks m pr)"
  defines "m' \<equiv> (fill_deadbeef a (bsize pr) m)(a := (if freelist_offset pr = 0xffff then 0 else PR_PAGEADDR pr + freelist_offset pr))"
    and "pr' \<equiv> pr\<lparr>freelist_offset := a - PR_PAGEADDR pr, nfree := u16 (int (nfree pr) + 1)\<rparr>"
  shows "pr_list m' pr' \<and> free_blocks m' pr' = a # free_blocks m pr \<and> nfree pr' = Suc (nfree pr)"
proof -
  have bt: "PR_BLOCKTYPE pr < 8" "0x80000000 \<le> PR_PAGEADDR pr" "PR_PAGEADDR pr < 0xa0000000" and c: "chain (\<lambda>a. ptr (m a)) (fl_head pr) (free_blocks m pr)"
    and s: "set (free_blocks m pr) \<subseteq> slots pr" and nf: "nfree pr = length (free_blocks m pr)" using p by (simp_all add: pr_list_def)
  have n: "u16 (int (nfree pr) + 1) = Suc (nfree pr)" using pr_list_bound [OF p] by (simp add: u16_def nat_add_distrib)
  have r: "PR_PAGEADDR pr \<le> a" "a - PR_PAGEADDR pr < 4096" using slots_range(1,4) [OF bt(1) a(1)] by simp_all
  have out: "m' x = m x" if x: "x \<in> set (free_blocks m pr)" for x
  proof -
    have "x \<in> slots pr" "x \<noteq> a" using x s a(2) by auto
    then have "x < a \<or> a + bsize pr \<le> x" using slots_apart [OF a(1), of x] by (cases "x < a") auto
    with \<open>x \<noteq> a\<close> show ?thesis unfolding m'_def by (simp add: fill_deadbeef_out)
  qed
  have "chain (\<lambda>a. ptr (m' a)) (fl_head pr) (free_blocks m pr)" using c out chain_cong [of "free_blocks m pr" "\<lambda>a. ptr (m' a)" "\<lambda>a. ptr (m a)"] by simp
  moreover have "ptr (m' a) = fl_head pr" using bt(2) by (simp add: m'_def fl_head_def)
  moreover have "fl_head pr' = Some a" using r by (simp add: pr'_def fl_head_def)
  ultimately have "chain (\<lambda>a. ptr (m' a)) (fl_head pr') (a # free_blocks m pr)" by simp
  note i = pr_listI [OF _ _ _ this]
  show ?thesis using i bt a(1) s nf n by (simp add: pr'_def)
qed

section \<open>The heap\<close>

abbreviation all_links :: "'w kheap \<Rightarrow> nat \<Rightarrow> nat option" where
  "all_links h \<equiv> \<lambda>i. next_all (pagerefs h ! i)"

abbreviation same_links :: "'w kheap \<Rightarrow> nat \<Rightarrow> nat option" where
  "same_links h \<equiv> \<lambda>i. next_samesize (pagerefs h ! i)"

text \<open>The page references in use, in the order of the list of all, and those of one block type.\<close>

definition in_list :: "'w kheap \<Rightarrow> nat list" where
  "in_list h = walk NPAGEREFS (all_links h) (allbase h)"

definition of_type :: "'w kheap \<Rightarrow> nat \<Rightarrow> nat list" where
  "of_type h b = walk NPAGEREFS (same_links h) (sizebases h ! b)"

text \<open>The list of all pages has the page references whose use bits are set, and each list of a size those of
  this size.\<close>

definition lists_ok :: "'w kheap \<Rightarrow> bool" where
  "lists_ok h \<longleftrightarrow> length (pagerefs h) = 256 \<and> length (pagerefs_inuse h) = 8 \<and> length (sizebases h) = 8 \<and>
     chain (all_links h) (allbase h) (in_list h) \<and> set (in_list h) = inuse (pagerefs_inuse h) \<and>
     (\<forall>b < 8. chain (same_links h) (sizebases h ! b) (of_type h b) \<and>
        set (of_type h b) = {i \<in> set (in_list h). PR_BLOCKTYPE (pagerefs h ! i) = b})"

definition heap_ok :: "'w kheap \<Rightarrow> bool" where
  "heap_ok h \<longleftrightarrow> lists_ok h \<and> (\<forall>i \<in> set (in_list h). pr_ok (h_mem h) (pagerefs h ! i)) \<and>
     inj_on (\<lambda>i. PR_PAGEADDR (pagerefs h ! i)) (set (in_list h))"

text \<open>The pages of the heap, and the blocks that are handed out, with their sizes.\<close>

definition heap_pages :: "'w kheap \<Rightarrow> nat set" where
  "heap_pages h = (\<lambda>i. PR_PAGEADDR (pagerefs h ! i)) ` set (in_list h)"

definition taken_in :: "(nat \<Rightarrow> nat) \<Rightarrow> pageref \<Rightarrow> (nat \<times> nat) set" where
  "taken_in m pr = (slots pr - set (free_blocks m pr)) \<times> {bsize pr}"

definition sub_blocks :: "'w kheap \<Rightarrow> (nat \<times> nat) set" where
  "sub_blocks h = (\<Union>i \<in> set (in_list h). taken_in (h_mem h) (pagerefs h ! i))"

lemma in_list_bound: "lists_ok h \<Longrightarrow> set (in_list h) \<subseteq> {..<256}"
  by (auto simp: lists_ok_def inuse_def)

lemma lists_okI:
  assumes "length (pagerefs h) = 256" "length (pagerefs_inuse h) = 8" "length (sizebases h) = 8" and all: "chain (all_links h) (allbase h) xs"
    and inuse: "set xs = inuse (pagerefs_inuse h)"
    and same: "\<And>b. b < 8 \<Longrightarrow> chain (same_links h) (sizebases h ! b) (ys b) \<and> set (ys b) = {i \<in> set xs. PR_BLOCKTYPE (pagerefs h ! i) = b}"
  shows "lists_ok h" and "in_list h = xs" and "b < 8 \<Longrightarrow> of_type h b = ys b"
proof -
  have b: "set xs \<subseteq> {..<256}" using inuse by (auto simp: inuse_def)
  have "length xs \<le> 256" by (rule length_distinct_le [OF chain_distinct [OF all] b])
  then show x: "in_list h = xs" unfolding in_list_def by (rule walk_chain [OF all])
  have y: "of_type h b = ys b" if "b < 8" for b
  proof -
    from same [OF that] have c: "chain (same_links h) (sizebases h ! b) (ys b)" "set (ys b) \<subseteq> {..<256}" using b by auto
    have "length (ys b) \<le> 256" by (rule length_distinct_le [OF chain_distinct [OF c(1)] c(2)])
    then show ?thesis unfolding of_type_def by (rule walk_chain [OF c(1)])
  qed
  then show "b < 8 \<Longrightarrow> of_type h b = ys b" .
  show "lists_ok h" using assms x y by (simp add: lists_ok_def)
qed

lemma lists_len:
  assumes "lists_ok h"
  shows "length (in_list h) \<le> 256" and "b < 8 \<Longrightarrow> length (of_type h b) \<le> 256"
proof -
  note b = in_list_bound [OF assms]
  show "length (in_list h) \<le> 256" using assms b by (intro length_distinct_le chain_distinct [of "all_links h" "allbase h"]) (auto simp: lists_ok_def)
  show "length (of_type h b) \<le> 256" if "b < 8"
    using assms b that by (intro length_distinct_le chain_distinct [of "same_links h" "sizebases h ! b"]) (auto simp: lists_ok_def)
qed

text \<open>A page reference is changed, but not its links, its page or its block type.\<close>

lemma lists_put:
  assumes ok: "lists_ok h" and i: "i < 256" and pr: "next_all pr = next_all (pagerefs h ! i)" "next_samesize pr = next_samesize (pagerefs h ! i)"
    "PR_BLOCKTYPE pr = PR_BLOCKTYPE (pagerefs h ! i)"
  shows "lists_ok ((put_pr i pr h)\<lparr>h_mem := m\<rparr>)" and "in_list ((put_pr i pr h)\<lparr>h_mem := m\<rparr>) = in_list h"
proof -
  let ?h = "(put_pr i pr h)\<lparr>h_mem := m\<rparr>"
  have len: "length (pagerefs h) = 256" using ok by (simp add: lists_ok_def)
  have links: "all_links ?h = all_links h" "same_links ?h = same_links h" "PR_BLOCKTYPE (pagerefs ?h ! j) = PR_BLOCKTYPE (pagerefs h ! j)" for j
    using pr i len by (auto simp: fun_eq_iff nth_list_update)
  note I = lists_okI [of ?h "in_list h" "of_type h"]
  show "lists_ok ?h" "in_list ?h = in_list h" using I(1,2) ok links unfolding lists_ok_def by simp_all
qed

lemma PR_PAGEADDR_aligned [simp]: "PR_PAGEADDR pr mod 4096 = 0"
  using frame_fixed [of "frame (pageaddr_and_blocktype pr)"] by (simp add: PR_PAGEADDR_def)

text \<open>Different pages are 4096 bytes apart.\<close>

lemma pages_apart:
  fixes a b :: nat
  assumes "a mod 4096 = 0" "b mod 4096 = 0" "a < b"
  shows "a + 4096 \<le> b"
proof -
  obtain x y where "a = x * 4096" "b = y * 4096" using assms(1,2) by (auto simp: mod_eq_0_iff_dvd dvd_def mult.commute)
  with assms(3) have "x < y" by simp
  with \<open>a = x * 4096\<close> \<open>b = y * 4096\<close> show ?thesis by simp
qed

lemma same_page_addr:
  fixes a p q :: nat
  assumes "p mod 4096 = 0" "q mod 4096 = 0" "p \<le> a" "a < p + 4096" "q \<le> a" "a < q + 4096"
  shows "p = q"
  using pages_apart [OF assms(1,2)] pages_apart [OF assms(2,1)] assms(3-) by linarith

lemma slots_other_page:
  assumes "PR_BLOCKTYPE p < 8" "PR_BLOCKTYPE q < 8" "PR_PAGEADDR p \<noteq> PR_PAGEADDR q" and "a \<in> slots p" "b \<in> slots q"
  shows "a + bsize p \<le> b \<or> b + bsize q \<le> a"
  using slots_range [OF assms(1,4)] slots_range [OF assms(2,5)] pages_apart [of "PR_PAGEADDR p" "PR_PAGEADDR q"] pages_apart [of "PR_PAGEADDR q" "PR_PAGEADDR p"] assms(3)
  by (cases "PR_PAGEADDR p < PR_PAGEADDR q") auto

text \<open>The state of the heap when page reference \<open>i\<close> and memory have been changed, and only words in page \<open>i\<close>.\<close>

lemma heap_put:
  assumes ok: "lists_ok h" and i: "i \<in> set (in_list h)" and pr: "next_all pr = next_all (pagerefs h ! i)" "next_samesize pr = next_samesize (pagerefs h ! i)"
    "pageaddr_and_blocktype pr = pageaddr_and_blocktype (pagerefs h ! i)"
    and inj: "inj_on (\<lambda>i. PR_PAGEADDR (pagerefs h ! i)) (set (in_list h))" and new: "pr_ok m pr"
    and others: "\<And>j. j \<in> set (in_list h) \<Longrightarrow> j \<noteq> i \<Longrightarrow> pr_ok (h_mem h) (pagerefs h ! j)"
    and frame: "\<And>j a. j \<in> set (in_list h) \<Longrightarrow> j \<noteq> i \<Longrightarrow> a \<in> slots (pagerefs h ! j) \<Longrightarrow> m a = h_mem h a"
  defines "h' \<equiv> (put_pr i pr h)\<lparr>h_mem := m\<rparr>"
  shows "heap_ok h'" and "in_list h' = in_list h" and "heap_pages h' = heap_pages h"
    and "sub_blocks h' = (\<Union>j \<in> set (in_list h) - {i}. taken_in (h_mem h) (pagerefs h ! j)) \<union> taken_in m pr"
proof -
  have i256: "i < 256" "length (pagerefs h) = 256" using in_list_bound [OF ok] i ok by (auto simp: lists_ok_def)
  have bt: "PR_BLOCKTYPE pr = PR_BLOCKTYPE (pagerefs h ! i)" "PR_PAGEADDR pr = PR_PAGEADDR (pagerefs h ! i)" using pr(3) by (simp_all add: PR_BLOCKTYPE_def PR_PAGEADDR_def)
  note l = lists_put [OF ok i256(1) pr(1,2) bt(1), of m, folded h'_def]
  show il: "in_list h' = in_list h" by (rule l(2))
  have prs: "pagerefs h' ! j = (if j = i then pr else pagerefs h ! j)" for j using i256 by (simp add: h'_def nth_list_update)
  have mem: "h_mem h' = m" by (simp add: h'_def)
  have page: "PR_PAGEADDR (pagerefs h' ! j) = PR_PAGEADDR (pagerefs h ! j)" for j using prs bt(2) by simp
  show "heap_pages h' = heap_pages h" unfolding heap_pages_def il page ..
  have fr: "pr_ok m (pagerefs h ! j)" "taken_in m (pagerefs h ! j) = taken_in (h_mem h) (pagerefs h ! j)" if "j \<in> set (in_list h)" "j \<noteq> i" for j
  proof -
    have pl: "pr_list (h_mem h) (pagerefs h ! j)" and nf: "nfree (pagerefs h ! j) < 4096 div bsize (pagerefs h ! j)" using others [OF that] by (simp_all add: pr_ok_def)
    have eq: "m a = h_mem h a" if "a \<in> set (free_blocks (h_mem h) (pagerefs h ! j))" for a
      using pl that frame [OF \<open>j \<in> set (in_list h)\<close> \<open>j \<noteq> i\<close>] by (auto simp: pr_list_def)
    note x = pr_list_frame [OF pl eq]
    show "pr_ok m (pagerefs h ! j)" "taken_in m (pagerefs h ! j) = taken_in (h_mem h) (pagerefs h ! j)" using x nf by (simp_all add: pr_ok_def taken_in_def)
  qed
  have "pr_ok (h_mem h') (pagerefs h' ! j)" if "j \<in> set (in_list h')" for j using that fr(1) [of j] new unfolding mem prs il by auto
  then show "heap_ok h'" using l(1) inj unfolding heap_ok_def il page by simp
  have "sub_blocks h' = (\<Union>j \<in> insert i (set (in_list h) - {i}). taken_in m (pagerefs h' ! j))" unfolding sub_blocks_def il mem using i by (simp add: insert_absorb)
  also have "\<dots> = (\<Union>j \<in> set (in_list h) - {i}. taken_in (h_mem h) (pagerefs h ! j)) \<union> taken_in m pr"
    using fr(2) prs by (auto split: if_split_asm)
  finally show "sub_blocks h' = (\<Union>j \<in> set (in_list h) - {i}. taken_in (h_mem h) (pagerefs h ! j)) \<union> taken_in m pr" .
qed

lemma sub_blocks_split:
  "i \<in> set (in_list h) \<Longrightarrow> sub_blocks h = (\<Union>j \<in> set (in_list h) - {i}. taken_in (h_mem h) (pagerefs h ! j)) \<union> taken_in (h_mem h) (pagerefs h ! i)"
  by (auto simp: sub_blocks_def)

text \<open>Blocks that are handed out do not overlap.\<close>

lemma sub_blocks_apart:
  assumes ok: "heap_ok h" and ab: "(a, n) \<in> sub_blocks h" "(b, k) \<in> sub_blocks h" "(a, n) \<noteq> (b, k)"
  shows "a + n \<le> b \<or> b + k \<le> a"
proof -
  from ab(1,2) obtain i j where ij: "i \<in> set (in_list h)" "j \<in> set (in_list h)" "a \<in> slots (pagerefs h ! i)" "b \<in> slots (pagerefs h ! j)"
    "n = bsize (pagerefs h ! i)" "k = bsize (pagerefs h ! j)" by (auto simp: sub_blocks_def taken_in_def)
  have bt: "PR_BLOCKTYPE (pagerefs h ! i) < 8" "PR_BLOCKTYPE (pagerefs h ! j) < 8" using ok ij(1,2) by (auto simp: heap_ok_def pr_ok_def pr_list_def)
  show ?thesis
  proof (cases "i = j")
    case True
    with ij ab(3) have "a \<noteq> b" by auto
    with True ij slots_apart [of a "pagerefs h ! i" b] slots_apart [of b "pagerefs h ! i" a] show ?thesis by (cases "a < b") auto
  next
    case False
    with ok ij(1,2) have "PR_PAGEADDR (pagerefs h ! i) \<noteq> PR_PAGEADDR (pagerefs h ! j)" by (auto simp: heap_ok_def inj_on_def)
    from slots_other_page [OF bt this ij(3,4)] ij(5,6) show ?thesis by simp
  qed
qed

section \<open>A page is added or dropped\<close>

lemma thread_list_apply:
  "0 < sz \<Longrightarrow> thread_list fla sz (Suc i) k m x = (if \<exists>j. i < j \<and> j \<le> i + k \<and> x = fla + j * sz then x - sz else m x)"
proof (induction k arbitrary: i m)
  case (Suc k)
  have "(\<exists>j. i < j \<and> j \<le> i + Suc k \<and> x = fla + j * sz) \<longleftrightarrow> x = fla + Suc i * sz \<or> (\<exists>j. Suc i < j \<and> j \<le> Suc i + k \<and> x = fla + j * sz)"
    by (metis Suc_lessI Suc_lessD add_Suc add_Suc_right le_add1 lessI not_less_eq_eq)
  moreover have "fla + Suc i * sz - sz = fla + i * sz" by simp
  ultimately show ?case using Suc by auto
qed auto

text \<open>The free list of a fresh page has all its blocks, the last one first.\<close>

lemma thread_list_ok:
  fixes m :: "nat \<Rightarrow> nat"
  assumes b: "b < 8" and pg: "pg mod 4096 = 0" "0x80000000 \<le> pg" "pg < 0xa0000000" and n: "n = 4096 div sizes ! b"
    and pr: "pageaddr_and_blocktype pr = MKPAB pg b" "freelist_offset pr = (n - 1) * sizes ! b" "nfree pr = n"
  defines "m' \<equiv> thread_list pg (sizes ! b) 1 (n - 1) (m(pg := 0))"
  shows "PR_PAGEADDR pr = pg" and "PR_BLOCKTYPE pr = b" and "pr_list m' pr" and "set (free_blocks m' pr) = slots pr"
    and "\<And>x. x < pg \<or> pg + 4096 \<le> x \<Longrightarrow> m' x = m x"
proof -
  let ?s = "sizes ! b"
  have s: "16 \<le> ?s" "n * ?s = 4096" "n \<le> 256" "0 < n" using sizes_facts [OF b] n by (auto intro: Nat.gr0I)
  have b12: "b AND 0xfff = b" using b take_bit_nat_eq_self [of b 12] by (simp add: take_bit_eq_mask mask_numeral)
  have f: "frame pg = pg" using pg by (simp add: frame_fixed)
  have pab: "MKPAB pg b = pg + b" using or_page [OF pg(1), of b] b by (simp add: MKPAB_def b12 f)
  show page: "PR_PAGEADDR pr = pg" using frame_page [OF pg(1), of b] or_page [OF pg(1), of b] b pg(3) by (simp add: PR_PAGEADDR_def pr(1) pab)
  have "(pg + b) AND 0xfff = (pg + b) mod 4096" using take_bit_eq_mask [of 12 "pg + b"] by (simp add: mask_numeral take_bit_eq_mod)
  also have "\<dots> = (pg mod 4096 + b) mod 4096" by (rule mod_add_left_eq [symmetric])
  also have "\<dots> = b" using b unfolding pg(1) by simp
  finally show type: "PR_BLOCKTYPE pr = b" by (simp add: PR_BLOCKTYPE_def pr(1) pab)
  have app: "m' x = (if \<exists>j. 0 < j \<and> j < n \<and> x = pg + j * ?s then x - ?s else (m(pg := 0)) x)" for x
    using thread_list_apply [of ?s pg 0 "n - 1"] s unfolding m'_def by (auto simp: less_Suc_eq_le [symmetric] simp del: fun_upd_apply)
  have "chain (\<lambda>a. ptr (m' a)) (Some (pg + k * ?s)) (map (\<lambda>j. pg + j * ?s) (rev [0..<Suc k]))" if "k < n" for k using that
  proof (induction k)
    case 0
    have "m' pg = 0" using s(1) by (auto simp: app)
    then show ?case by simp
  next
    case (Suc k)
    have "m' (pg + Suc k * ?s) = pg + k * ?s" using Suc.prems by (auto simp: app)
    with Suc pg(2) show ?case by simp
  qed
  from this [of "n - 1"] have c: "chain (\<lambda>a. ptr (m' a)) (Some (pg + (n - 1) * ?s)) (map (\<lambda>j. pg + j * ?s) (rev [0..<n]))" using s(4) by simp
  have "(n - 1) * ?s < n * ?s" using s(1,4) by simp
  then have "fl_head pr = Some (pg + (n - 1) * ?s)" using s(2) by (simp add: fl_head_def pr(2) page)
  note I = pr_listI [of pr m' "map (\<lambda>j. pg + j * ?s) (rev [0..<n])"]
  have sl: "slots pr = set (map (\<lambda>j. pg + j * ?s) (rev [0..<n]))" by (auto simp: slots_def page type n)
  show "pr_list m' pr" "set (free_blocks m' pr) = slots pr"
    using I b page type pg c \<open>fl_head pr = _\<close> sl pr(3) by auto
  show "m' x = m x" if "x < pg \<or> pg + 4096 \<le> x" for x
  proof -
    have "j * ?s < 4096" if "j < n" for j using that s(1,2) by (metis mult_less_mono1 less_le_trans zero_less_numeral)
    then show ?thesis using that by (fastforce simp: app)
  qed
qed

text \<open>A page reference that was not in use becomes the head of its lists.\<close>

lemma fresh_lists:
  fixes m :: "nat \<Rightarrow> nat" and h :: "'w kheap" and w :: 'w
  assumes ok: "lists_ok h" and i: "i < 256" "i \<notin> set (in_list h)" and ws: "length ws = 8" "inuse ws = insert i (set (in_list h))"
    and b: "b < 8" "PR_BLOCKTYPE pr = b" and pr: "next_samesize pr = sizebases h ! b" "next_all pr = allbase h"
  defines "h' \<equiv> h\<lparr>pagerefs := (pagerefs h)[i := pr], pagerefs_inuse := ws, sizebases := (sizebases h)[b := Some i], allbase := Some i, h_mem := m, h_w := w\<rparr>"
  shows "lists_ok h'" and "in_list h' = i # in_list h"
proof -
  let ?ys = "\<lambda>b'. if b' = b then i # of_type h b else of_type h b'"
  have len: "length (pagerefs h) = 256" "length (sizebases h) = 8" using ok by (simp_all add: lists_ok_def)
  have prs: "pagerefs h' ! j = (if j = i then pr else pagerefs h ! j)" for j using i len by (simp add: h'_def nth_list_update)
  have old: "chain (all_links h) (allbase h) (in_list h)" and ot: "b' < 8 \<Longrightarrow> chain (same_links h) (sizebases h ! b') (of_type h b')"
    "b' < 8 \<Longrightarrow> set (of_type h b') = {i \<in> set (in_list h). PR_BLOCKTYPE (pagerefs h ! i) = b'}" for b' using ok by (simp_all add: lists_ok_def)
  have all: "chain (all_links h') (allbase h) (in_list h)" by (rule chain_same [OF old]) (use i(2) in \<open>auto simp: prs\<close>)
  have same: "chain (same_links h') (sizebases h ! b') (of_type h b')" if "b' < 8" for b'
    by (rule chain_same [OF ot(1) [OF that]]) (use ot(2) [OF that] i(2) in \<open>auto simp: prs\<close>)
  have "chain (same_links h') (sizebases h' ! b') (?ys b') \<and> set (?ys b') = {j \<in> set (i # in_list h). PR_BLOCKTYPE (pagerefs h' ! j) = b'}" if "b' < 8" for b'
  proof (cases "b' = b")
    case True
    then show ?thesis using same [OF that] ot(2) [OF that] b i(2) pr(1) len by (auto simp: prs) (simp add: h'_def)
  next
    case False
    then show ?thesis using same [OF that] ot(2) [OF that] b i(2) by (auto simp: prs) (simp add: h'_def)
  qed
  moreover have "chain (all_links h') (allbase h') (i # in_list h)" using all pr(2) by (simp add: prs) (simp add: h'_def)
  ultimately show "lists_ok h'" "in_list h' = i # in_list h" using lists_okI [of h' "i # in_list h" ?ys] ws len by (simp_all add: h'_def)
qed

text \<open>A page reference is taken out of its lists.\<close>

lemma remove_lists_ok:
  assumes ok: "lists_ok h" and i: "i \<in> set (in_list h)" and b: "b = PR_BLOCKTYPE (pagerefs h ! i)" "b < 8"
    and ws: "length ws = 8" "inuse ws = set (in_list h) - {i}"
  shows "\<exists>h2. remove_lists i b h = Some h2 \<and> pagerefs_inuse h2 = pagerefs_inuse h \<and> h_mem h2 = h_mem h \<and> h_w h2 = h_w h \<and>
    (\<forall>j < 256. \<exists>x y. pagerefs h2 ! j = (pagerefs h ! j)\<lparr>next_samesize := x, next_all := y\<rparr>) \<and>
    lists_ok (h2\<lparr>pagerefs_inuse := ws, h_w := w\<rparr>) \<and> in_list (h2\<lparr>pagerefs_inuse := ws, h_w := w\<rparr>) = remove1 i (in_list h)"
proof -
  let ?xs = "in_list h" and ?ys = "of_type h"
  have len: "length (pagerefs h) = 256" "length (sizebases h) = 8" and all: "chain (all_links h) (allbase h) ?xs"
    and same: "\<And>b. b < 8 \<Longrightarrow> chain (same_links h) (sizebases h ! b) (?ys b) \<and> set (?ys b) = {i \<in> set ?xs. PR_BLOCKTYPE (pagerefs h ! i) = b}"
    using ok by (simp_all add: lists_ok_def)
  note l = lists_len [OF ok] and xb = in_list_bound [OF ok]
  have yb: "set (?ys b) \<subseteq> {..<length (pagerefs h)}" "i \<in> set (?ys b)" "distinct (?ys b)" using same [OF b(2)] xb i b(1) len chain_distinct by (auto dest: chain_distinct)
  from unlink_ok [of next_samesize "\<lambda>n. next_samesize_update (\<lambda>_. n)", OF _ _ conjunct1 [OF same [OF b(2)]] yb(3,1,2) l(2) [OF b(2)]]
  obtain n p1 where u1: "unlink (Suc 256) next_samesize (\<lambda>n. next_samesize_update (\<lambda>_. n)) i (sizebases h ! b) (pagerefs h) = Some (n, p1)"
    "chain (\<lambda>i. next_samesize (p1 ! i)) n (remove1 i (?ys b))" "length p1 = 256" "\<forall>j. j \<notin> set (?ys b) \<longrightarrow> p1 ! j = pagerefs h ! j"
    "\<forall>j < 256. \<exists>m. p1 ! j = (pagerefs h ! j)\<lparr>next_samesize := m\<rparr>" by (auto simp: len)
  have na: "next_all (p1 ! j) = next_all (pagerefs h ! j)" if "j < 256" for j using u1(5) that by fastforce
  have "chain (\<lambda>i. next_all (p1 ! i)) (allbase h) ?xs" by (rule chain_same [OF all]) (use na xb in auto)
  from unlink_ok [of next_all "\<lambda>n. next_all_update (\<lambda>_. n)", OF _ _ this chain_distinct [OF this] _ i l(1)] xb u1(3)
  obtain a p2 where u2: "unlink (Suc 256) next_all (\<lambda>n. next_all_update (\<lambda>_. n)) i (allbase h) p1 = Some (a, p2)"
    "chain (\<lambda>i. next_all (p2 ! i)) a (remove1 i ?xs)" "length p2 = 256" "\<forall>j < 256. \<exists>m. p2 ! j = (p1 ! j)\<lparr>next_all := m\<rparr>" by auto
  have ns: "next_samesize (p2 ! j) = next_samesize (p1 ! j)" if "j < 256" for j using u2(4) that by fastforce
  have eq: "\<exists>x y. p2 ! j = (pagerefs h ! j)\<lparr>next_samesize := x, next_all := y\<rparr>" if "j < 256" for j using u1(5) u2(4) that by metis
  then have bt: "PR_BLOCKTYPE (p2 ! j) = PR_BLOCKTYPE (pagerefs h ! j)" if "j < 256" for j using that by fastforce
  let ?h2 = "h\<lparr>sizebases := (sizebases h)[b := n], allbase := a, pagerefs := p2\<rparr>" and ?zs = "\<lambda>b'. remove1 i (?ys b')"
  let ?h3 = "?h2\<lparr>pagerefs_inuse := ws, h_w := w\<rparr>"
  have r: "remove_lists i b h = Some ?h2" using u1(1) u2(1) b(2) by (simp add: remove_lists_def)
  have "chain (same_links ?h3) (sizebases ?h3 ! b') (?zs b') \<and> set (?zs b') = {j \<in> set (remove1 i ?xs). PR_BLOCKTYPE (pagerefs ?h3 ! j) = b'}" if b': "b' < 8" for b'
  proof
    have y: "distinct (?ys b')" "set (?ys b') \<subseteq> {..<256}" using same [OF b'] xb by (auto dest: chain_distinct)
    have "chain (\<lambda>i. next_samesize (p1 ! i)) (sizebases ?h3 ! b') (?zs b')"
    proof (cases "b' = b")
      case False
      then have out: "i \<notin> set (?ys b')" "j \<in> set (?ys b') \<Longrightarrow> p1 ! j = pagerefs h ! j" for j using same [OF b'] same [OF b(2)] b(1) u1(4) by auto
      have "chain (\<lambda>i. next_samesize (p1 ! i)) (sizebases h ! b') (?ys b')" by (rule chain_same [OF conjunct1 [OF same [OF b']]]) (use out(2) in auto)
      then show ?thesis using False out(1) by (simp add: remove1_idem)
    qed (use u1(2) len b(2) in simp)
    then show "chain (same_links ?h3) (sizebases ?h3 ! b') (?zs b')"
      by (rule chain_same) (use ns y(2) set_remove1_subset [of i "?ys b'"] in auto)
    show "set (?zs b') = {j \<in> set (remove1 i ?xs). PR_BLOCKTYPE (pagerefs ?h3 ! j) = b'}"
      using same [OF b'] y(1) chain_distinct [OF all] xb bt by auto
  qed
  note I = lists_okI [of ?h3 "remove1 i ?xs" ?zs, OF _ _ _ _ _ this]
  have "lists_ok ?h3" "in_list ?h3 = remove1 i ?xs" using I(1,2) u2(2,3) len ws chain_distinct [OF all] by simp_all
  then show ?thesis using r eq by (intro exI [of _ ?h2]) simp
qed

section \<open>Blocks\<close>

lemma blocktype_ok: "sz < 2048 \<Longrightarrow> \<exists>b. blocktype sz = Some b \<and> b < 8 \<and> sz \<le> sizes ! b"
  by (simp add: blocktype_def sizes_def)

lemma pr_ok_frame:
  assumes "pr_ok m pr" and "\<And>a. a \<in> slots pr \<Longrightarrow> m' a = m a"
  shows "pr_ok m' pr" and "taken_in m' pr = taken_in m pr"
proof -
  have p: "pr_list m pr" and eq: "\<And>a. a \<in> set (free_blocks m pr) \<Longrightarrow> m' a = m a" using assms by (auto simp: pr_ok_def pr_list_def)
  from pr_list_frame [OF p eq] assms(1) show "pr_ok m' pr" "taken_in m' pr = taken_in m pr" by (simp_all add: pr_ok_def taken_in_def)
qed

lemma links_frame:
  "pr_ok m (pr\<lparr>next_samesize := x, next_all := y\<rparr>) \<longleftrightarrow> pr_ok m pr"
  "taken_in m (pr\<lparr>next_samesize := x, next_all := y\<rparr>) = taken_in m pr"
  by (simp_all add: pr_ok_def pr_list_def taken_in_def free_blocks_def)

text \<open>A block is taken from page \<open>i\<close>, whose blocks may all be free.\<close>

lemma take_block:
  assumes ok: "lists_ok h" and i: "i \<in> set (in_list h)" and inj: "inj_on (\<lambda>i. PR_PAGEADDR (pagerefs h ! i)) (set (in_list h))"
    and pl: "pr_list (h_mem h) (pagerefs h ! i)" "0 < nfree (pagerefs h ! i)"
    and others: "\<And>j. j \<in> set (in_list h) \<Longrightarrow> j \<noteq> i \<Longrightarrow> pr_ok (h_mem h) (pagerefs h ! j)"
  shows "\<exists>a h'. doalloc i h = Some (a, h') \<and> heap_ok h' \<and> heap_pages h' = heap_pages h \<and> h_w h' = h_w h \<and> h_mem h' = h_mem h \<and>
    (a, bsize (pagerefs h ! i)) \<notin> sub_blocks h \<and> sub_blocks h' = insert (a, bsize (pagerefs h ! i)) (sub_blocks h)"
proof -
  let ?m = "h_mem h" and ?pr = "pagerefs h ! i"
  from doalloc_ok [OF pl] obtain f pr n g where d: "pr = ?pr\<lparr>nfree := n, freelist_offset := g\<rparr>" "doalloc i h = Some (f, put_pr i pr h)"
    "free_blocks ?m ?pr = f # free_blocks ?m pr" "pr_ok ?m pr" by blast
  have pr: "next_all pr = next_all ?pr" "next_samesize pr = next_samesize ?pr" "pageaddr_and_blocktype pr = pageaddr_and_blocktype ?pr"
    and sl: "slots pr = slots ?pr" "bsize pr = bsize ?pr" by (simp_all add: d(1))
  have same: "(put_pr i pr h)\<lparr>h_mem := ?m\<rparr> = put_pr i pr h" by simp
  note p = heap_put [OF ok i pr inj d(4) others, unfolded same]
  have f: "f \<in> slots ?pr" "f \<notin> set (free_blocks ?m pr)" using pl(1) d(3) pr_list_bound [OF pl(1)] by (auto simp: pr_list_def)
  have t: "taken_in ?m pr = insert (f, bsize ?pr) (taken_in ?m ?pr)" using f by (auto simp: taken_in_def d(3) sl)
  have "(f, bsize ?pr) \<notin> taken_in ?m (pagerefs h ! j)" if j: "j \<in> set (in_list h)" "j \<noteq> i" for j
  proof -
    have "PR_PAGEADDR ?pr \<noteq> PR_PAGEADDR (pagerefs h ! j)" using inj i j by (auto simp: inj_on_def)
    moreover have "PR_BLOCKTYPE ?pr < 8" "PR_BLOCKTYPE (pagerefs h ! j) < 8" using pl(1) others [OF j] by (auto simp: pr_ok_def pr_list_def)
    ultimately have "f \<notin> slots (pagerefs h ! j)" using slots_other_page [of ?pr "pagerefs h ! j" f f] f(1) sizes_facts by force
    then show ?thesis by (simp add: taken_in_def)
  qed
  moreover have "(f, bsize ?pr) \<notin> taken_in ?m ?pr" by (simp add: taken_in_def d(3))
  ultimately have "(f, bsize ?pr) \<notin> sub_blocks h" by (auto simp: sub_blocks_def)
  then show ?thesis using d(2) p(1,3,4) t sub_blocks_split [OF i] by (intro exI [of _ f] exI [of _ "put_pr i pr h"]) simp
qed

text \<open>A fresh page.\<close>

lemma fresh_page:
  fixes h :: "'w kheap" and w :: 'w
  assumes ok: "heap_ok h" and i: "i < 256" "i \<notin> set (in_list h)" and ws: "length ws = 8" "inuse ws = insert i (set (in_list h))" and b: "b < 8"
    and pg: "pg mod 4096 = 0" "0x80000000 \<le> pg" "pg < 0xa0000000" "pg \<notin> heap_pages h"
  defines "n \<equiv> 4096 div sizes ! b"
  defines "pr \<equiv> \<lparr>next_samesize = sizebases h ! b, next_all = allbase h, pageaddr_and_blocktype = MKPAB pg b, freelist_offset = (n - 1) * sizes ! b, nfree = n\<rparr>"
    and "m \<equiv> thread_list pg (sizes ! b) 1 (n - 1) ((h_mem h)(pg := 0))"
  defines "h' \<equiv> h\<lparr>pagerefs := (pagerefs h)[i := pr], pagerefs_inuse := ws, sizebases := (sizebases h)[b := Some i], allbase := Some i, h_mem := m, h_w := w\<rparr>"
  shows "lists_ok h'" and "in_list h' = i # in_list h" and "inj_on (\<lambda>i. PR_PAGEADDR (pagerefs h' ! i)) (set (in_list h'))"
    and "pr_list m (pagerefs h' ! i)" and "nfree (pagerefs h' ! i) = n" and "bsize (pagerefs h' ! i) = sizes ! b" and "0 < n"
    and "\<And>j. j \<in> set (in_list h) \<Longrightarrow> pr_ok m (pagerefs h' ! j)"
    and "heap_pages h' = insert pg (heap_pages h)" and "sub_blocks h' = sub_blocks h" and "\<And>x. x < pg \<or> pg + 4096 \<le> x \<Longrightarrow> m x = h_mem h x"
proof -
  have lo: "lists_ok h" and inj: "inj_on (\<lambda>i. PR_PAGEADDR (pagerefs h ! i)) (set (in_list h))" and oks: "\<And>j. j \<in> set (in_list h) \<Longrightarrow> pr_ok (h_mem h) (pagerefs h ! j)"
    using ok by (auto simp: heap_ok_def)
  have len: "length (pagerefs h) = 256" using lo by (simp add: lists_ok_def)
  note t = thread_list_ok(1,2) [OF b pg(1-3), of n pr] thread_list_ok(3-5) [OF b pg(1-3), where n = n and pr = pr and m = "h_mem h", folded m_def]
  have prs: "pagerefs h' ! j = (if j = i then pr else pagerefs h ! j)" for j using i len by (simp add: h'_def nth_list_update)
  have mem: "h_mem h' = m" by (simp add: h'_def)
  have page: "PR_PAGEADDR pr = pg" "PR_BLOCKTYPE pr = b" "pr_list m pr" "set (free_blocks m pr) = slots pr" and out: "\<And>x. x < pg \<or> pg + 4096 \<le> x \<Longrightarrow> m x = h_mem h x"
    using t by (simp_all add: n_def pr_def)
  note fl = fresh_lists [OF lo i ws b page(2), where m = m and w = w, folded h'_def]
  show "lists_ok h'" "in_list h' = i # in_list h" using fl by (simp_all add: pr_def)
  note il = \<open>in_list h' = i # in_list h\<close>
  show "pr_list m (pagerefs h' ! i)" "nfree (pagerefs h' ! i) = n" "bsize (pagerefs h' ! i) = sizes ! b" using page(2,3) by (simp_all add: prs) (simp add: pr_def)
  show "0 < n" using sizes_facts [OF b] by (auto simp: n_def intro: Nat.gr0I)
  have other: "pr_ok m (pagerefs h ! j)" "taken_in m (pagerefs h ! j) = taken_in (h_mem h) (pagerefs h ! j)" if j: "j \<in> set (in_list h)" for j
  proof -
    have bt: "PR_BLOCKTYPE (pagerefs h ! j) < 8" using oks [OF j] by (auto simp: pr_ok_def pr_list_def)
    have ne: "PR_PAGEADDR (pagerefs h ! j) \<noteq> pg" using pg(4) j by (auto simp: heap_pages_def)
    have "m a = h_mem h a" if "a \<in> slots (pagerefs h ! j)" for a
      using slots_range(1,4) [OF bt that] ne pages_apart [of pg "PR_PAGEADDR (pagerefs h ! j)"] pages_apart [of "PR_PAGEADDR (pagerefs h ! j)" pg] pg(1)
      by (intro out) (cases "pg < PR_PAGEADDR (pagerefs h ! j)", auto)
    from pr_ok_frame [OF oks [OF j] this] show "pr_ok m (pagerefs h ! j)" "taken_in m (pagerefs h ! j) = taken_in (h_mem h) (pagerefs h ! j)" by blast+
  qed
  show "pr_ok m (pagerefs h' ! j)" if "j \<in> set (in_list h)" for j using other [OF that] i(2) that by (auto simp: prs)
  have ext: "(\<Union>j \<in> set (in_list h). F (pagerefs h' ! j)) = (\<Union>j \<in> set (in_list h). F (pagerefs h ! j))"
    "(\<lambda>j. G (pagerefs h' ! j)) ` set (in_list h) = (\<lambda>j. G (pagerefs h ! j)) ` set (in_list h)" for F :: "pageref \<Rightarrow> (nat \<times> nat) set" and G :: "pageref \<Rightarrow> nat"
    using i(2) by (auto simp: prs image_iff split: if_split_asm)
  show "heap_pages h' = insert pg (heap_pages h)" unfolding heap_pages_def il list.set image_insert ext(2) by (simp add: prs page)
  have "sub_blocks h' = (\<Union>j \<in> set (in_list h). taken_in m (pagerefs h ! j))" unfolding sub_blocks_def il list.set mem UN_insert ext(1) by (simp add: prs taken_in_def page)
  then show "sub_blocks h' = sub_blocks h" using other(2) by (simp add: sub_blocks_def)
  have "inj_on (\<lambda>i. PR_PAGEADDR (pagerefs h' ! i)) (set (in_list h))" using inj i(2) by (auto simp: inj_on_def prs)
  moreover have "pg \<notin> (\<lambda>i. PR_PAGEADDR (pagerefs h' ! i)) ` set (in_list h)" using pg(4) unfolding ext(2) heap_pages_def .
  ultimately show "inj_on (\<lambda>i. PR_PAGEADDR (pagerefs h' ! i)) (set (in_list h'))" using i(2) by (simp add: il prs page)
  show "m x = h_mem h x" if "x < pg \<or> pg + 4096 \<le> x" for x by (rule out [OF that])
qed

lemma find_unique:
  assumes "i \<in> set xs" "P i" and u: "\<And>j. j \<in> set xs \<Longrightarrow> P j \<Longrightarrow> j = i"
  shows "List.find P xs = Some i"
proof (cases "List.find P xs")
  case None
  with assms(1,2) show ?thesis by (auto simp: find_None_iff)
next
  case (Some j)
  then have "j \<in> set xs" "P j" by (auto simp: find_Some_iff)
  from u [OF this] Some show ?thesis by simp
qed

lemma find_owner_list:
  assumes "heap_ok h"
  shows "find_owner (Suc 256) a (allbase h) (pagerefs h) =
    Some (List.find (\<lambda>i. PR_PAGEADDR (pagerefs h ! i) \<le> a \<and> a < PR_PAGEADDR (pagerefs h ! i) + 4096) (in_list h))"
proof (rule find_owner_ok)
  show "chain (\<lambda>i. next_all (pagerefs h ! i)) (allbase h) (in_list h)" "\<forall>i \<in> set (in_list h). PR_BLOCKTYPE (pagerefs h ! i) < 8"
    using assms by (simp_all add: heap_ok_def lists_ok_def pr_ok_def pr_list_def)
  show "length (in_list h) \<le> 256" using assms by (intro lists_len(1)) (simp add: heap_ok_def)
qed

lemma find_owner_page:
  assumes ok: "heap_ok h" and i: "i \<in> set (in_list h)" and a: "PR_PAGEADDR (pagerefs h ! i) \<le> a" "a < PR_PAGEADDR (pagerefs h ! i) + 4096"
  shows "find_owner (Suc 256) a (allbase h) (pagerefs h) = Some (Some i)"
proof -
  have "j = i" if j: "j \<in> set (in_list h)" "PR_PAGEADDR (pagerefs h ! j) \<le> a" "a < PR_PAGEADDR (pagerefs h ! j) + 4096" for j
  proof -
    have "PR_PAGEADDR (pagerefs h ! i) = PR_PAGEADDR (pagerefs h ! j)"
      by (rule same_page_addr [OF PR_PAGEADDR_aligned PR_PAGEADDR_aligned a j(2,3)])
    then show ?thesis using ok i j(1) unfolding heap_ok_def inj_on_def by metis
  qed
  with i a have "List.find (\<lambda>i. PR_PAGEADDR (pagerefs h ! i) \<le> a \<and> a < PR_PAGEADDR (pagerefs h ! i) + 4096) (in_list h) = Some i"
    by (intro find_unique) blast+
  then show ?thesis unfolding find_owner_list [OF ok] by simp
qed

text \<open>A block goes back to its page; the page goes back to the VM system when all its blocks are free.\<close>

lemma give_block:
  assumes ok: "heap_ok h" and i: "i \<in> set (in_list h)" and a: "(a, n) \<in> taken_in (h_mem h) (pagerefs h ! i)"
  defines "pg \<equiv> PR_PAGEADDR (pagerefs h ! i)"
  assumes kf: "kp_free kp pg (h_w h) = Some w"
  shows "\<exists>h'. subpage_kfree kp a h = Some (True, h') \<and> heap_ok h' \<and> (\<forall>x. x < a \<or> a + n \<le> x \<longrightarrow> h_mem h' x = h_mem h x) \<and>
    sub_blocks h' = sub_blocks h - {(a, n)} \<and> (h_w h' = h_w h \<and> heap_pages h' = heap_pages h \<or> h_w h' = w \<and> heap_pages h' = heap_pages h - {pg})"
proof -
  let ?pr = "pagerefs h ! i" and ?m = "h_mem h"
  have lo: "lists_ok h" and inj: "inj_on (\<lambda>i. PR_PAGEADDR (pagerefs h ! i)) (set (in_list h))" and oks: "\<And>j. j \<in> set (in_list h) \<Longrightarrow> pr_ok ?m (pagerefs h ! j)"
    using ok by (auto simp: heap_ok_def)
  have p: "pr_list ?m ?pr" "nfree ?pr < 4096 div bsize ?pr" and bt: "PR_BLOCKTYPE (pagerefs h ! j) < 8" if "j \<in> set (in_list h)" for j
    using oks [OF i] oks [OF that] by (auto simp: pr_ok_def pr_list_def)
  note p = p [OF i]
  have a': "a \<in> slots ?pr" "a \<notin> set (free_blocks ?m ?pr)" "n = bsize ?pr" using a by (auto simp: taken_in_def)
  have r: "pg \<le> a" "a < pg + 4096" "(a - pg) mod bsize ?pr = 0" using slots_range [OF bt [OF i] a'(1)] by (simp_all add: pg_def)
  define m where "m = (fill_deadbeef a (bsize ?pr) ?m)(a := (if freelist_offset ?pr = 0xffff then 0 else pg + freelist_offset ?pr))"
  define pr where "pr = ?pr\<lparr>freelist_offset := a - pg, nfree := u16 (int (nfree ?pr) + 1)\<rparr>"
  note f = free_block_ok [OF p(1) a'(1,2), folded pg_def, folded m_def pr_def]
  have out: "m x = ?m x" if "x < a \<or> a + n \<le> x" for x using that sizes_facts [OF bt [OF i]] a'(3) by (auto simp: m_def fill_deadbeef_out)
  let ?h = "(put_pr i pr h)\<lparr>h_mem := m\<rparr>"
  have links: "next_all pr = next_all ?pr" "next_samesize pr = next_samesize ?pr" "pageaddr_and_blocktype pr = pageaddr_and_blocktype ?pr"
    and sl: "slots pr = slots ?pr" "PR_BLOCKTYPE pr = PR_BLOCKTYPE ?pr" by (simp_all add: pr_def)
  have other: "m x = ?m x" if "j \<in> set (in_list h)" "j \<noteq> i" "x \<in> slots (pagerefs h ! j)" for j x
  proof (rule out)
    have "PR_PAGEADDR ?pr \<noteq> PR_PAGEADDR (pagerefs h ! j)" using inj i that by (auto simp: inj_on_def)
    from slots_other_page [OF bt [OF i] bt [OF that(1)] this a'(1) that(3)] sizes_facts [OF bt [OF that(1)]] show "x < a \<or> a + n \<le> x" by (auto simp: a'(3))
  qed
  have taken: "taken_in m pr = taken_in ?m ?pr - {(a, n)}" using f by (auto simp: taken_in_def sl a'(3))
  have rest: "(a, n) \<notin> taken_in ?m (pagerefs h ! j)" if "j \<in> set (in_list h)" "j \<noteq> i" for j
  proof
    assume "(a, n) \<in> taken_in ?m (pagerefs h ! j)"
    then have "a \<in> slots (pagerefs h ! j)" by (auto simp: taken_in_def)
    moreover have "PR_PAGEADDR ?pr \<noteq> PR_PAGEADDR (pagerefs h ! j)" using inj i that by (auto simp: inj_on_def)
    ultimately show False using slots_other_page [OF bt [OF i] bt [OF that(1)] _ a'(1)] sizes_facts [OF bt [OF i]] sizes_facts [OF bt [OF that(1)]] by force
  qed
  have sub: "(\<Union>j \<in> set (in_list h) - {i}. taken_in ?m (pagerefs h ! j)) \<union> taken_in m pr = sub_blocks h - {(a, n)}"
    unfolding sub_blocks_split [OF i] taken using rest by blast
  have bnd: "nfree pr \<le> 4096 div bsize pr" using f pr_list_bound by blast
  have off: "a - pg < 4096" using r by simp
  note find = find_owner_page [OF ok i r(1,2) [unfolded pg_def]]
  have k: "subpage_kfree kp a h = (if nfree pr = 4096 div bsize pr then do {
           h \<leftarrow> remove_lists i (PR_BLOCKTYPE ?pr) ?h;
           w \<leftarrow> kp_free kp pg (h_w h);
           h \<leftarrow> freepageref i (h\<lparr>h_w := w\<rparr>);
           Some (True, h)
         } else Some (True, ?h))"
    using off r(1,3) bnd unfolding subpage_kfree_def find m_def pr_def pg_def by (simp add: Let_def)
  show ?thesis
  proof (cases "nfree pr = 4096 div bsize pr")
    case False
    then have new: "pr_ok m pr" using f bnd by (simp add: pr_ok_def)
    note hp = heap_put [OF lo i links inj new oks other]
    then show ?thesis using k False out hp sub by (intro exI [of _ ?h]) simp
  next
    case True
    note lp = lists_put [OF lo _ links(1,2) sl(2), of m]
    have i256: "i < 256" "length (pagerefs h) = 256" using in_list_bound [OF lo] i lo by (auto simp: lists_ok_def)
    have us: "length (pagerefs_inuse h) = 8" "inuse (pagerefs_inuse h) = set (in_list h)" using lo by (simp_all add: lists_ok_def)
    from freepageref_ok [OF us(1)] i us(2) obtain ws where ws: "\<And>h' :: 'a kheap. pagerefs_inuse h' = pagerefs_inuse h \<Longrightarrow> freepageref i h' = Some (h'\<lparr>pagerefs_inuse := ws\<rparr>)"
      "length ws = 8" "inuse ws = set (in_list h) - {i}" by metis
    have lo': "lists_ok ?h" "in_list ?h = in_list h" using lp i256 by blast+
    have pri: "pagerefs ?h ! i = pr" "PR_BLOCKTYPE ?pr < 8" using i256 bt [OF i] by simp_all
    have "i \<in> set (in_list ?h)" "PR_BLOCKTYPE ?pr = PR_BLOCKTYPE (pagerefs ?h ! i)" "inuse ws = set (in_list ?h) - {i}"
      unfolding lo'(2) pri(1) sl(2) using i ws(3) by simp_all
    from remove_lists_ok [OF lo'(1) this(1,2) pri(2) ws(2) this(3), of w] obtain h2 where h2: "remove_lists i (PR_BLOCKTYPE ?pr) ?h = Some h2" "pagerefs_inuse h2 = pagerefs_inuse ?h"
      "h_mem h2 = h_mem ?h" "h_w h2 = h_w ?h" "\<forall>j < 256. \<exists>x y. pagerefs h2 ! j = (pagerefs ?h ! j)\<lparr>next_samesize := x, next_all := y\<rparr>"
      "lists_ok (h2\<lparr>pagerefs_inuse := ws, h_w := w\<rparr>)" "in_list (h2\<lparr>pagerefs_inuse := ws, h_w := w\<rparr>) = remove1 i (in_list ?h)"
      by blast
    let ?h3 = "h2\<lparr>pagerefs_inuse := ws, h_w := w\<rparr>"
    have "subpage_kfree kp a h = Some (True, ?h3)" using True k h2(1,2,4) kf ws(1) by simp
    moreover have il: "set (in_list ?h3) = set (in_list h) - {i}" 
      using h2(7) lo'(2) lo chain_distinct [of "all_links h" "allbase h" "in_list h"] by (simp add: lists_ok_def)
    have old: "\<exists>x y. pagerefs ?h3 ! j = (pagerefs h ! j)\<lparr>next_samesize := x, next_all := y\<rparr>" if "j \<in> set (in_list h) - {i}" for j
    proof -
      have "j < 256" "j \<noteq> i" using that in_list_bound [OF lo] by auto
      from h2(5) [rule_format, OF this(1)] this(2) show ?thesis by simp
    qed
    have pages: "PR_PAGEADDR (pagerefs ?h3 ! j) = PR_PAGEADDR (pagerefs h ! j)" "pr_ok m (pagerefs ?h3 ! j)" "taken_in m (pagerefs ?h3 ! j) = taken_in ?m (pagerefs h ! j)"
      if j: "j \<in> set (in_list h) - {i}" for j
    proof -
      from old [OF j] obtain x y where e: "pagerefs ?h3 ! j = (pagerefs h ! j)\<lparr>next_samesize := x, next_all := y\<rparr>" by blast
      have fr: "pr_ok m (pagerefs h ! j)" "taken_in m (pagerefs h ! j) = taken_in ?m (pagerefs h ! j)" using j pr_ok_frame [OF oks, of j m] other [of j] by blast+
      show "PR_PAGEADDR (pagerefs ?h3 ! j) = PR_PAGEADDR (pagerefs h ! j)" unfolding e by simp
      show "pr_ok m (pagerefs ?h3 ! j)" "taken_in m (pagerefs ?h3 ! j) = taken_in ?m (pagerefs h ! j)" unfolding e links_frame by (rule fr)+
    qed
    have "inj_on (\<lambda>i. PR_PAGEADDR (pagerefs ?h3 ! i)) (set (in_list ?h3))" using inj unfolding il inj_on_def by (metis DiffD1 pages(1))
    then have "heap_ok ?h3" using h2(3,6) pages(2) unfolding heap_ok_def il by simp
    moreover have "heap_pages ?h3 = (\<lambda>i. PR_PAGEADDR (pagerefs h ! i)) ` (set (in_list h) - {i})" unfolding heap_pages_def il by (rule image_cong [OF refl pages(1)])
    then have "heap_pages ?h3 = heap_pages h - {pg}" using inj i unfolding heap_pages_def pg_def by (auto simp: inj_on_def)
    moreover have "taken_in m pr = {}"
    proof -
      have "distinct (free_blocks m pr)" "set (free_blocks m pr) \<subseteq> slots pr" "card (slots pr) = nfree pr" "nfree pr = length (free_blocks m pr)"
        using f pr_list_bound True card_slots [of pr] bt [OF i] sl(2) unfolding pr_list_def by metis+
      then show ?thesis using card_subset_eq [of "slots pr" "set (free_blocks m pr)"] by (simp add: taken_in_def distinct_card)
    qed
    moreover have "sub_blocks ?h3 = (\<Union>j \<in> set (in_list h) - {i}. taken_in ?m (pagerefs h ! j))"
      using h2(3) pages(3) unfolding sub_blocks_def il by simp
    ultimately show ?thesis using sub h2(3) out by (intro exI [of _ ?h3]) simp
  qed
qed

end
