(* ===== verification/K_Kmalloc.thy ===== *)
theory K_Kmalloc
  imports K_Kheap
begin

text \<open>
  What the kernel heap promises: the blocks it has handed out, how \<^verbatim>\<open>kmalloc\<close> and \<^verbatim>\<open>kfree\<close> of \<^verbatim>\<open>kern/lib/kheap.c\<close> change them, and
  that they never overlap.

  The locale \<open>page_source\<close> is the interface between the heap and the VM system: runs of pages that do not overlap, and what
  allocating and freeing one does to them. It is interpreted on \<^verbatim>\<open>dumbvm.c\<close>.
\<close>

section \<open>Blocks\<close>

text \<open>A VM system shows the runs of pages it has handed out: address and number of pages. A block is a piece of a page of
  the heap, or a run that is not one of the heap's pages.\<close>

definition large_blocks :: "('w \<Rightarrow> (nat \<times> nat) set) \<Rightarrow> 'w kheap \<Rightarrow> (nat \<times> nat) set" where
  "large_blocks runs h = {(a, n * 4096) | a n. (a, n) \<in> runs (h_w h) \<and> a \<notin> heap_pages h}"

definition blocks :: "('w \<Rightarrow> (nat \<times> nat) set) \<Rightarrow> 'w kheap \<Rightarrow> (nat \<times> nat) set" where
  "blocks runs h = sub_blocks h \<union> large_blocks runs h"

definition heap_inv :: "('w \<Rightarrow> bool) \<Rightarrow> ('w \<Rightarrow> (nat \<times> nat) set) \<Rightarrow> 'w kheap \<Rightarrow> bool" where
  "heap_inv winv runs h \<longleftrightarrow> heap_ok h \<and> winv (h_w h) \<and> (\<forall>a \<in> heap_pages h. (a, 1) \<in> runs (h_w h))"

text \<open>The words of the blocks in \<open>B\<close> are the same in both memories.\<close>

definition same_words :: "(nat \<times> nat) set \<Rightarrow> (nat \<Rightarrow> nat) \<Rightarrow> (nat \<Rightarrow> nat) \<Rightarrow> bool" where
  "same_words B m m' \<longleftrightarrow> (\<forall>(a, n) \<in> B. \<forall>x. a \<le> x \<and> x < a + n \<longrightarrow> m' x = m x)"

lemma same_words_refl [simp]: "same_words B m m"
  by (simp add: same_words_def)

text \<open>What a caller of \<^verbatim>\<open>kmalloc\<close> gets: nothing (\<open>a = 0\<close>), or one new block that is large enough. The words of all other blocks
  are as before.\<close>

definition gives_block :: "('w \<Rightarrow> (nat \<times> nat) set) \<Rightarrow> nat \<Rightarrow> 'w kheap \<Rightarrow> nat \<Rightarrow> 'w kheap \<Rightarrow> bool" where
  "gives_block runs sz h a h' \<longleftrightarrow> same_words (blocks runs h) (h_mem h) (h_mem h') \<and>
     (if a = 0 then blocks runs h' = blocks runs h
      else \<exists>n. sz \<le> n \<and> (a, n) \<notin> blocks runs h \<and> blocks runs h' = insert (a, n) (blocks runs h))"

lemma sub_block_page:
  assumes "heap_ok h" and "(a, n) \<in> sub_blocks h"
  obtains pg where "pg \<in> heap_pages h" "pg \<le> a" "a + n \<le> pg + 4096" "pg mod 4096 = 0" "16 \<le> n" "n \<le> 2048"
proof -
  from assms(2) obtain i where i: "i \<in> set (in_list h)" "a \<in> slots (pagerefs h ! i)" "n = bsize (pagerefs h ! i)" by (auto simp: sub_blocks_def taken_in_def)
  have bt: "PR_BLOCKTYPE (pagerefs h ! i) < 8" using assms(1) i(1) by (auto simp: heap_ok_def pr_ok_def pr_list_def)
  show thesis using i slots_range(1,2) [OF bt i(2)] sizes_facts [OF bt] by (intro that [of "PR_PAGEADDR (pagerefs h ! i)"]) (auto simp: heap_pages_def)
qed

text \<open>The lists depend on the use bits through the set of bits only.\<close>

lemma heap_same:
  assumes "heap_ok h" and "length ws = 8" "inuse ws = inuse (pagerefs_inuse h)"
  shows "heap_ok (h\<lparr>pagerefs_inuse := ws, h_w := w\<rparr>)" and "heap_pages (h\<lparr>pagerefs_inuse := ws, h_w := w\<rparr>) = heap_pages h"
    and "sub_blocks (h\<lparr>pagerefs_inuse := ws, h_w := w\<rparr>) = sub_blocks h"
proof -
  have il: "in_list (h\<lparr>pagerefs_inuse := ws, h_w := w\<rparr>) = in_list h" "of_type (h\<lparr>pagerefs_inuse := ws, h_w := w\<rparr>) b = of_type h b" for b
    by (simp_all add: in_list_def of_type_def)
  have "lists_ok (h\<lparr>pagerefs_inuse := ws, h_w := w\<rparr>)" using assms unfolding heap_ok_def lists_ok_def il by simp
  then show "heap_ok (h\<lparr>pagerefs_inuse := ws, h_w := w\<rparr>)" using assms(1) unfolding heap_ok_def il by simp
  show "heap_pages (h\<lparr>pagerefs_inuse := ws, h_w := w\<rparr>) = heap_pages h" "sub_blocks (h\<lparr>pagerefs_inuse := ws, h_w := w\<rparr>) = sub_blocks h"
    unfolding heap_pages_def sub_blocks_def il by simp_all
qed

lemma allocpageref_cases:
  assumes "lists_ok h"
  obtains (None) ws where "allocpageref h = Some (None, h\<lparr>pagerefs_inuse := ws\<rparr>)" "ws = pagerefs_inuse h"
  | (Some) i ws where "allocpageref h = Some (Some i, h\<lparr>pagerefs_inuse := ws\<rparr>)" "i < 256" "i \<notin> set (in_list h)" "length ws = 8" "inuse ws = insert i (set (in_list h))"
proof -
  have l: "length (pagerefs_inuse h) = 8" "inuse (pagerefs_inuse h) = set (in_list h)" using assms by (simp_all add: lists_ok_def)
  from inuse_words_ok [OF l(1), of 0 8] consider
    j ws where "inuse_words 0 8 (pagerefs_inuse h) = Some (Some j, ws)" "j < 256" "j \<notin> set (in_list h)" "length ws = 8" "inuse ws = insert j (set (in_list h))"
    | "inuse_words 0 8 (pagerefs_inuse h) = Some (None, pagerefs_inuse h)" unfolding l(2) by force
  then show thesis
  proof cases
    case 1
    then show thesis by (intro Some [of j ws]) (simp_all add: allocpageref_def)
  next
    case 2
    then show thesis by (intro None [of "pagerefs_inuse h"]) (simp_all add: allocpageref_def)
  qed
qed

lemma update_order:
  "h\<lparr>pagerefs_inuse := ws, h_w := w, pagerefs := p, h_mem := m, sizebases := b, allbase := a\<rparr> =
   h\<lparr>pagerefs := p, pagerefs_inuse := ws, sizebases := b, allbase := a, h_mem := m, h_w := w\<rparr>"
  by (cases h) simp

lemma find_SomeD: "List.find P xs = Some x \<Longrightarrow> x \<in> set xs \<and> P x"
  by (auto simp: find_Some_iff)

section \<open>Pages for the heap\<close>

locale page_source =
  fixes kp :: "'w kpages" and winv :: "'w \<Rightarrow> bool" and runs :: "'w \<Rightarrow> (nat \<times> nat) set"
  assumes run_law: "winv w \<Longrightarrow> (a, n) \<in> runs w \<Longrightarrow> 0 < n \<and> a mod 4096 = 0 \<and> 0x80000000 \<le> a \<and> a + n * 4096 \<le> 0xa0000000"
    and apart_law: "winv w \<Longrightarrow> (a, n) \<in> runs w \<Longrightarrow> (b, k) \<in> runs w \<Longrightarrow> (a, n) \<noteq> (b, k) \<Longrightarrow> a + n * 4096 \<le> b \<or> b + k * 4096 \<le> a"
    and alloc_law: "winv w \<Longrightarrow> 0 < n \<Longrightarrow> n < 2 ^ 31 \<Longrightarrow> \<exists>a w'. kp_alloc kp (int n) w = Some (a, w') \<and> winv w' \<and>
      (a = 0 \<and> runs w' = runs w \<or> a \<noteq> 0 \<and> (a, n) \<notin> runs w \<and> runs w' = insert (a, n) (runs w))"
    and free_law: "winv w \<Longrightarrow> (a, n) \<in> runs w \<Longrightarrow> \<exists>w'. kp_free kp a w = Some w' \<and> winv w' \<and> runs w' = runs w - {(a, n)}"
begin

lemma run_unique: "winv w \<Longrightarrow> (a, n) \<in> runs w \<Longrightarrow> (a, k) \<in> runs w \<Longrightarrow> n = k"
  using apart_law [of w a n a k] run_law [of w a n] run_law [of w a k] by force

lemma page_of_run: "winv w \<Longrightarrow> (a, n) \<in> runs w \<Longrightarrow> (pg, 1) \<in> runs w \<Longrightarrow> a \<noteq> pg \<Longrightarrow> a + n * 4096 \<le> pg \<or> pg + 4096 \<le> a"
  using apart_law [of w a n pg 1] by auto

text \<open>Blocks do not overlap.\<close>

lemma blocks_apart:
  assumes winv: "heap_inv winv runs h" and b: "(a, n) \<in> blocks runs h" "(b, k) \<in> blocks runs h" "(a, n) \<noteq> (b, k)"
  shows "a + n \<le> b \<or> b + k \<le> a"
proof -
  have ok: "heap_ok h" "winv (h_w h)" and pages: "pg \<in> heap_pages h \<Longrightarrow> (pg, 1) \<in> runs (h_w h)" for pg using winv by (auto simp: heap_inv_def)
  have mixed: "x + y \<le> u \<or> u + v \<le> x" if "(x, y) \<in> sub_blocks h" "(u, v) \<in> large_blocks runs h" for x y u v
  proof -
    from sub_block_page [OF ok(1) that(1)] obtain pg where pg: "pg \<in> heap_pages h" "pg \<le> x" "x + y \<le> pg + 4096" by metis
    from that(2) obtain m where m: "(u, m) \<in> runs (h_w h)" "u \<notin> heap_pages h" "v = m * 4096" by (auto simp: large_blocks_def)
    have "u \<noteq> pg" using m(2) pg(1) by blast
    from page_of_run [OF ok(2) m(1) pages [OF pg(1)] this] m(3) pg(2,3) show ?thesis by auto
  qed
  have large: "x + y \<le> u \<or> u + v \<le> x" if "(x, y) \<in> large_blocks runs h" "(u, v) \<in> large_blocks runs h" "(x, y) \<noteq> (u, v)" for x y u v
    using that apart_law [OF ok(2)] by (fastforce simp: large_blocks_def)
  from b show ?thesis using sub_blocks_apart [OF ok(1)] mixed large unfolding blocks_def by blast
qed

lemma sub_not_large: "heap_inv winv runs h \<Longrightarrow> (a, n) \<in> sub_blocks h \<Longrightarrow> (a, n) \<notin> large_blocks runs h"
proof
  assume h: "heap_inv winv runs h" "(a, n) \<in> sub_blocks h" "(a, n) \<in> large_blocks runs h"
  from h(1) have "heap_ok h" by (simp add: heap_inv_def)
  from sub_block_page [OF this h(2)] have "16 \<le> n" "n \<le> 2048" by metis+
  with h(3) show False by (auto simp: large_blocks_def)
qed

lemma sub_nonzero: "heap_inv winv runs h \<Longrightarrow> (a, n) \<in> sub_blocks h \<Longrightarrow> a \<noteq> 0"
proof -
  assume h: "heap_inv winv runs h" "(a, n) \<in> sub_blocks h"
  then have ok: "heap_ok h" "winv (h_w h)" by (simp_all add: heap_inv_def)
  from sub_block_page [OF ok(1) h(2)] obtain pg where "pg \<in> heap_pages h" "pg \<le> a" by metis
  with h(1) run_law [OF ok(2), of pg 1] show ?thesis by (auto simp: heap_inv_def)
qed

text \<open>A piece of a page of the heap is handed out.\<close>

lemma gives_sub:
  assumes h': "heap_inv winv runs h'" and new: "(a, n) \<notin> sub_blocks h" "sub_blocks h' = insert (a, n) (sub_blocks h)"
    and large: "large_blocks runs h' = large_blocks runs h" and sz: "sz \<le> n" and mem: "same_words (blocks runs h) (h_mem h) (h_mem h')"
  shows "gives_block runs sz h a h'"
proof -
  have "(a, n) \<notin> large_blocks runs h" using sub_not_large [OF h', of a n] new(2) large by simp
  moreover have "a \<noteq> 0" using sub_nonzero [OF h', of a n] new(2) by simp
  ultimately show ?thesis using assms by (auto simp: gives_block_def blocks_def)
qed

text \<open>The runs after the heap has got a page.\<close>

lemma large_fresh:
  assumes "winv w" and "runs w = insert (pg, 1) (runs (h_w h))" and "h_w h' = w" and "heap_pages h' = insert pg (heap_pages h)" and "(pg, 1) \<notin> runs (h_w h)"
  shows "large_blocks runs h' = large_blocks runs h"
proof -
  have "(pg, n) \<notin> runs (h_w h)" for n using run_unique [OF assms(1), of pg n 1] assms(2,5) by auto
  with assms(2-4) show ?thesis by (auto simp: large_blocks_def)
qed

lemma fresh_page_apart:
  assumes h: "heap_ok h" "\<forall>a \<in> heap_pages h. (a, 1) \<in> runs (h_w h)" and w: "winv w" "runs w = insert (pg, 1) (runs (h_w h))" "(pg, 1) \<notin> runs (h_w h)"
    and b: "(a, n) \<in> blocks runs h"
  shows "a + n \<le> pg \<or> pg + 4096 \<le> a"
proof (cases "(a, n) \<in> sub_blocks h")
  case True
  from sub_block_page [OF h(1) True] obtain q where q: "q \<in> heap_pages h" "q \<le> a" "a + n \<le> q + 4096" by metis
  have "(q, 1) \<in> runs w" "q \<noteq> pg" using h(2) q(1) w(2,3) by auto
  with page_of_run [OF w(1) this(1), of pg] w(2) q show ?thesis by auto
next
  case False
  with b obtain k where k: "(a, k) \<in> runs (h_w h)" "n = k * 4096" by (auto simp: blocks_def large_blocks_def)
  have "(a, k) \<noteq> (pg, 1)" using k(1) w(3) by auto
  with apart_law [OF w(1), of a k pg 1] k w(2) show ?thesis by auto
qed

lemma subpage_kmalloc_law:
  assumes inv: "heap_inv winv runs h" and sz: "sz < 2048"
  shows "\<exists>a h'. subpage_kmalloc kp sz h = Some (a, h') \<and> heap_inv winv runs h' \<and> gives_block runs sz h a h'"
proof -
  have ok: "heap_ok h" "winv (h_w h)" and pages: "\<forall>a \<in> heap_pages h. (a, 1) \<in> runs (h_w h)" using inv by (auto simp: heap_inv_def)
  have lo: "lists_ok h" and inj: "inj_on (\<lambda>i. PR_PAGEADDR (pagerefs h ! i)) (set (in_list h))" and oks: "\<And>j. j \<in> set (in_list h) \<Longrightarrow> pr_ok (h_mem h) (pagerefs h ! j)"
    using ok(1) by (auto simp: heap_ok_def)
  from blocktype_ok [OF sz] obtain b where b: "blocktype sz = Some b" "b < 8" "sz \<le> sizes ! b" by blast
  have ot: "chain (same_links h) (sizebases h ! b) (of_type h b)" "set (of_type h b) = {i \<in> set (in_list h). PR_BLOCKTYPE (pagerefs h ! i) = b}"
    using lo b(2) by (simp_all add: lists_ok_def)
  have find: "find_page (Suc 256) b (sizebases h ! b) (pagerefs h) = Some (List.find (\<lambda>i. nfree (pagerefs h ! i) > 0) (of_type h b))"
    using find_page_ok [OF ot(1) lists_len(2) [OF lo b(2)]] ot(2) by blast
  show ?thesis
  proof (cases "List.find (\<lambda>i. nfree (pagerefs h ! i) > 0) (of_type h b)")
    case (Some i)
    with find_SomeD [OF Some] ot(2) have i: "i \<in> set (in_list h)" "0 < nfree (pagerefs h ! i)" "PR_BLOCKTYPE (pagerefs h ! i) = b" by auto
    have "pr_list (h_mem h) (pagerefs h ! i)" using oks [OF i(1)] by (simp add: pr_ok_def)
    from take_block [OF lo i(1) inj this i(2) oks] i(3) obtain a h' where t: "doalloc i h = Some (a, h')" "heap_ok h'" "heap_pages h' = heap_pages h" "h_w h' = h_w h"
      "h_mem h' = h_mem h" "(a, sizes ! b) \<notin> sub_blocks h" "sub_blocks h' = insert (a, sizes ! b) (sub_blocks h)" by auto
    have "heap_inv winv runs h'" using t ok(2) pages by (simp add: heap_inv_def)
    moreover have "large_blocks runs h' = large_blocks runs h" by (simp add: large_blocks_def t)
    moreover have "subpage_kmalloc kp sz h = Some (a, h')" by (simp add: subpage_kmalloc_def b(1) find [simplified] Some t(1))
    ultimately show ?thesis using gives_sub [of h' a "sizes ! b" h sz] t b(3) by auto
  next
    case None
    note none = this
    from lo show ?thesis
    proof (cases rule: allocpageref_cases)
      case (None ws)
      then have "subpage_kmalloc kp sz h = Some (0, h)" by (simp add: subpage_kmalloc_def b(1) find [simplified] none)
      then show ?thesis using inv by (intro exI [of _ 0] exI [of _ h]) (simp add: gives_block_def)
    next
      case (Some i ws)
      from alloc_law [OF ok(2), of 1] obtain pg w where w: "kp_alloc kp 1 (h_w h) = Some (pg, w)" "winv w"
        "pg = 0 \<and> runs w = runs (h_w h) \<or> pg \<noteq> 0 \<and> (pg, 1) \<notin> runs (h_w h) \<and> runs w = insert (pg, 1) (runs (h_w h))" by auto
      show ?thesis
      proof (cases "pg = 0")
        case True
        have "i \<in> inuse ws" using Some(5) by simp
        from freepageref_ok [OF Some(4) this] obtain vs where vs: "\<And>h' :: 'w kheap. pagerefs_inuse h' = ws \<Longrightarrow> freepageref i h' = Some (h'\<lparr>pagerefs_inuse := vs\<rparr>)"
          "length vs = 8" "inuse vs = inuse ws - {i}" by blast
        let ?h = "h\<lparr>pagerefs_inuse := vs, h_w := w\<rparr>"
        have "inuse vs = inuse (pagerefs_inuse h)" using vs(3) Some(3,5) lo by (simp add: lists_ok_def)
        note hs = heap_same [OF ok(1) vs(2) this, of w]
        have "subpage_kmalloc kp sz h = Some (0, ?h)" using w(1) True vs(1) by (simp add: subpage_kmalloc_def b(1) find [simplified] none Some(1))
        moreover have "heap_inv winv runs ?h" using hs w True pages by (simp add: heap_inv_def)
        moreover have "blocks runs ?h = blocks runs h" using hs w(3) True by (simp add: blocks_def large_blocks_def)
        ultimately show ?thesis by (intro exI [of _ 0] exI [of _ ?h]) (simp add: gives_block_def)
      next
        case False
        with w(3) have r: "(pg, 1) \<notin> runs (h_w h)" "runs w = insert (pg, 1) (runs (h_w h))" by auto
        have pg: "pg mod 4096 = 0" "0x80000000 \<le> pg" "pg < 0xa0000000" using run_law [OF w(2), of pg 1] r(2) by auto
        have "pg \<notin> heap_pages h" using pages r(1) by auto
        note fresh = fresh_page(1-6,8-10) [OF ok(1) Some(2-5) b(2) pg this, where w = w] and rest = fresh_page(7,11) [OF ok(1) Some(2-5) b(2) pg this]
        define n where "n = 4096 div sizes ! b"
        define m where "m = thread_list pg (sizes ! b) 1 (n - 1) ((h_mem h)(pg := 0))"
        define pr where "pr = \<lparr>next_samesize = sizebases h ! b, next_all = allbase h, pageaddr_and_blocktype = MKPAB pg b, freelist_offset = (n - 1) * sizes ! b, nfree = n\<rparr>"
        define h2 where "h2 = h\<lparr>pagerefs := (pagerefs h)[i := pr], pagerefs_inuse := ws, sizebases := (sizebases h)[b := Some i], allbase := Some i, h_mem := m, h_w := w\<rparr>"
        note fp = fresh(1-6) [folded n_def, folded m_def pr_def, folded h2_def] rest(1) [folded n_def]
          fresh(7-9) [folded n_def, folded m_def pr_def, folded h2_def] rest(2) [folded n_def, folded m_def]
        have mem: "h_mem h2 = m" "h_w h2 = w" by (simp_all add: h2_def)
        have others: "\<And>j. j \<in> set (in_list h2) \<Longrightarrow> j \<noteq> i \<Longrightarrow> pr_ok (h_mem h2) (pagerefs h2 ! j)" using fp(2,8) mem by auto
        have "i \<in> set (in_list h2)" "pr_list (h_mem h2) (pagerefs h2 ! i)" "0 < nfree (pagerefs h2 ! i)" using fp(2,4,5,7) mem by simp_all
        from take_block [OF fp(1) this(1) fp(3) this(2,3) others] obtain a h' where t: "doalloc i h2 = Some (a, h')" "heap_ok h'" "heap_pages h' = heap_pages h2" "h_w h' = w"
          "h_mem h' = m" "(a, sizes ! b) \<notin> sub_blocks h" "sub_blocks h' = insert (a, sizes ! b) (sub_blocks h)" unfolding fp(6) fp(10) mem by blast
        have "subpage_kmalloc kp sz h = Some (a, h')" using w(1) False t(1)
          by (simp add: subpage_kmalloc_def b(1) find [simplified] none Some(1) Let_def h2_def n_def m_def pr_def update_order)
        moreover have inv': "heap_inv winv runs h'" using t(2-4) w(2) r(2) fp(9) pages by (simp add: heap_inv_def)
        moreover have "large_blocks runs h' = large_blocks runs h" using large_fresh [OF w(2) r(2) t(4) _ r(1)] t(3) fp(9) by simp
        moreover have "same_words (blocks runs h) (h_mem h) (h_mem h')"
        proof -
          have "m x = h_mem h x" if "(c, k) \<in> blocks runs h" "c \<le> x" "x < c + k" for c k x
            using fresh_page_apart [OF ok(1) pages w(2) r(2,1) that(1)] that(2,3) by (intro fp(11)) auto
          then show ?thesis by (auto simp: same_words_def t(5))
        qed
        ultimately show ?thesis using gives_sub [OF inv' t(6,7) _ b(3)] by auto
      qed
    qed
  qed
qed

lemma heap_w:
  fixes h :: "'w kheap"
  shows "heap_ok (h\<lparr>h_w := w\<rparr>) = heap_ok h" and "heap_pages (h\<lparr>h_w := w\<rparr>) = heap_pages h" and "sub_blocks (h\<lparr>h_w := w\<rparr>) = sub_blocks h"
  by (simp_all add: heap_ok_def lists_ok_def heap_pages_def sub_blocks_def in_list_def of_type_def)

theorem kmalloc_law:
  assumes inv: "heap_inv winv runs h" and sz: "sz + 4095 < 2 ^ 32"
  shows "\<exists>a h'. kmalloc_heap kp sz h = Some (a, h') \<and> heap_inv winv runs h' \<and> gives_block runs sz h a h'"
proof (cases "sz < 2048")
  case True
  with subpage_kmalloc_law [OF inv True] show ?thesis by (simp add: kmalloc_heap_def)
next
  case False
  define n where "n = (sz + 4095) div 4096"
  have n: "0 < n" "sz \<le> n * 4096" "(sz + 4096 - 1) mod 2 ^ 32 div 4096 = n" using False sz by (auto simp: n_def)
  have nl: "n < 2 ^ 31" using sz by (simp add: n_def)
  have ok: "heap_ok h" "winv (h_w h)" and pages: "\<forall>a \<in> heap_pages h. (a, 1) \<in> runs (h_w h)" using inv by (auto simp: heap_inv_def)
  show ?thesis
  proof (cases "opt_dumbvm kp \<and> n > 1")
    case True
    then have "kmalloc_heap kp sz h = Some (0, h)" using False n(3) by (simp add: kmalloc_heap_def Let_def)
    then show ?thesis using inv by (intro exI [of _ 0] exI [of _ h]) (simp add: gives_block_def)
  next
    case small: False
    from alloc_law [OF ok(2) n(1) nl] obtain a w where w: "kp_alloc kp (int n) (h_w h) = Some (a, w)" "winv w"
      "a = 0 \<and> runs w = runs (h_w h) \<or> a \<noteq> 0 \<and> (a, n) \<notin> runs (h_w h) \<and> runs w = insert (a, n) (runs (h_w h))" by auto
    let ?h = "h\<lparr>h_w := w\<rparr>"
    have "kmalloc_heap kp sz h = Some (a, ?h)" using False small n(3) w(1) by (auto simp: kmalloc_heap_def Let_def)
    moreover have "heap_inv winv runs ?h" using inv w(2,3) by (auto simp: heap_inv_def heap_w)
    moreover have "gives_block runs sz h a ?h"
    proof (cases "a = 0")
      case True
      with w(3) show ?thesis by (simp add: gives_block_def blocks_def large_blocks_def heap_w)
    next
      case False
      with w(3) have r: "(a, n) \<notin> runs (h_w h)" "runs w = insert (a, n) (runs (h_w h))" by auto
      have "a \<notin> heap_pages h" using run_unique [OF w(2), of a n 1] r pages by auto
      then have "blocks runs ?h = insert (a, n * 4096) (blocks runs h)" using r(2) by (auto simp: blocks_def large_blocks_def heap_w)
      moreover have "(a, n * 4096) \<notin> sub_blocks h"
      proof
        assume "(a, n * 4096) \<in> sub_blocks h"
        from sub_block_page [OF ok(1) this] have "n * 4096 \<le> 2048" by metis
        with n(1) show False by simp
      qed
      ultimately show ?thesis using n(2) r(1) False by (auto simp: gives_block_def blocks_def large_blocks_def)
    qed
    ultimately show ?thesis by blast
  qed
qed

text \<open>Freeing a block takes away this block only.\<close>

theorem kfree_law:
  assumes inv: "heap_inv winv runs h" and b: "(a, n) \<in> blocks runs h"
  shows "\<exists>h'. kfree kp a h = Some h' \<and> heap_inv winv runs h' \<and> blocks runs h' = blocks runs h - {(a, n)} \<and> same_words (blocks runs h - {(a, n)}) (h_mem h) (h_mem h')"
proof -
  have ok: "heap_ok h" "winv (h_w h)" and pages: "\<forall>a \<in> heap_pages h. (a, 1) \<in> runs (h_w h)" using inv by (auto simp: heap_inv_def)
  show ?thesis
  proof (cases "(a, n) \<in> sub_blocks h")
    case True
    then obtain i where i: "i \<in> set (in_list h)" "(a, n) \<in> taken_in (h_mem h) (pagerefs h ! i)" by (auto simp: sub_blocks_def)
    let ?pg = "PR_PAGEADDR (pagerefs h ! i)"
    have pg: "?pg \<in> heap_pages h" "(?pg, 1) \<in> runs (h_w h)" using i(1) pages by (auto simp: heap_pages_def)
    from free_law [OF ok(2) pg(2)] obtain w where w: "kp_free kp ?pg (h_w h) = Some w" "winv w" "runs w = runs (h_w h) - {(?pg, 1)}" by blast
    have nz: "a \<noteq> 0" by (rule sub_nonzero [OF inv True])
    from give_block [OF ok(1) i w(1)] obtain h' where h': "subpage_kfree kp a h = Some (True, h')" "heap_ok h'" "\<forall>x. x < a \<or> a + n \<le> x \<longrightarrow> h_mem h' x = h_mem h x"
      "sub_blocks h' = sub_blocks h - {(a, n)}" "h_w h' = h_w h \<and> heap_pages h' = heap_pages h \<or> h_w h' = w \<and> heap_pages h' = heap_pages h - {?pg}" by blast
    have "large_blocks runs h' = large_blocks runs h"
    proof -
      have "(?pg, k) \<notin> runs w" for k using run_unique [OF ok(2) _ pg(2), of k] w(3) by blast
      then have "(c, k) \<in> runs w \<and> c \<notin> heap_pages h - {?pg} \<longleftrightarrow> (c, k) \<in> runs (h_w h) \<and> c \<notin> heap_pages h" for c k
        using w(3) pg(1) by blast
      with h'(5) show ?thesis by (elim disjE conjE) (simp_all add: large_blocks_def)
    qed
    then have "blocks runs h' = blocks runs h - {(a, n)}" using h'(4) sub_not_large [OF inv True] by (auto simp: blocks_def)
    moreover have "heap_inv winv runs h'" using h'(2,5) ok(2) w(2,3) pages by (auto simp: heap_inv_def)
    moreover have "kfree kp a h = Some h'" using nz h'(1) by (simp add: kfree_def)
    moreover have "same_words (blocks runs h - {(a, n)}) (h_mem h) (h_mem h')"
      unfolding same_words_def using blocks_apart [OF inv b] h'(3) by fastforce
    ultimately show ?thesis by blast
  next
    case False
    with b obtain k where k: "(a, k) \<in> runs (h_w h)" "n = k * 4096" "a \<notin> heap_pages h" by (auto simp: blocks_def large_blocks_def)
    note rl = run_law [OF ok(2) k(1)]
    from free_law [OF ok(2) k(1)] obtain w where w: "kp_free kp a (h_w h) = Some w" "winv w" "runs w = runs (h_w h) - {(a, k)}" by blast
    have "\<not> (PR_PAGEADDR (pagerefs h ! i) \<le> a \<and> a < PR_PAGEADDR (pagerefs h ! i) + 4096)" if i: "i \<in> set (in_list h)" for i
    proof -
      have "PR_PAGEADDR (pagerefs h ! i) \<in> heap_pages h" using i by (auto simp: heap_pages_def)
      with page_of_run [OF ok(2) k(1)] pages k(3) have "a + k * 4096 \<le> PR_PAGEADDR (pagerefs h ! i) \<or> PR_PAGEADDR (pagerefs h ! i) + 4096 \<le> a" by blast
      with rl show ?thesis by auto
    qed
    then have "find_owner (Suc 256) a (allbase h) (pagerefs h) = Some None" unfolding find_owner_list [OF ok(1)] by (simp add: find_None_iff)
    then have "kfree kp a h = Some (h\<lparr>h_w := w\<rparr>)" using rl w(1) by (simp add: kfree_def subpage_kfree_def)
    moreover have "heap_inv winv runs (h\<lparr>h_w := w\<rparr>)" using inv w(2,3) k(3) by (auto simp: heap_inv_def heap_w)
    moreover have "large_blocks runs (h\<lparr>h_w := w\<rparr>) = large_blocks runs h - {(a, n)}" unfolding large_blocks_def heap_w(2) k(2) by (auto simp: w(3))
    then have "blocks runs (h\<lparr>h_w := w\<rparr>) = blocks runs h - {(a, n)}" using False unfolding blocks_def heap_w(3) by blast
    ultimately show ?thesis by (intro exI [of _ "h\<lparr>h_w := w\<rparr>"]) simp
  qed
qed

lemma block_range:
  assumes inv: "heap_inv winv runs h" and b: "(a, n) \<in> blocks runs h"
  shows "0x80000000 \<le> a \<and> a + n \<le> 0xa0000000"
proof (cases "(a, n) \<in> sub_blocks h")
  case True
  from inv have ok: "heap_ok h" "winv (h_w h)" by (simp_all add: heap_inv_def)
  from sub_block_page [OF ok(1) True] obtain pg where pg: "pg \<in> heap_pages h" "pg \<le> a" "a + n \<le> pg + 4096" by metis
  with inv run_law [OF ok(2), of pg 1] show ?thesis by (auto simp: heap_inv_def)
next
  case False
  with b obtain k where "(a, k) \<in> runs (h_w h)" "n = k * 4096" by (auto simp: blocks_def large_blocks_def)
  with run_law [of "h_w h" a k] inv show ?thesis by (simp add: heap_inv_def)
qed

text \<open>Clients write into their blocks; the free lists run through other words.\<close>

lemma free_word_apart:
  assumes inv: "heap_inv winv runs h" and i: "i \<in> set (in_list h)" and a: "a \<in> set (free_blocks (h_mem h) (pagerefs h ! i))" and b: "(b, k) \<in> blocks runs h"
  shows "a < b \<or> b + k \<le> a"
proof -
  have ok: "heap_ok h" "winv (h_w h)" and pages: "\<forall>a \<in> heap_pages h. (a, 1) \<in> runs (h_w h)" using inv by (auto simp: heap_inv_def)
  have bt: "PR_BLOCKTYPE (pagerefs h ! j) < 8" "set (free_blocks (h_mem h) (pagerefs h ! j)) \<subseteq> slots (pagerefs h ! j)" if "j \<in> set (in_list h)" for j
    using ok(1) that by (auto simp: heap_ok_def pr_ok_def pr_list_def)
  have sl: "a \<in> slots (pagerefs h ! i)" using bt(2) [OF i] a by blast
  note r = slots_range(1,4) [OF bt(1) [OF i] sl]
  show ?thesis
  proof (cases "(b, k) \<in> sub_blocks h")
    case True
    then obtain j where j: "j \<in> set (in_list h)" "b \<in> slots (pagerefs h ! j)" "b \<notin> set (free_blocks (h_mem h) (pagerefs h ! j))" "k = bsize (pagerefs h ! j)"
      by (auto simp: sub_blocks_def taken_in_def)
    show ?thesis
    proof (cases "j = i")
      case True
      then have "a \<noteq> b" using a j(3) by auto
      then show ?thesis using slots_apart [OF j(2), of a] True sl j(4) by (cases "b < a") auto
    next
      case False
      then have "PR_PAGEADDR (pagerefs h ! i) \<noteq> PR_PAGEADDR (pagerefs h ! j)" using ok(1) i j(1) unfolding heap_ok_def inj_on_def by metis
      from slots_other_page [OF bt(1) [OF i] bt(1) [OF j(1)] this sl j(2)] j(4) sizes_facts [OF bt(1) [OF i]] show ?thesis by auto
    qed
  next
    case False
    with b obtain n where n: "(b, n) \<in> runs (h_w h)" "b \<notin> heap_pages h" "k = n * 4096" by (auto simp: blocks_def large_blocks_def)
    have pg: "PR_PAGEADDR (pagerefs h ! i) \<in> heap_pages h" using i by (auto simp: heap_pages_def)
    have "b \<noteq> PR_PAGEADDR (pagerefs h ! i)" using n(2) pg by blast
    from page_of_run [OF ok(2) n(1) _ this] pages pg n(3) r show ?thesis by auto
  qed
qed

lemma write_law:
  assumes inv: "heap_inv winv runs h" and m: "\<And>x. (\<And>b k. (b, k) \<in> blocks runs h \<Longrightarrow> x < b \<or> b + k \<le> x) \<Longrightarrow> m x = h_mem h x"
  shows "heap_inv winv runs (h\<lparr>h_mem := m\<rparr>)" and "blocks runs (h\<lparr>h_mem := m\<rparr>) = blocks runs h"
proof -
  have il: "in_list (h\<lparr>h_mem := m\<rparr>) = in_list h" "of_type (h\<lparr>h_mem := m\<rparr>) b = of_type h b" "heap_pages (h\<lparr>h_mem := m\<rparr>) = heap_pages h" for b
    by (simp_all add: in_list_def of_type_def heap_pages_def)
  have ok: "heap_ok h" using inv by (simp add: heap_inv_def)
  have fr: "pr_ok m (pagerefs h ! i)" "taken_in m (pagerefs h ! i) = taken_in (h_mem h) (pagerefs h ! i)" if i: "i \<in> set (in_list h)" for i
  proof -
    have pl: "pr_list (h_mem h) (pagerefs h ! i)" "nfree (pagerefs h ! i) < 4096 div bsize (pagerefs h ! i)" using ok i by (auto simp: heap_ok_def pr_ok_def)
    have "m a = h_mem h a" if "a \<in> set (free_blocks (h_mem h) (pagerefs h ! i))" for a by (rule m) (rule free_word_apart [OF inv i that])
    note f = pr_list_frame [OF pl(1) this]
    show "pr_ok m (pagerefs h ! i)" "taken_in m (pagerefs h ! i) = taken_in (h_mem h) (pagerefs h ! i)" using f pl(2) by (simp_all add: pr_ok_def taken_in_def)
  qed
  have "lists_ok (h\<lparr>h_mem := m\<rparr>)" using ok unfolding heap_ok_def lists_ok_def il by simp
  then have "heap_ok (h\<lparr>h_mem := m\<rparr>)" using ok fr(1) unfolding heap_ok_def il by simp
  then show "heap_inv winv runs (h\<lparr>h_mem := m\<rparr>)" using inv unfolding heap_inv_def il by simp
  have "sub_blocks (h\<lparr>h_mem := m\<rparr>) = sub_blocks h" using fr(2) unfolding sub_blocks_def il by simp
  then show "blocks runs (h\<lparr>h_mem := m\<rparr>) = blocks runs h" unfolding blocks_def large_blocks_def il by simp
qed

end

section \<open>The heap over dumbvm\<close>

definition dumb_kpages :: "dumbvm kpages" where
  "dumb_kpages = \<lparr>kp_alloc = alloc_kpages, kp_free = free_kpages, opt_dumbvm = True\<rparr>"

definition dumb_runs :: "dumbvm \<Rightarrow> (nat \<times> nat) set" where
  "dumb_runs s = {(PADDR_TO_KVADDR (p * 4096), 1) | p. p \<in> used s}"

lemma used_page:
  assumes "map_ok s" and "p \<in> used s"
  shows "PADDR_TO_KVADDR (p * 4096) = p * 4096 + 0x80000000" and "p < 2 ^ 17" and "KVADDR_TO_PADDR (PADDR_TO_KVADDR (p * 4096)) = p * 4096"
proof -
  have "p < nbits (freephys_map s)" using assms(2) by (simp add: bitmap_set_def)
  then show "p < 2 ^ 17" using assms(1) by (simp add: map_ok_def)
  then show "PADDR_TO_KVADDR (p * 4096) = p * 4096 + 0x80000000" by (simp add: PADDR_TO_KVADDR_def)
  show "KVADDR_TO_PADDR (PADDR_TO_KVADDR (p * 4096)) = p * 4096" by (rule kvaddr_paddr) (use \<open>p < 2 ^ 17\<close> in simp)
qed

interpretation dk: page_source dumb_kpages map_ok dumb_runs
proof unfold_locales
  fix w a n assume w: "map_ok w" "(a, n) \<in> dumb_runs w"
  then obtain p where p: "p \<in> used w" "a = PADDR_TO_KVADDR (p * 4096)" "n = 1" by (auto simp: dumb_runs_def)
  note u = used_page [OF w(1) p(1)]
  show "0 < n \<and> a mod 4096 = 0 \<and> 0x80000000 \<le> a \<and> a + n * 4096 \<le> 0xa0000000" using u(2) unfolding p(2,3) u(1) by (simp add: mod_add_eq [symmetric])
  from unmark_fits [of "freephys_map w" p] p(1) w(1) obtain b where b: "bitmap_unmark (freephys_map w) p = Some b" "bm_fits b" "nbits b = nbits (freephys_map w)"
    "bitmap_set b = used w - {p}" by (auto simp: map_ok_def)
  let ?w = "w\<lparr>freephys_map := b\<rparr>"
  have "free_kpages a w = Some ?w" unfolding p(2) free_kpages_def u(3) by (simp add: b(1))
  moreover have "map_ok ?w" using w(1) b by (simp add: map_ok_def)
  moreover have "dumb_runs ?w = dumb_runs w - {(a, n)}"
  proof -
    have "PADDR_TO_KVADDR (q * 4096) \<noteq> a" if "q \<in> used w" "q \<noteq> p" for q using that(2) unfolding p(2) u(1) used_page(1) [OF w(1) that(1)] by simp
    then show ?thesis unfolding dumb_runs_def p(3) using b(4) p(2) by auto
  qed
  ultimately show "\<exists>w'. kp_free dumb_kpages a w = Some w' \<and> map_ok w' \<and> dumb_runs w' = dumb_runs w - {(a, n)}" by (auto simp: dumb_kpages_def)
next
  fix w a n b k assume w: "map_ok w" "(a, n) \<in> dumb_runs w" "(b, k) \<in> dumb_runs w" "(a, n) \<noteq> (b, k)"
  then obtain p q where pq: "p \<in> used w" "a = PADDR_TO_KVADDR (p * 4096)" "n = 1" "q \<in> used w" "b = PADDR_TO_KVADDR (q * 4096)" "k = 1" by (auto simp: dumb_runs_def)
  then have "p \<noteq> q" using w(4) by auto
  then show "a + n * 4096 \<le> b \<or> b + k * 4096 \<le> a" unfolding pq(2,3,5,6) used_page(1) [OF w(1) pq(1)] used_page(1) [OF w(1) pq(4)] by (cases "p < q") auto
next
  fix w n assume w: "map_ok w" "0 < (n :: nat)" "n < 2 ^ 31"
  show "\<exists>a w'. kp_alloc dumb_kpages (int n) w = Some (a, w') \<and> map_ok w' \<and>
    (a = 0 \<and> dumb_runs w' = dumb_runs w \<or> a \<noteq> 0 \<and> (a, n) \<notin> dumb_runs w \<and> dumb_runs w' = insert (a, n) (dumb_runs w))"
  proof (cases "n = 1")
    case False
    then have "alloc_kpages (int n) w = Some (0, w)" using w(2) by (simp add: alloc_kpages_def)
    then show ?thesis using w(1) by (simp add: dumb_kpages_def)
  next
    case True
    from alloc_kpages_ok [OF w(1)] consider
      p b where "alloc_kpages 1 w = Some (PADDR_TO_KVADDR (p * 4096), w\<lparr>freephys_map := b\<rparr>)" "0 < p" "p < 2 ^ 17" "takes w {p} (w\<lparr>freephys_map := b\<rparr>)"
      | "alloc_kpages 1 w = Some (0, w)" by blast
    then show ?thesis
    proof cases
      case 1
      then have t: "map_ok (w\<lparr>freephys_map := b\<rparr>)" "p \<notin> used w" "bitmap_set b = insert p (used w)" by (auto simp: takes_def)
      have "(PADDR_TO_KVADDR (p * 4096), 1) \<notin> dumb_runs w"
      proof
        assume "(PADDR_TO_KVADDR (p * 4096), 1) \<in> dumb_runs w"
        then obtain q where q: "q \<in> used w" "PADDR_TO_KVADDR (p * 4096) = PADDR_TO_KVADDR (q * 4096)" by (auto simp: dumb_runs_def)
        have p: "p \<in> used (w\<lparr>freephys_map := b\<rparr>)" using t(3) by simp
        from q(2) have "p = q" unfolding used_page(1) [OF t(1) p] used_page(1) [OF w(1) q(1)] by simp
        with q(1) t(2) show False by simp
      qed
      moreover have "dumb_runs (w\<lparr>freephys_map := b\<rparr>) = insert (PADDR_TO_KVADDR (p * 4096), 1) (dumb_runs w)" using t(3) by (auto simp: dumb_runs_def)
      ultimately show ?thesis using 1 t(1) kvaddr_page(2) [OF 1(2,3)] True by (simp add: dumb_kpages_def)
    next
      case 2
      then show ?thesis using w(1) True by (simp add: dumb_kpages_def)
    qed
  qed
qed

text \<open>All statics of \<^verbatim>\<open>kheap.c\<close> are zero at first. Clients then allocate, free blocks they have, and write into their blocks.\<close>

definition heap_init :: "(nat \<Rightarrow> nat) \<Rightarrow> 'w \<Rightarrow> 'w kheap" where
  "heap_init m w = \<lparr>pagerefs = replicate 256 \<lparr>next_samesize = None, next_all = None, pageaddr_and_blocktype = 0, freelist_offset = 0, nfree = 0\<rparr>,
     pagerefs_inuse = replicate 8 0, sizebases = replicate 8 None, allbase = None, h_mem = m, h_w = w\<rparr>"

inductive hreachable :: "dumbvm kheap \<Rightarrow> bool" where
  HInit: "map_ok w \<Longrightarrow> hreachable (heap_init m w)"
| HMalloc: "hreachable h \<Longrightarrow> sz < 2 ^ 32 \<Longrightarrow> kmalloc_heap dumb_kpages sz h = Some (a, h') \<Longrightarrow> hreachable h'"
| HFree: "hreachable h \<Longrightarrow> (a, n) \<in> blocks dumb_runs h \<Longrightarrow> kfree dumb_kpages a h = Some h' \<Longrightarrow> hreachable h'"
| HWrite: "hreachable h \<Longrightarrow> (a, n) \<in> blocks dumb_runs h \<Longrightarrow> a \<le> x \<Longrightarrow> x < a + n \<Longrightarrow> hreachable (h\<lparr>h_mem := (h_mem h)(x := v)\<rparr>)"

lemma heap_init_ok:
  shows "heap_ok (heap_init m w)" and "heap_pages (heap_init m w) = {}" and "sub_blocks (heap_init m w) = {}"
proof -
  have "lists_ok (heap_init m w)" "in_list (heap_init m w) = []"
    using lists_okI(1,2) [of "heap_init m w" "[]" "\<lambda>_. []"] by (auto simp: heap_init_def inuse_def)
  then show "heap_ok (heap_init m w)" "heap_pages (heap_init m w) = {}" "sub_blocks (heap_init m w) = {}" by (simp_all add: heap_ok_def heap_pages_def sub_blocks_def)
qed

text \<open>A request so large that rounding up wraps around is refused.\<close>

lemma kmalloc_wrap:
  assumes "map_ok (h_w h)" and "2 ^ 32 \<le> sz + 4095" and "sz < 2 ^ 32"
  shows "kmalloc_heap dumb_kpages sz h = Some (0, h)"
proof -
  have "(sz + 4096 - 1) mod 2 ^ 32 div 4096 = 0" using assms(2,3) by (simp add: mod_if)
  moreover have "alloc_kpages 0 (h_w h) = Some (0, h_w h)" using getppages_0 [OF assms(1)] by (simp add: alloc_kpages_def u32_def)
  ultimately show ?thesis using assms(2) by (simp add: kmalloc_heap_def dumb_kpages_def Let_def)
qed

lemma dumb_kmalloc:
  assumes inv: "heap_inv map_ok dumb_runs h" and sz: "sz < 2 ^ 32"
  shows "\<exists>a h'. kmalloc_heap dumb_kpages sz h = Some (a, h') \<and> heap_inv map_ok dumb_runs h' \<and> gives_block dumb_runs sz h a h'"
proof (cases "sz + 4095 < 2 ^ 32")
  case False
  then have "kmalloc_heap dumb_kpages sz h = Some (0, h)" using inv sz by (intro kmalloc_wrap) (auto simp: heap_inv_def)
  then show ?thesis using inv by (intro exI [of _ 0] exI [of _ h]) (simp add: gives_block_def)
qed (rule dk.kmalloc_law [OF inv])

lemma hreachable_inv: "hreachable h \<Longrightarrow> heap_inv map_ok dumb_runs h"
proof (induction rule: hreachable.induct)
  case (HInit w m)
  have "h_w (heap_init m w) = w" by (simp add: heap_init_def)
  with HInit show ?case by (simp add: heap_inv_def heap_init_ok)
next
  case (HMalloc h sz a h')
  with dumb_kmalloc [OF HMalloc.IH, of sz] show ?case by auto
next
  case (HFree h a n h')
  with dk.kfree_law [OF HFree.IH HFree.hyps(2)] show ?case by auto
next
  case (HWrite h a n x v)
  have "((h_mem h)(x := v)) y = h_mem h y" if "\<And>b k. (b, k) \<in> blocks dumb_runs h \<Longrightarrow> y < b \<or> b + k \<le> y" for y
    using that [OF HWrite.hyps(2)] HWrite.hyps(3,4) by auto
  from dk.write_law(1) [OF HWrite.IH, of "(h_mem h)(x := v)", OF this] show ?case .
qed

text \<open>C28: \<^verbatim>\<open>kmalloc\<close> (\<^verbatim>\<open>kern/lib/kheap.c\<close>, over \<^verbatim>\<open>dumbvm.c\<close>) always returns: \<open>0\<close>, and then no block has changed hands, or the
  address of a new block of at least the size asked for, which overlaps no block handed out before; the contents of all other
  blocks stay. Sizes at which the rounding to pages wraps around are refused.\<close>

theorem kmalloc_correct:
  assumes "heap_inv map_ok dumb_runs h" and "sz < 2 ^ 32"
  shows "\<exists>a h'. kmalloc_heap dumb_kpages sz h = Some (a, h') \<and> heap_inv map_ok dumb_runs h' \<and>
    same_words (blocks dumb_runs h) (h_mem h) (h_mem h') \<and>
    (if a = 0 then blocks dumb_runs h' = blocks dumb_runs h
     else \<exists>n. sz \<le> n \<and> blocks dumb_runs h' = insert (a, n) (blocks dumb_runs h) \<and> (\<forall>(b, k) \<in> blocks dumb_runs h. a + n \<le> b \<or> b + k \<le> a))"
proof -
  from dumb_kmalloc [OF assms] obtain a h' where r: "kmalloc_heap dumb_kpages sz h = Some (a, h')" "heap_inv map_ok dumb_runs h'" "gives_block dumb_runs sz h a h'" by blast
  have "a + n \<le> b \<or> b + k \<le> a" if "(a, n) \<notin> blocks dumb_runs h" "blocks dumb_runs h' = insert (a, n) (blocks dumb_runs h)" "(b, k) \<in> blocks dumb_runs h" for n b k
    using dk.blocks_apart [OF r(2), of a n b k] that by auto
  then show ?thesis using r unfolding gives_block_def by (intro exI [of _ a] exI [of _ h']) (auto split: if_split_asm)
qed

text \<open>C29: \<^verbatim>\<open>kfree\<close> of a block that is handed out returns, takes away exactly this block, gives its page back when it was the last
  block on it, and leaves the contents of all other blocks; after \<^verbatim>\<open>kmalloc\<close> and \<^verbatim>\<open>kfree\<close> of the new block the blocks are those from before.\<close>

theorem kmalloc_kfree_roundtrip:
  assumes "heap_inv map_ok dumb_runs h"
  shows "(\<forall>(a, n) \<in> blocks dumb_runs h. \<exists>h'. kfree dumb_kpages a h = Some h' \<and> heap_inv map_ok dumb_runs h' \<and>
      blocks dumb_runs h' = blocks dumb_runs h - {(a, n)} \<and> same_words (blocks dumb_runs h') (h_mem h) (h_mem h')) \<and>
    (\<forall>sz a h'. sz < 2 ^ 32 \<and> kmalloc_heap dumb_kpages sz h = Some (a, h') \<longrightarrow>
      (\<exists>h''. kfree dumb_kpages a h' = Some h'' \<and> heap_inv map_ok dumb_runs h'' \<and> blocks dumb_runs h'' = blocks dumb_runs h \<and> same_words (blocks dumb_runs h) (h_mem h) (h_mem h'')))"
proof (intro conjI allI impI)
  show "\<forall>(a, n) \<in> blocks dumb_runs h. \<exists>h'. kfree dumb_kpages a h = Some h' \<and> heap_inv map_ok dumb_runs h' \<and>
      blocks dumb_runs h' = blocks dumb_runs h - {(a, n)} \<and> same_words (blocks dumb_runs h') (h_mem h) (h_mem h')"
    using dk.kfree_law [OF assms] by fastforce
  fix sz a h' assume "sz < 2 ^ 32 \<and> kmalloc_heap dumb_kpages sz h = Some (a, h')"
  with dumb_kmalloc [OF assms, of sz] have r: "heap_inv map_ok dumb_runs h'" "gives_block dumb_runs sz h a h'" by auto
  show "\<exists>h''. kfree dumb_kpages a h' = Some h'' \<and> heap_inv map_ok dumb_runs h'' \<and> blocks dumb_runs h'' = blocks dumb_runs h \<and> same_words (blocks dumb_runs h) (h_mem h) (h_mem h'')"
  proof (cases "a = 0")
    case True
    with r show ?thesis by (intro exI [of _ h']) (simp add: kfree_def gives_block_def)
  next
    case False
    with r(2) obtain n where n: "(a, n) \<notin> blocks dumb_runs h" "blocks dumb_runs h' = insert (a, n) (blocks dumb_runs h)" "same_words (blocks dumb_runs h) (h_mem h) (h_mem h')"
      by (auto simp: gives_block_def)
    from dk.kfree_law [OF r(1), of a n] n obtain h'' where "kfree dumb_kpages a h' = Some h''" "heap_inv map_ok dumb_runs h''" "blocks dumb_runs h'' = blocks dumb_runs h"
      "same_words (blocks dumb_runs h) (h_mem h') (h_mem h'')" by auto
    with n(3) show ?thesis unfolding same_words_def by fastforce
  qed
qed

text \<open>C30: However clients allocate, free and write into their own blocks, no two blocks overlap, every block lies in the kernel's direct-mapped
  segment, and neither \<^verbatim>\<open>kmalloc\<close> nor \<^verbatim>\<open>kfree\<close> of a block that is handed out can fail an assertion.\<close>

theorem heap_safety:
  assumes "hreachable h"
  shows "(\<forall>(a, n) \<in> blocks dumb_runs h. \<forall>(b, k) \<in> blocks dumb_runs h. (a, n) \<noteq> (b, k) \<longrightarrow> a + n \<le> b \<or> b + k \<le> a) \<and>
    (\<forall>(a, n) \<in> blocks dumb_runs h. 0x80000000 \<le> a \<and> a + n \<le> 0xa0000000 \<and> kfree dumb_kpages a h \<noteq> None) \<and>
    (\<forall>sz < 2 ^ 32. kmalloc_heap dumb_kpages sz h \<noteq> None)"
proof -
  note inv = hreachable_inv [OF assms]
  have "0x80000000 \<le> a \<and> a + n \<le> 0xa0000000" if "(a, n) \<in> blocks dumb_runs h" for a n by (rule dk.block_range [OF inv that])
  then show ?thesis using dk.blocks_apart [OF inv] dk.kfree_law [OF inv] dumb_kmalloc [OF inv] by fastforce
qed

section \<open>Witnesses\<close>

definition demo_heap :: "dumbvm kheap" where
  "demo_heap = heap_init (\<lambda>_. 0) demo_vm"

lemma demo_heap_inv: "heap_inv map_ok dumb_runs demo_heap"
  using heap_init_ok [of "\<lambda>_. 0" demo_vm] demo_map_ok by (simp add: heap_inv_def demo_heap_def) (simp add: heap_init_def)

lemma demo_heap_blocks: "(0x80001000, 4096) \<in> blocks dumb_runs demo_heap"
proof -
  have "1 \<in> used demo_vm" using demo_vm_used by auto
  then have "(PADDR_TO_KVADDR (1 * 4096), 1) \<in> dumb_runs demo_vm" unfolding dumb_runs_def by blast
  moreover have "h_w demo_heap = demo_vm" "heap_pages demo_heap = {}" using heap_init_ok(2) by (simp_all add: demo_heap_def) (simp add: heap_init_def)
  ultimately show ?thesis by (force simp: blocks_def large_blocks_def PADDR_TO_KVADDR_def)
qed

theorem kmalloc_correct_witness: "\<exists>a h'. kmalloc_heap dumb_kpages 100 demo_heap = Some (a, h') \<and> heap_inv map_ok dumb_runs h' \<and> same_words {(0x80001000, 4096)} (h_mem demo_heap) (h_mem h')"
proof -
  have sz: "(100 :: nat) < 2 ^ 32" by simp
  from kmalloc_correct [OF demo_heap_inv sz] demo_heap_blocks show ?thesis unfolding same_words_def by blast
qed

theorem kmalloc_kfree_roundtrip_witness: "\<exists>h'. kfree dumb_kpages 0x80001000 demo_heap = Some h' \<and> heap_inv map_ok dumb_runs h' \<and> blocks dumb_runs h' = blocks dumb_runs demo_heap - {(0x80001000, 4096)}"
proof -
  from bspec [OF conjunct1 [OF kmalloc_kfree_roundtrip [OF demo_heap_inv]] demo_heap_blocks] show ?thesis unfolding prod.case by blast
qed

theorem heap_safety_witness: "hreachable demo_heap \<and> kmalloc_heap dumb_kpages 4000000000 demo_heap \<noteq> None \<and> kfree dumb_kpages 0x80001000 demo_heap \<noteq> None"
proof -
  have r: "hreachable demo_heap" unfolding demo_heap_def by (rule HInit [OF demo_map_ok])
  have sz: "(4000000000 :: nat) < 2 ^ 32" by simp
  from heap_safety [OF r] sz demo_heap_blocks r show ?thesis by blast
qed

end
