(* ===== verification/K_Coremap.thy ===== *)
theory K_Coremap
  imports K_Kmalloc
begin

text \<open>
  The VM system that replaces dumbvm in the configurations of assignment 2: \<^verbatim>\<open>kern/arch/mips/mips/coremap.c\<close>, one entry per page of
  physical memory, page allocation, pinning, and the control of the translation buffer.

  Interrupts are off in every routine, so the assertions on \<^verbatim>\<open>curspl\<close> are not written out. \<open>paging_lock\<close> tells whether the running
  thread holds \<^verbatim>\<open>global_paging_lock\<close>; \<open>randoms\<close> are the values of \<^verbatim>\<open>random()\<close>. \<^verbatim>\<open>page_replace\<close> and \<^verbatim>\<open>do_evict\<close> are the stubs of the
  source: the first picks page 0, the second does nothing. So the retry loop of \<^verbatim>\<open>coremap_alloc_multipages\<close> need not end, and
  is a partial function.
\<close>

section \<open>State\<close>

abbreviation (input) CM_MIN_SLACK :: int where "CM_MIN_SLACK \<equiv> 8"
abbreviation (input) INVALID_PADDR :: nat where "INVALID_PADDR \<equiv> 0"

record coremap_entry =
  cm_lp :: "nat option"
  cm_tlbix :: int
  cm_kernel :: bool
  cm_notlast :: bool
  cm_allocated :: bool
  cm_pinned :: bool

record cmsys =
  coremap :: "coremap_entry list"
  num_coremap_kernel :: nat
  num_coremap_user :: nat
  num_coremap_free :: nat
  base_coremap_page :: nat
  nexttlb :: nat
  tlb_slot :: nat
  lastas :: "nat option"
  cm_tlb :: tlb
  opt_seqtlb :: bool
  randoms :: "nat \<Rightarrow> nat"
  nrandoms :: nat
  cm_ram :: "nat \<Rightarrow> byte"
  in_interrupt :: bool
  has_curthread :: bool
  paging_lock :: bool

abbreviation num_coremap_entries :: "cmsys \<Rightarrow> nat" where
  "num_coremap_entries s \<equiv> length (coremap s)"

definition COREMAP_TO_PADDR :: "cmsys \<Rightarrow> nat \<Rightarrow> nat" where
  "COREMAP_TO_PADDR s i = PAGE_SIZE * (i + base_coremap_page s) mod 2 ^ 32"

definition PADDR_TO_COREMAP :: "cmsys \<Rightarrow> nat \<Rightarrow> nat" where
  "PADDR_TO_COREMAP s page = u32 (int (page div PAGE_SIZE) - int (base_coremap_page s))"

abbreviation put_cm :: "nat \<Rightarrow> coremap_entry \<Rightarrow> cmsys \<Rightarrow> cmsys" where
  "put_cm i e s \<equiv> s\<lparr>coremap := (coremap s)[i := e]\<rparr>"

section \<open>The translation buffer\<close>

definition tlb_replace :: "cmsys \<Rightarrow> nat \<times> cmsys" where
  "tlb_replace s =
     (if opt_seqtlb s then let slot = (tlb_slot s + 1) mod NUM_TLB in (slot, s\<lparr>tlb_slot := slot\<rparr>)
      else (randoms s (nrandoms s) mod NUM_TLB, s\<lparr>nrandoms := Suc (nrandoms s)\<rparr>))"

definition tlb_invalidate :: "nat \<Rightarrow> cmsys \<Rightarrow> cmsys option" where
  "tlb_invalidate tlbix s = do {
     (ehi, elo) \<leftarrow> TLB_Read (cm_tlb s) tlbix;
     s \<leftarrow> (if elo AND TLBLO_VALID \<noteq> 0 then do {
             let cmix = PADDR_TO_COREMAP s (frame elo);
             kassert (cmix < num_coremap_entries s);
             kassert (cm_tlbix (coremap s ! cmix) = int tlbix);
             Some (put_cm cmix ((coremap s ! cmix)\<lparr>cm_tlbix := -1\<rparr>) s)
           }
           else Some s);
     Some (s\<lparr>cm_tlb := TLB_Write (TLBHI_INVALID tlbix) 0 tlbix (cm_tlb s)\<rparr>)
   }"

fun clear_loop :: "nat \<Rightarrow> nat \<Rightarrow> cmsys \<Rightarrow> cmsys option" where
  "clear_loop i 0 s = Some s"
| "clear_loop i (Suc k) s = do { s \<leftarrow> tlb_invalidate i s; clear_loop (Suc i) k s }"

definition tlb_clear :: "cmsys \<Rightarrow> cmsys option" where
  "tlb_clear s = do { s \<leftarrow> clear_loop 0 NUM_TLB s; Some (s\<lparr>nexttlb := 0\<rparr>) }"

definition tlb_unmap :: "nat \<Rightarrow> cmsys \<Rightarrow> cmsys option" where
  "tlb_unmap va s = do {
     kassert (va < MIPS_KSEG0);
     case TLB_Probe (frame va) (cm_tlb s) of
       None \<Rightarrow> Some s
     | Some i \<Rightarrow> do {
         (ehi, elo) \<leftarrow> TLB_Read (cm_tlb s) i;
         kassert (elo AND TLBLO_VALID \<noteq> 0);
         tlb_invalidate i s
       }
   }"

definition mipstlb_getslot :: "cmsys \<Rightarrow> (nat \<times> cmsys) option" where
  "mipstlb_getslot s =
     (if nexttlb s < NUM_TLB then Some (nexttlb s, s\<lparr>nexttlb := nexttlb s + 1\<rparr>)
      else do {
        let (i, s) = tlb_replace s;
        s \<leftarrow> tlb_invalidate i s;
        Some (i, s)
      })"

definition mmu_setas :: "nat option \<Rightarrow> cmsys \<Rightarrow> cmsys option" where
  "mmu_setas as s = (if as \<noteq> lastas s then tlb_clear (s\<lparr>lastas := as\<rparr>) else Some s)"

definition mmu_unmap :: "nat option \<Rightarrow> nat \<Rightarrow> cmsys \<Rightarrow> cmsys option" where
  "mmu_unmap as va s = (if as = lastas s then tlb_unmap va s else Some s)"

definition mmu_map :: "nat option \<Rightarrow> nat \<Rightarrow> nat \<Rightarrow> bool \<Rightarrow> cmsys \<Rightarrow> cmsys option" where
  "mmu_map as va pa writable s = do {
     kassert (as = lastas s);
     kassert (pa div PAGE_SIZE \<ge> base_coremap_page s);
     kassert (pa div PAGE_SIZE - base_coremap_page s < num_coremap_entries s);
     (tlbix, s) \<leftarrow> (case TLB_Probe va (cm_tlb s) of None \<Rightarrow> mipstlb_getslot s | Some i \<Rightarrow> Some (i, s));
     kassert (tlbix < NUM_TLB);
     let cmix = PADDR_TO_COREMAP s pa;
     kassert (cmix < num_coremap_entries s);
     s \<leftarrow> (if cm_tlbix (coremap s ! cmix) \<noteq> int tlbix then do {
             kassert (cm_tlbix (coremap s ! cmix) = -1);
             Some (put_cm cmix ((coremap s ! cmix)\<lparr>cm_tlbix := int tlbix\<rparr>) s)
           }
           else Some s);
     let elo = frame pa OR TLBLO_VALID;
     let elo = (if writable then elo OR TLBLO_DIRTY else elo);
     Some (s\<lparr>cm_tlb := TLB_Write (frame va) elo tlbix (cm_tlb s)\<rparr>)
   }"

section \<open>The translation buffer and the coremap agree\<close>

abbreviation cpage :: "cmsys \<Rightarrow> nat \<Rightarrow> nat" where
  "cpage s c \<equiv> (c + base_coremap_page s) * 4096"

definition ram_fits :: "cmsys \<Rightarrow> bool" where
  "ram_fits s \<longleftrightarrow> num_coremap_entries s + base_coremap_page s \<le> 2 ^ 17"

text \<open>A valid entry belongs to one page, which names the entry; the other entries match no user address.\<close>

definition entry_ok :: "cmsys \<Rightarrow> nat \<Rightarrow> bool" where
  "entry_ok s i \<longleftrightarrow>
     (if valid_entry (cm_tlb s) i then i < nexttlb s \<and> fst (cm_tlb s ! i) < MIPS_KSEG0 \<and>
        (\<exists>c < num_coremap_entries s. cm_tlbix (coremap s ! c) = int i \<and> frame (snd (cm_tlb s ! i)) = cpage s c)
      else cm_tlb s ! i = (TLBHI_INVALID i, 0))"

definition page_ok :: "cmsys \<Rightarrow> nat \<Rightarrow> bool" where
  "page_ok s c \<longleftrightarrow> (cm_tlbix (coremap s ! c) \<noteq> -1 \<longrightarrow>
     (\<exists>i < 64. cm_tlbix (coremap s ! c) = int i \<and> valid_entry (cm_tlb s) i \<and> frame (snd (cm_tlb s ! i)) = cpage s c))"

definition tlb_inv :: "cmsys \<Rightarrow> bool" where
  "tlb_inv s \<longleftrightarrow> ram_fits s \<and> length (cm_tlb s) = 64 \<and> tlb_unique (cm_tlb s) \<and> nexttlb s \<le> 64 \<and> (\<forall>i < 64. entry_ok s i) \<and>
     (\<forall>c < num_coremap_entries s. page_ok s c)"

lemma tlb_invI:
  assumes "ram_fits s" "length (cm_tlb s) = 64" "tlb_unique (cm_tlb s)" "nexttlb s \<le> 64" "\<And>i. i < 64 \<Longrightarrow> entry_ok s i"
    "\<And>c. c < num_coremap_entries s \<Longrightarrow> page_ok s c"
  shows "tlb_inv s"
  using assms by (simp add: tlb_inv_def)

lemma coremap_paddr:
  assumes "ram_fits s" and "c < num_coremap_entries s"
  shows "COREMAP_TO_PADDR s c = cpage s c" and "PADDR_TO_COREMAP s (cpage s c) = c" and "frame (cpage s c) = cpage s c"
proof -
  have lt: "c + base_coremap_page s < 2 ^ 17" using assms by (simp add: ram_fits_def)
  then show "COREMAP_TO_PADDR s c = cpage s c" by (simp add: COREMAP_TO_PADDR_def mult.commute)
  show "PADDR_TO_COREMAP s (cpage s c) = c" using lt by (simp add: PADDR_TO_COREMAP_def u32_def)
  show "frame (cpage s c) = cpage s c" using lt by (simp add: frame_fixed)
qed

lemma translate_update:
  assumes u: "tlb_unique t" and u': "tlb_unique (t[j := (hi, lo)])" and j: "j < length t"
  shows "tlb_translate (t[j := (hi, lo)]) va =
    (if frame va = frame hi then (if lo AND TLBLO_VALID \<noteq> 0 then Some (frame lo, lo AND TLBLO_DIRTY \<noteq> 0) else None)
     else if frame (fst (t ! j)) = frame va then None else tlb_translate t va)"
proof -
  let ?t = "t[j := (hi, lo)]"
  have m: "TLB_Probe va ?t = Some k \<longleftrightarrow> k < length t \<and> (if k = j then frame hi = frame va else frame (fst (t ! k)) = frame va)" for k
    unfolding TLB_Probe_unique [OF u'] using j by (simp add: nth_list_update)
  show ?thesis
  proof (cases "frame va = frame hi")
    case True
    then have "TLB_Probe va ?t = Some j" using j unfolding m by simp
    then show ?thesis using True j by (simp add: tlb_translate_def Let_def)
  next
    case hi: False
    show ?thesis
    proof (cases "frame (fst (t ! j)) = frame va")
      case True
      have "TLB_Probe va ?t \<noteq> Some k" for k
      proof
        assume "TLB_Probe va ?t = Some k"
        with hi have "k < length t" "k \<noteq> j" "frame (fst (t ! k)) = frame va" unfolding m by (auto split: if_split_asm)
        with True u j show False unfolding tlb_unique_def by metis
      qed
      then have "TLB_Probe va ?t = None" by (cases "TLB_Probe va ?t") auto
      then show ?thesis using hi True by (simp add: tlb_translate_def)
    next
      case False
      have "TLB_Probe va ?t = Some k \<longleftrightarrow> TLB_Probe va t = Some k" for k unfolding m TLB_Probe_unique [OF u] using hi False by auto
      then have eq: "TLB_Probe va ?t = TLB_Probe va t" by (metis not_Some_eq)
      have "?t ! k = t ! k" if "TLB_Probe va t = Some k" for k using that False unfolding TLB_Probe_unique [OF u] by (cases "k = j") auto
      then show ?thesis using hi False eq by (cases "TLB_Probe va t") (simp_all add: tlb_translate_def)
    qed
  qed
qed

lemma frame_invalid: "i < 64 \<Longrightarrow> frame (TLBHI_INVALID i) = 0x80000000 + i * 4096"
  by (simp add: TLBHI_INVALID_def frame_eq)

lemma user_frame: "va < 0x80000000 \<Longrightarrow> frame va < 0x80000000"
  by (simp add: frame_eq)

lemma tlb_invE:
  assumes "tlb_inv s" and "i < 64"
  obtains (Valid) c where "valid_entry (cm_tlb s) i" "i < nexttlb s" "fst (cm_tlb s ! i) < 0x80000000" "c < num_coremap_entries s" "cm_tlbix (coremap s ! c) = int i"
    "frame (snd (cm_tlb s ! i)) = cpage s c"
  | (Invalid) "\<not> valid_entry (cm_tlb s) i" "cm_tlb s ! i = (TLBHI_INVALID i, 0)"
proof (cases "valid_entry (cm_tlb s) i")
  case True
  then show thesis using assms Valid unfolding tlb_inv_def entry_ok_def by metis
next
  case False
  then show thesis using assms Invalid unfolding tlb_inv_def entry_ok_def by metis
qed

text \<open>Only one page names an entry.\<close>

lemma tlbix_unique:
  assumes "tlb_inv s" and "c < num_coremap_entries s" "d < num_coremap_entries s" "cm_tlbix (coremap s ! c) = int i" "cm_tlbix (coremap s ! d) = int i"
  shows "c = d"
proof -
  have "frame (snd (cm_tlb s ! i)) = cpage s e" if "e < num_coremap_entries s" "cm_tlbix (coremap s ! e) = int i" for e
    using assms(1) that unfolding tlb_inv_def page_ok_def by auto
  from this [OF assms(2,4)] this [OF assms(3,5)] show ?thesis by simp
qed

definition drop_tlb :: "nat \<Rightarrow> coremap_entry list \<Rightarrow> coremap_entry list" where
  "drop_tlb i es = map (\<lambda>e. if cm_tlbix e = int i then e\<lparr>cm_tlbix := -1\<rparr> else e) es"

lemma unique_update:
  assumes u: "tlb_unique t" and new: "\<And>k. k < length t \<Longrightarrow> k \<noteq> j \<Longrightarrow> frame (fst (t ! k)) \<noteq> frame hi"
  shows "tlb_unique (t[j := (hi, lo)])"
  unfolding tlb_unique_def
proof (intro allI impI)
  fix k l assume kl: "k < length (t[j := (hi, lo)])" "l < length (t[j := (hi, lo)])" "frame (fst (t[j := (hi, lo)] ! k)) = frame (fst (t[j := (hi, lo)] ! l))"
  then have lt: "k < length t" "l < length t" by simp_all
  show "k = l"
  proof (cases "k = j \<or> l = j")
    case True
    then show ?thesis using kl(3) lt new [of k] new [of l] by (auto simp: nth_list_update split: if_split_asm)
  next
    case False
    then show ?thesis using kl(3) lt u unfolding tlb_unique_def by auto
  qed
qed

lemma invalid_frames:
  assumes inv: "tlb_inv s" and i: "i < 64" and k: "k < 64" "frame (fst (cm_tlb s ! k)) = frame (TLBHI_INVALID i)"
  shows "k = i"
  using inv k(1)
proof (cases rule: tlb_invE)
  case (Valid c)
  with user_frame [of "fst (cm_tlb s ! k)"] k(2) i show ?thesis by (simp add: frame_invalid)
next
  case Invalid
  with k i show ?thesis by (simp add: frame_invalid)
qed

lemma drop_tlb_nth: "c < length es \<Longrightarrow> drop_tlb i es ! c = (if cm_tlbix (es ! c) = int i then (es ! c)\<lparr>cm_tlbix := -1\<rparr> else es ! c)"
  by (simp add: drop_tlb_def)

lemma length_drop_tlb [simp]: "length (drop_tlb i es) = length es"
  by (simp add: drop_tlb_def)

abbreviation invalidated :: "nat \<Rightarrow> cmsys \<Rightarrow> cmsys" where
  "invalidated i s \<equiv> s\<lparr>coremap := drop_tlb i (coremap s), cm_tlb := (cm_tlb s)[i := (TLBHI_INVALID i, 0)]\<rparr>"

text \<open>An entry is dropped, and the page that names it forgets it.\<close>

lemma tlb_invalidate_eq:
  assumes inv: "tlb_inv s" and i: "i < 64"
  shows "tlb_invalidate i s = Some (invalidated i s)"
proof -
  have len: "length (cm_tlb s) = 64" and fits: "ram_fits s" using inv by (simp_all add: tlb_inv_def)
  obtain ehi elo where e: "cm_tlb s ! i = (ehi, elo)" by (cases "cm_tlb s ! i")
  from inv i show ?thesis
  proof (cases rule: tlb_invE)
    case (Valid c)
    have "(coremap s)[c := (coremap s ! c)\<lparr>cm_tlbix := -1\<rparr>] = drop_tlb i (coremap s)"
    proof (rule nth_equalityI)
      fix d assume "d < length ((coremap s)[c := (coremap s ! c)\<lparr>cm_tlbix := -1\<rparr>])"
      then have d: "d < num_coremap_entries s" by simp
      have "cm_tlbix (coremap s ! d) \<noteq> int i" if "d \<noteq> c" using tlbix_unique [OF inv d Valid(4) _ Valid(5)] that by blast
      then show "(coremap s)[c := (coremap s ! c)\<lparr>cm_tlbix := -1\<rparr>] ! d = drop_tlb i (coremap s) ! d"
        using d Valid(5) by (cases "d = c") (auto simp: drop_tlb_nth)
    qed simp
    moreover have "elo AND 512 \<noteq> 0" "frame elo = cpage s c" using Valid(1,6) e by (simp_all add: valid_entry_def)
    ultimately show ?thesis using Valid(4,5) e i len coremap_paddr(2) [OF fits Valid(4)] by (simp add: tlb_invalidate_def TLB_Read_def TLB_Write_def Let_def)
  next
    case Invalid
    have "cm_tlbix (coremap s ! c) \<noteq> int i" if "c < num_coremap_entries s" for c using inv that Invalid(1) unfolding tlb_inv_def page_ok_def by fastforce
    then have "drop_tlb i (coremap s) = coremap s" by (intro nth_equalityI) (simp_all add: drop_tlb_nth)
    then show ?thesis using Invalid(2) i len by (simp add: tlb_invalidate_def TLB_Read_def TLB_Write_def)
  qed
qed

lemma valid_update: "j < length t \<Longrightarrow> valid_entry (t[j := (hi, lo)]) k \<longleftrightarrow> (if k = j then lo AND TLBLO_VALID \<noteq> 0 else valid_entry t k)"
  by (simp add: valid_entry_def nth_list_update)

lemma tlb_invalidate_inv:
  assumes inv: "tlb_inv s" and i: "i < 64"
  shows "tlb_inv (invalidated i s)"
proof -
  let ?s = "invalidated i s"
  have len: "length (cm_tlb s) = 64" and u: "tlb_unique (cm_tlb s)" and fits: "ram_fits s" and nx: "nexttlb s \<le> 64" using inv by (simp_all add: tlb_inv_def)
  have u': "tlb_unique (cm_tlb ?s)" using unique_update [OF u] invalid_frames [OF inv i] len by (simp add: tlb_inv_def) metis
  have val: "valid_entry (cm_tlb ?s) k \<longleftrightarrow> k \<noteq> i \<and> valid_entry (cm_tlb s) k" for k using i len by (simp add: valid_update)
  show ?thesis
  proof (rule tlb_invI)
    fix k assume k: "k < (64 :: nat)"
    from inv k show "entry_ok ?s k"
    proof (cases rule: tlb_invE)
      case (Valid c)
      then show ?thesis using val i len unfolding entry_ok_def by (cases "k = i") (auto simp: drop_tlb_nth intro!: exI [of _ c])
    next
      case Invalid
      then show ?thesis using val i len unfolding entry_ok_def by (cases "k = i") auto
    qed
  next
    fix c assume c: "c < num_coremap_entries ?s"
    show "page_ok ?s c"
    proof (cases "cm_tlbix (coremap ?s ! c) = -1")
      case False
      then have old: "cm_tlbix (coremap s ! c) \<noteq> int i" "cm_tlbix (coremap s ! c) \<noteq> -1" "cm_tlbix (coremap ?s ! c) = cm_tlbix (coremap s ! c)"
        using c by (auto simp: drop_tlb_nth split: if_split_asm)
      obtain j where j: "j < 64" "cm_tlbix (coremap s ! c) = int j" "valid_entry (cm_tlb s) j" "frame (snd (cm_tlb s ! j)) = cpage s c"
        using inv c old(2) unfolding tlb_inv_def page_ok_def by auto
      have "j \<noteq> i" using j(2) old(1) by auto
      then show ?thesis using j old(3) val unfolding page_ok_def by auto
    qed (simp add: page_ok_def)
  qed (use u' len fits nx in \<open>simp_all add: ram_fits_def\<close>)
qed

lemma translate_invalidated:
  assumes inv: "tlb_inv s" and i: "i < 64" and va: "va < 0x80000000"
  shows "tlb_translate (cm_tlb (invalidated i s)) va = (if frame (fst (cm_tlb s ! i)) = frame va then None else tlb_translate (cm_tlb s) va)"
proof -
  have u: "tlb_unique (cm_tlb s)" "length (cm_tlb s) = 64" using inv by (simp_all add: tlb_inv_def)
  have u': "tlb_unique ((cm_tlb s)[i := (TLBHI_INVALID i, 0)])" using tlb_invalidate_inv [OF inv i] by (simp add: tlb_inv_def)
  have "frame va \<noteq> frame (TLBHI_INVALID i)" using user_frame [OF va] i by (simp add: frame_invalid)
  then show ?thesis using translate_update [OF u(1) u'] i u(2) by simp
qed

text \<open>What the routines for the translation buffer leave alone: everything of a page but the entry it names, and the counts.\<close>

definition tlb_only :: "cmsys \<Rightarrow> cmsys \<Rightarrow> bool" where
  "tlb_only s s' \<longleftrightarrow> map (cm_tlbix_update (\<lambda>_. 0)) (coremap s') = map (cm_tlbix_update (\<lambda>_. 0)) (coremap s) \<and>
     num_coremap_kernel s' = num_coremap_kernel s \<and> num_coremap_user s' = num_coremap_user s \<and> num_coremap_free s' = num_coremap_free s \<and>
     base_coremap_page s' = base_coremap_page s \<and> cm_ram s' = cm_ram s \<and> in_interrupt s' = in_interrupt s \<and> has_curthread s' = has_curthread s \<and>
     paging_lock s' = paging_lock s \<and> lastas s' = lastas s"

lemma tlb_only_refl [simp]: "tlb_only s s"
  by (simp add: tlb_only_def)

lemma tlb_only_trans: "tlb_only s t \<Longrightarrow> tlb_only t u \<Longrightarrow> tlb_only s u"
  by (simp add: tlb_only_def)

lemma tlb_only_length: "tlb_only s s' \<Longrightarrow> num_coremap_entries s' = num_coremap_entries s"
  unfolding tlb_only_def by (metis length_map)

lemma strip_drop: "map (cm_tlbix_update (\<lambda>_. 0)) (drop_tlb i es) = map (cm_tlbix_update (\<lambda>_. 0)) es"
  by (simp add: drop_tlb_def)

lemma tlb_only_invalidated: "tlb_only s (invalidated i s)"
  by (simp add: tlb_only_def strip_drop)

lemma strip_update: "c < length es \<Longrightarrow> map (cm_tlbix_update (\<lambda>_. 0)) (es[c := (es ! c)\<lparr>cm_tlbix := x\<rparr>]) = map (cm_tlbix_update (\<lambda>_. 0)) es"
  by (rule nth_equalityI) (auto simp: nth_list_update)

lemma tlb_inv_cong:
  "tlb_inv (s\<lparr>tlb_slot := x\<rparr>) = tlb_inv s" "tlb_inv (s\<lparr>nrandoms := y\<rparr>) = tlb_inv s" "tlb_inv (s\<lparr>lastas := z\<rparr>) = tlb_inv s"
  by (simp_all add: tlb_inv_def ram_fits_def entry_ok_def page_ok_def)

lemma clear_loop_ok:
  "tlb_inv s \<Longrightarrow> i + k \<le> 64 \<Longrightarrow> \<exists>s'. clear_loop i k s = Some s' \<and> tlb_inv s' \<and> tlb_only s s' \<and> lastas s' = lastas s \<and>
     (\<forall>j. valid_entry (cm_tlb s') j \<longrightarrow> valid_entry (cm_tlb s) j \<and> \<not> (i \<le> j \<and> j < i + k))"
proof (induction k arbitrary: i s)
  case (Suc k)
  have i: "i < 64" using Suc.prems(2) by simp
  let ?s = "invalidated i s"
  have len: "length (cm_tlb s) = 64" using Suc.prems(1) by (simp add: tlb_inv_def)
  have "Suc i + k \<le> 64" using Suc.prems(2) by simp
  from Suc.IH [OF tlb_invalidate_inv [OF Suc.prems(1) i] this] obtain s' where s': "clear_loop (Suc i) k ?s = Some s'" "tlb_inv s'" "tlb_only ?s s'" "lastas s' = lastas s"
    "\<forall>j. valid_entry (cm_tlb s') j \<longrightarrow> valid_entry (cm_tlb ?s) j \<and> \<not> (Suc i \<le> j \<and> j < Suc i + k)" by auto
  have "valid_entry (cm_tlb s) j \<and> \<not> (i \<le> j \<and> j < i + Suc k)" if "valid_entry (cm_tlb s') j" for j
    using s'(5) that i len by (cases "j = i") (auto simp: valid_update)
  then show ?case using s'(1-4) tlb_only_trans [OF tlb_only_invalidated s'(3)] by (simp add: tlb_invalidate_eq [OF Suc.prems(1) i])
qed simp

lemma tlb_clear_ok:
  assumes inv: "tlb_inv s"
  shows "\<exists>s'. tlb_clear s = Some s' \<and> tlb_inv s' \<and> tlb_only s s' \<and> lastas s' = lastas s \<and> (\<forall>va. tlb_translate (cm_tlb s') va = None) \<and>
    (\<forall>c < num_coremap_entries s. cm_tlbix (coremap s' ! c) = -1)"
proof -
  from clear_loop_ok [OF inv, of 0 64] obtain s' where s': "clear_loop 0 64 s = Some s'" "tlb_inv s'" "tlb_only s s'" "lastas s' = lastas s"
    "\<forall>j. valid_entry (cm_tlb s') j \<longrightarrow> valid_entry (cm_tlb s) j \<and> \<not> (0 \<le> j \<and> j < 0 + 64)" by auto
  let ?s = "s'\<lparr>nexttlb := 0\<rparr>"
  have none: "\<not> valid_entry (cm_tlb s') j" for j using s'(2,5) by (auto simp: valid_entry_def tlb_inv_def)
  have "tlb_inv ?s"
  proof (rule tlb_invI)
    show "entry_ok ?s i" if "i < 64" for i using s'(2) that none unfolding tlb_inv_def entry_ok_def by auto
    show "page_ok ?s c" if "c < num_coremap_entries ?s" for c using s'(2) that none unfolding tlb_inv_def page_ok_def by auto
  qed (use s'(2) in \<open>simp_all add: tlb_inv_def ram_fits_def\<close>)
  moreover have "tlb_translate (cm_tlb s') va = None" for va
    using none translate_iff [of "cm_tlb s'" va] s'(2) by (cases "tlb_translate (cm_tlb s') va") (auto simp: tlb_inv_def)
  moreover have "cm_tlbix (coremap s' ! c) = -1" if "c < num_coremap_entries s" for c
    using s'(2) none that tlb_only_length [OF s'(3)] unfolding tlb_inv_def page_ok_def by auto
  ultimately show ?thesis using s'(1,3,4) by (intro exI [of _ ?s]) (simp add: tlb_clear_def tlb_only_def)
qed

lemma mmu_unmap_ok:
  assumes inv: "tlb_inv s" and va: "va < 0x80000000"
  shows "\<exists>s'. mmu_unmap (lastas s) va s = Some s' \<and> tlb_inv s' \<and> tlb_only s s' \<and>
    (\<forall>v < 0x80000000. tlb_translate (cm_tlb s') v = (if frame v = frame va then None else tlb_translate (cm_tlb s) v))"
proof (cases "TLB_Probe (frame va) (cm_tlb s)")
  case None
  have "tlb_translate (cm_tlb s) v = None" if "frame v = frame va" for v
  proof -
    have "TLB_Probe v (cm_tlb s) = None" using None TLB_Probe_None [of "cm_tlb s"] inv that unfolding tlb_inv_def by simp
    then show ?thesis by (simp add: tlb_translate_def)
  qed
  then show ?thesis using inv va None by (intro exI [of _ s]) (simp add: mmu_unmap_def tlb_unmap_def)
next
  case (Some i)
  have u: "tlb_unique (cm_tlb s)" "length (cm_tlb s) = 64" using inv by (simp_all add: tlb_inv_def)
  have i: "i < 64" "frame (fst (cm_tlb s ! i)) = frame va" using Some TLB_Probe_Some [OF Some] u(2) by auto
  have "valid_entry (cm_tlb s) i" using inv i(1)
  proof (cases rule: tlb_invE)
    case Invalid
    then show ?thesis using i user_frame [OF va] by (simp add: frame_invalid)
  qed
  then have "mmu_unmap (lastas s) va s = Some (invalidated i s)"
    using va Some i(1) u(2) by (cases "cm_tlb s ! i") (simp add: mmu_unmap_def tlb_unmap_def TLB_Read_def valid_entry_def tlb_invalidate_eq [OF inv i(1)])
  then show ?thesis using tlb_invalidate_inv [OF inv i(1)] tlb_only_invalidated translate_invalidated [OF inv i(1)] i(2) by auto
qed

text \<open>Entry \<open>i\<close> is written for page \<open>c\<close>: a fresh slot for a page that is in none, or the slot where it already is.\<close>

definition slot_for :: "cmsys \<Rightarrow> nat \<Rightarrow> nat \<Rightarrow> nat \<Rightarrow> bool" where
  "slot_for s va c i \<longleftrightarrow> i < 64 \<and> i < nexttlb s \<and> c < num_coremap_entries s \<and>
     (if valid_entry (cm_tlb s) i then cm_tlbix (coremap s ! c) = int i \<and> frame (fst (cm_tlb s ! i)) = frame va
      else cm_tlbix (coremap s ! c) = -1 \<and> TLB_Probe va (cm_tlb s) = None)"

abbreviation installed :: "nat \<Rightarrow> nat \<Rightarrow> nat \<Rightarrow> nat \<Rightarrow> cmsys \<Rightarrow> cmsys" where
  "installed va elo c i s \<equiv> s\<lparr>coremap := (coremap s)[c := (coremap s ! c)\<lparr>cm_tlbix := int i\<rparr>], cm_tlb := (cm_tlb s)[i := (frame va, elo)]\<rparr>"

lemma slot_unique:
  assumes inv: "tlb_inv s" and slot: "slot_for s va c i"
  shows "tlb_unique ((cm_tlb s)[i := (frame va, elo)])"
proof (rule unique_update)
  show u: "tlb_unique (cm_tlb s)" using inv by (simp add: tlb_inv_def)
  have len: "length (cm_tlb s) = 64" using inv by (simp add: tlb_inv_def)
  show "frame (fst (cm_tlb s ! k)) \<noteq> frame (frame va)" if k: "k < length (cm_tlb s)" "k \<noteq> i" for k
  proof (cases "valid_entry (cm_tlb s) i")
    case True
    then show ?thesis using u slot k len unfolding slot_for_def tlb_unique_def by (metis frame_frame)
  next
    case False
    then show ?thesis using slot k TLB_Probe_None [OF u, of va] by (simp add: slot_for_def)
  qed
qed

lemma installed_inv:
  assumes inv: "tlb_inv s" and va: "va < 0x80000000" and slot: "slot_for s va c i" and elo: "elo AND TLBLO_VALID \<noteq> 0" "frame elo = cpage s c"
  shows "tlb_inv (installed va elo c i s)"
proof (rule tlb_invI)
  let ?s = "installed va elo c i s"
  have i: "i < 64" "i < nexttlb s" "c < num_coremap_entries s" and len: "length (cm_tlb s) = 64" using slot inv by (simp_all add: slot_for_def tlb_inv_def)
  have val: "valid_entry (cm_tlb ?s) k \<longleftrightarrow> k = i \<or> valid_entry (cm_tlb s) k" for k using i len elo(1) by (auto simp: valid_update)
  show "entry_ok ?s k" if k: "k < 64" for k
  proof (cases "k = i")
    case True
    then show ?thesis using i len elo user_frame [OF va] val unfolding entry_ok_def by (auto intro!: exI [of _ c])
  next
    case False
    from inv k show ?thesis
    proof (cases rule: tlb_invE)
      case (Valid d)
      have "d \<noteq> c" using Valid(5) False slot by (auto simp: slot_for_def split: if_split_asm)
      then show ?thesis using Valid False val unfolding entry_ok_def by (auto intro!: exI [of _ d])
    next
      case Invalid
      then show ?thesis using False val unfolding entry_ok_def by auto
    qed
  qed
  show "page_ok ?s d" if d: "d < num_coremap_entries ?s" for d
  proof (cases "d = c")
    case True
    then show ?thesis using i len elo(2) val unfolding page_ok_def by (auto intro!: exI [of _ i])
  next
    case ne: False
    show ?thesis
    proof (cases "cm_tlbix (coremap s ! d) = -1")
      case False
      then obtain j where j: "j < 64" "cm_tlbix (coremap s ! d) = int j" "valid_entry (cm_tlb s) j" "frame (snd (cm_tlb s ! j)) = cpage s d"
        using inv d unfolding tlb_inv_def page_ok_def by auto
      have "j \<noteq> i"
      proof
        assume "j = i"
        with j(2,3) slot have "cm_tlbix (coremap s ! c) = int j" by (simp add: slot_for_def)
        with tlbix_unique [OF inv _ i(3) j(2)] d ne show False by simp
      qed
      then show ?thesis using j ne val unfolding page_ok_def by auto
    qed (use ne in \<open>simp add: page_ok_def\<close>)
  qed
  show "tlb_unique (cm_tlb ?s)" using slot_unique [OF inv slot] by simp
qed (use inv in \<open>simp_all add: tlb_inv_def ram_fits_def\<close>)

lemma getslot_ok:
  assumes inv: "tlb_inv s" and va: "va < 0x80000000" and c: "c < num_coremap_entries s" "cm_tlbix (coremap s ! c) = -1" and probe: "TLB_Probe va (cm_tlb s) = None"
  shows "\<exists>i s'. mipstlb_getslot s = Some (i, s') \<and> tlb_inv s' \<and> tlb_only s s' \<and> lastas s' = lastas s \<and> slot_for s' va c i \<and> \<not> valid_entry (cm_tlb s') i \<and>
    (\<forall>v < 0x80000000. tlb_translate (cm_tlb s') v \<in> {None, tlb_translate (cm_tlb s) v})"
proof (cases "nexttlb s < 64")
  case True
  let ?s = "s\<lparr>nexttlb := nexttlb s + 1\<rparr>"
  have "tlb_inv ?s"
  proof (rule tlb_invI)
    show "entry_ok ?s k" if "k < 64" for k using inv that unfolding tlb_inv_def entry_ok_def by auto
    show "page_ok ?s d" if "d < num_coremap_entries ?s" for d using inv that unfolding tlb_inv_def page_ok_def by auto
  qed (use inv True in \<open>simp_all add: tlb_inv_def ram_fits_def\<close>)
  moreover have "\<not> valid_entry (cm_tlb s) (nexttlb s)" using inv True unfolding tlb_inv_def entry_ok_def by (metis less_irrefl)
  ultimately show ?thesis using True c probe by (intro exI [of _ "nexttlb s"] exI [of _ ?s]) (simp add: mipstlb_getslot_def slot_for_def tlb_only_def)
next
  case False
  then have nx: "nexttlb s = 64" using inv by (simp add: tlb_inv_def)
  obtain i s1 where r: "tlb_replace s = (i, s1)" by (cases "tlb_replace s")
  then have i: "i < 64" and s1: "s1 = s\<lparr>tlb_slot := tlb_slot s1, nrandoms := nrandoms s1\<rparr>" by (auto simp: tlb_replace_def Let_def split: if_split_asm)
  have inv1: "tlb_inv s1" using inv by (subst s1) (simp add: tlb_inv_cong)
  have e1: "coremap s1 = coremap s" "cm_tlb s1 = cm_tlb s" "nexttlb s1 = 64" "lastas s1 = lastas s" by (subst s1, simp add: nx)+
  have o1: "tlb_only s s1" by (subst s1) (simp add: tlb_only_def)
  let ?s = "invalidated i s1"
  have g: "mipstlb_getslot s = Some (i, ?s)" using False r by (simp add: mipstlb_getslot_def tlb_invalidate_eq [OF inv1 i])
  have inv': "tlb_inv ?s" by (rule tlb_invalidate_inv [OF inv1 i])
  have len: "length (cm_tlb s) = 64" and u: "tlb_unique (cm_tlb s)" using inv by (simp_all add: tlb_inv_def)
  have v: "\<not> valid_entry (cm_tlb ?s) i" using i len e1 by (simp add: valid_update)
  have "frame (fst (cm_tlb s ! k)) \<noteq> frame va" if "k < 64" for k using probe that TLB_Probe_None [OF u, of va] len by simp
  moreover have "frame (TLBHI_INVALID i) \<noteq> frame va" using user_frame [OF va] i by (simp add: frame_invalid)
  ultimately have "frame (fst (cm_tlb ?s ! k)) \<noteq> frame va" if "k < 64" for k using that e1 len i by (cases "k = i") simp_all
  then have "TLB_Probe va (cm_tlb ?s) = None" using TLB_Probe_None [of "cm_tlb ?s" va] inv' by (simp add: tlb_inv_def)
  moreover have "cm_tlbix (coremap ?s ! c) = -1" using c e1 by (simp add: drop_tlb_nth)
  ultimately have "slot_for ?s va c i" using v i c(1) e1 by (simp add: slot_for_def)
  moreover have "tlb_only s ?s" by (rule tlb_only_trans [OF o1 tlb_only_invalidated])
  moreover have "tlb_translate (cm_tlb ?s) x \<in> {None, tlb_translate (cm_tlb s) x}" if "x < 0x80000000" for x
    using translate_invalidated [OF inv1 i that] e1(2) by simp
  ultimately show ?thesis using g inv' v e1(4) by (intro exI [of _ i] exI [of _ ?s]) simp
qed

text \<open>The low word of an entry.\<close>

definition tlblo :: "nat \<Rightarrow> bool \<Rightarrow> nat" where
  "tlblo pa writable = (if writable then (frame pa OR TLBLO_VALID) OR TLBLO_DIRTY else frame pa OR TLBLO_VALID)"

lemma tlblo_fields:
  assumes "pa mod 4096 = 0" "pa < 2 ^ 29"
  shows "tlblo pa w AND TLBLO_VALID \<noteq> 0" and "frame (tlblo pa w) = pa" and "(tlblo pa w AND TLBLO_DIRTY \<noteq> 0) = w"
proof -
  have f: "frame pa = pa" using assms by (simp add: frame_fixed)
  define x :: nat where "x = (if w then 0x600 else 0x200)"
  have e: "tlblo pa w = pa OR x" by (simp add: tlblo_def f x_def or.assoc)
  show "tlblo pa w AND TLBLO_VALID \<noteq> 0" "(tlblo pa w AND TLBLO_DIRTY \<noteq> 0) = w" unfolding e tlblo_flags [OF assms(1)] by (simp_all add: x_def)
  show "frame (tlblo pa w) = pa" unfolding e by (rule frame_page) (use assms in \<open>simp_all add: x_def\<close>)
qed

lemma mmu_map_ok:
  assumes inv: "tlb_inv s" and va: "va < 0x80000000" and c: "c < num_coremap_entries s" and pa: "pa = cpage s c"
    and free: "tlb_translate (cm_tlb s) va = None \<and> cm_tlbix (coremap s ! c) = -1 \<or> (\<exists>w. tlb_translate (cm_tlb s) va = Some (pa, w))"
  shows "\<exists>s'. mmu_map (lastas s) va pa writable s = Some s' \<and> tlb_inv s' \<and> tlb_only s s' \<and>
    (\<forall>v < 0x80000000. if frame v = frame va then tlb_translate (cm_tlb s') v = Some (pa, writable)
       else tlb_translate (cm_tlb s') v \<in> {None, tlb_translate (cm_tlb s) v})"
proof -
  have fits: "ram_fits s" and len: "length (cm_tlb s) = 64" and u: "tlb_unique (cm_tlb s)" using inv by (simp_all add: tlb_inv_def)
  have pa29: "pa mod 4096 = 0" "pa < 2 ^ 29" "pa div 4096 = c + base_coremap_page s" using fits c unfolding pa ram_fits_def by simp_all
  note lo = tlblo_fields [OF pa29(1,2), of writable]
  have valid: "valid_entry (cm_tlb s) i" if "TLB_Probe va (cm_tlb s) = Some i" for i
  proof -
    have i: "i < 64" "frame (fst (cm_tlb s ! i)) = frame va" using TLB_Probe_Some [OF that] len by auto
    from inv i(1) show ?thesis
    proof (cases rule: tlb_invE)
      case Invalid
      then show ?thesis using i user_frame [OF va] by (simp add: frame_invalid)
    qed
  qed
  have "\<exists>i s1. (case TLB_Probe va (cm_tlb s) of None \<Rightarrow> mipstlb_getslot s | Some i \<Rightarrow> Some (i, s)) = Some (i, s1) \<and> tlb_inv s1 \<and> tlb_only s s1 \<and> slot_for s1 va c i \<and>
    (\<forall>v < 0x80000000. tlb_translate (cm_tlb s1) v \<in> {None, tlb_translate (cm_tlb s) v})"
  proof (cases "TLB_Probe va (cm_tlb s)")
    case None
    then have "tlb_translate (cm_tlb s) va = None" by (simp add: tlb_translate_def)
    with free have "cm_tlbix (coremap s ! c) = -1" by auto
    from getslot_ok [OF inv va c this None] None show ?thesis by auto
  next
    case (Some i)
    have i: "i < 64" "frame (fst (cm_tlb s ! i)) = frame va" using TLB_Probe_Some [OF Some] len by auto
    from inv i(1) show ?thesis
    proof (cases rule: tlb_invE)
      case (Valid d)
      then have "tlb_translate (cm_tlb s) va = Some (cpage s d, snd (cm_tlb s ! i) AND 0x400 \<noteq> 0)"
        using Some by (simp add: tlb_translate_def Let_def valid_entry_def)
      with free pa have "d = c" by auto
      then show ?thesis using Some Valid i inv by (intro exI [of _ i] exI [of _ s]) (simp add: slot_for_def)
    qed (use valid [OF Some] in simp)
  qed
  then obtain i s1 where r: "(case TLB_Probe va (cm_tlb s) of None \<Rightarrow> mipstlb_getslot s | Some i \<Rightarrow> Some (i, s)) = Some (i, s1)" "tlb_inv s1" "tlb_only s s1" "slot_for s1 va c i"
    "\<forall>v < 0x80000000. tlb_translate (cm_tlb s1) v \<in> {None, tlb_translate (cm_tlb s) v}" by blast
  have len1: "num_coremap_entries s1 = num_coremap_entries s" "base_coremap_page s1 = base_coremap_page s" using tlb_only_length [OF r(3)] r(3) by (auto simp: tlb_only_def)
  let ?s = "installed va (tlblo pa writable) c i s1"
  have fits1: "ram_fits s1" using r(2) by (simp add: tlb_inv_def)
  have cm: "PADDR_TO_COREMAP s1 pa = c" using coremap_paddr(2) [OF fits1, of c] c len1 pa by simp
  have sl: "i < 64" "cm_tlbix (coremap s1 ! c) = int i \<or> cm_tlbix (coremap s1 ! c) = -1" using r(4) by (auto simp: slot_for_def split: if_split_asm)
  have same: "(coremap s1)[c := (coremap s1 ! c)\<lparr>cm_tlbix := int i\<rparr>] = coremap s1" if "cm_tlbix (coremap s1 ! c) = int i"
  proof -
    have "(coremap s1 ! c)\<lparr>cm_tlbix := int i\<rparr> = coremap s1 ! c" unfolding that [symmetric] by simp
    then show ?thesis by simp
  qed
  have m: "mmu_map (lastas s) va pa writable s = Some ?s"
  proof (cases "cm_tlbix (coremap s1 ! c) = int i")
    case True
    then show ?thesis using c by (simp add: mmu_map_def r(1) pa29(3) len1 cm sl(1) same tlblo_def TLB_Write_def Let_def)
  next
    case False
    with sl(2) have "cm_tlbix (coremap s1 ! c) = -1" by simp
    then show ?thesis using c by (simp add: mmu_map_def r(1) pa29(3) len1 cm sl(1) tlblo_def TLB_Write_def Let_def)
  qed
  have f: "frame (tlblo pa writable) = cpage s1 c" using lo(2) pa len1 by simp
  have inv': "tlb_inv ?s" by (rule installed_inv [OF r(2) va r(4) lo(1) f])
  have u1: "tlb_unique (cm_tlb s1)" "length (cm_tlb s1) = 64" using r(2) by (simp_all add: tlb_inv_def)
  have tr: "tlb_translate (cm_tlb ?s) v = (if frame v = frame va then Some (pa, writable) else if frame (fst (cm_tlb s1 ! i)) = frame v then None else tlb_translate (cm_tlb s1) v)" for v
    using translate_update [OF u1(1) slot_unique [OF r(2,4)], of "tlblo pa writable" v] sl(1) u1(2) lo by simp
  have "tlb_only s1 ?s" using c len1 by (simp add: tlb_only_def strip_update)
  with tlb_only_trans [OF r(3)] have "tlb_only s ?s" by blast
  then show ?thesis using m inv' r(5) tr by (intro exI [of _ ?s]) auto
qed

section \<open>Correctness\<close>

lemma mmu_setas_ok:
  assumes "tlb_inv s"
  shows "\<exists>s'. mmu_setas as s = Some s' \<and> tlb_inv s' \<and> tlb_only (s\<lparr>lastas := as\<rparr>) s' \<and>
    (\<forall>v. tlb_translate (cm_tlb s') v = (if as = lastas s then tlb_translate (cm_tlb s) v else None))"
proof (cases "as = lastas s")
  case False
  have "tlb_inv (s\<lparr>lastas := as\<rparr>)" using assms by (simp add: tlb_inv_cong)
  from tlb_clear_ok [OF this] False show ?thesis by (auto simp: mmu_setas_def)
qed (use assms in \<open>simp add: mmu_setas_def\<close>)

text \<open>C32: What \<^verbatim>\<open>coremap.c\<close> does to the translations of user addresses. \<^verbatim>\<open>mmu_map\<close> of a page that is mapped nowhere, at an address that
  is not mapped (or of the page that is there already), maps the address as asked for and at most forgets other translations;
  \<^verbatim>\<open>mmu_unmap\<close> removes the translation of its page and no other, and does nothing for an address space that is not loaded;
  \<^verbatim>\<open>mmu_setas\<close> to another address space forgets all translations. None of the assertions fails, the translation buffer and
  the coremap still agree, and nothing but the links from pages to the buffer changes.\<close>

theorem mmu_correct:
  assumes "tlb_inv s" and "va < 0x80000000"
  shows "(c < num_coremap_entries s \<and>
      (tlb_translate (cm_tlb s) va = None \<and> cm_tlbix (coremap s ! c) = -1 \<or> (\<exists>w. tlb_translate (cm_tlb s) va = Some (cpage s c, w))) \<longrightarrow>
      (\<exists>s'. mmu_map (lastas s) va (cpage s c) writable s = Some s' \<and> tlb_inv s' \<and> tlb_only s s' \<and>
        (\<forall>v < 0x80000000. if frame v = frame va then tlb_translate (cm_tlb s') v = Some (cpage s c, writable)
           else tlb_translate (cm_tlb s') v \<in> {None, tlb_translate (cm_tlb s) v}))) \<and>
    (\<exists>s'. mmu_unmap as va s = Some s' \<and> tlb_inv s' \<and> tlb_only s s' \<and>
      (\<forall>v < 0x80000000. tlb_translate (cm_tlb s') v = (if as = lastas s \<and> frame v = frame va then None else tlb_translate (cm_tlb s) v))) \<and>
    (\<exists>s'. mmu_setas as s = Some s' \<and> tlb_inv s' \<and> tlb_only (s\<lparr>lastas := as\<rparr>) s' \<and>
      (\<forall>v. tlb_translate (cm_tlb s') v = (if as = lastas s then tlb_translate (cm_tlb s) v else None)))"
proof (intro conjI)
  show "c < num_coremap_entries s \<and>
      (tlb_translate (cm_tlb s) va = None \<and> cm_tlbix (coremap s ! c) = -1 \<or> (\<exists>w. tlb_translate (cm_tlb s) va = Some (cpage s c, w))) \<longrightarrow>
      (\<exists>s'. mmu_map (lastas s) va (cpage s c) writable s = Some s' \<and> tlb_inv s' \<and> tlb_only s s' \<and>
        (\<forall>v < 0x80000000. if frame v = frame va then tlb_translate (cm_tlb s') v = Some (cpage s c, writable)
           else tlb_translate (cm_tlb s') v \<in> {None, tlb_translate (cm_tlb s) v}))"
    using mmu_map_ok [OF assms, of c "cpage s c" writable] by blast
  show "\<exists>s'. mmu_unmap as va s = Some s' \<and> tlb_inv s' \<and> tlb_only s s' \<and>
        (\<forall>v < 0x80000000. tlb_translate (cm_tlb s') v = (if as = lastas s \<and> frame v = frame va then None else tlb_translate (cm_tlb s) v))"
  proof (cases "as = lastas s")
    case False
    then show ?thesis using assms by (simp add: mmu_unmap_def)
  qed (use mmu_unmap_ok [OF assms] in simp)
qed (rule mmu_setas_ok [OF assms(1)])

definition demo_mmu :: cmsys where
  "demo_mmu = \<lparr>coremap = [\<lparr>cm_lp = Some 0, cm_tlbix = -1, cm_kernel = False, cm_notlast = False, cm_allocated = True, cm_pinned = True\<rparr>],
     num_coremap_kernel = 0, num_coremap_user = 1, num_coremap_free = 0, base_coremap_page = 1, nexttlb = 0, tlb_slot = 0, lastas = Some 0,
     cm_tlb = map (\<lambda>i. (TLBHI_INVALID i, 0)) [0..<64], opt_seqtlb = True, randoms = (\<lambda>_. 0), nrandoms = 0, cm_ram = (\<lambda>_. 0),
     in_interrupt = False, has_curthread = True, paging_lock = False\<rparr>"

lemma demo_mmu_inv: "tlb_inv demo_mmu" and demo_mmu_none: "tlb_translate (cm_tlb demo_mmu) v = None"
proof -
  have t: "length (cm_tlb demo_mmu) = 64" "\<forall>i < 64. cm_tlb demo_mmu ! i = (TLBHI_INVALID i, 0)" by (simp_all add: demo_mmu_def del: upt.simps)
  have none: "\<not> valid_entry (cm_tlb demo_mmu) i" for i using t by (simp add: valid_entry_def)
  show u: "tlb_inv demo_mmu"
  proof (rule tlb_invI)
    show "tlb_unique (cm_tlb demo_mmu)" using t by (simp add: tlb_unique_def frame_invalid)
    show "entry_ok demo_mmu i" if "i < 64" for i using that t none by (simp add: entry_ok_def)
  qed (simp_all add: demo_mmu_def ram_fits_def page_ok_def)
  show "tlb_translate (cm_tlb demo_mmu) v = None"
    using none translate_iff [of "cm_tlb demo_mmu" v] u by (cases "tlb_translate (cm_tlb demo_mmu) v") (auto simp: tlb_inv_def)
qed

theorem mmu_correct_witness:
  "\<exists>s'. mmu_map (Some 0) 0x400000 4096 False demo_mmu = Some s' \<and> tlb_inv s' \<and> tlb_translate (cm_tlb s') 0x400123 = Some (4096, False) \<and>
     (\<exists>s''. mmu_unmap (Some 0) 0x400000 s' = Some s'' \<and> tlb_translate (cm_tlb s'') 0x400123 = None) \<and>
     (\<exists>s''. mmu_setas None s' = Some s'' \<and> tlb_translate (cm_tlb s'') 0x400123 = None)"
proof -
  have f: "frame 0x400123 = frame 0x400000" by (simp add: frame_eq)
  have va: "0x400000 < (0x80000000 :: nat)" "0x400123 < (0x80000000 :: nat)" by simp_all
  have "0 < num_coremap_entries demo_mmu \<and> (tlb_translate (cm_tlb demo_mmu) 0x400000 = None \<and> cm_tlbix (coremap demo_mmu ! 0) = -1 \<or>
      (\<exists>w. tlb_translate (cm_tlb demo_mmu) 0x400000 = Some (cpage demo_mmu 0, w)))" using demo_mmu_none by (simp add: demo_mmu_def)
  from mp [OF conjunct1 [OF mmu_correct [OF demo_mmu_inv va(1)]] this, of False] obtain s' where
    s': "mmu_map (lastas demo_mmu) 0x400000 (cpage demo_mmu 0) False demo_mmu = Some s'" "tlb_inv s'" "tlb_only demo_mmu s'"
    "\<forall>v < 0x80000000. if frame v = frame 0x400000 then tlb_translate (cm_tlb s') v = Some (cpage demo_mmu 0, False) else tlb_translate (cm_tlb s') v \<in> {None, tlb_translate (cm_tlb demo_mmu) v}" by blast
  have d: "lastas demo_mmu = Some 0" "cpage demo_mmu 0 = 4096" "lastas s' = Some 0" using s'(3) by (simp_all add: demo_mmu_def tlb_only_def)
  have 1: "mmu_map (Some 0) 0x400000 4096 False demo_mmu = Some s'" using s'(1) unfolding d .
  have 2: "tlb_translate (cm_tlb s') 0x400123 = Some (4096, False)" using s'(4) va f d by simp
  from conjunct1 [OF conjunct2 [OF mmu_correct [OF s'(2) va(1), where as = "Some 0"]]] f va d have 3: "\<exists>s''. mmu_unmap (Some 0) 0x400000 s' = Some s'' \<and> tlb_translate (cm_tlb s'') 0x400123 = None" by auto
  from conjunct2 [OF conjunct2 [OF mmu_correct [OF s'(2) va(1), where as = None]]] d have 4: "\<exists>s''. mmu_setas None s' = Some s'' \<and> tlb_translate (cm_tlb s'') 0x400123 = None" by auto
  show ?thesis using 1 s'(2) 2 3 4 by blast
qed

end
