(* ===== verification/K_Coremap_Pages.thy ===== *)
theory K_Coremap_Pages
  imports K_Coremap
begin

text \<open>
  Page allocation in \<^verbatim>\<open>kern/arch/mips/mips/coremap.c\<close>: single pages from the top of memory, runs of pages for the kernel by a best-fit scan,
  freeing, pinning, and the interface to the kernel heap.

  \<^verbatim>\<open>page_replace\<close> and \<^verbatim>\<open>do_evict\<close> are stubs in the source. The theorems give what works without them, the heap over this VM system
  included, and what happens when they would be needed.
\<close>

section \<open>The code\<close>

definition coremap_bootstrap :: "ram \<Rightarrow> cmsys \<Rightarrow> (ram \<times> cmsys) option" where
  "coremap_bootstrap r s = do {
     let ((first, last), r) = ram_getsize r;
     kassert (frame first = first);
     kassert (frame last = last);
     let npages = u32 (int last - int first) div PAGE_SIZE;
     let coremapsize = npages * 8 mod 2 ^ 32;
     let coremapsize = DIVROUNDUP coremapsize PAGE_SIZE * PAGE_SIZE mod 2 ^ 32;
     kassert (frame coremapsize = coremapsize);
     let first = (first + coremapsize) mod 2 ^ 32;
     kassert (first < last);
     let base = first div PAGE_SIZE;
     let n = u32 (int (last div PAGE_SIZE) - int base);
     kassert ((n + coremapsize div PAGE_SIZE) mod 2 ^ 32 = npages);
     Some (r, s\<lparr>nexttlb := 0, base_coremap_page := base, num_coremap_kernel := 0, num_coremap_user := 0, num_coremap_free := n,
       coremap := replicate n \<lparr>cm_lp = None, cm_tlbix = -1, cm_kernel = False, cm_notlast = False, cm_allocated = False, cm_pinned = False\<rparr>\<rparr>)
   }"

definition piggish_kernel :: "nat \<Rightarrow> cmsys \<Rightarrow> bool" where
  "piggish_kernel proposed_kernel_pages s \<longleftrightarrow>
     u32 (int (num_coremap_entries s) - CM_MIN_SLACK) \<le> (num_coremap_kernel s + proposed_kernel_pages) mod 2 ^ 32"

definition page_replace :: "cmsys \<Rightarrow> nat" where
  "page_replace s = 0"

definition do_evict :: "nat \<Rightarrow> cmsys \<Rightarrow> cmsys" where
  "do_evict i s = s"

definition do_page_replace :: "cmsys \<Rightarrow> (nat \<times> cmsys) option" where
  "do_page_replace s = do {
     kassert (paging_lock s);
     let i = page_replace s;
     kassert (i < num_coremap_entries s);
     let e = coremap s ! i;
     kassert (\<not> cm_pinned e);
     kassert (\<not> cm_kernel e);
     if cm_allocated e then do {
       kassert (cm_lp e \<noteq> None);
       kassert (\<not> in_interrupt s);
       Some (i, do_evict i s)
     }
     else Some (i, s)
   }"

fun mark_pages_loop :: "nat \<Rightarrow> nat \<Rightarrow> bool \<Rightarrow> bool \<Rightarrow> coremap_entry list \<Rightarrow> coremap_entry list option" where
  "mark_pages_loop i 0 pin iskern es = Some es"
| "mark_pages_loop i (Suc k) pin iskern es = do {
     kassert (i < length es);
     let e = es ! i;
     kassert (\<not> cm_pinned e);
     kassert (\<not> cm_allocated e);
     kassert (\<not> cm_kernel e);
     kassert (cm_lp e = None);
     kassert (cm_tlbix e < 0);
     let e = (if pin then e\<lparr>cm_pinned := True\<rparr> else e);
     let e = e\<lparr>cm_allocated := True\<rparr>;
     let e = (if iskern then e\<lparr>cm_kernel := True\<rparr> else e);
     let e = (if 0 < k then e\<lparr>cm_notlast := True\<rparr> else e);
     mark_pages_loop (Suc i) k pin iskern (es[i := e])
   }"

definition mark_pages_allocated :: "nat \<Rightarrow> nat \<Rightarrow> bool \<Rightarrow> bool \<Rightarrow> cmsys \<Rightarrow> cmsys option" where
  "mark_pages_allocated start npages pin iskern s = do {
     es \<leftarrow> mark_pages_loop start npages pin iskern (coremap s);
     let s = s\<lparr>coremap := es\<rparr>;
     let s = (if iskern then s\<lparr>num_coremap_kernel := (num_coremap_kernel s + npages) mod 2 ^ 32\<rparr>
              else s\<lparr>num_coremap_user := (num_coremap_user s + npages) mod 2 ^ 32\<rparr>);
     let s = s\<lparr>num_coremap_free := u32 (int (num_coremap_free s) - int npages)\<rparr>;
     kassert ((num_coremap_kernel s + num_coremap_user s + num_coremap_free s) mod 2 ^ 32 = num_coremap_entries s);
     Some s
   }"

text \<open>The lock is taken unless in an interrupt or before there are threads. Taking a lock twice, or releasing one that is not
  held, is an assertion failure in \<^verbatim>\<open>synch.c\<close>.\<close>

definition paging_acquire :: "cmsys \<Rightarrow> cmsys option" where
  "paging_acquire s =
     (if \<not> in_interrupt s \<and> has_curthread s then do { kassert (\<not> paging_lock s); Some (s\<lparr>paging_lock := True\<rparr>) } else Some s)"

definition paging_release :: "cmsys \<Rightarrow> cmsys option" where
  "paging_release s =
     (if \<not> in_interrupt s \<and> has_curthread s then do { kassert (paging_lock s); Some (s\<lparr>paging_lock := False\<rparr>) } else Some s)"

text \<open>The search for a free page, from the top of memory: \<open>i\<close> pages are left.\<close>

fun find_free :: "nat \<Rightarrow> coremap_entry list \<Rightarrow> nat option option" where
  "find_free 0 es = Some None"
| "find_free (Suc i) es =
     (if cm_pinned (es ! i) \<or> cm_allocated (es ! i) then find_free i es
      else do {
        kassert (\<not> cm_kernel (es ! i));
        kassert (cm_lp (es ! i) = None);
        Some (Some i)
      })"

text \<open>A free page, or one that page replacement has picked.\<close>

definition pick_page :: "cmsys \<Rightarrow> (nat option \<times> cmsys) option" where
  "pick_page s = do {
     candidate \<leftarrow> (if num_coremap_free s > 0 then find_free (num_coremap_entries s) (coremap s) else Some None);
     if candidate = None \<and> \<not> in_interrupt s then do {
       kassert (num_coremap_free s = 0);
       (i, s) \<leftarrow> do_page_replace s;
       Some (Some i, s)
     }
     else Some (candidate, s)
   }"

definition coremap_alloc_one_page :: "nat option \<Rightarrow> bool \<Rightarrow> cmsys \<Rightarrow> (nat \<times> cmsys) option" where
  "coremap_alloc_one_page lp dopin s = do {
     let iskern = (lp = None);
     s \<leftarrow> paging_acquire s;
     if iskern \<and> piggish_kernel 1 s then do { s \<leftarrow> paging_release s; Some (INVALID_PADDR, s) }
     else do {
       (candidate, s) \<leftarrow> pick_page s;
       case candidate of
         None \<Rightarrow> do { s \<leftarrow> paging_release s; Some (INVALID_PADDR, s) }
       | Some i \<Rightarrow> do {
           s \<leftarrow> mark_pages_allocated i 1 dopin iskern s;
           let s = put_cm i ((coremap s ! i)\<lparr>cm_lp := lp\<rparr>) s;
           kassert (cm_tlbix (coremap s ! i) < 0);
           s \<leftarrow> paging_release s;
           Some (COREMAP_TO_PADDR s i, s)
         }
     }
   }"

text \<open>The scan for the block with the fewest evictions. \<open>base\<close> is \<open>None\<close> where the code has -1; the page at \<open>i\<close> is next and \<open>k\<close> pages are left.\<close>

fun scan :: "nat \<Rightarrow> nat \<Rightarrow> nat \<Rightarrow> nat option \<Rightarrow> int \<Rightarrow> nat option \<Rightarrow> int \<Rightarrow> coremap_entry list \<Rightarrow> nat option option" where
  "scan npages i 0 base badness bestbase bestbadness es = Some bestbase"
| "scan npages i (Suc k) base badness bestbase bestbadness es =
     (if cm_pinned (es ! i) \<or> cm_kernel (es ! i) then scan npages (Suc i) k None 0 bestbase bestbadness es
      else do {
        kassert (cm_allocated (es ! i) \<longrightarrow> cm_lp (es ! i) \<noteq> None);
        let badness = (if cm_allocated (es ! i) then badness + 1 else badness);
        case base of
          None \<Rightarrow> scan npages (Suc i) k (Some i) badness bestbase bestbadness es
        | Some b \<Rightarrow>
            if i - b \<ge> npages - 1 then do {
              let (bestbase, bestbadness) = (if badness < bestbadness then (Some b, badness) else (bestbase, bestbadness));
              let badness = (if cm_allocated (es ! b) then badness - 1 else badness);
              scan npages (Suc i) k (Some (b + 1)) badness bestbase bestbadness es
            }
            else scan npages (Suc i) k (Some b) badness bestbase bestbadness es
      })"

text \<open>The loop that evicts the pages of the block. \<open>None\<close> inside: a page has to be evicted in an interrupt.\<close>

fun evict_loop :: "nat \<Rightarrow> nat \<Rightarrow> bool \<Rightarrow> cmsys \<Rightarrow> (bool option \<times> cmsys) option" where
  "evict_loop i 0 evicted s = Some (Some evicted, s)"
| "evict_loop i (Suc k) evicted s =
     (if cm_pinned (coremap s ! i) \<or> cm_kernel (coremap s ! i) then do { kassert evicted; Some (Some evicted, s) }
      else if cm_allocated (coremap s ! i) then
        if in_interrupt s then Some (None, s) else evict_loop (Suc i) k True (do_evict i s)
      else evict_loop (Suc i) k evicted s)"

datatype multi = No_Block | In_Interrupt | Block nat

partial_function (option) multi_loop :: "nat \<Rightarrow> cmsys \<Rightarrow> (multi \<times> cmsys) option" where
  "multi_loop npages s =
     Option.bind (scan npages 0 (num_coremap_entries s) None 0 None (off32 (int npages * 2)) (coremap s)) (\<lambda>bestbase.
       case bestbase of
         None \<Rightarrow> Some (No_Block, s)
       | Some b \<Rightarrow> Option.bind (evict_loop b npages False s) (\<lambda>(evicted, s).
           case evicted of
             None \<Rightarrow> Some (In_Interrupt, s)
           | Some ev \<Rightarrow> if ev then multi_loop npages s else Some (Block b, s)))"

definition coremap_alloc_multipages :: "nat \<Rightarrow> cmsys \<Rightarrow> (nat \<times> cmsys) option" where
  "coremap_alloc_multipages npages s = do {
     kassert (npages > 1);
     s \<leftarrow> paging_acquire s;
     if piggish_kernel npages s then do { s \<leftarrow> paging_release s; Some (INVALID_PADDR, s) }
     else do {
       (r, s) \<leftarrow> multi_loop npages s;
       case r of
         No_Block \<Rightarrow> do { s \<leftarrow> paging_release s; Some (INVALID_PADDR, s) }
       | In_Interrupt \<Rightarrow> Some (INVALID_PADDR, s)
       | Block b \<Rightarrow> do {
           s \<leftarrow> mark_pages_allocated b npages False True s;
           s \<leftarrow> paging_release s;
           Some (COREMAP_TO_PADDR s b, s)
         }
     }
   }"

definition coremap_allocuser :: "nat \<Rightarrow> cmsys \<Rightarrow> (nat \<times> cmsys) option" where
  "coremap_allocuser lp s = do { kassert (\<not> in_interrupt s); coremap_alloc_one_page (Some lp) True s }"

fun free_loop :: "nat \<Rightarrow> nat \<Rightarrow> bool \<Rightarrow> cmsys \<Rightarrow> cmsys option" where
  "free_loop i 0 iskern s = Some s"
| "free_loop i (Suc k) iskern s = do {
     kassert (cm_allocated (coremap s ! i));
     s \<leftarrow> (if cm_tlbix (coremap s ! i) \<ge> 0 then do {
             s \<leftarrow> tlb_invalidate (nat (cm_tlbix (coremap s ! i))) s;
             Some (put_cm i ((coremap s ! i)\<lparr>cm_tlbix := -1\<rparr>) s)
           }
           else Some s);
     let e = (coremap s ! i)\<lparr>cm_allocated := False\<rparr>;
     (e, s) \<leftarrow>
       (if cm_kernel e then do {
          kassert (cm_lp e = None);
          kassert iskern;
          Some (e\<lparr>cm_kernel := False\<rparr>, s\<lparr>num_coremap_kernel := u32 (int (num_coremap_kernel s) - 1)\<rparr>)
        }
        else do {
          kassert (cm_lp e \<noteq> None);
          kassert (\<not> iskern);
          Some (e, s\<lparr>num_coremap_user := u32 (int (num_coremap_user s) - 1)\<rparr>)
        });
     let s = s\<lparr>num_coremap_free := (num_coremap_free s + 1) mod 2 ^ 32\<rparr>;
     let e = e\<lparr>cm_lp := None\<rparr>;
     if \<not> cm_notlast e then Some (put_cm i e s)
     else free_loop (Suc i) k iskern (put_cm i (e\<lparr>cm_notlast := False\<rparr>) s)
   }"

definition coremap_free :: "nat \<Rightarrow> bool \<Rightarrow> cmsys \<Rightarrow> cmsys option" where
  "coremap_free page iskern s = do {
     let ppn = PADDR_TO_COREMAP s page;
     kassert (ppn < num_coremap_entries s);
     free_loop ppn (num_coremap_entries s - ppn) iskern s
   }"

definition alloc_kpages :: "int \<Rightarrow> cmsys \<Rightarrow> (nat \<times> cmsys) option" where
  "alloc_kpages npages s = do {
     (pa, s) \<leftarrow> (if npages > 1 then coremap_alloc_multipages (nat npages) s else coremap_alloc_one_page None False s);
     Some (if pa = INVALID_PADDR then 0 else PADDR_TO_KVADDR pa, s)
   }"

definition free_kpages :: "nat \<Rightarrow> cmsys \<Rightarrow> cmsys option" where
  "free_kpages addr s = coremap_free (KVADDR_TO_PADDR addr) True s"

text \<open>One turn of the loop of \<^verbatim>\<open>coremap_pin\<close>: \<open>True\<close> when the page has been pinned, \<open>False\<close> when the thread has to sleep on it.\<close>

definition coremap_pin :: "nat \<Rightarrow> cmsys \<Rightarrow> (bool \<times> cmsys) option" where
  "coremap_pin paddr s = do {
     let ix = PADDR_TO_COREMAP s paddr;
     kassert (ix < num_coremap_entries s);
     if cm_pinned (coremap s ! ix) then Some (False, s)
     else Some (True, put_cm ix ((coremap s ! ix)\<lparr>cm_pinned := True\<rparr>) s)
   }"

definition coremap_pageispinned :: "nat \<Rightarrow> cmsys \<Rightarrow> bool option" where
  "coremap_pageispinned paddr s = do {
     let ix = PADDR_TO_COREMAP s paddr;
     kassert (ix < num_coremap_entries s);
     Some (cm_pinned (coremap s ! ix))
   }"

text \<open>The result is the entry whose sleepers are woken.\<close>

definition coremap_unpin :: "nat \<Rightarrow> cmsys \<Rightarrow> (nat \<times> cmsys) option" where
  "coremap_unpin paddr s = do {
     let ix = PADDR_TO_COREMAP s paddr;
     kassert (ix < num_coremap_entries s);
     kassert (cm_pinned (coremap s ! ix));
     Some (ix, put_cm ix ((coremap s ! ix)\<lparr>cm_pinned := False\<rparr>) s)
   }"

definition coremap_zero_page :: "nat \<Rightarrow> cmsys \<Rightarrow> cmsys option" where
  "coremap_zero_page paddr s = do {
     p \<leftarrow> coremap_pageispinned paddr s;
     kassert p;
     Some (s\<lparr>cm_ram := (\<lambda>x. if paddr \<le> x \<and> x < paddr + PAGE_SIZE then 0 else cm_ram s x)\<rparr>)
   }"

definition coremap_copy_page :: "nat \<Rightarrow> nat \<Rightarrow> cmsys \<Rightarrow> cmsys option" where
  "coremap_copy_page oldpaddr newpaddr s = do {
     kassert (oldpaddr \<noteq> newpaddr);
     p \<leftarrow> coremap_pageispinned oldpaddr s;
     kassert p;
     p \<leftarrow> coremap_pageispinned newpaddr s;
     kassert p;
     Some (s\<lparr>cm_ram := memmove_phys newpaddr oldpaddr PAGE_SIZE (cm_ram s)\<rparr>)
   }"

section \<open>The scan is best fit\<close>

text \<open>Pages that cannot be part of a block, the evictions that a block needs, and the blocks that end at or before page \<open>i\<close>.\<close>

definition barred :: "coremap_entry list \<Rightarrow> nat \<Rightarrow> bool" where
  "barred es p \<longleftrightarrow> cm_pinned (es ! p) \<or> cm_kernel (es ! p)"

definition evictions :: "coremap_entry list \<Rightarrow> nat \<Rightarrow> nat \<Rightarrow> nat" where
  "evictions es b e = card {p. b \<le> p \<and> p < e \<and> cm_allocated (es ! p)}"

definition blocks_to :: "coremap_entry list \<Rightarrow> nat \<Rightarrow> nat \<Rightarrow> nat set" where
  "blocks_to es n i = {c. c + n \<le> i \<and> (\<forall>p. c \<le> p \<and> p < c + n \<longrightarrow> \<not> barred es p)}"

text \<open>The reference: the lowest of the blocks that need the fewest evictions.\<close>

definition best_block :: "coremap_entry list \<Rightarrow> nat \<Rightarrow> nat \<Rightarrow> nat option \<Rightarrow> bool" where
  "best_block es n i r \<longleftrightarrow>
     (case r of
        None \<Rightarrow> blocks_to es n i = {}
      | Some b \<Rightarrow> b \<in> blocks_to es n i \<and>
          (\<forall>c \<in> blocks_to es n i. evictions es b (b + n) < evictions es c (c + n) \<or> evictions es b (b + n) = evictions es c (c + n) \<and> b \<le> c))"

lemma evictions_Suc: "b \<le> e \<Longrightarrow> evictions es b (Suc e) = evictions es b e + (if cm_allocated (es ! e) then 1 else 0)"
proof -
  assume "b \<le> e"
  then have "{p. b \<le> p \<and> p < Suc e \<and> cm_allocated (es ! p)} = {p. b \<le> p \<and> p < e \<and> cm_allocated (es ! p)} \<union> (if cm_allocated (es ! e) then {e} else {})"
    by (auto simp: less_Suc_eq)
  then show ?thesis by (simp add: evictions_def)
qed

lemma evictions_drop: "b < e \<Longrightarrow> evictions es b e = evictions es (Suc b) e + (if cm_allocated (es ! b) then 1 else 0)"
proof -
  assume "b < e"
  then have "{p. b \<le> p \<and> p < e \<and> cm_allocated (es ! p)} = {p. Suc b \<le> p \<and> p < e \<and> cm_allocated (es ! p)} \<union> (if cm_allocated (es ! b) then {b} else {})"
    by (auto simp: Suc_le_eq dest: le_neq_implies_less)
  then show ?thesis by (simp add: evictions_def)
qed

lemma evictions_empty [simp]: "evictions es b b = 0"
  by (simp add: evictions_def)

lemma evictions_le: "evictions es b (b + n) \<le> n"
proof -
  have "card {p. b \<le> p \<and> p < b + n \<and> cm_allocated (es ! p)} \<le> card {b..<b + n}" by (rule card_mono) auto
  then show ?thesis by (simp add: evictions_def)
qed

text \<open>The blocks that end at page \<open>i\<close> exactly.\<close>

lemma blocks_to_Suc:
  "blocks_to es n (Suc i) = blocks_to es n i \<union> {c. c + n = Suc i \<and> (\<forall>p. c \<le> p \<and> p < Suc i \<longrightarrow> \<not> barred es p)}"
  by (auto simp: blocks_to_def le_Suc_eq)

definition scan_inv :: "coremap_entry list \<Rightarrow> nat \<Rightarrow> nat \<Rightarrow> nat option \<Rightarrow> int \<Rightarrow> nat option \<Rightarrow> int \<Rightarrow> bool" where
  "scan_inv es n i base badness best bestbad \<longleftrightarrow>
     (case base of
        None \<Rightarrow> badness = 0 \<and> (i = 0 \<or> barred es (i - 1))
      | Some b \<Rightarrow> b < i \<and> i - b < n \<and> (\<forall>p. b \<le> p \<and> p < i \<longrightarrow> \<not> barred es p) \<and> (b = 0 \<or> barred es (b - 1) \<or> Suc (i - b) = n) \<and>
          badness = int (evictions es b i)) \<and>
     best_block es n i best \<and> bestbad = (case best of None \<Rightarrow> int n * 2 | Some b \<Rightarrow> int (evictions es b (b + n)))"

lemma scan_none:
  assumes "blocks_to es n (Suc i) = blocks_to es n i"
  shows "best_block es n (Suc i) best = best_block es n i best"
  unfolding best_block_def assms ..

lemma scan_step_barred:
  assumes "scan_inv es n i base badness best bestbad" and "barred es i" and "0 < n"
  shows "scan_inv es n (Suc i) None 0 best bestbad"
proof -
  have "blocks_to es n (Suc i) = blocks_to es n i" using assms(2,3) by (auto simp: blocks_to_Suc)
  then show ?thesis using assms(1,2) by (simp add: scan_inv_def scan_none)
qed

lemma scan_step_first:
  assumes inv: "scan_inv es n i None badness best bestbad" and i: "\<not> barred es i" and n: "1 < n"
  shows "scan_inv es n (Suc i) (Some i) (if cm_allocated (es ! i) then badness + 1 else badness) best bestbad"
proof -
  have b: "badness = 0" "i = 0 \<or> barred es (i - 1)" using inv by (simp_all add: scan_inv_def)
  have "c + n \<noteq> Suc i" if "\<forall>p. c \<le> p \<and> p < Suc i \<longrightarrow> \<not> barred es p" for c
  proof
    assume c: "c + n = Suc i"
    then have "i \<noteq> 0" "c \<le> i - 1" using n by auto
    with that b(2) show False by auto
  qed
  then have "blocks_to es n (Suc i) = blocks_to es n i" by (auto simp: blocks_to_Suc)
  moreover have "evictions es i (Suc i) = (if cm_allocated (es ! i) then 1 else 0)" by (simp add: evictions_Suc)
  moreover have "\<not> barred es p" if "i \<le> p" "p < Suc i" for p using that i by (cases "p = i") auto
  ultimately show ?thesis using inv i n b by (auto simp: scan_inv_def scan_none)
qed

lemma scan_step_grow:
  assumes inv: "scan_inv es n i (Some b) badness best bestbad" and i: "\<not> barred es i" and short: "i - b < n - 1"
  shows "scan_inv es n (Suc i) (Some b) (if cm_allocated (es ! i) then badness + 1 else badness) best bestbad"
proof -
  have b: "b < i" "\<forall>p. b \<le> p \<and> p < i \<longrightarrow> \<not> barred es p" "b = 0 \<or> barred es (b - 1)" "badness = int (evictions es b i)"
    using inv short by (auto simp: scan_inv_def)
  have "c + n \<noteq> Suc i" if "\<forall>p. c \<le> p \<and> p < Suc i \<longrightarrow> \<not> barred es p" for c
  proof
    assume c: "c + n = Suc i"
    with short b(1) have "c < b" by auto
    then have "barred es (b - 1)" "c \<le> b - 1" "b - 1 < Suc i" using b(1,3) by auto
    with that show False by blast
  qed
  then have "blocks_to es n (Suc i) = blocks_to es n i" by (auto simp: blocks_to_Suc)
  moreover have "\<not> barred es p" if "b \<le> p" "p < Suc i" for p using that b(2) i by (cases "p = i") auto
  ultimately show ?thesis using inv b short by (auto simp: scan_inv_def scan_none evictions_Suc)
qed

lemma scan_step_full:
  assumes inv: "scan_inv es n i (Some b) badness best bestbad" and i: "\<not> barred es i" and full: "n - 1 \<le> i - b" and n: "1 < n"
  defines "bad \<equiv> (if cm_allocated (es ! i) then badness + 1 else badness)"
  shows "scan_inv es n (Suc i) (Some (b + 1)) (if cm_allocated (es ! b) then bad - 1 else bad) (if bad < bestbad then Some b else best) (if bad < bestbad then bad else bestbad)"
proof -
  have b: "b < i" "i - b < n" "\<forall>p. b \<le> p \<and> p < i \<longrightarrow> \<not> barred es p" "badness = int (evictions es b i)" using inv by (auto simp: scan_inv_def)
  have e: "Suc i = b + n" using b full by simp
  have bad: "bad = int (evictions es b (b + n))" using b(1,4) by (simp add: bad_def e [symmetric] evictions_Suc)
  have nb: "\<not> barred es p" if "b \<le> p" "p < Suc i" for p using that b(3) i by (cases "p = i") auto
  have bl: "blocks_to es n (Suc i) = insert b (blocks_to es n i)" unfolding blocks_to_Suc using nb e by auto
  have less: "c < b" if "c \<in> blocks_to es n i" for c using that e by (auto simp: blocks_to_def)
  have best: "best_block es n i best" "bestbad = (case best of None \<Rightarrow> int n * 2 | Some b \<Rightarrow> int (evictions es b (b + n)))" using inv by (simp_all add: scan_inv_def)
  have "best_block es n (Suc i) (if bad < bestbad then Some b else best)"
  proof (cases best)
    case None
    have "bad \<le> int n" unfolding bad using evictions_le [of es b n] by simp
    then show ?thesis using None best n bl by (simp add: best_block_def)
  next
    case (Some a)
    then show ?thesis using best bl bad less [of a] by (fastforce simp: best_block_def)
  qed
  moreover have "(if cm_allocated (es ! b) then bad - 1 else bad) = int (evictions es (b + 1) (Suc i))" using evictions_drop [of b "b + n" es] n bad e by simp
  ultimately show ?thesis using nb b(1,2) e n bad best(2) by (auto simp: scan_inv_def)
qed

lemma scan_ok:
  assumes "scan_inv es n i base badness best bestbad" and "1 < n" and "\<forall>p. i \<le> p \<and> p < i + k \<longrightarrow> cm_allocated (es ! p) \<and> \<not> cm_kernel (es ! p) \<longrightarrow> cm_lp (es ! p) \<noteq> None"
  shows "\<exists>r. scan n i k base badness best bestbad es = Some r \<and> best_block es n (i + k) r"
  using assms(1,3)
proof (induction k arbitrary: i base badness best bestbad)
  case 0
  then show ?case by (simp add: scan_inv_def)
next
  case (Suc k)
  have rest: "\<forall>p. Suc i \<le> p \<and> p < Suc i + k \<longrightarrow> cm_allocated (es ! p) \<and> \<not> cm_kernel (es ! p) \<longrightarrow> cm_lp (es ! p) \<noteq> None" using Suc.prems(2) by auto
  note IH = Suc.IH [OF _ rest]
  show ?case
  proof (cases "barred es i")
    case True
    then show ?thesis using IH [OF scan_step_barred [OF Suc.prems(1) True]] assms(2) by (simp add: barred_def)
  next
    case False
    then have nb: "\<not> cm_pinned (es ! i)" "\<not> cm_kernel (es ! i)" by (simp_all add: barred_def)
    then have lp: "cm_allocated (es ! i) \<longrightarrow> cm_lp (es ! i) \<noteq> None" using Suc.prems(2) by simp
    show ?thesis
    proof (cases base)
      case None
      then show ?thesis using IH [OF scan_step_first [OF Suc.prems(1) [unfolded None] False assms(2)]] nb lp by (simp add: Let_def)
    next
      case (Some b)
      show ?thesis
      proof (cases "n - 1 \<le> i - b")
        case True
        then show ?thesis using IH [OF scan_step_full [OF Suc.prems(1) [unfolded Some] False True assms(2)]] nb lp Some by (auto simp: Let_def)
      next
        case small: False
        then have "i - b < n - 1" by simp
        from IH [OF scan_step_grow [OF Suc.prems(1) [unfolded Some] False this]] show ?thesis using small nb lp Some by (simp add: Let_def)
      qed
    qed
  qed
qed

section \<open>The retry loop\<close>

lemma evict_loop_ok:
  assumes "\<forall>p. i \<le> p \<and> p < i + k \<longrightarrow> \<not> barred (coremap s) p"
  shows "evict_loop i k ev s =
    (if \<forall>p. i \<le> p \<and> p < i + k \<longrightarrow> \<not> cm_allocated (coremap s ! p) then Some (Some ev, s) else if in_interrupt s then Some (None, s) else Some (Some True, s))"
  using assms
proof (induction k arbitrary: i ev)
  case (Suc k)
  have nb: "\<not> cm_pinned (coremap s ! i)" "\<not> cm_kernel (coremap s ! i)" using Suc.prems by (simp_all add: barred_def)
  have rest: "\<forall>p. Suc i \<le> p \<and> p < Suc i + k \<longrightarrow> \<not> barred (coremap s) p" using Suc.prems by simp
  have split: "(\<forall>p. i \<le> p \<and> p < i + Suc k \<longrightarrow> \<not> cm_allocated (coremap s ! p)) \<longleftrightarrow>
      \<not> cm_allocated (coremap s ! i) \<and> (\<forall>p. Suc i \<le> p \<and> p < Suc i + k \<longrightarrow> \<not> cm_allocated (coremap s ! p))"
  proof -
    have "i \<le> p \<and> p < i + Suc k \<longleftrightarrow> p = i \<or> Suc i \<le> p \<and> p < Suc i + k" for p by auto
    then show ?thesis by auto
  qed
  define A where "A \<longleftrightarrow> (\<forall>p. Suc i \<le> p \<and> p < Suc i + k \<longrightarrow> \<not> cm_allocated (coremap s ! p))"
  show ?case unfolding split A_def [symmetric] using nb by (simp add: do_evict_def Suc.IH [OF rest, folded A_def])
qed auto

lemma no_evictions: "evictions es b e = 0 \<longleftrightarrow> (\<forall>p. b \<le> p \<and> p < e \<longrightarrow> \<not> cm_allocated (es ! p))"
proof -
  have "finite {p. b \<le> p \<and> p < e \<and> cm_allocated (es ! p)}" by (rule finite_subset [of _ "{..<e}"]) auto
  then show ?thesis unfolding evictions_def by auto
qed

text \<open>User pages hold a logical page.\<close>

definition lps_ok :: "coremap_entry list \<Rightarrow> bool" where
  "lps_ok es \<longleftrightarrow> (\<forall>p < length es. cm_allocated (es ! p) \<and> \<not> cm_kernel (es ! p) \<longrightarrow> cm_lp (es ! p) \<noteq> None)"

lemma scan_best:
  assumes "lps_ok (coremap s)" and "1 < n" and "n < 2 ^ 30"
  shows "\<exists>r. scan n 0 (num_coremap_entries s) None 0 None (off32 (int n * 2)) (coremap s) = Some r \<and> best_block (coremap s) n (num_coremap_entries s) r"
proof -
  have "off32 (int n * 2) = int n * 2" using assms(3) by (simp add: off32_def)
  moreover have "scan_inv (coremap s) n 0 None 0 None (int n * 2)" using assms(2) by (simp add: scan_inv_def best_block_def blocks_to_def)
  ultimately show ?thesis using scan_ok [of "coremap s" n 0 None 0 None "int n * 2" "num_coremap_entries s"] assms(1,2) by (simp add: lps_ok_def)
qed

lemma best_block_unique: "best_block es n i r \<Longrightarrow> best_block es n i q \<Longrightarrow> r = q"
  unfolding best_block_def by (cases r; cases q) fastforce+

text \<open>One turn of the loop.\<close>

lemma multi_turn:
  assumes r: "scan n 0 (num_coremap_entries s) None 0 None (off32 (int n * 2)) (coremap s) = Some r" "best_block (coremap s) n (num_coremap_entries s) r"
  shows "multi_loop n s =
    (case r of None \<Rightarrow> Some (No_Block, s)
     | Some b \<Rightarrow> if evictions (coremap s) b (b + n) = 0 then Some (Block b, s) else if in_interrupt s then Some (In_Interrupt, s) else multi_loop n s)"
proof (cases r)
  case None
  then show ?thesis by (subst multi_loop.simps) (simp add: r(1))
next
  case (Some b)
  then have "\<forall>p. b \<le> p \<and> p < b + n \<longrightarrow> \<not> barred (coremap s) p" using r(2) by (simp add: best_block_def blocks_to_def)
  note e = evict_loop_ok [OF this, of False, folded no_evictions]
  show ?thesis using Some by (subst multi_loop.simps) (simp add: r(1) e)
qed

lemma multi_stuck:
  assumes r: "scan n 0 (num_coremap_entries s) None 0 None (off32 (int n * 2)) (coremap s) = Some (Some b)" "best_block (coremap s) n (num_coremap_entries s) (Some b)"
    and ev: "0 < evictions (coremap s) b (b + n)" "\<not> in_interrupt s"
  shows "multi_loop n s = None"
proof (cases "multi_loop n s")
  case (Some y)
  have nb: "\<forall>p. b \<le> p \<and> p < b + n \<longrightarrow> \<not> barred (coremap s) p" using r(2) by (simp add: best_block_def blocks_to_def)
  have e: "evict_loop b n False s = Some (Some True, s)" using evict_loop_ok [OF nb, of False, folded no_evictions] ev by simp
  have "\<not> (m = n \<and> t = s)" if "multi_loop m t = Some z" for m t z
  proof (rule multi_loop.raw_induct [where P = "\<lambda>m t z. \<not> (m = n \<and> t = s)", OF _ that])
    fix loop m t z
    assume IH: "\<And>m t z. loop m t = Some z \<Longrightarrow> \<not> (m = n \<and> t = s)"
      and body: "Option.bind (scan m 0 (num_coremap_entries t) None 0 None (off32 (int m * 2)) (coremap t)) (\<lambda>bestbase.
       case bestbase of
         None \<Rightarrow> Some (No_Block, t)
       | Some b \<Rightarrow> Option.bind (evict_loop b m False t) (\<lambda>(evicted, s).
           case evicted of
             None \<Rightarrow> Some (In_Interrupt, s)
           | Some ev \<Rightarrow> if ev then loop m s else Some (Block b, s))) = Some z"
    show "\<not> (m = n \<and> t = s)"
    proof
      assume "m = n \<and> t = s"
      with body r(1) e have "loop n s = Some z" by simp
      from IH [OF this] show False by simp
    qed
  qed
  from this [OF Some] show ?thesis by simp
qed simp

lemma multi_loop_ok:
  assumes "lps_ok (coremap s)" and "1 < n" and "n < 2 ^ 30"
  obtains (None) "multi_loop n s = Some (No_Block, s)" "blocks_to (coremap s) n (num_coremap_entries s) = {}"
  | (Free) b where "multi_loop n s = Some (Block b, s)" "best_block (coremap s) n (num_coremap_entries s) (Some b)" "evictions (coremap s) b (b + n) = 0"
  | (Interrupt) b where "multi_loop n s = Some (In_Interrupt, s)" "best_block (coremap s) n (num_coremap_entries s) (Some b)" "0 < evictions (coremap s) b (b + n)" "in_interrupt s"
  | (Stuck) b where "multi_loop n s = None" "best_block (coremap s) n (num_coremap_entries s) (Some b)" "0 < evictions (coremap s) b (b + n)" "\<not> in_interrupt s"
proof -
  from scan_best [OF assms] obtain r where r: "scan n 0 (num_coremap_entries s) None 0 None (off32 (int n * 2)) (coremap s) = Some r"
    "best_block (coremap s) n (num_coremap_entries s) r" by blast
  note t = multi_turn [OF r]
  show thesis
  proof (cases r)
    case None
    then show thesis using t r(2) that(1) by (simp add: best_block_def)
  next
    case (Some b)
    show thesis using t r Some that(2-) multi_stuck [of n s b] by (cases "evictions (coremap s) b (b + n) = 0"; cases "in_interrupt s") auto
  qed
qed

section \<open>Marking pages\<close>

definition free_entry :: "coremap_entry \<Rightarrow> bool" where
  "free_entry e \<longleftrightarrow> \<not> cm_pinned e \<and> \<not> cm_allocated e \<and> \<not> cm_kernel e \<and> cm_lp e = None \<and> cm_tlbix e < 0 \<and> \<not> cm_notlast e"

abbreviation marked :: "nat \<Rightarrow> nat \<Rightarrow> bool \<Rightarrow> bool \<Rightarrow> coremap_entry list \<Rightarrow> coremap_entry list \<Rightarrow> bool" where
  "marked b n pin kern es es' \<equiv> length es' = length es \<and> (\<forall>j < length es. es' ! j =
     (if b \<le> j \<and> j < b + n then (es ! j)\<lparr>cm_pinned := pin, cm_allocated := True, cm_kernel := kern, cm_notlast := Suc j < b + n\<rparr> else es ! j))"

lemma mark_pages_loop_ok:
  "\<forall>j. i \<le> j \<and> j < i + k \<longrightarrow> j < length es \<and> free_entry (es ! j) \<Longrightarrow> \<exists>es'. mark_pages_loop i k pin kern es = Some es' \<and> marked i k pin kern es es'"
proof (induction k arbitrary: i es)
  case (Suc k)
  have f: "i < length es" "free_entry (es ! i)" using Suc.prems by auto
  define e where "e = (es ! i)\<lparr>cm_pinned := pin, cm_allocated := True, cm_kernel := kern, cm_notlast := 0 < k\<rparr>"
  have step: "mark_pages_loop i (Suc k) pin kern es = mark_pages_loop (Suc i) k pin kern (es[i := e])"
    using f unfolding e_def by (cases "es ! i") (auto simp: free_entry_def Let_def)
  have "\<forall>j. Suc i \<le> j \<and> j < Suc i + k \<longrightarrow> j < length (es[i := e]) \<and> free_entry (es[i := e] ! j)" using Suc.prems by auto
  from Suc.IH [OF this] obtain es' where es': "mark_pages_loop (Suc i) k pin kern (es[i := e]) = Some es'" "marked (Suc i) k pin kern (es[i := e]) es'" by blast
  have "es' ! j = (if i \<le> j \<and> j < i + Suc k then (es ! j)\<lparr>cm_pinned := pin, cm_allocated := True, cm_kernel := kern, cm_notlast := Suc j < i + Suc k\<rparr> else es ! j)"
    if "j < length es" for j
  proof (cases "j = i")
    case True
    then show ?thesis using es'(2) f(1) by (simp add: e_def)
  next
    case False
    then show ?thesis using es'(2) that by auto
  qed
  then show ?case using step es' by auto
qed auto

definition pages_of :: "(coremap_entry \<Rightarrow> bool) \<Rightarrow> coremap_entry list \<Rightarrow> nat set" where
  "pages_of P es = {c. c < length es \<and> P (es ! c)}"

definition entry_inv :: "coremap_entry \<Rightarrow> bool" where
  "entry_inv e \<longleftrightarrow> (cm_kernel e \<longrightarrow> cm_allocated e \<and> cm_lp e = None \<and> cm_tlbix e = -1) \<and>
     (cm_allocated e \<and> \<not> cm_kernel e \<longrightarrow> cm_lp e \<noteq> None \<and> \<not> cm_notlast e) \<and>
     (\<not> cm_allocated e \<longrightarrow> cm_lp e = None \<and> cm_tlbix e = -1 \<and> \<not> cm_notlast e)"

definition chained :: "coremap_entry list \<Rightarrow> bool" where
  "chained es \<longleftrightarrow> (\<forall>c < length es. cm_notlast (es ! c) \<longrightarrow> Suc c < length es \<and> cm_kernel (es ! Suc c))"

text \<open>The counts agree with the flags, and every page is free, a user page or a kernel page.\<close>

definition cm_inv :: "cmsys \<Rightarrow> bool" where
  "cm_inv s \<longleftrightarrow> ram_fits s \<and> 0 < base_coremap_page s \<and> (\<forall>c < num_coremap_entries s. entry_inv (coremap s ! c)) \<and> chained (coremap s) \<and>
     num_coremap_kernel s = card (pages_of cm_kernel (coremap s)) \<and>
     num_coremap_user s = card (pages_of (\<lambda>e. cm_allocated e \<and> \<not> cm_kernel e) (coremap s)) \<and>
     num_coremap_free s = card (pages_of (\<lambda>e. \<not> cm_allocated e) (coremap s))"

lemma finite_pages [simp]: "finite (pages_of P es)"
  by (rule finite_subset [of _ "{..<length es}"]) (auto simp: pages_of_def)

lemma counts_sum:
  assumes "\<forall>c < length es. entry_inv (es ! c)"
  shows "card (pages_of cm_kernel es) + card (pages_of (\<lambda>e. cm_allocated e \<and> \<not> cm_kernel e) es) + card (pages_of (\<lambda>e. \<not> cm_allocated e) es) = length es"
proof -
  let ?K = "pages_of cm_kernel es" and ?U = "pages_of (\<lambda>e. cm_allocated e \<and> \<not> cm_kernel e) es" and ?F = "pages_of (\<lambda>e. \<not> cm_allocated e) es"
  have "?K \<union> ?U \<union> ?F = {..<length es}" "?K \<inter> ?U = {}" "(?K \<union> ?U) \<inter> ?F = {}" using assms by (auto simp: pages_of_def entry_inv_def)
  then show ?thesis by (metis card_Un_disjoint card_lessThan finite_Un finite_pages)
qed

lemma cm_inv_lps: "cm_inv s \<Longrightarrow> lps_ok (coremap s)"
  by (auto simp: cm_inv_def lps_ok_def entry_inv_def)

lemma mark_pages_ok:
  assumes inv: "cm_inv s" and free: "\<forall>j. b \<le> j \<and> j < b + n \<longrightarrow> j < num_coremap_entries s \<and> free_entry (coremap s ! j)"
  shows "\<exists>es. marked b n pin kern (coremap s) es \<and> n \<le> num_coremap_free s \<and> mark_pages_allocated b n pin kern s =
    Some (s\<lparr>coremap := es, num_coremap_kernel := num_coremap_kernel s + (if kern then n else 0), num_coremap_user := num_coremap_user s + (if kern then 0 else n),
      num_coremap_free := num_coremap_free s - n\<rparr>)"
proof -
  from mark_pages_loop_ok [OF free] obtain es where es: "mark_pages_loop b n pin kern (coremap s) = Some es" "marked b n pin kern (coremap s) es" by blast
  have sum: "num_coremap_kernel s + num_coremap_user s + num_coremap_free s = num_coremap_entries s" "num_coremap_entries s \<le> 2 ^ 17"
    using inv counts_sum [of "coremap s"] by (simp_all add: cm_inv_def ram_fits_def)
  have "card {b..<b + n} \<le> card (pages_of (\<lambda>e. \<not> cm_allocated e) (coremap s))" using free by (intro card_mono) (auto simp: pages_of_def free_entry_def)
  then have le: "n \<le> num_coremap_free s" using inv by (simp add: cm_inv_def)
  have f: "u32 (int (num_coremap_free s) - int n) = num_coremap_free s - n" using le sum by (simp add: u32_def flip: of_nat_diff)
  show ?thesis using es le sum f by (intro exI [of _ es]) (cases s, simp add: mark_pages_allocated_def Let_def)
qed

lemma card_marked:
  assumes m: "marked b n pin kern es es'" and "\<forall>j. b \<le> j \<and> j < b + n \<longrightarrow> j < length es \<and> free_entry (es ! j)"
  shows "card (pages_of cm_kernel es') = card (pages_of cm_kernel es) + (if kern then n else 0)"
    and "card (pages_of (\<lambda>e. cm_allocated e \<and> \<not> cm_kernel e) es') = card (pages_of (\<lambda>e. cm_allocated e \<and> \<not> cm_kernel e) es) + (if kern then 0 else n)"
    and "card (pages_of (\<lambda>e. \<not> cm_allocated e) es') = card (pages_of (\<lambda>e. \<not> cm_allocated e) es) - n"
proof -
  let ?R = "{b..<b + n}"
  have "pages_of cm_kernel es' = pages_of cm_kernel es \<union> (if kern then ?R else {})" "pages_of cm_kernel es \<inter> ?R = {}"
    using assms by (auto simp: pages_of_def free_entry_def split: if_split_asm)
  then show "card (pages_of cm_kernel es') = card (pages_of cm_kernel es) + (if kern then n else 0)" by (simp add: card_Un_disjoint)
  have "pages_of (\<lambda>e. cm_allocated e \<and> \<not> cm_kernel e) es' = pages_of (\<lambda>e. cm_allocated e \<and> \<not> cm_kernel e) es \<union> (if kern then {} else ?R)"
    "pages_of (\<lambda>e. cm_allocated e \<and> \<not> cm_kernel e) es \<inter> ?R = {}" using assms by (auto simp: pages_of_def free_entry_def split: if_split_asm)
  then show "card (pages_of (\<lambda>e. cm_allocated e \<and> \<not> cm_kernel e) es') = card (pages_of (\<lambda>e. cm_allocated e \<and> \<not> cm_kernel e) es) + (if kern then 0 else n)"
    by (simp add: card_Un_disjoint)
  have "pages_of (\<lambda>e. \<not> cm_allocated e) es' = pages_of (\<lambda>e. \<not> cm_allocated e) es - ?R" "?R \<subseteq> pages_of (\<lambda>e. \<not> cm_allocated e) es"
    using assms by (auto simp: pages_of_def free_entry_def split: if_split_asm)
  then show "card (pages_of (\<lambda>e. \<not> cm_allocated e) es') = card (pages_of (\<lambda>e. \<not> cm_allocated e) es) - n" by (simp add: card_Diff_subset)
qed

section \<open>Runs of kernel pages\<close>

definition run_at :: "coremap_entry list \<Rightarrow> nat \<Rightarrow> nat \<Rightarrow> bool" where
  "run_at es c k \<longleftrightarrow> 0 < k \<and> c + k \<le> length es \<and> (\<forall>p. c \<le> p \<and> p < c + k \<longrightarrow> cm_kernel (es ! p) \<and> cm_notlast (es ! p) = (Suc p < c + k)) \<and>
     (0 < c \<longrightarrow> \<not> cm_notlast (es ! (c - 1)))"

lemma run_page: "run_at es c k \<Longrightarrow> c \<le> p \<Longrightarrow> p < c + k \<Longrightarrow> cm_kernel (es ! p) \<and> cm_notlast (es ! p) = (Suc p < c + k) \<and> p < length es"
  by (simp add: run_at_def)

lemma run_disjoint:
  assumes "run_at es c k" "run_at es d l" "c \<noteq> d"
  shows "c + k \<le> d \<or> d + l \<le> c"
proof -
  have "c + k \<le> d" if r: "run_at es c k" "run_at es d l" "c < d" for c k d l
  proof (rule ccontr)
    assume d: "\<not> c + k \<le> d"
    have "\<not> cm_notlast (es ! (d - 1))" using r(2,3) by (simp add: run_at_def)
    moreover have "cm_notlast (es ! (d - 1)) = (Suc (d - 1) < c + k)" using run_page [OF r(1), of "d - 1"] r(3) d by simp
    ultimately show False using r(3) d by simp
  qed
  with assms show ?thesis by (meson nat_neq_iff)
qed

lemma run_length: "run_at es c k \<Longrightarrow> run_at es c l \<Longrightarrow> k = l"
proof -
  have "k \<le> l" if r: "run_at es c k" "run_at es c l" for k l
  proof (rule ccontr)
    assume l: "\<not> k \<le> l"
    have "0 < l" using r(2) by (simp add: run_at_def)
    then obtain m where m: "l = Suc m" by (cases l) auto
    then show False using run_page [OF r(1), of "c + m"] run_page [OF r(2), of "c + m"] l by simp
  qed
  then show "run_at es c k \<Longrightarrow> run_at es c l \<Longrightarrow> k = l" by (meson le_antisym)
qed

text \<open>A run depends on its pages and the page before.\<close>

lemma run_frame:
  assumes "run_at es c k" and "length es' = length es" and "\<And>p. c \<le> p \<Longrightarrow> p < c + k \<Longrightarrow> es' ! p = es ! p" and "0 < c \<Longrightarrow> \<not> cm_notlast (es' ! (c - 1))"
  shows "run_at es' c k"
  using assms by (simp add: run_at_def)

lemma run_marked:
  assumes m: "marked b n pin True es es'" and free: "\<forall>j. b \<le> j \<and> j < b + n \<longrightarrow> j < length es \<and> free_entry (es ! j)" and n: "0 < n" and ch: "chained es"
  shows "run_at es' d l \<longleftrightarrow> run_at es d l \<or> d = b \<and> l = n"
proof -
  have nth: "es' ! p = (if b \<le> p \<and> p < b + n then (es ! p)\<lparr>cm_pinned := pin, cm_allocated := True, cm_kernel := True, cm_notlast := Suc p < b + n\<rparr> else es ! p)" if "p < length es" for p
    using m that by blast
  have "b \<le> b + n - 1 \<and> b + n - 1 < b + n" using n by simp
  with free have "b + n - 1 < length es" by blast
  then have len: "length es' = length es" "b + n \<le> length es" using m by simp_all
  have fr: "\<not> cm_kernel (es ! p)" "\<not> cm_notlast (es ! p)" "p < length es" if "b \<le> p" "p < b + n" for p using free that by (auto simp: free_entry_def)
  have new: "run_at es' b n" unfolding run_at_def
  proof (intro conjI impI allI)
    assume b: "0 < b"
    have "\<not> cm_notlast (es ! (b - 1))"
    proof
      assume "cm_notlast (es ! (b - 1))"
      moreover have "b - 1 < length es" "Suc (b - 1) = b" using len(2) n b by simp_all
      ultimately have "cm_kernel (es ! b)" using ch unfolding chained_def by metis
      with fr(1) [of b] n show False by simp
    qed
    then show "\<not> cm_notlast (es' ! (b - 1))" using nth [of "b - 1"] b len(2) n by simp
  qed (use n len nth in auto)
  show ?thesis
  proof
    assume r: "run_at es' d l"
    show "run_at es d l \<or> d = b \<and> l = n"
    proof (cases "d = b")
      case True
      with run_length [OF r, of n] new show ?thesis by simp
    next
      case False
      from run_disjoint [OF r new this] have dis: "d + l \<le> b \<or> b + n \<le> d" .
      have dl: "0 < l" "d + l \<le> length es" "0 < d \<Longrightarrow> \<not> cm_notlast (es' ! (d - 1))" using r len by (simp_all add: run_at_def)
      have "run_at es d l" using r
      proof (rule run_frame)
        show "es ! p = es' ! p" if "d \<le> p" "p < d + l" for p using nth [of p] that dis dl by auto
        show "\<not> cm_notlast (es ! (d - 1))" if "0 < d" using fr(2) [of "d - 1"] nth [of "d - 1"] dl that by (cases "b \<le> d - 1 \<and> d - 1 < b + n") auto
      qed (simp add: len)
      then show ?thesis ..
    qed
  next
    assume "run_at es d l \<or> d = b \<and> l = n"
    then show "run_at es' d l"
    proof
      assume r: "run_at es d l"
      have out: "\<not> (b \<le> p \<and> p < b + n)" if "d \<le> p" "p < d + l" for p using run_page [OF r that] fr(1) [of p] by blast
      have dl: "0 < l" "d + l \<le> length es" "0 < d \<Longrightarrow> \<not> cm_notlast (es ! (d - 1))" using r by (simp_all add: run_at_def)
      show "run_at es' d l" using r
      proof (rule run_frame)
        show "es' ! p = es ! p" if "d \<le> p" "p < d + l" for p using nth [of p] out [OF that] dl that by simp
        show "\<not> cm_notlast (es' ! (d - 1))" if "0 < d" using nth [of "d - 1"] out [of d] dl that by (cases "b \<le> d - 1 \<and> d - 1 < b + n") auto
      qed (simp add: len)
    qed (use new in simp)
  qed
qed

lemma run_freed:
  assumes r: "run_at es c k" and len: "length es' = length es"
    and nth: "\<And>p. p < length es \<Longrightarrow> if c \<le> p \<and> p < c + k then \<not> cm_kernel (es' ! p) \<and> \<not> cm_notlast (es' ! p) else es' ! p = es ! p"
  shows "run_at es' d l \<longleftrightarrow> run_at es d l \<and> d \<noteq> c"
proof
  assume q: "run_at es' d l"
  have out: "\<not> (c \<le> p \<and> p < c + k)" if "d \<le> p" "p < d + l" for p using run_page [OF q that] nth [of p] len by (auto split: if_split_asm)
  have dl: "0 < l" "d + l \<le> length es" "0 < d \<Longrightarrow> \<not> cm_notlast (es' ! (d - 1))" using q len by (simp_all add: run_at_def)
  have "run_at es d l" using q
  proof (rule run_frame)
    show "es ! p = es' ! p" if "d \<le> p" "p < d + l" for p using nth [of p] out [OF that] dl that by simp
    show "\<not> cm_notlast (es ! (d - 1))" if d: "0 < d"
    proof (cases "c \<le> d - 1 \<and> d - 1 < c + k")
      case True
      with out [of d] dl(1) d have "Suc (d - 1) = c + k" by auto
      with run_page [OF r, of "d - 1"] True show ?thesis by simp
    next
      case False
      have "d - 1 < length es" using dl d by simp
      from nth [OF this] False have "es' ! (d - 1) = es ! (d - 1)" by (auto split: if_split_asm)
      with dl(3) [OF d] show ?thesis by simp
    qed
  qed (simp add: len)
  moreover have "d \<noteq> c" using out [of d] dl(1) r by (auto simp: run_at_def)
  ultimately show "run_at es d l \<and> d \<noteq> c" ..
next
  assume q: "run_at es d l \<and> d \<noteq> c"
  then have dis: "d + l \<le> c \<or> c + k \<le> d" using run_disjoint [of es d l c k] r by auto
  have dl: "0 < l" "d + l \<le> length es" "0 < d \<Longrightarrow> \<not> cm_notlast (es ! (d - 1))" using q by (simp_all add: run_at_def)
  from q have "run_at es d l" ..
  then show "run_at es' d l"
  proof (rule run_frame)
    show "es' ! p = es ! p" if "d \<le> p" "p < d + l" for p using nth [of p] that dis dl by auto
    show "\<not> cm_notlast (es' ! (d - 1))" if d: "0 < d" using nth [of "d - 1"] dl d by (cases "c \<le> d - 1 \<and> d - 1 < c + k") auto
  qed (simp add: len)
qed

section \<open>Allocation\<close>

lemma cm_inv_lock [simp]: "cm_inv (s\<lparr>paging_lock := x\<rparr>) = cm_inv s"
  by (simp add: cm_inv_def ram_fits_def)

lemma marked_entries:
  assumes inv: "cm_inv s" and m: "marked b n pin True (coremap s) es" and free: "\<forall>j. b \<le> j \<and> j < b + n \<longrightarrow> j < num_coremap_entries s \<and> free_entry (coremap s ! j)"
  shows "\<forall>c < length es. entry_inv (es ! c)" and "chained es"
proof -
  have old: "entry_inv (coremap s ! c)" if "c < num_coremap_entries s" for c using inv that by (simp add: cm_inv_def)
  show "\<forall>c < length es. entry_inv (es ! c)"
  proof (intro allI impI)
    fix c assume "c < length es"
    then have c: "c < num_coremap_entries s" using m by simp
    show "entry_inv (es ! c)" using m c old [OF c] free by (cases "b \<le> c \<and> c < b + n") (auto simp: entry_inv_def free_entry_def)
  qed
  show "chained es" unfolding chained_def
  proof (intro allI impI)
    fix c assume "c < length es" and nl: "cm_notlast (es ! c)"
    then have c: "c < num_coremap_entries s" using m by simp
    show "Suc c < length es \<and> cm_kernel (es ! Suc c)"
    proof (cases "b \<le> c \<and> c < b + n")
      case True
      then have "Suc c < b + n" using nl m c by simp
      then show ?thesis using True free m by auto
    next
      case False
      then have "es ! c = coremap s ! c" using m c by auto
      then have "cm_notlast (coremap s ! c)" using nl by simp
      then have k: "Suc c < num_coremap_entries s" "cm_kernel (coremap s ! Suc c)" using inv c by (auto simp: cm_inv_def chained_def)
      then have "\<not> (b \<le> Suc c \<and> Suc c < b + n)" using free by (auto simp: free_entry_def)
      then show ?thesis using k m by simp
    qed
  qed
qed

text \<open>A run of free pages becomes a run of kernel pages.\<close>

lemma kern_mark_ok:
  assumes inv: "cm_inv s" and n: "0 < n" and free: "\<forall>j. b \<le> j \<and> j < b + n \<longrightarrow> j < num_coremap_entries s \<and> free_entry (coremap s ! j)"
  shows "\<exists>es f. mark_pages_allocated b n False True s = Some (s\<lparr>coremap := es, num_coremap_kernel := num_coremap_kernel s + n, num_coremap_free := f\<rparr>) \<and>
    cm_inv (s\<lparr>coremap := es, num_coremap_kernel := num_coremap_kernel s + n, num_coremap_free := f\<rparr>) \<and> marked b n False True (coremap s) es \<and>
    (\<forall>d l. run_at es d l \<longleftrightarrow> run_at (coremap s) d l \<or> d = b \<and> l = n)"
proof -
  from mark_pages_ok [OF inv free, where pin = False and kern = True] obtain es where es: "marked b n False True (coremap s) es" "n \<le> num_coremap_free s"
    "mark_pages_allocated b n False True s = Some (s\<lparr>coremap := es, num_coremap_kernel := num_coremap_kernel s + n, num_coremap_user := num_coremap_user s + 0, num_coremap_free := num_coremap_free s - n\<rparr>)"
    by auto
  let ?s = "s\<lparr>coremap := es, num_coremap_kernel := num_coremap_kernel s + n, num_coremap_free := num_coremap_free s - n\<rparr>"
  have eq: "mark_pages_allocated b n False True s = Some ?s" using es(3) by (cases s) simp
  note me = marked_entries [OF inv es(1) free] and cm = card_marked [OF es(1) free]
  have "cm_inv ?s" using inv me cm es(1) unfolding cm_inv_def ram_fits_def by simp
  moreover have "chained (coremap s)" using inv by (simp add: cm_inv_def)
  ultimately show ?thesis using eq es(1) run_marked [OF es(1) free n] by blast
qed

lemma find_free_ok:
  assumes "\<forall>c < length es. entry_inv (es ! c)" and "i \<le> length es"
  shows "(\<exists>c < i. find_free i es = Some (Some c) \<and> \<not> cm_pinned (es ! c) \<and> \<not> cm_allocated (es ! c) \<and> (\<forall>d. c < d \<and> d < i \<longrightarrow> cm_pinned (es ! d) \<or> cm_allocated (es ! d))) \<or>
    find_free i es = Some None \<and> (\<forall>d < i. cm_pinned (es ! d) \<or> cm_allocated (es ! d))"
  using assms(2)
proof (induction i)
  case (Suc i)
  show ?case
  proof (cases "cm_pinned (es ! i) \<or> cm_allocated (es ! i)")
    case True
    with Suc show ?thesis by (auto simp: less_Suc_eq)
  next
    case False
    moreover have "entry_inv (es ! i)" using assms(1) Suc.prems by simp
    ultimately show ?thesis by (auto simp: entry_inv_def less_Suc_eq)
  qed
qed simp

text \<open>The result of \<^verbatim>\<open>piggish_kernel\<close> when there are at least eight pages.\<close>

lemma piggish_iff: "cm_inv s \<Longrightarrow> 8 \<le> num_coremap_entries s \<Longrightarrow> n < 2 ^ 31 \<Longrightarrow> piggish_kernel n s \<longleftrightarrow> num_coremap_entries s \<le> num_coremap_kernel s + n + 8"
proof -
  assume a: "cm_inv s" "8 \<le> num_coremap_entries s" "n < 2 ^ 31"
  have k: "num_coremap_kernel s \<le> num_coremap_entries s" "num_coremap_entries s \<le> 2 ^ 17"
    using a(1) counts_sum [of "coremap s"] by (auto simp: cm_inv_def ram_fits_def)
  have "u32 (int (num_coremap_entries s) - 8) = num_coremap_entries s - 8" using a(2) k(2) by (simp add: u32_def nat_diff_distrib)
  then show ?thesis using k a(2,3) by (auto simp: piggish_kernel_def)
qed

lemma page_replace_fails:
  assumes "\<forall>d < num_coremap_entries s. cm_pinned (coremap s ! d) \<or> cm_allocated (coremap s ! d)"
  shows "do_page_replace s = None \<or> (do_page_replace s = Some (0, s) \<and> (\<forall>pin kern. mark_pages_allocated 0 1 pin kern s = None))"
proof (cases "paging_lock s \<and> 0 < num_coremap_entries s \<and> \<not> cm_pinned (coremap s ! 0) \<and> \<not> cm_kernel (coremap s ! 0) \<and> cm_lp (coremap s ! 0) \<noteq> None \<and> \<not> in_interrupt s")
  case True
  with assms have "cm_allocated (coremap s ! 0)" by auto
  with True show ?thesis by (simp add: do_page_replace_def page_replace_def do_evict_def mark_pages_allocated_def)
next
  case False
  then show ?thesis using assms by (auto simp: do_page_replace_def page_replace_def do_evict_def Let_def kassert_def)
qed

text \<open>The single page allocator. When no page can be had it reaches the stubs and panics, unless it is called in an interrupt.\<close>

definition page_taken :: "nat \<Rightarrow> nat option \<Rightarrow> bool \<Rightarrow> cmsys \<Rightarrow> cmsys \<Rightarrow> bool" where
  "page_taken i lp pin s s' \<longleftrightarrow>
     s' = s\<lparr>coremap := (coremap s)[i := (coremap s ! i)\<lparr>cm_pinned := pin, cm_allocated := True, cm_kernel := (lp = None), cm_lp := lp\<rparr>],
            num_coremap_kernel := num_coremap_kernel s + (if lp = None then 1 else 0), num_coremap_user := num_coremap_user s + (if lp = None then 0 else 1),
            num_coremap_free := num_coremap_free s - 1\<rparr>"

lemma locks:
  assumes "\<not> paging_lock s"
  shows "\<exists>x. paging_acquire s = Some (s\<lparr>paging_lock := x\<rparr>) \<and> (\<forall>t. paging_lock t = x \<and> in_interrupt t = in_interrupt s \<and> has_curthread t = has_curthread s \<longrightarrow>
    paging_release t = Some (t\<lparr>paging_lock := False\<rparr>))"
proof (cases "\<not> in_interrupt s \<and> has_curthread s")
  case True
  then show ?thesis using assms by (intro exI [of _ True]) (simp add: paging_acquire_def paging_release_def)
next
  case False
  have "s\<lparr>paging_lock := False\<rparr> = s" using assms by (cases s) simp
  moreover have "t\<lparr>paging_lock := False\<rparr> = t" if "\<not> paging_lock t" for t :: cmsys using that by (cases t) simp
  ultimately show ?thesis using False assms by (intro exI [of _ False]) (auto simp: paging_acquire_def paging_release_def)
qed

lemma mark_one:
  assumes inv: "cm_inv s" and i: "i < num_coremap_entries s" "\<not> cm_pinned (coremap s ! i)" "\<not> cm_allocated (coremap s ! i)"
  shows "\<exists>t. mark_pages_allocated i 1 pin (lp = None) s = Some t \<and> page_taken i lp pin s (put_cm i ((coremap t ! i)\<lparr>cm_lp := lp\<rparr>) t) \<and> cm_tlbix (coremap t ! i) = -1"
proof -
  let ?e = "(coremap s ! i)\<lparr>cm_pinned := pin, cm_allocated := True, cm_kernel := (lp = None), cm_lp := lp\<rparr>"
  have e: "entry_inv (coremap s ! i)" using inv i(1) by (simp add: cm_inv_def)
  then have fe: "free_entry (coremap s ! i)" "cm_tlbix (coremap s ! i) = -1" "\<not> cm_notlast (coremap s ! i)" using i by (auto simp: entry_inv_def free_entry_def)
  then have "\<forall>j. i \<le> j \<and> j < i + 1 \<longrightarrow> j < num_coremap_entries s \<and> free_entry (coremap s ! j)" using i(1) by (metis Suc_eq_plus1 le_antisym less_Suc_eq_le)
  from mark_pages_ok [OF inv this, where pin = pin and kern = "lp = None"] obtain es where es: "marked i 1 pin (lp = None) (coremap s) es"
    "mark_pages_allocated i 1 pin (lp = None) s = Some (s\<lparr>coremap := es, num_coremap_kernel := num_coremap_kernel s + (if lp = None then 1 else 0),
      num_coremap_user := num_coremap_user s + (if lp = None then 0 else 1), num_coremap_free := num_coremap_free s - 1\<rparr>)" by auto
  have ei: "es ! i = (coremap s ! i)\<lparr>cm_pinned := pin, cm_allocated := True, cm_kernel := (lp = None)\<rparr>" using es(1) i(1) fe(3) by (cases "coremap s ! i") auto
  have "es[i := (es ! i)\<lparr>cm_lp := lp\<rparr>] = (coremap s)[i := ?e]"
  proof (rule nth_equalityI)
    fix j assume "j < length (es[i := (es ! i)\<lparr>cm_lp := lp\<rparr>])"
    then have j: "j < num_coremap_entries s" using es(1) by simp
    show "es[i := (es ! i)\<lparr>cm_lp := lp\<rparr>] ! j = (coremap s)[i := ?e] ! j"
    proof (cases "j = i")
      case True
      then show ?thesis using ei es(1) i(1) by simp
    next
      case False
      then have "es ! j = coremap s ! j" using es(1) j by auto
      with False show ?thesis by simp
    qed
  qed (use es(1) in simp)
  then show ?thesis using es(2) ei fe(2) by (simp add: page_taken_def)
qed

lemma taken_inv:
  assumes inv: "cm_inv s" and i: "i < num_coremap_entries s" "\<not> cm_pinned (coremap s ! i)" "\<not> cm_allocated (coremap s ! i)" and t: "page_taken i lp pin s s'"
  shows "cm_inv s'"
proof -
  let ?e = "(coremap s ! i)\<lparr>cm_pinned := pin, cm_allocated := True, cm_kernel := (lp = None), cm_lp := lp\<rparr>"
  let ?es = "(coremap s)[i := ?e]"
  have e: "entry_inv (coremap s ! c)" if "c < num_coremap_entries s" for c using inv that by (simp add: cm_inv_def)
  have ei: "cm_lp (coremap s ! i) = None" "cm_tlbix (coremap s ! i) = -1" "\<not> cm_notlast (coremap s ! i)" "\<not> cm_kernel (coremap s ! i)" using e [OF i(1)] i by (auto simp: entry_inv_def)
  have K: "pages_of cm_kernel ?es = pages_of cm_kernel (coremap s) \<union> (if lp = None then {i} else {})" "i \<notin> pages_of cm_kernel (coremap s)"
    using i ei by (auto simp: pages_of_def nth_list_update split: if_split_asm)
  have U: "pages_of (\<lambda>e. cm_allocated e \<and> \<not> cm_kernel e) ?es = pages_of (\<lambda>e. cm_allocated e \<and> \<not> cm_kernel e) (coremap s) \<union> (if lp = None then {} else {i})"
    "i \<notin> pages_of (\<lambda>e. cm_allocated e \<and> \<not> cm_kernel e) (coremap s)" using i ei by (auto simp: pages_of_def nth_list_update split: if_split_asm)
  have F: "pages_of (\<lambda>e. \<not> cm_allocated e) ?es = pages_of (\<lambda>e. \<not> cm_allocated e) (coremap s) - {i}" "i \<in> pages_of (\<lambda>e. \<not> cm_allocated e) (coremap s)"
    using i ei by (auto simp: pages_of_def nth_list_update split: if_split_asm)
  have "chained ?es" unfolding chained_def
  proof (intro allI impI)
    fix c assume c: "c < length ?es" "cm_notlast (?es ! c)"
    then have "c \<noteq> i" using ei i(1) by auto
    with c have "Suc c < num_coremap_entries s" "cm_kernel (coremap s ! Suc c)" using inv by (auto simp: cm_inv_def chained_def)
    with ei(4) show "Suc c < length ?es \<and> cm_kernel (?es ! Suc c)" by (cases "Suc c = i") auto
  qed
  moreover have "entry_inv (?es ! c)" if "c < num_coremap_entries s" for c using e [OF that] that ei i(1) by (cases "c = i") (auto simp: entry_inv_def)
  ultimately show ?thesis using inv t K U F by (auto simp: cm_inv_def page_taken_def ram_fits_def)
qed

abbreviation spare :: "cmsys \<Rightarrow> nat \<Rightarrow> bool" where
  "spare s c \<equiv> c < num_coremap_entries s \<and> \<not> cm_pinned (coremap s ! c) \<and> \<not> cm_allocated (coremap s ! c)"

lemma taken_unlock: "\<not> paging_lock s \<Longrightarrow> page_taken i lp pin (s\<lparr>paging_lock := x\<rparr>) t \<Longrightarrow> page_taken i lp pin s (t\<lparr>paging_lock := False\<rparr>)"
  by (cases s) (simp add: page_taken_def)

lemma unlock_same: "\<not> paging_lock s \<Longrightarrow> s\<lparr>paging_lock := False\<rparr> = s"
  by (cases s) simp

lemma no_free_pages:
  assumes "cm_inv s" and "num_coremap_free s = 0" and "c < num_coremap_entries s"
  shows "cm_allocated (coremap s ! c)"
proof (rule ccontr)
  assume "\<not> cm_allocated (coremap s ! c)"
  then have "c \<in> pages_of (\<lambda>e. \<not> cm_allocated e) (coremap s)" using assms(3) by (simp add: pages_of_def)
  moreover have "pages_of (\<lambda>e. \<not> cm_allocated e) (coremap s) = {}" using assms(1,2) by (simp add: cm_inv_def)
  ultimately show False by simp
qed

lemma pick_page_cases:
  assumes inv: "cm_inv s"
  shows "(\<exists>c. pick_page (s\<lparr>paging_lock := x\<rparr>) = Some (Some c, s\<lparr>paging_lock := x\<rparr>) \<and> spare s c \<and> (\<forall>d. c < d \<longrightarrow> \<not> spare s d)) \<or>
    pick_page (s\<lparr>paging_lock := x\<rparr>) = Some (None, s\<lparr>paging_lock := x\<rparr>) \<and> (\<forall>d. \<not> spare s d) \<and> in_interrupt s \<or>
    (pick_page (s\<lparr>paging_lock := x\<rparr>) = None \<or> pick_page (s\<lparr>paging_lock := x\<rparr>) = Some (Some 0, s\<lparr>paging_lock := x\<rparr>) \<and>
      (\<forall>pin kern. mark_pages_allocated 0 1 pin kern (s\<lparr>paging_lock := x\<rparr>) = None)) \<and> (\<forall>d. \<not> spare s d) \<and> \<not> in_interrupt s"
proof -
  let ?s = "s\<lparr>paging_lock := x\<rparr>"
  define cand where "cand = (if num_coremap_free s > 0 then find_free (num_coremap_entries s) (coremap s) else Some None)"
  have entries: "\<forall>c < length (coremap s). entry_inv (coremap s ! c)" using inv by (simp add: cm_inv_def)
  have pp: "pick_page ?s = (case cand of None \<Rightarrow> None | Some None \<Rightarrow> if in_interrupt s then Some (None, ?s)
      else do { kassert (num_coremap_free s = 0); (i, s) \<leftarrow> do_page_replace ?s; Some (Some i, s) } | Some (Some c) \<Rightarrow> Some (Some c, ?s))"
    by (simp add: pick_page_def cand_def split: option.split)
  have "(\<exists>c. cand = Some (Some c) \<and> spare s c \<and> (\<forall>d. c < d \<longrightarrow> \<not> spare s d)) \<or> cand = Some None \<and> (\<forall>d. \<not> spare s d)"
    using find_free_ok [OF entries, of "num_coremap_entries s"] no_free_pages [OF inv] unfolding cand_def by auto
  then show ?thesis
  proof
    assume none: "cand = Some None \<and> (\<forall>d. \<not> spare s d)"
    show ?thesis
    proof (cases "in_interrupt s")
      case False
      have "\<forall>d < num_coremap_entries ?s. cm_pinned (coremap ?s ! d) \<or> cm_allocated (coremap ?s ! d)" using none by auto
      from page_replace_fails [OF this] show ?thesis
      proof (elim disjE conjE)
        assume "do_page_replace ?s = None"
        then show ?thesis using none False by (simp add: pp)
      next
        assume r: "do_page_replace ?s = Some (0, ?s)" and m: "\<forall>pin kern. mark_pages_allocated 0 1 pin kern ?s = None"
        from r have "pick_page ?s = None \<or> pick_page ?s = Some (Some 0, ?s)" using none False by (simp add: pp kassert_def)
        with m none False show ?thesis by simp
      qed
    qed (use none in \<open>simp add: pp\<close>)
  qed (use pp in auto)
qed

lemma one_page_cases:
  assumes inv: "cm_inv s" and lock: "\<not> paging_lock s"
  obtains (Piggish) "lp = None" "piggish_kernel 1 s" "coremap_alloc_one_page lp pin s = Some (0, s)"
  | (Taken) i s' where "\<not> (lp = None \<and> piggish_kernel 1 s)" "spare s i" "\<forall>c. i < c \<longrightarrow> \<not> spare s c" "coremap_alloc_one_page lp pin s = Some (cpage s i, s')" "page_taken i lp pin s s'"
  | (Interrupt) "\<not> (lp = None \<and> piggish_kernel 1 s)" "\<forall>c. \<not> spare s c" "in_interrupt s" "coremap_alloc_one_page lp pin s = Some (0, s)"
  | (Panic) "\<not> (lp = None \<and> piggish_kernel 1 s)" "\<forall>c. \<not> spare s c" "\<not> in_interrupt s" "coremap_alloc_one_page lp pin s = None"
proof -
  from locks [OF lock] obtain x where x: "paging_acquire s = Some (s\<lparr>paging_lock := x\<rparr>)"
    "\<And>t. paging_lock t = x \<Longrightarrow> in_interrupt t = in_interrupt s \<Longrightarrow> has_curthread t = has_curthread s \<Longrightarrow> paging_release t = Some (t\<lparr>paging_lock := False\<rparr>)" by blast
  let ?s = "s\<lparr>paging_lock := x\<rparr>"
  have rel: "paging_release ?s = Some s" using x(2) [of ?s] unlock_same [OF lock] by simp
  have pig: "piggish_kernel 1 ?s = piggish_kernel 1 s" by (simp add: piggish_kernel_def)
  show thesis
  proof (cases "lp = None \<and> piggish_kernel 1 s")
    case True
    then show thesis using Piggish x(1) rel pig by (simp add: coremap_alloc_one_page_def Let_def)
  next
    case np: False
    have entries: "\<forall>c < length (coremap s). entry_inv (coremap s ! c)" using inv by (simp add: cm_inv_def)
    from pick_page_cases [OF inv, of x] consider
        c where "pick_page ?s = Some (Some c, ?s)" "spare s c" "\<forall>d. c < d \<longrightarrow> \<not> spare s d"
      | "pick_page ?s = Some (None, ?s)" "\<forall>d. \<not> spare s d" "in_interrupt s"
      | "pick_page ?s = None \<or> pick_page ?s = Some (Some 0, ?s) \<and> (\<forall>pin kern. mark_pages_allocated 0 1 pin kern ?s = None)" "\<forall>d. \<not> spare s d" "\<not> in_interrupt s" by blast
    then show thesis
    proof cases
      case (1 c)
      note c = this
      have "cm_inv ?s" "c < num_coremap_entries ?s" "\<not> cm_pinned (coremap ?s ! c)" "\<not> cm_allocated (coremap ?s ! c)" using inv c(2) by simp_all
      from mark_one [OF this, of pin lp] obtain t where t: "mark_pages_allocated c 1 pin (lp = None) ?s = Some t"
        "page_taken c lp pin ?s (put_cm c ((coremap t ! c)\<lparr>cm_lp := lp\<rparr>) t)" "cm_tlbix (coremap t ! c) = -1" by blast
      define u where "u = put_cm c ((coremap t ! c)\<lparr>cm_lp := lp\<rparr>) t"
      have pt: "page_taken c lp pin ?s u" using t(2) by (simp add: u_def)
      have env: "paging_lock u = x" "in_interrupt u = in_interrupt s" "has_curthread u = has_curthread s" "base_coremap_page u = base_coremap_page s" "num_coremap_entries u = num_coremap_entries s"
        by (simp_all add: pt [unfolded page_taken_def])
      have rt: "paging_release u = Some (u\<lparr>paging_lock := False\<rparr>)" by (rule x(2) [OF env(1-3)])
      have fits: "ram_fits s" using inv by (simp add: cm_inv_def)
      have pa: "COREMAP_TO_PADDR (u\<lparr>paging_lock := False\<rparr>) c = cpage s c" using coremap_paddr(1) [OF fits, of c] c(2) env(4) by (simp add: COREMAP_TO_PADDR_def)
      have tl: "cm_tlbix (coremap u ! c) = -1"
      proof -
        have "c < num_coremap_entries t" using c(2) env(5) by (simp add: u_def)
        then show ?thesis using t(3) by (simp add: u_def)
      qed
      have "coremap_alloc_one_page lp pin s = Some (cpage s c, u\<lparr>paging_lock := False\<rparr>)"
        unfolding coremap_alloc_one_page_def Let_def x(1) bind.bind_lunit pig if_not_P [OF np] c(1) prod.case option.case t(1) u_def [symmetric] rt pa
        by (simp add: rt pa tl)
      then show thesis using Taken [of c "u\<lparr>paging_lock := False\<rparr>"] np c(2,3) taken_unlock [OF lock pt] by blast
    next
      case 2
      then have "coremap_alloc_one_page lp pin s = Some (0, s)" using x(1) np pig rel by (auto simp: coremap_alloc_one_page_def)
      then show thesis using Interrupt np 2 by blast
    next
      case 3
      then have "coremap_alloc_one_page lp pin s = None" using x(1) np pig by (auto simp: coremap_alloc_one_page_def)
      then show thesis using Panic np 3 by blast
    qed
  qed
qed

end
