(* ===== verification/K_Coremap_Heap.thy ===== *)
theory K_Coremap_Heap
  imports K_Coremap_Pages
begin

text \<open>
  What the page allocator of \<^verbatim>\<open>kern/arch/mips/mips/coremap.c\<close> promises: runs of pages for the kernel, what freeing gives back, and the
  kernel heap (\<^verbatim>\<open>kern/lib/kheap.c\<close>) over it, as a second instance of the locale \<open>page_source\<close>.
\<close>

section \<open>Runs of pages\<close>

lemma free_block:
  assumes inv: "cm_inv s" and b: "best_block (coremap s) n (num_coremap_entries s) (Some b)" "evictions (coremap s) b (b + n) = 0"
  shows "\<forall>j. b \<le> j \<and> j < b + n \<longrightarrow> j < num_coremap_entries s \<and> free_entry (coremap s ! j)"
proof (intro allI impI)
  fix j assume j: "b \<le> j \<and> j < b + n"
  have "b + n \<le> num_coremap_entries s" "\<not> barred (coremap s) j" using b(1) j by (simp_all add: best_block_def blocks_to_def)
  moreover have "\<not> cm_allocated (coremap s ! j)" using b(2) j by (simp add: no_evictions)
  moreover have "entry_inv (coremap s ! j)" using inv calculation(1) j by (simp add: cm_inv_def)
  ultimately show "j < num_coremap_entries s \<and> free_entry (coremap s ! j)" using j by (auto simp: free_entry_def entry_inv_def barred_def)
qed

definition run_taken :: "nat \<Rightarrow> nat \<Rightarrow> cmsys \<Rightarrow> cmsys \<Rightarrow> bool" where
  "run_taken b n s s' \<longleftrightarrow> (\<exists>es f. s' = s\<lparr>coremap := es, num_coremap_kernel := num_coremap_kernel s + n, num_coremap_free := f\<rparr> \<and>
     marked b n False True (coremap s) es) \<and> cm_inv s' \<and> (\<forall>d l. run_at (coremap s') d l \<longleftrightarrow> run_at (coremap s) d l \<or> d = b \<and> l = n)"

lemma multi_page_cases:
  assumes inv: "cm_inv s" and lock: "\<not> paging_lock s" and n: "1 < n" "n < 2 ^ 30"
  obtains (Piggish) "piggish_kernel n s" "coremap_alloc_multipages n s = Some (0, s)"
  | (Full) "\<not> piggish_kernel n s" "blocks_to (coremap s) n (num_coremap_entries s) = {}" "coremap_alloc_multipages n s = Some (0, s)"
  | (Taken) b s' where "\<not> piggish_kernel n s" "best_block (coremap s) n (num_coremap_entries s) (Some b)" "evictions (coremap s) b (b + n) = 0"
      "coremap_alloc_multipages n s = Some (cpage s b, s')" "run_taken b n s s'"
  | (Interrupt) b where "\<not> piggish_kernel n s" "best_block (coremap s) n (num_coremap_entries s) (Some b)" "0 < evictions (coremap s) b (b + n)" "in_interrupt s"
      "coremap_alloc_multipages n s = Some (0, s)"
  | (Stuck) b where "\<not> piggish_kernel n s" "best_block (coremap s) n (num_coremap_entries s) (Some b)" "0 < evictions (coremap s) b (b + n)" "\<not> in_interrupt s"
      "coremap_alloc_multipages n s = None"
proof -
  from locks [OF lock] obtain x where x: "paging_acquire s = Some (s\<lparr>paging_lock := x\<rparr>)"
    "\<And>t. paging_lock t = x \<Longrightarrow> in_interrupt t = in_interrupt s \<Longrightarrow> has_curthread t = has_curthread s \<Longrightarrow> paging_release t = Some (t\<lparr>paging_lock := False\<rparr>)" by blast
  let ?s = "s\<lparr>paging_lock := x\<rparr>"
  have rel: "paging_release ?s = Some s" using x(2) [of ?s] unlock_same [OF lock] by simp
  have pig: "piggish_kernel n ?s = piggish_kernel n s" by (simp add: piggish_kernel_def)
  note body = coremap_alloc_multipages_def [of n s, unfolded x(1)]
  show thesis
  proof (cases "piggish_kernel n s")
    case True
    then show thesis using Piggish n(1) rel by (simp add: body pig)
  next
    case np: False
    have "lps_ok (coremap ?s)" using cm_inv_lps [OF inv] by simp
    from this n show thesis
    proof (cases rule: multi_loop_ok)
      case None
      then show thesis using Full np n(1) rel by (simp add: body pig)
    next
      case (Free b)
      have inv': "cm_inv ?s" and fb: "best_block (coremap ?s) n (num_coremap_entries ?s) (Some b)" "evictions (coremap ?s) b (b + n) = 0" using inv Free(2,3) by simp_all
      note fr = free_block [OF inv' fb]
      have "0 < n" using n(1) by simp
      from kern_mark_ok [OF inv' this fr] obtain es f where m: "mark_pages_allocated b n False True ?s = Some (?s\<lparr>coremap := es, num_coremap_kernel := num_coremap_kernel ?s + n, num_coremap_free := f\<rparr>)"
        "cm_inv (?s\<lparr>coremap := es, num_coremap_kernel := num_coremap_kernel ?s + n, num_coremap_free := f\<rparr>)" "marked b n False True (coremap ?s) es"
        "\<forall>d l. run_at es d l \<longleftrightarrow> run_at (coremap ?s) d l \<or> d = b \<and> l = n" by blast
      define u where "u = ?s\<lparr>coremap := es, num_coremap_kernel := num_coremap_kernel ?s + n, num_coremap_free := f\<rparr>"
      have rt: "paging_release u = Some (u\<lparr>paging_lock := False\<rparr>)" by (rule x(2)) (simp_all add: u_def)
      have us: "u\<lparr>paging_lock := False\<rparr> = s\<lparr>coremap := es, num_coremap_kernel := num_coremap_kernel s + n, num_coremap_free := f\<rparr>"
        using lock by (cases s) (simp add: u_def)
      have "cm_inv (u\<lparr>paging_lock := False\<rparr>)" using m(2) unfolding u_def [symmetric] by simp
      then have tk: "run_taken b n s (u\<lparr>paging_lock := False\<rparr>)" using m(3,4) unfolding run_taken_def us by auto
      have "b + n \<le> num_coremap_entries s" using fb(1) by (simp add: best_block_def blocks_to_def)
      then have pa: "COREMAP_TO_PADDR (u\<lparr>paging_lock := False\<rparr>) b = cpage s b" using coremap_paddr(1) [of s b] inv n(1) by (simp add: u_def COREMAP_TO_PADDR_def cm_inv_def)
      have "coremap_alloc_multipages n s = Some (cpage s b, u\<lparr>paging_lock := False\<rparr>)" using np n(1) Free(1) m(1) [folded u_def] rt pa by (simp add: body pig)
      then show thesis using Taken [of b] np fb tk by simp
    next
      case (Interrupt b)
      then have "paging_acquire s = Some s" by (simp add: paging_acquire_def)
      with x(1) have "?s = s" by simp
      then have "coremap_alloc_multipages n s = Some (0, s)" using np n(1) Interrupt(1) by (simp add: body pig)
      then show thesis using that(4) [of b] np Interrupt by simp
    next
      case (Stuck b)
      then show thesis using that(5) [of b] np n(1) by (simp add: body pig)
    qed
  qed
qed

section \<open>Freeing\<close>

abbreviation unmarked :: "nat \<Rightarrow> nat \<Rightarrow> coremap_entry list \<Rightarrow> coremap_entry list \<Rightarrow> bool" where
  "unmarked i k es es' \<equiv> length es' = length es \<and> (\<forall>p < length es. es' ! p =
     (if i \<le> p \<and> p < i + k then (es ! p)\<lparr>cm_allocated := False, cm_kernel := False, cm_lp := None, cm_notlast := False\<rparr> else es ! p))"

lemma free_loop_run:
  assumes "0 < k" and "k \<le> m" and "\<forall>p. i \<le> p \<and> p < i + k \<longrightarrow> p < num_coremap_entries s \<and> entry_inv (coremap s ! p) \<and> cm_kernel (coremap s ! p) \<and> cm_notlast (coremap s ! p) = (Suc p < i + k)"
    and "k \<le> num_coremap_kernel s" and "num_coremap_kernel s \<le> 2 ^ 17" and "num_coremap_free s + k \<le> 2 ^ 17"
  shows "\<exists>es. unmarked i k (coremap s) es \<and>
    free_loop i m True s = Some (s\<lparr>coremap := es, num_coremap_kernel := num_coremap_kernel s - k, num_coremap_free := num_coremap_free s + k\<rparr>)"
  using assms
proof (induction k arbitrary: i m s)
  case (Suc k)
  then obtain m' where m: "m = Suc m'" "k \<le> m'" by (cases m) auto
  have i: "i < num_coremap_entries s" "cm_kernel (coremap s ! i)" "cm_notlast (coremap s ! i) = (0 < k)" and e: "entry_inv (coremap s ! i)" using Suc.prems(3) by auto
  then have ei: "cm_allocated (coremap s ! i)" "cm_lp (coremap s ! i) = None" "cm_tlbix (coremap s ! i) = -1" by (simp_all add: entry_inv_def)
  let ?e = "(coremap s ! i)\<lparr>cm_allocated := False, cm_kernel := False, cm_lp := None, cm_notlast := False\<rparr>"
  let ?t = "s\<lparr>coremap := (coremap s)[i := ?e], num_coremap_kernel := num_coremap_kernel s - 1, num_coremap_free := num_coremap_free s + 1\<rparr>"
  have cnt: "u32 (int (num_coremap_kernel s) - 1) = num_coremap_kernel s - 1" "(num_coremap_free s + 1) mod 2 ^ 32 = num_coremap_free s + 1"
    using Suc.prems(4-6) by (auto simp: u32_def nat_diff_distrib)
  show ?case
  proof (cases "k = 0")
    case True
    have eq: "(coremap s ! i)\<lparr>cm_allocated := False, cm_kernel := False, cm_lp := None\<rparr> = ?e" using i(3) True by (cases "coremap s ! i") simp
    have "free_loop i m True s = Some (s\<lparr>coremap := (coremap s)[i := (coremap s ! i)\<lparr>cm_allocated := False, cm_kernel := False, cm_lp := None\<rparr>],
      num_coremap_kernel := num_coremap_kernel s - 1, num_coremap_free := num_coremap_free s + 1\<rparr>)" using m i ei cnt True by (cases s) (simp add: Let_def)
    then have "free_loop i m True s = Some ?t" unfolding eq [symmetric] .
    moreover have "i \<le> p \<and> p < i + 1 \<longleftrightarrow> p = i" for p by auto
    then have "unmarked i 1 (coremap s) ((coremap s)[i := ?e])" by (simp add: nth_list_update del: One_nat_def add_Suc_right)
    ultimately show ?thesis using True by (intro exI [of _ "(coremap s)[i := ?e]"]) simp
  next
    case False
    then have "free_loop i m True s = free_loop (Suc i) m' True ?t" using m i ei cnt by (cases s) (simp add: Let_def)
    moreover have "\<exists>es. unmarked (Suc i) k (coremap ?t) es \<and>
      free_loop (Suc i) m' True ?t = Some (?t\<lparr>coremap := es, num_coremap_kernel := num_coremap_kernel ?t - k, num_coremap_free := num_coremap_free ?t + k\<rparr>)"
    proof (rule Suc.IH)
      show "\<forall>p. Suc i \<le> p \<and> p < Suc i + k \<longrightarrow> p < num_coremap_entries ?t \<and> entry_inv (coremap ?t ! p) \<and> cm_kernel (coremap ?t ! p) \<and> cm_notlast (coremap ?t ! p) = (Suc p < Suc i + k)"
        using Suc.prems(3) by simp
    qed (use False m Suc.prems in simp_all)
    ultimately obtain es where es: "unmarked (Suc i) k (coremap ?t) es"
      "free_loop i m True s = Some (?t\<lparr>coremap := es, num_coremap_kernel := num_coremap_kernel ?t - k, num_coremap_free := num_coremap_free ?t + k\<rparr>)" by auto
    have "es ! p = (if i \<le> p \<and> p < i + Suc k then (coremap s ! p)\<lparr>cm_allocated := False, cm_kernel := False, cm_lp := None, cm_notlast := False\<rparr> else coremap s ! p)"
      if "p < num_coremap_entries s" for p using es(1) i(1) that by (cases "p = i") auto
    then have "unmarked i (Suc k) (coremap s) es" using es(1) by simp
    moreover have "free_loop i m True s = Some (s\<lparr>coremap := es, num_coremap_kernel := num_coremap_kernel s - Suc k, num_coremap_free := num_coremap_free s + Suc k\<rparr>)"
      unfolding es(2) by (cases s) simp
    ultimately show ?thesis by blast
  qed
qed simp

text \<open>The pages of a run are free afterwards.\<close>

lemma card_unmarked:
  assumes u: "unmarked c k es es'" and "\<forall>p. c \<le> p \<and> p < c + k \<longrightarrow> p < length es \<and> cm_kernel (es ! p) \<and> cm_allocated (es ! p)"
  shows "card (pages_of cm_kernel es') = card (pages_of cm_kernel es) - k" and "k \<le> card (pages_of cm_kernel es)"
    and "pages_of (\<lambda>e. cm_allocated e \<and> \<not> cm_kernel e) es' = pages_of (\<lambda>e. cm_allocated e \<and> \<not> cm_kernel e) es"
    and "card (pages_of (\<lambda>e. \<not> cm_allocated e) es') = card (pages_of (\<lambda>e. \<not> cm_allocated e) es) + k"
proof -
  let ?R = "{c..<c + k}"
  have K: "pages_of cm_kernel es' = pages_of cm_kernel es - ?R" "?R \<subseteq> pages_of cm_kernel es" using assms by (auto simp: pages_of_def split: if_split_asm)
  then show "card (pages_of cm_kernel es') = card (pages_of cm_kernel es) - k" by (simp add: card_Diff_subset)
  show "k \<le> card (pages_of cm_kernel es)" using card_mono [OF _ K(2)] by simp
  show "pages_of (\<lambda>e. cm_allocated e \<and> \<not> cm_kernel e) es' = pages_of (\<lambda>e. cm_allocated e \<and> \<not> cm_kernel e) es"
    using assms by (auto simp: pages_of_def split: if_split_asm)
  have "pages_of (\<lambda>e. \<not> cm_allocated e) es' = pages_of (\<lambda>e. \<not> cm_allocated e) es \<union> ?R" "pages_of (\<lambda>e. \<not> cm_allocated e) es \<inter> ?R = {}"
    using assms by (auto simp: pages_of_def split: if_split_asm)
  then show "card (pages_of (\<lambda>e. \<not> cm_allocated e) es') = card (pages_of (\<lambda>e. \<not> cm_allocated e) es) + k" by (simp add: card_Un_disjoint)
qed

lemma unmarked_inv:
  assumes "chained es" "\<forall>p < length es. entry_inv (es ! p)" and r: "run_at es c k" and u: "unmarked c k es es'"
  shows "chained es'" and "\<forall>p < length es'. entry_inv (es' ! p)"
proof -
  show "chained es'" unfolding chained_def
  proof (intro allI impI)
    fix p assume p: "p < length es'" "cm_notlast (es' ! p)"
    then have out: "\<not> (c \<le> p \<and> p < c + k)" "es' ! p = es ! p" using u by (auto split: if_split_asm)
    with p u assms(1) have n: "cm_notlast (es ! p)" "Suc p < length es" "cm_kernel (es ! Suc p)" by (auto simp: chained_def)
    have "Suc p \<noteq> c" using r n(1) by (auto simp: run_at_def)
    then show "Suc p < length es' \<and> cm_kernel (es' ! Suc p)" using u n out by auto
  qed
  show "\<forall>p < length es'. entry_inv (es' ! p)"
  proof (intro allI impI)
    fix p assume "p < length es'"
    then have p: "p < length es" using u by simp
    have "entry_inv (es ! p)" using assms(2) p by blast
    then show "entry_inv (es' ! p)" using u p run_page [OF r, of p] by (cases "c \<le> p \<and> p < c + k") (auto simp: entry_inv_def)
  qed
qed

lemma coremap_free_run:
  assumes inv: "cm_inv s" and r: "run_at (coremap s) c k"
  shows "\<exists>es. coremap_free (cpage s c) True s = Some (s\<lparr>coremap := es, num_coremap_kernel := num_coremap_kernel s - k, num_coremap_free := num_coremap_free s + k\<rparr>) \<and>
    cm_inv (s\<lparr>coremap := es, num_coremap_kernel := num_coremap_kernel s - k, num_coremap_free := num_coremap_free s + k\<rparr>) \<and> unmarked c k (coremap s) es \<and>
    (\<forall>d l. run_at es d l \<longleftrightarrow> run_at (coremap s) d l \<and> d \<noteq> c)"
proof -
  have e: "p < num_coremap_entries s \<Longrightarrow> entry_inv (coremap s ! p)" for p using inv by (simp add: cm_inv_def)
  have k: "0 < k" "c + k \<le> num_coremap_entries s" using r by (simp_all add: run_at_def)
  have pages: "\<forall>p. c \<le> p \<and> p < c + k \<longrightarrow> p < num_coremap_entries s \<and> entry_inv (coremap s ! p) \<and> cm_kernel (coremap s ! p) \<and> cm_notlast (coremap s ! p) = (Suc p < c + k)"
    using run_page [OF r] e by blast
  then have al: "\<forall>p. c \<le> p \<and> p < c + k \<longrightarrow> p < num_coremap_entries s \<and> cm_kernel (coremap s ! p) \<and> cm_allocated (coremap s ! p)" by (simp add: entry_inv_def)
  have fits: "ram_fits s" and K: "num_coremap_kernel s = card (pages_of cm_kernel (coremap s))" using inv by (simp_all add: cm_inv_def)
  have sum: "num_coremap_kernel s + num_coremap_user s + num_coremap_free s = num_coremap_entries s" "num_coremap_entries s \<le> 2 ^ 17"
    using inv counts_sum [of "coremap s"] by (simp_all add: cm_inv_def ram_fits_def)
  have "card {c..<c + k} \<le> card (pages_of cm_kernel (coremap s))" using al by (intro card_mono) (auto simp: pages_of_def)
  then have kk: "k \<le> num_coremap_kernel s" using K by simp
  have "\<exists>es. unmarked c k (coremap s) es \<and> free_loop c (num_coremap_entries s - c) True s =
    Some (s\<lparr>coremap := es, num_coremap_kernel := num_coremap_kernel s - k, num_coremap_free := num_coremap_free s + k\<rparr>)"
    by (rule free_loop_run [OF k(1) _ pages kk]) (use k kk sum in simp_all)
  then obtain es where es: "unmarked c k (coremap s) es"
    "free_loop c (num_coremap_entries s - c) True s = Some (s\<lparr>coremap := es, num_coremap_kernel := num_coremap_kernel s - k, num_coremap_free := num_coremap_free s + k\<rparr>)" by blast
  have "PADDR_TO_COREMAP s (cpage s c) = c" using coremap_paddr(2) [OF fits, of c] k by simp
  then have f: "coremap_free (cpage s c) True s = Some (s\<lparr>coremap := es, num_coremap_kernel := num_coremap_kernel s - k, num_coremap_free := num_coremap_free s + k\<rparr>)"
    using es(2) k by (simp add: coremap_free_def)
  have old: "chained (coremap s)" "\<forall>p < num_coremap_entries s. entry_inv (coremap s ! p)" using inv by (simp_all add: cm_inv_def)
  note new = unmarked_inv [OF old r es(1)] card_unmarked [OF es(1) al]
  have "cm_inv (s\<lparr>coremap := es, num_coremap_kernel := num_coremap_kernel s - k, num_coremap_free := num_coremap_free s + k\<rparr>)"
    using inv new es(1) unfolding cm_inv_def ram_fits_def by simp
  moreover have "run_at es d l \<longleftrightarrow> run_at (coremap s) d l \<and> d \<noteq> c" for d l by (rule run_freed [OF r]) (use es(1) in auto)
  ultimately show ?thesis using f es(1) by blast
qed

section \<open>The kernel heap over the coremap\<close>

text \<open>While there are no user pages (before the first process, say), the coremap is a source of pages for the heap.\<close>

definition kern_only :: "coremap_entry list \<Rightarrow> bool" where
  "kern_only es \<longleftrightarrow> (\<forall>p < length es. \<not> cm_pinned (es ! p) \<and> (cm_allocated (es ! p) \<longrightarrow> cm_kernel (es ! p)))"

definition core_ok :: "cmsys \<Rightarrow> bool" where
  "core_ok s \<longleftrightarrow> cm_inv s \<and> \<not> paging_lock s \<and> 8 \<le> num_coremap_entries s \<and> kern_only (coremap s)"

definition core_runs :: "cmsys \<Rightarrow> (nat \<times> nat) set" where
  "core_runs s = {(PADDR_TO_KVADDR (cpage s c), k) | c k. run_at (coremap s) c k}"

definition core_kpages :: "cmsys kpages" where
  "core_kpages = \<lparr>kp_alloc = alloc_kpages, kp_free = free_kpages, opt_dumbvm = False\<rparr>"

lemma core_page:
  assumes "core_ok s" and "c < num_coremap_entries s"
  shows "PADDR_TO_KVADDR (cpage s c) = cpage s c + 0x80000000" and "KVADDR_TO_PADDR (PADDR_TO_KVADDR (cpage s c)) = cpage s c" and "cpage s c \<noteq> 0"
proof -
  have b: "c + base_coremap_page s < 2 ^ 17" "0 < base_coremap_page s" using assms by (auto simp: core_ok_def cm_inv_def ram_fits_def)
  show "PADDR_TO_KVADDR (cpage s c) = cpage s c + 0x80000000" using b by (simp add: PADDR_TO_KVADDR_def)
  show "KVADDR_TO_PADDR (PADDR_TO_KVADDR (cpage s c)) = cpage s c" by (rule kvaddr_paddr) (use b in simp)
  show "cpage s c \<noteq> 0" using b by simp
qed

lemma kern_free:
  assumes "core_ok s" and "\<not> piggish_kernel 1 s"
  shows "\<exists>c. spare s c"
proof (rule ccontr)
  assume no: "\<nexists>c. spare s c"
  have ok: "cm_inv s" "8 \<le> num_coremap_entries s" "kern_only (coremap s)" using assms(1) by (simp_all add: core_ok_def)
  from no ok(3) have "pages_of (\<lambda>e. \<not> cm_allocated e) (coremap s) = {}" "pages_of (\<lambda>e. cm_allocated e \<and> \<not> cm_kernel e) (coremap s) = {}"
    by (auto simp: pages_of_def kern_only_def)
  then have "num_coremap_kernel s = num_coremap_entries s" using counts_sum [of "coremap s"] ok(1) by (simp add: cm_inv_def)
  then show False using piggish_iff [OF ok(1,2), of 1] assms(2) by simp
qed

lemma kern_no_evictions:
  assumes "kern_only es" and "best_block es n (length es) (Some b)"
  shows "evictions es b (b + n) = 0"
  using assms by (force simp: no_evictions best_block_def blocks_to_def barred_def kern_only_def)

lemma taken_run:
  assumes inv: "cm_inv s" and b: "spare s b" and t: "page_taken b None False s s'"
  shows "run_taken b 1 s s'"
proof -
  let ?es = "(coremap s)[b := (coremap s ! b)\<lparr>cm_pinned := False, cm_allocated := True, cm_kernel := True, cm_lp := None\<rparr>]"
  have "entry_inv (coremap s ! b)" using inv b by (simp add: cm_inv_def)
  then have e: "cm_lp (coremap s ! b) = None" "cm_tlbix (coremap s ! b) = -1" "\<not> cm_notlast (coremap s ! b)" "\<not> cm_kernel (coremap s ! b)" using b by (auto simp: entry_inv_def)
  have in1: "b \<le> p \<and> p < b + 1 \<longleftrightarrow> p = b" for p by auto
  have "(coremap s ! b)\<lparr>cm_pinned := False, cm_allocated := True, cm_kernel := True, cm_lp := None\<rparr> =
    (coremap s ! b)\<lparr>cm_pinned := False, cm_allocated := True, cm_kernel := True, cm_notlast := False\<rparr>" using e by (cases "coremap s ! b") simp
  then have m: "marked b 1 False True (coremap s) ?es" unfolding in1 by (simp add: nth_list_update)
  have free: "\<forall>j. b \<le> j \<and> j < b + 1 \<longrightarrow> j < num_coremap_entries s \<and> free_entry (coremap s ! j)" unfolding in1 using b e by (simp add: free_entry_def)
  have s': "s' = s\<lparr>coremap := ?es, num_coremap_kernel := num_coremap_kernel s + 1, num_coremap_free := num_coremap_free s - 1\<rparr>"
    using t by (cases s) (simp add: page_taken_def)
  have "cm_inv s'" using taken_inv [OF inv _ _ _ t] b by blast
  moreover have "chained (coremap s)" using inv by (simp add: cm_inv_def)
  from run_marked [OF m free zero_less_one this] have "\<forall>d l. run_at (coremap s') d l \<longleftrightarrow> run_at (coremap s) d l \<or> d = b \<and> l = 1" unfolding s' by simp
  ultimately show ?thesis unfolding run_taken_def using s' m by blast
qed

lemma run_taken_kern:
  assumes ok: "core_ok s" and t: "run_taken b n s s'"
  shows "core_ok s'" and "base_coremap_page s' = base_coremap_page s"
proof -
  from t obtain es f where s': "s' = s\<lparr>coremap := es, num_coremap_kernel := num_coremap_kernel s + n, num_coremap_free := f\<rparr>" "marked b n False True (coremap s) es"
    and inv: "cm_inv s'" by (auto simp: run_taken_def)
  show "base_coremap_page s' = base_coremap_page s" unfolding s'(1) by simp
  have "kern_only es" using ok s'(2) by (auto simp: core_ok_def kern_only_def)
  then show "core_ok s'" using inv ok s'(2) unfolding core_ok_def s'(1) by simp
qed

lemma core_alloc:
  assumes ok: "core_ok s" and n: "0 < n" "n < 2 ^ 31"
  obtains (Refused) "alloc_kpages (int n) s = Some (0, s)" "piggish_kernel n s \<or> blocks_to (coremap s) n (num_coremap_entries s) = {}"
  | (Given) b s' where "alloc_kpages (int n) s = Some (PADDR_TO_KVADDR (cpage s b), s')" "run_taken b n s s'" "b < num_coremap_entries s" "\<not> cm_kernel (coremap s ! b)"
proof -
  have inv: "cm_inv s" "\<not> paging_lock s" "8 \<le> num_coremap_entries s" "kern_only (coremap s)" using ok by (simp_all add: core_ok_def)
  show thesis
  proof (cases "n = 1")
    case True
    from inv(1,2) show thesis
    proof (cases rule: one_page_cases [where lp = None and pin = False])
      case Piggish
      then show thesis using Refused True by (simp add: alloc_kpages_def)
    next
      case (Taken b s')
      then have b: "b < num_coremap_entries s" by simp
      have "alloc_kpages (int n) s = Some (PADDR_TO_KVADDR (cpage s b), s')" using Taken(4) core_page(3) [OF ok b] True by (auto simp: alloc_kpages_def)
      moreover have "entry_inv (coremap s ! b)" using inv(1) b by (simp add: cm_inv_def)
      then have "\<not> cm_kernel (coremap s ! b)" using Taken(2) by (auto simp: entry_inv_def)
      ultimately show thesis using Given taken_run [OF inv(1) Taken(2,5)] b True by blast
    qed (use kern_free [OF ok] in auto)
  next
    case False
    show thesis
    proof (cases "n < 2 ^ 30")
      case True
      have n1: "1 < n" using n(1) False by simp
      have a: "alloc_kpages (int n) s = do { (pa, s) \<leftarrow> coremap_alloc_multipages n s; Some (if pa = INVALID_PADDR then 0 else PADDR_TO_KVADDR pa, s) }"
        using n1 by (simp add: alloc_kpages_def)
      from inv(1,2) n1 True show thesis
      proof (cases rule: multi_page_cases)
        case (Taken b s')
        then have b: "b < num_coremap_entries s" using n1 by (simp add: best_block_def blocks_to_def)
        have "alloc_kpages (int n) s = Some (PADDR_TO_KVADDR (cpage s b), s')" using Taken(4) core_page(3) [OF ok b] by (auto simp: a)
        moreover have "\<not> cm_kernel (coremap s ! b)" using Taken(2) n1 by (simp add: best_block_def blocks_to_def barred_def)
        ultimately show thesis using Given Taken(5) b by blast
      qed (use Refused kern_no_evictions [OF inv(4)] in \<open>auto simp: a\<close>)
    next
      case big: False
      then have p: "piggish_kernel n s" using piggish_iff [OF inv(1,3) n(2)] inv(1) by (simp add: cm_inv_def ram_fits_def)
      from locks [OF inv(2)] obtain x where x: "paging_acquire s = Some (s\<lparr>paging_lock := x\<rparr>)" "paging_release (s\<lparr>paging_lock := x\<rparr>) = Some (s\<lparr>paging_lock := False\<rparr>)" by auto
      have "piggish_kernel n (s\<lparr>paging_lock := x\<rparr>)" using p by (simp add: piggish_kernel_def)
      then have "alloc_kpages (int n) s = Some (0, s)" using x big unlock_same [OF inv(2)] by (simp add: alloc_kpages_def coremap_alloc_multipages_def)
      then show thesis using Refused p by blast
    qed
  qed
qed

lemma runs_minus: "(\<And>d l. P d l \<Longrightarrow> (g d, l) \<noteq> x \<longleftrightarrow> d \<noteq> c) \<Longrightarrow> {(g d, l) | d l. P d l \<and> d \<noteq> c} = {(g d, l) | d l. P d l} - {x}"
  by blast

interpretation ck: page_source core_kpages core_ok core_runs
proof unfold_locales
  fix w a n assume w: "core_ok w" "(a, n) \<in> core_runs w"
  then obtain c where c: "run_at (coremap w) c n" "a = PADDR_TO_KVADDR (cpage w c)" by (auto simp: core_runs_def)
  have inv: "cm_inv w" "ram_fits w" using w(1) by (simp_all add: core_ok_def cm_inv_def)
  have n: "0 < n" "c + n \<le> num_coremap_entries w" "c < num_coremap_entries w" using c(1) by (auto simp: run_at_def)
  note p = core_page [OF w(1) n(3)]
  show "0 < n \<and> a mod 4096 = 0 \<and> 0x80000000 \<le> a \<and> a + n * 4096 \<le> 0xa0000000"
    using n inv(2) unfolding c(2) p(1) ram_fits_def by (simp add: mod_add_eq [symmetric])
  from coremap_free_run [OF inv(1) c(1)] obtain es where es:
    "coremap_free (cpage w c) True w = Some (w\<lparr>coremap := es, num_coremap_kernel := num_coremap_kernel w - n, num_coremap_free := num_coremap_free w + n\<rparr>)"
    "cm_inv (w\<lparr>coremap := es, num_coremap_kernel := num_coremap_kernel w - n, num_coremap_free := num_coremap_free w + n\<rparr>)"
    "unmarked c n (coremap w) es" "\<And>d l. run_at es d l \<longleftrightarrow> run_at (coremap w) d l \<and> d \<noteq> c" by blast
  let ?w = "w\<lparr>coremap := es, num_coremap_kernel := num_coremap_kernel w - n, num_coremap_free := num_coremap_free w + n\<rparr>"
  have "free_kpages a w = Some ?w" unfolding free_kpages_def c(2) p(2) by (rule es(1))
  moreover have "kern_only es" using w(1) es(3) by (auto simp: core_ok_def kern_only_def)
  then have "core_ok ?w" using w(1) es(2,3) by (simp add: core_ok_def)
  moreover have "core_runs ?w = core_runs w - {(a, n)}"
  proof -
    have x: "(PADDR_TO_KVADDR (cpage w d), l) \<noteq> (a, n) \<longleftrightarrow> d \<noteq> c" if "run_at (coremap w) d l" for d l
    proof -
      have "d < num_coremap_entries w" using that by (auto simp: run_at_def)
      from core_page(1) [OF w(1) this] show ?thesis using run_length [OF c(1), of l] that unfolding c(2) p(1) by auto
    qed
    have "core_runs ?w = {(PADDR_TO_KVADDR (cpage w d), l) | d l. run_at es d l}" by (simp add: core_runs_def)
    then show ?thesis unfolding core_runs_def es(4) by (simp only: runs_minus [where P = "run_at (coremap w)" and g = "\<lambda>d. PADDR_TO_KVADDR (cpage w d)", OF x])
  qed
  ultimately show "\<exists>w'. kp_free core_kpages a w = Some w' \<and> core_ok w' \<and> core_runs w' = core_runs w - {(a, n)}" by (simp add: core_kpages_def)
next
  fix w a n b k assume w: "core_ok w" "(a, n) \<in> core_runs w" "(b, k) \<in> core_runs w" "(a, n) \<noteq> (b, k)"
  then obtain c d where cd: "run_at (coremap w) c n" "a = PADDR_TO_KVADDR (cpage w c)" "run_at (coremap w) d k" "b = PADDR_TO_KVADDR (cpage w d)" by (auto simp: core_runs_def)
  have lt: "c < num_coremap_entries w" "d < num_coremap_entries w" using cd by (auto simp: run_at_def)
  have "c \<noteq> d" using w(4) cd run_length by blast
  from run_disjoint [OF cd(1,3) this] show "a + n * 4096 \<le> b \<or> b + k * 4096 \<le> a"
    unfolding cd(2,4) core_page(1) [OF w(1) lt(1)] core_page(1) [OF w(1) lt(2)] by auto
next
  fix w n assume w: "core_ok w" "0 < (n :: nat)" "n < 2 ^ 31"
  then show "\<exists>a w'. kp_alloc core_kpages (int n) w = Some (a, w') \<and> core_ok w' \<and>
    (a = 0 \<and> core_runs w' = core_runs w \<or> a \<noteq> 0 \<and> (a, n) \<notin> core_runs w \<and> core_runs w' = insert (a, n) (core_runs w))"
  proof (cases rule: core_alloc)
    case Refused
    then show ?thesis using w(1) by (simp add: core_kpages_def)
  next
    case (Given b w')
    note k = run_taken_kern [OF w(1) Given(2)] and pb = core_page(1) [OF w(1) Given(3)]
    have r: "run_at (coremap w') d l \<longleftrightarrow> run_at (coremap w) d l \<or> d = b \<and> l = n" for d l using Given(2) by (simp add: run_taken_def)
    have runs: "core_runs w' = insert (PADDR_TO_KVADDR (cpage w b), n) (core_runs w)" unfolding core_runs_def k(2) r by blast
    have "(PADDR_TO_KVADDR (cpage w b), n) \<notin> core_runs w"
    proof
      assume "(PADDR_TO_KVADDR (cpage w b), n) \<in> core_runs w"
      then obtain d where d: "run_at (coremap w) d n" "PADDR_TO_KVADDR (cpage w b) = PADDR_TO_KVADDR (cpage w d)" by (auto simp: core_runs_def)
      then have dl: "d < num_coremap_entries w" by (auto simp: run_at_def)
      have "d = b" using d(2) unfolding pb core_page(1) [OF w(1) dl] by simp
      then show False using run_page [OF d(1), of b] w(2) Given(4) by simp
    qed
    moreover have "PADDR_TO_KVADDR (cpage w b) \<noteq> 0" unfolding pb by simp
    ultimately show ?thesis using Given(1) k(1) runs by (simp add: core_kpages_def)
  qed
qed

section \<open>Freeing a user page\<close>

lemma tlb_inv_same:
  assumes "tlb_inv s" and "map cm_tlbix (coremap s') = map cm_tlbix (coremap s)" and "cm_tlb s' = cm_tlb s" "base_coremap_page s' = base_coremap_page s" "nexttlb s' = nexttlb s"
  shows "tlb_inv s'"
proof -
  have n: "num_coremap_entries s' = num_coremap_entries s" using assms(2) by (metis length_map)
  have x: "cm_tlbix (coremap s' ! c) = cm_tlbix (coremap s ! c)" if "c < num_coremap_entries s" for c using assms(2) n that by (metis nth_map)
  show ?thesis
  proof (rule tlb_invI)
    show "entry_ok s' i" if "i < 64" for i
    proof -
      have "entry_ok s i" using assms(1) that by (simp add: tlb_inv_def)
      then show ?thesis using x n assms(3-5) unfolding entry_ok_def by (auto split: if_split_asm)
    qed
    show "page_ok s' c" if "c < num_coremap_entries s'" for c
    proof -
      have "page_ok s c" using assms(1) that n by (simp add: tlb_inv_def)
      then show ?thesis using x n that assms(3-5) unfolding page_ok_def by simp
    qed
  qed (use assms n in \<open>simp_all add: tlb_inv_def ram_fits_def\<close>)
qed

text \<open>A page that names no entry of the translation buffer is mapped nowhere.\<close>

lemma not_mapped:
  assumes inv: "tlb_inv s" and c: "c < num_coremap_entries s" "cm_tlbix (coremap s ! c) = -1"
  shows "tlb_translate (cm_tlb s) v \<noteq> Some (cpage s c, w)"
proof
  assume t: "tlb_translate (cm_tlb s) v = Some (cpage s c, w)"
  then obtain i where "TLB_Probe v (cm_tlb s) = Some i" "snd (cm_tlb s ! i) AND 0x200 \<noteq> 0" "frame (snd (cm_tlb s ! i)) = cpage s c"
    by (auto simp: tlb_translate_def Let_def split: if_split_asm elim!: bind_SomeE)
  moreover have "length (cm_tlb s) = 64" using inv by (simp add: tlb_inv_def)
  ultimately have i: "i < 64" "valid_entry (cm_tlb s) i" "frame (snd (cm_tlb s ! i)) = cpage s c" using TLB_Probe_Some [of v "cm_tlb s" i] by (auto simp: valid_entry_def)
  from inv i(1) show False
  proof (cases rule: tlb_invE)
    case (Valid d)
    then have "d = c" using i(3) by simp
    with Valid(5) c(2) show False by simp
  qed (use i(2) in simp)
qed

text \<open>The addresses that are mapped to a page are those of its entry.\<close>

lemma translate_page:
  assumes inv: "tlb_inv s" and c: "c < num_coremap_entries s" and i: "i < 64" "cm_tlbix (coremap s ! c) = int i" "valid_entry (cm_tlb s) i"
  shows "frame (fst (cm_tlb s ! i)) = frame v \<longleftrightarrow> (\<exists>w. tlb_translate (cm_tlb s) v = Some (cpage s c, w))"
proof -
  have u: "tlb_unique (cm_tlb s)" "length (cm_tlb s) = 64" using inv by (simp_all add: tlb_inv_def)
  have lo: "frame (snd (cm_tlb s ! i)) = cpage s c" using inv c i(2) unfolding tlb_inv_def page_ok_def by auto
  show ?thesis
  proof
    assume "frame (fst (cm_tlb s ! i)) = frame v"
    then have "TLB_Probe v (cm_tlb s) = Some i" using u i(1) by (simp add: TLB_Probe_unique)
    then show "\<exists>w. tlb_translate (cm_tlb s) v = Some (cpage s c, w)" using lo i(3) by (simp add: tlb_translate_def valid_entry_def Let_def)
  next
    assume "\<exists>w. tlb_translate (cm_tlb s) v = Some (cpage s c, w)"
    then obtain j where j: "TLB_Probe v (cm_tlb s) = Some j" "snd (cm_tlb s ! j) AND 0x200 \<noteq> 0" "frame (snd (cm_tlb s ! j)) = cpage s c"
      by (auto simp: tlb_translate_def Let_def split: if_split_asm elim!: bind_SomeE)
    have j64: "j < 64" "frame (fst (cm_tlb s ! j)) = frame v" using TLB_Probe_Some [OF j(1)] u(2) by simp_all
    from inv j64(1) show "frame (fst (cm_tlb s ! i)) = frame v"
    proof (cases rule: tlb_invE)
      case (Valid d)
      then have "d = c" using j(3) by simp
      with Valid(5) i(2) j64(2) show ?thesis by simp
    qed (use j(2) in simp)
  qed
qed

definition page_freed :: "nat \<Rightarrow> cmsys \<Rightarrow> cmsys" where
  "page_freed c s = s\<lparr>coremap := (coremap s)[c := (coremap s ! c)\<lparr>cm_allocated := False, cm_lp := None\<rparr>], num_coremap_user := num_coremap_user s - 1,
     num_coremap_free := num_coremap_free s + 1\<rparr>"

lemma page_freed_inv:
  assumes inv: "cm_inv s" and c: "c < num_coremap_entries s" "cm_allocated (coremap s ! c)" "\<not> cm_kernel (coremap s ! c)" "cm_tlbix (coremap s ! c) = -1"
  shows "cm_inv (page_freed c s)" and "0 < num_coremap_user s" and "num_coremap_user s + num_coremap_free s \<le> 2 ^ 17"
proof -
  let ?e = "(coremap s ! c)\<lparr>cm_allocated := False, cm_lp := None\<rparr>"
  let ?es = "(coremap s)[c := ?e]"
  have e: "entry_inv (coremap s ! d)" if "d < num_coremap_entries s" for d using inv that by (simp add: cm_inv_def)
  have cl: "\<not> cm_notlast (coremap s ! c)" using e [OF c(1)] c by (simp add: entry_inv_def)
  have K: "pages_of cm_kernel ?es = pages_of cm_kernel (coremap s)" using c by (auto simp: pages_of_def nth_list_update split: if_split_asm)
  have U: "pages_of (\<lambda>e. cm_allocated e \<and> \<not> cm_kernel e) ?es = pages_of (\<lambda>e. cm_allocated e \<and> \<not> cm_kernel e) (coremap s) - {c}"
    "c \<in> pages_of (\<lambda>e. cm_allocated e \<and> \<not> cm_kernel e) (coremap s)" using c by (auto simp: pages_of_def nth_list_update split: if_split_asm)
  have F: "pages_of (\<lambda>e. \<not> cm_allocated e) ?es = insert c (pages_of (\<lambda>e. \<not> cm_allocated e) (coremap s))" "c \<notin> pages_of (\<lambda>e. \<not> cm_allocated e) (coremap s)"
    using c by (auto simp: pages_of_def nth_list_update split: if_split_asm)
  have "chained ?es" unfolding chained_def
  proof (intro allI impI)
    fix d assume d: "d < length ?es" "cm_notlast (?es ! d)"
    then have "d \<noteq> c" using cl c(1) by auto
    with d have "Suc d < num_coremap_entries s" "cm_kernel (coremap s ! Suc d)" using inv by (auto simp: cm_inv_def chained_def)
    with c(3) show "Suc d < length ?es \<and> cm_kernel (?es ! Suc d)" by (cases "Suc d = c") auto
  qed
  moreover have "entry_inv (?es ! d)" if "d < num_coremap_entries s" for d using e [OF that] that c cl by (cases "d = c") (auto simp: entry_inv_def)
  ultimately show "cm_inv (page_freed c s)" using inv K U F by (auto simp: cm_inv_def page_freed_def ram_fits_def)
  show "0 < num_coremap_user s" using U(2) inv by (auto simp: cm_inv_def card_gt_0_iff)
  show "num_coremap_user s + num_coremap_free s \<le> 2 ^ 17" using inv counts_sum [of "coremap s"] by (simp add: cm_inv_def ram_fits_def)
qed

text \<open>The first part of the loop body: the page is taken out of the translation buffer.\<close>

lemma flush_page:
  assumes inv: "tlb_inv s" "cm_inv s" and c: "c < num_coremap_entries s" "cm_allocated (coremap s ! c)" "\<not> cm_kernel (coremap s ! c)"
  obtains s1 where "(if cm_tlbix (coremap s ! c) \<ge> 0 then do { s \<leftarrow> tlb_invalidate (nat (cm_tlbix (coremap s ! c))) s;
      Some (put_cm c ((coremap s ! c)\<lparr>cm_tlbix := -1\<rparr>) s) } else Some s) = Some s1" "tlb_inv s1" "cm_inv s1" "tlb_only s s1"
    "coremap s1 = (coremap s)[c := (coremap s ! c)\<lparr>cm_tlbix := -1\<rparr>]"
    "\<forall>v < 0x80000000. tlb_translate (cm_tlb s1) v = (case tlb_translate (cm_tlb s) v of Some (pa, w) \<Rightarrow> if pa = cpage s c then None else Some (pa, w) | None \<Rightarrow> None)"
proof (cases "cm_tlbix (coremap s ! c) = -1")
  case True
  have eq: "(coremap s)[c := (coremap s ! c)\<lparr>cm_tlbix := -1\<rparr>] = coremap s" unfolding True [symmetric] by simp
  have "tlb_translate (cm_tlb s) v = (case tlb_translate (cm_tlb s) v of Some (pa, w) \<Rightarrow> if pa = cpage s c then None else Some (pa, w) | None \<Rightarrow> None)" for v
    using not_mapped [OF inv(1) c(1) True, of v] by (auto split: option.split)
  then show thesis using that [of s] True inv eq by simp
next
  case False
  then obtain i where i: "i < 64" "cm_tlbix (coremap s ! c) = int i" "frame (snd (cm_tlb s ! i)) = cpage s c" "valid_entry (cm_tlb s) i"
    using inv(1) c(1) by (auto simp: tlb_inv_def page_ok_def)
  let ?s = "invalidated i s"
  have es: "drop_tlb i (coremap s) = (coremap s)[c := (coremap s ! c)\<lparr>cm_tlbix := -1\<rparr>]"
  proof (rule nth_equalityI)
    fix d assume d: "d < length (drop_tlb i (coremap s))"
    have "cm_tlbix (coremap s ! d) \<noteq> int i" if "d \<noteq> c" using tlbix_unique [OF inv(1) _ c(1) _ i(2)] d that by auto
    then show "drop_tlb i (coremap s) ! d = (coremap s)[c := (coremap s ! c)\<lparr>cm_tlbix := -1\<rparr>] ! d" using d i(2) c(1) by (cases "d = c") (auto simp: drop_tlb_nth)
  qed simp
  show thesis
  proof (rule that [of ?s])
    show "tlb_inv ?s" by (rule tlb_invalidate_inv [OF inv(1) i(1)])
    show "tlb_only s ?s" by (rule tlb_only_invalidated)
    show "coremap ?s = (coremap s)[c := (coremap s ! c)\<lparr>cm_tlbix := -1\<rparr>]" using es by simp
    show "(if cm_tlbix (coremap s ! c) \<ge> 0 then do { s \<leftarrow> tlb_invalidate (nat (cm_tlbix (coremap s ! c))) s;
      Some (put_cm c ((coremap s ! c)\<lparr>cm_tlbix := -1\<rparr>) s) } else Some s) = Some ?s"
      using tlb_invalidate_eq [OF inv(1) i(1)] i(2) c(1) by (simp add: es)
    have e: "entry_inv (coremap s ! d)" if "d < num_coremap_entries s" for d using inv(2) that by (simp add: cm_inv_def)
    have "entry_inv (coremap ?s ! d)" if "d < num_coremap_entries ?s" for d using e [of d] that c by (auto simp: drop_tlb_nth entry_inv_def)
    moreover have "pages_of P (drop_tlb i (coremap s)) = pages_of P (coremap s)" if "\<And>e x. P (e\<lparr>cm_tlbix := x\<rparr>) = P e" for P
      using that by (auto simp: pages_of_def drop_tlb_nth split: if_split_asm)
    moreover have "cm_kernel (drop_tlb i (coremap s) ! d) = cm_kernel (coremap s ! d)" "cm_notlast (drop_tlb i (coremap s) ! d) = cm_notlast (coremap s ! d)"
      if "d < num_coremap_entries s" for d using that by (simp_all add: drop_tlb_nth)
    then have "chained (drop_tlb i (coremap s)) = chained (coremap s)" by (simp add: chained_def cong: conj_cong)
    ultimately show "cm_inv ?s" using inv(2) by (simp add: cm_inv_def ram_fits_def)
    show "\<forall>v < 0x80000000. tlb_translate (cm_tlb ?s) v = (case tlb_translate (cm_tlb s) v of Some (pa, w) \<Rightarrow> if pa = cpage s c then None else Some (pa, w) | None \<Rightarrow> None)"
      using translate_invalidated [OF inv(1) i(1)] translate_page [OF inv(1) c(1) i(1,2,4)] by (auto split: option.split)
  qed
qed

lemma coremap_free_user:
  assumes inv: "tlb_inv s" "cm_inv s" and c: "c < num_coremap_entries s" "cm_allocated (coremap s ! c)" "\<not> cm_kernel (coremap s ! c)"
  shows "\<exists>s'. coremap_free (cpage s c) False s = Some s' \<and> tlb_inv s' \<and> cm_inv s' \<and>
    coremap s' = (coremap s)[c := (coremap s ! c)\<lparr>cm_tlbix := -1, cm_allocated := False, cm_lp := None\<rparr>] \<and>
    num_coremap_user s' = num_coremap_user s - 1 \<and> num_coremap_free s' = num_coremap_free s + 1 \<and> cm_ram s' = cm_ram s \<and>
    (\<forall>v < 0x80000000. tlb_translate (cm_tlb s') v = (case tlb_translate (cm_tlb s) v of Some (pa, w) \<Rightarrow> if pa = cpage s c then None else Some (pa, w) | None \<Rightarrow> None))"
proof -
  obtain s1 where s1: "(if cm_tlbix (coremap s ! c) \<ge> 0 then do { s \<leftarrow> tlb_invalidate (nat (cm_tlbix (coremap s ! c))) s;
      Some (put_cm c ((coremap s ! c)\<lparr>cm_tlbix := -1\<rparr>) s) } else Some s) = Some s1" "tlb_inv s1" "cm_inv s1" "tlb_only s s1"
    "coremap s1 = (coremap s)[c := (coremap s ! c)\<lparr>cm_tlbix := -1\<rparr>]"
    "\<forall>v < 0x80000000. tlb_translate (cm_tlb s1) v = (case tlb_translate (cm_tlb s) v of Some (pa, w) \<Rightarrow> if pa = cpage s c then None else Some (pa, w) | None \<Rightarrow> None)" by (rule flush_page [OF inv c])
  have e: "coremap s1 ! c = (coremap s ! c)\<lparr>cm_tlbix := -1\<rparr>" using s1(5) c(1) by simp
  have c1: "c < num_coremap_entries s1" "cm_allocated (coremap s1 ! c)" "\<not> cm_kernel (coremap s1 ! c)" "cm_tlbix (coremap s1 ! c) = -1" using c s1(5) e by simp_all
  have "entry_inv (coremap s1 ! c)" using s1(3) c1(1) by (simp add: cm_inv_def)
  then have l: "cm_lp (coremap s1 ! c) \<noteq> None" "\<not> cm_notlast (coremap s1 ! c)" using c1 by (simp_all add: entry_inv_def)
  note f = page_freed_inv [OF s1(3) c1]
  have cnt: "u32 (int (num_coremap_user s1) - 1) = num_coremap_user s1 - 1" "(num_coremap_free s1 + 1) mod 2 ^ 32 = num_coremap_free s1 + 1" using f(2,3) by (auto simp: u32_def nat_diff_distrib)
  have fits: "ram_fits s" using inv(1) by (simp add: tlb_inv_def)
  have n: "num_coremap_entries s - c = Suc (num_coremap_entries s - Suc c)" using c(1) by simp
  have "free_loop c (num_coremap_entries s - c) False s = Some (page_freed c s1)"
    unfolding n free_loop.simps s1(1) using c(2) c1 l cnt by (cases s1) (auto simp: page_freed_def Let_def)
  then have "coremap_free (cpage s c) False s = Some (page_freed c s1)" using coremap_paddr(2) [OF fits c(1)] c(1) by (simp add: coremap_free_def)
  moreover have "tlb_inv (page_freed c s1)" using s1(2) c1(1) by (elim tlb_inv_same) (simp_all add: page_freed_def map_update list_update_same_conv)
  ultimately show ?thesis using f(1) s1 c(1) by (intro exI [of _ "page_freed c s1"]) (auto simp: page_freed_def tlb_only_def)
qed

section \<open>Pinned pages\<close>

text \<open>A page that has been pinned is not handed out by either allocator until it is unpinned.\<close>

lemma pinned_page:
  assumes fits: "ram_fits s" and c: "c < num_coremap_entries s" "\<not> cm_pinned (coremap s ! c)"
  shows "\<exists>s'. coremap_pin (cpage s c) s = Some (True, s') \<and> coremap_pin (cpage s c) s' = Some (False, s') \<and> coremap_pageispinned (cpage s c) s' = Some True \<and>
    \<not> spare s' c \<and> (\<forall>n b. b \<in> blocks_to (coremap s') n (num_coremap_entries s') \<longrightarrow> c < b \<or> b + n \<le> c) \<and> coremap_unpin (cpage s c) s' = Some (c, s)"
proof -
  define pa where "pa = cpage s c"
  let ?s = "put_cm c ((coremap s ! c)\<lparr>cm_pinned := True\<rparr>) s"
  have ix: "PADDR_TO_COREMAP t (pa) = c" if "base_coremap_page t = base_coremap_page s" for t
    using coremap_paddr(2) [OF fits c(1), folded pa_def] that by (simp add: PADDR_TO_COREMAP_def)
  have undo: "((coremap s ! c)\<lparr>cm_pinned := True\<rparr>)\<lparr>cm_pinned := False\<rparr> = coremap s ! c" using c(2) by (cases "coremap s ! c") simp
  have ops: "coremap_pin (pa) s = Some (True, ?s)" "coremap_pin (pa) ?s = Some (False, ?s)" "coremap_pageispinned (pa) ?s = Some True"
    using c by (simp_all add: coremap_pin_def coremap_pageispinned_def ix Let_def)
  have "coremap_unpin (pa) ?s = Some (c, put_cm c (((coremap s ! c)\<lparr>cm_pinned := True\<rparr>)\<lparr>cm_pinned := False\<rparr>) s)"
    using c(1) by (simp add: coremap_unpin_def ix Let_def)
  then have un: "coremap_unpin (pa) ?s = Some (c, s)" unfolding undo by simp
  have "c < b \<or> b + n \<le> c" if "b \<in> blocks_to (coremap ?s) n (num_coremap_entries ?s)" for n b
  proof (rule ccontr)
    assume "\<not> (c < b \<or> b + n \<le> c)"
    with that have "\<not> barred (coremap ?s) c" by (simp add: blocks_to_def)
    then show False using c(1) by (simp add: barred_def)
  qed
  then show ?thesis unfolding pa_def [symmetric] using ops un c(1) by (intro exI [of _ ?s]) simp
qed

lemma copied_page:
  assumes fits: "ram_fits s" and c: "c < num_coremap_entries s" "cm_pinned (coremap s ! c)" and d: "d < num_coremap_entries s" "cm_pinned (coremap s ! d)" and ne: "c \<noteq> d"
  shows "\<exists>s'. coremap_copy_page (cpage s c) (cpage s d) s = Some s' \<and> (\<forall>x < 4096. cm_ram s' (cpage s d + x) = cm_ram s (cpage s c + x)) \<and>
    (\<forall>p. p div 4096 \<noteq> d + base_coremap_page s \<longrightarrow> cm_ram s' p = cm_ram s p)"
proof -
  define pc pd where p: "pc = cpage s c" "pd = cpage s d"
  have "coremap_pageispinned pc s = Some True" "coremap_pageispinned pd s = Some True"
    using c d coremap_paddr(2) [OF fits c(1), folded p] coremap_paddr(2) [OF fits d(1), folded p] by (simp_all add: coremap_pageispinned_def)
  moreover have "pc \<noteq> pd" using ne by (simp add: p)
  ultimately have "coremap_copy_page pc pd s = Some (s\<lparr>cm_ram := memmove_phys pd pc 4096 (cm_ram s)\<rparr>)" by (simp add: coremap_copy_page_def)
  moreover have "q div 4096 = d + base_coremap_page s" if "pd \<le> q" "q < pd + 4096" for q using that unfolding p by (intro div_nat_eqI) simp_all
  ultimately show ?thesis unfolding p [symmetric] by (auto simp: memmove_phys_def)
qed

section \<open>Booting\<close>

lemma coremap_bootstrap_ok:
  assumes r: "firstpaddr r = f * 4096" "lastpaddr r = l * 4096" "f + 9 \<le> l" "l \<le> 2 ^ 17" and lock: "\<not> paging_lock s"
  shows "\<exists>r' s' k. coremap_bootstrap r s = Some (r', s') \<and> core_ok s' \<and> core_runs s' = {} \<and> k = (l - f + 511) div 512 \<and>
    base_coremap_page s' = f + k \<and> num_coremap_entries s' + k = l - f \<and> num_coremap_free s' = num_coremap_entries s'"
proof -
  define k where "k = (l - f + 511) div 512"
  have k: "0 < k" "f + k + 8 \<le> l" using r(3) by (auto simp: k_def)
  have n: "u32 (int (l * 4096) - int (f * 4096)) div 4096 = l - f" using r(3,4) by (simp add: u32_def flip: of_nat_diff)
  have lt: "(l - f) * 8 < 2 ^ 21" using r(3,4) by simp
  have "((l - f) * 8 + 4095) div 4096 = ((l - f) * 8 + 4095) div 8 div 512" by (simp add: div_mult2_eq [symmetric])
  also have "((l - f) * 8 + 4095) div 8 = l - f + 511" by simp
  finally have rnd: "DIVROUNDUP ((l - f) * 8 mod 2 ^ 32) 4096 = k" using lt by (simp add: DIVROUNDUP_def k_def)
  have kl: "k * 4096 < 2 ^ 30" using k r(4) by simp
  have fr: "frame (f * 4096) = f * 4096" "frame (l * 4096) = l * 4096" "frame (k * 4096) = k * 4096" using r(3,4) kl by (simp_all add: frame_fixed)
  have base: "(f * 4096 + k * 4096) mod 2 ^ 32 = (f + k) * 4096" "k * 4096 mod 2 ^ 32 = k * 4096" using k r(4) kl by (simp_all add: add_mult_distrib)
  define m where "m = l - (f + k)"
  have "int l - (int f + int k) = int m" using k by (simp add: m_def)
  then have ent: "u32 (int l - (int f + int k)) = m" using k r(4) by (simp add: u32_def m_def)
  have m: "m + k = l - f" "8 \<le> m" "m + (f + k) = l" using k by (simp_all add: m_def)
  let ?s = "s\<lparr>nexttlb := 0, base_coremap_page := f + k, num_coremap_kernel := 0, num_coremap_user := 0, num_coremap_free := m,
    coremap := replicate m \<lparr>cm_lp = None, cm_tlbix = -1, cm_kernel = False, cm_notlast = False, cm_allocated = False, cm_pinned = False\<rparr>\<rparr>"
  have "coremap_bootstrap r s = Some (r\<lparr>firstpaddr := 0, lastpaddr := 0\<rparr>, ?s)"
    unfolding coremap_bootstrap_def ram_getsize_def r(1,2) Let_def prod.case n rnd base fr using k m kl r(4) by (simp add: ent)
  moreover have "pages_of P (replicate m e) = (if P e then {..<m} else {})" for P e by (auto simp: pages_of_def)
  then have "cm_inv ?s" using k m r(4) by (simp add: cm_inv_def ram_fits_def entry_inv_def chained_def)
  then have "core_ok ?s" using m(2) lock by (simp add: core_ok_def kern_only_def)
  moreover have "core_runs ?s = {}" by (auto simp: core_runs_def run_at_def)
  ultimately show ?thesis using m(1) by (intro exI [of _ "r\<lparr>firstpaddr := 0, lastpaddr := 0\<rparr>"] exI [of _ ?s] exI [of _ k]) (simp add: k_def)
qed

section \<open>Requests that wrap around\<close>

text \<open>\<^verbatim>\<open>alloc_kpages\<close> does not tell a request for no page from one for a single page.\<close>

lemma alloc_kpages_0: "alloc_kpages 0 s = alloc_kpages 1 s"
  by (simp add: alloc_kpages_def)

lemma core_one_page:
  assumes ok: "core_ok s" and np: "\<not> piggish_kernel 1 s"
  shows "\<exists>a s'. alloc_kpages 1 s = Some (a, s') \<and> core_ok s' \<and> a \<noteq> 0 \<and> (a, 1) \<notin> core_runs s \<and> core_runs s' = insert (a, 1) (core_runs s)"
proof -
  from kern_free [OF ok np] obtain c where c: "spare s c" by blast
  then have "\<not> cm_kernel (coremap s ! c)" using ok by (auto simp: core_ok_def cm_inv_def entry_inv_def)
  with c have "c \<in> blocks_to (coremap s) 1 (num_coremap_entries s)" by (auto simp: blocks_to_def barred_def less_Suc_eq_le dest: le_antisym)
  moreover have "0 < (1 :: nat)" "1 < (2 :: nat) ^ 31" by simp_all
  note ck.alloc_law [OF ok this]
  moreover have "a \<noteq> 0" if "alloc_kpages 1 s = Some (a, s')" for a s'
    using ok \<open>0 < (1 :: nat)\<close> \<open>1 < (2 :: nat) ^ 31\<close>
  proof (cases rule: core_alloc)
    case Refused
    then show ?thesis using np calculation by auto
  next
    case (Given b t)
    then show ?thesis using that core_page(1) [OF ok Given(3)] by auto
  qed
  ultimately show ?thesis by (auto simp: core_kpages_def)
qed

lemma core_kmalloc_wrap:
  assumes inv: "heap_inv core_ok core_runs h" and sz: "sz < 2 ^ 32" "2 ^ 32 \<le> sz + 4095" and np: "\<not> piggish_kernel 1 (h_w h)"
  shows "\<exists>a h'. kmalloc_heap core_kpages sz h = Some (a, h') \<and> a \<noteq> 0 \<and> blocks core_runs h' = insert (a, 4096) (blocks core_runs h)"
proof -
  have n0: "(sz + 4096 - 1) mod 2 ^ 32 div 4096 = 0" using sz by (simp add: mod_if)
  have ok: "core_ok (h_w h)" "\<forall>a \<in> heap_pages h. (a, 1) \<in> core_runs (h_w h)" using inv by (auto simp: heap_inv_def)
  from core_one_page [OF ok(1) np] obtain a w where a: "alloc_kpages 1 (h_w h) = Some (a, w)" "a \<noteq> 0" "(a, 1) \<notin> core_runs (h_w h)" "core_runs w = insert (a, 1) (core_runs (h_w h))" by blast
  have "kmalloc_heap core_kpages sz h = Some (a, h\<lparr>h_w := w\<rparr>)" unfolding kmalloc_heap_def n0 Let_def using sz(2) a(1) by (simp add: core_kpages_def alloc_kpages_0)
  moreover have "a \<notin> heap_pages h" using a(3) ok(2) by blast
  then have "large_blocks core_runs (h\<lparr>h_w := w\<rparr>) = insert (a, 4096) (large_blocks core_runs h)" unfolding large_blocks_def using a(4) by (auto simp: ck.heap_w)
  ultimately show ?thesis using a(2) by (simp add: blocks_def ck.heap_w)
qed

section \<open>Correctness\<close>

text \<open>C31: \<^verbatim>\<open>coremap_alloc_multipages\<close> (\<^verbatim>\<open>coremap.c\<close>) with its one-pass scan picks what an exhaustive search would: of all blocks of \<open>n\<close> pages
  without pinned and kernel pages, the lowest of those that hold the fewest allocated pages. If that block is free, its pages become
  a run of kernel pages; if there is no such block, or too many kernel pages, the call fails and changes nothing. If the block has a
  page to evict, the call fails in an interrupt; otherwise it never returns (\<^verbatim>\<open>do_evict\<close> is a stub and the loop starts over).\<close>

theorem coremap_alloc_multipages_correct:
  assumes "cm_inv s" and "\<not> paging_lock s" and "1 < n" and "n < 2 ^ 30"
  shows "if piggish_kernel n s then coremap_alloc_multipages n s = Some (0, s)
    else \<exists>r. best_block (coremap s) n (num_coremap_entries s) r \<and>
      (case r of
         None \<Rightarrow> coremap_alloc_multipages n s = Some (0, s)
       | Some b \<Rightarrow> if evictions (coremap s) b (b + n) = 0 then \<exists>s'. coremap_alloc_multipages n s = Some (cpage s b, s') \<and> run_taken b n s s'
           else coremap_alloc_multipages n s = (if in_interrupt s then Some (0, s) else None))"
  using assms
proof (cases rule: multi_page_cases)
  case Full
  then show ?thesis by (auto simp: best_block_def intro!: exI [of _ None])
next
  case (Taken b s')
  then show ?thesis by (auto intro!: exI [of _ "Some b"])
next
  case (Interrupt b)
  then show ?thesis by (auto intro!: exI [of _ "Some b"])
next
  case (Stuck b)
  then show ?thesis by (auto intro!: exI [of _ "Some b"])
qed simp

text \<open>C35: \<^verbatim>\<open>coremap_alloc_one_page\<close> (\<^verbatim>\<open>coremap.c\<close>) hands out the highest page that is neither pinned nor allocated, pinned or not as asked for,
  and keeps the counts and flags of the coremap consistent. The kernel is refused when it has too many pages. Without such a page it
  fails in an interrupt, and panics otherwise: page replacement is a stub whose choice never passes the assertions.\<close>

theorem coremap_alloc_one_page_correct:
  assumes "cm_inv s" and "\<not> paging_lock s"
  shows "if lp = None \<and> piggish_kernel 1 s then coremap_alloc_one_page lp pin s = Some (0, s)
    else if \<exists>c. spare s c then \<exists>c s'. spare s c \<and> (\<forall>d. c < d \<longrightarrow> \<not> spare s d) \<and> coremap_alloc_one_page lp pin s = Some (cpage s c, s') \<and>
      page_taken c lp pin s s' \<and> cm_inv s'
    else coremap_alloc_one_page lp pin s = (if in_interrupt s then Some (0, s) else None)"
  using assms
proof (cases rule: one_page_cases [where lp = lp and pin = pin])
  case (Taken c s')
  have "cm_inv s'" using taken_inv [OF assms(1) _ _ _ Taken(5)] Taken(2) by blast
  moreover have "\<exists>c. spare s c" using Taken(2) by blast
  ultimately show ?thesis using Taken by (simp only: if_False if_True) blast
next
  case Panic
  then show ?thesis by auto
qed auto

text \<open>C33: \<^verbatim>\<open>coremap_free\<close> (\<^verbatim>\<open>coremap.c\<close>) of a user page frees this page alone: afterwards no user address is mapped to it, all other
  translations and all other pages are as before, the page stays pinned if it was, and the coremap is consistent. Of a run of kernel
  pages it frees exactly the run.\<close>

theorem coremap_free_correct:
  assumes "cm_inv s"
  shows "(tlb_inv s \<and> c < num_coremap_entries s \<and> cm_allocated (coremap s ! c) \<and> \<not> cm_kernel (coremap s ! c) \<longrightarrow>
      (\<exists>s'. coremap_free (cpage s c) False s = Some s' \<and> tlb_inv s' \<and> cm_inv s' \<and>
        coremap s' = (coremap s)[c := (coremap s ! c)\<lparr>cm_tlbix := -1, cm_allocated := False, cm_lp := None\<rparr>] \<and>
        (\<forall>v < 0x80000000. tlb_translate (cm_tlb s') v = (case tlb_translate (cm_tlb s) v of Some (pa, w) \<Rightarrow> if pa = cpage s c then None else Some (pa, w) | None \<Rightarrow> None)))) \<and>
    (run_at (coremap s) c k \<longrightarrow>
      (\<exists>s'. coremap_free (cpage s c) True s = Some s' \<and> cm_inv s' \<and> unmarked c k (coremap s) (coremap s') \<and>
        (\<forall>d l. run_at (coremap s') d l \<longleftrightarrow> run_at (coremap s) d l \<and> d \<noteq> c)))"
proof (intro conjI impI)
  assume "tlb_inv s \<and> c < num_coremap_entries s \<and> cm_allocated (coremap s ! c) \<and> \<not> cm_kernel (coremap s ! c)"
  then show "\<exists>s'. coremap_free (cpage s c) False s = Some s' \<and> tlb_inv s' \<and> cm_inv s' \<and>
        coremap s' = (coremap s)[c := (coremap s ! c)\<lparr>cm_tlbix := -1, cm_allocated := False, cm_lp := None\<rparr>] \<and>
        (\<forall>v < 0x80000000. tlb_translate (cm_tlb s') v = (case tlb_translate (cm_tlb s) v of Some (pa, w) \<Rightarrow> if pa = cpage s c then None else Some (pa, w) | None \<Rightarrow> None))"
    using coremap_free_user [OF _ assms] by blast
next
  assume "run_at (coremap s) c k"
  from coremap_free_run [OF assms this] obtain es where
    "coremap_free (cpage s c) True s = Some (s\<lparr>coremap := es, num_coremap_kernel := num_coremap_kernel s - k, num_coremap_free := num_coremap_free s + k\<rparr>)"
    "cm_inv (s\<lparr>coremap := es, num_coremap_kernel := num_coremap_kernel s - k, num_coremap_free := num_coremap_free s + k\<rparr>)" "unmarked c k (coremap s) es"
    "\<forall>d l. run_at es d l \<longleftrightarrow> run_at (coremap s) d l \<and> d \<noteq> c" by blast
  then show "\<exists>s'. coremap_free (cpage s c) True s = Some s' \<and> cm_inv s' \<and> unmarked c k (coremap s) (coremap s') \<and>
        (\<forall>d l. run_at (coremap s') d l \<longleftrightarrow> run_at (coremap s) d l \<and> d \<noteq> c)" by auto
qed

text \<open>C34: The kernel heap (\<^verbatim>\<open>kern/lib/kheap.c\<close>) over \<^verbatim>\<open>coremap.c\<close>, in a kernel without processes: as long as every page is free or a kernel
  page, no page is pinned, the paging lock is free and there are at least 8 pages (\<open>core_ok\<close>, which both routines keep). With user pages the contract does
  not hold, since then \<^verbatim>\<open>kmalloc\<close> can loop for ever or panic, as the theorems on the page allocators say. \<^verbatim>\<open>kmalloc\<close> of a size whose rounding to pages
  does not wrap around always returns, with a new block that is large enough and overlaps no other, or \<open>0\<close>; \<^verbatim>\<open>kfree\<close> takes back
  exactly its block; the contents of all other blocks stay. Within a page of \<open>2\<^sup>3\<^sup>2\<close> bytes the rounding wraps around to no pages at all, for
  which \<^verbatim>\<open>alloc_kpages\<close> hands out one: the caller gets a block of 4096 bytes.\<close>

theorem coremap_heap_correct:
  assumes "heap_inv core_ok core_runs h"
  shows "(sz + 4095 < 2 ^ 32 \<longrightarrow>
      (\<exists>a h'. kmalloc_heap core_kpages sz h = Some (a, h') \<and> heap_inv core_ok core_runs h' \<and> gives_block core_runs sz h a h')) \<and>
    ((a, n) \<in> blocks core_runs h \<longrightarrow>
      (\<exists>h'. kfree core_kpages a h = Some h' \<and> heap_inv core_ok core_runs h' \<and> blocks core_runs h' = blocks core_runs h - {(a, n)} \<and>
        same_words (blocks core_runs h') (h_mem h) (h_mem h'))) \<and>
    (sz < 2 ^ 32 \<and> 2 ^ 32 \<le> sz + 4095 \<and> \<not> piggish_kernel 1 (h_w h) \<longrightarrow>
      (\<exists>a h'. kmalloc_heap core_kpages sz h = Some (a, h') \<and> a \<noteq> 0 \<and> blocks core_runs h' = insert (a, 4096) (blocks core_runs h)))"
proof (intro conjI impI)
  assume "sz + 4095 < 2 ^ 32"
  from ck.kmalloc_law [OF assms this] show "\<exists>a h'. kmalloc_heap core_kpages sz h = Some (a, h') \<and> heap_inv core_ok core_runs h' \<and> gives_block core_runs sz h a h'" .
next
  assume "(a, n) \<in> blocks core_runs h"
  from ck.kfree_law [OF assms this] obtain h' where h': "kfree core_kpages a h = Some h'" "heap_inv core_ok core_runs h'" "blocks core_runs h' = blocks core_runs h - {(a, n)}"
    "same_words (blocks core_runs h - {(a, n)}) (h_mem h) (h_mem h')" by (elim exE conjE)
  then show "\<exists>h'. kfree core_kpages a h = Some h' \<and> heap_inv core_ok core_runs h' \<and> blocks core_runs h' = blocks core_runs h - {(a, n)} \<and>
        same_words (blocks core_runs h') (h_mem h) (h_mem h')" by (intro exI [of _ h']) simp
next
  assume sz: "sz < 2 ^ 32 \<and> 2 ^ 32 \<le> sz + 4095 \<and> \<not> piggish_kernel 1 (h_w h)"
  show "\<exists>a h'. kmalloc_heap core_kpages sz h = Some (a, h') \<and> a \<noteq> 0 \<and> blocks core_runs h' = insert (a, 4096) (blocks core_runs h)"
    using core_kmalloc_wrap [OF assms] sz by blast
qed

section \<open>Examples\<close>

text \<open>Sixteen pages, all free or all given to users.\<close>

definition demo_core :: "bool \<Rightarrow> cmsys" where
  "demo_core u = demo_mmu\<lparr>coremap := replicate 16 \<lparr>cm_lp = (if u then Some 7 else None), cm_tlbix = -1, cm_kernel = False, cm_notlast = False, cm_allocated = u, cm_pinned = False\<rparr>,
     num_coremap_user := (if u then 16 else 0), num_coremap_free := (if u then 0 else 16)\<rparr>"

lemma demo_core_inv: "cm_inv (demo_core u)" "\<not> paging_lock (demo_core u)" "\<not> piggish_kernel 3 (demo_core u)" "\<not> piggish_kernel 1 (demo_core u)"
proof -
  have "pages_of P (replicate 16 e) = (if P e then {..<16} else {})" for P e by (auto simp: pages_of_def)
  then show "cm_inv (demo_core u)" by (simp add: demo_core_def demo_mmu_def cm_inv_def ram_fits_def entry_inv_def chained_def)
qed (simp_all add: demo_core_def demo_mmu_def piggish_kernel_def u32_def)

lemma demo_core_tlb: "tlb_inv (demo_core u)"
proof (rule tlb_invI)
  have d: "nexttlb demo_mmu = 0" "cm_tlb (demo_core u) = cm_tlb demo_mmu" by (simp_all add: demo_core_def demo_mmu_def)
  note i = demo_mmu_inv [unfolded tlb_inv_def]
  show "entry_ok (demo_core u) j" if "j < 64" for j using i that d unfolding entry_ok_def by (auto split: if_split_asm)
  show "tlb_unique (cm_tlb (demo_core u))" "length (cm_tlb (demo_core u)) = 64" using i d(2) by simp_all
qed (simp_all add: demo_core_def demo_mmu_def ram_fits_def page_ok_def)

lemma demo_core_best: "best_block (coremap (demo_core u)) 3 (num_coremap_entries (demo_core u)) (Some 0)" "evictions (coremap (demo_core u)) 0 (0 + 3) = (if u then 3 else 0)"
proof -
  have ev: "evictions (coremap (demo_core u)) b (b + 3) = (if u then 3 else 0)" if "b + 3 \<le> 16" for b
  proof -
    have "{p. b \<le> p \<and> p < b + 3 \<and> cm_allocated (coremap (demo_core u) ! p)} = (if u then {b..<b + 3} else {})" using that by (auto simp: demo_core_def)
    then show ?thesis by (simp add: evictions_def)
  qed
  from ev [of 0] show "evictions (coremap (demo_core u)) 0 (0 + 3) = (if u then 3 else 0)" by simp
  show "best_block (coremap (demo_core u)) 3 (num_coremap_entries (demo_core u)) (Some 0)"
    using ev ev [of 0] by (auto simp: best_block_def blocks_to_def barred_def demo_core_def)
qed

theorem coremap_alloc_multipages_correct_witness:
  "(\<exists>s'. coremap_alloc_multipages 3 (demo_core False) = Some (4096, s') \<and> run_taken 0 3 (demo_core False) s') \<and> coremap_alloc_multipages 3 (demo_core True) = None"
proof -
  have n: "1 < (3 :: nat)" "3 < (2 :: nat) ^ 30" by simp_all
  have base: "cpage (demo_core u) 0 = 4096" "\<not> in_interrupt (demo_core u)" for u by (simp_all add: demo_core_def demo_mmu_def)
  have "if evictions (coremap (demo_core u)) 0 (0 + 3) = 0 then \<exists>s'. coremap_alloc_multipages 3 (demo_core u) = Some (cpage (demo_core u) 0, s') \<and> run_taken 0 3 (demo_core u) s'
           else coremap_alloc_multipages 3 (demo_core u) = (if in_interrupt (demo_core u) then Some (0, demo_core u) else None)" for u
  proof -
    from coremap_alloc_multipages_correct [OF demo_core_inv(1,2) n, of u, unfolded if_not_P [OF demo_core_inv(3)]] obtain r where
      r: "best_block (coremap (demo_core u)) 3 (num_coremap_entries (demo_core u)) r" "case r of None \<Rightarrow> coremap_alloc_multipages 3 (demo_core u) = Some (0, demo_core u)
       | Some b \<Rightarrow> if evictions (coremap (demo_core u)) b (b + 3) = 0 then \<exists>s'. coremap_alloc_multipages 3 (demo_core u) = Some (cpage (demo_core u) b, s') \<and> run_taken b 3 (demo_core u) s'
           else coremap_alloc_multipages 3 (demo_core u) = (if in_interrupt (demo_core u) then Some (0, demo_core u) else None)" by (elim exE conjE)
    from best_block_unique [OF r(1) demo_core_best(1)] r(2) show ?thesis by (simp only: option.case)
  qed
  from this [of False] this [of True] show ?thesis unfolding demo_core_best(2) base by (simp add: base)
qed

theorem coremap_alloc_one_page_correct_witness:
  "(\<exists>s'. coremap_alloc_one_page (Some 7) True (demo_core False) = Some (0x10000, s') \<and> cm_inv s') \<and> coremap_alloc_one_page None False (demo_core True) = None"
proof
  have sp: "spare (demo_core False) c \<longleftrightarrow> c < 16" for c by (auto simp: demo_core_def)
  have "spare (demo_core False) 0" unfolding sp by simp
  then have ex: "\<exists>c. spare (demo_core False) c" by (rule exI)
  have np: "\<not> (Some 7 = (None :: nat option) \<and> piggish_kernel 1 (demo_core False))" by simp
  from coremap_alloc_one_page_correct [OF demo_core_inv(1) [of False] demo_core_inv(2) [of False], where lp = "Some 7" and pin = True, unfolded if_not_P [OF np] if_P [OF ex]] obtain c s' where c: "spare (demo_core False) c"
    "\<forall>d. c < d \<longrightarrow> \<not> spare (demo_core False) d" "coremap_alloc_one_page (Some 7) True (demo_core False) = Some (cpage (demo_core False) c, s')" "cm_inv s'" by (elim exE conjE) (rule that, intro conjI)
  have "c < 16" "\<not> c < 15" using c(1) spec [OF c(2), of 15] unfolding sp by auto
  then have "cpage (demo_core False) c = 0x10000" by (simp add: demo_core_def demo_mmu_def)
  with c show "\<exists>s'. coremap_alloc_one_page (Some 7) True (demo_core False) = Some (0x10000, s') \<and> cm_inv s'" by auto
  have no: "\<not> (\<exists>c. spare (demo_core True) c)" "\<not> in_interrupt (demo_core True)" by (auto simp: demo_core_def demo_mmu_def)
  have np': "\<not> (None = (None :: nat option) \<and> piggish_kernel 1 (demo_core True))" using demo_core_inv(4) by blast
  from coremap_alloc_one_page_correct [OF demo_core_inv(1) [of True] demo_core_inv(2) [of True], where lp = None and pin = False, unfolded if_not_P [OF np'] if_not_P [OF no(1)]]
  show "coremap_alloc_one_page None False (demo_core True) = None" unfolding if_not_P [OF no(2)] .
qed

lemma demo_core_run: "\<exists>s'. coremap_alloc_multipages 3 (demo_core False) = Some (4096, s') \<and> run_taken 0 3 (demo_core False) s'"
proof -
  have n: "1 < (3 :: nat)" "3 < (2 :: nat) ^ 30" by simp_all
  have base: "cpage (demo_core False) 0 = 4096" by (simp add: demo_core_def demo_mmu_def)
  from demo_core_inv(1,2) n show ?thesis
  proof (cases rule: multi_page_cases [of "demo_core False" 3])
    case (Taken b s')
    from best_block_unique [OF Taken(2) demo_core_best(1)] have "b = 0" by simp
    with Taken(4,5) base show ?thesis by auto
  next
    case Full
    then show ?thesis using demo_core_best(1) [of False] by (simp add: best_block_def)
  next
    case (Interrupt b)
    from best_block_unique [OF Interrupt(2) demo_core_best(1)] Interrupt(3) demo_core_best(2) [of False] show ?thesis by simp
  next
    case (Stuck b)
    from best_block_unique [OF Stuck(2) demo_core_best(1)] Stuck(3) demo_core_best(2) [of False] show ?thesis by simp
  qed (use demo_core_inv(3) in simp)
qed

theorem coremap_free_correct_witness:
  "(\<exists>s'. coremap_free 0x4000 False (demo_core True) = Some s' \<and> cm_inv s' \<and> \<not> cm_allocated (coremap s' ! 3)) \<and>
   (\<exists>s s'. coremap_alloc_multipages 3 (demo_core False) = Some (4096, s) \<and> coremap_free 4096 True s = Some s' \<and> (\<forall>l. \<not> run_at (coremap s') 0 l))"
proof
  have c: "tlb_inv (demo_core True) \<and> 3 < num_coremap_entries (demo_core True) \<and> cm_allocated (coremap (demo_core True) ! 3) \<and> \<not> cm_kernel (coremap (demo_core True) ! 3)"
    by (intro conjI demo_core_tlb) (simp_all add: demo_core_def)
  have pg: "cpage (demo_core True) 3 = 0x4000" by (simp add: demo_core_def demo_mmu_def)
  from mp [OF conjunct1 [OF coremap_free_correct [OF demo_core_inv(1)]] c, unfolded pg] obtain s' where "coremap_free 0x4000 False (demo_core True) = Some s'" "cm_inv s'"
    "coremap s' = (coremap (demo_core True))[3 := (coremap (demo_core True) ! 3)\<lparr>cm_tlbix := -1, cm_allocated := False, cm_lp := None\<rparr>]" by (elim exE conjE)
  then show "\<exists>s'. coremap_free 0x4000 False (demo_core True) = Some s' \<and> cm_inv s' \<and> \<not> cm_allocated (coremap s' ! 3)" using c by (intro exI [of _ s']) simp
  have n: "1 < (3 :: nat)" "3 < (2 :: nat) ^ 30" by simp_all
  from demo_core_run obtain s where s: "coremap_alloc_multipages 3 (demo_core False) = Some (4096, s)" "run_taken 0 3 (demo_core False) s" by blast
  then have inv: "cm_inv s" "run_at (coremap s) 0 3" "cpage s 0 = 4096" by (auto simp: run_taken_def demo_core_def demo_mmu_def)
  from mp [OF conjunct2 [OF coremap_free_correct [OF inv(1)]] inv(2), unfolded inv(3)] obtain s' where s': "coremap_free 4096 True s = Some s'"
    "\<forall>d l. run_at (coremap s') d l \<longleftrightarrow> run_at (coremap s) d l \<and> d \<noteq> 0" by (elim exE conjE)
  then have "\<forall>l. \<not> run_at (coremap s') 0 l" by simp
  with s s' show "\<exists>s s'. coremap_alloc_multipages 3 (demo_core False) = Some (4096, s) \<and> coremap_free 4096 True s = Some s' \<and> (\<forall>l. \<not> run_at (coremap s') 0 l)" by blast
qed

definition core_heap :: "cmsys kheap" where
  "core_heap = heap_init (\<lambda>_. 0) (demo_core False)"

lemma core_heap_ok: "heap_inv core_ok core_runs core_heap" "\<not> piggish_kernel 1 (h_w core_heap)"
proof -
  have w: "h_w core_heap = demo_core False" by (simp add: core_heap_def heap_init_def)
  have "core_ok (demo_core False)" unfolding core_ok_def by (intro conjI demo_core_inv) (simp_all add: kern_only_def demo_core_def)
  then show "heap_inv core_ok core_runs core_heap" using w by (simp add: heap_inv_def core_heap_def heap_init_ok)
  show "\<not> piggish_kernel 1 (h_w core_heap)" unfolding w by (rule demo_core_inv(4))
qed

theorem coremap_heap_correct_witness:
  "(\<exists>a h. kmalloc_heap core_kpages 5000 core_heap = Some (a, h) \<and> heap_inv core_ok core_runs h \<and>
     (a = 0 \<or> (\<exists>n h'. 5000 \<le> n \<and> kfree core_kpages a h = Some h' \<and> blocks core_runs h' = blocks core_runs h - {(a, n)}))) \<and>
   (\<exists>a h. kmalloc_heap core_kpages 4294967295 core_heap = Some (a, h) \<and> a \<noteq> 0 \<and> blocks core_runs h = insert (a, 4096) (blocks core_runs core_heap))"
proof
  have sz: "5000 + 4095 < (2 :: nat) ^ 32" "4294967295 < (2 :: nat) ^ 32 \<and> 2 ^ 32 \<le> 4294967295 + (4095 :: nat) \<and> \<not> piggish_kernel 1 (h_w core_heap)"
    using core_heap_ok(2) by simp_all
  note c = coremap_heap_correct [OF core_heap_ok(1)]
  from mp [OF conjunct1 [OF c] sz(1)] obtain a h where h: "kmalloc_heap core_kpages 5000 core_heap = Some (a, h)" "heap_inv core_ok core_runs h" "gives_block core_runs 5000 core_heap a h" by (elim exE conjE)
  have "\<exists>n h'. 5000 \<le> n \<and> kfree core_kpages a h = Some h' \<and> blocks core_runs h' = blocks core_runs h - {(a, n)}" if "a \<noteq> 0"
  proof -
    from h(3) that obtain n where n: "5000 \<le> n" "(a, n) \<in> blocks core_runs h" by (auto simp: gives_block_def)
    from mp [OF conjunct1 [OF conjunct2 [OF coremap_heap_correct [OF h(2)]]] n(2)] n(1) show ?thesis by blast
  qed
  then have f: "a = 0 \<or> (\<exists>n h'. 5000 \<le> n \<and> kfree core_kpages a h = Some h' \<and> blocks core_runs h' = blocks core_runs h - {(a, n)})" by blast
  show "\<exists>a h. kmalloc_heap core_kpages 5000 core_heap = Some (a, h) \<and> heap_inv core_ok core_runs h \<and>
     (a = 0 \<or> (\<exists>n h'. 5000 \<le> n \<and> kfree core_kpages a h = Some h' \<and> blocks core_runs h' = blocks core_runs h - {(a, n)}))"
    by (intro exI [of _ a] exI [of _ h] conjI h(1,2) f)
  show "\<exists>a h. kmalloc_heap core_kpages 4294967295 core_heap = Some (a, h) \<and> a \<noteq> 0 \<and> blocks core_runs h = insert (a, 4096) (blocks core_runs core_heap)"
    by (rule mp [OF conjunct2 [OF conjunct2 [OF c]] sz(2)])
qed

end
