(* ===== verification/K_Swap.thy ===== *)
theory K_Swap
  imports K_Coremap_Heap
begin

text \<open>
  Swap space, \<^verbatim>\<open>kern/vm/swap.c\<close>: a bit map of the pages of the swap disk, with pages reserved before they are allocated, and
  the transfer of pages between memory and disk.

  The disk is seen through what the calls of the vnode give: \<open>swap_results\<close> are the results of the next calls of \<^verbatim>\<open>VOP_READ\<close> and
  \<^verbatim>\<open>VOP_WRITE\<close> (an empty list is success), and a call that succeeds has moved the page. \<open>swaplock\<close> tells whether the lock is held.
\<close>

section \<open>The code\<close>

abbreviation (input) INVALID_SWAPADDR :: int where "INVALID_SWAPADDR \<equiv> 0"

record swapsys =
  swapmap :: bitmap
  swaplock :: bool
  swap_total_pages :: nat
  swap_free_pages :: nat
  swap_reserved_pages :: nat
  swapstore :: "nat \<Rightarrow> byte"
  swap_results :: "nat list"

text \<open>\<open>rv\<close> and \<open>st_size\<close> are what \<^verbatim>\<open>vfs_open\<close> and \<^verbatim>\<open>VOP_STAT\<close> return. \<^verbatim>\<open>lock_create\<close> allocates the lock and its name.\<close>

definition swap_bootstrap :: "nat \<Rightarrow> nat \<Rightarrow> int \<Rightarrow> kmem \<Rightarrow> swapsys \<Rightarrow> (swapsys \<times> kmem) option" where
  "swap_bootstrap pmemsize rv st_size m s = do {
     kassert (rv = 0);
     let minsize = off32 (int (pmemsize * 10 mod 2 ^ 32));
     kassert (\<not> st_size < minsize);
     let pages = u32 (st_size div int PAGE_SIZE);
     (bm, m) \<leftarrow> bitmap_create pages m;
     case bm of
       None \<Rightarrow> None
     | Some b \<Rightarrow> do {
         let (ok, m) = kmalloc m;
         kassert ok;
         let (ok, m) = kmalloc m;
         kassert ok;
         b \<leftarrow> bitmap_mark b 0;
         Some (s\<lparr>swap_total_pages := pages, swap_free_pages := u32 (int pages - 1), swap_reserved_pages := 0, swapmap := b, swaplock := False\<rparr>, m)
       }
   }"

definition swap_acquire :: "swapsys \<Rightarrow> swapsys option" where
  "swap_acquire s = do { kassert (\<not> swaplock s); Some (s\<lparr>swaplock := True\<rparr>) }"

definition swap_release :: "swapsys \<Rightarrow> swapsys option" where
  "swap_release s = do { kassert (swaplock s); Some (s\<lparr>swaplock := False\<rparr>) }"

definition swap_alloc :: "swapsys \<Rightarrow> (int \<times> swapsys) option" where
  "swap_alloc s = do {
     s \<leftarrow> swap_acquire s;
     kassert (swap_free_pages s \<le> swap_total_pages s);
     kassert (swap_reserved_pages s \<le> swap_free_pages s);
     kassert (swap_reserved_pages s > 0);
     kassert (swap_free_pages s > 0);
     (r, b) \<leftarrow> bitmap_alloc (swapmap s);
     case r of
       Inl e \<Rightarrow> None
     | Inr index \<Rightarrow> do {
         let s = s\<lparr>swapmap := b, swap_reserved_pages := swap_reserved_pages s - 1, swap_free_pages := swap_free_pages s - 1\<rparr>;
         s \<leftarrow> swap_release s;
         Some (off32 (int (index * PAGE_SIZE mod 2 ^ 32)), s)
       }
   }"

definition swap_free :: "int \<Rightarrow> swapsys \<Rightarrow> swapsys option" where
  "swap_free swapaddr s = do {
     kassert (swapaddr \<noteq> INVALID_SWAPADDR);
     kassert (swapaddr mod int PAGE_SIZE = 0);
     let index = u32 (swapaddr div int PAGE_SIZE);
     s \<leftarrow> swap_acquire s;
     kassert (swap_free_pages s < swap_total_pages s);
     kassert (swap_reserved_pages s \<le> swap_free_pages s);
     set \<leftarrow> bitmap_isset (swapmap s) index;
     kassert set;
     b \<leftarrow> bitmap_unmark (swapmap s) index;
     let s = s\<lparr>swapmap := b, swap_free_pages := (swap_free_pages s + 1) mod 2 ^ 32\<rparr>;
     swap_release s
   }"

definition swap_reserve :: "nat \<Rightarrow> swapsys \<Rightarrow> (unit res \<times> swapsys) option" where
  "swap_reserve npages s = do {
     s \<leftarrow> swap_acquire s;
     kassert (swap_free_pages s \<le> swap_total_pages s);
     kassert (swap_reserved_pages s \<le> swap_free_pages s);
     if swap_free_pages s - swap_reserved_pages s < npages then do { s \<leftarrow> swap_release s; Some (Inl ENOMEM, s) }
     else do {
       let s = s\<lparr>swap_reserved_pages := (swap_reserved_pages s + npages) mod 2 ^ 32\<rparr>;
       kassert (swap_free_pages s \<le> swap_total_pages s);
       kassert (swap_reserved_pages s \<le> swap_free_pages s);
       s \<leftarrow> swap_release s;
       Some (Inr (), s)
     }
   }"

definition swap_unreserve :: "nat \<Rightarrow> swapsys \<Rightarrow> swapsys option" where
  "swap_unreserve npages s = do {
     s \<leftarrow> swap_acquire s;
     kassert (swap_free_pages s \<le> swap_total_pages s);
     kassert (swap_reserved_pages s \<le> swap_free_pages s);
     kassert (npages \<le> swap_reserved_pages s);
     swap_release (s\<lparr>swap_reserved_pages := swap_reserved_pages s - npages\<rparr>)
   }"

text \<open>A page in memory starts at its physical address, which the kernel sees at \<^verbatim>\<open>PADDR_TO_KVADDR\<close>.\<close>

definition swap_io :: "nat \<Rightarrow> int \<Rightarrow> bool \<Rightarrow> cmsys \<Rightarrow> swapsys \<Rightarrow> (cmsys \<times> swapsys) option" where
  "swap_io pa swapaddr reading c s = do {
     kassert (paging_lock c);
     kassert (pa \<noteq> INVALID_PADDR);
     kassert (swapaddr mod int PAGE_SIZE = 0);
     pinned \<leftarrow> coremap_pageispinned pa c;
     kassert pinned;
     set \<leftarrow> bitmap_isset (swapmap s) (u32 (swapaddr div int PAGE_SIZE));
     kassert set;
     let result = (case swap_results s of [] \<Rightarrow> 0 | r # rs \<Rightarrow> r);
     let s = s\<lparr>swap_results := tl (swap_results s)\<rparr>;
     kassert (result = 0);
     if reading then Some (c\<lparr>cm_ram := (\<lambda>x. if pa \<le> x \<and> x < pa + PAGE_SIZE then swapstore s (nat swapaddr + (x - pa)) else cm_ram c x)\<rparr>, s)
     else Some (c, s\<lparr>swapstore := (\<lambda>x. if nat swapaddr \<le> x \<and> x < nat swapaddr + PAGE_SIZE then cm_ram c (pa + (x - nat swapaddr)) else swapstore s x)\<rparr>)
   }"

definition swap_pagein :: "nat \<Rightarrow> int \<Rightarrow> cmsys \<Rightarrow> swapsys \<Rightarrow> (cmsys \<times> swapsys) option" where
  "swap_pagein pa swapaddr c s = swap_io pa swapaddr True c s"

definition swap_pageout :: "nat \<Rightarrow> int \<Rightarrow> cmsys \<Rightarrow> swapsys \<Rightarrow> (cmsys \<times> swapsys) option" where
  "swap_pageout pa swapaddr c s = swap_io pa swapaddr False c s"

section \<open>Accounting\<close>

text \<open>The pages that are allocated; page 0 is never handed out.\<close>

definition swap_taken :: "swapsys \<Rightarrow> nat set" where
  "swap_taken s = bitmap_set (swapmap s) - {0}"

definition swap_inv :: "swapsys \<Rightarrow> bool" where
  "swap_inv s \<longleftrightarrow> bitmap_inv (swapmap s) \<and> nbits (swapmap s) = swap_total_pages s \<and> 0 \<in> bitmap_set (swapmap s) \<and> swap_total_pages s \<le> 2 ^ 19 \<and>
     swap_free_pages s = swap_total_pages s - card (bitmap_set (swapmap s)) \<and> swap_reserved_pages s \<le> swap_free_pages s \<and> \<not> swaplock s"

lemma swap_bitmap:
  assumes "swap_inv s"
  shows "finite (bitmap_set (swapmap s))" and "card (bitmap_set (swapmap s)) = card (swap_taken s) + 1" and "card (bitmap_set (swapmap s)) \<le> swap_total_pages s"
    and "finite (swap_taken s)"
proof -
  have sub: "bitmap_set (swapmap s) \<subseteq> {..<swap_total_pages s}" using assms kbm.taken_law [of "swapmap s"] by (simp add: swap_inv_def)
  then show fin: "finite (bitmap_set (swapmap s))" by (rule finite_subset) simp
  then show "finite (swap_taken s)" by (simp add: swap_taken_def)
  have "0 \<in> bitmap_set (swapmap s)" using assms by (simp add: swap_inv_def)
  then show "card (bitmap_set (swapmap s)) = card (swap_taken s) + 1" using fin card_Suc_Diff1 [of "bitmap_set (swapmap s)" 0] by (simp add: swap_taken_def)
  show "card (bitmap_set (swapmap s)) \<le> swap_total_pages s" using card_mono [OF _ sub] by simp
qed

text \<open>Pages that are neither allocated nor reserved.\<close>

definition swap_avail :: "swapsys \<Rightarrow> nat" where
  "swap_avail s = swap_free_pages s - swap_reserved_pages s"

lemma swap_lock_free: "\<not> swaplock s \<Longrightarrow> s\<lparr>swaplock := False\<rparr> = s"
  by (cases s) simp

lemma swap_reserve_ok:
  assumes "swap_inv s"
  shows "swap_reserve n s = (if swap_avail s < n then Some (Inl ENOMEM, s) else Some (Inr (), s\<lparr>swap_reserved_pages := swap_reserved_pages s + n\<rparr>))"
    and "n \<le> swap_avail s \<Longrightarrow> swap_inv (s\<lparr>swap_reserved_pages := swap_reserved_pages s + n\<rparr>)"
proof -
  have i: "\<not> swaplock s" "swap_free_pages s \<le> swap_total_pages s" "swap_reserved_pages s \<le> swap_free_pages s" "swap_free_pages s \<le> 2 ^ 19" using assms by (auto simp: swap_inv_def)
  show "swap_reserve n s = (if swap_avail s < n then Some (Inl ENOMEM, s) else Some (Inr (), s\<lparr>swap_reserved_pages := swap_reserved_pages s + n\<rparr>))"
    using i swap_lock_free [OF i(1)] by (cases s) (auto simp: swap_reserve_def swap_acquire_def swap_release_def swap_avail_def Let_def)
  show "n \<le> swap_avail s \<Longrightarrow> swap_inv (s\<lparr>swap_reserved_pages := swap_reserved_pages s + n\<rparr>)" using assms by (auto simp: swap_inv_def swap_avail_def)
qed

lemma swap_unreserve_ok:
  assumes "swap_inv s" and "n \<le> swap_reserved_pages s"
  shows "swap_unreserve n s = Some (s\<lparr>swap_reserved_pages := swap_reserved_pages s - n\<rparr>)" and "swap_inv (s\<lparr>swap_reserved_pages := swap_reserved_pages s - n\<rparr>)"
proof -
  have "\<not> swaplock s" "swap_free_pages s \<le> swap_total_pages s" "swap_reserved_pages s \<le> swap_free_pages s" using assms by (auto simp: swap_inv_def)
  then show "swap_unreserve n s = Some (s\<lparr>swap_reserved_pages := swap_reserved_pages s - n\<rparr>)"
    using assms(2) by (cases s) (simp add: swap_unreserve_def swap_acquire_def swap_release_def)
  show "swap_inv (s\<lparr>swap_reserved_pages := swap_reserved_pages s - n\<rparr>)" using assms by (auto simp: swap_inv_def)
qed

lemma swap_page:
  assumes "swap_inv s" and "k \<in> swap_taken s"
  shows "0 < k" and "k < swap_total_pages s" and "int (k * 4096) mod 4096 = 0" and "u32 (int (k * 4096) div 4096) = k" and "bitmap_isset (swapmap s) k = Some True"
proof -
  have k: "k \<in> bitmap_set (swapmap s)" "k \<noteq> 0" using assms(2) by (auto simp: swap_taken_def)
  then show "0 < k" by simp
  show lt: "k < swap_total_pages s" using k kbm.taken_law [of "swapmap s"] assms(1) by (auto simp: swap_inv_def)
  show "int (k * 4096) mod 4096 = 0" by (simp add: mult.commute)
  show "u32 (int (k * 4096) div 4096) = k" using lt assms(1) by (simp add: swap_inv_def)
  show "bitmap_isset (swapmap s) k = Some True" using kbm.isset_law [of "swapmap s" k] k lt assms(1) by (simp add: swap_inv_def)
qed

text \<open>What changes when page \<open>k\<close> is allocated or given back.\<close>

definition swap_takes :: "nat \<Rightarrow> swapsys \<Rightarrow> swapsys \<Rightarrow> bool" where
  "swap_takes k s s' \<longleftrightarrow> (\<exists>b. s' = s\<lparr>swapmap := b, swap_reserved_pages := swap_reserved_pages s - 1, swap_free_pages := swap_free_pages s - 1\<rparr>) \<and>
     swap_inv s' \<and> k \<notin> swap_taken s \<and> swap_taken s' = insert k (swap_taken s)"

definition swap_gives :: "nat \<Rightarrow> swapsys \<Rightarrow> swapsys \<Rightarrow> bool" where
  "swap_gives k s s' \<longleftrightarrow> (\<exists>b. s' = s\<lparr>swapmap := b, swap_free_pages := swap_free_pages s + 1\<rparr>) \<and> swap_inv s' \<and> swap_taken s' = swap_taken s - {k}"

lemma swap_alloc_ok:
  assumes inv: "swap_inv s" and r: "0 < swap_reserved_pages s"
  shows "\<exists>k s'. swap_alloc s = Some (int (k * 4096), s') \<and> 0 < k \<and> swap_takes k s s'"
proof -
  note bm = swap_bitmap [OF inv]
  have i: "bitmap_inv (swapmap s)" "nbits (swapmap s) = swap_total_pages s" "0 \<in> bitmap_set (swapmap s)" "swap_total_pages s \<le> 2 ^ 19"
    "swap_free_pages s = swap_total_pages s - card (bitmap_set (swapmap s))" "swap_reserved_pages s \<le> swap_free_pages s" "\<not> swaplock s" using inv by (simp_all add: swap_inv_def)
  have "card (bitmap_set (swapmap s)) \<noteq> swap_total_pages s" using r i(5,6) by simp
  then have nf: "bitmap_set (swapmap s) \<noteq> {..<nbits (swapmap s)}" using i(2) by (metis card_lessThan)
  from kbm.alloc_total [OF i(1)] obtain rb b where rb: "bitmap_alloc (swapmap s) = Some (rb, b)" by (elim exE)
  obtain k where ki: "rb = Inr k" using kbm.alloc_Inl [OF i(1)] rb nf by (cases rb) auto
  note ka = rb [unfolded ki]
  have k: "bitmap_alloc (swapmap s) = Some (Inr k, b)" "k < nbits (swapmap s)" "k \<notin> bitmap_set (swapmap s)" "bitmap_inv b"
    "nbits b = nbits (swapmap s)" "bitmap_set b = insert k (bitmap_set (swapmap s))" using ka kbm.alloc_Inr [OF i(1) ka] by simp_all
  let ?s = "s\<lparr>swapmap := b, swap_reserved_pages := swap_reserved_pages s - 1, swap_free_pages := swap_free_pages s - 1\<rparr>"
  have k0: "0 < k" using k(3) i(3) by (cases k) auto
  have "k * 4096 < 2 ^ 31" using k(2) i(2,4) by simp
  then have "off32 (int (k * 4096 mod 2 ^ 32)) = int (k * 4096)" by simp
  then have "swap_alloc s = Some (int (k * 4096), ?s)" using r i(5-7) k(1) swap_lock_free [OF i(7)]
    by (cases s) (simp add: swap_alloc_def swap_acquire_def swap_release_def Let_def)
  moreover have "swap_inv ?s" using i k bm(1) r by (auto simp: swap_inv_def)
  moreover have "swap_taken ?s = insert k (swap_taken s)" "k \<notin> swap_taken s" using k(3,6) k0 by (auto simp: swap_taken_def)
  ultimately show ?thesis using k0 unfolding swap_takes_def by blast
qed

lemma swap_free_ok:
  assumes inv: "swap_inv s" and k: "k \<in> swap_taken s"
  shows "\<exists>s'. swap_free (int (k * 4096)) s = Some s' \<and> swap_gives k s s'"
proof -
  note bm = swap_bitmap [OF inv] and p = swap_page [OF inv k]
  have i: "bitmap_inv (swapmap s)" "0 \<in> bitmap_set (swapmap s)" "swap_total_pages s \<le> 2 ^ 19"
    "swap_free_pages s = swap_total_pages s - card (bitmap_set (swapmap s))" "swap_reserved_pages s \<le> swap_free_pages s" "\<not> swaplock s" using inv by (simp_all add: swap_inv_def)
  have ks: "k \<in> bitmap_set (swapmap s)" using k by (simp add: swap_taken_def)
  from kbm.free_law [OF i(1) ks] obtain b where b: "bitmap_unmark (swapmap s) k = Some b" "bitmap_inv b" "nbits b = nbits (swapmap s)" "bitmap_set b = bitmap_set (swapmap s) - {k}" by blast
  let ?s = "s\<lparr>swapmap := b, swap_free_pages := swap_free_pages s + 1\<rparr>"
  have pos: "0 < card (bitmap_set (swapmap s))" using bm(2) by simp
  then have lt: "swap_free_pages s < swap_total_pages s" "(swap_free_pages s + 1) mod 2 ^ 32 = swap_free_pages s + 1" using i(3,4) p(2) by auto
  have "swap_free (int (k * 4096)) s = Some ?s"
  proof -
    have "int (k * 4096) \<noteq> 0" using p(1) by simp
    then show ?thesis unfolding swap_free_def swap_acquire_def using p(3-5) lt i(5,6) b(1) swap_lock_free [OF i(6)]
      by (cases s) (simp add: swap_release_def Let_def del: of_nat_mult)
  qed
  moreover have "card (bitmap_set b) + 1 = card (bitmap_set (swapmap s))" using ks bm(1) card_Suc_Diff1 [of "bitmap_set (swapmap s)" k] b(4) by simp
  then have "swap_inv ?s" using inv b p(1) bm(3) by (auto simp: swap_inv_def)
  moreover have "swap_taken ?s = swap_taken s - {k}" using b(4) by (auto simp: swap_taken_def)
  ultimately show ?thesis unfolding swap_gives_def by blast
qed

lemma swap_bootstrap_ok:
  assumes call: "swap_bootstrap pm rv st m s = Some (s', m')" and st: "0 \<le> st" "st < 2 ^ 31"
  shows "swap_inv s' \<and> swap_taken s' = {} \<and> swap_reserved_pages s' = 0 \<and> swap_total_pages s' = nat st div 4096 \<and> swap_avail s' + 1 = nat st div 4096"
proof -
  have "u32 (st div 4096) = nat st div 4096" using st by (simp add: u32_def nat_div_distrib)
  with call obtain b m1 b' where b: "bitmap_create (nat st div 4096) m = Some (Some b, m1)" "bitmap_mark b 0 = Some b'"
    and s': "s' = s\<lparr>swap_total_pages := nat st div 4096, swap_free_pages := u32 (int (nat st div 4096) - 1), swap_reserved_pages := 0, swapmap := b', swaplock := False\<rparr>"
    by (auto simp: swap_bootstrap_def Let_def split: option.splits prod.splits elim!: bind_SomeE)
  have n: "nat st div 4096 + 7 < 2 ^ 32" "nat st div 4096 \<le> 2 ^ 19" using st by simp_all
  from bitmap_create_spec [OF b(1) n(1)] have c: "bitmap_inv b" "nbits b = nat st div 4096" "bitmap_set b = {}" by auto
  from bitmap_mark_ok [OF c(1) b(2)] c have d: "bitmap_inv b'" "nbits b' = nat st div 4096" "bitmap_set b' = {0}" "0 < nat st div 4096" by auto
  then have "u32 (int (nat st div 4096) - 1) = nat st div 4096 - 1" using n by (simp add: u32_def nat_diff_distrib)
  then show ?thesis using d n unfolding s' by (simp add: swap_inv_def swap_taken_def swap_avail_def)
qed

lemma swap_accounts: "swap_inv s \<Longrightarrow> card (swap_taken s) + swap_reserved_pages s + swap_avail s + 1 = swap_total_pages s"
proof -
  assume i: "swap_inv s"
  then have "swap_free_pages s = swap_total_pages s - card (bitmap_set (swapmap s))" "swap_reserved_pages s \<le> swap_free_pages s" by (simp_all add: swap_inv_def)
  then show ?thesis using swap_bitmap(2,3) [OF i] unfolding swap_avail_def by linarith
qed

section \<open>Transfers\<close>

text \<open>A page that is written to swap and read back, into the same or another page of memory, has its contents; other pages of
  memory and of swap are not touched.\<close>

lemma swap_io_roundtrip:
  assumes inv: "swap_inv s" and k: "k \<in> swap_taken s" and c: "ram_fits cm" "0 < base_coremap_page cm" "paging_lock cm"
    and p: "i < num_coremap_entries cm" "j < num_coremap_entries cm" "cm_pinned (coremap cm ! i)" "cm_pinned (coremap cm ! j)" and ok: "swap_results s = []"
  shows "\<exists>cm' s'. swap_pageout (cpage cm i) (int (k * 4096)) cm s = Some (cm, s') \<and> swap_pagein (cpage cm j) (int (k * 4096)) cm s' = Some (cm', s') \<and>
    (\<forall>x < 4096. cm_ram cm' (cpage cm j + x) = cm_ram cm (cpage cm i + x)) \<and> (\<forall>x. x div 4096 \<noteq> j + base_coremap_page cm \<longrightarrow> cm_ram cm' x = cm_ram cm x) \<and>
    (\<forall>x. x div 4096 \<noteq> k \<longrightarrow> swapstore s' x = swapstore s x)"
proof -
  note kp = swap_page [OF inv k]
  define pi pj where pp: "pi = cpage cm i" "pj = cpage cm j"
  have pin: "coremap_pageispinned pi cm = Some True" "coremap_pageispinned pj cm = Some True"
    using p coremap_paddr(2) [OF c(1) p(1), folded pp] coremap_paddr(2) [OF c(1) p(2), folded pp] by (simp_all add: coremap_pageispinned_def)
  have nz: "pi \<noteq> 0" "pj \<noteq> 0" using c(2) by (simp_all add: pp)
  let ?s = "s\<lparr>swapstore := (\<lambda>x. if k * 4096 \<le> x \<and> x < k * 4096 + 4096 then cm_ram cm (pi + (x - k * 4096)) else swapstore s x)\<rparr>"
  let ?c = "cm\<lparr>cm_ram := (\<lambda>x. if pj \<le> x \<and> x < pj + 4096 then swapstore ?s (k * 4096 + (x - pj)) else cm_ram cm x)\<rparr>"
  have "swap_pageout pi (int (k * 4096)) cm s = Some (cm, ?s)" unfolding swap_pageout_def swap_io_def using pin nz kp c(3) ok by (cases s) (simp add: Let_def del: of_nat_mult cong: if_cong)
  moreover have "swap_pagein pj (int (k * 4096)) cm ?s = Some (?c, ?s)" unfolding swap_pagein_def swap_io_def using pin nz kp c(3) ok by (cases s) (simp add: Let_def del: of_nat_mult cong: if_cong)
  moreover have "x div 4096 = j + base_coremap_page cm" if "pj \<le> x" "x < pj + 4096" for x using that unfolding pp by (intro div_nat_eqI) simp_all
  moreover have "x div 4096 = k" if "k * 4096 \<le> x" "x < k * 4096 + 4096" for x using that by (intro div_nat_eqI) simp_all
  ultimately show ?thesis unfolding pp [symmetric] by (intro exI [of _ ?c] exI [of _ ?s]) auto
qed

section \<open>Correctness\<close>

text \<open>C36: Swap space (\<^verbatim>\<open>kern/vm/swap.c\<close>) is a pool of pages of which some are allocated and some are promised. \<^verbatim>\<open>swap_reserve\<close> promises pages
  or reports \<^verbatim>\<open>ENOMEM\<close>, exactly when too few are left; \<^verbatim>\<open>swap_unreserve\<close> takes a promise back; \<^verbatim>\<open>swap_alloc\<close> turns a promise into a page
  that was not allocated, and with a promise always succeeds; \<^verbatim>\<open>swap_free\<close> takes back an allocated page. The counters agree with
  the bit map throughout, so no assertion fails.\<close>

theorem swap_correct:
  assumes "swap_inv s"
  shows "card (swap_taken s) + swap_reserved_pages s + swap_avail s + 1 = swap_total_pages s \<and>
    (if n \<le> swap_avail s then swap_reserve n s = Some (Inr (), s\<lparr>swap_reserved_pages := swap_reserved_pages s + n\<rparr>) \<and>
       swap_inv (s\<lparr>swap_reserved_pages := swap_reserved_pages s + n\<rparr>)
     else swap_reserve n s = Some (Inl ENOMEM, s)) \<and>
    (n \<le> swap_reserved_pages s \<longrightarrow> swap_unreserve n s = Some (s\<lparr>swap_reserved_pages := swap_reserved_pages s - n\<rparr>) \<and>
       swap_inv (s\<lparr>swap_reserved_pages := swap_reserved_pages s - n\<rparr>)) \<and>
    (0 < swap_reserved_pages s \<longrightarrow> (\<exists>k s'. swap_alloc s = Some (int (k * 4096), s') \<and> 0 < k \<and> swap_takes k s s')) \<and>
    (k \<in> swap_taken s \<longrightarrow> (\<exists>s'. swap_free (int (k * 4096)) s = Some s' \<and> swap_gives k s s'))"
  using swap_accounts [OF assms] swap_reserve_ok [OF assms, of n] swap_unreserve_ok [OF assms, of n] swap_alloc_ok [OF assms] swap_free_ok [OF assms, of k] by auto

definition demo_swap :: swapsys where
  "demo_swap = \<lparr>swapmap = \<lparr>nbits = 8, bm_v = [1]\<rparr>, swaplock = False, swap_total_pages = 8, swap_free_pages = 7, swap_reserved_pages = 2,
     swapstore = (\<lambda>_. 0), swap_results = []\<rparr>"

lemma demo_swap_inv: "swap_inv demo_swap"
proof -
  have "bm_bit (swapmap demo_swap) i \<longleftrightarrow> i = 0" if "i < 8" for i using that by (simp add: demo_swap_def bm_bit_def bit_1_iff)
  moreover have "nbits (swapmap demo_swap) = 8" by (simp add: demo_swap_def)
  ultimately have "bitmap_set (swapmap demo_swap) = {0}" unfolding bitmap_set_def by fastforce
  then show ?thesis by (simp add: swap_inv_def demo_swap_def bitmap_inv_def DIVROUNDUP_def)
qed

theorem swap_correct_witness:
  "swap_reserve 6 demo_swap = Some (Inl ENOMEM, demo_swap) \<and> (\<exists>k s s'. swap_alloc demo_swap = Some (int (k * 4096), s) \<and> swap_free (int (k * 4096)) s = Some s' \<and> swap_inv s')"
proof
  have d: "swap_avail demo_swap = 5" "0 < swap_reserved_pages demo_swap" by (simp_all add: swap_avail_def demo_swap_def)
  show "swap_reserve 6 demo_swap = Some (Inl ENOMEM, demo_swap)" using swap_correct [OF demo_swap_inv, of 6] d(1) by simp
  from swap_correct [OF demo_swap_inv] d(2) obtain k s where s: "swap_alloc demo_swap = Some (int (k * 4096), s)" "swap_takes k demo_swap s" by blast
  then have "swap_inv s" "k \<in> swap_taken s" by (auto simp: swap_takes_def)
  with swap_correct obtain s' where "swap_free (int (k * 4096)) s = Some s'" "swap_gives k s s'" by blast
  with s show "\<exists>k s s'. swap_alloc demo_swap = Some (int (k * 4096), s) \<and> swap_free (int (k * 4096)) s = Some s' \<and> swap_inv s'" by (auto simp: swap_gives_def)
qed

end
