(* ===== verification/Spec2Isabelle.thy ===== *)
theory Spec2Isabelle
  imports K_Array K_Bitmap K_Queue K_Pid K_Sfs_Layer K_Device K_Synch K_Swap
begin

text \<open>
  A verification library for the OS/161 kernel under \<^verbatim>\<open>src/a3/src/kern\<close>, the last of the kernels in the
  repository (the trees a1, a2, ex1, ex2 and ex3 are earlier versions of it).

  \<^bold>\<open>The parts of the program.\<close> A system call of a user program enters \<^verbatim>\<open>userprog/file_syscalls.c\<close>, which
  finds the open file of the descriptor (\<^verbatim>\<open>userprog/file.c\<close>) and calls the VFS layer (\<^verbatim>\<open>fs/vfs\<close>). The VFS layer
  translates path names, keeps the table of devices and mounted file systems and calls vnodes through
  function tables. One table belongs to the simple file system (\<^verbatim>\<open>fs/sfs\<close>), which keeps inodes, directories and a
  free-block bit map on a disk (\<^verbatim>\<open>dev/lamebus/lhd.c\<close>); another belongs to devices (\<^verbatim>\<open>fs/vfs/device.c\<close>). Data
  moves between user memory, kernel buffers and disk blocks by \<^verbatim>\<open>uiomove\<close> (\<^verbatim>\<open>userprog/uio.c\<close>). Process
  identifiers, exit and join are in \<^verbatim>\<open>thread/pid.c\<close>; threads, the run queue and the context switch in \<^verbatim>\<open>thread/thread.c\<close>,
  \<^verbatim>\<open>thread/scheduler.c\<close> and \<^verbatim>\<open>thread/hardclock.c\<close>; semaphores, locks and condition variables in \<^verbatim>\<open>thread/synch.c\<close>. Arrays, bit maps and ring queues (\<^verbatim>\<open>lib\<close>) are the containers
  that all of these use. Memory comes from the kernel heap (\<^verbatim>\<open>lib/kheap.c\<close>), which takes its pages from the VM system,
  \<^verbatim>\<open>arch/mips/mips/dumbvm.c\<close> or \<^verbatim>\<open>arch/mips/mips/coremap.c\<close>; the VM system also keeps the address spaces of the processes and loads the translation buffer.

  \<^bold>\<open>How code becomes definitions.\<close> A routine becomes a function of the same name that takes the state it
  reads and writes and returns an option: \<open>None\<close> is a panic, a failed assertion, a dereference of a bad
  pointer or signed overflow, and theorems that a routine returns say that the result is \<open>Some\<close>.
  Inside the option a routine that returns an error code gives \<open>Inl errno\<close> or \<open>Inr value\<close>. Heap objects with
  identity (vnodes, open files) live in maps from addresses. Machine integers are \<open>int\<close> or \<open>nat\<close> with the
  conversions written out (\<open>cint\<close> for checked signed arithmetic, \<open>u32\<close> and \<open>off32\<close> for wrap-around), or words where
  the code works on bits. The outcomes of the calls of \<^verbatim>\<open>kmalloc\<close>, of disk requests and of copies to and from
  user memory are lists in the state, so every failure path is a branch of the model. Locks are a set of
  held locks: taking one twice or releasing one that is not held is the assertion failure of \<^verbatim>\<open>synch.c\<close>; \<open>K_Synch\<close>
  shows that the locks themselves exclude each other and, unless one is destroyed under its sleepers, lose no wake-up.

  \<^bold>\<open>The theories.\<close>
  \<^item> \<open>K_Prelude\<close>: results, assertions, checked arithmetic, allocation outcomes, shared lemmas.
  \<^item> \<open>K_Array\<close>, \<open>K_Bitmap\<close>, \<open>K_Queue\<close>: \<^verbatim>\<open>lib/array.c\<close>, \<^verbatim>\<open>lib/bitmap.c\<close>, \<^verbatim>\<open>lib/queue.c\<close>. Each has an invariant, an abstraction
    (a list or a set of bits) and a locale with the laws its clients use (\<open>dyn_array\<close>, \<open>fifo_queue\<close> and the bit-map
    interface), interpreted on the code. The mutual recursion of \<^verbatim>\<open>q_grow\<close> and \<^verbatim>\<open>q_addtail\<close> has fuel, shown sufficient.
  \<^item> \<open>K_Pid\<close>: \<^verbatim>\<open>thread/pid.c\<close>: the process table, allocation with its search loop, exit, detach and join. A step relation
    interleaves the operations of all processes around the sleep in \<^verbatim>\<open>pid_join\<close>; reachable states have no lost
    wake-up and a woken parent finds its child exited.
  \<^item> \<open>K_Thread\<close>: \<^verbatim>\<open>thread/thread.c\<close>, \<^verbatim>\<open>thread/scheduler.c\<close>, \<^verbatim>\<open>thread/hardclock.c\<close> on top of the queue, the arrays and
    \<open>K_Pid\<close>. A context switch is one step: the current thread goes on its list, the scheduler picks the next, which
    ends the routine it was switched out of; \<open>t_pcb\<close> says which one. What fork and exit need of address spaces,
    vnodes and file tables is a record of functions. Reachable states keep every thread in exactly one place; wake-up is
    characterised; yielding is round robin; and the reservation that fork makes is one slot short.
  \<^item> \<open>K_Synch\<close>: \<^verbatim>\<open>thread/synch.c\<close>. Routines are cut at their sleeps and \<open>kstep\<close> interleaves those of all threads and
    interrupt handlers; addresses of destroyed objects are used again. A lock leaves its owner only by release or destruction;
    no wake-up is lost as long as no lock or condition variable is destroyed under its sleepers, and what happens when a lock
    is. The assertions on \<^verbatim>\<open>in_interrupt\<close> are not written out and \<^verbatim>\<open>thread_fork\<close> is one step.
  \<^item> \<open>K_Machine\<close>, \<open>K_Dumbvm\<close>: pages, the translation buffer as \<^verbatim>\<open>tlb.h\<close> documents it, \<^verbatim>\<open>ram.c\<close>, and \<^verbatim>\<open>dumbvm.c\<close>. A step relation
    lets processes create, load, copy, activate and destroy address spaces and take faults; no page is shared and the
    translation buffer maps the running process to its own pages. \<open>getppages\<close> is first fit.
  \<^item> \<open>K_Kheap\<close>, \<open>K_Kmalloc\<close>: \<^verbatim>\<open>lib/kheap.c\<close>: page references in linked lists, free lists through the blocks, over a table of page functions.
    The locale \<open>page_source\<close> states what the heap needs of the VM system and is interpreted on \<^verbatim>\<open>dumbvm.c\<close>: blocks never overlap,
    \<^verbatim>\<open>kmalloc\<close> and \<^verbatim>\<open>kfree\<close> change one block, and no assertion of the heap can fail.
  \<^item> \<open>K_Coremap\<close>, \<open>K_Coremap_Pages\<close>, \<open>K_Coremap_Heap\<close>: \<^verbatim>\<open>arch/mips/mips/coremap.c\<close>: the translation buffer and the coremap agree and the \<^verbatim>\<open>mmu\<close>
    routines are operations on translations; the scan for a run of pages is best fit; a freed page is mapped nowhere; while every page is free or a
    kernel page (a kernel without processes), the coremap is a second instance of \<open>page_source\<close>. The retry loop that evicts pages is a \<open>partial_function\<close>, whose \<open>None\<close> is not to return: with the stubs for eviction in
    the source this happens, and the theorems say when.
  \<^item> \<open>K_Swap\<close>: \<^verbatim>\<open>vm/swap.c\<close>: swap pages are reserved, then allocated; the counters agree with the bit map (a client of its interface in
    \<open>K_Bitmap\<close>), and a page written to swap is read back unchanged.
  \<^item> \<open>K_Bytes\<close>, \<open>K_Uio\<close>, \<open>K_Disk\<close>: byte sequences and 32-bit fields, \<^verbatim>\<open>userprog/uio.c\<close>, the disk driver and
    \<^verbatim>\<open>fs/sfs/sfs_io.c\<close> with its retries.
  \<^item> \<open>K_Sfs\<close>, \<open>K_Sfs_Map\<close>, \<open>K_Sfs_Io\<close>, \<open>K_Sfs_Dir\<close>, \<open>K_Sfs_Vnode\<close>, \<open>K_Sfs_Trunc\<close>, \<open>K_Sfs_Table\<close>, \<open>K_Sfs_Ops\<close>, \<open>K_Sfs_Namei\<close>:
    \<^verbatim>\<open>fs/sfs/sfs_vnode.c\<close> and \<^verbatim>\<open>fs/vfs/vnode.c\<close> in the order of the code: inodes, block allocation and block mapping; reads
    and writes; directories as finite maps; reference counts, reclaiming, truncation; loading of vnodes; the vnode
    operations; name lookup. The theorems give the bytes of every file after a write, that other files
    are untouched, what truncation frees and keeps, and that one inode has one vnode.
  \<^item> \<open>K_Sfs_Fs\<close>: \<^verbatim>\<open>fs/sfs/sfs_fs.c\<close>: sync, unmount and mount; what a sync writes the next mount reads back.
  \<^item> \<open>K_Vfs\<close>: \<^verbatim>\<open>fs/vfs/vfslist.c\<close>, \<^verbatim>\<open>vfslookup.c\<close>, \<^verbatim>\<open>vfscwd.c\<close>, \<^verbatim>\<open>vfspath.c\<close> over a record of vnode operations; adding a
    device and finding it by its names.
  \<^item> \<open>K_File\<close>: \<^verbatim>\<open>userprog/file.c\<close> and \<^verbatim>\<open>userprog/file_syscalls.c\<close>.
  \<^item> \<open>K_Device\<close>: \<^verbatim>\<open>fs/vfs/device.c\<close> and \<^verbatim>\<open>fs/vfs/devnull.c\<close>, one instance of the vnode operations.
  \<^item> \<open>K_Sfs_Layer\<close>: the function tables of SFS, the other instance; the locale \<open>seekable_file\<close> states what system calls
    need of a file and is interpreted on SFS, which gives the round trip of \<^verbatim>\<open>write\<close>, \<^verbatim>\<open>lseek\<close> and \<^verbatim>\<open>read\<close>.

  \<^bold>\<open>Bounds.\<close> Loops over tables are structural recursions on the number of places left; the others have a
  measure. Hypotheses such as \<open>a_num a < 2 ^ 29 - 1\<close> keep sizes inside \<^verbatim>\<open>int\<close>; a kernel with the memory of the
  machine cannot reach them.

  \<^bold>\<open>Not modelled.\<close> Device drivers other than the disk, the console, boot and menu code and the MIPS support
  code work on hardware registers and exception frames. User programs, the C library and the tests
  are not part of the kernel. The address spaces and logical pages of assignment 2 (\<^verbatim>\<open>vm/addrspace.c\<close>, \<^verbatim>\<open>vmobj.c\<close>, \<^verbatim>\<open>lpage.c\<close>), whose routines for faults and evictions are stubs, and the block cache are not modelled; the file system
  and the threads see the heap and the address spaces as outcomes of \<^verbatim>\<open>kmalloc\<close> and as functions of the thread system's environment. \<^verbatim>\<open>copyin\<close> and \<^verbatim>\<open>copyout\<close> rest on \<^verbatim>\<open>setjmp\<close> and the fault handler and appear as outcomes.
\<close>

end
